(* ===== verification/Prelude.thy ===== *)
theory Prelude
  imports Main "HOL-Library.Word" "HOL-Library.Monad_Syntax"
begin

text \<open>
  What every component shares: bytes and pages, block copies on pages (\<open>memcpy\<close>,
  \<open>memset\<close>), little-endian integers, the exceptions of the library and results that may
  be exceptions.

  A page is a function from offsets to bytes; the code only touches offsets below
  \<open>PAGE_SIZE\<close>.  An access the C++ code would make outside of an object (a null pointer,
  an index past the end of a vector, a copy past the end of a page) is the value
  \<open>MemoryError\<close>, so that a proof that an operation returns is a proof of its memory
  safety.
\<close>

named_theorems page_simps \<open>reading a page after a block copy\<close>
named_theorems result_simps \<open>inversion of operations that may raise\<close>

type_synonym byte = "8 word"
type_synonym page = "nat \<Rightarrow> byte"

definition PAGE_SIZE :: nat where
  [simp, code_unfold]: "PAGE_SIZE = 4096"

definition zero_page :: page where
  "zero_page = (\<lambda>_. 0)"

lemma zero_page_apply [simp]: "zero_page i = 0"
  by (simp add: zero_page_def)

section \<open>Exceptions and results\<close>

datatype exc =
    BufferPoolFullException
  | BufferPoolException
  | DiskMapException string
  | SystemError
  | MemoryError

type_synonym 'a result = "exc + 'a"

definition bindR :: "'a result \<Rightarrow> ('a \<Rightarrow> 'b result) \<Rightarrow> 'b result" where
  "bindR r f = (case r of Inl e \<Rightarrow> Inl e | Inr x \<Rightarrow> f x)"

lemma bindR_simps [simp]:
  "bindR (Inl e) f = Inl e"
  "bindR (Inr x) f = f x"
  by (simp_all add: bindR_def)

lemma bindR_Inr [result_simps]:
  "bindR r f = Inr y \<longleftrightarrow> (\<exists>x. r = Inr x \<and> f x = Inr y)"
  by (cases r) auto

lemma bindR_assoc: "bindR (bindR r f) g = bindR r (\<lambda>x. bindR (f x) g)"
  by (cases r) auto

definition of_option :: "exc \<Rightarrow> 'a option \<Rightarrow> 'a result" where
  "of_option e x = (case x of None \<Rightarrow> Inl e | Some y \<Rightarrow> Inr y)"

lemma of_option_simps [simp]:
  "of_option e None = Inl e"
  "of_option e (Some y) = Inr y"
  by (simp_all add: of_option_def)

lemma of_option_Inr [result_simps]: "of_option e x = Inr y \<longleftrightarrow> x = Some y"
  by (cases x) auto

definition guardR :: "exc \<Rightarrow> bool \<Rightarrow> unit result" where
  "guardR e b = (if b then Inr () else Inl e)"

lemma guardR_Inr [result_simps]: "guardR e b = Inr u \<longleftrightarrow> b"
  by (simp add: guardR_def)

lemma guardR_True [simp]: "guardR e True = Inr ()"
  by (simp add: guardR_def)

lemma guardR_False [simp]: "guardR e False = Inl e"
  by (simp add: guardR_def)

lemma result_cases:
  obtains (Raise) e where "r = Inl e" | (Return) x where "r = Inr x"
  by (cases r) auto

section \<open>Lists\<close>

lemma map_remove1_inj:
  "inj_on f (set xs) \<Longrightarrow> a \<in> set xs \<Longrightarrow> map f (remove1 a xs) = remove1 (f a) (map f xs)"
proof (induction xs)
  case (Cons x xs)
  then show ?case by (cases "a = x") (auto simp: inj_on_def)
qed simp

lemma remove1_middle: "distinct (us @ a # ws) \<Longrightarrow> remove1 a (us @ a # ws) = us @ ws"
  by (simp add: remove1_append)

text \<open>Where an element of a list stands: first, last, or between two others.\<close>

lemma in_list_cases:
  assumes "a \<in> set as"
  obtains (single) "as = [a]"
    | (first) b ws where "as = a # b # ws"
    | (final) us p where "as = us @ [p, a]"
    | (middle) us p n ws where "as = us @ p # a # n # ws"
proof -
  from assms obtain us ws where as: "as = us @ a # ws" by (meson split_list)
  show thesis
  proof (cases us rule: rev_cases)
    case Nil
    with as single first show thesis by (cases ws) auto
  next
    case (snoc vs p)
    with as final middle show thesis by (cases ws) auto
  qed
qed

section \<open>Block copies on a page\<close>

text \<open>\<open>blit p off bs\<close> is \<open>memcpy(p + off, bs, |bs|)\<close>; \<open>bytes_at p off n\<close> is the \<open>n\<close> bytes
  at \<open>p + off\<close>.\<close>

definition blit :: "page \<Rightarrow> nat \<Rightarrow> byte list \<Rightarrow> page" where
  "blit p off bs = (\<lambda>i. if off \<le> i \<and> i < off + length bs then bs ! (i - off) else p i)"

definition bytes_at :: "page \<Rightarrow> nat \<Rightarrow> nat \<Rightarrow> byte list" where
  "bytes_at p off n = map p [off..<off + n]"

lemma length_bytes_at [simp]: "length (bytes_at p off n) = n"
  by (simp add: bytes_at_def)

lemma nth_bytes_at [simp]: "i < n \<Longrightarrow> bytes_at p off n ! i = p (off + i)"
  by (simp add: bytes_at_def)

lemma blit_Nil [simp]: "blit p off [] = p"
  by (rule ext) (auto simp: blit_def)

lemma blit_apply_in [page_simps]:
  "off \<le> i \<Longrightarrow> i < off + length bs \<Longrightarrow> blit p off bs i = bs ! (i - off)"
  by (simp add: blit_def)

lemma blit_apply_out [page_simps]:
  "i < off \<or> off + length bs \<le> i \<Longrightarrow> blit p off bs i = p i"
  by (auto simp: blit_def)

lemma bytes_at_blit_same [simp]: "n = length bs \<Longrightarrow> bytes_at (blit p off bs) off n = bs"
  by (rule nth_equalityI) (simp_all add: blit_def)

lemma bytes_at_blit_disjoint [page_simps]:
  "off' + n \<le> off \<or> off + length bs \<le> off' \<Longrightarrow> bytes_at (blit p off bs) off' n = bytes_at p off' n"
  by (rule nth_equalityI) (auto simp: blit_def)

lemma blit_bytes_at [simp]: "blit p off (bytes_at p off n) = p"
  by (rule ext) (auto simp: blit_def)

lemma blit_blit_append: "blit (blit p off bs) (off + length bs) cs = blit p off (bs @ cs)"
  by (rule ext) (auto simp: blit_def nth_append)

lemma blit_blit_overwrite:
  "length bs = length cs \<Longrightarrow> blit (blit p off bs) off cs = blit p off cs"
  by (rule ext) (auto simp: blit_def)

lemma blit_commute:
  "off + length bs \<le> off' \<or> off' + length cs \<le> off \<Longrightarrow>
   blit (blit p off bs) off' cs = blit (blit p off' cs) off bs"
  by (rule ext) (auto simp: blit_def)

lemma bytes_at_append: "bytes_at p off m @ bytes_at p (off + m) n = bytes_at p off (m + n)"
  by (rule nth_equalityI) (auto simp: nth_append)

lemma bytes_at_blit_inside:
  assumes "off \<le> off'" "off' + n \<le> off + length bs"
  shows "bytes_at (blit p off bs) off' n = take n (drop (off' - off) bs)"
proof (rule nth_equalityI)
  show "length (bytes_at (blit p off bs) off' n) = length (take n (drop (off' - off) bs))"
    using assms by simp
next
  fix i assume "i < length (bytes_at (blit p off bs) off' n)"
  then have "i < n" by simp
  with assms show "bytes_at (blit p off bs) off' n ! i = take n (drop (off' - off) bs) ! i"
    by (simp add: blit_def add.commute)
qed

section \<open>Little-endian integers\<close>

text \<open>The bytes of an unsigned integer as x86-64 stores them, and the integer they stand for.\<close>

primrec le_bytes :: "nat \<Rightarrow> nat \<Rightarrow> byte list" where
  "le_bytes 0 k = []"
| "le_bytes (Suc n) k = of_nat (k mod 256) # le_bytes n (k div 256)"

primrec le_val :: "byte list \<Rightarrow> nat" where
  "le_val [] = 0"
| "le_val (b # bs) = unat b + 256 * le_val bs"

lemma length_le_bytes [simp]: "length (le_bytes n k) = n"
  by (induction n arbitrary: k) auto

lemma unat_byte_mod: "unat (of_nat (k mod 256) :: byte) = k mod 256"
  by (simp add: unat_of_nat)

lemma le_val_le_bytes: "le_val (le_bytes n k) = k mod 256 ^ n"
proof (induction n arbitrary: k)
  case 0
  then show ?case by simp
next
  case (Suc n)
  have "k mod 256 ^ Suc n = k mod 256 + 256 * (k div 256 mod 256 ^ n)"
    by (simp add: mod_mult2_eq)
  with Suc.IH show ?case by (simp add: unat_byte_mod)
qed

lemma le_val_le_bytes_small [simp]: "k < 256 ^ n \<Longrightarrow> le_val (le_bytes n k) = k"
  by (simp add: le_val_le_bytes)

lemma unat_byte_less: "unat (b :: byte) < 256"
  by (rule order_less_le_trans [OF unsigned_less]) simp

lemma le_val_less: "le_val bs < 256 ^ length bs"
proof (induction bs)
  case Nil
  then show ?case by simp
next
  case (Cons b bs)
  then have "256 * (le_val bs + 1) \<le> 256 * 256 ^ length bs" by (intro mult_le_mono2) simp
  moreover have "unat b < 256" by (rule unat_byte_less)
  ultimately show ?case by simp
qed

lemma le_bytes_le_val [simp]: "n = length bs \<Longrightarrow> le_bytes n (le_val bs) = bs"
proof (induction bs arbitrary: n)
  case Nil
  then show ?case by simp
next
  case (Cons b bs)
  have "unat b < 256" by (rule unat_byte_less)
  then have "(unat b + 256 * le_val bs) mod 256 = unat b"
    and "(unat b + 256 * le_val bs) div 256 = le_val bs" by simp_all
  with Cons show ?case by simp
qed

lemma le_bytes_zero: "le_bytes n 0 = replicate n 0"
  by (induction n) auto

definition zeros :: "nat \<Rightarrow> byte list" where
  "zeros n = replicate n 0"

lemma length_zeros [simp]: "length (zeros n) = n"
  by (simp add: zeros_def)

lemma nth_zeros [simp]: "i < n \<Longrightarrow> zeros n ! i = 0"
  by (simp add: zeros_def)

lemma zeros_0 [simp]: "zeros 0 = []"
  by (simp add: zeros_def)

end
