(* ===== verification/Hashing.thy ===== *)
theory Hashing
  imports Prelude "HOL-Library.Signed_Division"
begin

unbundle bit_operations_syntax

text \<open>
  \<open>fnv_hash.h\<close> and \<open>checksum.h\<close>: the hash that places a key in the tree and the checksum of the
  log records, on 64-bit words that wrap around.  A \<open>char\<close> is signed on the platform the library
  is built for, so both sign-extend the bytes they read one at a time.
\<close>

section \<open>The key hash\<close>

definition fnv_offset :: "64 word" where
  "fnv_offset = 14695981039346656037"

definition fnv_prime :: "64 word" where
  "fnv_prime = 1099511628211"

text \<open>One round: \<open>hash *= prime; hash ^= key[i]\<close>.\<close>

definition fnv_step :: "64 word \<Rightarrow> byte \<Rightarrow> 64 word" where
  "fnv_step h c = (h * fnv_prime) XOR scast c"

fun fnv_loop :: "64 word \<Rightarrow> byte list \<Rightarrow> 64 word" where
  "fnv_loop h [] = h"
| "fnv_loop h (c # cs) = fnv_loop (fnv_step h c) cs"

definition fnv_hash :: "byte list \<Rightarrow> 64 word" where
  "fnv_hash key = fnv_loop fnv_offset key"

lemma fnv_loop_append: "fnv_loop h (xs @ ys) = fnv_loop (fnv_loop h xs) ys"
  by (induction xs arbitrary: h) auto

lemma xor_right_cancel: "a XOR c = b XOR c \<longleftrightarrow> a = (b :: 'a::len word)"
  by (metis xor.assoc xor_self_eq xor.right_neutral)

lemma mult_inverse_cancel:
  assumes "i * c = (1 :: 'a::len word)" "a * c = b * c"
  shows "a = b"
proof -
  have "a * c * i = b * c * i" using assms(2) by simp
  then show ?thesis using assms(1) by (metis mult.assoc mult.commute mult.right_neutral)
qed

lemma fnv_prime_inverse: "14886173955864302971 * fnv_prime = 1"
  by (simp add: fnv_prime_def)

lemma fnv_step_inj: "fnv_step h c = fnv_step h' c \<longleftrightarrow> h = h'"
  unfolding fnv_step_def xor_right_cancel using mult_inverse_cancel [OF fnv_prime_inverse] by auto

lemma fnv_loop_inj: "fnv_loop h s = fnv_loop h' s \<longleftrightarrow> h = h'"
  by (induction s arbitrary: h h') (auto simp: fnv_step_inj)

text \<open>Appending the same characters to two keys neither separates hashes that collide nor
  makes hashes collide that differ, which is why the alternative hashes of \<open>get_bucket\<close> prepend a
  character instead.\<close>

theorem fnv_hash_append_collides: "fnv_hash (k @ s) = fnv_hash (l @ s) \<longleftrightarrow> fnv_hash k = fnv_hash l"
  by (simp add: fnv_hash_def fnv_loop_append fnv_loop_inj)

section \<open>The checksum\<close>

definition checksum_init :: "64 word" where
  "checksum_init = 1099511628211"

text \<open>\<open>state += v; state += state << 10; state ^= state >> 6\<close>\<close>

definition mix :: "64 word \<Rightarrow> 64 word \<Rightarrow> 64 word" where
  "mix state v = (let s = state + v; s = s + push_bit 10 s in s XOR drop_bit 6 s)"

fun digest_bytes :: "64 word \<Rightarrow> byte list \<Rightarrow> 64 word" where
  "digest_bytes state [] = state"
| "digest_bytes state (b # bs) = digest_bytes (mix state (scast b)) bs"

text \<open>Whole groups of eight bytes are taken as one little-endian word each, the rest byte by byte.\<close>

function digest :: "64 word \<Rightarrow> byte list \<Rightarrow> 64 word" where
  "digest state data =
     (if 8 \<le> length data then digest (mix state (of_nat (le_val (take 8 data)))) (drop 8 data)
      else digest_bytes state data)"
  by pat_completeness auto
termination
  by (relation "measure (\<lambda>(state, data). length data)") auto

declare digest.simps [simp del]

lemma digest_short: "length data < 8 \<Longrightarrow> digest state data = digest_bytes state data"
  by (subst digest.simps) simp

lemma digest_long:
  "8 \<le> length data \<Longrightarrow> digest state data = digest (mix state (of_nat (le_val (take 8 data)))) (drop 8 data)"
  by (subst digest.simps) simp

lemma drop_bit_fixed_zero:
  assumes "x = drop_bit 6 (x :: 64 word)"
  shows "x = 0"
proof -
  have "unat x = unat (drop_bit 6 x)" using assms by (rule arg_cong)
  also have "\<dots> = unat x div 64" by (simp only: unat_drop_bit_eq) (simp add: drop_bit_eq_div)
  finally have "unat x = 0" by linarith
  then show ?thesis by (simp add: unat_eq_0)
qed

lemma xor_eq_cases:
  assumes "a XOR x = b XOR (y :: 'a::len word)"
  shows "a XOR b = x XOR y"
proof -
  have "bit (a XOR x) n = bit (b XOR y) n" for n by (simp only: assms)
  then show ?thesis by (intro bit_word_eqI) (auto simp: bit_xor_iff)
qed

lemma xorshift_inj:
  assumes "a XOR drop_bit 6 a = b XOR drop_bit 6 (b :: 64 word)"
  shows "a = b"
proof -
  have "a XOR b = drop_bit 6 (a XOR b)" unfolding drop_bit_xor by (rule xor_eq_cases [OF assms])
  then have "a XOR b = 0" by (rule drop_bit_fixed_zero)
  then have "(a XOR b) XOR b = 0 XOR b" by (rule arg_cong)
  then show ?thesis by (simp only: xor.assoc xor_self_eq xor.left_neutral xor.right_neutral)
qed

lemma mix_shift: "s + push_bit 10 s = s * (1025 :: 64 word)"
  by (simp add: push_bit_eq_mult)

lemma mix_inj: "mix a u = mix b v \<Longrightarrow> a + u = b + v"
  unfolding mix_def Let_def mix_shift
  by (drule xorshift_inj) (erule mult_inverse_cancel [of 1151796703138937857, rotated], simp)

lemma mix_inj_state: "mix a v = mix b v \<longleftrightarrow> a = b"
  by (auto dest: mix_inj)

lemma mix_inj_value: "mix a u = mix a v \<longleftrightarrow> u = v"
  by (auto dest: mix_inj)

lemma digest_bytes_inj: "digest_bytes a bs = digest_bytes b bs \<longleftrightarrow> a = b"
  by (induction bs arbitrary: a b) (auto simp: mix_inj_state)

lemma digest_inj: "digest a bs = digest b bs \<longleftrightarrow> a = b"
proof (induction a bs arbitrary: b rule: digest.induct)
  case (1 a bs)
  show ?case
  proof (cases "8 \<le> length bs")
    case True
    with 1 show ?thesis by (simp add: digest_long mix_inj_state)
  next
    case False
    then show ?thesis by (simp add: digest_short digest_bytes_inj)
  qed
qed

lemma of_nat_le_val_inj:
  assumes "length bs = 8" "length cs = 8" "of_nat (le_val bs) = (of_nat (le_val cs) :: 64 word)"
  shows "bs = cs"
proof -
  have "le_val bs < 2 ^ 64" "le_val cs < 2 ^ 64" using le_val_less [of bs] le_val_less [of cs] assms by simp_all
  then have "le_val bs = le_val cs" using arg_cong [OF assms(3), of unat] by (simp add: unat_of_nat)
  then show ?thesis using assms by (metis le_bytes_le_val)
qed

lemma scast_byte_inj: "(scast b :: 64 word) = scast c \<longleftrightarrow> b = (c :: byte)"
proof
  assume "(scast b :: 64 word) = scast c"
  then have "scast (scast b :: 64 word) = (scast (scast c :: 64 word) :: byte)" by simp
  then show "b = c" by (simp add: scast_down_scast_id is_down_def target_size_def source_size_def word_size)
qed simp


lemma digest_append_words:
  "length xs mod 8 = 0 \<Longrightarrow> digest s (xs @ ys) = digest (digest s xs) ys"
proof (induction s xs rule: digest.induct)
  case (1 s xs)
  show ?case
  proof (cases "8 \<le> length xs")
    case True
    then have "length (drop 8 xs) mod 8 = 0" using 1(2) by (simp add: le_mod_geq)
    then show ?thesis using 1(1) [OF True] True by (simp add: digest_long)
  next
    case False
    then have "xs = []" using 1(2) by simp
    then show ?thesis by (simp add: digest_short)
  qed
qed

lemma digest_word:
  "length w = 8 \<Longrightarrow> digest s (w @ ys) = digest (mix s (of_nat (le_val w))) ys"
  by (subst digest_long) simp_all

lemma digest_bytes_append: "digest_bytes s (xs @ ys) = digest_bytes (digest_bytes s xs) ys"
  by (induction xs arbitrary: s) auto

section \<open>Buckets\<close>

text \<open>\<open>while (depth > 0) { hash /= BRANCHING_FACTOR; depth--; } return hash % BRANCHING_FACTOR;\<close>\<close>

definition BRANCHING_FACTOR :: "64 word" where
  "BRANCHING_FACTOR = 512"

fun divide_down :: "64 word \<Rightarrow> nat \<Rightarrow> 64 word" where
  "divide_down hash 0 = hash"
| "divide_down hash (Suc depth) = divide_down (hash div BRANCHING_FACTOR) depth"

definition get_bucket_hash :: "64 word \<Rightarrow> int \<Rightarrow> nat" where
  "get_bucket_hash hash depth = unat (divide_down hash (nat depth) mod BRANCHING_FACTOR)"

definition SPLITS_PER_HASH :: int where
  "SPLITS_PER_HASH = 8"

text \<open>Below the levels that the hash of the key decides, the code hashes the key with a character
  in front.\<close>

definition get_bucket :: "byte list \<Rightarrow> int \<Rightarrow> nat" where
  "get_bucket key depth =
     (let depth = depth - 1;
          hash_function = depth sdiv SPLITS_PER_HASH;
          hash_key = (if hash_function > 0 then of_int (48 + hash_function) # key else key)
      in get_bucket_hash (fnv_hash hash_key) depth)"

lemma unat_divide_down: "unat (divide_down h n) = unat h div 512 ^ n"
proof (induction n arbitrary: h)
  case (Suc n)
  have "unat (h div BRANCHING_FACTOR) = unat h div 512" by (simp add: BRANCHING_FACTOR_def unat_div)
  then show ?case by (simp add: Suc.IH div_mult2_eq)
qed simp

lemma get_bucket_hash_digit: "get_bucket_hash h d = unat h div 512 ^ nat d mod 512"
  by (simp add: get_bucket_hash_def BRANCHING_FACTOR_def unat_mod unat_divide_down)

lemma get_bucket_hash_deep: "8 \<le> d \<Longrightarrow> get_bucket_hash h d = 0"
proof -
  assume "8 \<le> d"
  then have "(512::nat) ^ 8 \<le> 512 ^ nat d" by (intro power_increasing) simp_all
  moreover have "unat h < 512 ^ 8" using unsigned_less [of h] by (rule order_less_le_trans) simp
  ultimately show ?thesis by (simp add: get_bucket_hash_digit)
qed

lemma get_bucket_shallow:
  assumes "d \<le> 8"
  shows "get_bucket k d = get_bucket_hash (fnv_hash k) (d - 1)"
proof -
  have "\<not> 0 < (d - 1) sdiv 8"
  proof (cases "0 \<le> d - 1")
    case True
    then show ?thesis using assms by (simp add: signed_divide_int_def)
  next
    case False
    then have "(d - 1) sdiv 8 = - ((1 - d) div 8)" by (simp add: signed_divide_int_def)
    moreover have "0 \<le> (1 - d) div 8" using False by (simp add: pos_imp_zdiv_nonneg_iff)
    ultimately show ?thesis by simp
  qed
  then show ?thesis by (simp add: get_bucket_def SPLITS_PER_HASH_def Let_def)
qed

lemma get_bucket_deep: "9 \<le> d \<Longrightarrow> get_bucket k d = 0"
  by (simp add: get_bucket_def Let_def get_bucket_hash_deep)

lemma digits_determine:
  fixes a b :: nat
  assumes "\<And>i. i < n \<Longrightarrow> a div 512 ^ i mod 512 = b div 512 ^ i mod 512"
  shows "a mod 512 ^ n = b mod 512 ^ n"
  using assms
proof (induction n)
  case (Suc n)
  have "x mod 512 ^ Suc n = 512 ^ n * (x div 512 ^ n mod 512) + x mod 512 ^ n" for x :: nat
    by (metis mod_mult2_eq mult.commute power_Suc)
  with Suc show ?case by simp
qed simp

lemma same_hash_same_bucket:
  assumes "fnv_hash k = fnv_hash l" "1 \<le> d"
  shows "get_bucket k d = get_bucket l d"
  using assms by (cases "d \<le> 8") (simp_all add: get_bucket_shallow get_bucket_deep)

lemma same_digits_same_hash:
  assumes "\<And>i. i < 8 \<Longrightarrow> get_bucket k (1 + int i) = get_bucket l (1 + int i)"
  shows "fnv_hash k = fnv_hash l"
proof -
  have "unat (fnv_hash k) div 512 ^ i mod 512 = unat (fnv_hash l) div 512 ^ i mod 512" if "i < 8" for i
    using assms [OF that] that by (simp add: get_bucket_shallow get_bucket_hash_digit)
  then have "unat (fnv_hash k) mod 512 ^ 8 = unat (fnv_hash l) mod 512 ^ 8" by (rule digits_determine)
  moreover have "unat h < 512 ^ 8" for h :: "64 word"
    using unsigned_less [of h] by (rule order_less_le_trans) simp
  ultimately have "unat (fnv_hash k) = unat (fnv_hash l)" by simp
  then show "fnv_hash k = fnv_hash l" by (rule unsigned_word_eqI)
qed

text \<open>C39: Two keys go to the same bucket at every depth exactly if their hashes are equal: the first
  eight levels spell out the whole hash, and below them every key goes to bucket 0.  The
  alternative hashes meant for keys whose hashes collide therefore never separate them.\<close>

theorem get_bucket_separates:
  "(\<forall>level. get_bucket k (1 + int level) = get_bucket l (1 + int level)) \<longleftrightarrow> fnv_hash k = fnv_hash l"
  using same_hash_same_bucket [of k l] same_digits_same_hash [of k l] by auto

section \<open>What the checksum detects\<close>

text \<open>Changing a single byte of the data always changes the state of the checksum, wherever
  the byte is: in a group of eight or in the rest.\<close>

theorem digest_detects_byte: "digest s (xs @ b # ys) = digest s (xs @ c # ys) \<longleftrightarrow> b = c"
proof
  assume eq: "digest s (xs @ b # ys) = digest s (xs @ c # ys)"
  define n where "n = length xs div 8 * 8"
  define us where "us = drop n xs"
  have us: "xs = take n xs @ us" "length us < 8" by (auto simp: us_def n_def minus_div_mult_eq_mod)
  have tk: "length (take n xs) mod 8 = 0"
    using div_mult_mod_eq [of "length xs" 8] by (simp add: n_def min_absorb2)
  define s1 where "s1 = digest s (take n xs)"
  have eq1: "digest s1 (us @ b # ys) = digest s1 (us @ c # ys)"
    using eq us(1) digest_append_words [OF tk, of s] by (metis append.assoc s1_def)
  show "b = c"
  proof (cases "8 \<le> length (us @ b # ys)")
    case True
    define m where "m = 7 - length us"
    have ys: "ys = take m ys @ drop m ys" "length (take m ys) = m" using True us(2) by (auto simp: m_def)
    have w: "length (us @ x # take m ys) = 8" for x using ys(2) us(2) by (simp add: m_def)
    have "digest s1 (us @ x # ys) = digest (mix s1 (of_nat (le_val (us @ x # take m ys)))) (drop m ys)" for x
      using digest_word [OF w, of s1 x "drop m ys"] ys(1) by simp
    then have "(of_nat (le_val (us @ b # take m ys)) :: 64 word) = of_nat (le_val (us @ c # take m ys))"
      using eq1 by (simp add: digest_inj mix_inj_value)
    then show ?thesis using of_nat_le_val_inj [OF w w] by simp
  next
    case False
    then have "digest s1 (us @ x # ys) = digest_bytes (mix (digest_bytes s1 us) (scast x)) ys" for x
      by (simp add: digest_short digest_bytes_append)
    then show ?thesis using eq1 by (simp add: digest_bytes_inj mix_inj_value scast_byte_inj)
  qed
qed simp

text \<open>Differences of two states above a bit move down six bits a round at most.\<close>

lemma take_bit_word_add:
  "take_bit n (take_bit n a + take_bit n b) = take_bit n (a + b :: 'a::len word)"
  by transfer (simp add: take_bit_add)

lemma take_bit_word_mult:
  "take_bit n (take_bit n a * take_bit n b) = take_bit n (a * b :: 'a::len word)"
  by transfer (simp add: take_bit_mult)

lemma mix_low_bits:
  assumes "take_bit (n + 6) a = take_bit (n + 6) b" "take_bit (n + 6) u = take_bit (n + 6) (v :: 64 word)"
  shows "take_bit n (mix a u) = take_bit n (mix b v)"
proof -
  define s t where "s = (a + u) * 1025" and "t = (b + v) * (1025 :: 64 word)"
  have "take_bit (n + 6) (a + u) = take_bit (n + 6) (take_bit (n + 6) a + take_bit (n + 6) u)"
    by (simp only: take_bit_word_add)
  also have "\<dots> = take_bit (n + 6) (b + v)" unfolding assms by (simp only: take_bit_word_add)
  finally have e: "take_bit (n + 6) (a + u) = take_bit (n + 6) (b + v)" .
  have "take_bit (n + 6) s = take_bit (n + 6) (take_bit (n + 6) (a + u) * take_bit (n + 6) 1025)"
    unfolding s_def by (simp only: take_bit_word_mult)
  also have "\<dots> = take_bit (n + 6) t" unfolding e t_def by (simp only: take_bit_word_mult)
  finally have st: "take_bit (n + 6) s = take_bit (n + 6) t" .
  have "take_bit n s = take_bit n t"
    using arg_cong [OF st, of "take_bit n"] by (simp only: take_bit_take_bit) simp
  moreover have "take_bit n (drop_bit 6 s) = take_bit n (drop_bit 6 t)"
  proof -
    have "take_bit n (drop_bit 6 x) = drop_bit 6 (take_bit (n + 6) x)" for x :: "64 word"
      by (simp only: take_bit_drop_bit add.commute)
    then show ?thesis by (simp only: st)
  qed
  ultimately show ?thesis
    by (simp only: mix_def Let_def mix_shift s_def [symmetric] t_def [symmetric] take_bit_xor)
qed

end
