(* ===== verification/Replacer.thy ===== *)
theory Replacer
  imports Prelude
begin

text \<open>
  \<open>replacer.h\<close>, \<open>replacer.cpp\<close>: the least-recently-used list and the replacer with two
  priorities.  The nodes of \<open>LRUReplacer\<close> live in an explicit heap, pointers are optional
  addresses (\<open>None\<close> is \<open>nullptr\<close>), and every access through a pointer that is null or was
  deleted makes the operation \<open>None\<close>.  The lemmas show that under the list invariant no
  operation makes such an access and that each one is the operation on the list of values,
  most recently used first, that the comments of the header promise.
\<close>

section \<open>The data structure\<close>

record node =
  val :: int
  nxt :: "nat option"
  prv :: "nat option"

record LRUReplacer =
  head :: "nat option"
  tail :: "nat option"
  lru_size :: nat
  lru_map :: "int \<rightharpoonup> nat"
  heap :: "nat \<rightharpoonup> node"
  fresh :: nat \<comment> \<open>the allocator: the next address \<open>new\<close> returns\<close>

definition LRUReplacer_init :: LRUReplacer where
  "LRUReplacer_init = \<lparr>head = None, tail = None, lru_size = 0, lru_map = Map.empty,
     heap = Map.empty, fresh = 0\<rparr>"

definition LRUReplacer_contains :: "int \<Rightarrow> LRUReplacer \<Rightarrow> bool" where
  "LRUReplacer_contains v s \<longleftrightarrow> lru_map s v \<noteq> None"

text \<open>Reading the node a pointer points to, and assigning its two fields.\<close>

definition deref :: "nat option \<Rightarrow> LRUReplacer \<Rightarrow> node option" where
  "deref p s = Option.bind p (heap s)"

definition set_nxt :: "nat option \<Rightarrow> nat option \<Rightarrow> LRUReplacer \<Rightarrow> LRUReplacer option" where
  "set_nxt p q s = do { a \<leftarrow> p; nd \<leftarrow> heap s a;
     Some (s\<lparr>heap := (heap s)(a \<mapsto> nd\<lparr>nxt := q\<rparr>)\<rparr>) }"

definition set_prv :: "nat option \<Rightarrow> nat option \<Rightarrow> LRUReplacer \<Rightarrow> LRUReplacer option" where
  "set_prv p q s = do { a \<leftarrow> p; nd \<leftarrow> heap s a;
     Some (s\<lparr>heap := (heap s)(a \<mapsto> nd\<lparr>prv := q\<rparr>)\<rparr>) }"

text \<open>\<open>node->prev->next = node->next; node->next->prev = node->prev;\<close>\<close>

definition unlink_middle :: "nat \<Rightarrow> LRUReplacer \<Rightarrow> LRUReplacer option" where
  "unlink_middle a s = do {
     nd \<leftarrow> deref (Some a) s;
     s \<leftarrow> set_nxt (prv nd) (nxt nd) s;
     nd \<leftarrow> deref (Some a) s;
     set_prv (nxt nd) (prv nd) s }"

text \<open>\<open>tail = node->prev; tail->next = nullptr;\<close>\<close>

definition unlink_tail :: "nat \<Rightarrow> LRUReplacer \<Rightarrow> LRUReplacer option" where
  "unlink_tail a s = do {
     nd \<leftarrow> deref (Some a) s;
     set_nxt (prv nd) None (s\<lparr>tail := prv nd\<rparr>) }"

text \<open>\<open>node->next = head; head->prev = node; head = node;\<close>\<close>

definition link_head :: "nat \<Rightarrow> LRUReplacer \<Rightarrow> LRUReplacer option" where
  "link_head a s = do {
     s \<leftarrow> set_nxt (Some a) (head s) s;
     s \<leftarrow> set_prv (head s) (Some a) s;
     Some (s\<lparr>head := Some a\<rparr>) }"

text \<open>\<open>Node *node = new Node(val); map[val] = node;\<close>\<close>

definition new_node :: "int \<Rightarrow> LRUReplacer \<Rightarrow> LRUReplacer" where
  "new_node v s = s\<lparr>heap := (heap s)(fresh s \<mapsto> \<lparr>val = v, nxt = None, prv = None\<rparr>),
     fresh := Suc (fresh s), lru_map := (lru_map s)(v \<mapsto> fresh s)\<rparr>"

definition LRUReplacer_insert :: "int \<Rightarrow> LRUReplacer \<Rightarrow> LRUReplacer option" where
  "LRUReplacer_insert v s =
     (case lru_map s v of
       None \<Rightarrow>
         (let a = fresh s; s = new_node v s
          in do {
            s \<leftarrow> (if head s = None then Some (s\<lparr>head := Some a, tail := Some a\<rparr>)
                 else link_head a s);
            Some (s\<lparr>lru_size := lru_size s + 1\<rparr>) })
     | Some a \<Rightarrow>
         if head s = Some a then Some s
         else do {
           s \<leftarrow> (if tail s = Some a then unlink_tail a s else unlink_middle a s);
           link_head a s })"

definition LRUReplacer_remove :: "int \<Rightarrow> LRUReplacer \<Rightarrow> (bool \<times> LRUReplacer) option" where
  "LRUReplacer_remove v s =
     (case lru_map s v of
       None \<Rightarrow> Some (False, s)
     | Some a \<Rightarrow> do {
         s \<leftarrow> (if head s = Some a \<and> tail s = Some a then Some (s\<lparr>head := None, tail := None\<rparr>)
              else if head s = Some a then do {
                nd \<leftarrow> deref (Some a) s;
                set_prv (nxt nd) None (s\<lparr>head := nxt nd\<rparr>) }
              else if tail s = Some a then unlink_tail a s
              else unlink_middle a s);
         Some (True, s\<lparr>lru_map := (lru_map s)(v := None), heap := (heap s)(a := None),
                       lru_size := lru_size s - 1\<rparr>) })"

definition LRUReplacer_evict :: "LRUReplacer \<Rightarrow> (int \<times> LRUReplacer) option" where
  "LRUReplacer_evict s =
     (if head s = None then Some (-1, s)
      else do {
        nd \<leftarrow> deref (tail s) s;
        (_, s) \<leftarrow> LRUReplacer_remove (val nd) s;
        Some (val nd, s) })"

record DualPriorityReplacer =
  important :: LRUReplacer
  unimportant :: LRUReplacer

definition DualPriorityReplacer_init :: DualPriorityReplacer where
  "DualPriorityReplacer_init = \<lparr>important = LRUReplacer_init, unimportant = LRUReplacer_init\<rparr>"

definition DualPriorityReplacer_insert ::
  "int \<Rightarrow> bool \<Rightarrow> DualPriorityReplacer \<Rightarrow> DualPriorityReplacer option" where
  "DualPriorityReplacer_insert v advise d =
     (if advise then
        (if \<not> LRUReplacer_contains v (important d)
         then do { u \<leftarrow> LRUReplacer_insert v (unimportant d); Some (d\<lparr>unimportant := u\<rparr>) }
         else Some d)
      else do {
        i \<leftarrow> LRUReplacer_insert v (important d);
        (_, u) \<leftarrow> LRUReplacer_remove v (unimportant d);
        Some (d\<lparr>important := i, unimportant := u\<rparr>) })"

definition DualPriorityReplacer_remove ::
  "int \<Rightarrow> DualPriorityReplacer \<Rightarrow> (bool \<times> DualPriorityReplacer) option" where
  "DualPriorityReplacer_remove v d = do {
     (b, u) \<leftarrow> LRUReplacer_remove v (unimportant d);
     if b then Some (True, d\<lparr>unimportant := u\<rparr>)
     else do {
       (c, i) \<leftarrow> LRUReplacer_remove v (important d);
       Some (c, d\<lparr>unimportant := u, important := i\<rparr>) } }"

definition DualPriorityReplacer_evict ::
  "DualPriorityReplacer \<Rightarrow> (int \<times> DualPriorityReplacer) option" where
  "DualPriorityReplacer_evict d = do {
     (r, u) \<leftarrow> LRUReplacer_evict (unimportant d);
     if r \<noteq> -1 then Some (r, d\<lparr>unimportant := u\<rparr>)
     else do {
       (r, i) \<leftarrow> LRUReplacer_evict (important d);
       Some (r, d\<lparr>unimportant := u, important := i\<rparr>) } }"

section \<open>List segments in the heap\<close>

text \<open>
  \<open>fseg h as e\<close>: following \<open>next\<close> from the first address of \<open>as\<close> visits exactly \<open>as\<close> and
  leaves with \<open>e\<close>.  \<open>bseg h e as\<close>: every node of \<open>as\<close> points back to its predecessor, the first
  one to \<open>e\<close>.
\<close>

fun fseg :: "(nat \<rightharpoonup> node) \<Rightarrow> nat list \<Rightarrow> nat option \<Rightarrow> bool" where
  "fseg h [] e \<longleftrightarrow> True"
| "fseg h [a] e \<longleftrightarrow> map_option nxt (h a) = Some e"
| "fseg h (a # b # as) e \<longleftrightarrow> map_option nxt (h a) = Some (Some b) \<and> fseg h (b # as) e"

fun bseg :: "(nat \<rightharpoonup> node) \<Rightarrow> nat \<Rightarrow> nat list \<Rightarrow> bool" where
  "bseg h e [] \<longleftrightarrow> True"
| "bseg h e (a # as) \<longleftrightarrow> map_option prv (h a) = Some (Some e) \<and> bseg h a as"

lemma fseg_append:
  "fseg h (as @ b # bs) e \<longleftrightarrow> fseg h as (Some b) \<and> fseg h (b # bs) e"
  by (induction h as "Some b" rule: fseg.induct) auto

lemma fseg_Cons_append:
  "fseg h (a # as @ b # bs) e \<longleftrightarrow> fseg h (a # as) (Some b) \<and> fseg h (b # bs) e"
  using fseg_append [of h "a # as"] by simp

lemma bseg_append:
  "bseg h e (as @ bs) \<longleftrightarrow> bseg h e as \<and> bseg h (last (e # as)) bs"
  by (induction as arbitrary: e) auto

lemma fseg_cong: "\<forall>a\<in>set as. map_option nxt (h a) = map_option nxt (h' a) \<Longrightarrow>
   fseg h as e = fseg h' as e"
  by (induction h as e rule: fseg.induct) auto

lemma bseg_cong: "\<forall>a\<in>set as. map_option prv (h a) = map_option prv (h' a) \<Longrightarrow>
   bseg h e as = bseg h' e as"
  by (induction as arbitrary: e) auto

text \<open>
  \<open>chain s as\<close>: \<open>head\<close>, \<open>tail\<close> and the pointers of the nodes link exactly the addresses \<open>as\<close>.
  The \<open>prev\<close> field of the first node is not constrained: \<open>insert\<close> leaves a stale pointer there
  when it moves a node to the front.
\<close>

definition chain :: "LRUReplacer \<Rightarrow> nat list \<Rightarrow> bool" where
  "chain s as \<longleftrightarrow>
     distinct as \<and>
     head s = (if as = [] then None else Some (hd as)) \<and>
     tail s = (if as = [] then None else Some (last as)) \<and>
     fseg (heap s) as None \<and>
     (as \<noteq> [] \<longrightarrow> bseg (heap s) (hd as) (tl as))"

text \<open>The whole invariant: the nodes of the list are all nodes there are, and \<open>map\<close> finds each
  by its value.\<close>

definition lru_rep :: "LRUReplacer \<Rightarrow> nat list \<Rightarrow> bool" where
  "lru_rep s as \<longleftrightarrow>
     chain s as \<and>
     dom (heap s) = set as \<and>
     (\<forall>v a. lru_map s v = Some a \<longleftrightarrow> map_option val (heap s a) = Some v) \<and>
     (\<forall>a\<in>set as. a < fresh s) \<and>
     lru_size s = length as"

definition vals :: "LRUReplacer \<Rightarrow> nat list \<Rightarrow> int list" where
  "vals s as = map (\<lambda>a. val (the (heap s a))) as"

text \<open>Relinking changes neither the values of the nodes nor anything outside of the heap.\<close>

definition same_nodes :: "LRUReplacer \<Rightarrow> LRUReplacer \<Rightarrow> bool" where
  "same_nodes s s' \<longleftrightarrow> (\<forall>a. map_option val (heap s' a) = map_option val (heap s a)) \<and>
     lru_map s' = lru_map s \<and> fresh s' = fresh s \<and> lru_size s' = lru_size s"

lemma same_nodes_refl [simp]: "same_nodes s s"
  by (simp add: same_nodes_def)

lemma same_nodes_trans: "same_nodes s t \<Longrightarrow> same_nodes t u \<Longrightarrow> same_nodes s u"
  by (simp add: same_nodes_def)

lemma same_nodes_dom: "same_nodes s s' \<Longrightarrow> dom (heap s') = dom (heap s)"
  by (auto simp: same_nodes_def dom_def) (metis option.map_disc_iff option.exhaust)+

lemma set_nxt_Some: "heap s a = Some nd \<Longrightarrow>
   set_nxt (Some a) q s = Some (s\<lparr>heap := (heap s)(a \<mapsto> nd\<lparr>nxt := q\<rparr>)\<rparr>)"
  by (simp add: set_nxt_def)

lemma set_prv_Some: "heap s a = Some nd \<Longrightarrow>
   set_prv (Some a) q s = Some (s\<lparr>heap := (heap s)(a \<mapsto> nd\<lparr>prv := q\<rparr>)\<rparr>)"
  by (simp add: set_prv_def)

lemma fseg_dom: "fseg h as e \<Longrightarrow> set as \<subseteq> dom h"
  by (induction h as e rule: fseg.induct) auto

lemma fseg_last: "fseg h (as @ [a]) e \<longleftrightarrow> fseg h as (Some a) \<and> map_option nxt (h a) = Some e"
  by (simp add: fseg_append)

lemma fseg_upd_notin [simp]: "a \<notin> set as \<Longrightarrow> fseg (h(a := x)) as e = fseg h as e"
  by (rule fseg_cong) auto

lemma bseg_upd_notin [simp]: "a \<notin> set as \<Longrightarrow> bseg (h(a := x)) e as = bseg h e as"
  by (rule bseg_cong) auto

lemma fseg_upd_prv [simp]:
  "h a = Some nd \<Longrightarrow> fseg (h(a \<mapsto> nd\<lparr>prv := q\<rparr>)) as e = fseg h as e"
  by (rule fseg_cong) auto

lemma bseg_upd_nxt [simp]:
  "h a = Some nd \<Longrightarrow> bseg (h(a \<mapsto> nd\<lparr>nxt := q\<rparr>)) e as = bseg h e as"
  by (rule bseg_cong) auto

text \<open>A chain taken apart at a node in the middle.\<close>

lemma chain_middle:
  "chain s (us @ p # a # n # ws) \<longleftrightarrow>
     distinct (us @ p # a # n # ws) \<and>
     head s = Some (hd (us @ [p])) \<and> tail s = Some (last (n # ws)) \<and>
     fseg (heap s) us (Some p) \<and> map_option nxt (heap s p) = Some (Some a) \<and>
     map_option nxt (heap s a) = Some (Some n) \<and> fseg (heap s) (n # ws) None \<and>
     (us \<noteq> [] \<longrightarrow> bseg (heap s) (hd us) (tl us @ [p])) \<and>
     map_option prv (heap s a) = Some (Some p) \<and> map_option prv (heap s n) = Some (Some a) \<and>
     bseg (heap s) n ws"
  by (cases us) (auto simp: chain_def fseg_Cons_append bseg_append)

lemma chain_pair:
  "chain s (us @ p # n # ws) \<longleftrightarrow>
     distinct (us @ p # n # ws) \<and>
     head s = Some (hd (us @ [p])) \<and> tail s = Some (last (n # ws)) \<and>
     fseg (heap s) us (Some p) \<and> map_option nxt (heap s p) = Some (Some n) \<and>
     fseg (heap s) (n # ws) None \<and>
     (us \<noteq> [] \<longrightarrow> bseg (heap s) (hd us) (tl us @ [p])) \<and>
     map_option prv (heap s n) = Some (Some p) \<and>
     bseg (heap s) n ws"
  by (cases us) (auto simp: chain_def fseg_Cons_append bseg_append)

text \<open>The four ways a node leaves or enters the chain.\<close>

lemma unlink_middle_chain:
  assumes "chain s (us @ p # a # n # ws)"
  obtains s' where "unlink_middle a s = Some s'" "chain s' (us @ p # n # ws)" "same_nodes s s'"
proof -
  note c = assms [unfolded chain_middle]
  then have d: "p \<noteq> a" "p \<noteq> n" "a \<noteq> n" "p \<notin> set us" "n \<notin> set us" "p \<notin> set ws" "n \<notin> set ws"
    by auto
  from c have "\<exists>np na nn. heap s p = Some np \<and> heap s a = Some na \<and> prv na = Some p \<and>
    nxt na = Some n \<and> heap s n = Some nn" by auto
  then obtain np na nn where np: "heap s p = Some np" and na: "heap s a = Some na"
    and nap: "prv na = Some p" "nxt na = Some n" and nn: "heap s n = Some nn" by blast
  define h where "h = (heap s)(p \<mapsto> np\<lparr>nxt := Some n\<rparr>, n \<mapsto> nn\<lparr>prv := Some p\<rparr>)"
  have r: "unlink_middle a s = Some (s\<lparr>heap := h\<rparr>)"
    using d np na nn nap by (simp add: unlink_middle_def deref_def set_nxt_def set_prv_def h_def)
  have f: "fseg h (n # ws) None"
    using c d np nn by (simp add: h_def)
  have "n \<notin> set (tl us @ [p])" using d by (cases us) auto
  then have b: "us \<noteq> [] \<longrightarrow> bseg h (hd us) (tl us @ [p])" "bseg h n ws"
    using c d np nn by (simp_all add: h_def)
  have "chain (s\<lparr>heap := h\<rparr>) (us @ p # n # ws)"
    unfolding chain_pair using c d f b np nn by (simp add: h_def)
  moreover have "same_nodes s (s\<lparr>heap := h\<rparr>)"
    using d np nn by (auto simp: same_nodes_def h_def)
  ultimately show thesis using r that by blast
qed

lemma unlink_tail_chain:
  assumes "chain s (us @ [p, a])"
  obtains s' where "unlink_tail a s = Some s'" "chain s' (us @ [p])" "same_nodes s s'"
proof -
  note c = assms [unfolded chain_pair]
  from c obtain np na where np: "heap s p = Some np" and na: "heap s a = Some na"
    and nap: "prv na = Some p" by auto
  define t where "t = s\<lparr>tail := Some p, heap := (heap s)(p \<mapsto> np\<lparr>nxt := None\<rparr>)\<rparr>"
  have r: "unlink_tail a s = Some t"
    using np na nap by (simp add: unlink_tail_def deref_def set_nxt_def t_def)
  have "chain t (us @ [p])"
    using c np by (cases us) (auto simp: chain_def t_def fseg_Cons_append)
  moreover have "same_nodes s t"
    using np by (auto simp: same_nodes_def t_def)
  ultimately show thesis using r that by blast
qed

lemma unlink_head_chain:
  assumes "chain s (a # b # ws)"
  obtains na s' where "heap s a = Some na"
    "set_prv (nxt na) None (s\<lparr>head := nxt na\<rparr>) = Some s'" "chain s' (b # ws)" "same_nodes s s'"
proof -
  note c = assms [unfolded chain_def]
  from c obtain na nb where na: "heap s a = Some na" "nxt na = Some b" and nb: "heap s b = Some nb"
    by auto
  define t where "t = s\<lparr>head := Some b, heap := (heap s)(b \<mapsto> nb\<lparr>prv := None\<rparr>)\<rparr>"
  have r: "set_prv (nxt na) None (s\<lparr>head := nxt na\<rparr>) = Some t"
    using na nb by (simp add: set_prv_def t_def)
  have "chain t (b # ws)" using c na nb by (auto simp: chain_def t_def)
  moreover have "same_nodes s t" using nb by (auto simp: same_nodes_def t_def)
  ultimately show thesis using na r that by blast
qed

lemma link_head_chain:
  assumes "chain s (b # ws)" "a \<notin> set (b # ws)" "a \<in> dom (heap s)"
  obtains s' where "link_head a s = Some s'" "chain s' (a # b # ws)" "same_nodes s s'"
proof -
  note c = assms(1) [unfolded chain_def]
  from assms(3) obtain na where na: "heap s a = Some na" by auto
  from c fseg_dom [of "heap s" "b # ws" None] obtain nb where nb: "heap s b = Some nb" by auto
  have ab: "a \<noteq> b" "a \<notin> set ws" "b \<notin> set ws" using assms(2) c by auto
  define t where "t = s\<lparr>head := Some a,
    heap := (heap s)(a \<mapsto> na\<lparr>nxt := Some b\<rparr>, b \<mapsto> nb\<lparr>prv := Some a\<rparr>)\<rparr>"
  have r: "link_head a s = Some t"
    using c na nb ab by (simp add: link_head_def set_nxt_def set_prv_def t_def)
  have "chain t (a # b # ws)" using c na nb ab by (auto simp: chain_def t_def)
  moreover have "same_nodes s t" using na nb ab by (auto simp: same_nodes_def t_def)
  ultimately show thesis using r that by blast
qed

section \<open>Each operation is its list operation\<close>

lemma lru_rep_head: "lru_rep s as \<Longrightarrow> head s = (if as = [] then None else Some (hd as))"
  by (simp add: lru_rep_def chain_def)

lemma lru_rep_tail: "lru_rep s as \<Longrightarrow> tail s = (if as = [] then None else Some (last as))"
  by (simp add: lru_rep_def chain_def)

lemma lru_rep_dom: "lru_rep s as \<Longrightarrow> a \<in> set as \<longleftrightarrow> heap s a \<noteq> None"
  by (auto simp: lru_rep_def dom_def)

lemma lru_rep_map:
  assumes "lru_rep s as"
  shows "lru_map s v = Some a \<longleftrightarrow> a \<in> set as \<and> val (the (heap s a)) = v"
proof (cases "heap s a")
  case None
  with assms show ?thesis by (simp add: lru_rep_dom [OF assms]) (simp add: lru_rep_def)
next
  case (Some nd)
  with assms show ?thesis by (simp add: lru_rep_dom [OF assms]) (simp add: lru_rep_def)
qed

lemma lru_map_None: "lru_rep s as \<Longrightarrow> lru_map s v = None \<longleftrightarrow> v \<notin> set (vals s as)"
  using lru_rep_map [of s as v] by (cases "lru_map s v") (force simp: vals_def)+

lemma lru_contains_vals: "lru_rep s as \<Longrightarrow> LRUReplacer_contains v s \<longleftrightarrow> v \<in> set (vals s as)"
  by (simp add: LRUReplacer_contains_def lru_map_None)

lemma inj_on_vals: "lru_rep s as \<Longrightarrow> inj_on (\<lambda>a. val (the (heap s a))) (set as)"
  using lru_rep_map [of s as] by (intro inj_onI) (metis option.inject)

lemma lru_rep_distinct: "lru_rep s as \<Longrightarrow> distinct as"
  by (simp add: lru_rep_def chain_def)

lemma distinct_vals: "lru_rep s as \<Longrightarrow> distinct (vals s as)"
  by (simp add: vals_def distinct_map inj_on_vals lru_rep_distinct)

text \<open>Relinking a permutation of the nodes keeps the invariant.\<close>

lemma same_nodes_vals:
  assumes "same_nodes s s'" "set bs \<subseteq> dom (heap s)"
  shows "vals s' bs = vals s bs"
proof -
  have "val (the (heap s' a)) = val (the (heap s a))" if "a \<in> set bs" for a
  proof -
    from that assms(2) obtain nd where "heap s a = Some nd" by blast
    moreover have "map_option val (heap s' a) = map_option val (heap s a)"
      using assms(1) by (simp add: same_nodes_def)
    ultimately show ?thesis by auto
  qed
  then show ?thesis by (simp add: vals_def)
qed

lemma lru_rep_relink:
  assumes "lru_rep s as" "same_nodes s s'" "chain s' bs" "set bs = set as"
  shows "lru_rep s' bs" "vals s' bs = vals s bs"
proof -
  have "length bs = length as"
    using assms by (metis chain_def distinct_card lru_rep_def)
  with assms show "lru_rep s' bs"
    unfolding lru_rep_def using same_nodes_dom [OF assms(2)] by (simp add: same_nodes_def)
  show "vals s' bs = vals s bs"
    using assms by (intro same_nodes_vals) (simp_all add: lru_rep_def)
qed

lemma vals_remove1:
  "lru_rep s as \<Longrightarrow> a \<in> set as \<Longrightarrow>
   vals s (remove1 a as) = remove1 (val (the (heap s a))) (vals s as)"
  using inj_on_vals by (simp add: vals_def map_remove1_inj)

text \<open>The list a replacer holds, read off its pointers, and its invariant.\<close>

fun walk :: "nat \<Rightarrow> (nat \<rightharpoonup> node) \<Rightarrow> nat option \<Rightarrow> int list" where
  "walk (Suc n) h (Some a) = (case h a of None \<Rightarrow> [] | Some nd \<Rightarrow> val nd # walk n h (nxt nd))"
| "walk _ h _ = []"

definition lru_list :: "LRUReplacer \<Rightarrow> int list" where
  "lru_list s = walk (lru_size s) (heap s) (head s)"

definition lru_inv :: "LRUReplacer \<Rightarrow> bool" where
  "lru_inv s \<longleftrightarrow> (\<exists>as. lru_rep s as)"

lemma walk_fseg:
  "fseg h as None \<Longrightarrow> walk (length as) h (if as = [] then None else Some (hd as)) =
   map (\<lambda>a. val (the (h a))) as"
  by (induction h as "None :: nat option" rule: fseg.induct) auto

lemma lru_list_vals: "lru_rep s as \<Longrightarrow> lru_list s = vals s as"
  unfolding lru_list_def vals_def
  using walk_fseg [of "heap s" as] by (simp add: lru_rep_def chain_def)

lemma lru_init_rep: "lru_rep LRUReplacer_init []"
  by (auto simp: lru_rep_def chain_def LRUReplacer_init_def)

lemma insert_new_rep:
  assumes r: "lru_rep s as" and v: "lru_map s v = None"
  obtains s' where "LRUReplacer_insert v s = Some s'" "lru_rep s' (fresh s # as)"
    "vals s' (fresh s # as) = v # vals s as"
proof -
  define a where "a = fresh s"
  define s1 where "s1 = new_node v s"
  note s1_new = s1_def
  note s1_def = s1_def [unfolded new_node_def, folded a_def]
  have na: "a \<notin> set as" using r by (auto simp: lru_rep_def a_def)
  have ch: "chain s1 as" using r na
    by (cases as) (auto simp: lru_rep_def chain_def s1_def fun_upd_def [symmetric] simp del: fun_upd_apply)
  obtain s2 where s2: "(if head s1 = None then Some (s1\<lparr>head := Some a, tail := Some a\<rparr>)
      else link_head a s1) = Some s2" "chain s2 (a # as)" "same_nodes s1 s2"
  proof (cases as)
    case Nil
    with r ch show thesis
      by (intro that [of "s1\<lparr>head := Some a, tail := Some a\<rparr>"])
         (auto simp: chain_def s1_def same_nodes_def)
  next
    case (Cons b ws)
    have "a \<in> dom (heap s1)" by (simp add: s1_def)
    with ch na Cons obtain s2 where "link_head a s1 = Some s2" "chain s2 (a # as)" "same_nodes s1 s2"
      by (metis link_head_chain)
    with Cons ch that show thesis by (simp add: chain_def)
  qed
  define s' where "s' = s2\<lparr>lru_size := lru_size s2 + 1\<rparr>"
  have ins: "LRUReplacer_insert v s = Some s'"
    using v s2(1) by (auto simp: LRUReplacer_insert_def Let_def a_def [symmetric] s1_new [symmetric] s'_def
        split: if_splits)
  have hv: "map_option val (heap s' x) = (if x = a then Some v else map_option val (heap s x))" for x
    using s2(3) by (simp add: same_nodes_def s'_def s1_def)
  have m: "lru_map s' = (lru_map s)(v \<mapsto> a)" "fresh s' = Suc a" "lru_size s' = Suc (lru_size s)"
    using s2(3) by (simp_all add: same_nodes_def s'_def s1_def)
  have nh: "heap s a = None" using na r by (simp add: lru_rep_dom)
  have nv: "map_option val (heap s x) \<noteq> Some v" for x
    using v r by (auto simp: lru_rep_def) (metis option.distinct(1) option.simps(9))
  have "dom (heap s') = dom (heap s1)" using s2(3) by (simp add: same_nodes_dom s'_def)
  then have "dom (heap s') = set (a # as)" using r by (auto simp: s1_def lru_rep_def)
  moreover have "chain s' (a # as)" using s2(2) by (simp add: chain_def s'_def)
  moreover have "\<forall>w x. lru_map s' w = Some x \<longleftrightarrow> map_option val (heap s' x) = Some w"
    using r m nh nv hv by (auto simp: lru_rep_def)
  moreover have "\<forall>x\<in>set (a # as). x < fresh s'" using r m by (auto simp: lru_rep_def a_def)
  ultimately have rep: "lru_rep s' (a # as)" using r m by (simp add: lru_rep_def)
  have "set as \<subseteq> dom (heap s1)" using r by (auto simp: s1_def lru_rep_def)
  then have "vals s' as = vals s1 as"
    using same_nodes_vals [OF s2(3)] by (simp add: s'_def vals_def)
  also have "\<dots> = vals s as" using na by (auto simp: vals_def s1_def)
  finally have "vals s' (a # as) = v # vals s as"
    using hv [of a] by (auto simp: vals_def)
  with ins rep that show thesis by (simp add: a_def)
qed

lemma insert_old_rep:
  assumes r: "lru_rep s as" and v: "lru_map s v = Some a"
  obtains s' where "LRUReplacer_insert v s = Some s'" "lru_rep s' (a # remove1 a as)"
    "vals s' (a # remove1 a as) = v # remove1 v (vals s as)"
proof -
  note result = that
  have a: "a \<in> set as" "val (the (heap s a)) = v" using lru_rep_map [OF r, of v a] v by auto
  have ch: "chain s as" using r by (simp add: lru_rep_def)
  have vs: "vals s (a # remove1 a as) = v # remove1 v (vals s as)"
    using vals_remove1 [OF r a(1)] a(2) by (simp add: vals_def)
  have fin: thesis if "LRUReplacer_insert v s = Some s'" "same_nodes s s'"
    "chain s' (a # remove1 a as)" for s'
    using lru_rep_relink [OF r that(2,3)] a vs that(1) result lru_rep_distinct [OF r]
    by (simp add: insert_absorb)
  have link: thesis if "(if tail s = Some a then unlink_tail a s else unlink_middle a s) = Some s1"
    "same_nodes s s1" "chain s1 (remove1 a as)" "head s \<noteq> Some a" "remove1 a as \<noteq> []" for s1
  proof -
    note l = that
    obtain b ws where bw: "remove1 a as = b # ws" using l(5) by (cases "remove1 a as") auto
    have "a \<in> dom (heap s1)" using a r same_nodes_dom [OF l(2)] by (simp add: lru_rep_def)
    moreover have "a \<notin> set (b # ws)"
      using bw lru_rep_distinct [OF r] by (metis set_remove1_eq DiffE singletonI)
    ultimately obtain s2 where "link_head a s1 = Some s2" "chain s2 (a # b # ws)" "same_nodes s1 s2"
      using link_head_chain l(3) bw by metis
    then show thesis using fin [of s2] l v bw
      by (simp add: LRUReplacer_insert_def same_nodes_trans [OF l(2)])
  qed
  note d = lru_rep_distinct [OF r] and ht = lru_rep_head [OF r] lru_rep_tail [OF r]
  from a(1) show thesis
  proof (cases rule: in_list_cases)
    case single
    with ht v ch show thesis by (intro fin [of s]) (simp_all add: LRUReplacer_insert_def)
  next
    case (first b ws)
    with ht v ch d show thesis by (intro fin [of s]) (simp_all add: LRUReplacer_insert_def)
  next
    case (final us p)
    obtain s1 where "unlink_tail a s = Some s1" "chain s1 (us @ [p])" "same_nodes s s1"
      using unlink_tail_chain ch final by metis
    with final ht d show thesis by (intro link [of s1]) (auto simp: remove1_append hd_append)
  next
    case (middle us p n ws)
    obtain s1 where "unlink_middle a s = Some s1" "chain s1 (us @ p # n # ws)" "same_nodes s s1"
      using unlink_middle_chain ch middle by metis
    with middle ht d show thesis by (intro link [of s1]) (auto simp: remove1_append hd_append)
  qed
qed

lemma LRUReplacer_insert_rep:
  assumes "lru_rep s as"
  obtains s' bs where "LRUReplacer_insert v s = Some s'" "lru_rep s' bs"
    "vals s' bs = v # remove1 v (vals s as)"
proof (cases "lru_map s v")
  case None
  then have "remove1 v (vals s as) = vals s as"
    using lru_map_None [OF assms] by (simp add: remove1_idem)
  with None show thesis using insert_new_rep [OF assms] that by metis
next
  case (Some a)
  then show thesis using insert_old_rep [OF assms] that by metis
qed

text \<open>Removing: unlinking the node, then dropping it from \<open>map\<close> and the heap.\<close>

lemma LRUReplacer_remove_rep:
  assumes r: "lru_rep s as" and v: "lru_map s v = Some a"
  obtains s' where "LRUReplacer_remove v s = Some (True, s')" "lru_rep s' (remove1 a as)"
    "vals s' (remove1 a as) = remove1 v (vals s as)"
proof -
  note result = that
  have a: "a \<in> set as" "val (the (heap s a)) = v" using lru_rep_map [OF r, of v a] v by auto
  have ch: "chain s as" using r by (simp add: lru_rep_def)
  note d = lru_rep_distinct [OF r] and ht = lru_rep_head [OF r] lru_rep_tail [OF r]
  define upd where "upd s1 = s1\<lparr>lru_map := (lru_map s1)(v := None), heap := (heap s1)(a := None),
    lru_size := lru_size s1 - 1\<rparr>" for s1 :: LRUReplacer
  have fin: thesis if rem: "LRUReplacer_remove v s = Some (True, upd s1)"
    and sn: "same_nodes s s1" and c1: "chain s1 (remove1 a as)" for s1
  proof -
    have na: "a \<notin> set (remove1 a as)" using d by simp
    have c2: "chain (upd s1) (remove1 a as)"
      using c1 na by (cases "remove1 a as") (auto simp: chain_def upd_def simp del: fun_upd_apply)
    have hv: "map_option val (heap (upd s1) x) = (if x = a then None else map_option val (heap s x))" for x
      using sn by (simp add: upd_def same_nodes_def)
    have "dom (heap (upd s1)) = set as - {a}"
      using same_nodes_dom [OF sn] r by (simp add: upd_def lru_rep_def)
    moreover have "lru_map (upd s1) w = Some x \<longleftrightarrow> map_option val (heap (upd s1) x) = Some w" for w x
    proof -
      have m: "lru_map s w = Some x \<longleftrightarrow> map_option val (heap s x) = Some w" for w x
        using r by (simp add: lru_rep_def)
      have "lru_map (upd s1) w = (if w = v then None else lru_map s w)"
        using sn by (simp add: same_nodes_def upd_def)
      with m [of w x] m [of v x] m [of w a] v show ?thesis unfolding hv by auto
    qed
    moreover have "lru_size (upd s1) = length (remove1 a as)"
      using sn r a by (simp add: same_nodes_def upd_def lru_rep_def length_remove1)
    moreover have "\<forall>x\<in>set (remove1 a as). x < fresh (upd s1)"
      using sn r d by (simp add: same_nodes_def upd_def lru_rep_def)
    ultimately have rep: "lru_rep (upd s1) (remove1 a as)"
      using c2 d by (simp add: lru_rep_def)
    have "vals (upd s1) (remove1 a as) = vals s1 (remove1 a as)"
      using d by (auto simp: vals_def upd_def)
    also have "\<dots> = vals s (remove1 a as)"
      using r d by (intro same_nodes_vals [OF sn]) (auto simp: lru_rep_def)
    also have "\<dots> = remove1 v (vals s as)" using vals_remove1 [OF r a(1)] a(2) by simp
    finally show thesis using rem rep result by blast
  qed
  from a(1) show thesis
  proof (cases rule: in_list_cases)
    case single
    with ht v show thesis
      by (intro fin [of "s\<lparr>head := None, tail := None\<rparr>"])
         (simp_all add: LRUReplacer_remove_def upd_def same_nodes_def chain_def)
  next
    case (first b ws)
    with ch obtain na s1 where "heap s a = Some na"
      "set_prv (nxt na) None (s\<lparr>head := nxt na\<rparr>) = Some s1" "chain s1 (b # ws)" "same_nodes s s1"
      using unlink_head_chain by metis
    with first ht v d show thesis
      by (intro fin [of s1]) (auto simp: LRUReplacer_remove_def upd_def deref_def)
  next
    case (final us p)
    obtain s1 where "unlink_tail a s = Some s1" "chain s1 (us @ [p])" "same_nodes s s1"
      using unlink_tail_chain ch final by metis
    with final ht v d show thesis
      by (intro fin [of s1]) (auto simp: LRUReplacer_remove_def upd_def remove1_append hd_append)
  next
    case (middle us p n ws)
    obtain s1 where "unlink_middle a s = Some s1" "chain s1 (us @ p # n # ws)" "same_nodes s s1"
      using unlink_middle_chain ch middle by metis
    with middle ht v d show thesis
      by (intro fin [of s1]) (auto simp: LRUReplacer_remove_def upd_def remove1_append hd_append)
  qed
qed

lemma remove_none: "lru_map s v = None \<Longrightarrow> LRUReplacer_remove v s = Some (False, s)"
  by (simp add: LRUReplacer_remove_def)

section \<open>What \<open>LRUReplacer\<close> promises\<close>

lemma lru_invE:
  assumes "lru_inv s"
  obtains as where "lru_rep s as" "lru_list s = vals s as" "distinct (lru_list s)"
  using assms by (auto simp: lru_inv_def lru_list_vals distinct_vals)

lemma lru_init [simp]: "lru_inv LRUReplacer_init" "lru_list LRUReplacer_init = []"
  using lru_init_rep lru_list_vals [OF lru_init_rep] by (auto simp: lru_inv_def vals_def)

lemma lru_insert:
  assumes "lru_inv s"
  shows "\<exists>s'. LRUReplacer_insert v s = Some s' \<and> lru_inv s' \<and>
    lru_list s' = v # remove1 v (lru_list s)"
proof -
  obtain as where as: "lru_rep s as" "lru_list s = vals s as" using lru_invE [OF assms] .
  obtain s' bs where "LRUReplacer_insert v s = Some s'" "lru_rep s' bs"
    "vals s' bs = v # remove1 v (vals s as)" using LRUReplacer_insert_rep [OF as(1)] .
  then show ?thesis using as lru_list_vals by (auto simp: lru_inv_def)
qed

lemma lru_remove:
  assumes "lru_inv s"
  shows "\<exists>s'. LRUReplacer_remove v s = Some (v \<in> set (lru_list s), s') \<and> lru_inv s' \<and>
    lru_list s' = remove1 v (lru_list s)"
proof -
  obtain as where as: "lru_rep s as" "lru_list s = vals s as" using lru_invE [OF assms] .
  show ?thesis
  proof (cases "lru_map s v")
    case None
    with as show ?thesis
      using lru_map_None [OF as(1)] assms by (simp add: remove_none remove1_idem)
  next
    case (Some a)
    then have "v \<in> set (vals s as)" using lru_map_None [OF as(1), of v] by auto
    then show ?thesis
      using as LRUReplacer_remove_rep [OF as(1) Some] lru_list_vals by (metis lru_inv_def)
  qed
qed

lemma lru_evict_empty: "lru_inv s \<Longrightarrow> lru_list s = [] \<Longrightarrow> LRUReplacer_evict s = Some (-1, s)"
  by (erule lru_invE) (auto simp: LRUReplacer_evict_def lru_rep_head vals_def)

lemma lru_evict:
  assumes "lru_inv s" "lru_list s \<noteq> []"
  shows "\<exists>s'. LRUReplacer_evict s = Some (last (lru_list s), s') \<and> lru_inv s' \<and>
    lru_list s' = butlast (lru_list s)"
proof -
  obtain as where as: "lru_rep s as" "lru_list s = vals s as" "distinct (lru_list s)"
    using lru_invE [OF assms(1)] .
  then have ne: "as \<noteq> []" using assms(2) by (auto simp: vals_def)
  then have "last as \<in> set as" by simp
  then obtain nd where nd: "heap s (last as) = Some nd" using lru_rep_dom [OF as(1)] by auto
  have last: "val nd = last (lru_list s)" using ne nd as(2) by (simp add: vals_def last_map)
  moreover have "remove1 (last (lru_list s)) (lru_list s) = butlast (lru_list s)"
    using as(3) assms(2) by (metis append_butlast_last_id append_Nil2 remove1_middle)
  ultimately show ?thesis
    using lru_remove [OF assms(1), of "val nd"] ne nd
    by (auto simp: LRUReplacer_evict_def deref_def lru_rep_head [OF as(1)] lru_rep_tail [OF as(1)])
qed

lemmas lru_laws = lru_insert lru_remove lru_evict lru_evict_empty

section \<open>The contract of an eviction policy\<close>

text \<open>
  What the buffer pool relies on: a set of candidates (pool indices, hence not negative) that
  \<open>insert\<close> adds to and \<open>remove\<close> takes from, and from which \<open>evict\<close> picks and takes one, or
  answers -1 when there is none.
\<close>

fun drain :: "('s \<Rightarrow> (int \<times> 's) option) \<Rightarrow> nat \<Rightarrow> 's \<Rightarrow> (int list \<times> 's) option" where
  "drain evt 0 s = Some ([], s)"
| "drain evt (Suc n) s = do { (v, s) \<leftarrow> evt s; (vs, s) \<leftarrow> drain evt n s; Some (v # vs, s) }"

locale eviction_policy =
  fixes ins :: "int \<Rightarrow> 's \<Rightarrow> 's option"
    and rem :: "int \<Rightarrow> 's \<Rightarrow> (bool \<times> 's) option"
    and evt :: "'s \<Rightarrow> (int \<times> 's) option"
    and elems :: "'s \<Rightarrow> int set"
    and inv :: "'s \<Rightarrow> bool"
  assumes ins: "inv s \<Longrightarrow> 0 \<le> v \<Longrightarrow>
      \<exists>s'. ins v s = Some s' \<and> inv s' \<and> elems s' = insert v (elems s)"
    and rem: "inv s \<Longrightarrow> \<exists>s'. rem v s = Some (v \<in> elems s, s') \<and> inv s' \<and> elems s' = elems s - {v}"
    and evt_none: "inv s \<Longrightarrow> elems s = {} \<Longrightarrow> evt s = Some (-1, s)"
    and evt_some: "inv s \<Longrightarrow> elems s \<noteq> {} \<Longrightarrow>
      \<exists>v s'. evt s = Some (v, s') \<and> v \<in> elems s \<and> inv s' \<and> elems s' = elems s - {v}"
    and elems: "inv s \<Longrightarrow> finite (elems s) \<and> (\<forall>v\<in>elems s. 0 \<le> v)"
begin

lemma evt_minus_one: "inv s \<Longrightarrow> evt s = Some (v, s') \<Longrightarrow> v = -1 \<longleftrightarrow> elems s = {}"
  using evt_none [of s] evt_some [of s] elems [of s] by fastforce

lemma evt_cases:
  assumes "inv s"
  obtains (none) "elems s = {}" "evt s = Some (-1, s)"
    | (one) v s' where "evt s = Some (v, s')" "v \<in> elems s" "v \<noteq> -1" "0 \<le> v" "inv s'"
        "elems s' = elems s - {v}"
  using evt_none [OF assms] evt_some [OF assms] elems [OF assms] that by fastforce

lemma drain_all:
  assumes "inv s"
  shows "\<exists>vs s'. drain evt (card (elems s)) s = Some (vs, s') \<and> inv s' \<and> elems s' = {} \<and>
    distinct vs \<and> set vs = elems s"
  using assms
proof (induction "card (elems s)" arbitrary: s)
  case 0
  then show ?case using elems [of s] by simp
next
  case (Suc n)
  then have "elems s \<noteq> {}" by auto
  then obtain v s1 where s1: "evt s = Some (v, s1)" "v \<in> elems s" "inv s1" "elems s1 = elems s - {v}"
    using evt_some Suc.prems by metis
  with Suc elems [of s] have c: "n = card (elems s1)" by simp
  then obtain vs s' where "drain evt n s1 = Some (vs, s')" "inv s'" "elems s' = {}"
    "distinct vs" "set vs = elems s1" using Suc.hyps(1) s1(3) by blast
  with s1 Suc.hyps(2) [symmetric] show ?case by auto
qed

end

text \<open>\<open>LRUReplacer\<close> provides the contract.\<close>

abbreviation lru_pool_inv :: "LRUReplacer \<Rightarrow> bool" where
  "lru_pool_inv s \<equiv> lru_inv s \<and> (\<forall>v\<in>set (lru_list s). 0 \<le> v)"

interpretation lru: eviction_policy LRUReplacer_insert LRUReplacer_remove LRUReplacer_evict
  "\<lambda>s. set (lru_list s)" lru_pool_inv
proof
  show "\<exists>s'. LRUReplacer_insert v s = Some s' \<and> lru_pool_inv s' \<and>
      set (lru_list s') = insert v (set (lru_list s))"
    if "lru_pool_inv s" "0 \<le> v" for s v
    using that lru_insert [of s v] lru_invE [of s]
    by (metis DiffE insert_Diff_single list.simps(15) set_remove1_eq insert_iff)
  show "\<exists>s'. LRUReplacer_remove v s = Some (v \<in> set (lru_list s), s') \<and> lru_pool_inv s' \<and>
      set (lru_list s') = set (lru_list s) - {v}" if "lru_pool_inv s" for s v
    using that lru_remove [of s v] lru_invE [of s] by (metis DiffE set_remove1_eq)
  show "LRUReplacer_evict s = Some (-1, s)" if "lru_pool_inv s" "set (lru_list s) = {}" for s
    using that by (simp add: lru_evict_empty)
  show "\<exists>v s'. LRUReplacer_evict s = Some (v, s') \<and> v \<in> set (lru_list s) \<and> lru_pool_inv s' \<and>
      set (lru_list s') = set (lru_list s) - {v}"
    if s: "lru_pool_inv s" "set (lru_list s) \<noteq> {}" for s
  proof -
    obtain s' where s': "LRUReplacer_evict s = Some (last (lru_list s), s')" "lru_inv s'"
      "lru_list s' = butlast (lru_list s)" using s lru_evict by fastforce
    have "distinct (lru_list s)" using s lru_invE by blast
    then have "set (butlast (lru_list s)) = set (lru_list s) - {last (lru_list s)}"
      using s(2) by (metis Diff_insert_absorb append_butlast_last_id distinct.simps(2) distinct1_rotate
        list.simps(15) rotate1.simps(2) set_empty set_rotate1)
    then show ?thesis using s s' by (metis DiffE last_in_set set_empty)
  qed
  show "finite (set (lru_list s)) \<and> (\<forall>v\<in>set (lru_list s). 0 \<le> v)" if "lru_pool_inv s" for s
    using that by simp
qed

section \<open>The replacer with two priorities\<close>

definition dpr_inv :: "DualPriorityReplacer \<Rightarrow> bool" where
  "dpr_inv d \<longleftrightarrow> lru_pool_inv (important d) \<and> lru_pool_inv (unimportant d) \<and>
     set (lru_list (important d)) \<inter> set (lru_list (unimportant d)) = {}"

definition dpr_elems :: "DualPriorityReplacer \<Rightarrow> int set" where
  "dpr_elems d = set (lru_list (important d)) \<union> set (lru_list (unimportant d))"

lemma dpr_init [simp]: "dpr_inv DualPriorityReplacer_init" "dpr_elems DualPriorityReplacer_init = {}"
  by (simp_all add: dpr_inv_def dpr_elems_def DualPriorityReplacer_init_def)

lemma dpr_distinct:
  "dpr_inv d \<Longrightarrow> distinct (lru_list (unimportant d)) \<and> distinct (lru_list (important d))"
  by (metis dpr_inv_def lru_invE)

lemma dpr_insert_advised:
  assumes "dpr_inv d" "0 \<le> v"
  shows "\<exists>d'. DualPriorityReplacer_insert v True d = Some d' \<and> dpr_inv d' \<and>
    important d' = important d \<and>
    lru_list (unimportant d') = (if v \<in> set (lru_list (important d)) then lru_list (unimportant d)
      else v # remove1 v (lru_list (unimportant d)))"
proof -
  have inv: "lru_inv (important d)" "lru_inv (unimportant d)" using assms(1) by (auto simp: dpr_inv_def)
  have c: "LRUReplacer_contains v (important d) \<longleftrightarrow> v \<in> set (lru_list (important d))"
    using inv(1) by (metis lru_invE lru_contains_vals)
  obtain u where "LRUReplacer_insert v (unimportant d) = Some u" "lru_inv u"
    "lru_list u = v # remove1 v (lru_list (unimportant d))" using lru_insert [OF inv(2)] by metis
  with c assms dpr_distinct [OF assms(1)] show ?thesis
    by (auto simp: DualPriorityReplacer_insert_def dpr_inv_def)
qed

lemma dpr_insert_kept:
  assumes "dpr_inv d" "0 \<le> v"
  shows "\<exists>d'. DualPriorityReplacer_insert v False d = Some d' \<and> dpr_inv d' \<and>
    lru_list (important d') = v # remove1 v (lru_list (important d)) \<and>
    lru_list (unimportant d') = remove1 v (lru_list (unimportant d))"
proof -
  have inv: "lru_inv (important d)" "lru_inv (unimportant d)" using assms(1) by (auto simp: dpr_inv_def)
  obtain i where i: "LRUReplacer_insert v (important d) = Some i" "lru_inv i"
    "lru_list i = v # remove1 v (lru_list (important d))" using lru_insert [OF inv(1)] by metis
  obtain b u where u: "LRUReplacer_remove v (unimportant d) = Some (b, u)" "lru_inv u"
    "lru_list u = remove1 v (lru_list (unimportant d))" using lru_remove [OF inv(2)] by metis
  define d' where "d' = d\<lparr>important := i, unimportant := u\<rparr>"
  have "DualPriorityReplacer_insert v False d = Some d'"
    using i(1) u(1) by (simp add: DualPriorityReplacer_insert_def d'_def)
  moreover have "dpr_inv d'"
    using i u assms dpr_distinct [OF assms(1)] by (auto simp: dpr_inv_def d'_def)
  ultimately show ?thesis using i(3) u(3) by (simp add: d'_def)
qed

lemma dpr_remove:
  assumes "dpr_inv d"
  shows "\<exists>d'. DualPriorityReplacer_remove v d = Some (v \<in> dpr_elems d, d') \<and> dpr_inv d' \<and>
    lru_list (important d') = remove1 v (lru_list (important d)) \<and>
    lru_list (unimportant d') = remove1 v (lru_list (unimportant d))"
proof -
  have inv: "lru_inv (important d)" "lru_inv (unimportant d)" using assms(1) by (auto simp: dpr_inv_def)
  obtain u where u: "LRUReplacer_remove v (unimportant d) = Some (v \<in> set (lru_list (unimportant d)), u)"
    "lru_inv u" "lru_list u = remove1 v (lru_list (unimportant d))" using lru_remove [OF inv(2)] by metis
  obtain i where i: "LRUReplacer_remove v (important d) = Some (v \<in> set (lru_list (important d)), i)"
    "lru_inv i" "lru_list i = remove1 v (lru_list (important d))" using lru_remove [OF inv(1)] by metis
  show ?thesis
  proof (cases "v \<in> set (lru_list (unimportant d))")
    case True
    with assms have "remove1 v (lru_list (important d)) = lru_list (important d)"
      by (intro remove1_idem) (auto simp: dpr_inv_def)
    with True u assms dpr_distinct [OF assms] show ?thesis
      by (auto simp: DualPriorityReplacer_remove_def dpr_inv_def dpr_elems_def)
  next
    case False
    then have "remove1 v (lru_list (unimportant d)) = lru_list (unimportant d)" by (rule remove1_idem)
    moreover have "set (remove1 v (lru_list (important d))) \<subseteq> set (lru_list (important d))"
      by (rule set_remove1_subset)
    ultimately show ?thesis using False u i assms
      by (auto simp: DualPriorityReplacer_remove_def dpr_inv_def dpr_elems_def)
  qed
qed

lemma dpr_evict_none:
  assumes "dpr_inv d" "dpr_elems d = {}"
  shows "DualPriorityReplacer_evict d = Some (-1, d)"
  using assms by (simp add: DualPriorityReplacer_evict_def dpr_inv_def dpr_elems_def lru_evict_empty)

lemma dpr_evict_unimportant:
  assumes "dpr_inv d" "lru_list (unimportant d) \<noteq> []"
  shows "\<exists>d'. DualPriorityReplacer_evict d = Some (last (lru_list (unimportant d)), d') \<and> dpr_inv d' \<and>
    important d' = important d \<and> lru_list (unimportant d') = butlast (lru_list (unimportant d))"
proof -
  obtain u where u: "LRUReplacer_evict (unimportant d) = Some (last (lru_list (unimportant d)), u)"
    "lru_inv u" "lru_list u = butlast (lru_list (unimportant d))"
    using lru_evict assms by (metis dpr_inv_def)
  have "last (lru_list (unimportant d)) \<noteq> -1"
    using assms last_in_set by (fastforce simp: dpr_inv_def)
  with u assms show ?thesis
    by (auto simp: DualPriorityReplacer_evict_def dpr_inv_def dest: in_set_butlastD)
qed

lemma dpr_evict_important:
  assumes "dpr_inv d" "lru_list (unimportant d) = []" "lru_list (important d) \<noteq> []"
  shows "\<exists>d'. DualPriorityReplacer_evict d = Some (last (lru_list (important d)), d') \<and> dpr_inv d' \<and>
    unimportant d' = unimportant d \<and> lru_list (important d') = butlast (lru_list (important d))"
proof -
  obtain i where "LRUReplacer_evict (important d) = Some (last (lru_list (important d)), i)"
    "lru_inv i" "lru_list i = butlast (lru_list (important d))"
    using lru_evict assms by (metis dpr_inv_def)
  with assms show ?thesis
    by (auto simp: DualPriorityReplacer_evict_def dpr_inv_def lru_evict_empty dest: in_set_butlastD)
qed

lemmas dpr_laws = dpr_insert_advised dpr_insert_kept dpr_remove dpr_evict_none
  dpr_evict_unimportant dpr_evict_important

lemma set_butlast_distinct: "distinct xs \<Longrightarrow> xs \<noteq> [] \<Longrightarrow> set (butlast xs) = set xs - {last xs}"
  by (induction xs rule: rev_induct) auto

interpretation dpr: eviction_policy "\<lambda>v. DualPriorityReplacer_insert v adv"
  DualPriorityReplacer_remove DualPriorityReplacer_evict dpr_elems dpr_inv for adv
proof
  show "\<exists>d'. DualPriorityReplacer_insert v adv d = Some d' \<and> dpr_inv d' \<and>
      dpr_elems d' = insert v (dpr_elems d)" if d: "dpr_inv d" "0 \<le> v" for d v
  proof (cases adv)
    case True
    then show ?thesis
      using dpr_insert_advised [OF d] dpr_distinct [OF d(1)]
      by (fastforce simp: dpr_elems_def split: if_splits)
  next
    case False
    then show ?thesis
      using dpr_insert_kept [OF d] dpr_distinct [OF d(1)] by (fastforce simp: dpr_elems_def)
  qed
  show "\<exists>d'. DualPriorityReplacer_remove v d = Some (v \<in> dpr_elems d, d') \<and> dpr_inv d' \<and>
      dpr_elems d' = dpr_elems d - {v}" if d: "dpr_inv d" for d v
    using dpr_remove [OF d, of v] dpr_distinct [OF d] by (fastforce simp: dpr_elems_def)
  show "DualPriorityReplacer_evict d = Some (-1, d)" if "dpr_inv d" "dpr_elems d = {}" for d
    using that by (rule dpr_evict_none)
  show "\<exists>v d'. DualPriorityReplacer_evict d = Some (v, d') \<and> v \<in> dpr_elems d \<and> dpr_inv d' \<and>
      dpr_elems d' = dpr_elems d - {v}" if d: "dpr_inv d" "dpr_elems d \<noteq> {}" for d
  proof (cases "lru_list (unimportant d) = []")
    case True
    then have "lru_list (important d) \<noteq> []" using d(2) by (simp add: dpr_elems_def)
    with True show ?thesis
      using dpr_evict_important [OF d(1)] dpr_distinct [OF d(1)]
      by (auto simp: dpr_elems_def set_butlast_distinct)
  next
    case False
    then have "last (lru_list (unimportant d)) \<notin> set (lru_list (important d))"
      using d(1) last_in_set by (fastforce simp: dpr_inv_def)
    with False show ?thesis
      using dpr_evict_unimportant [OF d(1) False] dpr_distinct [OF d(1)]
      by (auto simp: dpr_elems_def set_butlast_distinct)
  qed
  show "finite (dpr_elems d) \<and> (\<forall>v\<in>dpr_elems d. 0 \<le> v)" if "dpr_inv d" for d
    using that by (auto simp: dpr_elems_def dpr_inv_def)
qed

section \<open>Properties\<close>

text \<open>C18: Every operation of \<open>LRUReplacer\<close> returns without touching a null or deleted node, keeps
  the list invariant, and is its list operation: \<open>insert\<close> puts the value at the front wherever it
  was before, \<open>remove\<close> takes it out and says whether it was there, \<open>evict\<close> takes the least
  recently inserted value, or answers -1 and changes nothing when the list is empty.\<close>

theorem lru_operations:
  assumes "lru_inv s"
  shows "(\<exists>s'. LRUReplacer_insert v s = Some s' \<and> lru_inv s' \<and>
            lru_list s' = v # remove1 v (lru_list s)) \<and>
         (\<exists>s'. LRUReplacer_remove v s = Some (v \<in> set (lru_list s), s') \<and> lru_inv s' \<and>
            lru_list s' = remove1 v (lru_list s)) \<and>
         (\<exists>s'. LRUReplacer_evict s =
            Some (if lru_list s = [] then -1 else last (lru_list s), s') \<and> lru_inv s' \<and>
            lru_list s' = butlast (lru_list s))"
  using lru_insert [OF assms] lru_remove [OF assms] lru_evict [OF assms]
    lru_evict_empty [OF assms] assms by (cases "lru_list s = []") auto

definition lru_example :: LRUReplacer where
  "lru_example = the (do { s \<leftarrow> LRUReplacer_insert 0 LRUReplacer_init;
     s \<leftarrow> LRUReplacer_insert 1 s; s \<leftarrow> LRUReplacer_insert 2 s; LRUReplacer_insert 0 s })"

lemma lru_example_inv: "lru_inv lru_example \<and> lru_list lru_example = [0, 2, 1]"
proof -
  obtain s1 where s1: "LRUReplacer_insert 0 LRUReplacer_init = Some s1" "lru_inv s1" "lru_list s1 = [0]"
    using lru_insert [OF lru_init(1), of 0] by auto
  obtain s2 where s2: "LRUReplacer_insert 1 s1 = Some s2" "lru_inv s2" "lru_list s2 = [1, 0]"
    using lru_insert [OF s1(2), of 1] s1 by auto
  obtain s3 where s3: "LRUReplacer_insert 2 s2 = Some s3" "lru_inv s3" "lru_list s3 = [2, 1, 0]"
    using lru_insert [OF s2(2), of 2] s2 by auto
  show ?thesis using lru_insert [OF s3(2), of 0] s1 s2 s3 by (auto simp: lru_example_def)
qed

theorem lru_operations_witness:
  "\<exists>s'. LRUReplacer_evict lru_example = Some (1, s') \<and> lru_inv s' \<and> lru_list s' = [0, 2]"
  using lru_operations [of lru_example 0] lru_example_inv by auto

lemma dpr_drain_important:
  "dpr_inv d \<Longrightarrow> lru_list (unimportant d) = [] \<Longrightarrow>
   \<exists>d'. drain DualPriorityReplacer_evict (length (lru_list (important d))) d =
     Some (rev (lru_list (important d)), d') \<and> dpr_inv d' \<and> dpr_elems d' = {}"
proof (induction "lru_list (important d)" arbitrary: d rule: rev_induct)
  case Nil
  then show ?case by (auto simp: dpr_elems_def)
next
  case (snoc x xs)
  then obtain d1 where d1: "DualPriorityReplacer_evict d = Some (x, d1)" "dpr_inv d1"
    "lru_list (unimportant d1) = []" "lru_list (important d1) = xs"
    using dpr_evict_important [of d] by (metis append_is_Nil_conv butlast_snoc last_snoc not_Cons_self2)
  with snoc.hyps(1) [of d1] snoc.hyps(2) [symmetric] show ?case by auto
qed

text \<open>C19: The replacer with two priorities gives out its candidates in the order the header
  promises: first the unimportant ones, least recently used first, then the important ones, least
  recently used first, each exactly once, and afterwards it answers -1.\<close>

theorem dpr_eviction_order:
  assumes "dpr_inv d"
  shows "\<exists>d'. drain DualPriorityReplacer_evict
      (length (lru_list (unimportant d)) + length (lru_list (important d))) d =
        Some (rev (lru_list (unimportant d)) @ rev (lru_list (important d)), d') \<and>
      DualPriorityReplacer_evict d' = Some (-1, d')"
  using assms
proof (induction "lru_list (unimportant d)" arbitrary: d rule: rev_induct)
  case Nil
  then show ?case using dpr_drain_important [of d] dpr_evict_none by (metis add_0 append_Nil list.size(3) rev.simps(1))
next
  case (snoc x xs)
  then obtain d1 where d1: "DualPriorityReplacer_evict d = Some (x, d1)" "dpr_inv d1"
    "important d1 = important d" "lru_list (unimportant d1) = xs"
    using dpr_evict_unimportant [of d] by (metis append_is_Nil_conv butlast_snoc last_snoc not_Cons_self2)
  with snoc.hyps(1) [of d1] snoc.hyps(2) [symmetric] show ?case by auto
qed

datatype dpr_op = Insert int bool | Remove int | Evict

fun dpr_step :: "dpr_op \<Rightarrow> DualPriorityReplacer \<Rightarrow> DualPriorityReplacer option" where
  "dpr_step (Insert v adv) d = DualPriorityReplacer_insert v adv d"
| "dpr_step (Remove v) d = map_option snd (DualPriorityReplacer_remove v d)"
| "dpr_step Evict d = map_option snd (DualPriorityReplacer_evict d)"

fun dpr_run :: "dpr_op list \<Rightarrow> DualPriorityReplacer \<Rightarrow> DualPriorityReplacer option" where
  "dpr_run [] d = Some d"
| "dpr_run (x # xs) d = Option.bind (dpr_step x d) (dpr_run xs)"

fun valid_op :: "dpr_op \<Rightarrow> bool" where
  "valid_op (Insert v _) \<longleftrightarrow> 0 \<le> v"
| "valid_op _ \<longleftrightarrow> True"

lemma dpr_step_inv:
  assumes "dpr_inv d" "valid_op x"
  shows "\<exists>d'. dpr_step x d = Some d' \<and> dpr_inv d'"
proof (cases x)
  case (Insert v adv)
  then show ?thesis using assms dpr.ins [of d v adv] by auto
next
  case (Remove v)
  then show ?thesis using dpr.rem [OF assms(1), of v] by auto
next
  case Evict
  with assms(1) show ?thesis by (cases rule: dpr.evt_cases [OF assms(1)]) auto
qed

lemma dpr_run_inv:
  "dpr_inv d \<Longrightarrow> \<forall>x\<in>set xs. valid_op x \<Longrightarrow> \<exists>d'. dpr_run xs d = Some d' \<and> dpr_inv d'"
proof (induction xs arbitrary: d)
  case (Cons x xs)
  then obtain d1 where "dpr_step x d = Some d1" "dpr_inv d1" using dpr_step_inv by force
  with Cons show ?case by simp
qed simp

text \<open>C20: However insertions, removals and evictions follow each other, starting from a fresh
  replacer no operation dereferences a null or deleted node, and no value is ever a candidate in
  both priority lists.\<close>

theorem dpr_run_safe:
  assumes "\<forall>x\<in>set xs. valid_op x"
  shows "\<exists>d. dpr_run xs DualPriorityReplacer_init = Some d \<and>
    set (lru_list (important d)) \<inter> set (lru_list (unimportant d)) = {}"
  using dpr_run_inv [OF dpr_init(1) assms] by (auto simp: dpr_inv_def)

theorem dpr_run_safe_witness:
  "\<exists>d. dpr_run [Insert 1 False, Insert 3 True, Insert 1 True, Evict, Insert 1 False, Evict]
      DualPriorityReplacer_init = Some d \<and>
    set (lru_list (important d)) \<inter> set (lru_list (unimportant d)) = {}"
  by (rule dpr_run_safe) simp

definition dpr_example :: DualPriorityReplacer where
  "dpr_example = the (dpr_run [Insert 1 False, Insert 2 False, Insert 3 True, Insert 4 True]
     DualPriorityReplacer_init)"

lemma dpr_example_lists:
  "lru_list (important dpr_example) = [2, 1] \<and> lru_list (unimportant dpr_example) = [4, 3]"
  by code_simp

theorem dpr_eviction_order_witness:
  "\<exists>d'. drain DualPriorityReplacer_evict 4 dpr_example = Some ([3, 4, 1, 2], d') \<and>
     DualPriorityReplacer_evict d' = Some (-1, d')"
proof -
  have "dpr_inv dpr_example"
    using dpr_run_inv [OF dpr_init(1),
      of "[Insert 1 False, Insert 2 False, Insert 3 True, Insert 4 True]"]
    by (auto simp: dpr_example_def)
  then show ?thesis
    using dpr_eviction_order [of dpr_example] dpr_example_lists
    by (simp del: drain.simps add: eval_nat_numeral)
qed

end
