(* ===== verification/Buffer_Pool.thy ===== *)
theory Buffer_Pool
  imports Prelude Replacer
begin

text \<open>
  \<open>buffer_pool.h\<close>, \<open>buffer_pool.cpp\<close>: the page cache between the data file and the rest of the
  system.  A state is the members of \<open>BufferPool\<close> and the data file behind \<open>fd\<close>; the write-ahead
  log behind the \<open>AbstractWAL\<close> pointer is a state of its own, of any type, with its
  \<open>flush_up_to\<close> passed in, as the virtual call is.  \<open>view\<close> is what a reader of a page sees,
  wherever the page is; the lemmas show that loading, evicting and flushing pages never change it.
\<close>

section \<open>The data file\<close>

text \<open>
  The file behind \<open>fd\<close>: whole pages, as the code only reads and writes whole pages at multiples
  of \<open>PAGE_SIZE\<close>.  A read past the end gives zero bytes of data, a write past the end extends the
  file, and pages skipped over read as zeros.  Page indices stand for the code's unsigned 64-bit
  numbers (their byte offsets are assumed to fit a file offset).
\<close>

record data_file =
  file_page :: "nat \<Rightarrow> page"
  file_len :: nat

definition empty_file :: data_file where
  "empty_file = \<lparr>file_page = (\<lambda>_. zero_page), file_len = 0\<rparr>"

definition pread_page :: "data_file \<Rightarrow> nat \<Rightarrow> nat \<times> page" where
  "pread_page f i = (if i < file_len f then (PAGE_SIZE, file_page f i) else (0, zero_page))"

definition pwrite_page :: "nat \<Rightarrow> page \<Rightarrow> data_file \<Rightarrow> data_file" where
  "pwrite_page i p f = f\<lparr>file_page := (file_page f)(i := p), file_len := max (file_len f) (Suc i)\<rparr>"

definition file_inv :: "data_file \<Rightarrow> bool" where
  "file_inv f \<longleftrightarrow> (\<forall>i\<ge>file_len f. file_page f i = zero_page)"

section \<open>The pool\<close>

record PageMetadata =
  file_index :: nat
  page_lsn :: nat
  refcount :: int
  dirty :: bool
  advise_eviction :: bool

text \<open>\<open>file_index = -1\<close> in an unsigned 64-bit number.\<close>

definition NO_FILE_INDEX :: nat where
  "NO_FILE_INDEX = 2 ^ 64 - 1"

definition PageMetadata_reset :: PageMetadata where
  "PageMetadata_reset = \<lparr>file_index = NO_FILE_INDEX, page_lsn = 0, refcount = 0, dirty = False,
     advise_eviction = False\<rparr>"

record BufferPool =
  fd :: data_file
  pool_size :: nat
  next_pool_index :: nat
  pages :: "page list"
  metadata :: "PageMetadata list"
  replacer :: DualPriorityReplacer
  file_to_pool_index :: "nat \<rightharpoonup> nat"

definition BufferPool_init :: "data_file \<Rightarrow> nat \<Rightarrow> BufferPool" where
  "BufferPool_init f n = \<lparr>fd = f, pool_size = n, next_pool_index = 0,
     pages = replicate n zero_page, metadata = replicate n PageMetadata_reset,
     replacer = DualPriorityReplacer_init, file_to_pool_index = Map.empty\<rparr>"

text \<open>What \<open>retain\<close> has decided under the lock and does after releasing it.\<close>

record deferred_io =
  io_slot :: nat
  needs_read :: bool
  evicted_needs_write :: bool
  evicted_page_file_index :: nat
  evicted_page_lsn :: nat

text \<open>The bookkeeping for a page that is not in the pool: a free slot, or an evicted one.\<close>

definition claim_slot :: "BufferPool \<Rightarrow> (BufferPool \<times> deferred_io) result" where
  "claim_slot p =
     (if next_pool_index p < pool_size p then
        Inr (p\<lparr>next_pool_index := Suc (next_pool_index p)\<rparr>,
             \<lparr>io_slot = next_pool_index p, needs_read = True, evicted_needs_write = False,
              evicted_page_file_index = NO_FILE_INDEX, evicted_page_lsn = 2 ^ 64 - 1\<rparr>)
      else
        bindR (of_option MemoryError (DualPriorityReplacer_evict (replacer p))) (\<lambda>(e, r).
          if e = -1 then Inl BufferPoolFullException
          else if nat e \<ge> length (metadata p) then Inl MemoryError
          else let i = nat e; md = metadata p ! i in
            Inr (p\<lparr>replacer := r,
                   file_to_pool_index := (file_to_pool_index p)(file_index md := None),
                   metadata := (metadata p)[i := PageMetadata_reset]\<rparr>,
                 \<lparr>io_slot = i, needs_read = True, evicted_needs_write = dirty md,
                  evicted_page_file_index = (if dirty md then file_index md else NO_FILE_INDEX),
                  evicted_page_lsn = (if dirty md then page_lsn md else 2 ^ 64 - 1)\<rparr>)))"

text \<open>The part of \<open>retain\<close> under the lock.\<close>

definition retain_locked :: "nat \<Rightarrow> bool \<Rightarrow> BufferPool \<Rightarrow> (BufferPool \<times> deferred_io) result" where
  "retain_locked f advise p =
     bindR (case file_to_pool_index p f of
        None \<Rightarrow>
          bindR (claim_slot p) (\<lambda>(p, io). let i = io_slot io in
            if i \<ge> length (metadata p) then Inl MemoryError
            else Inr (p\<lparr>metadata := (metadata p)[i := (metadata p ! i)\<lparr>file_index := f,
                          PageMetadata.advise_eviction := advise\<rparr>],
                        file_to_pool_index := (file_to_pool_index p)(f \<mapsto> i)\<rparr>, io))
      | Some i \<Rightarrow>
          bindR (of_option MemoryError (DualPriorityReplacer_remove (int i) (replacer p))) (\<lambda>(_, r).
            Inr (p\<lparr>replacer := r\<rparr>,
              \<lparr>io_slot = i, needs_read = False, evicted_needs_write = False,
               evicted_page_file_index = NO_FILE_INDEX, evicted_page_lsn = 2 ^ 64 - 1\<rparr>)))
      (\<lambda>(p, io). let i = io_slot io in
        if i \<ge> length (metadata p) then Inl MemoryError
        else let md = metadata p ! i in
          Inr (p\<lparr>metadata := (metadata p)[i := md\<lparr>refcount := refcount md + 1,
                 PageMetadata.advise_eviction := PageMetadata.advise_eviction md \<and> advise\<rparr>]\<rparr>, io))"

type_synonym 'w flush_callback = "(nat \<Rightarrow> 'w \<Rightarrow> 'w result) option"

text \<open>The part of \<open>retain\<close> after the lock: write the evicted page, the log first, then read.\<close>

definition retain_write :: "'w flush_callback \<Rightarrow> deferred_io \<Rightarrow> BufferPool \<Rightarrow> 'w \<Rightarrow>
    (BufferPool \<times> 'w) result" where
  "retain_write wal io p w =
     (if evicted_needs_write io then
        bindR (case wal of None \<Rightarrow> Inr w | Some flush \<Rightarrow> flush (evicted_page_lsn io) w) (\<lambda>w.
          Inr (p\<lparr>fd := pwrite_page (evicted_page_file_index io) (pages p ! io_slot io) (fd p)\<rparr>, w))
      else Inr (p, w))"

definition retain_read :: "nat \<Rightarrow> deferred_io \<Rightarrow> BufferPool \<Rightarrow> BufferPool" where
  "retain_read f io p =
     (if needs_read io then
        let (bytes_read, content) = pread_page (fd p) f in
        p\<lparr>pages := (pages p)[io_slot io := (if bytes_read = 0 then zero_page else content)]\<rparr>
      else p)"

definition retain :: "'w flush_callback \<Rightarrow> nat \<Rightarrow> bool \<Rightarrow> BufferPool \<times> 'w \<Rightarrow>
    (nat \<times> BufferPool \<times> 'w) result" where
  "retain wal f advise = (\<lambda>(p, w).
     bindR (retain_locked f advise p) (\<lambda>(p, io).
     bindR (retain_write wal io p w) (\<lambda>(p, w).
       Inr (io_slot io, retain_read f io p, w))))"

definition release :: "nat \<Rightarrow> BufferPool \<Rightarrow> BufferPool result" where
  "release i p =
     (if i \<ge> length (metadata p) then Inl MemoryError
      else if refcount (metadata p ! i) \<le> 0 then Inl BufferPoolException
      else let md = (metadata p ! i)\<lparr>refcount := refcount (metadata p ! i) - 1\<rparr>;
               p = p\<lparr>metadata := (metadata p)[i := md]\<rparr> in
        if refcount md = 0 then
          bindR (of_option MemoryError
              (DualPriorityReplacer_insert (int i) (PageMetadata.advise_eviction md) (replacer p)))
            (\<lambda>r. Inr (p\<lparr>replacer := r\<rparr>))
        else Inr p)"

text \<open>\<open>flush_all\<close>: its loop over the slots.\<close>

definition flush_slot :: "nat \<Rightarrow> BufferPool \<Rightarrow> BufferPool" where
  "flush_slot i p =
     (let md = metadata p ! i in
      if dirty md then p\<lparr>fd := pwrite_page (file_index md) (pages p ! i) (fd p),
                         metadata := (metadata p)[i := md\<lparr>dirty := False\<rparr>]\<rparr>
      else p)"

fun flush_slots :: "nat list \<Rightarrow> BufferPool \<Rightarrow> BufferPool" where
  "flush_slots [] p = p"
| "flush_slots (i # is) p = flush_slots is (flush_slot i p)"

definition flush_all :: "BufferPool \<Rightarrow> BufferPool" where
  "flush_all p = flush_slots [0..<pool_size p] p"

section \<open>Page handles\<close>

text \<open>
  A \<open>PageHandle\<close> is the pool index it holds, -1 once moved from or destroyed.  Copying bytes to
  \<open>handle.data()\<close> and the \<open>modified_by\<close> that follows it.
\<close>

record PageHandle =
  pool_index :: int

definition get_page :: "'w flush_callback \<Rightarrow> nat \<Rightarrow> bool \<Rightarrow> BufferPool \<times> 'w \<Rightarrow>
    (PageHandle \<times> BufferPool \<times> 'w) result" where
  "get_page wal f advise s =
     bindR (retain wal f advise s) (\<lambda>(i, s). Inr (\<lparr>pool_index = int i\<rparr>, s))"

definition PageHandle_destroy :: "PageHandle \<Rightarrow> BufferPool \<Rightarrow> BufferPool result" where
  "PageHandle_destroy h p = (if pool_index h \<noteq> -1 then release (nat (pool_index h)) p else Inr p)"

text \<open>The moved-to handle, and what is left of the moved-from one.\<close>

definition PageHandle_move :: "PageHandle \<Rightarrow> PageHandle \<times> PageHandle" where
  "PageHandle_move other = (\<lparr>pool_index = pool_index other\<rparr>, \<lparr>pool_index = -1\<rparr>)"

text \<open>Move assignment to a handle different from \<open>other\<close>.\<close>

definition PageHandle_move_assign :: "PageHandle \<Rightarrow> PageHandle \<Rightarrow> PageHandle \<times> PageHandle" where
  "PageHandle_move_assign this other =
     (this\<lparr>pool_index := pool_index other\<rparr>, other\<lparr>pool_index := -1\<rparr>)"

definition handle_data :: "PageHandle \<Rightarrow> BufferPool \<Rightarrow> page result" where
  "handle_data h p =
     (if pool_index h < 0 \<or> nat (pool_index h) \<ge> length (pages p) then Inl MemoryError
      else Inr (pages p ! nat (pool_index h)))"

definition handle_store :: "PageHandle \<Rightarrow> nat \<Rightarrow> byte list \<Rightarrow> BufferPool \<Rightarrow> BufferPool result" where
  "handle_store h off bs p =
     (if pool_index h < 0 \<or> nat (pool_index h) \<ge> length (pages p) \<or> PAGE_SIZE < off + length bs
      then Inl MemoryError
      else let i = nat (pool_index h) in Inr (p\<lparr>pages := (pages p)[i := blit (pages p ! i) off bs]\<rparr>))"

definition modified_by :: "PageHandle \<Rightarrow> nat \<Rightarrow> BufferPool \<Rightarrow> BufferPool result" where
  "modified_by h lsn p =
     (if pool_index h < 0 \<or> nat (pool_index h) \<ge> length (metadata p) then Inl MemoryError
      else let i = nat (pool_index h); md = metadata p ! i in
        Inr (p\<lparr>metadata := (metadata p)[i := md\<lparr>dirty := True, page_lsn := max lsn (page_lsn md)\<rparr>]\<rparr>))"

section \<open>The invariant and the view of a pool\<close>

definition view :: "BufferPool \<Rightarrow> nat \<Rightarrow> page" where
  "view p f = (case file_to_pool_index p f of Some i \<Rightarrow> pages p ! i | None \<Rightarrow> file_page (fd p) f)"

text \<open>
  The lookup table and the metadata describe the same residency; unused slots are reset; the
  candidates for eviction are exactly the unpinned slots; a clean page is what the file holds.
\<close>

definition pool_inv :: "BufferPool \<Rightarrow> bool" where
  "pool_inv p \<longleftrightarrow>
     length (pages p) = pool_size p \<and> length (metadata p) = pool_size p \<and>
     next_pool_index p \<le> pool_size p \<and>
     (\<forall>f i. file_to_pool_index p f = Some i \<longleftrightarrow>
        i < next_pool_index p \<and> file_index (metadata p ! i) = f) \<and>
     (\<forall>i<pool_size p. next_pool_index p \<le> i \<longrightarrow> metadata p ! i = PageMetadata_reset) \<and>
     (\<forall>i<next_pool_index p. 0 \<le> refcount (metadata p ! i)) \<and>
     dpr_inv (replacer p) \<and>
     dpr_elems (replacer p) = int ` {i. i < next_pool_index p \<and> refcount (metadata p ! i) = 0} \<and>
     (\<forall>i<next_pool_index p. \<not> dirty (metadata p ! i) \<longrightarrow>
        pages p ! i = file_page (fd p) (file_index (metadata p ! i))) \<and>
     file_inv (fd p)"

lemma view_cong:
  "fd p' = fd p \<Longrightarrow> pages p' = pages p \<Longrightarrow> file_to_pool_index p' = file_to_pool_index p \<Longrightarrow>
   view p' = view p"
  by (rule ext) (simp add: view_def split: option.split)

lemma pool_inv_init: "file_inv f \<Longrightarrow> pool_inv (BufferPool_init f n)"
  by (simp add: pool_inv_def BufferPool_init_def)

lemma view_init [simp]: "view (BufferPool_init f n) = file_page f"
  by (simp add: view_def BufferPool_init_def fun_eq_iff)

lemma pool_invD:
  assumes "pool_inv p"
  shows "length (pages p) = pool_size p" "length (metadata p) = pool_size p"
    "next_pool_index p \<le> pool_size p"
    "file_to_pool_index p f = Some i \<longleftrightarrow> i < next_pool_index p \<and> file_index (metadata p ! i) = f"
    "i < pool_size p \<Longrightarrow> next_pool_index p \<le> i \<Longrightarrow> metadata p ! i = PageMetadata_reset"
    "i < next_pool_index p \<Longrightarrow> 0 \<le> refcount (metadata p ! i)"
    "dpr_inv (replacer p)"
    "int i \<in> dpr_elems (replacer p) \<longleftrightarrow> i < next_pool_index p \<and> refcount (metadata p ! i) = 0"
    "i < next_pool_index p \<Longrightarrow> \<not> dirty (metadata p ! i) \<Longrightarrow>
       pages p ! i = file_page (fd p) (file_index (metadata p ! i))"
    "file_inv (fd p)"
  using assms by (auto simp: pool_inv_def)

lemma pool_inv_resident:
  assumes "pool_inv p" "file_to_pool_index p f = Some i"
  shows "i < next_pool_index p" "i < pool_size p" "file_index (metadata p ! i) = f"
  using pool_invD(3,4) [OF assms(1)] assms(2) by fastforce+

lemma pool_inv_view_slot:
  "pool_inv p \<Longrightarrow> i < next_pool_index p \<Longrightarrow> view p (file_index (metadata p ! i)) = pages p ! i"
  using pool_invD(4) [of p "file_index (metadata p ! i)" i] by (simp add: view_def)

lemma file_inv_pwrite [simp]: "file_inv f \<Longrightarrow> file_inv (pwrite_page i p f)"
  by (auto simp: file_inv_def pwrite_page_def)

lemma pread_page_content:
  "file_inv f \<Longrightarrow> (let (n, c) = pread_page f i in if n = 0 then zero_page else c) = file_page f i"
  by (auto simp: pread_page_def file_inv_def)

lemma int_image_iff [simp]: "int i \<in> int ` A \<longleftrightarrow> i \<in> A"
  by auto

text \<open>A page already in the pool.\<close>

lemma retain_locked_hit:
  assumes inv: "pool_inv p" and f: "file_to_pool_index p f = Some i"
  obtains r md where "retain_locked f advise p = Inr (p\<lparr>replacer := r, metadata := (metadata p)[i := md]\<rparr>,
      \<lparr>io_slot = i, needs_read = False, evicted_needs_write = False,
       evicted_page_file_index = NO_FILE_INDEX, evicted_page_lsn = 2 ^ 64 - 1\<rparr>)"
    "md = (metadata p ! i)\<lparr>refcount := refcount (metadata p ! i) + 1,
       PageMetadata.advise_eviction := PageMetadata.advise_eviction (metadata p ! i) \<and> advise\<rparr>"
    "dpr_inv r" "dpr_elems r = dpr_elems (replacer p) - {int i}"
proof -
  obtain r where "DualPriorityReplacer_remove (int i) (replacer p) =
      Some (int i \<in> dpr_elems (replacer p), r)" "dpr_inv r"
    "dpr_elems r = dpr_elems (replacer p) - {int i}"
    using dpr.rem pool_invD(7) [OF inv] by blast
  moreover have "i < length (metadata p)"
    using pool_inv_resident [OF inv f] pool_invD(2) [OF inv] by simp
  ultimately show thesis using f by (intro that) (auto simp: retain_locked_def Let_def)
qed

text \<open>A page that is not: into a slot never used, or in place of an unpinned page.\<close>

lemma retain_locked_fresh:
  assumes inv: "pool_inv p" and f: "file_to_pool_index p f = None"
    and n: "next_pool_index p < pool_size p"
  defines "i \<equiv> next_pool_index p"
  shows "retain_locked f advise p = Inr (p\<lparr>next_pool_index := Suc i,
      metadata := (metadata p)[i := \<lparr>file_index = f, page_lsn = 0, refcount = 1, dirty = False,
        advise_eviction = advise\<rparr>],
      file_to_pool_index := (file_to_pool_index p)(f \<mapsto> i)\<rparr>,
      \<lparr>io_slot = i, needs_read = True, evicted_needs_write = False,
       evicted_page_file_index = NO_FILE_INDEX, evicted_page_lsn = 2 ^ 64 - 1\<rparr>)"
  using assms pool_invD(2,5) [OF inv]
  by (simp add: retain_locked_def claim_slot_def Let_def PageMetadata_reset_def)

lemma retain_locked_evict:
  assumes inv: "pool_inv p" and f: "file_to_pool_index p f = None"
    and n: "\<not> next_pool_index p < pool_size p"
    and e: "dpr_elems (replacer p) \<noteq> {}"
  obtains i r where "i < next_pool_index p" "refcount (metadata p ! i) = 0" "dpr_inv r"
    "dpr_elems r = dpr_elems (replacer p) - {int i}"
    "retain_locked f advise p = Inr (p\<lparr>replacer := r,
      metadata := (metadata p)[i := \<lparr>file_index = f, page_lsn = 0, refcount = 1, dirty = False,
        advise_eviction = advise\<rparr>],
      file_to_pool_index := (file_to_pool_index p)(file_index (metadata p ! i) := None, f \<mapsto> i)\<rparr>,
      \<lparr>io_slot = i, needs_read = True, evicted_needs_write = dirty (metadata p ! i),
       evicted_page_file_index = (if dirty (metadata p ! i) then file_index (metadata p ! i) else NO_FILE_INDEX),
       evicted_page_lsn = (if dirty (metadata p ! i) then page_lsn (metadata p ! i) else 2 ^ 64 - 1)\<rparr>)"
proof -
  obtain v r where r: "DualPriorityReplacer_evict (replacer p) = Some (v, r)"
    "v \<in> dpr_elems (replacer p)" "v \<noteq> -1" "0 \<le> v" "dpr_inv r" "dpr_elems r = dpr_elems (replacer p) - {v}"
    using pool_invD(7) [OF inv] e by (auto elim: dpr.evt_cases)
  define i where "i = nat v"
  then have v: "v = int i" using r(4) by simp
  then have i: "i < next_pool_index p" "refcount (metadata p ! i) = 0"
    using r(2) pool_invD(8) [OF inv] by blast+
  then have l: "i < length (metadata p)" using pool_invD(2,3) [OF inv] by simp
  then have "retain_locked f advise p = Inr (p\<lparr>replacer := r,
      metadata := (metadata p)[i := \<lparr>file_index = f, page_lsn = 0, refcount = 1, dirty = False,
        advise_eviction = advise\<rparr>],
      file_to_pool_index := (file_to_pool_index p)(file_index (metadata p ! i) := None, f \<mapsto> i)\<rparr>,
      \<lparr>io_slot = i, needs_read = True, evicted_needs_write = dirty (metadata p ! i),
       evicted_page_file_index = (if dirty (metadata p ! i) then file_index (metadata p ! i) else NO_FILE_INDEX),
       evicted_page_lsn = (if dirty (metadata p ! i) then page_lsn (metadata p ! i) else 2 ^ 64 - 1)\<rparr>)"
    using f n r(1) v by (simp add: retain_locked_def claim_slot_def Let_def PageMetadata_reset_def)
  with i r v show thesis by (intro that) auto
qed

lemma retain_locked_full:
  assumes "pool_inv p" "file_to_pool_index p f = None" "\<not> next_pool_index p < pool_size p"
    "dpr_elems (replacer p) = {}"
  shows "retain_locked f advise p = Inl BufferPoolFullException"
  using assms dpr.evt_none pool_invD(7) [OF assms(1)]
  by (simp add: retain_locked_def claim_slot_def)

text \<open>What \<open>retain\<close> has done when it returns slot \<open>i\<close>.\<close>

definition retained :: "nat \<Rightarrow> bool \<Rightarrow> BufferPool \<Rightarrow> nat \<Rightarrow> BufferPool \<Rightarrow> bool" where
  "retained f advise p i p' \<longleftrightarrow>
     pool_inv p' \<and> view p' = view p \<and> pool_size p' = pool_size p \<and>
     file_to_pool_index p' f = Some i \<and>
     refcount (metadata p' ! i) = (if file_to_pool_index p f = None then 1
       else refcount (metadata p ! i) + 1) \<and>
     (\<forall>g j. file_to_pool_index p g = Some j \<longrightarrow> g \<noteq> f \<longrightarrow> 0 < refcount (metadata p ! j) \<longrightarrow>
        file_to_pool_index p' g = Some j \<and> metadata p' ! j = metadata p ! j) \<and>
     (\<forall>g j. file_to_pool_index p' g = Some j \<longrightarrow> g \<noteq> f \<longrightarrow>
        file_to_pool_index p g = Some j \<and> metadata p' ! j = metadata p ! j) \<and>
     (\<forall>i. file_to_pool_index p f = Some i \<longrightarrow> pages p' = pages p \<and> fd p' = fd p \<and>
        file_to_pool_index p' = file_to_pool_index p)"

text \<open>The invariant after one slot has been given to a pinned page.\<close>

lemma pool_inv_pin:
  assumes inv: "pool_inv p" and i: "i \<le> next_pool_index p" "i < pool_size p"
    and p': "pool_size p' = pool_size p"
      "next_pool_index p' = (if i = next_pool_index p then Suc i else next_pool_index p)"
      "metadata p' = (metadata p)[i := md]" "pages p' = (pages p)[i := pg]"
    and rc: "0 < refcount md"
    and r: "dpr_inv (replacer p')" "dpr_elems (replacer p') = dpr_elems (replacer p) - {int i}"
    and m: "\<And>f j. file_to_pool_index p' f = Some j \<longleftrightarrow>
      (if j = i then file_index md = f else file_to_pool_index p f = Some j)"
    and fd: "file_inv (fd p')" "\<not> dirty md \<Longrightarrow> pg = file_page (fd p') (file_index md)"
      "\<And>j. j < next_pool_index p \<Longrightarrow> j \<noteq> i \<Longrightarrow>
         file_page (fd p') (file_index (metadata p ! j)) = file_page (fd p) (file_index (metadata p ! j))"
  shows "pool_inv p'"
proof -
  note d = pool_invD [OF inv]
  have md: "metadata p' ! j = (if j = i then md else metadata p ! j)" for j
    using i d(2) p'(3) by (simp add: nth_list_update)
  have pg: "pages p' ! j = (if j = i then pg else pages p ! j)" for j
    using i d(1) p'(4) by (simp add: nth_list_update)
  have lt: "j < next_pool_index p' \<longleftrightarrow> j = i \<or> j < next_pool_index p" for j
    using p'(2) i(1) by auto
  have "length (pages p') = pool_size p'" "length (metadata p') = pool_size p'"
    using p' d(1,2) by simp_all
  moreover have "next_pool_index p' \<le> pool_size p'" using p' d(3) i by simp
  moreover have "file_to_pool_index p' f = Some j \<longleftrightarrow>
      j < next_pool_index p' \<and> file_index (metadata p' ! j) = f" for f j
    unfolding m lt md using d(4) [of f j] by auto
  moreover have "metadata p' ! j = PageMetadata_reset"
    if "j < pool_size p'" "next_pool_index p' \<le> j" for j
  proof -
    have "j \<noteq> i" "next_pool_index p \<le> j" using that lt [of j] by auto
    then show ?thesis using that p'(1) d(5) md by simp
  qed
  moreover have "0 \<le> refcount (metadata p' ! j)" if "j < next_pool_index p'" for j
    using that d(6) rc lt by (auto simp: md)
  moreover have "dpr_elems (replacer p') = int ` {j. j < next_pool_index p' \<and> refcount (metadata p' ! j) = 0}"
  proof -
    have "dpr_elems (replacer p) = int ` {j. j < next_pool_index p \<and> refcount (metadata p ! j) = 0}"
      using inv by (simp add: pool_inv_def)
    then show ?thesis unfolding r(2) lt md using rc by auto
  qed
  moreover have "pages p' ! j = file_page (fd p') (file_index (metadata p' ! j))"
    if "j < next_pool_index p'" "\<not> dirty (metadata p' ! j)" for j
    using that d(9) [of j] fd(2,3) by (auto simp: md pg lt split: if_splits)
  ultimately show ?thesis using r(1) fd(1) unfolding pool_inv_def by blast
qed

lemma retain_hit:
  assumes inv: "pool_inv p" and f: "file_to_pool_index p f = Some i"
  obtains p' where "retain wal f advise (p, w) = Inr (i, p', w)" "retained f advise p i p'" "fd p' = fd p"
    "dirty (metadata p' ! i) = dirty (metadata p ! i)" "page_lsn (metadata p' ! i) = page_lsn (metadata p ! i)"
    "map refcount (metadata p') = (map refcount (metadata p))[i := refcount (metadata p ! i) + 1]"
proof -
  obtain r md where h: "retain_locked f advise p = Inr (p\<lparr>replacer := r, metadata := (metadata p)[i := md]\<rparr>,
      \<lparr>io_slot = i, needs_read = False, evicted_needs_write = False,
       evicted_page_file_index = NO_FILE_INDEX, evicted_page_lsn = 2 ^ 64 - 1\<rparr>)"
    "md = (metadata p ! i)\<lparr>refcount := refcount (metadata p ! i) + 1,
       PageMetadata.advise_eviction := PageMetadata.advise_eviction (metadata p ! i) \<and> advise\<rparr>"
    "dpr_inv r" "dpr_elems r = dpr_elems (replacer p) - {int i}"
    using retain_locked_hit [OF inv f] by metis
  define p' where "p' = p\<lparr>replacer := r, metadata := (metadata p)[i := md]\<rparr>"
  have i: "i < next_pool_index p" "i < pool_size p" "i < length (metadata p)" "file_index (metadata p ! i) = f"
    using pool_inv_resident [OF inv f] pool_invD(2) [OF inv] by auto
  have "retain wal f advise (p, w) = Inr (i, p', w)"
    using h(1) by (simp add: retain_def retain_write_def retain_read_def p'_def)
  moreover have "pool_inv p'"
  proof (rule pool_inv_pin [OF inv, where i = i and md = md and pg = "pages p ! i"])
    show "file_to_pool_index p' g = Some j \<longleftrightarrow>
        (if j = i then file_index md = g else file_to_pool_index p g = Some j)" for g j
      using i h(2) pool_invD(4) [OF inv, of g j] by (simp add: p'_def)
    show "\<not> dirty md \<Longrightarrow> pages p ! i = file_page (fd p') (file_index md)"
      using pool_invD(9) [OF inv i(1)] h(2) by (simp add: p'_def)
    show "0 < refcount md" using pool_invD(6) [OF inv i(1)] h(2) by simp
  qed (use i h(3,4) pool_invD(10) [OF inv] in \<open>simp_all add: p'_def\<close>)
  moreover have "view p' = view p" by (rule view_cong) (simp_all add: p'_def)
  moreover have "metadata p' ! j = metadata p ! j" if "file_to_pool_index p g = Some j" "g \<noteq> f" for g j
  proof -
    have "j \<noteq> i" using that i(4) pool_inv_resident(3) [OF inv] by blast
    then show ?thesis by (simp add: p'_def)
  qed
  moreover have "pages p' = pages p" "fd p' = fd p" "file_to_pool_index p' = file_to_pool_index p"
    "pool_size p' = pool_size p" "metadata p' ! i = md"
    "map refcount (metadata p') = (map refcount (metadata p))[i := refcount (metadata p ! i) + 1]"
    using i(3) h(2) by (simp_all add: p'_def map_update)
  ultimately show thesis
    using f h(2) by (intro that [of p']) (auto simp: retained_def)
qed

text \<open>A page loaded from the file into slot \<open>i\<close>, whose page, if any, went to the file before.\<close>

lemma retain_load:
  assumes inv: "pool_inv p" and f: "file_to_pool_index p f = None"
    and i: "i \<le> next_pool_index p" "i < pool_size p"
    and old: "i < next_pool_index p \<Longrightarrow> refcount (metadata p ! i) = 0"
    and fd': "fd' = (if i < next_pool_index p \<and> dirty (metadata p ! i)
      then pwrite_page (file_index (metadata p ! i)) (pages p ! i) (fd p) else fd p)"
    and p': "pool_size p' = pool_size p" "fd p' = fd'"
      "next_pool_index p' = (if i = next_pool_index p then Suc i else next_pool_index p)"
      "metadata p' = (metadata p)[i := \<lparr>file_index = f, page_lsn = 0, refcount = 1, dirty = False,
        advise_eviction = advise\<rparr>]"
      "pages p' = (pages p)[i := file_page fd' f]"
      "file_to_pool_index p' = (if i < next_pool_index p
        then (file_to_pool_index p)(file_index (metadata p ! i) := None, f \<mapsto> i)
        else (file_to_pool_index p)(f \<mapsto> i))"
    and r: "dpr_inv (replacer p')" "dpr_elems (replacer p') = dpr_elems (replacer p) - {int i}"
  shows "retained f advise p i p'"
proof -
  note d = pool_invD [OF inv]
  have res: "file_to_pool_index p (file_index (metadata p ! j)) = Some j" if "j < next_pool_index p" for j
    using d(4) that by blast
  have neq: "file_index (metadata p ! j) \<noteq> f" if "j < next_pool_index p" for j
    using res [OF that] f by auto
  have inj: "file_index (metadata p ! j) \<noteq> file_index (metadata p ! i)"
    if "j < next_pool_index p" "i < next_pool_index p" "j \<noteq> i" for j
    using res [OF that(1)] res [OF that(2)] that(3) by auto
  have m: "file_to_pool_index p' g = Some j \<longleftrightarrow> (if j = i then f = g else file_to_pool_index p g = Some j)" for g j
  proof (cases "i < next_pool_index p")
    case True
    have "file_to_pool_index p g \<noteq> Some i" if "g \<noteq> file_index (metadata p ! i)"
      using that d(4) [of g i] by auto
    then show ?thesis using True p'(6) f res [OF True] neq [OF True]
      by (cases "g = f"; cases "g = file_index (metadata p ! i)") auto
  next
    case False
    then have "file_to_pool_index p g \<noteq> Some i" using d(4) [of g i] by auto
    then show ?thesis using False p'(6) f by (cases "g = f") auto
  qed
  have fp: "file_page fd' g = (if i < next_pool_index p \<and> dirty (metadata p ! i) \<and>
      g = file_index (metadata p ! i) then pages p ! i else file_page (fd p) g)" for g
    by (simp add: fd' pwrite_page_def)
  have inv': "pool_inv p'"
  proof (rule pool_inv_pin [OF inv i p'(1,3,4,5)])
    show "file_inv (fd p')" using d(10) p'(2) fd' by simp
    show "file_page (fd p') (file_index (metadata p ! j)) = file_page (fd p) (file_index (metadata p ! j))"
      if "j < next_pool_index p" "j \<noteq> i" for j using that inj p'(2) fp by auto
  qed (use m r p'(2) in simp_all)
  have vw: "view p' g = view p g" for g
  proof (cases "file_to_pool_index p' g")
    case (Some j)
    then have "j = i \<and> g = f \<or> j \<noteq> i \<and> file_to_pool_index p g = Some j"
      using m by (auto split: if_splits)
    then show ?thesis
      using Some i(2) d(1) p'(5) f fp neq by (auto simp: view_def)
  next
    case None
    then have g: "g \<noteq> f" using m [of f i] by auto
    show ?thesis
    proof (cases "file_to_pool_index p g")
      case None
      moreover have "i < next_pool_index p \<Longrightarrow> g \<noteq> file_index (metadata p ! i)" using None res by auto
      ultimately show ?thesis using \<open>file_to_pool_index p' g = None\<close> p'(2) fp by (auto simp: view_def)
    next
      case (Some k)
      then have k: "k = i" "i < next_pool_index p" "file_index (metadata p ! i) = g"
        using None m [of g k] d(4) [of g k] by (auto split: if_splits)
      then show ?thesis using None Some p'(2) fp d(9) [OF k(2)] by (simp add: view_def)
    qed
  qed
  have keep: "file_to_pool_index p' g = Some j \<and> metadata p' ! j = metadata p ! j"
    if g: "file_to_pool_index p g = Some j" "0 < refcount (metadata p ! j)" for g j
  proof -
    have "j \<noteq> i" using g old d(4) by force
    with g m p'(4) show ?thesis by simp
  qed
  have unmoved: "file_to_pool_index p g = Some j \<and> metadata p' ! j = metadata p ! j"
    if "file_to_pool_index p' g = Some j" "g \<noteq> f" for g j
    using that m [of g j] p'(4) by (auto split: if_splits)
  have mf: "file_to_pool_index p' f = Some i" using m by simp
  have rc: "refcount (metadata p' ! i) = 1" using p'(4) i(2) d(2) by simp
  have "view p' = view p" by (rule ext) (rule vw)
  with inv' p'(1) mf rc show ?thesis unfolding retained_def f
    by (intro conjI allI impI; (simp; fail)?) (blast dest: keep unmoved)+
qed

text \<open>The result of the callback before an evicted page is written.\<close>

definition log_flushed :: "'w flush_callback \<Rightarrow> nat \<Rightarrow> 'w \<Rightarrow> 'w result" where
  "log_flushed wal lsn w = (case wal of None \<Rightarrow> Inr w | Some flush \<Rightarrow> flush lsn w)"

text \<open>What \<open>retain\<close> does to the file: nothing, or it writes one dirty page nobody holds, after
  the log has been flushed up to the last change of that page.\<close>

definition evicted_safely :: "'w flush_callback \<Rightarrow> BufferPool \<Rightarrow> 'w \<Rightarrow> BufferPool \<Rightarrow> 'w \<Rightarrow> bool" where
  "evicted_safely wal p w p' w' \<longleftrightarrow>
     w' = w \<and> fd p' = fd p \<or>
     (\<exists>j<next_pool_index p. dirty (metadata p ! j) \<and> refcount (metadata p ! j) = 0 \<and>
        log_flushed wal (page_lsn (metadata p ! j)) w = Inr w' \<and>
        fd p' = pwrite_page (file_index (metadata p ! j)) (pages p ! j) (fd p))"

text \<open>The pool \<open>retain\<close> leaves when it loads page \<open>f\<close> into slot \<open>i\<close>.\<close>

definition loaded :: "nat \<Rightarrow> bool \<Rightarrow> nat \<Rightarrow> DualPriorityReplacer \<Rightarrow> BufferPool \<Rightarrow> BufferPool" where
  "loaded f advise i r p =
     (let fd' = (if i < next_pool_index p \<and> dirty (metadata p ! i)
          then pwrite_page (file_index (metadata p ! i)) (pages p ! i) (fd p) else fd p)
      in p\<lparr>fd := fd', replacer := r,
        next_pool_index := (if i = next_pool_index p then Suc i else next_pool_index p),
        metadata := (metadata p)[i := \<lparr>file_index = f, page_lsn = 0, refcount = 1, dirty = False,
          advise_eviction = advise\<rparr>],
        pages := (pages p)[i := file_page fd' f],
        file_to_pool_index := (if i < next_pool_index p
          then (file_to_pool_index p)(file_index (metadata p ! i) := None, f \<mapsto> i)
          else (file_to_pool_index p)(f \<mapsto> i))\<rparr>)"

lemma retained_loaded:
  assumes inv: "pool_inv p" and f: "file_to_pool_index p f = None"
    and i: "i \<le> next_pool_index p" "i < pool_size p"
    and old: "i < next_pool_index p \<Longrightarrow> refcount (metadata p ! i) = 0"
    and r: "dpr_inv r" "dpr_elems r = dpr_elems (replacer p) - {int i}"
  shows "retained f advise p i (loaded f advise i r p)"
  by (rule retain_load [OF inv f i old refl]) (simp_all add: loaded_def Let_def r)

lemma pread_page_eq:
  "file_inv f \<Longrightarrow> pread_page f i = (n, c) \<Longrightarrow> (if n = 0 then zero_page else c) = file_page f i"
  by (auto simp: pread_page_def file_inv_def split: if_splits)

lemma retain_fresh:
  assumes inv: "pool_inv p" and f: "file_to_pool_index p f = None"
    and n: "next_pool_index p < pool_size p"
  shows "retain wal f advise (p, w) =
    Inr (next_pool_index p, loaded f advise (next_pool_index p) (replacer p) p, w)"
  using pread_page_eq [OF pool_invD(10) [OF inv], of f] n
  by (simp add: retain_def retain_locked_fresh [OF inv f n] retain_write_def retain_read_def
      loaded_def Let_def split: prod.split)

lemma retain_evict:
  assumes inv: "pool_inv p" and f: "file_to_pool_index p f = None"
    and n: "\<not> next_pool_index p < pool_size p"
    and e: "dpr_elems (replacer p) \<noteq> {}"
  obtains i r where "i < next_pool_index p" "refcount (metadata p ! i) = 0" "dpr_inv r"
    "dpr_elems r = dpr_elems (replacer p) - {int i}"
    "retain wal f advise (p, w) =
      bindR (if dirty (metadata p ! i) then log_flushed wal (page_lsn (metadata p ! i)) w else Inr w)
        (\<lambda>w'. Inr (i, loaded f advise i r p, w'))"
proof -
  obtain i r where l: "i < next_pool_index p" "refcount (metadata p ! i) = 0" "dpr_inv r"
    "dpr_elems r = dpr_elems (replacer p) - {int i}"
    "retain_locked f advise p = Inr (p\<lparr>replacer := r,
      metadata := (metadata p)[i := \<lparr>file_index = f, page_lsn = 0, refcount = 1, dirty = False,
        advise_eviction = advise\<rparr>],
      file_to_pool_index := (file_to_pool_index p)(file_index (metadata p ! i) := None, f \<mapsto> i)\<rparr>,
      \<lparr>io_slot = i, needs_read = True, evicted_needs_write = dirty (metadata p ! i),
       evicted_page_file_index = (if dirty (metadata p ! i) then file_index (metadata p ! i) else NO_FILE_INDEX),
       evicted_page_lsn = (if dirty (metadata p ! i) then page_lsn (metadata p ! i) else 2 ^ 64 - 1)\<rparr>)"
    using retain_locked_evict [OF inv f n e] by metis
  have fi: "file_inv (fd p)" "\<And>j q. file_inv (pwrite_page j q (fd p))" using pool_invD(10) [OF inv] by auto
  have "retain wal f advise (p, w) =
      bindR (if dirty (metadata p ! i) then log_flushed wal (page_lsn (metadata p ! i)) w else Inr w)
        (\<lambda>w'. Inr (i, loaded f advise i r p, w'))"
    using l(1) pread_page_eq [OF fi(1), of f] pread_page_eq [OF fi(2), of _ _ f]
    by (cases "log_flushed wal (page_lsn (metadata p ! i)) w")
       (auto simp: retain_def l(5) retain_write_def retain_read_def loaded_def Let_def log_flushed_def
         split: prod.split option.splits)
  with l show thesis by (intro that)
qed

lemma loaded_unchanged_or_evicted:
  assumes inv: "pool_inv p" and i: "i < next_pool_index p" "refcount (metadata p ! i) = 0"
    and w: "(if dirty (metadata p ! i) then log_flushed wal (page_lsn (metadata p ! i)) w else Inr w) = Inr w'"
  shows "evicted_safely wal p w (loaded f advise i r p) w'"
  using assms by (cases "dirty (metadata p ! i)") (auto simp: evicted_safely_def loaded_def Let_def)

lemma no_candidates:
  "pool_inv p \<Longrightarrow> dpr_elems (replacer p) = {} \<longleftrightarrow> (\<forall>i<next_pool_index p. refcount (metadata p ! i) \<noteq> 0)"
  by (auto simp: pool_inv_def)

text \<open>All that \<open>retain\<close> can do.\<close>

lemma retain_cases:
  assumes inv: "pool_inv p"
  obtains (full) "retain wal f advise (p, w) = Inl BufferPoolFullException"
      "file_to_pool_index p f = None" "\<forall>i<pool_size p. 0 < refcount (metadata p ! i)"
    | (log) i e where "retain wal f advise (p, w) = Inl e" "i < next_pool_index p"
      "log_flushed wal (page_lsn (metadata p ! i)) w = Inl e"
      "file_to_pool_index p f = None" "i < pool_size p" "refcount (metadata p ! i) = 0"
    | (ok) i p' w' where "retain wal f advise (p, w) = Inr (i, p', w')" "retained f advise p i p'"
      "evicted_safely wal p w p' w'"
      "file_to_pool_index p f = None \<Longrightarrow> \<exists>i<pool_size p. refcount (metadata p ! i) = 0"
proof (cases "file_to_pool_index p f")
  case (Some i)
  obtain p' where "retain wal f advise (p, w) = Inr (i, p', w)" "retained f advise p i p'" "fd p' = fd p"
    using retain_hit [OF inv Some] by metis
  with ok Some show thesis by (simp add: evicted_safely_def)
next
  case None
  note d = pool_invD [OF inv]
  show thesis
  proof (cases "next_pool_index p < pool_size p")
    case True
    then have "int (next_pool_index p) \<notin> dpr_elems (replacer p)" using d(8) by simp
    then have "retained f advise p (next_pool_index p) (loaded f advise (next_pool_index p) (replacer p) p)"
      using True d(7) by (intro retained_loaded [OF inv None]) auto
    moreover have "refcount (metadata p ! next_pool_index p) = 0"
      using d(5) [OF True] by (simp add: PageMetadata_reset_def)
    ultimately show thesis
      using retain_fresh [OF inv None True] True
      by (intro ok) (auto simp: evicted_safely_def loaded_def)
  next
    case n: False
    show thesis
    proof (cases "dpr_elems (replacer p) = {}")
      case True
      have "0 < refcount (metadata p ! i)" if "i < pool_size p" for i
      proof -
        have "i < next_pool_index p" using that n d(3) by simp
        then have "refcount (metadata p ! i) \<noteq> 0" "0 \<le> refcount (metadata p ! i)"
          using True no_candidates [OF inv] d(6) by blast+
        then show ?thesis by simp
      qed
      then show thesis
        using full None retain_locked_full [OF inv None n True] by (simp add: retain_def)
    next
      case False
      obtain i r where r: "i < next_pool_index p" "refcount (metadata p ! i) = 0" "dpr_inv r"
        "dpr_elems r = dpr_elems (replacer p) - {int i}"
        "retain wal f advise (p, w) =
          bindR (if dirty (metadata p ! i) then log_flushed wal (page_lsn (metadata p ! i)) w else Inr w)
            (\<lambda>w'. Inr (i, loaded f advise i r p, w'))"
        using retain_evict [OF inv None n False] by metis
      have i: "i < pool_size p" using r(1) d(3) by simp
      have ret: "retained f advise p i (loaded f advise i r p)"
        using r i by (intro retained_loaded [OF inv None]) auto
      let ?w = "if dirty (metadata p ! i) then log_flushed wal (page_lsn (metadata p ! i)) w else Inr w"
      show thesis
      proof (cases ?w)
        case (Inl e)
        then show thesis using r i None by (intro log [of e i]) (auto split: if_splits)
      next
        case (Inr w')
        then show thesis
          using r i ret loaded_unchanged_or_evicted [OF inv r(1,2) Inr] by (intro ok) auto
      qed
    qed
  qed
qed

lemma retain_retained:
  "pool_inv p \<Longrightarrow> retain wal f advise (p, w) = Inr (i, p', w') \<Longrightarrow>
   retained f advise p i p' \<and> evicted_safely wal p w p' w'"
  by (cases rule: retain_cases [of p wal f advise w]) auto

lemma retainedD:
  assumes "retained f advise p i p'"
  shows "pool_inv p'" "view p' = view p" "file_to_pool_index p' f = Some i" "pool_size p' = pool_size p"
    "i < next_pool_index p'" "i < pool_size p'" "file_index (metadata p' ! i) = f"
    "pages p' ! i = view p f"
proof -
  show inv: "pool_inv p'" and v: "view p' = view p" and m: "file_to_pool_index p' f = Some i"
    and "pool_size p' = pool_size p"
    using assms unfolding retained_def by blast+
  show i: "i < next_pool_index p'" and "i < pool_size p'" and f: "file_index (metadata p' ! i) = f"
    using pool_inv_resident [OF inv m] by blast+
  show "pages p' ! i = view p f" using pool_inv_view_slot [OF inv i] v f by simp
qed

lemma retained_refcount:
  "retained f advise p i p' \<Longrightarrow> refcount (metadata p' ! i) =
    (if file_to_pool_index p f = None then 1 else refcount (metadata p ! i) + 1)"
  unfolding retained_def by (elim conjE)

lemma retained_same_slot:
  "retained f advise p i p' \<Longrightarrow> file_to_pool_index p f = Some j \<Longrightarrow>
   j = i \<and> pages p' = pages p \<and> fd p' = fd p \<and> file_to_pool_index p' = file_to_pool_index p"
  unfolding retained_def by (metis option.inject)

lemma retained_pinned:
  assumes inv: "pool_inv p" and r: "retained f advise p i p'"
  shows "0 < refcount (metadata p' ! i)"
proof (cases "file_to_pool_index p f")
  case (Some j)
  then have "file_to_pool_index p f = Some i" using retained_same_slot [OF r] by blast
  then have "0 \<le> refcount (metadata p ! i)"
    using pool_invD(6) [OF inv] pool_inv_resident(1) [OF inv] by blast
  then show ?thesis using retained_refcount [OF r] Some by simp
qed (use retained_refcount [OF r] in simp)

text \<open>Releasing a pinned page.\<close>

lemma release_ok:
  assumes inv: "pool_inv p" and i: "i < next_pool_index p" "0 < refcount (metadata p ! i)"
  obtains p' where "release i p = Inr p'" "pool_inv p'" "view p' = view p"
    "file_to_pool_index p' = file_to_pool_index p" "pages p' = pages p" "fd p' = fd p"
    "pool_size p' = pool_size p" "next_pool_index p' = next_pool_index p"
    "metadata p' = (metadata p)[i := (metadata p ! i)\<lparr>refcount := refcount (metadata p ! i) - 1\<rparr>]"
proof -
  note d = pool_invD [OF inv]
  define md where "md = (metadata p ! i)\<lparr>refcount := refcount (metadata p ! i) - 1\<rparr>"
  define p1 where "p1 = p\<lparr>metadata := (metadata p)[i := md]\<rparr>"
  have il: "i < length (metadata p)" "i < pool_size p" using i d(2,3) by auto
  have mdj: "metadata p1 ! j = (if j = i then md else metadata p ! j)" for j
    using il by (simp add: p1_def nth_list_update)
  obtain r where r: "(if refcount md = 0 then of_option MemoryError
        (DualPriorityReplacer_insert (int i) (PageMetadata.advise_eviction md) (replacer p))
      else Inr (replacer p)) = Inr r" "dpr_inv r"
    "dpr_elems r = (if refcount md = 0 then insert (int i) (dpr_elems (replacer p)) else dpr_elems (replacer p))"
  proof (cases "refcount md = 0")
    case True
    obtain r where "DualPriorityReplacer_insert (int i) (PageMetadata.advise_eviction md) (replacer p) = Some r"
      "dpr_inv r" "dpr_elems r = insert (int i) (dpr_elems (replacer p))"
      using dpr.ins [OF d(7), of "int i"] by force
    with True that show thesis by simp
  next
    case False
    with that d(7) show thesis by simp
  qed
  define p' where "p' = p1\<lparr>replacer := r\<rparr>"
  have "release i p = Inr p'"
    using il(1) i(2) r(1) by (auto simp: release_def Let_def md_def [symmetric] p1_def p'_def of_option_Inr
      split: if_splits)
  moreover have el: "dpr_elems r = int ` {j. j < next_pool_index p \<and> refcount (metadata p1 ! j) = 0}"
  proof -
    have "dpr_elems (replacer p) = int ` {j. j < next_pool_index p \<and> refcount (metadata p ! j) = 0}"
      using inv by (simp add: pool_inv_def)
    then show ?thesis using r(3) i mdj by (auto simp: md_def image_iff)
  qed
  moreover have "pool_inv p'"
  proof -
    have f: "file_index (metadata p1 ! j) = file_index (metadata p ! j)"
      "dirty (metadata p1 ! j) = dirty (metadata p ! j)" for j
      by (simp_all add: mdj md_def)
    have "\<forall>j<pool_size p. next_pool_index p \<le> j \<longrightarrow> metadata p1 ! j = PageMetadata_reset"
      using d(5) i(1) mdj by auto
    moreover have "\<forall>j<next_pool_index p. 0 \<le> refcount (metadata p1 ! j)"
      using d(6) i(2) mdj by (auto simp: md_def)
    ultimately show ?thesis
      using inv r(2) f el unfolding pool_inv_def p'_def
      by (simp add: p1_def)
  qed
  moreover have "view p' = view p" by (rule view_cong) (simp_all add: p'_def p1_def)
  ultimately show thesis by (intro that [of p']) (simp_all add: p'_def p1_def md_def)
qed

text \<open>Changing a resident page through a handle and recording the change.\<close>

lemma pool_inv_modify:
  assumes inv: "pool_inv p" and f: "file_to_pool_index p f = Some i"
    and p'_def: "p' = p\<lparr>pages := (pages p)[i := pg],
      metadata := (metadata p)[i := (metadata p ! i)\<lparr>dirty := True, page_lsn := l\<rparr>]\<rparr>"
  shows "pool_inv p'" "view p' = (view p)(f := pg)"
proof -
  note d = pool_invD [OF inv]
  note i = pool_inv_resident [OF inv f]
  have md: "metadata p' ! j = (if j = i then (metadata p ! i)\<lparr>dirty := True, page_lsn := l\<rparr> else metadata p ! j)" for j
    using i(2) d(2) by (simp add: p'_def nth_list_update)
  have pgs: "pages p' ! j = (if j = i then pg else pages p ! j)" for j
    using i(2) d(1) by (simp add: p'_def nth_list_update)
  have m: "file_index (metadata p' ! j) = file_index (metadata p ! j)"
    "refcount (metadata p' ! j) = refcount (metadata p ! j)"
    "dirty (metadata p' ! j) \<longleftrightarrow> j = i \<or> dirty (metadata p ! j)" for j
    by (simp_all add: md)
  have "\<forall>j<pool_size p. next_pool_index p \<le> j \<longrightarrow> metadata p' ! j = PageMetadata_reset"
    using d(5) i(1) md by auto
  moreover have "\<forall>j<next_pool_index p. \<not> dirty (metadata p' ! j) \<longrightarrow>
      pages p' ! j = file_page (fd p) (file_index (metadata p' ! j))"
    using d(9) by (simp add: m pgs)
  ultimately show "pool_inv p'"
    using inv unfolding pool_inv_def m by (simp add: p'_def)
  show "view p' = (view p)(f := pg)"
  proof
    fix g
    have "j \<noteq> i" if "file_to_pool_index p g = Some j" "g \<noteq> f" for j
      using that pool_inv_resident(3) [OF inv] i(3) by blast
    then show "view p' g = ((view p)(f := pg)) g"
      using f i(2) d(1) by (cases "file_to_pool_index p g") (auto simp: view_def p'_def)
  qed
qed

text \<open>\<open>flush_all\<close> writes every dirty page and leaves all pages clean.\<close>

lemma flush_slot_ok:
  assumes inv: "pool_inv p" and i: "i < pool_size p"
  shows "pool_inv (flush_slot i p) \<and> view (flush_slot i p) = view p \<and>
    pool_size (flush_slot i p) = pool_size p \<and> pages (flush_slot i p) = pages p \<and>
    next_pool_index (flush_slot i p) = next_pool_index p \<and>
    replacer (flush_slot i p) = replacer p \<and>
    file_to_pool_index (flush_slot i p) = file_to_pool_index p \<and>
    metadata (flush_slot i p) = (metadata p)[i := (metadata p ! i)\<lparr>dirty := False\<rparr>]"
proof (cases "dirty (metadata p ! i)")
  case False
  then have "(metadata p)[i := (metadata p ! i)\<lparr>dirty := False\<rparr>] = metadata p"
    using list_update_id [of "metadata p" i] by (metis (full_types) PageMetadata.surjective PageMetadata.update_convs(4))
  with False inv show ?thesis by (simp add: flush_slot_def)
next
  case True
  note d = pool_invD [OF inv]
  have n: "i < next_pool_index p"
    using True d(5) [OF i] by (cases "i < next_pool_index p") (simp_all add: PageMetadata_reset_def)
  have ne: "file_index (metadata p ! j) \<noteq> file_index (metadata p ! i)" if "j < next_pool_index p" "j \<noteq> i" for j
    using that n d(4) [of "file_index (metadata p ! i)" i] d(4) [of "file_index (metadata p ! i)" j] by auto
  define p' where "p' = flush_slot i p"
  have p': "fd p' = pwrite_page (file_index (metadata p ! i)) (pages p ! i) (fd p)"
    "metadata p' = (metadata p)[i := (metadata p ! i)\<lparr>dirty := False\<rparr>]" "pages p' = pages p"
    "pool_size p' = pool_size p" "next_pool_index p' = next_pool_index p" "replacer p' = replacer p"
    "file_to_pool_index p' = file_to_pool_index p"
    using True by (simp_all add: p'_def flush_slot_def Let_def)
  have md: "metadata p' ! j = (if j = i then (metadata p ! i)\<lparr>dirty := False\<rparr> else metadata p ! j)" for j
    using i d(2) p'(2) by (simp add: nth_list_update)
  then have m: "file_index (metadata p' ! j) = file_index (metadata p ! j)"
    "refcount (metadata p' ! j) = refcount (metadata p ! j)"
    "dirty (metadata p' ! j) \<longleftrightarrow> j \<noteq> i \<and> dirty (metadata p ! j)" for j
    by simp_all
  have fp: "file_page (fd p') g = (if g = file_index (metadata p ! i) then pages p ! i else file_page (fd p) g)" for g
    by (simp add: p'(1) pwrite_page_def)
  have "\<forall>j<pool_size p. next_pool_index p \<le> j \<longrightarrow> metadata p' ! j = PageMetadata_reset"
    using d(5) n md by auto
  moreover have "\<forall>j<next_pool_index p. \<not> dirty (metadata p' ! j) \<longrightarrow>
      pages p ! j = file_page (fd p') (file_index (metadata p ! j))"
    unfolding m fp using d(9) ne by (metis (no_types, lifting))
  ultimately have "pool_inv p'"
    using inv unfolding pool_inv_def m p'(3-7) by (simp add: p'(1,2))
  moreover have "view p' = view p"
  proof
    fix g
    have "file_to_pool_index p (file_index (metadata p ! i)) = Some i" using n d(4) by blast
    then show "view p' g = view p g"
      by (cases "file_to_pool_index p g") (auto simp: view_def p'(3,7) fp)
  qed
  ultimately show ?thesis using p' by (simp add: p'_def)
qed

lemma flush_slots_ok:
  "pool_inv p \<Longrightarrow> \<forall>i\<in>set is. i < pool_size p \<Longrightarrow>
   pool_inv (flush_slots is p) \<and> view (flush_slots is p) = view p \<and>
   pool_size (flush_slots is p) = pool_size p \<and> pages (flush_slots is p) = pages p \<and>
   file_to_pool_index (flush_slots is p) = file_to_pool_index p \<and>
   (\<forall>i\<in>set is. \<not> dirty (metadata (flush_slots is p) ! i)) \<and>
   (\<forall>i. dirty (metadata (flush_slots is p) ! i) \<longrightarrow> dirty (metadata p ! i)) \<and>
   (\<forall>i. refcount (metadata (flush_slots is p) ! i) = refcount (metadata p ! i))"
proof (induction "is" arbitrary: p)
  case (Cons i "is")
  define p1 where "p1 = flush_slot i p"
  have i: "i < pool_size p" "i < length (metadata p)" using Cons.prems pool_invD(2) by auto
  note 1 = flush_slot_ok [OF Cons.prems(1) i(1), folded p1_def]
  then have md: "metadata p1 ! j = (if j = i then (metadata p ! i)\<lparr>dirty := False\<rparr> else metadata p ! j)" for j
    using i(2) by (simp add: nth_list_update)
  have IH: "pool_inv (flush_slots is p1) \<and> view (flush_slots is p1) = view p1 \<and>
     pool_size (flush_slots is p1) = pool_size p1 \<and> pages (flush_slots is p1) = pages p1 \<and>
     file_to_pool_index (flush_slots is p1) = file_to_pool_index p1 \<and>
     (\<forall>i\<in>set is. \<not> dirty (metadata (flush_slots is p1) ! i)) \<and>
     (\<forall>i. dirty (metadata (flush_slots is p1) ! i) \<longrightarrow> dirty (metadata p1 ! i)) \<and>
     (\<forall>i. refcount (metadata (flush_slots is p1) ! i) = refcount (metadata p1 ! i))"
    using Cons.prems 1 by (intro Cons.IH) auto
  have "flush_slots (i # is) p = flush_slots is p1" by (simp add: p1_def)
  with IH 1 md show ?case by (metis (no_types) PageMetadata.select_convs(3,4) PageMetadata.surjective PageMetadata.update_convs(4) set_ConsD)
qed simp

section \<open>Changes that are only in the pool\<close>

text \<open>The LSN of the last change of a page that has not been written to the file.\<close>

definition pending :: "BufferPool \<Rightarrow> nat \<Rightarrow> nat option" where
  "pending p f = (case file_to_pool_index p f of
     Some i \<Rightarrow> if dirty (metadata p ! i) then Some (page_lsn (metadata p ! i)) else None
   | None \<Rightarrow> None)"

lemma pending_init [simp]: "pending (BufferPool_init f n) = Map.empty"
  by (rule ext) (simp add: pending_def BufferPool_init_def)

lemma pending_cong:
  assumes "\<And>f. file_to_pool_index p' f = file_to_pool_index p f"
    "\<And>i f. file_to_pool_index p f = Some i \<Longrightarrow> dirty (metadata p' ! i) = dirty (metadata p ! i) \<and>
       page_lsn (metadata p' ! i) = page_lsn (metadata p ! i)"
  shows "pending p' = pending p"
  using assms by (auto simp: pending_def split: option.splits intro!: ext)

lemma pending_None: "pool_inv p \<Longrightarrow> pending p f = None \<Longrightarrow> file_page (fd p) f = view p f"
proof (cases "file_to_pool_index p f")
  case (Some i)
  assume inv: "pool_inv p" and "pending p f = None"
  then have "\<not> dirty (metadata p ! i)" using Some by (simp add: pending_def split: if_splits)
  then show ?thesis
    using Some pool_inv_resident [OF inv Some] pool_invD(9) [OF inv, of i] by (simp add: view_def)
qed (simp add: view_def)

lemma pending_loaded:
  assumes inv: "pool_inv p" and f: "file_to_pool_index p f = None" and i: "i < pool_size p"
  shows "pending (loaded f advise i r p) =
    (if i < next_pool_index p then (pending p)(file_index (metadata p ! i) := None) else pending p)"
proof
  fix g
  have l: "i < length (metadata p)" using pool_invD(2) [OF inv] i by simp
  show "pending (loaded f advise i r p) g =
    (if i < next_pool_index p then (pending p)(file_index (metadata p ! i) := None) else pending p) g"
  proof (cases "file_to_pool_index p g")
    case None
    then show ?thesis using l f by (auto simp: pending_def loaded_def Let_def)
  next
    case (Some j)
    then have "j < next_pool_index p" "file_index (metadata p ! j) = g" "g \<noteq> f"
      using pool_inv_resident [OF inv Some] f by auto
    then show ?thesis using Some l by (auto simp: pending_def loaded_def Let_def nth_list_update)
  qed
qed

text \<open>What a \<open>retain\<close> that returns does to the data file and to the pending changes: nothing, or it
  writes one page with a pending change, after the log is flushed up to that change.\<close>

lemma retain_pending:
  assumes inv: "pool_inv p" and ret: "retain wal f advise (p, w) = Inr (i, p', w')"
  obtains (same) "w' = w" "fd p' = fd p" "pending p' = pending p"
    | (written) g l where "pending p g = Some l" "log_flushed wal l w = Inr w'"
      "fd p' = pwrite_page g (view p g) (fd p)" "pending p' = (pending p)(g := None)"
proof (cases "file_to_pool_index p f")
  case (Some j)
  obtain p1 where 1: "retain wal f advise (p, w) = Inr (j, p1, w)" "retained f advise p j p1" "fd p1 = fd p"
    "dirty (metadata p1 ! j) = dirty (metadata p ! j)" "page_lsn (metadata p1 ! j) = page_lsn (metadata p ! j)"
    using retain_hit [OF inv Some] by metis
  then have p1: "p1 = p'" "j = i" "w' = w" using ret by auto
  have m: "file_to_pool_index p' = file_to_pool_index p"
    using retained_same_slot [OF 1(2) Some] p1(1) by blast
  have "dirty (metadata p' ! k) = dirty (metadata p ! k) \<and> page_lsn (metadata p' ! k) = page_lsn (metadata p ! k)"
    if "file_to_pool_index p g = Some k" for g k
  proof (cases "g = f")
    case True
    then show ?thesis using that Some 1(4,5) p1(1) by simp
  next
    case False
    then have "metadata p' ! k = metadata p ! k"
      using that m 1(2) unfolding p1(1) retained_def by metis
    then show ?thesis by simp
  qed
  then have "pending p' = pending p" using m by (intro pending_cong) simp_all
  with same p1 1(3) show thesis by blast
next
  case None
  show thesis
  proof (cases "next_pool_index p < pool_size p")
    case True
    then have "p' = loaded f advise (next_pool_index p) (replacer p) p" "w' = w"
      using ret unfolding retain_fresh [OF inv None True] by auto
    moreover have "pending (loaded f advise (next_pool_index p) (replacer p) p) = pending p"
      using pending_loaded [OF inv None True] by simp
    moreover have "fd (loaded f advise (next_pool_index p) (replacer p) p) = fd p" by (simp add: loaded_def)
    ultimately show thesis by (intro same) simp_all
  next
    case n: False
    have e: "dpr_elems (replacer p) \<noteq> {}"
      using retain_locked_full [OF inv None n] ret by (auto simp: retain_def)
    obtain j r where r: "j < next_pool_index p" "refcount (metadata p ! j) = 0" "dpr_inv r"
      "retain wal f advise (p, w) =
        bindR (if dirty (metadata p ! j) then log_flushed wal (page_lsn (metadata p ! j)) w else Inr w)
          (\<lambda>w'. Inr (j, loaded f advise j r p, w'))"
      using retain_evict [OF inv None n e] by metis
    have j: "j < pool_size p" using r(1) pool_invD(3) [OF inv] by simp
    have jf: "file_to_pool_index p (file_index (metadata p ! j)) = Some j" using r(1) pool_invD(4) [OF inv] by blast
    have p': "p' = loaded f advise j r p"
      "(if dirty (metadata p ! j) then log_flushed wal (page_lsn (metadata p ! j)) w else Inr w) = Inr w'"
      using ret unfolding r(4) bindR_Inr by auto
    have pd: "pending p' = (pending p)(file_index (metadata p ! j) := None)"
      using pending_loaded [OF inv None j] r(1) p'(1) by simp
    show thesis
    proof (cases "dirty (metadata p ! j)")
      case True
      then show thesis
        using p' pd r(1) jf pool_inv_view_slot [OF inv r(1)]
        by (intro written [of "file_index (metadata p ! j)" "page_lsn (metadata p ! j)"])
          (simp_all add: pending_def loaded_def Let_def)
    next
      case False
      then have "pending p (file_index (metadata p ! j)) = None" using jf by (simp add: pending_def)
      then have "pending p' = pending p" unfolding pd by (rule fun_upd_idem)
      then show thesis using False p' by (intro same) (simp_all add: loaded_def)
    qed
  qed
qed

lemma release_pending:
  assumes "pool_inv p" "i < next_pool_index p" "0 < refcount (metadata p ! i)"
    "release i p = Inr p'"
  shows "pending p' = pending p"
proof -
  have i: "i < length (metadata p)" using assms(2) pool_invD(2,3) [OF assms(1)] by simp
  obtain p1 where "release i p = Inr p1" "file_to_pool_index p1 = file_to_pool_index p"
    "metadata p1 = (metadata p)[i := (metadata p ! i)\<lparr>refcount := refcount (metadata p ! i) - 1\<rparr>]"
    using release_ok [OF assms(1-3)] by metis
  then show ?thesis using assms(4) i by (intro pending_cong) (auto simp: nth_list_update)
qed

lemma modify_pending:
  assumes inv: "pool_inv p" and f: "file_to_pool_index p f = Some i"
    and p'_def: "p' = p\<lparr>pages := (pages p)[i := pg],
      metadata := (metadata p)[i := (metadata p ! i)\<lparr>dirty := True, page_lsn := max l (page_lsn (metadata p ! i))\<rparr>]\<rparr>"
  obtains k where "pending p' = (pending p)(f \<mapsto> k)" "l \<le> k" "\<And>j. pending p f = Some j \<Longrightarrow> j \<le> k"
proof
  note i = pool_inv_resident [OF inv f]
  have il: "i < length (metadata p)" using i pool_invD(2) [OF inv] by simp
  show "pending p' = (pending p)(f \<mapsto> max l (page_lsn (metadata p ! i)))"
  proof
    fix g
    show "pending p' g = ((pending p)(f \<mapsto> max l (page_lsn (metadata p ! i)))) g"
    proof (cases "g = f")
      case True
      then show ?thesis using f il by (simp add: pending_def p'_def)
    next
      case False
      then have "j \<noteq> i" if "file_to_pool_index p g = Some j" for j
        using that i(3) pool_inv_resident(3) [OF inv] by blast
      then show ?thesis using False by (auto simp: pending_def p'_def split: option.splits)
    qed
  qed
  show "j \<le> max l (page_lsn (metadata p ! i))" if "pending p f = Some j" for j
    using that f by (simp add: pending_def split: if_splits)
qed simp

lemma flush_all_pending:
  assumes inv: "pool_inv p"
  shows "pool_inv (flush_all p)" "view (flush_all p) = view p" "pending (flush_all p) = Map.empty"
    "file_page (fd (flush_all p)) = view p" "pool_size (flush_all p) = pool_size p"
    "refcount (metadata (flush_all p) ! i) = refcount (metadata p ! i)"
proof -
  have s: "\<forall>i\<in>set [0..<pool_size p]. i < pool_size p" by simp
  note fs = flush_slots_ok [OF inv s, folded flush_all_def]
  then show fi: "pool_inv (flush_all p)" and v: "view (flush_all p) = view p"
    and "pool_size (flush_all p) = pool_size p"
    and "refcount (metadata (flush_all p) ! i) = refcount (metadata p ! i)" by blast+
  have "\<not> dirty (metadata (flush_all p) ! i)" if "file_to_pool_index (flush_all p) f = Some i" for f i
    using pool_inv_resident(2) [OF fi that] fs by simp
  then show e: "pending (flush_all p) = Map.empty"
    by (auto simp: pending_def split: option.splits intro!: ext)
  show "file_page (fd (flush_all p)) = view p"
    using pending_None [OF fi] e v by (intro ext) (metis)
qed

text \<open>How often each slot is pinned.\<close>

definition refcounts :: "BufferPool \<Rightarrow> int list" where
  "refcounts p = map refcount (metadata p)"

lemma refcounts_loaded:
  assumes "pool_inv p" "i < pool_size p" "refcount (metadata p ! i) = 0"
  shows "refcounts (loaded f advise i r p) = (refcounts p)[i := refcounts p ! i + 1]"
  using assms(2,3) pool_invD(2) [OF assms(1)]
  by (simp add: refcounts_def loaded_def Let_def map_update)

lemma retain_refcounts:
  assumes inv: "pool_inv p" and ret: "retain wal f advise (p, w) = Inr (i, p', w')"
  shows "refcounts p' = (refcounts p)[i := refcounts p ! i + 1]"
proof (cases "file_to_pool_index p f")
  case (Some j)
  obtain p1 where 1: "retain wal f advise (p, w) = Inr (j, p1, w)"
    "map refcount (metadata p1) = (map refcount (metadata p))[j := refcount (metadata p ! j) + 1]"
    using retain_hit [OF inv Some] by metis
  have "j < length (metadata p)" using pool_inv_resident(2) [OF inv Some] pool_invD(2) [OF inv] by simp
  then show ?thesis using 1 ret by (simp add: refcounts_def)
next
  case None
  show ?thesis
  proof (cases "next_pool_index p < pool_size p")
    case True
    have "refcount (metadata p ! next_pool_index p) = 0"
      using pool_invD(5) [OF inv True] by (simp add: PageMetadata_reset_def)
    then show ?thesis
      using ret refcounts_loaded [OF inv True] unfolding retain_fresh [OF inv None True] by auto
  next
    case n: False
    have e: "dpr_elems (replacer p) \<noteq> {}"
      using retain_locked_full [OF inv None n] ret by (auto simp: retain_def)
    obtain j r where r: "j < next_pool_index p" "refcount (metadata p ! j) = 0"
      "retain wal f advise (p, w) =
        bindR (if dirty (metadata p ! j) then log_flushed wal (page_lsn (metadata p ! j)) w else Inr w)
          (\<lambda>w'. Inr (j, loaded f advise j r p, w'))"
      using retain_evict [OF inv None n e] by metis
    then have "j < pool_size p" using pool_invD(3) [OF inv] by simp
    then show ?thesis
      using ret refcounts_loaded [OF inv _ r(2)] unfolding r(3) bindR_Inr by auto
  qed
qed

lemma release_refcounts:
  assumes "pool_inv p" "i < next_pool_index p" "0 < refcount (metadata p ! i)" "release i p = Inr p'"
  shows "refcounts p' = (refcounts p)[i := refcounts p ! i - 1]"
proof -
  have "i < length (metadata p)" using assms(2) pool_invD(2,3) [OF assms(1)] by simp
  moreover have "metadata p' = (metadata p)[i := (metadata p ! i)\<lparr>refcount := refcount (metadata p ! i) - 1\<rparr>]"
    using release_ok [OF assms(1-3)] assms(4) by (metis sum.inject(2))
  ultimately show ?thesis by (simp add: refcounts_def map_update)
qed

text \<open>\<open>retain\<close> returns if the page is in the pool or some slot is not pinned, unless the log
  cannot be flushed.\<close>

lemma retain_returns:
  assumes inv: "pool_inv p" and "file_to_pool_index p f \<noteq> None \<or> 0 \<in> set (refcounts p)"
    and log: "\<And>l. \<exists>w'. log_flushed wal l w = Inr w'"
  obtains i p' w' where "retain wal f advise (p, w) = Inr (i, p', w')"
proof (rule retain_cases [OF inv, of wal f advise w])
  assume "file_to_pool_index p f = None" "\<forall>i<pool_size p. 0 < refcount (metadata p ! i)"
  then have "0 \<notin> set (refcounts p)" using pool_invD(2) [OF inv] by (force simp: refcounts_def in_set_conv_nth)
  then show thesis using \<open>file_to_pool_index p f = None\<close> assms(2) by blast
next
  fix i e assume "log_flushed wal (page_lsn (metadata p ! i)) w = Inl e"
  then show thesis using log [of "page_lsn (metadata p ! i)"] by simp
qed (use that in blast)

section \<open>The contract of the write-ahead log\<close>

text \<open>
  What the pool relies on when it calls \<open>flush_up_to\<close>: once the call has returned, the log
  records up to that LSN are on disk, and records on disk stay there.  \<open>ok\<close> is the invariant of
  the log under which it promises this.
\<close>

locale write_ahead_log =
  fixes flush :: "nat \<Rightarrow> 'w \<Rightarrow> 'w result"
    and durable :: "'w \<Rightarrow> nat \<Rightarrow> bool"
    and ok :: "'w \<Rightarrow> bool"
  assumes flush_durable: "ok w \<Longrightarrow> flush lsn w = Inr w' \<Longrightarrow> durable w' lsn"
    and flush_keeps: "ok w \<Longrightarrow> flush lsn w = Inr w' \<Longrightarrow> durable w l \<Longrightarrow> durable w' l"
    and flush_ok: "ok w \<Longrightarrow> flush lsn w = Inr w' \<Longrightarrow> ok w'"
begin

lemma evicted_durable:
  assumes "ok w" "evicted_safely (Some flush) p w p' w'"
  shows "ok w' \<and> (\<forall>l. durable w l \<longrightarrow> durable w' l) \<and>
    (\<forall>g. file_page (fd p') g \<noteq> file_page (fd p) g \<longrightarrow>
      (\<exists>j<next_pool_index p. file_index (metadata p ! j) = g \<and> refcount (metadata p ! j) = 0 \<and>
        file_page (fd p') g = pages p ! j \<and> durable w' (page_lsn (metadata p ! j))))"
proof (cases "w' = w \<and> fd p' = fd p")
  case True
  then have "w' = w" "file_page (fd p') = file_page (fd p)" by simp_all
  then show ?thesis using assms(1) by simp
next
  case False
  then obtain j where j: "j < next_pool_index p" "refcount (metadata p ! j) = 0"
    "flush (page_lsn (metadata p ! j)) w = Inr w'"
    and fd: "fd p' = pwrite_page (file_index (metadata p ! j)) (pages p ! j) (fd p)"
    using assms(2) unfolding evicted_safely_def log_flushed_def option.case by blast
  have "ok w'" "durable w' (page_lsn (metadata p ! j))" "\<forall>l. durable w l \<longrightarrow> durable w' l"
    using assms(1) j(3) flush_ok flush_durable flush_keeps by blast+
  moreover have "file_page (fd p') g = (if g = file_index (metadata p ! j) then pages p ! j
      else file_page (fd p) g)" for g by (simp add: fd pwrite_page_def)
  ultimately show ?thesis using j(1,2) by (metis (no_types))
qed

lemma retain_durable:
  assumes "ok w" "pool_inv p" "retain (Some flush) f advise (p, w) = Inr (i, p', w')"
  shows "ok w' \<and> (\<forall>l. durable w l \<longrightarrow> durable w' l) \<and>
    (\<forall>g. file_page (fd p') g \<noteq> file_page (fd p) g \<longrightarrow>
      (\<exists>j<next_pool_index p. file_index (metadata p ! j) = g \<and> refcount (metadata p ! j) = 0 \<and>
        file_page (fd p') g = pages p ! j \<and> durable w' (page_lsn (metadata p ! j))))"
proof -
  have "evicted_safely (Some flush) p w p' w'"
    using retain_retained [OF assms(2,3)] by (rule conjunct2)
  then show ?thesis by (rule evicted_durable [OF assms(1)])
qed

end

section \<open>Properties\<close>

text \<open>A pool of one slot that holds page 3, changed by log record 5, not pinned.\<close>

definition dirty_example :: BufferPool where
  "dirty_example = \<lparr>fd = empty_file, pool_size = 1, next_pool_index = 1,
     pages = [blit zero_page 0 [97]],
     metadata = [\<lparr>file_index = 3, page_lsn = 5, refcount = 0, dirty = True, advise_eviction = False\<rparr>],
     replacer = the (DualPriorityReplacer_insert 0 False DualPriorityReplacer_init),
     file_to_pool_index = [3 \<mapsto> 0]\<rparr>"

lemma dirty_example_inv: "pool_inv dirty_example"
proof -
  obtain r where "DualPriorityReplacer_insert 0 False DualPriorityReplacer_init = Some r"
    "dpr_inv r" "dpr_elems r = {0}" using dpr.ins [of DualPriorityReplacer_init 0 False] by auto
  then show ?thesis
    by (auto simp: pool_inv_def dirty_example_def file_inv_def empty_file_def)
qed

text \<open>C34: When \<open>retain\<close> returns a slot, the requested page is pinned in that slot with the content
  it had before, wherever it was; the pool invariant holds again, no page of the database looks
  different than before, and pages pinned by others have not moved.\<close>

theorem retain_transparent:
  assumes "pool_inv p" "retain wal f advise (p, w) = Inr (i, p', w')"
  shows "pool_inv p' \<and> view p' = view p \<and> pages p' ! i = view p f \<and>
    file_to_pool_index p' f = Some i \<and> 0 < refcount (metadata p' ! i) \<and>
    (\<forall>g j. file_to_pool_index p g = Some j \<longrightarrow> g \<noteq> f \<longrightarrow> 0 < refcount (metadata p ! j) \<longrightarrow>
       file_to_pool_index p' g = Some j \<and> metadata p' ! j = metadata p ! j)"
proof -
  have r: "retained f advise p i p'" using retain_retained [OF assms] by blast
  then show ?thesis
    using retainedD [OF r] retained_pinned [OF assms(1) r] unfolding retained_def by blast
qed

lemma dirty_example_facts:
  "file_to_pool_index dirty_example 3 = Some 0" "file_to_pool_index dirty_example 8 = None"
  "file_to_pool_index dirty_example 4 = None"
  "pool_size dirty_example = 1" "next_pool_index dirty_example = 1"
  "dirty (metadata dirty_example ! 0)" "refcount (metadata dirty_example ! 0) = 0"
  "page_lsn (metadata dirty_example ! 0) = 5" "file_index (metadata dirty_example ! 0) = 3"
  "pages dirty_example ! 0 = blit zero_page 0 [97]" "fd dirty_example = empty_file"
  "view dirty_example 3 = blit zero_page 0 [97]" "view dirty_example 8 = zero_page"
  by (simp_all add: dirty_example_def view_def empty_file_def)

lemma dirty_example_evict:
  obtains r where "retain wal 8 True (dirty_example, w) =
    bindR (log_flushed wal 5 w) (\<lambda>w'. Inr (0, loaded 8 True 0 r dirty_example, w'))"
proof -
  have "dpr_elems (replacer dirty_example) \<noteq> {}"
    using no_candidates [OF dirty_example_inv] by (simp add: dirty_example_facts)
  then show thesis
    using retain_evict [OF dirty_example_inv, of 8 wal True w] that
    by (auto simp: dirty_example_facts)
qed

theorem retain_transparent_witness:
  "\<exists>p'. retain None 8 True (dirty_example, ()) = Inr (0, p', ()) \<and> view p' 3 0 = 97 \<and> pages p' ! 0 = zero_page"
proof -
  obtain p' where p': "retain None 8 True (dirty_example, ()) = Inr (0, p', ())"
    using dirty_example_evict [of None "()"] by (auto simp: log_flushed_def)
  have "view p' = view dirty_example" "pages p' ! 0 = view dirty_example 8"
    using retain_transparent [OF dirty_example_inv p'] by blast+
  with p' show ?thesis by (auto simp: dirty_example_facts blit_def)
qed

text \<open>C35: As long as the log can be flushed, \<open>retain\<close> fails in one case only: the page is not in
  the pool and every slot holds a pinned page; the exception is then \<open>BufferPoolFullException\<close>.\<close>

theorem retain_fails_iff_full:
  assumes "pool_inv p" "\<And>lsn. \<exists>w'. log_flushed wal lsn w = Inr w'"
  shows "case retain wal f advise (p, w) of
      Inr _ \<Rightarrow> file_to_pool_index p f \<noteq> None \<or> (\<exists>i<pool_size p. refcount (metadata p ! i) = 0)
    | Inl e \<Rightarrow> e = BufferPoolFullException \<and> file_to_pool_index p f = None \<and>
        (\<forall>i<pool_size p. 0 < refcount (metadata p ! i))"
proof (rule retain_cases [OF assms(1), of wal f advise w], goal_cases)
  case (2 i e)
  with assms(2) show ?case by (metis Inl_Inr_False)
qed auto

theorem retain_fails_iff_full_witness:
  "\<exists>p'. retain (Some (\<lambda>lsn w. Inr (max lsn w))) 3 False (dirty_example, 0) = Inr (0, p', 0::nat) \<and>
    retain (Some (\<lambda>lsn w. Inr (max lsn w))) 4 False (p', 0) = Inl BufferPoolFullException"
proof -
  let ?wal = "Some (\<lambda>lsn w. Inr (max lsn w)) :: nat flush_callback"
  obtain p' where p': "retain ?wal 3 False (dirty_example, 0) = Inr (0, p', 0)"
    "retained 3 False dirty_example 0 p'"
    using retain_hit [OF dirty_example_inv dirty_example_facts(1)] by metis
  have q: "file_to_pool_index p' 4 = None" "pool_size p' = 1" "0 < refcount (metadata p' ! 0)"
    using retained_same_slot [OF p'(2)] retainedD(4) [OF p'(2)] retained_pinned [OF dirty_example_inv p'(2)]
    by (simp_all add: dirty_example_facts)
  have "retain ?wal 4 False (p', 0) = Inl BufferPoolFullException"
    using retain_fails_iff_full [OF retainedD(1) [OF p'(2)], of ?wal 0 4 False] q
    by (auto simp: log_flushed_def split: sum.splits)
  with p' show ?thesis by blast
qed

text \<open>C36: The write-ahead rule of eviction: \<open>retain\<close> changes a page of the data file only to write
  back a dirty page that nobody has pinned, and only after \<open>flush_up_to\<close> has returned for the LSN
  of the last change of that page.\<close>

theorem eviction_writes_log_first:
  assumes "pool_inv p" "retain (Some flush) f advise (p, w) = Inr (i, p', w')"
    and "file_page (fd p') g \<noteq> file_page (fd p) g"
  shows "\<exists>j. file_to_pool_index p g = Some j \<and> dirty (metadata p ! j) \<and> refcount (metadata p ! j) = 0 \<and>
    flush (page_lsn (metadata p ! j)) w = Inr w' \<and> file_page (fd p') g = pages p ! j"
proof -
  have "evicted_safely (Some flush) p w p' w'" using retain_retained [OF assms(1,2)] by blast
  with assms(3) obtain j where j: "j < next_pool_index p" "dirty (metadata p ! j)"
    "refcount (metadata p ! j) = 0" "log_flushed (Some flush) (page_lsn (metadata p ! j)) w = Inr w'"
    "fd p' = pwrite_page (file_index (metadata p ! j)) (pages p ! j) (fd p)"
    unfolding evicted_safely_def by auto
  with assms(3) have "file_index (metadata p ! j) = g" by (auto simp: pwrite_page_def split: if_splits)
  with j pool_invD(4) [OF assms(1)] show ?thesis by (auto simp: log_flushed_def pwrite_page_def)
qed

theorem eviction_writes_log_first_witness:
  "\<exists>p'. retain (Some (\<lambda>lsn w. Inr (max lsn w))) 8 True (dirty_example, 2) = Inr (0, p', 5) \<and>
    file_page (fd p') 3 = blit zero_page 0 [97]"
proof -
  let ?flush = "\<lambda>lsn w. Inr (max lsn w) :: nat result"
  obtain r where "retain (Some ?flush) 8 True (dirty_example, 2) =
      bindR (log_flushed (Some ?flush) 5 2) (\<lambda>w'. Inr (0, loaded 8 True 0 r dirty_example, w'))"
    by (rule dirty_example_evict)
  then have p': "retain (Some ?flush) 8 True (dirty_example, 2) = Inr (0, loaded 8 True 0 r dirty_example, 5)"
    by (simp add: log_flushed_def)
  have "file_page (fd (loaded 8 True 0 r dirty_example)) 3 0 \<noteq> file_page (fd dirty_example) 3 0"
    by (simp add: loaded_def dirty_example_facts pwrite_page_def empty_file_def blit_def)
  then have "file_page (fd (loaded 8 True 0 r dirty_example)) 3 \<noteq> file_page (fd dirty_example) 3" by metis
  then show ?thesis
    using eviction_writes_log_first [OF dirty_example_inv p', of 3] p'
    by (auto simp: dirty_example_facts)
qed

text \<open>Getting a handle and destroying it is neutral: the destructor succeeds, the database
  looks the same, and the page, now in the pool, has as many references as before.\<close>

theorem handle_lifecycle:
  assumes "pool_inv p" "get_page wal f advise (p, w) = Inr (h, p1, w1)"
  shows "\<exists>p2. PageHandle_destroy h p1 = Inr p2 \<and> pool_inv p2 \<and> view p2 = view p \<and>
    file_to_pool_index p2 f = Some (nat (pool_index h)) \<and>
    refcount (metadata p2 ! nat (pool_index h)) =
      (case file_to_pool_index p f of None \<Rightarrow> 0 | Some i \<Rightarrow> refcount (metadata p ! i))"
proof -
  obtain i where i: "retain wal f advise (p, w) = Inr (i, p1, w1)" "h = \<lparr>pool_index = int i\<rparr>"
    using assms(2) by (auto simp: get_page_def bindR_Inr)
  have r: "retained f advise p i p1" using retain_retained [OF assms(1) i(1)] by (rule conjunct1)
  note d = retainedD [OF r]
  have pin: "0 < refcount (metadata p1 ! i)" by (rule retained_pinned [OF assms(1) r])
  obtain p2 where p2: "release i p1 = Inr p2" "pool_inv p2" "view p2 = view p1"
    "file_to_pool_index p2 = file_to_pool_index p1"
    "metadata p2 = (metadata p1)[i := (metadata p1 ! i)\<lparr>refcount := refcount (metadata p1 ! i) - 1\<rparr>]"
    using release_ok [OF d(1,5) pin] by metis
  have "refcount (metadata p2 ! i) = refcount (metadata p1 ! i) - 1"
    using p2(5) d(6) pool_invD(2) [OF d(1)] by simp
  also have "\<dots> = (case file_to_pool_index p f of None \<Rightarrow> 0 | Some i \<Rightarrow> refcount (metadata p ! i))"
    using retained_refcount [OF r] retained_same_slot [OF r] by (auto split: option.split)
  finally show ?thesis
    using p2(1-4) d(2,3) by (simp add: i(2) PageHandle_destroy_def)
qed

theorem handle_lifecycle_witness:
  "\<exists>h p1 p2. get_page None 3 False (dirty_example, ()) = Inr (h, p1, ()) \<and>
     PageHandle_destroy h p1 = Inr p2 \<and> view p2 = view dirty_example"
proof -
  obtain p1 where "retain None 3 False (dirty_example, ()) = Inr (0, p1, ())"
    using retain_hit [OF dirty_example_inv dirty_example_facts(1)] by metis
  then have g: "get_page None 3 False (dirty_example, ()) = Inr (\<lparr>pool_index = 0\<rparr>, p1, ())"
    by (simp add: get_page_def)
  show ?thesis using handle_lifecycle [OF dirty_example_inv g] g by blast
qed

text \<open>After \<open>flush_all\<close> no page is dirty, the file holds for every page what readers see, and
  readers see what they saw before.\<close>

theorem flush_all_writes_back:
  assumes "pool_inv p"
  shows "pool_inv (flush_all p) \<and> view (flush_all p) = view p \<and>
    file_page (fd (flush_all p)) = view p \<and>
    (\<forall>i<pool_size p. \<not> dirty (metadata (flush_all p) ! i))"
proof -
  define q where "q = flush_all p"
  have q: "pool_inv q" "view q = view p" "\<forall>i<pool_size p. \<not> dirty (metadata q ! i)" "pool_size q = pool_size p"
    using flush_slots_ok [OF assms, of "[0..<pool_size p]"] by (simp_all add: q_def flush_all_def)
  have "file_page (fd q) g = view q g" for g
  proof (cases "file_to_pool_index q g")
    case (Some i)
    with pool_inv_resident [OF q(1) Some] pool_invD(9) [OF q(1), of i] q(3,4) show ?thesis
      by (simp add: view_def)
  qed (simp add: view_def)
  then have "file_page (fd q) = view p" using q(2) by auto
  with q show ?thesis by (simp add: q_def)
qed

theorem flush_all_writes_back_witness:
  "file_page (fd (flush_all dirty_example)) 3 0 = 97 \<and> file_page (fd dirty_example) 3 0 = 0"
  using flush_all_writes_back [OF dirty_example_inv]
  by (simp add: dirty_example_facts blit_def empty_file_def)

text \<open>C37: Move assignment to a handle that holds a page does not release that page: once both
  handles have been destroyed, the page the target held before is still pinned.\<close>

theorem move_assign_leaks_pin:
  assumes "pool_inv p" "i \<noteq> j"
    and "i < next_pool_index p" "0 < refcount (metadata p ! i)"
    and "j < next_pool_index p" "0 < refcount (metadata p ! j)"
    and "PageHandle_move_assign \<lparr>pool_index = int i\<rparr> \<lparr>pool_index = int j\<rparr> = (this, other)"
  shows "\<exists>p'. PageHandle_destroy this p = Inr p' \<and> PageHandle_destroy other p' = Inr p' \<and>
    refcount (metadata p' ! j) = refcount (metadata p ! j) - 1 \<and>
    refcount (metadata p' ! i) = refcount (metadata p ! i)"
proof -
  have h: "this = \<lparr>pool_index = int j\<rparr>" "other = \<lparr>pool_index = -1\<rparr>"
    using assms(7) by (auto simp: PageHandle_move_assign_def)
  obtain p' where p': "release j p = Inr p'"
    "metadata p' = (metadata p)[j := (metadata p ! j)\<lparr>refcount := refcount (metadata p ! j) - 1\<rparr>]"
    using release_ok [OF assms(1,5,6)] by metis
  have "j < length (metadata p)" using assms(5) pool_invD(2,3) [OF assms(1)] by simp
  with p' assms(2) show ?thesis by (simp add: h PageHandle_destroy_def)
qed

definition pinned_example :: BufferPool where
  "pinned_example = (BufferPool_init empty_file 2)\<lparr>next_pool_index := 2,
     metadata := [\<lparr>file_index = 1, page_lsn = 0, refcount = 1, dirty = False, advise_eviction = False\<rparr>,
       \<lparr>file_index = 7, page_lsn = 0, refcount = 1, dirty = False, advise_eviction = False\<rparr>],
     file_to_pool_index := [1 \<mapsto> 0, 7 \<mapsto> 1]\<rparr>"

lemma pinned_example_inv: "pool_inv pinned_example"
proof -
  let ?md = "metadata pinned_example"
  have md: "?md ! 0 = \<lparr>file_index = 1, page_lsn = 0, refcount = 1, dirty = False, advise_eviction = False\<rparr>"
    "?md ! 1 = \<lparr>file_index = 7, page_lsn = 0, refcount = 1, dirty = False, advise_eviction = False\<rparr>"
    by (simp_all add: pinned_example_def)
  have "i < 2 \<Longrightarrow> P (0::nat) \<Longrightarrow> P 1 \<Longrightarrow> P i" for P i by (auto simp: less_2_cases_iff)
  moreover have "file_to_pool_index pinned_example f = Some i \<longleftrightarrow> i < 2 \<and> file_index (?md ! i) = f" for f i
    using md by (cases "i = 0"; cases "i = 1") (auto simp: pinned_example_def)
  moreover have rc: "refcount (?md ! i) = 1" if "i < 2" for i using that md by (auto simp: less_2_cases_iff)
  moreover have "{i. i < 2 \<and> refcount (?md ! i) = 0} = {}" using rc by fastforce
  ultimately show ?thesis
    using md unfolding pool_inv_def
    by (simp add: pinned_example_def BufferPool_init_def file_inv_def empty_file_def)
qed

theorem move_assign_leaks_pin_witness:
  "\<exists>p'. PageHandle_destroy \<lparr>pool_index = 1\<rparr> pinned_example = Inr p' \<and>
     PageHandle_destroy \<lparr>pool_index = -1\<rparr> p' = Inr p' \<and> refcount (metadata p' ! 0) = 1"
  using move_assign_leaks_pin [OF pinned_example_inv, of 0 1 "\<lparr>pool_index = 1\<rparr>" "\<lparr>pool_index = -1\<rparr>"]
  by (auto simp: PageHandle_move_assign_def pinned_example_def)

text \<open>
  Two threads in \<open>retain\<close>: one has left the lock with its writing and reading still to do, when the
  other runs \<open>retain\<close> from beginning to end.
\<close>

text \<open>\<open>retain\<close> of a page that is not in a full pool, whatever the pool holds besides.\<close>

lemma retain_evict_raw:
  assumes f: "file_to_pool_index p f = None" and n: "\<not> next_pool_index p < pool_size p" and d: "dpr_inv (replacer p)"
    and l: "\<And>v. v \<in> dpr_elems (replacer p) \<Longrightarrow> 0 \<le> v \<and> nat v < length (metadata p)" "length (pages p) = length (metadata p)"
    and fi: "file_inv (fd p)" and r: "retain wal f advise (p, w) = Inr (j, p', w')"
  obtains fd' where "int j \<in> dpr_elems (replacer p)" "pages p' = (pages p)[j := file_page fd' f]"
    "metadata p' = (metadata p)[j := \<lparr>file_index = f, page_lsn = 0, refcount = 1, dirty = False, advise_eviction = advise\<rparr>]"
    "file_to_pool_index p' = (file_to_pool_index p)(file_index (metadata p ! j) := None, f \<mapsto> j)" "fd p' = fd'"
    "fd' = fd p \<or> fd' = pwrite_page (file_index (metadata p ! j)) (pages p ! j) (fd p)"
proof -
  have "dpr_elems (replacer p) \<noteq> {}"
    using f n r dpr.evt_none [OF d] by (auto simp: retain_def retain_locked_def claim_slot_def)
  then obtain v r' where v: "DualPriorityReplacer_evict (replacer p) = Some (v, r')" "v \<in> dpr_elems (replacer p)" "v \<noteq> -1" "0 \<le> v"
    using d by (auto elim: dpr.evt_cases)
  define i where "i = nat v"
  have i: "v = int i" "i < length (metadata p)" using v(2,4) l(1) by (auto simp: i_def)
  define md where "md = metadata p ! i"
  define q where "q = p\<lparr>replacer := r', metadata := (metadata p)[i := \<lparr>file_index = f, page_lsn = 0, refcount = 1, dirty = False,
      advise_eviction = advise\<rparr>], file_to_pool_index := (file_to_pool_index p)(file_index md := None, f \<mapsto> i)\<rparr>"
  define io where "io = \<lparr>io_slot = i, needs_read = True, evicted_needs_write = dirty md,
       evicted_page_file_index = (if dirty md then file_index md else NO_FILE_INDEX),
       evicted_page_lsn = (if dirty md then page_lsn md else 2 ^ 64 - 1)\<rparr>"
  have "retain_locked f advise p = Inr (q, io)"
    using f n v(1) i by (simp add: retain_locked_def claim_slot_def Let_def PageMetadata_reset_def q_def io_def md_def)
  then obtain q' where q': "retain_write wal io q w = Inr (q', w')" "j = i" "p' = retain_read f io q'"
    using r by (auto simp: retain_def bindR_Inr io_def)
  then have "q' = q\<lparr>fd := fd q'\<rparr>" "fd q' = fd p \<or> fd q' = pwrite_page (file_index md) (pages p ! i) (fd p)"
    by (auto simp: retain_write_def io_def q_def bindR_Inr split: if_splits option.splits)
  moreover from this(2) have "file_inv (fd q')" using fi by auto
  ultimately show thesis
    using pread_page_eq [of "fd q'" f] q'(2,3) v(2) i(1)
    by (intro that [of "fd q'"]) (auto simp: retain_read_def io_def q_def md_def split: prod.split)
qed

definition race_example :: BufferPool where
  "race_example = \<lparr>fd = empty_file, pool_size = 2, next_pool_index = 2,
     pages = [blit zero_page 0 [97], zero_page],
     metadata = [\<lparr>file_index = 3, page_lsn = 5, refcount = 0, dirty = True, advise_eviction = False\<rparr>,
       \<lparr>file_index = 9, page_lsn = 0, refcount = 0, dirty = False, advise_eviction = False\<rparr>],
     replacer = the (dpr_run [Insert 0 False, Insert 1 False] DualPriorityReplacer_init),
     file_to_pool_index = [3 \<mapsto> 0, 9 \<mapsto> 1]\<rparr>"

lemma race_example_evictions:
  obtains r1 r2 where "DualPriorityReplacer_evict (replacer race_example) = Some (0, r1)"
    "DualPriorityReplacer_evict r1 = Some (1, r2)"
proof -
  let ?d = "replacer race_example"
  have d: "dpr_inv ?d"
    using dpr_run_inv [OF dpr_init(1), of "[Insert 0 False, Insert 1 False]"] by (auto simp: race_example_def)
  have l: "lru_list (unimportant ?d) = []" "lru_list (important ?d) = [1, 0]"
    unfolding race_example_def by code_simp+
  obtain r1 where r1: "DualPriorityReplacer_evict ?d = Some (0, r1)" "dpr_inv r1"
    "unimportant r1 = unimportant ?d" "lru_list (important r1) = [1]"
    using dpr_evict_important [OF d] l by auto
  then obtain r2 where "DualPriorityReplacer_evict r1 = Some (1, r2)"
    using dpr_evict_important [OF r1(2)] l by auto
  with r1 that show thesis by blast
qed

text \<open>A pool of two slots after two pages have been taken from an empty file, one of them changed.\<close>

definition race_setup :: "BufferPool result" where
  "race_setup =
     bindR (get_page None 3 False (BufferPool_init empty_file 2, ())) (\<lambda>(h, p, _).
     bindR (handle_store h 0 [97] p) (\<lambda>p.
     bindR (modified_by h 5 p) (\<lambda>p.
     bindR (PageHandle_destroy h p) (\<lambda>p.
     bindR (get_page None 9 False (p, ())) (\<lambda>(h, p, _). PageHandle_destroy h p)))))"

lemma race_setup_reached: "race_setup = Inr race_example"
proof -
  obtain r1 where r1: "DualPriorityReplacer_insert 0 False DualPriorityReplacer_init = Some r1" "dpr_inv r1" 
    using dpr.ins [of DualPriorityReplacer_init 0 False] by auto
  then obtain r2 where r2: "DualPriorityReplacer_insert 1 False r1 = Some r2" using dpr.ins [of r1 1 False] by auto
  have r: "replacer race_example = r2" using r1 r2 by (simp add: race_example_def)
  show ?thesis
    using r1 r2 r
    by (simp add: race_setup_def get_page_def retain_def retain_locked_def claim_slot_def retain_write_def retain_read_def
        handle_store_def modified_by_def PageHandle_destroy_def release_def BufferPool_init_def empty_file_def
        PageMetadata_reset_def pread_page_def Let_def race_example_def numeral_2_eq_2)
qed


lemma race_example_inv: "pool_inv race_example"
proof -
  let ?md = "metadata race_example"
  have md: "?md ! 0 = \<lparr>file_index = 3, page_lsn = 5, refcount = 0, dirty = True, advise_eviction = False\<rparr>"
    "?md ! 1 = \<lparr>file_index = 9, page_lsn = 0, refcount = 0, dirty = False, advise_eviction = False\<rparr>"
    by (simp_all add: race_example_def)
  obtain r1 where r1: "DualPriorityReplacer_insert 0 False DualPriorityReplacer_init = Some r1" "dpr_inv r1" "dpr_elems r1 = {0}"
    using dpr.ins [of DualPriorityReplacer_init 0 False] by auto
  then obtain r2 where r2: "DualPriorityReplacer_insert 1 False r1 = Some r2" "dpr_inv r2" "dpr_elems r2 = {0, 1}"
    using dpr.ins [of r1 1 False] by auto
  have r: "replacer race_example = r2" using r1 r2 by (simp add: race_example_def)
  have "file_to_pool_index race_example f = Some i \<longleftrightarrow> i < 2 \<and> file_index (?md ! i) = f" for f i
    using md by (cases "i = 0"; cases "i = 1") (auto simp: race_example_def)
  moreover have "{i. i < 2 \<and> refcount (?md ! i) = 0} = {0, 1}" using md by (auto simp: less_2_cases_iff)
  moreover have "0 \<le> refcount (?md ! i)" "\<not> dirty (?md ! i) \<longrightarrow> pages race_example ! i = zero_page" if "i < 2" for i
    using that md by (auto simp: less_2_cases_iff race_example_def)
  moreover have "fd race_example = empty_file" "pool_size race_example = 2" "next_pool_index race_example = 2"
    "length (pages race_example) = 2" "length ?md = 2" by (simp_all add: race_example_def)
  ultimately show ?thesis using r r2 unfolding pool_inv_def by (simp add: file_inv_def empty_file_def)
qed

text \<open>C38: Deferring the write of an evicted page until after the lock is released loses updates.  One
  thread evicts a changed page and leaves the lock; another one asks for that page and runs through
  \<open>retain\<close>; then the first one writes the page back and reads its own.  In any pool, if this happens,
  the evicted page is afterwards in the pool, clean, with the content the file had before, and readers go
  on seeing this although the file has the changed content: the change is lost from sight, and
  the invariant of the pool is broken.\<close>

theorem deferred_write_race:
  assumes "pool_inv p" "retain_locked f advise p = Inr (p1, io)" "evicted_needs_write io"
    "retain wal (evicted_page_file_index io) advise' (p1, w) = Inr (j, p2, w2)" "retain_write wal io p2 w2 = Inr (p3, w3)"
  shows "file_to_pool_index (retain_read f io p3) (evicted_page_file_index io) = Some j \<and>
    \<not> dirty (metadata (retain_read f io p3) ! j) \<and>
    view (retain_read f io p3) (evicted_page_file_index io) = file_page (fd p) (evicted_page_file_index io) \<and>
    file_page (fd (retain_read f io p3)) (evicted_page_file_index io) = view p (evicted_page_file_index io) \<and>
    (file_page (fd p) (evicted_page_file_index io) \<noteq> view p (evicted_page_file_index io) \<longrightarrow>
      view (retain_read f io p3) (evicted_page_file_index io) \<noteq> view p (evicted_page_file_index io) \<and> \<not> pool_inv (retain_read f io p3))"
proof -
  note d = pool_invD [OF assms(1)]
  have f: "file_to_pool_index p f = None"
    using assms(2,3) by (cases "file_to_pool_index p f") (auto simp: retain_locked_def bindR_Inr Let_def split: if_splits)
  have n: "\<not> next_pool_index p < pool_size p"
    using assms(2,3) retain_locked_fresh [OF assms(1) f] by auto
  have "dpr_elems (replacer p) \<noteq> {}" using assms(2) retain_locked_full [OF assms(1) f n] by auto
  then obtain i r where i: "i < next_pool_index p" "refcount (metadata p ! i) = 0" "dpr_inv r"
    "dpr_elems r = dpr_elems (replacer p) - {int i}"
    "retain_locked f advise p = Inr (p\<lparr>replacer := r,
      metadata := (metadata p)[i := \<lparr>file_index = f, page_lsn = 0, refcount = 1, dirty = False,
        advise_eviction = advise\<rparr>],
      file_to_pool_index := (file_to_pool_index p)(file_index (metadata p ! i) := None, f \<mapsto> i)\<rparr>,
      \<lparr>io_slot = i, needs_read = True, evicted_needs_write = dirty (metadata p ! i),
       evicted_page_file_index = (if dirty (metadata p ! i) then file_index (metadata p ! i) else NO_FILE_INDEX),
       evicted_page_lsn = (if dirty (metadata p ! i) then page_lsn (metadata p ! i) else 2 ^ 64 - 1)\<rparr>)"
    using retain_locked_evict [OF assms(1) f n] by metis
  define g where "g = file_index (metadata p ! i)"
  have io: "evicted_page_file_index io = g" "io_slot io = i" "needs_read io" using assms(2,3) i(5) by (auto simp: g_def)
  have p1: "next_pool_index p1 = next_pool_index p" "pool_size p1 = pool_size p" "replacer p1 = r" "pages p1 = pages p" "fd p1 = fd p"
    "length (metadata p1) = length (metadata p)" "\<And>k. k \<noteq> i \<Longrightarrow> metadata p1 ! k = metadata p ! k"
    "file_to_pool_index p1 = (file_to_pool_index p)(g := None, f \<mapsto> i)"
    using assms(2) i(5) by (auto simp: g_def)
  have g: "file_to_pool_index p g = Some i" using d(4) i(1) by (simp add: g_def)
  then have fg: "f \<noteq> g" using f by auto
  obtain fd' where 2: "int j \<in> dpr_elems r" "pages p2 = (pages p)[j := file_page fd' g]"
    "metadata p2 = (metadata p1)[j := \<lparr>file_index = g, page_lsn = 0, refcount = 1, dirty = False, advise_eviction = advise'\<rparr>]"
    "file_to_pool_index p2 = (file_to_pool_index p1)(file_index (metadata p1 ! j) := None, g \<mapsto> j)" "fd p2 = fd'"
    "fd' = fd p \<or> fd' = pwrite_page (file_index (metadata p1 ! j)) (pages p ! j) (fd p)"
  proof (rule retain_evict_raw [OF _ _ _ _ _ _ assms(4) [unfolded io(1)], unfolded p1(3-5)])
    show "0 \<le> v \<and> nat v < length (metadata p1)" if "v \<in> dpr_elems r" for v
    proof -
      have "v \<in> int ` {i. i < next_pool_index p \<and> refcount (metadata p ! i) = 0}" using that i(4) assms(1) by (simp add: pool_inv_def)
      then show ?thesis using d(2,3) p1(6) by auto
    qed
  qed (use fg n i(3) d(1,2,10) p1 in simp_all)
  have j: "j < next_pool_index p" "j \<noteq> i" using 2(1) i(4) d(8) by auto
  have jl: "j < length (pages p)" "j < length (metadata p1)" "i < length (pages p)" using j(1) i(1) d(1,2,3) p1(6) by auto
  have fj: "file_to_pool_index p (file_index (metadata p ! j)) = Some j" using d(4) j(1) by simp
  have h: "file_index (metadata p1 ! j) \<noteq> g" "file_index (metadata p1 ! j) \<noteq> f"
    using fj g f j(2) p1(7) by auto
  have old: "file_page fd' g = file_page (fd p) g" using 2(6) h(1) by (auto simp: pwrite_page_def)
  have pi: "pages p2 ! i = view p g" using 2(2) j(2) g by (simp add: view_def)
  have p3: "p3 = p2\<lparr>fd := pwrite_page g (view p g) (fd p2)\<rparr>"
    using assms(3,5) io pi by (auto simp: retain_write_def bindR_Inr split: option.splits)
  define q where "q = retain_read f io p3"
  obtain pg where q: "q = p3\<lparr>pages := (pages p3)[i := pg]\<rparr>" using io by (cases "pread_page (fd p3) f") (simp add: q_def retain_read_def)
  have m: "file_to_pool_index q g = Some j" by (simp add: q p3 2(4))
  have v: "view q g = file_page (fd p) g" using m j(2) jl old by (simp add: view_def q p3 2(2))
  have c: "\<not> dirty (metadata q ! j)" using jl(2) by (simp add: q p3 2(3))
  have nw: "file_page (fd q) g = view p g" by (simp add: q p3 pwrite_page_def)
  have "\<not> pool_inv q" if "file_page (fd p) g \<noteq> view p g"
  proof
    assume inv: "pool_inv q"
    have "j < next_pool_index q" "file_index (metadata q ! j) = g" using m pool_invD(4) [OF inv] by auto
    then have "pages q ! j = file_page (fd q) g" using pool_invD(9) [OF inv] c by blast
    then show False using that v nw m by (simp add: view_def)
  qed
  then show ?thesis unfolding io(1) q_def [symmetric] using m c v nw by simp
qed

theorem deferred_write_race_witness:
  "\<exists>p p1 io j p2 p3. race_setup = Inr p \<and> retain_locked 8 False p = Inr (p1, io) \<and>
    retain None 3 False (p1, ()) = Inr (j, p2, ()) \<and> retain_write None io p2 () = Inr (p3, ()) \<and>
    view p 3 0 = 97 \<and> view (retain_read 8 io p3) 3 0 = 0"
proof -
  obtain r1 r2 where r: "DualPriorityReplacer_evict (replacer race_example) = Some (0, r1)"
    "DualPriorityReplacer_evict r1 = Some (1, r2)" using race_example_evictions by metis
  have f: "fd race_example = empty_file" "pool_size race_example = 2" "next_pool_index race_example = 2"
    "pages race_example = [blit zero_page 0 [97], zero_page]"
    "metadata race_example =
      [\<lparr>file_index = 3, page_lsn = 5, refcount = 0, dirty = True, advise_eviction = False\<rparr>,
       \<lparr>file_index = 9, page_lsn = 0, refcount = 0, dirty = False, advise_eviction = False\<rparr>]"
    "file_to_pool_index race_example = [3 \<mapsto> 0, 9 \<mapsto> 1]"
    by (simp_all add: race_example_def)
  obtain p1 io where 1: "retain_locked 8 False race_example = Inr (p1, io)" "evicted_needs_write io" "evicted_page_file_index io = 3"
    "replacer p1 = r1" "next_pool_index p1 = 2" "pool_size p1 = 2" "file_to_pool_index p1 3 = None" "length (metadata p1) = 2"
    "\<not> dirty (metadata p1 ! 1)"
    by (simp add: retain_locked_def claim_slot_def f r Let_def PageMetadata_reset_def)
  obtain j p2 where 2: "retain None 3 False (p1, ()) = Inr (j, p2, ())"
    using 1(4-9) r(2) by (auto simp: retain_def retain_locked_def claim_slot_def retain_write_def Let_def PageMetadata_reset_def)
  obtain p3 where 3: "retain_write None io p2 () = Inr (p3, ())" using 1(2) by (simp add: retain_write_def)
  have "view (retain_read 8 io p3) 3 = file_page (fd race_example) 3"
    using deferred_write_race [OF race_example_inv 1(1,2), of None False "()" j p2 "()" p3 "()"] 1(3) 2 3 by simp
  moreover have "view race_example 3 0 = 97" by (simp add: view_def f blit_def)
  ultimately show ?thesis using race_setup_reached 1(1) 2 3 by (auto simp: f(1) empty_file_def)
qed

end
