(* ===== verification/Wal_Record.thy ===== *)
theory Wal_Record
  imports Prelude Hashing
begin

text \<open>
  The records of the write-ahead log: their layout in the log file (\<open>wal.h\<close>), and the functions of
  \<open>wal.cpp\<close> that only look at records and at the log file: sizes, checksum, loading a record,
  the compensation of a record.  The union of \<open>WALHeader\<close> is a datatype tagged by the type byte.
  The integers of a header are natural numbers; where the code stores into a field of 16 or 32
  bits, the reduction is written out.

  At the end, the effect of a record on the pages of the database, on which the theory of
  recovery is built.
\<close>

section \<open>Layout\<close>

record SetRecord =
  set_loc :: nat
  set_length :: nat
  set_old_value_len :: nat
  set_new_value_len :: nat

record CompensationRecord =
  clr_undo_lsn :: nat
  clr_loc :: nat
  clr_length :: nat
  clr_new_value_len :: nat

datatype wal_body =
    BEGIN | COMMIT | ABORT_BEGIN | ABORT_END | CHECKPOINT
  | SET SetRecord
  | CLR CompensationRecord
  | OTHER nat

record InMemoryWALRecord =
  rec_checksum :: nat
  rec_lsn :: nat
  rec_txn_id :: nat
  rec_body :: wal_body
  rec_data :: "byte list"

fun WALRecordType :: "wal_body \<Rightarrow> nat" where
  "WALRecordType BEGIN = 0"
| "WALRecordType COMMIT = 1"
| "WALRecordType ABORT_BEGIN = 2"
| "WALRecordType ABORT_END = 3"
| "WALRecordType CHECKPOINT = 4"
| "WALRecordType (SET _) = 5"
| "WALRecordType (CLR _) = 6"
| "WALRecordType (OTHER t) = t"

text \<open>\<open>sizeof(WALCommonHeader)\<close>, \<open>sizeof(SetRecord)\<close>, \<open>sizeof(CompensationRecord)\<close>, all packed.\<close>

definition COMMON_HEADER_SIZE :: nat where
  [simp]: "COMMON_HEADER_SIZE = 13"

definition SET_RECORD_SIZE :: nat where
  [simp]: "SET_RECORD_SIZE = 14"

definition COMPENSATION_RECORD_SIZE :: nat where
  [simp]: "COMPENSATION_RECORD_SIZE = 16"

fun record_header_size :: "wal_body \<Rightarrow> nat" where
  "record_header_size (CLR _) = COMMON_HEADER_SIZE + COMPENSATION_RECORD_SIZE"
| "record_header_size (SET _) = COMMON_HEADER_SIZE + SET_RECORD_SIZE"
| "record_header_size _ = COMMON_HEADER_SIZE"

fun data_size :: "wal_body \<Rightarrow> nat" where
  "data_size (CLR c) = clr_new_value_len c"
| "data_size (SET s) = set_old_value_len s + set_new_value_len s"
| "data_size _ = 0"

definition record_size :: "wal_body \<Rightarrow> nat" where
  "record_size b = record_header_size b + data_size b"

text \<open>The bytes of a header, \<open>record_header_size\<close> of them: what \<open>memcpy(\<dots>, &record.header, \<dots>)\<close>
  copies.\<close>

fun body_bytes :: "wal_body \<Rightarrow> byte list" where
  "body_bytes (SET s) = le_bytes 8 (set_loc s) @ le_bytes 2 (set_length s) @
     le_bytes 2 (set_old_value_len s) @ le_bytes 2 (set_new_value_len s)"
| "body_bytes (CLR c) = le_bytes 4 (clr_undo_lsn c) @ le_bytes 8 (clr_loc c) @
     le_bytes 2 (clr_length c) @ le_bytes 2 (clr_new_value_len c)"
| "body_bytes _ = []"

definition header_bytes :: "InMemoryWALRecord \<Rightarrow> byte list" where
  "header_bytes r = le_bytes 4 (rec_checksum r) @ le_bytes 4 (rec_lsn r) @ le_bytes 4 (rec_txn_id r) @
     le_bytes 1 (WALRecordType (rec_body r)) @ body_bytes (rec_body r)"

definition encode :: "InMemoryWALRecord \<Rightarrow> byte list" where
  "encode r = header_bytes r @ rec_data r"

lemma length_body_bytes: "length (body_bytes b) = record_header_size b - COMMON_HEADER_SIZE"
  by (cases b) auto

lemma record_header_size_ge: "COMMON_HEADER_SIZE \<le> record_header_size b"
  by (cases b) auto

lemma length_header_bytes [simp]: "length (header_bytes r) = record_header_size (rec_body r)"
  using record_header_size_ge [of "rec_body r"] by (simp add: header_bytes_def length_body_bytes)

lemma record_size_pos: "0 < record_size b"
  using record_header_size_ge [of b] by (simp add: record_size_def)

section \<open>Checksum\<close>

definition record_checksum :: "InMemoryWALRecord \<Rightarrow> nat" where
  "record_checksum r =
     (let cs = digest checksum_init (drop 4 (header_bytes r));
          cs = (if length (rec_data r) > 0 then digest cs (rec_data r) else cs)
      in unat cs mod 2 ^ 32)"

definition with_checksum :: "InMemoryWALRecord \<Rightarrow> InMemoryWALRecord" where
  "with_checksum r = r\<lparr>rec_checksum := record_checksum r\<rparr>"

lemma drop_header_bytes: "drop 4 (header_bytes r) = le_bytes 4 (rec_lsn r) @ le_bytes 4 (rec_txn_id r) @
    le_bytes 1 (WALRecordType (rec_body r)) @ body_bytes (rec_body r)"
  by (simp add: header_bytes_def)

lemma record_checksum_update [simp]: "record_checksum (r\<lparr>rec_checksum := c\<rparr>) = record_checksum r"
  by (simp add: record_checksum_def drop_header_bytes Let_def)

lemma with_checksum_simps [simp]:
  "rec_checksum (with_checksum r) = record_checksum r"
  "record_checksum (with_checksum r) = record_checksum r"
  "rec_lsn (with_checksum r) = rec_lsn r"
  "rec_txn_id (with_checksum r) = rec_txn_id r"
  "rec_body (with_checksum r) = rec_body r"
  "rec_data (with_checksum r) = rec_data r"
  by (simp_all add: with_checksum_def)

lemma record_checksum_less: "record_checksum r < 2 ^ 32"
  by (simp add: record_checksum_def Let_def)

section \<open>Loading\<close>

text \<open>\<open>pread\<close> into a zeroed buffer: bytes past the end of the file stay zero.\<close>

definition pread_zeroed :: "byte list \<Rightarrow> nat \<Rightarrow> nat \<Rightarrow> byte list" where
  "pread_zeroed file n offset =
     (let bs = take n (drop offset file) in bs @ zeros (n - length bs))"

lemma length_pread_zeroed [simp]: "length (pread_zeroed file n offset) = n"
  by (simp add: pread_zeroed_def Let_def)

definition field :: "byte list \<Rightarrow> nat \<Rightarrow> nat \<Rightarrow> nat" where
  "field bs offset n = le_val (take n (drop offset bs))"

definition decode_body :: "byte list \<Rightarrow> wal_body" where
  "decode_body h =
     (let t = field h 12 1 in
      if t = 0 then BEGIN else if t = 1 then COMMIT else if t = 2 then ABORT_BEGIN
      else if t = 3 then ABORT_END else if t = 4 then CHECKPOINT
      else if t = 5 then SET \<lparr>set_loc = field h 13 8, set_length = field h 21 2,
        set_old_value_len = field h 23 2, set_new_value_len = field h 25 2\<rparr>
      else if t = 6 then CLR \<lparr>clr_undo_lsn = field h 13 4, clr_loc = field h 17 8,
        clr_length = field h 25 2, clr_new_value_len = field h 27 2\<rparr>
      else OTHER t)"

definition load_wal_record :: "byte list \<Rightarrow> nat \<Rightarrow> InMemoryWALRecord" where
  "load_wal_record file offset =
     (let h = pread_zeroed file (COMMON_HEADER_SIZE + COMPENSATION_RECORD_SIZE) offset;
          b = decode_body h in
      \<lparr>rec_checksum = field h 0 4, rec_lsn = field h 4 4, rec_txn_id = field h 8 4, rec_body = b,
       rec_data = pread_zeroed file (data_size b) (offset + record_header_size b)\<rparr>)"

text \<open>The records that fit their fields.\<close>

fun wf_body :: "wal_body \<Rightarrow> bool" where
  "wf_body (SET s) \<longleftrightarrow> set_loc s < 2 ^ 64 \<and> set_length s < 2 ^ 16 \<and>
     set_old_value_len s < 2 ^ 16 \<and> set_new_value_len s < 2 ^ 16"
| "wf_body (CLR c) \<longleftrightarrow> clr_undo_lsn c < 2 ^ 32 \<and> clr_loc c < 2 ^ 64 \<and> clr_length c < 2 ^ 16 \<and>
     clr_new_value_len c < 2 ^ 16"
| "wf_body (OTHER t) \<longleftrightarrow> 7 \<le> t \<and> t < 256"
| "wf_body _ \<longleftrightarrow> True"

definition wf_record :: "InMemoryWALRecord \<Rightarrow> bool" where
  "wf_record r \<longleftrightarrow> rec_checksum r < 2 ^ 32 \<and> rec_lsn r < 2 ^ 32 \<and> rec_txn_id r < 2 ^ 32 \<and>
     wf_body (rec_body r) \<and> length (rec_data r) = data_size (rec_body r)"

lemma length_encode: "wf_record r \<Longrightarrow> length (encode r) = record_size (rec_body r)"
  by (simp add: encode_def wf_record_def record_size_def)

lemma field_append: "field (pre @ bs @ post) (length pre) (length bs) = le_val bs"
  by (simp add: field_def)

lemma field_at: "off = length pre \<Longrightarrow> n = length bs \<Longrightarrow> field (pre @ bs @ post) off n = le_val bs"
  by (simp add: field_def)


lemma le_val_small: "k < 256 ^ n \<Longrightarrow> le_val (le_bytes n k) = k"
  by (rule le_val_le_bytes_small)

text \<open>Loading what was written: the header is read back from the first 29 bytes, however far the
  file goes on.\<close>

lemma pread_zeroed_prefix:
  assumes "length h \<le> n"
  obtains post where "pread_zeroed (pre @ h @ rest) n (length pre) = h @ post"
proof
  show "pread_zeroed (pre @ h @ rest) n (length pre) =
      h @ take (n - length h) rest @ zeros (n - (length h + length (take (n - length h) rest)))"
    using assms by (simp add: pread_zeroed_def Let_def)
qed

lemma pread_zeroed_inside:
  "n = length d \<Longrightarrow> off = length pre \<Longrightarrow> pread_zeroed (pre @ d @ rest) n off = d"
  by (simp add: pread_zeroed_def Let_def)

lemma type_less: "wf_body b \<Longrightarrow> WALRecordType b < 256"
  by (cases b) auto

lemma header_fields:
  assumes "wf_record r"
  shows "field (header_bytes r @ post) 0 4 = rec_checksum r"
    "field (header_bytes r @ post) 4 4 = rec_lsn r"
    "field (header_bytes r @ post) 8 4 = rec_txn_id r"
    "field (header_bytes r @ post) 12 1 = WALRecordType (rec_body r)"
proof -
  define c l t k b where "c = le_bytes 4 (rec_checksum r)" "l = le_bytes 4 (rec_lsn r)"
    "t = le_bytes 4 (rec_txn_id r)" "k = le_bytes 1 (WALRecordType (rec_body r))"
    "b = body_bytes (rec_body r)"
  have len: "length c = 4" "length l = 4" "length t = 4" "length k = 1"
    unfolding c_l_t_k_b_def by (rule length_le_bytes)+
  have h: "header_bytes r @ post = c @ l @ t @ k @ b @ post"
    by (simp only: header_bytes_def c_l_t_k_b_def append.assoc)
  have v: "le_val c = rec_checksum r" "le_val l = rec_lsn r" "le_val t = rec_txn_id r"
    "le_val k = WALRecordType (rec_body r)"
    unfolding c_l_t_k_b_def using assms type_less [of "rec_body r"]
    by (simp_all only: le_val_le_bytes wf_record_def) simp_all
  show "field (header_bytes r @ post) 0 4 = rec_checksum r"
    unfolding h field_def using len v by simp
  show "field (header_bytes r @ post) 4 4 = rec_lsn r"
    unfolding h field_def using len v by simp
  show "field (header_bytes r @ post) 8 4 = rec_txn_id r"
    unfolding h field_def using len v by simp
  show "field (header_bytes r @ post) 12 1 = WALRecordType (rec_body r)"
    unfolding h field_def using len v by simp
qed

lemma decode_header:
  assumes wf: "wf_record r"
  shows "decode_body (header_bytes r @ post) = rec_body r"
proof -
  define pre where "pre = le_bytes 4 (rec_checksum r) @ le_bytes 4 (rec_lsn r) @ le_bytes 4 (rec_txn_id r) @
     le_bytes 1 (WALRecordType (rec_body r))"
  have pre: "length pre = 13" by (simp add: pre_def)
  have h: "header_bytes r @ post = pre @ body_bytes (rec_body r) @ post"
    by (simp add: header_bytes_def pre_def)
  have t: "field (header_bytes r @ post) 12 1 = WALRecordType (rec_body r)"
    by (rule header_fields [OF wf])
  have wfb: "wf_body (rec_body r)" using wf by (simp add: wf_record_def)
  show ?thesis
  proof (cases "rec_body r")
    case (SET s)
    have "field (pre @ body_bytes (SET s) @ post) 13 8 = set_loc s"
      "field (pre @ body_bytes (SET s) @ post) 21 2 = set_length s"
      "field (pre @ body_bytes (SET s) @ post) 23 2 = set_old_value_len s"
      "field (pre @ body_bytes (SET s) @ post) 25 2 = set_new_value_len s"
      using wfb SET by (simp_all add: field_def pre le_val_small)
    then show ?thesis using t unfolding h SET by (simp add: decode_body_def Let_def)
  next
    case (CLR c)
    have "field (pre @ body_bytes (CLR c) @ post) 13 4 = clr_undo_lsn c"
      "field (pre @ body_bytes (CLR c) @ post) 17 8 = clr_loc c"
      "field (pre @ body_bytes (CLR c) @ post) 25 2 = clr_length c"
      "field (pre @ body_bytes (CLR c) @ post) 27 2 = clr_new_value_len c"
      using wfb CLR by (simp_all add: field_def pre le_val_small)
    then show ?thesis using t unfolding h CLR by (simp add: decode_body_def Let_def)
  next
    case (OTHER n)
    then show ?thesis using t wfb by (simp add: decode_body_def)
  qed (use t in \<open>simp_all add: decode_body_def\<close>)
qed

lemma load_encoded:
  assumes wf: "wf_record r" and off: "offset = length pre"
  shows "load_wal_record (pre @ encode r @ rest) offset = r"
proof -
  have "length (header_bytes r) \<le> 29" by (cases "rec_body r") simp_all
  then obtain post where h: "pread_zeroed (pre @ header_bytes r @ rec_data r @ rest) 29 offset = header_bytes r @ post"
    unfolding off by (rule pread_zeroed_prefix)
  have "pread_zeroed ((pre @ header_bytes r) @ rec_data r @ rest) (data_size (rec_body r))
      (offset + record_header_size (rec_body r)) = rec_data r"
    using wf off by (intro pread_zeroed_inside) (simp_all add: wf_record_def)
  then show ?thesis
    using h by (simp add: load_wal_record_def encode_def decode_header [OF wf] header_fields [OF wf] Let_def)
qed

section \<open>Reading the log\<close>

text \<open>The loop of \<open>recover\<close> that loads records until the end of the file or a record whose checksum
  is wrong; it leaves \<open>log_pos\<close> there.\<close>

function load_log :: "byte list \<Rightarrow> nat \<Rightarrow> InMemoryWALRecord list \<times> nat" where
  "load_log file log_pos =
     (if log_pos < length file then
        let record = load_wal_record file log_pos in
        if rec_checksum record \<noteq> record_checksum record then ([], log_pos)
        else let (records, pos) = load_log file (log_pos + record_size (rec_body record))
          in (record # records, pos)
      else ([], log_pos))"
  by pat_completeness auto
termination
  by (relation "measure (\<lambda>(file, pos). length file - pos)") (use record_size_pos in \<open>auto simp: diff_less_mono2\<close>)

declare load_log.simps [simp del]

definition encode_all :: "InMemoryWALRecord list \<Rightarrow> byte list" where
  "encode_all rs = concat (map encode rs)"

lemma encode_all_simps [simp]:
  "encode_all [] = []"
  "encode_all (r # rs) = encode r @ encode_all rs"
  "encode_all (rs @ rs') = encode_all rs @ encode_all rs'"
  by (simp_all add: encode_all_def)

definition valid_record :: "InMemoryWALRecord \<Rightarrow> bool" where
  "valid_record r \<longleftrightarrow> wf_record r \<and> rec_checksum r = record_checksum r"

lemma length_encode_pos: "valid_record r \<Longrightarrow> 0 < length (encode r)"
  using record_size_pos [of "rec_body r"] length_encode by (simp add: valid_record_def)

text \<open>What follows the last record: nothing, or something that fails the checksum.\<close>

definition rejected :: "byte list \<Rightarrow> bool" where
  "rejected tail \<longleftrightarrow> tail = [] \<or>
     (let r = load_wal_record tail 0 in rec_checksum r \<noteq> record_checksum r)"

lemma pread_zeroed_offset: "pread_zeroed (pre @ file) n (length pre + off) = pread_zeroed file n off"
  by (simp add: pread_zeroed_def)

lemma load_wal_record_offset: "load_wal_record (pre @ file) (length pre + off) = load_wal_record file off"
  using pread_zeroed_offset [of pre "file"] by (simp add: load_wal_record_def Let_def add.assoc)

lemma load_log_rejected: "rejected tail \<Longrightarrow> load_log (pre @ tail) (length pre) = ([], length pre)"
  using load_wal_record_offset [of pre tail 0]
  by (subst load_log.simps) (auto simp: rejected_def Let_def)

lemma load_log_valid:
  assumes "valid_record r"
  shows "load_log (pre @ encode r @ rest) (length pre) =
    (let (rs, pos) = load_log ((pre @ encode r) @ rest) (length (pre @ encode r)) in (r # rs, pos))"
proof -
  have "load_wal_record (pre @ encode r @ rest) (length pre) = r"
    using assms by (intro load_encoded) (simp_all add: valid_record_def)
  moreover have "length (encode r) = record_size (rec_body r)" "0 < length (encode r)"
    using assms length_encode length_encode_pos by (simp_all add: valid_record_def)
  ultimately show ?thesis
    using assms by (subst load_log.simps) (simp add: valid_record_def)
qed

lemma load_log_encoded:
  assumes "\<forall>r\<in>set rs. valid_record r" "rejected tail"
  shows "load_log (pre @ encode_all rs @ tail) (length pre) = (rs, length pre + length (encode_all rs))"
  using assms(1)
proof (induction rs arbitrary: pre)
  case Nil
  then show ?case using load_log_rejected [OF assms(2)] by simp
next
  case (Cons r rs)
  have "load_log ((pre @ encode r) @ encode_all rs @ tail) (length (pre @ encode r)) =
      (rs, length (pre @ encode r) + length (encode_all rs))"
    using Cons by (intro Cons.IH) simp
  then show ?case using Cons.prems load_log_valid [of r pre "encode_all rs @ tail"] by simp
qed

lemma load_wal_record_zeros:
  "load_wal_record (zeros n) 0 =
    \<lparr>rec_checksum = 0, rec_lsn = 0, rec_txn_id = 0, rec_body = BEGIN, rec_data = []\<rparr>"
proof -
  have z: "pread_zeroed (zeros n) k 0 = zeros k" for k
    by (cases "n \<le> k") (simp_all add: pread_zeroed_def Let_def zeros_def replicate_add [symmetric] min_def)
  have f: "field (zeros k) off m = 0" for k off m
  proof -
    have "le_val (replicate j 0) = 0" for j by (induction j) auto
    then show ?thesis by (simp add: field_def zeros_def)
  qed
  show ?thesis
    using z [of 29] z [of 0] f by (simp add: load_wal_record_def decode_body_def Let_def pread_zeroed_def)
qed

lemma digest_zeros_9: "digest checksum_init [0, 0, 0, 0, 0, 0, 0, 0, 0] = 1155456428850112815"
  by (simp add: digest_long digest_short checksum_init_def mix_def Let_def)

lemma zeros_checksum:
  "record_checksum \<lparr>rec_checksum = 0, rec_lsn = 0, rec_txn_id = 0, rec_body = BEGIN, rec_data = []\<rparr> \<noteq> 0"
proof -
  have "drop 4 (header_bytes \<lparr>rec_checksum = 0, rec_lsn = 0, rec_txn_id = 0, rec_body = BEGIN, rec_data = []\<rparr>) =
      [0, 0, 0, 0, 0, 0, 0, 0, 0]"
    unfolding drop_header_bytes by (simp add: le_bytes_zero) (simp add: numeral_eq_Suc)
  then show ?thesis by (simp add: record_checksum_def digest_zeros_9)
qed

lemma rejected_zeros: "rejected (zeros n)"
  by (simp add: rejected_def Let_def load_wal_record_zeros zeros_checksum)

section \<open>Old and new values\<close>

text \<open>\<open>get_unpadded_length\<close>: the length without the zero bytes at the end.\<close>

fun unpadded_loop :: "byte list \<Rightarrow> nat \<Rightarrow> nat" where
  "unpadded_loop data 0 = 0"
| "unpadded_loop data (Suc i) = (if data ! i \<noteq> 0 then Suc i else unpadded_loop data i)"

definition get_unpadded_length :: "nat \<Rightarrow> byte list \<Rightarrow> nat" where
  "get_unpadded_length len data = unpadded_loop data len"

lemma unpadded_loop_le: "unpadded_loop data n \<le> n"
  by (induction n) auto

lemma unpadded_loop_zero: "unpadded_loop data n \<le> i \<Longrightarrow> i < n \<Longrightarrow> data ! i = 0"
  by (induction n) (auto split: if_splits simp: less_Suc_eq)

lemma unpadded_loop_nonzero: "0 < unpadded_loop data n \<Longrightarrow> data ! (unpadded_loop data n - 1) \<noteq> 0"
  by (induction n) auto

definition pad :: "nat \<Rightarrow> byte list \<Rightarrow> byte list" where
  "pad n bs = bs @ zeros (n - length bs)"

lemma length_pad [simp]: "length bs \<le> n \<Longrightarrow> length (pad n bs) = n"
  by (simp add: pad_def)

lemma pad_unpadded:
  assumes "length data = n"
  shows "pad n (take (get_unpadded_length n data) data) = data"
proof (rule nth_equalityI)
  have le: "get_unpadded_length n data \<le> n" by (simp add: get_unpadded_length_def unpadded_loop_le)
  then show "length (pad n (take (get_unpadded_length n data) data)) = length data" using assms by simp
  fix i assume "i < length (pad n (take (get_unpadded_length n data) data))"
  then have i: "i < n" using le assms by simp
  show "pad n (take (get_unpadded_length n data) data) ! i = data ! i"
  proof (cases "i < get_unpadded_length n data")
    case True
    then show ?thesis using assms le by (simp add: pad_def nth_append)
  next
    case False
    then have "data ! i = 0" using i unpadded_loop_zero [of data n i] by (simp add: get_unpadded_length_def)
    then show ?thesis using False i assms le by (simp add: pad_def nth_append)
  qed
qed

text \<open>The value before and the value after, as \<open>create_compensation_record\<close> and \<open>apply_record\<close>
  take them from the data of the record.\<close>

definition create_compensation_record :: "InMemoryWALRecord \<Rightarrow> nat \<Rightarrow> InMemoryWALRecord result" where
  "create_compensation_record r next_lsn =
     (case rec_body r of
        SET s \<Rightarrow>
          if length (rec_data r) < set_old_value_len s then Inl MemoryError
          else Inr (with_checksum
            \<lparr>rec_checksum = 0, rec_lsn = next_lsn, rec_txn_id = rec_txn_id r,
             rec_body = CLR \<lparr>clr_undo_lsn = rec_lsn r, clr_loc = set_loc s, clr_length = set_length s,
               clr_new_value_len = set_old_value_len s\<rparr>,
             rec_data = take (set_old_value_len s) (rec_data r)\<rparr>)
      | _ \<Rightarrow> Inl (DiskMapException ''WAL::create_compensation_record: record is not of type SET''))"

section \<open>Effect on the database\<close>

text \<open>
  The bytes a record writes: page, offset in the page and content, zero-filled to the length of
  the record.  \<open>redo\<close> is the effect of \<open>apply_record\<close> on the pages, \<open>undo_write\<close> what the
  compensation of a record writes.
\<close>

type_synonym page_write = "nat \<times> nat \<times> byte list"

fun redo_write :: "InMemoryWALRecord \<Rightarrow> page_write option" where
  "redo_write r = (case rec_body r of
     SET s \<Rightarrow> Some (set_loc s div PAGE_SIZE, set_loc s mod PAGE_SIZE,
       pad (set_length s) (take (set_new_value_len s) (drop (set_old_value_len s) (rec_data r))))
   | CLR c \<Rightarrow> Some (clr_loc c div PAGE_SIZE, clr_loc c mod PAGE_SIZE,
       pad (clr_length c) (take (clr_new_value_len c) (rec_data r)))
   | _ \<Rightarrow> None)"

fun undo_write :: "InMemoryWALRecord \<Rightarrow> page_write option" where
  "undo_write r = (case rec_body r of
     SET s \<Rightarrow> Some (set_loc s div PAGE_SIZE, set_loc s mod PAGE_SIZE,
       pad (set_length s) (take (set_old_value_len s) (rec_data r)))
   | _ \<Rightarrow> None)"

declare redo_write.simps [simp del] undo_write.simps [simp del]

definition write_bytes :: "page_write option \<Rightarrow> (nat \<Rightarrow> page) \<Rightarrow> nat \<Rightarrow> page" where
  "write_bytes w v = (case w of None \<Rightarrow> v | Some (f, off, bs) \<Rightarrow> v(f := blit (v f) off bs))"

definition redo :: "InMemoryWALRecord \<Rightarrow> (nat \<Rightarrow> page) \<Rightarrow> nat \<Rightarrow> page" where
  "redo r = write_bytes (redo_write r)"

text \<open>A record whose values fit its range, and whose range lies in one page.\<close>

fun body_fits :: "wal_body \<Rightarrow> bool" where
  "body_fits (SET s) \<longleftrightarrow> set_loc s mod PAGE_SIZE + set_length s \<le> PAGE_SIZE \<and>
     set_old_value_len s \<le> set_length s \<and> set_new_value_len s \<le> set_length s"
| "body_fits (CLR c) \<longleftrightarrow> clr_loc c mod PAGE_SIZE + clr_length c \<le> PAGE_SIZE \<and>
     clr_new_value_len c \<le> clr_length c"
| "body_fits _ \<longleftrightarrow> True"

definition good_record :: "InMemoryWALRecord \<Rightarrow> bool" where
  "good_record r \<longleftrightarrow> valid_record r \<and> body_fits (rec_body r)"

lemma compensation_good:
  assumes "good_record r" "rec_body r = SET s" "next_lsn < 2 ^ 32"
  obtains c where "create_compensation_record r next_lsn = Inr c" "good_record c"
    "rec_lsn c = next_lsn" "rec_txn_id c = rec_txn_id r" "redo_write c = undo_write r"
    "rec_body c = CLR \<lparr>clr_undo_lsn = rec_lsn r, clr_loc = set_loc s, clr_length = set_length s,
       clr_new_value_len = set_old_value_len s\<rparr>"
proof -
  define c where "c = with_checksum
            \<lparr>rec_checksum = 0, rec_lsn = next_lsn, rec_txn_id = rec_txn_id r,
             rec_body = CLR \<lparr>clr_undo_lsn = rec_lsn r, clr_loc = set_loc s, clr_length = set_length s,
               clr_new_value_len = set_old_value_len s\<rparr>,
             rec_data = take (set_old_value_len s) (rec_data r)\<rparr>"
  have "length (rec_data r) = set_old_value_len s + set_new_value_len s"
    using assms(1,2) by (simp add: good_record_def valid_record_def wf_record_def)
  then have "create_compensation_record r next_lsn = Inr c"
    using assms(2) by (simp add: create_compensation_record_def c_def)
  moreover have "good_record c"
    using assms record_checksum_less [of c] \<open>length (rec_data r) = _\<close>
    by (simp add: good_record_def valid_record_def wf_record_def c_def)
  ultimately show thesis
    using assms(2) by (intro that [of c]) (simp_all add: c_def redo_write.simps undo_write.simps)
qed

lemma compensation_fails:
  "\<forall>s. rec_body r \<noteq> SET s \<Longrightarrow> create_compensation_record r l =
    Inl (DiskMapException ''WAL::create_compensation_record: record is not of type SET'')"
  by (cases "rec_body r") (simp_all add: create_compensation_record_def)

section \<open>Properties\<close>

lemma le_val_append: "le_val (xs @ ys) = le_val xs + 256 ^ length xs * le_val ys"
  by (induction xs) (simp_all add: algebra_simps)

text \<open>C40: A log file that holds the encodings of records, followed by nothing, by zero bytes or by
  anything else that fails the checksum, is read back as exactly these records, and the position
  for the next write is right behind them.\<close>

theorem log_roundtrip:
  assumes "\<forall>r\<in>set rs. valid_record r"
  shows "load_log (encode_all rs @ zeros n) 0 = (rs, length (encode_all rs)) \<and>
    (rejected tail \<longrightarrow> load_log (encode_all rs @ tail) 0 = (rs, length (encode_all rs)))"
  using load_log_encoded [OF assms rejected_zeros, of "[]" n] load_log_encoded [OF assms, of tail "[]"]
  by simp

text \<open>A transaction that wrote one byte.\<close>

definition log_example :: "InMemoryWALRecord list" where
  "log_example = map with_checksum
    [\<lparr>rec_checksum = 0, rec_lsn = 7, rec_txn_id = 3, rec_body = BEGIN, rec_data = []\<rparr>,
     \<lparr>rec_checksum = 0, rec_lsn = 8, rec_txn_id = 7, rec_body = SET \<lparr>set_loc = 4100, set_length = 2,
        set_old_value_len = 2, set_new_value_len = 1\<rparr>, rec_data = [1, 2, 3]\<rparr>,
     \<lparr>rec_checksum = 0, rec_lsn = 9, rec_txn_id = 7, rec_body = COMMIT, rec_data = []\<rparr>]"

lemma valid_with_checksum:
  "wf_record (r\<lparr>rec_checksum := 0\<rparr>) \<Longrightarrow> valid_record (with_checksum r)"
  using record_checksum_less [of r] by (simp add: valid_record_def wf_record_def)

lemma log_example_valid: "\<forall>r\<in>set log_example. valid_record r"
  by (auto simp: log_example_def wf_record_def intro!: valid_with_checksum)

theorem log_roundtrip_witness:
  "load_log (encode_all log_example @ zeros 100) 0 = (log_example, length (encode_all log_example))"
  using log_roundtrip [OF log_example_valid, of 100 "[]"] by blast

text \<open>The checksum of a record that carries no data does not depend on the upper 20 bits of its
  transaction id: the checksum is cut to 32 bits, and differences above reach them too late.  A
  COMMIT record damaged there is accepted by recovery as the commit of another transaction.\<close>

theorem checksum_misses_txn_id:
  assumes "record_header_size (rec_body r) = COMMON_HEADER_SIZE" "rec_data r = []"
    "t mod 2 ^ 12 = t' mod 2 ^ 12"
  shows "record_checksum (r\<lparr>rec_txn_id := t\<rparr>) = record_checksum (r\<lparr>rec_txn_id := t'\<rparr>)"
proof -
  define w where "w x = le_val (le_bytes 4 (rec_lsn r) @ le_bytes 4 x)" for x
  have b: "body_bytes (rec_body r) = []" using assms(1) by (cases "rec_body r") simp_all
  have w: "w x mod 2 ^ 44 = rec_lsn r mod 2 ^ 32 + 2 ^ 32 * (x mod 2 ^ 12)" for x
  proof -
    have "w x = rec_lsn r mod 2 ^ 32 + 2 ^ 32 * (x mod 2 ^ 32)"
      by (simp add: w_def le_val_append le_val_le_bytes)
    moreover have "(a + 2 ^ 32 * (x mod 2 ^ 32)) mod 2 ^ 44 = a + 2 ^ 32 * (x mod 2 ^ 12)"
      if "a < 2 ^ 32" for a :: nat
    proof -
      have "x mod 2 ^ 32 mod 2 ^ 12 = x mod 2 ^ 12" by (rule mod_mod_cancel) simp
      then have "(a + 2 ^ 32 * (x mod 2 ^ 32)) mod (2 ^ 32 * 2 ^ 12) = a + 2 ^ 32 * (x mod 2 ^ 12)"
        using that mod_mult2_eq [of "a + 2 ^ 32 * (x mod 2 ^ 32)" "2 ^ 32" "2 ^ 12"] by simp
      then show ?thesis by simp
    qed
    ultimately show ?thesis by simp
  qed
  have take_bit_word_of_nat: "take_bit 44 (of_nat n :: 64 word) = of_nat (take_bit 44 n)" for n
    by transfer (simp add: take_bit_of_nat)
  have d: "digest checksum_init (drop 4 (header_bytes (r\<lparr>rec_txn_id := x\<rparr>))) =
      mix (mix checksum_init (of_nat (w x))) (scast (of_nat (WALRecordType (rec_body r) mod 256) :: byte))" for x
    using digest_word [of "le_bytes 4 (rec_lsn r) @ le_bytes 4 x" checksum_init
        "[of_nat (WALRecordType (rec_body r) mod 256)]"]
    by (simp add: drop_header_bytes b w_def digest_short)
  have e: "take_bit 44 (of_nat (w t) :: 64 word) = take_bit 44 (of_nat (w t'))"
  proof -
    have "take_bit 44 (w t) = take_bit 44 (w t')"
      unfolding take_bit_eq_mod using w [of t] w [of t'] assms(3) by simp
    then show ?thesis by (simp only: take_bit_word_of_nat)
  qed
  have e38: "take_bit (38 + 6) (of_nat (w t) :: 64 word) = take_bit (38 + 6) (of_nat (w t'))"
    using e by simp
  have "take_bit 38 (mix checksum_init (of_nat (w t))) = take_bit 38 (mix checksum_init (of_nat (w t')))"
    by (rule mix_low_bits [OF refl e38])
  then have f: "take_bit (32 + 6) (mix checksum_init (of_nat (w t))) =
      take_bit (32 + 6) (mix checksum_init (of_nat (w t')))" by simp
  have "take_bit 32 (digest checksum_init (drop 4 (header_bytes (r\<lparr>rec_txn_id := t\<rparr>)))) =
      take_bit 32 (digest checksum_init (drop 4 (header_bytes (r\<lparr>rec_txn_id := t'\<rparr>))))"
    unfolding d by (rule mix_low_bits [OF f refl])
  note eq = arg_cong [OF this, of unat]
  have u: "unat (take_bit 32 h) = unat h mod 2 ^ 32" for h :: "64 word"
    unfolding unsigned_take_bit_eq by (rule take_bit_eq_mod)
  show ?thesis using assms(2) eq unfolding u by (simp add: record_checksum_def Let_def)
qed

theorem checksum_misses_txn_id_witness:
  "record_checksum \<lparr>rec_checksum = 0, rec_lsn = 9, rec_txn_id = 7, rec_body = COMMIT, rec_data = []\<rparr> =
   record_checksum \<lparr>rec_checksum = 0, rec_lsn = 9, rec_txn_id = 4103, rec_body = COMMIT, rec_data = []\<rparr>"
  using checksum_misses_txn_id [of "\<lparr>rec_checksum = 0, rec_lsn = 9, rec_txn_id = 0, rec_body = COMMIT,
    rec_data = []\<rparr>" 7 4103] by simp

end
