(* ===== verification/Redo.thy ===== *)
theory Redo
  imports Prelude Wal_Record
begin

text \<open>
  Histories: what replaying a list of log records, and undoing some of them, does to the pages of
  the database.  Everything here is about lists of records and pages; the theories of the log and
  of recovery connect it to the state of the code.
\<close>

section \<open>Replaying\<close>

definition redo_all :: "InMemoryWALRecord list \<Rightarrow> (nat \<Rightarrow> page) \<Rightarrow> nat \<Rightarrow> page" where
  "redo_all rs v = fold redo rs v"

lemma redo_all_simps [simp]:
  "redo_all [] v = v"
  "redo_all (r # rs) v = redo_all rs (redo r v)"
  "redo_all (rs @ rs') v = redo_all rs' (redo_all rs v)"
  by (simp_all add: redo_all_def)

text \<open>The byte a write leaves at an address, if it covers it.\<close>

definition byte_of :: "page_write option \<Rightarrow> nat \<Rightarrow> nat \<Rightarrow> byte option" where
  "byte_of w f i = (case w of None \<Rightarrow> None
     | Some (g, off, bs) \<Rightarrow> if f = g \<and> off \<le> i \<and> i < off + length bs then Some (bs ! (i - off)) else None)"

lemma write_bytes_byte:
  "write_bytes w v f i = (case byte_of w f i of Some b \<Rightarrow> b | None \<Rightarrow> v f i)"
  by (auto simp: write_bytes_def byte_of_def blit_def split: option.splits)

fun last_byte :: "page_write option list \<Rightarrow> nat \<Rightarrow> nat \<Rightarrow> byte option" where
  "last_byte [] f i = None"
| "last_byte (w # ws) f i = (case last_byte ws f i of Some b \<Rightarrow> Some b | None \<Rightarrow> byte_of w f i)"

lemma fold_write_bytes:
  "fold write_bytes ws v f i = (case last_byte ws f i of Some b \<Rightarrow> b | None \<Rightarrow> v f i)"
  by (induction ws arbitrary: v) (auto simp: write_bytes_byte split: option.splits)

lemma last_byte_append:
  "last_byte (ws @ ws') f i = (case last_byte ws' f i of Some b \<Rightarrow> Some b | None \<Rightarrow> last_byte ws f i)"
  by (induction ws) (auto split: option.splits)

lemma last_byte_None: "last_byte ws f i = None \<longleftrightarrow> (\<forall>w\<in>set ws. byte_of w f i = None)"
  by (induction ws) (auto split: option.splits)

lemma redo_all_writes: "redo_all rs v = fold write_bytes (map redo_write rs) v"
  by (induction rs arbitrary: v) (simp_all add: redo_def)

lemma redo_all_byte:
  "redo_all rs v f i = (case last_byte (map redo_write rs) f i of Some b \<Rightarrow> b | None \<Rightarrow> v f i)"
  by (simp only: redo_all_writes fold_write_bytes)

lemma redo_all_cong: "v f = v' f \<Longrightarrow> redo_all rs v f = redo_all rs v' f"
  by (rule ext) (simp add: redo_all_byte split: option.split)

text \<open>Replaying a history on pages that are already at some point of it brings them to its end.\<close>

lemma redo_all_prefix: "redo_all (rs @ rs') (redo_all rs v) = redo_all (rs @ rs') v"
  by (intro ext) (auto simp: redo_all_byte last_byte_append split: option.splits)

lemma redo_all_idem: "redo_all rs (redo_all rs v) = redo_all rs v"
  using redo_all_prefix [of rs "[]"] by simp

lemma redo_all_suffix: "redo_all rs' (redo_all (rs @ rs') v) = redo_all (rs @ rs') v"
  by (simp add: redo_all_idem)

lemma redo_all_mixed:
  assumes "\<And>f. \<exists>m. pages f = redo_all (take m rs) v f"
  shows "redo_all rs pages = redo_all rs v"
proof
  fix f
  obtain m where "pages f = redo_all (take m rs) v f" using assms by blast
  then have "redo_all rs pages f = redo_all rs (redo_all (take m rs) v) f" by (rule redo_all_cong)
  also have "\<dots> = redo_all rs v f" using redo_all_prefix [of "take m rs" "drop m rs"] by simp
  finally show "redo_all rs pages f = redo_all rs v f" .
qed

text \<open>Records that do not write to a page leave it.\<close>

definition page_of :: "InMemoryWALRecord \<Rightarrow> nat option" where
  "page_of r = map_option fst (redo_write r)"

lemma redo_other_page: "page_of r \<noteq> Some f \<Longrightarrow> redo r v f = v f"
  by (auto simp: page_of_def redo_def write_bytes_def split: option.splits)

lemma redo_no_page: "page_of r = None \<Longrightarrow> redo r v = v"
  by (auto simp: page_of_def redo_def write_bytes_def split: option.splits)

lemma redo_all_other_page: "\<forall>r\<in>set rs. page_of r \<noteq> Some f \<Longrightarrow> redo_all rs v f = v f"
  by (induction rs arbitrary: v) (simp_all add: redo_other_page)

section \<open>Undoing\<close>

definition is_set :: "InMemoryWALRecord \<Rightarrow> bool" where
  "is_set r \<longleftrightarrow> (case rec_body r of SET _ \<Rightarrow> True | _ \<Rightarrow> False)"

definition undo_all :: "InMemoryWALRecord list \<Rightarrow> (nat \<Rightarrow> page) \<Rightarrow> nat \<Rightarrow> page" where
  "undo_all rs v = fold write_bytes (map undo_write (rev rs)) v"

lemma undo_all_simps [simp]:
  "undo_all [] v = v"
  "undo_all (rs @ [r]) v = undo_all rs (write_bytes (undo_write r) v)"
  by (simp_all add: undo_all_def)

lemma undo_all_byte:
  "undo_all rs v f i = (case last_byte (map undo_write (rev rs)) f i of Some b \<Rightarrow> b | None \<Rightarrow> v f i)"
  unfolding undo_all_def by (rule fold_write_bytes)

text \<open>A write within the ranges that are going to be undone makes no difference.\<close>

lemma undo_all_absorbs:
  assumes "r \<in> set rs" "\<And>f i. byte_of w f i \<noteq> None \<Longrightarrow> byte_of (undo_write r) f i \<noteq> None"
  shows "undo_all rs (write_bytes w v) = undo_all rs v"
proof (intro ext)
  fix f i
  show "undo_all rs (write_bytes w v) f i = undo_all rs v f i"
  proof (cases "byte_of w f i")
    case None
    then show ?thesis by (simp add: undo_all_byte write_bytes_byte split: option.split)
  next
    case (Some b)
    then have "byte_of (undo_write r) f i \<noteq> None" using assms(2) by blast
    then have "last_byte (map undo_write (rev rs)) f i \<noteq> None" using assms(1) by (auto simp: last_byte_None)
    then show ?thesis by (auto simp: undo_all_byte)
  qed
qed

section \<open>Transactions that did not finish\<close>

definition is_end :: "InMemoryWALRecord \<Rightarrow> bool" where
  "is_end r \<longleftrightarrow> rec_body r = COMMIT \<or> rec_body r = ABORT_END"

definition finished_txns :: "InMemoryWALRecord list \<Rightarrow> nat set" where
  "finished_txns rs = rec_txn_id ` {r \<in> set rs. is_end r}"

definition losers :: "InMemoryWALRecord list \<Rightarrow> InMemoryWALRecord list" where
  "losers rs = filter (\<lambda>r. is_set r \<and> rec_txn_id r \<notin> finished_txns rs) rs"

text \<open>What recovery makes of a log: replay everything, undo the changes of the transactions that
  did not finish.\<close>

definition recovered :: "InMemoryWALRecord list \<Rightarrow> (nat \<Rightarrow> page) \<Rightarrow> nat \<Rightarrow> page" where
  "recovered rs v = undo_all (losers rs) (redo_all rs v)"

lemma finished_txns_simps [simp]:
  "finished_txns [] = {}"
  "finished_txns (rs @ rs') = finished_txns rs \<union> finished_txns rs'"
  "finished_txns (r # rs) = (if is_end r then insert (rec_txn_id r) (finished_txns rs) else finished_txns rs)"
  by (auto simp: finished_txns_def)

lemma losers_Nil [simp]: "losers [] = []"
  by (simp add: losers_def)

lemma recovered_Nil [simp]: "recovered [] v = v"
  by (simp add: recovered_def)

lemma losers_snoc:
  "\<not> is_end r \<Longrightarrow> losers (rs @ [r]) =
     losers rs @ (if is_set r \<and> rec_txn_id r \<notin> finished_txns rs then [r] else [])"
  by (simp add: losers_def)

lemma recovered_control:
  "\<not> is_end r \<Longrightarrow> redo_write r = None \<Longrightarrow> \<not> is_set r \<Longrightarrow> recovered (rs @ [r]) v = recovered rs v"
  by (simp add: recovered_def losers_snoc redo_def write_bytes_def)

text \<open>A change whose old value was read from the current pages.\<close>

lemma recovered_set:
  assumes "is_set r" "rec_txn_id r \<notin> finished_txns rs"
    "write_bytes (undo_write r) (redo r (redo_all rs v)) = redo_all rs v"
  shows "recovered (rs @ [r]) v = recovered rs v"
proof -
  have "\<not> is_end r" using assms(1) by (auto simp: is_set_def is_end_def)
  then show ?thesis using assms by (simp add: recovered_def losers_snoc)
qed

text \<open>A compensation of a change that is going to be undone anyway.\<close>

lemma recovered_clr:
  assumes "\<not> is_end r" "\<not> is_set r" "s \<in> set (losers rs)"
    "\<And>f i. byte_of (redo_write r) f i \<noteq> None \<Longrightarrow> byte_of (undo_write s) f i \<noteq> None"
  shows "recovered (rs @ [r]) v = recovered rs v"
  using assms undo_all_absorbs [OF assms(3,4)]
  by (simp add: recovered_def losers_snoc redo_def)

end
