(* ===== verification/Wal.thy ===== *)
theory Wal
  imports Prelude Wal_Record Redo Buffer_Pool
begin

text \<open>
  \<open>wal.h\<close>, \<open>wal.cpp\<close>: the write-ahead log.  The state is the members of \<open>WAL\<close> with the bytes of
  the log file, and next to them what is known to be on stable storage (the content of the file at
  the last successful \<open>fsync\<close>) and the results the coming calls of \<open>fsync\<close> will have; when these run
  out, the calls succeed.  An operation that reads or writes pages works on the pair of the pool and
  the log, with \<open>flush_up_to\<close> as the pool's call back into the log.  The mutex makes the operations
  atomic; where the code waits on a condition variable, the model's operation is \<open>None\<close> until the
  condition holds.
\<close>

section \<open>State\<close>

record WAL =
  wal_fd :: "byte list"
  wal_disk :: "byte list"
  fsync_results :: "bool list"
  next_lsn :: nat
  next_txn_id :: nat
  log_pos :: nat
  records :: "InMemoryWALRecord list"
  unflushed_record_index :: nat
  transactions_since_last_checkpoint :: nat
  active_transactions :: int
  checkpoint_pending :: bool
  shutting_down :: bool

text \<open>A fresh object on a log file with the given content.\<close>

definition WAL_init :: "byte list \<Rightarrow> bool list \<Rightarrow> WAL" where
  "WAL_init content syncs = \<lparr>wal_fd = content, wal_disk = content, fsync_results = syncs,
     next_lsn = 0, next_txn_id = 0, log_pos = 0, records = [], unflushed_record_index = 0,
     transactions_since_last_checkpoint = 0, active_transactions = 0,
     checkpoint_pending = False, shutting_down = False\<rparr>"

section \<open>Flushing\<close>

text \<open>\<open>sync_log\<close>: three attempts.\<close>

fun sync_attempts :: "nat \<Rightarrow> WAL \<Rightarrow> WAL result" where
  "sync_attempts 0 w =
     Inl (DiskMapException ''WAL::sync: fsync failed three times. Data cannot be saved properly.'')"
| "sync_attempts (Suc n) w =
     (case fsync_results w of
        [] \<Rightarrow> Inr (w\<lparr>wal_disk := wal_fd w\<rparr>)
      | ok # results \<Rightarrow>
          let w = w\<lparr>fsync_results := results\<rparr> in
          if ok then Inr (w\<lparr>wal_disk := wal_fd w\<rparr>) else sync_attempts n w)"

definition sync_log :: "WAL \<Rightarrow> WAL result" where
  "sync_log w = sync_attempts 3 w"

definition pwrite_log :: "nat \<Rightarrow> byte list \<Rightarrow> byte list \<Rightarrow> byte list" where
  "pwrite_log pos bs file =
     take pos (file @ zeros (pos - length file)) @ bs @ drop (pos + length bs) file"

text \<open>\<open>flush\<close>: what it does before it calls \<open>sync_log\<close>.  The buffer has \<open>record_size\<close> bytes for
  each record; a record with more data would be copied past its end.\<close>

definition flush_write :: "WAL \<Rightarrow> WAL result" where
  "flush_write w =
     (let unflushed = drop (unflushed_record_index w) (records w);
          appended_bytes = sum_list (map (\<lambda>r. record_size (rec_body r)) unflushed);
          bytes = encode_all unflushed in
      if appended_bytes < length bytes then Inl MemoryError
      else Inr (w\<lparr>wal_fd := pwrite_log (log_pos w) (bytes @ zeros (appended_bytes - length bytes)) (wal_fd w),
                  log_pos := log_pos w + appended_bytes,
                  unflushed_record_index := length (records w)\<rparr>))"

definition wal_flush :: "WAL \<Rightarrow> WAL result" where
  "wal_flush w = bindR (flush_write w) sync_log"

definition flush_up_to :: "nat \<Rightarrow> WAL \<Rightarrow> WAL result" where
  "flush_up_to l w =
     (if unflushed_record_index w < length (records w) \<and>
         rec_lsn (records w ! unflushed_record_index w) \<le> l
      then wal_flush w else Inr w)"

section \<open>Records\<close>

text \<open>\<open>next_lsn++\<close> and \<open>next_txn_id++\<close> on 32 bits, a new record, \<open>records.push_back\<close>.\<close>

definition bump_lsn :: "WAL \<Rightarrow> WAL" where
  "bump_lsn w = w\<lparr>next_lsn := (next_lsn w + 1) mod 2 ^ 32\<rparr>"

definition bump_txn_id :: "WAL \<Rightarrow> WAL" where
  "bump_txn_id w = w\<lparr>next_txn_id := (next_txn_id w + 1) mod 2 ^ 32\<rparr>"

definition new_record :: "nat \<Rightarrow> nat \<Rightarrow> wal_body \<Rightarrow> byte list \<Rightarrow> InMemoryWALRecord" where
  "new_record l txn b d =
     with_checksum \<lparr>rec_checksum = 0, rec_lsn = l, rec_txn_id = txn, rec_body = b, rec_data = d\<rparr>"

definition push_record :: "InMemoryWALRecord \<Rightarrow> WAL \<Rightarrow> WAL" where
  "push_record r w = w\<lparr>records := records w @ [r]\<rparr>"

text \<open>The records without data: a new LSN, the record appended.\<close>

definition log_control :: "nat \<Rightarrow> wal_body \<Rightarrow> WAL \<Rightarrow> WAL" where
  "log_control txn b w = push_record (new_record (next_lsn w) txn b []) (bump_lsn w)"

text \<open>\<open>apply_record\<close>: copy the new value into the page, fill with zeros up to the length of the
  range (the number of zeros is computed in an unsigned 32-bit integer), note the LSN.\<close>

definition set_range :: "nat \<Rightarrow> nat \<Rightarrow> byte list \<Rightarrow> nat \<Rightarrow> BufferPool \<times> WAL \<Rightarrow> (BufferPool \<times> WAL) result" where
  "set_range loc len new l s =
     bindR (get_page (Some flush_up_to) (loc div PAGE_SIZE) False s) (\<lambda>(handle, p, w).
     bindR (handle_store handle (loc mod PAGE_SIZE) new p) (\<lambda>p.
     bindR (handle_store handle (loc mod PAGE_SIZE + length new)
        (zeros ((len + 2 ^ 32 - length new) mod 2 ^ 32)) p) (\<lambda>p.
     bindR (modified_by handle l p) (\<lambda>p.
     bindR (PageHandle_destroy handle p) (\<lambda>p. Inr (p, w))))))"

definition apply_record :: "InMemoryWALRecord \<Rightarrow> BufferPool \<times> WAL \<Rightarrow> (BufferPool \<times> WAL) result" where
  "apply_record r s =
     (case rec_body r of
        CLR c \<Rightarrow>
          if length (rec_data r) < clr_new_value_len c then Inl MemoryError
          else set_range (clr_loc c) (clr_length c) (take (clr_new_value_len c) (rec_data r)) (rec_lsn r) s
      | SET b \<Rightarrow>
          if length (rec_data r) < set_old_value_len b + set_new_value_len b then Inl MemoryError
          else set_range (set_loc b) (set_length b)
            (take (set_new_value_len b) (drop (set_old_value_len b) (rec_data r))) (rec_lsn r) s
      | _ \<Rightarrow> Inr s)"

section \<open>Transactions\<close>

text \<open>\<open>begin\<close> waits while a checkpoint is pending.  The id it returns is the LSN of the record, not
  the transaction id in it.\<close>

definition wal_begin :: "WAL \<Rightarrow> (nat \<times> WAL) option" where
  "wal_begin w =
     (if checkpoint_pending w then None
      else let w = w\<lparr>active_transactions := active_transactions w + 1\<rparr>;
               r = new_record (next_lsn w) (next_txn_id w) BEGIN [];
               w = push_record r (bump_txn_id (bump_lsn w))
        in Some (rec_lsn r, w))"

definition wal_commit :: "nat \<Rightarrow> WAL \<Rightarrow> WAL result" where
  "wal_commit txn w =
     bindR (wal_flush (log_control txn COMMIT w)) (\<lambda>w.
       Inr (w\<lparr>active_transactions := active_transactions w - 1\<rparr>))"

text \<open>\<open>abort\<close>: the loop that looks for the BEGIN record, the loop that collects the changes not yet
  undone, and the loop that undoes them, last one first.\<close>

fun find_begin :: "nat \<Rightarrow> InMemoryWALRecord list \<Rightarrow> nat option" where
  "find_begin txn [] = None"
| "find_begin txn (r # rs) =
     (if rec_txn_id r = txn \<and> rec_body r = BEGIN then Some 0 else map_option Suc (find_begin txn rs))"

fun collect_undo :: "nat \<Rightarrow> InMemoryWALRecord list \<Rightarrow> nat list \<Rightarrow> nat list \<Rightarrow> nat list result" where
  "collect_undo txn rs [] to_undo = Inr to_undo"
| "collect_undo txn rs (i # is) to_undo =
     (if rec_txn_id (rs ! i) = txn then
        (case rec_body (rs ! i) of
           SET _ \<Rightarrow> collect_undo txn rs is (to_undo @ [i])
         | CLR c \<Rightarrow>
             if to_undo = [] then Inl MemoryError
             else if clr_undo_lsn c = rec_lsn (rs ! last to_undo)
             then collect_undo txn rs is (butlast to_undo)
             else collect_undo txn rs is to_undo
         | _ \<Rightarrow> collect_undo txn rs is to_undo)
      else collect_undo txn rs is to_undo)"

fun write_clrs :: "nat list \<Rightarrow> BufferPool \<times> WAL \<Rightarrow> (BufferPool \<times> WAL) result" where
  "write_clrs [] s = Inr s"
| "write_clrs (i # is) (p, w) =
     bindR (create_compensation_record (records w ! i) (next_lsn w)) (\<lambda>clr.
     bindR (apply_record clr (p, push_record clr (bump_lsn w))) (\<lambda>s.
       write_clrs is s))"

definition wal_abort :: "nat \<Rightarrow> BufferPool \<times> WAL \<Rightarrow> (BufferPool \<times> WAL) result" where
  "wal_abort txn = (\<lambda>(p, w).
     let w = log_control txn ABORT_BEGIN w;
         start = (case find_begin txn (records w) of None \<Rightarrow> 0 | Some i \<Rightarrow> Suc i) in
     bindR (collect_undo txn (records w) [start..<length (records w)] []) (\<lambda>to_undo.
     bindR (write_clrs (rev to_undo) (p, w)) (\<lambda>(p, w).
       Inr (p, (log_control txn ABORT_END w)\<lparr>active_transactions := active_transactions w - 1\<rparr>))))"

definition wal_set :: "nat \<Rightarrow> nat \<Rightarrow> byte list \<Rightarrow> nat \<Rightarrow> BufferPool \<times> WAL \<Rightarrow> (BufferPool \<times> WAL) result" where
  "wal_set txn loc data write_length = (\<lambda>(p, w).
     let l = next_lsn w; w = bump_lsn w in
     bindR (get_page (Some flush_up_to) (loc div PAGE_SIZE) False (p, w)) (\<lambda>(handle, p, w).
     bindR (handle_data handle p) (\<lambda>pg.
     if PAGE_SIZE < loc mod PAGE_SIZE + write_length then Inl MemoryError
     else let old_value = bytes_at pg (loc mod PAGE_SIZE) write_length;
              from_length = get_unpadded_length write_length old_value;
              r = new_record l txn
                (SET \<lparr>set_loc = loc, set_length = write_length mod 2 ^ 16,
                      set_old_value_len = from_length mod 2 ^ 16,
                      set_new_value_len = length data mod 2 ^ 16\<rparr>)
                (take from_length old_value @ data)
       in bindR (apply_record r (p, w)) (\<lambda>(p, w).
          let w = push_record r w in
          bindR (PageHandle_destroy handle p) (\<lambda>p. Inr (p, w))))))"

section \<open>Checkpoints\<close>

text \<open>\<open>checkpoint_internal\<close>: it announces itself, waits for all transactions to end, and then
  writes all pages and empties the log file.\<close>

definition checkpoint_start :: "WAL \<Rightarrow> WAL" where
  "checkpoint_start w = w\<lparr>checkpoint_pending := True\<rparr>"

definition checkpoint_finish :: "BufferPool \<times> WAL \<Rightarrow> (BufferPool \<times> WAL) result option" where
  "checkpoint_finish = (\<lambda>(p, w).
     if active_transactions w > 0 then None
     else Some (
       let p = flush_all p in
       bindR (sync_log (w\<lparr>wal_fd := [], log_pos := 0\<rparr>)) (\<lambda>w.
         Inr (p, w\<lparr>checkpoint_pending := False\<rparr>))))"

definition checkpoint_internal :: "BufferPool \<times> WAL \<Rightarrow> (BufferPool \<times> WAL) result option" where
  "checkpoint_internal = (\<lambda>(p, w). checkpoint_finish (p, checkpoint_start w))"

text \<open>A round of \<open>checkpoint_periodically\<close>, whether the thread goes on, and whether it wakes up.\<close>

definition checkpoint_due :: "WAL \<Rightarrow> bool" where
  "checkpoint_due w \<longleftrightarrow> \<not> (transactions_since_last_checkpoint w < 5 \<and> \<not> shutting_down w)"

definition checkpoint_round :: "BufferPool \<times> WAL \<Rightarrow> ((BufferPool \<times> WAL) \<times> bool) result option" where
  "checkpoint_round s =
     (if \<not> checkpoint_due (snd s) then None
      else map_option (\<lambda>r. bindR r (\<lambda>(p, w).
        if shutting_down w then Inr ((p, w), False)
        else Inr ((p, w\<lparr>transactions_since_last_checkpoint := 0\<rparr>), True))) (checkpoint_internal s))"

section \<open>Flushing makes records durable\<close>

definition unflushed :: "WAL \<Rightarrow> InMemoryWALRecord list" where
  "unflushed w = drop (unflushed_record_index w) (records w)"

text \<open>What a flush leaves alone.\<close>

definition log_same :: "WAL \<Rightarrow> WAL \<Rightarrow> bool" where
  "log_same w w' \<longleftrightarrow> records w' = records w \<and> next_lsn w' = next_lsn w \<and> next_txn_id w' = next_txn_id w \<and>
     active_transactions w' = active_transactions w \<and> checkpoint_pending w' = checkpoint_pending w \<and>
     shutting_down w' = shutting_down w \<and>
     transactions_since_last_checkpoint w' = transactions_since_last_checkpoint w"

text \<open>
  Between two operations the log file has been synced, the records still to be flushed fit their
  layout, and the first of them is the oldest one, which is what \<open>flush_up_to\<close> relies on.
\<close>

definition wal_ok :: "WAL \<Rightarrow> bool" where
  "wal_ok w \<longleftrightarrow> wal_disk w = wal_fd w \<and> unflushed_record_index w \<le> length (records w) \<and>
     log_pos w \<le> length (wal_fd w) \<and> (\<forall>r\<in>set (records w). good_record r) \<and>
     (\<forall>r\<in>set (unflushed w). rec_lsn (hd (unflushed w)) \<le> rec_lsn r)"

text \<open>The log file up to \<open>log_pos\<close>.\<close>

definition log_holds :: "WAL \<Rightarrow> InMemoryWALRecord list \<Rightarrow> bool" where
  "log_holds w rs \<longleftrightarrow> take (log_pos w) (wal_fd w) = encode_all rs"

definition flushed :: "WAL \<Rightarrow> WAL \<Rightarrow> bool" where
  "flushed w w' \<longleftrightarrow> log_same w w' \<and> wal_ok w' \<and> unflushed w' = [] \<and>
     (\<forall>rs. log_holds w rs \<longrightarrow> log_holds w' (rs @ unflushed w)) \<and>
     (length (wal_fd w) = log_pos w \<longrightarrow> length (wal_fd w') = log_pos w') \<and>
     (fsync_results w = [] \<longrightarrow> fsync_results w' = [])"

lemma length_pwrite_log: "pos \<le> length c \<Longrightarrow>
    length (pwrite_log pos bs c) = max (length c) (pos + length bs)"
  by (simp add: pwrite_log_def max_def)

lemma take_pwrite_log: "pos \<le> length c \<Longrightarrow>
    take (pos + length bs) (pwrite_log pos bs c) = take pos c @ bs"
  by (simp add: pwrite_log_def)

lemma encode_all_size:
  "\<forall>r\<in>set rs. good_record r \<Longrightarrow> length (encode_all rs) = sum_list (map (\<lambda>r. record_size (rec_body r)) rs)"
  by (induction rs) (simp_all add: good_record_def valid_record_def length_encode)

lemma flush_write_ok:
  assumes "\<forall>r\<in>set (unflushed w). good_record r"
  shows "flush_write w = Inr (w\<lparr>wal_fd := pwrite_log (log_pos w) (encode_all (unflushed w)) (wal_fd w),
    log_pos := log_pos w + length (encode_all (unflushed w)),
    unflushed_record_index := length (records w)\<rparr>)"
  using encode_all_size [OF assms] by (simp add: flush_write_def unflushed_def Let_def)

lemma sync_attempts_Inr:
  "sync_attempts n w = Inr w' \<Longrightarrow> \<exists>results. w' = w\<lparr>fsync_results := results, wal_disk := wal_fd w\<rparr> \<and>
     (fsync_results w = [] \<longrightarrow> results = [])"
proof (induction n arbitrary: w)
  case (Suc n)
  show ?case
  proof (cases "fsync_results w")
    case Nil
    then show ?thesis using Suc.prems by (intro exI [of _ "[]"]) auto
  next
    case (Cons ok results)
    show ?thesis
    proof (cases ok)
      case True
      then show ?thesis using Cons Suc.prems by (intro exI [of _ results]) auto
    next
      case False
      then have "sync_attempts n (w\<lparr>fsync_results := results\<rparr>) = Inr w'" using Cons Suc.prems by simp
      then show ?thesis using Suc.IH Cons by fastforce
    qed
  qed
qed simp

lemma sync_log_Inr: "sync_log w = Inr w' \<Longrightarrow>
    \<exists>results. w' = w\<lparr>fsync_results := results, wal_disk := wal_fd w\<rparr> \<and> (fsync_results w = [] \<longrightarrow> results = [])"
  unfolding sync_log_def by (rule sync_attempts_Inr)

lemma sync_log_returns: "fsync_results w = [] \<Longrightarrow> sync_log w = Inr (w\<lparr>wal_disk := wal_fd w\<rparr>)"
  by (simp add: sync_log_def numeral_3_eq_3)

lemma wal_okD:
  assumes "wal_ok w"
  shows "wal_disk w = wal_fd w" "unflushed_record_index w \<le> length (records w)"
    "log_pos w \<le> length (wal_fd w)" "r \<in> set (records w) \<Longrightarrow> good_record r"
    "r \<in> set (unflushed w) \<Longrightarrow> good_record r"
    "r \<in> set (unflushed w) \<Longrightarrow> rec_lsn (hd (unflushed w)) \<le> rec_lsn r"
  using assms set_drop_subset [of "unflushed_record_index w" "records w"]
  by (auto simp: wal_ok_def unflushed_def)

lemma wal_flush_flushed:
  assumes ok: "wal_ok w" and f: "wal_flush w = Inr w'"
  shows "flushed w w'"
proof -
  note d = wal_okD [OF ok]
  define w1 where "w1 = w\<lparr>wal_fd := pwrite_log (log_pos w) (encode_all (unflushed w)) (wal_fd w),
    log_pos := log_pos w + length (encode_all (unflushed w)),
    unflushed_record_index := length (records w)\<rparr>"
  have "flush_write w = Inr w1" unfolding w1_def using d(5) by (intro flush_write_ok) blast
  then obtain results where w': "w' = w1\<lparr>fsync_results := results, wal_disk := wal_fd w1\<rparr>"
    "fsync_results w1 = [] \<longrightarrow> results = []"
    using f sync_log_Inr by (force simp: wal_flush_def)
  have u: "unflushed w' = []" by (simp add: unflushed_def w'(1) w1_def)
  have pos: "log_pos w' \<le> length (wal_fd w')"
    using d(3) by (simp add: w'(1) w1_def length_pwrite_log)
  have "wal_ok w'"
    unfolding wal_ok_def u using pos d(4) by (simp add: w'(1) w1_def)
  moreover have "log_holds w' (rs @ unflushed w)" if "log_holds w rs" for rs
    using that d(3) by (simp add: log_holds_def w'(1) w1_def take_pwrite_log)
  moreover have "length (wal_fd w') = log_pos w'" if "length (wal_fd w) = log_pos w"
    using that by (simp add: w'(1) w1_def length_pwrite_log)
  ultimately show ?thesis using u w'(2) by (simp add: flushed_def log_same_def w'(1) w1_def)
qed

lemma wal_flush_returns:
  assumes "wal_ok w" "fsync_results w = []"
  obtains w' where "wal_flush w = Inr w'"
proof -
  have "\<forall>r\<in>set (unflushed w). good_record r" using wal_okD(5) [OF assms(1)] by blast
  from flush_write_ok [OF this] show thesis using assms(2) that
    by (simp add: wal_flush_def sync_log_returns)
qed

text \<open>\<open>flush_up_to\<close>: either it flushes everything, or every record still to be flushed is younger
  than the LSN.\<close>

definition durable_up_to :: "WAL \<Rightarrow> nat \<Rightarrow> bool" where
  "durable_up_to w l \<longleftrightarrow> wal_disk w = wal_fd w \<and> (\<forall>r\<in>set (unflushed w). l < rec_lsn r)"

lemma flush_up_to_cases:
  assumes ok: "wal_ok w" and f: "flush_up_to l w = Inr w'"
  obtains (flush) "flushed w w'" | (young) "w' = w" "\<forall>r\<in>set (unflushed w). l < rec_lsn r"
proof (cases "unflushed_record_index w < length (records w) \<and>
    rec_lsn (records w ! unflushed_record_index w) \<le> l")
  case True
  then show thesis using f wal_flush_flushed [OF ok] flush by (simp add: flush_up_to_def)
next
  case False
  then have w': "w' = w" using f by (auto simp: flush_up_to_def)
  have "l < rec_lsn r" if r: "r \<in> set (unflushed w)" for r
  proof -
    have lt: "unflushed_record_index w < length (records w)"
      using r by (cases "unflushed_record_index w < length (records w)") (simp_all add: unflushed_def)
    then have "hd (unflushed w) = records w ! unflushed_record_index w"
      by (simp add: unflushed_def hd_drop_conv_nth)
    then show ?thesis using False lt wal_okD(6) [OF ok r] by simp
  qed
  with w' young show thesis by blast
qed

interpretation wal_log: write_ahead_log flush_up_to durable_up_to wal_ok
proof unfold_locales
  fix w w' and lsn l :: nat
  assume ok: "wal_ok w" and f: "flush_up_to lsn w = Inr w'"
  show "durable_up_to w' lsn"
    by (rule flush_up_to_cases [OF ok f]) (auto simp: durable_up_to_def flushed_def wal_okD(1) ok)
  show "durable_up_to w l \<Longrightarrow> durable_up_to w' l" using ok f
    by (rule flush_up_to_cases) (auto simp: durable_up_to_def flushed_def dest: wal_okD(1))
  show "wal_ok w'" by (rule flush_up_to_cases [OF ok f]) (auto simp: flushed_def ok)
qed

lemma log_same_refl [simp]: "log_same w w"
  by (simp add: log_same_def)

lemma flush_up_to_returns:
  assumes "wal_ok w" "fsync_results w = []"
  obtains w' where "flush_up_to l w = Inr w'"
proof -
  obtain w1 where "wal_flush w = Inr w1" using wal_flush_returns [OF assms] .
  then have "\<exists>w'. flush_up_to l w = Inr w'" by (simp add: flush_up_to_def)
  then show thesis using that by blast
qed

section \<open>Changing a range of a page\<close>

text \<open>What pinning a page does to pool and log, beyond the pin: nothing, or one page goes to the
  file, the log before it.\<close>

definition pool_step :: "BufferPool \<Rightarrow> WAL \<Rightarrow> BufferPool \<Rightarrow> WAL \<Rightarrow> bool" where
  "pool_step p w p' w' \<longleftrightarrow> pool_inv p' \<and> view p' = view p \<and> pool_size p' = pool_size p \<and>
     (w' = w \<and> fd p' = fd p \<and> pending p' = pending p \<or>
      (\<exists>g l. pending p g = Some l \<and> flush_up_to l w = Inr w' \<and>
         fd p' = pwrite_page g (view p g) (fd p) \<and> pending p' = (pending p)(g := None)))"

text \<open>What changing a page does beyond the change of the view.\<close>

definition marks_page :: "nat \<Rightarrow> nat \<Rightarrow> BufferPool \<Rightarrow> BufferPool \<Rightarrow> bool" where
  "marks_page f l p p' \<longleftrightarrow> fd p' = fd p \<and> pool_size p' = pool_size p \<and>
     (\<exists>k\<ge>l. pending p' = (pending p)(f \<mapsto> k) \<and> (\<forall>j. pending p f = Some j \<longrightarrow> j \<le> k))"

lemma retain_pool_step:
  assumes inv: "pool_inv p" and ret: "retain (Some flush_up_to) f advise (p, w) = Inr (i, p', w')"
  shows "pool_step p w p' w'"
proof -
  have r: "pool_inv p'" "view p' = view p" "pool_size p' = pool_size p"
    using retainedD retain_retained [OF inv ret] by blast+
  show ?thesis
    by (rule retain_pending [OF inv ret]) (use r in \<open>auto simp: pool_step_def log_flushed_def\<close>)
qed

lemma pool_step_log:
  assumes "pool_step p w p' w'" "wal_ok w"
  shows "w' = w \<or> flushed w w'" "wal_ok w'" "log_same w w'" "fsync_results w = [] \<Longrightarrow> fsync_results w' = []"
proof -
  show 1: "w' = w \<or> flushed w w'"
    using assms flush_up_to_cases [OF assms(2)] unfolding pool_step_def by metis
  then show "wal_ok w'" "log_same w w'" "fsync_results w = [] \<Longrightarrow> fsync_results w' = []"
    using assms(2) by (auto simp: flushed_def)
qed

definition has_room :: "BufferPool \<Rightarrow> nat \<Rightarrow> bool" where
  "has_room p f \<longleftrightarrow> file_to_pool_index p f \<noteq> None \<or> 0 \<in> set (refcounts p)"

lemma retain_log_returns:
  assumes "pool_inv p" "wal_ok w" "fsync_results w = []" "has_room p f"
  obtains i p' w' where "retain (Some flush_up_to) f advise (p, w) = Inr (i, p', w')"
proof (rule retain_returns [OF assms(1), of f "Some flush_up_to" w advise])
  show "\<exists>w'. log_flushed (Some flush_up_to) l w = Inr w'" for l
    using flush_up_to_returns [OF assms(2,3), of l] by (auto simp: log_flushed_def)
qed (use assms(4) that in \<open>auto simp: has_room_def\<close>)

lemma set_range_retained:
  assumes inv: "pool_inv p" and ret: "retain (Some flush_up_to) f False (p, w) = Inr (i, p1, w1)"
    and f: "f = loc div PAGE_SIZE" and fits: "loc mod PAGE_SIZE + len \<le> PAGE_SIZE" "length new \<le> len"
  obtains p' where "set_range loc len new l (p, w) = Inr (p', w1)" "pool_inv p'"
    "view p' = (view p)(f := blit (view p f) (loc mod PAGE_SIZE) (pad len new))"
    "marks_page f l p1 p'" "refcounts p' = refcounts p"
proof -
  have r: "retained f False p i p1" using retain_retained [OF inv ret] by blast
  note d = retainedD [OF r]
  have il: "i < length (pages p1)" "i < length (metadata p1)" using d(6) pool_invD(1,2) [OF d(1)] by simp_all
  have zs: "(len + 2 ^ 32 - length new) mod 2 ^ 32 = len - length new"
  proof -
    have "len + 2 ^ 32 - length new = (len - length new) + 2 ^ 32" using fits(2) by simp
    moreover have "len - length new < 2 ^ 32" using fits(1) by simp
    ultimately show ?thesis by (simp only: mod_add_self2) simp
  qed
  define off where "off = loc mod PAGE_SIZE"
  define pg where "pg = blit (view p f) off (pad len new)"
  have pg: "blit (blit (pages p1 ! i) off new) (off + length new) (zeros (len - length new)) = pg"
    by (simp only: d(8) pg_def pad_def blit_blit_append)
  define p2 where "p2 = p1\<lparr>pages := (pages p1)[i := blit (pages p1 ! i) off new]\<rparr>"
  define p3 where "p3 = p1\<lparr>pages := (pages p1)[i := pg]\<rparr>"
  define p4 where "p4 = p1\<lparr>pages := (pages p1)[i := pg], metadata := (metadata p1)[i :=
      (metadata p1 ! i)\<lparr>dirty := True, page_lsn := max l (page_lsn (metadata p1 ! i))\<rparr>]\<rparr>"
  have 2: "handle_store \<lparr>pool_index = int i\<rparr> off new p1 = Inr p2"
    using il fits by (simp add: handle_store_def p2_def off_def Let_def)
  have 3: "handle_store \<lparr>pool_index = int i\<rparr> (off + length new) (zeros (len - length new)) p2 = Inr p3"
    using il fits pg by (simp add: handle_store_def p2_def p3_def off_def Let_def)
  have 4: "modified_by \<lparr>pool_index = int i\<rparr> l p3 = Inr p4"
    using il by (simp add: modified_by_def p3_def p4_def Let_def)
  note inv4 = pool_inv_modify [OF d(1,3) p4_def]
  have i4: "i < next_pool_index p4" "0 < refcount (metadata p4 ! i)"
    using d(5) il retained_pinned [OF inv r] by (simp_all add: p4_def)
  obtain p' where p': "release i p4 = Inr p'" "pool_inv p'" "view p' = view p4" "fd p' = fd p4"
    "pool_size p' = pool_size p4"
    using release_ok [OF inv4(1) i4] by metis
  have "set_range loc len new l (p, w) = Inr (p', w1)"
    unfolding set_range_def get_page_def PageHandle_destroy_def f [symmetric] off_def [symmetric] ret zs
    using 2 3 4 p'(1) by simp
  moreover have "view p' = (view p)(f := pg)" using p'(3) inv4(2) d(2) by simp
  moreover have "marks_page f l p1 p'"
  proof -
    obtain k where k: "pending p4 = (pending p1)(f \<mapsto> k)" "l \<le> k" "\<And>j. pending p1 f = Some j \<Longrightarrow> j \<le> k"
      using modify_pending [OF d(1,3) p4_def] by metis
    moreover have "pending p' = pending p4" using release_pending [OF inv4(1) i4 p'(1)] .
    ultimately show ?thesis using p'(4,5) by (auto simp: marks_page_def p4_def)
  qed
  moreover have "refcounts p' = refcounts p"
  proof -
    have "refcounts p4 = refcounts p1" using il by (simp add: refcounts_def p4_def map_update list_update_same_conv)
    moreover have "refcounts p1 = (refcounts p)[i := refcounts p ! i + 1]" by (rule retain_refcounts [OF inv ret])
    moreover have "i < length (refcounts p)"
      using il(2) arg_cong [OF calculation(2), of length] by (simp add: refcounts_def)
    ultimately show ?thesis using release_refcounts [OF inv4(1) i4 p'(1)] by simp
  qed
  ultimately show thesis using p'(2) by (intro that [of p']) (simp_all add: pg_def off_def)
qed

text \<open>The effect of \<open>apply_record\<close>: the pages change as \<open>redo\<close> says.\<close>

definition applied :: "InMemoryWALRecord \<Rightarrow> BufferPool \<Rightarrow> WAL \<Rightarrow> BufferPool \<Rightarrow> WAL \<Rightarrow> bool" where
  "applied r p w p' w' \<longleftrightarrow> pool_inv p' \<and> view p' = redo r (view p) \<and> refcounts p' = refcounts p \<and>
     (case redo_write r of
        None \<Rightarrow> p' = p \<and> w' = w
      | Some (f, off, bs) \<Rightarrow> \<exists>p1. pool_step p w p1 w' \<and> marks_page f (rec_lsn r) p1 p')"

lemma apply_record_range:
  assumes good: "good_record r" and w: "redo_write r = Some (f, off, bs)"
  obtains loc len new where "apply_record r s = set_range loc len new (rec_lsn r) s"
    "f = loc div PAGE_SIZE" "off = loc mod PAGE_SIZE" "bs = pad len new"
    "loc mod PAGE_SIZE + len \<le> PAGE_SIZE" "length new \<le> len"
proof (cases "rec_body r")
  case (SET b)
  have "length (rec_data r) = set_old_value_len b + set_new_value_len b" "body_fits (SET b)"
    using good SET by (simp_all add: good_record_def valid_record_def wf_record_def)
  then show thesis
    using w SET by (intro that [of "set_loc b" "set_length b"
        "take (set_new_value_len b) (drop (set_old_value_len b) (rec_data r))"])
      (auto simp: apply_record_def redo_write.simps)
next
  case (CLR c)
  have "length (rec_data r) = clr_new_value_len c" "body_fits (CLR c)"
    using good CLR by (simp_all add: good_record_def valid_record_def wf_record_def)
  then show thesis
    using w CLR by (intro that [of "clr_loc c" "clr_length c" "take (clr_new_value_len c) (rec_data r)"])
      (auto simp: apply_record_def redo_write.simps)
qed (use w in \<open>simp_all add: redo_write.simps\<close>)

lemma apply_record_none: "redo_write r = None \<Longrightarrow> apply_record r s = Inr s"
  by (cases "rec_body r") (auto simp: redo_write.simps apply_record_def)

lemma apply_record_applied:
  assumes inv: "pool_inv p" and good: "good_record r" and a: "apply_record r (p, w) = Inr (p', w')"
  shows "applied r p w p' w'"
proof (cases "redo_write r")
  case None
  then show ?thesis
    using a inv apply_record_none [OF None] by (simp add: applied_def redo_def write_bytes_def)
next
  case (Some x)
  then obtain f off bs where x: "redo_write r = Some (f, off, bs)" by (cases x) auto
  obtain loc len new where s: "apply_record r (p, w) = set_range loc len new (rec_lsn r) (p, w)"
    "f = loc div PAGE_SIZE" "off = loc mod PAGE_SIZE" "bs = pad len new"
    "loc mod PAGE_SIZE + len \<le> PAGE_SIZE" "length new \<le> len"
    using apply_record_range [OF good x] by metis
  obtain i p1 w1 where ret: "retain (Some flush_up_to) f False (p, w) = Inr (i, p1, w1)"
    using a unfolding s(1) by (auto simp: set_range_def get_page_def bindR_Inr s(2))
  obtain p2 where p2: "set_range loc len new (rec_lsn r) (p, w) = Inr (p2, w1)" "pool_inv p2"
    "view p2 = (view p)(f := blit (view p f) (loc mod PAGE_SIZE) (pad len new))"
    "marks_page f (rec_lsn r) p1 p2" "refcounts p2 = refcounts p"
    using set_range_retained [OF inv ret s(2,5,6)] by metis
  then have "p2 = p'" "w1 = w'" using a s(1) by simp_all
  then show ?thesis
    using p2 s(3,4) x retain_pool_step [OF inv ret] by (auto simp: applied_def redo_def write_bytes_def)
qed

lemma apply_record_returns:
  assumes inv: "pool_inv p" and good: "good_record r" and ok: "wal_ok w" "fsync_results w = []"
    and room: "\<And>f. page_of r = Some f \<Longrightarrow> has_room p f"
  obtains p' w' where "apply_record r (p, w) = Inr (p', w')"
proof (cases "redo_write r")
  case None
  then show thesis using that apply_record_none [OF None] by simp
next
  case (Some x)
  then obtain f off bs where x: "redo_write r = Some (f, off, bs)" by (cases x) auto
  obtain loc len new where s: "apply_record r (p, w) = set_range loc len new (rec_lsn r) (p, w)"
    "f = loc div PAGE_SIZE" "loc mod PAGE_SIZE + len \<le> PAGE_SIZE" "length new \<le> len"
    using apply_record_range [OF good x] by metis
  have "has_room p f" using room x by (simp add: page_of_def)
  then obtain i p1 w1 where ret: "retain (Some flush_up_to) f False (p, w) = Inr (i, p1, w1)"
    using retain_log_returns [OF inv ok] by metis
  show thesis using set_range_retained [OF inv ret s(2,3,4)] that s(1) by metis
qed

end
