(* ===== verification/Durability.thy ===== *)
theory Durability
  imports Prelude Wal_Record Redo Buffer_Pool Wal
begin

text \<open>
  How the pool, the data file and the log hang together: at every moment the log file and the data
  file contain enough to rebuild the committed state.  \<open>db_inv\<close> is the relation between the four
  states involved, kept by every pin of a page, every new record and every change of a page; the
  lemmas that follow show this for each operation of the log.
\<close>

section \<open>The relation between pool, data file and log\<close>

text \<open>
  \<open>L\<close> are the records in the log file and \<open>L @ unflushed w\<close> the records since the log was last
  emptied, when all pages were as in \<open>base\<close>.  The first \<open>stale\<close> of them belong to transactions
  that were over then (records not flushed when the log was emptied); the first \<open>n\<close> have been
  applied to the pages.  Every page of the data file is at some point of the history that the log
  file covers, and a page changed by a record that is not in the log file has a pending change with
  an LSN that will flush it.
\<close>

definition db_inv :: "BufferPool \<Rightarrow> WAL \<Rightarrow> (nat \<Rightarrow> page) \<Rightarrow> InMemoryWALRecord list \<Rightarrow> nat \<Rightarrow> nat \<Rightarrow> bool" where
  "db_inv p w base L stale n \<longleftrightarrow> pool_inv p \<and> wal_ok w \<and> log_holds w L \<and> length (wal_fd w) = log_pos w \<and>
     n \<le> length (L @ unflushed w) \<and> stale \<le> n \<and> view p = redo_all (take n (L @ unflushed w)) base \<and>
     (\<forall>f. \<exists>m\<le>n. m \<le> length L \<and> file_page (fd p) f = redo_all (take m (L @ unflushed w)) base f) \<and>
     (\<forall>i<n. length L \<le> i \<longrightarrow> stale \<le> i \<longrightarrow> (\<forall>f. page_of ((L @ unflushed w) ! i) = Some f \<longrightarrow>
        (\<exists>k. pending p f = Some k \<and> rec_lsn ((L @ unflushed w) ! i) \<le> k))) \<and>
     (length L < stale \<longrightarrow> L = [] \<and> (\<forall>g k. pending p g = Some k \<longrightarrow> rec_lsn (hd (unflushed w)) \<le> k))"

lemma db_invD:
  assumes "db_inv p w base L stale n"
  shows "pool_inv p" "wal_ok w" "log_holds w L" "length (wal_fd w) = log_pos w"
    "n \<le> length (L @ unflushed w)" "stale \<le> n" "view p = redo_all (take n (L @ unflushed w)) base"
    "\<exists>m\<le>n. m \<le> length L \<and> file_page (fd p) f = redo_all (take m (L @ unflushed w)) base f"
    "i < n \<Longrightarrow> length L \<le> i \<Longrightarrow> stale \<le> i \<Longrightarrow> page_of ((L @ unflushed w) ! i) = Some f \<Longrightarrow>
       \<exists>k. pending p f = Some k \<and> rec_lsn ((L @ unflushed w) ! i) \<le> k"
    "length L < stale \<Longrightarrow> L = []"
    "length L < stale \<Longrightarrow> pending p g = Some k \<Longrightarrow> rec_lsn (hd (unflushed w)) \<le> k"
  using assms unfolding db_inv_def by blast+

lemma take_Suc_redo: "n < length rs \<Longrightarrow> redo_all (take (Suc n) rs) v = redo (rs ! n) (redo_all (take n rs) v)"
  by (simp add: take_Suc_conv_app_nth)

lemma redo_all_untouched:
  assumes "m \<le> n" "\<And>i. m \<le> i \<Longrightarrow> i < n \<Longrightarrow> i < length rs \<Longrightarrow> page_of (rs ! i) \<noteq> Some f"
  shows "redo_all (take n rs) v f = redo_all (take m rs) v f"
proof -
  have "take n rs = take m rs @ take (n - m) (drop m rs)" using assms(1) by (simp flip: take_add)
  moreover have "\<forall>r\<in>set (take (n - m) (drop m rs)). page_of r \<noteq> Some f"
  proof
    fix r assume "r \<in> set (take (n - m) (drop m rs))"
    then obtain j where j: "j < n - m" "m + j < length rs" "r = rs ! (m + j)" by (auto simp: in_set_conv_nth)
    then show "page_of r \<noteq> Some f" using assms(2) [of "m + j"] by simp
  qed
  ultimately show ?thesis using redo_all_other_page by simp
qed

text \<open>Pinning a page.\<close>

lemma db_inv_pool_step:
  assumes inv: "db_inv p w base L stale n" and step: "pool_step p w p' w'"
  obtains "db_inv p' w' base L stale n" "unflushed w' = unflushed w" "w' = w"
    | "db_inv p' w' base (L @ unflushed w) stale n" "unflushed w' = []" "flushed w w'"
proof -
  note d = db_invD [OF inv]
  have p': "pool_inv p'" "view p' = view p" using step by (auto simp: pool_step_def)
  consider (same) "w' = w" "fd p' = fd p" "pending p' = pending p"
    | (written) g l where "pending p g = Some l" "flush_up_to l w = Inr w'"
      "fd p' = pwrite_page g (view p g) (fd p)" "pending p' = (pending p)(g := None)"
    using step unfolding pool_step_def by blast
  then show thesis
  proof cases
    case same
    then have "db_inv p' w' base L stale n" using inv p' unfolding db_inv_def by simp
    then show thesis using that(1) same by simp
  next
    case written
    have fp: "file_page (fd p') f = (if f = g then view p g else file_page (fd p) f)" for f
      by (simp add: written(3) pwrite_page_def)
    show thesis
    proof (rule flush_up_to_cases [OF d(2) written(2)])
      assume fl: "flushed w w'"
      have u: "unflushed w' = []" using fl by (simp add: flushed_def)
      have "\<exists>m\<le>n. m \<le> length (L @ unflushed w) \<and>
          file_page (fd p') f = redo_all (take m (L @ unflushed w)) base f" for f
        using d(5,7) d(8) [of f] fp [of f] by (cases "f = g") (auto intro: le_trans)
      then have "db_inv p' w' base (L @ unflushed w) stale n"
        using fl u p' d(3-7) by (auto simp: db_inv_def flushed_def)
      then show thesis using that(2) u fl by blast
    next
      assume w': "w' = w" and young: "\<forall>r\<in>set (unflushed w). l < rec_lsn r"
      have st: "stale \<le> length L"
      proof (rule ccontr)
        assume "\<not> stale \<le> length L"
        then have s: "length L < stale" by simp
        then have "unflushed w \<noteq> []" using d(5,6,10) by auto
        then have "l < rec_lsn (hd (unflushed w))" using young by simp
        then show False using d(11) [OF s written(1)] by simp
      qed
      have un: "page_of ((L @ unflushed w) ! i) \<noteq> Some g"
        if i: "length L \<le> i" "i < n" "i < length (L @ unflushed w)" for i
      proof
        assume "page_of ((L @ unflushed w) ! i) = Some g"
        then have "rec_lsn ((L @ unflushed w) ! i) \<le> l" using d(9) [of i g] i st written(1) by auto
        moreover have "(L @ unflushed w) ! i \<in> set (unflushed w)" using i by (simp add: nth_append)
        ultimately show False using young by fastforce
      qed
      have "view p g = redo_all (take (min n (length L)) (L @ unflushed w)) base g"
      proof (cases "n \<le> length L")
        case True
        then show ?thesis using d(7) by (simp add: min_absorb1)
      next
        case False
        then show ?thesis
          using redo_all_untouched [of "length L" n "L @ unflushed w" g base] un d(7) by (simp add: min_absorb2)
      qed
      then have "\<exists>m\<le>n. m \<le> length L \<and> file_page (fd p') f = redo_all (take m (L @ unflushed w)) base f" for f
        using d(8) [of f] fp [of f] by (cases "f = g") (auto intro: exI [of _ "min n (length L)"])
      moreover have "\<exists>k. pending p' f = Some k \<and> rec_lsn ((L @ unflushed w) ! i) \<le> k"
        if "i < n" "length L \<le> i" "page_of ((L @ unflushed w) ! i) = Some f" for i f
        using that un [of i] d(9) [of i f] st written(4) d(5) by (cases "f = g") auto
      ultimately have "db_inv p' w' base L stale n"
        using p' d st unfolding w' db_inv_def by auto
      then show thesis using that(1) w' by blast
    qed
  qed
qed

text \<open>A new record in memory.\<close>

lemma unflushed_push [simp]:
  "unflushed_record_index w \<le> length (records w) \<Longrightarrow> unflushed (push_record r w) = unflushed w @ [r]"
  by (simp add: unflushed_def push_record_def)

lemma unflushed_bump [simp]: "unflushed (bump_lsn w) = unflushed w" "unflushed (bump_txn_id w) = unflushed w"
  by (simp_all add: unflushed_def bump_lsn_def bump_txn_id_def)

lemma wal_ok_update:
  assumes "wal_ok w" "records w' = records w" "wal_disk w' = wal_disk w" "wal_fd w' = wal_fd w"
    "log_pos w' = log_pos w" "unflushed_record_index w' = unflushed_record_index w"
  shows "wal_ok w'"
  using assms by (simp add: wal_ok_def unflushed_def)

lemma wal_ok_push:
  assumes ok: "wal_ok w" and r: "good_record r" "\<forall>x\<in>set (unflushed w). rec_lsn x \<le> rec_lsn r"
  shows "wal_ok (push_record r w)"
proof -
  note d = wal_okD [OF ok]
  have u: "unflushed (push_record r w) = unflushed w @ [r]" using d(2) by simp
  have "rec_lsn (hd (unflushed w @ [r])) \<le> rec_lsn x" if "x \<in> set (unflushed w @ [r])" for x
    using that r(2) d(6) by (cases "unflushed w") auto
  then show ?thesis using ok r(1) unfolding wal_ok_def u by (simp add: push_record_def)
qed

lemma db_inv_update:
  assumes "db_inv p w base L stale n" "records w' = records w" "wal_disk w' = wal_disk w"
    "wal_fd w' = wal_fd w" "log_pos w' = log_pos w" "unflushed_record_index w' = unflushed_record_index w"
  shows "db_inv p w' base L stale n"
proof -
  have "unflushed w' = unflushed w" using assms by (simp add: unflushed_def)
  moreover have "wal_ok w'" using wal_ok_update [OF db_invD(2) [OF assms(1)]] assms(2-) by blast
  moreover have "log_holds w' L" using db_invD(3) [OF assms(1)] assms by (simp add: log_holds_def)
  ultimately show ?thesis using assms unfolding db_inv_def by simp
qed

lemma db_inv_push:
  assumes inv: "db_inv p w base L stale n" and r: "good_record r" "\<forall>x\<in>set (unflushed w). rec_lsn x \<le> rec_lsn r"
  shows "db_inv p (push_record r w) base L stale n"
proof -
  note d = db_invD [OF inv]
  have u: "unflushed (push_record r w) = unflushed w @ [r]" using wal_okD(2) [OF d(2)] by simp
  have R: "i < n \<Longrightarrow> (L @ unflushed w @ [r]) ! i = (L @ unflushed w) ! i" for i
    using d(5) by (simp add: nth_append)
  have tk: "m \<le> n \<Longrightarrow> take m (L @ unflushed w @ [r]) = take m (L @ unflushed w)" for m
    using d(5) by (auto simp: append_assoc [symmetric] simp del: append_assoc)
  have "\<exists>m\<le>n. m \<le> length L \<and> file_page (fd p) f = redo_all (take m (L @ unflushed w @ [r])) base f" for f
    using d(8) [of f] tk by metis
  moreover have "rec_lsn (hd (unflushed w @ [r])) \<le> k" if "length L < stale" "pending p g = Some k" for g k
  proof -
    have "unflushed w \<noteq> []" using d(5,6,10) that(1) by auto
    then show ?thesis using d(11) [OF that] by simp
  qed
  moreover have "log_holds (push_record r w) L" "length (wal_fd (push_record r w)) = log_pos (push_record r w)"
    using d(3,4) by (simp_all add: log_holds_def push_record_def)
  ultimately show ?thesis
    using d wal_ok_push [OF d(2) r] unfolding db_inv_def u by (simp add: R tk)
qed

text \<open>The next record takes effect: one that does not touch a page, or one that changes a page.\<close>

lemma db_inv_control:
  assumes inv: "db_inv p w base L stale n" and n: "n < length (L @ unflushed w)"
    and r: "page_of ((L @ unflushed w) ! n) = None"
  shows "db_inv p w base L stale (Suc n)"
proof -
  note d = db_invD [OF inv]
  have "view p = redo_all (take (Suc n) (L @ unflushed w)) base"
    unfolding take_Suc_redo [OF n] redo_no_page [OF r] by (rule d(7))
  moreover have "\<exists>m\<le>Suc n. m \<le> length L \<and> file_page (fd p) f = redo_all (take m (L @ unflushed w)) base f" for f
    using d(8) [of f] le_SucI by blast
  moreover have "\<exists>k. pending p f = Some k \<and> rec_lsn ((L @ unflushed w) ! i) \<le> k"
    if "i < Suc n" "length L \<le> i" "stale \<le> i" "page_of ((L @ unflushed w) ! i) = Some f" for i f
  proof -
    have "i < n" using that(1,4) r by (cases "i = n") auto
    then show ?thesis using d(9) that(2-4) by blast
  qed
  ultimately show ?thesis using d n unfolding db_inv_def by (simp add: Suc_le_eq)
qed

lemma db_inv_mark:
  assumes inv: "db_inv p w base L stale n" and n: "n < length (L @ unflushed w)" "(L @ unflushed w) ! n = r"
    and r: "page_of r = Some f" "marks_page f (rec_lsn r) p p'" "pool_inv p'" "view p' = redo r (view p)"
  shows "db_inv p' w base L stale (Suc n)"
proof -
  note d = db_invD [OF inv]
  obtain k where k: "fd p' = fd p" "rec_lsn r \<le> k" "pending p' = (pending p)(f \<mapsto> k)"
    "\<And>j. pending p f = Some j \<Longrightarrow> j \<le> k"
    using r(2) unfolding marks_page_def by blast
  have "view p' = redo_all (take (Suc n) (L @ unflushed w)) base"
    unfolding take_Suc_redo [OF n(1)] n(2) r(4) by (simp only: d(7))
  moreover have "\<exists>m\<le>Suc n. m \<le> length L \<and> file_page (fd p') g = redo_all (take m (L @ unflushed w)) base g" for g
    unfolding k(1) using d(8) [of g] le_SucI by blast
  moreover have "\<exists>k. pending p' g = Some k \<and> rec_lsn ((L @ unflushed w) ! i) \<le> k"
    if i: "i < Suc n" "length L \<le> i" "stale \<le> i" "page_of ((L @ unflushed w) ! i) = Some g" for i g
  proof (cases "i = n")
    case True
    then show ?thesis using n(2) r(1) i(4) k(2,3) by simp
  next
    case False
    then obtain j where "pending p g = Some j" "rec_lsn ((L @ unflushed w) ! i) \<le> j"
      using d(9) [of i g] i by auto
    then show ?thesis using k(3,4) by (cases "g = f") force+
  qed
  moreover have "rec_lsn (hd (unflushed w)) \<le> j" if s: "length L < stale" and j: "pending p' g = Some j" for g j
  proof (cases "g = f")
    case True
    have "L = []" using d(10) s by blast
    then have "r \<in> set (unflushed w)" using n by auto
    then have "rec_lsn (hd (unflushed w)) \<le> rec_lsn r" using wal_okD(6) [OF d(2)] by blast
    then show ?thesis using True k(2,3) j by simp
  next
    case False
    then show ?thesis using d(11) [OF s, of g j] j k(3) by simp
  qed
  moreover have "Suc n \<le> length (L @ unflushed w)" using n(1) by simp
  ultimately show ?thesis using d(2-6,10) r(3) unfolding db_inv_def by (metis le_SucI)
qed

section \<open>Crash safety\<close>

text \<open>
  \<open>R\<close> are the records since the log was last emptied, \<open>C\<close> is the committed state: recovery from
  the records in the log file, and from all records, would lead to it.
\<close>

definition crash_safe ::
    "BufferPool \<Rightarrow> WAL \<Rightarrow> (nat \<Rightarrow> page) \<Rightarrow> InMemoryWALRecord list \<Rightarrow> (nat \<Rightarrow> page) \<Rightarrow> bool" where
  "crash_safe p w base R C \<longleftrightarrow> (\<exists>L stale. R = L @ unflushed w \<and> db_inv p w base L stale (length R) \<and>
     recovered L base = C \<and> recovered R base = C)"

lemma crash_safeD:
  assumes "crash_safe p w base R C"
  shows "pool_inv p" "wal_ok w" "view p = redo_all R base" "recovered R base = C"
    "set (unflushed w) \<subseteq> set R"
  using assms unfolding crash_safe_def by (auto dest: db_invD(1,2,7))

lemma crash_safe_update:
  assumes "crash_safe p w base R C" "records w' = records w" "wal_disk w' = wal_disk w"
    "wal_fd w' = wal_fd w" "log_pos w' = log_pos w" "unflushed_record_index w' = unflushed_record_index w"
  shows "crash_safe p w' base R C"
proof -
  have "unflushed w' = unflushed w" using assms by (simp add: unflushed_def)
  then show ?thesis using assms db_inv_update [OF _ assms(2-)] unfolding crash_safe_def by metis
qed

text \<open>The pool may change as long as nothing but pins changes.\<close>

lemma crash_safe_pool:
  assumes "crash_safe p w base R C" "pool_inv p'" "view p' = view p" "fd p' = fd p" "pending p' = pending p"
  shows "crash_safe p' w base R C"
  using assms unfolding crash_safe_def db_inv_def by metis

lemma crash_safe_pool_step:
  assumes safe: "crash_safe p w base R C" and step: "pool_step p w p' w'"
  shows "crash_safe p' w' base R C" "w' = w \<or> flushed w w'"
proof -
  obtain L stale where L: "R = L @ unflushed w" "db_inv p w base L stale (length R)"
    "recovered L base = C" "recovered R base = C"
    using safe unfolding crash_safe_def by blast
  from L(2) step show "crash_safe p' w' base R C"
  proof (rule db_inv_pool_step)
    assume "db_inv p' w' base L stale (length R)" "unflushed w' = unflushed w"
    then show ?thesis using L by (auto simp: crash_safe_def)
  next
    assume "db_inv p' w' base (L @ unflushed w) stale (length R)" "unflushed w' = []"
    then show ?thesis using L by (auto simp: crash_safe_def intro!: exI [of _ "L @ unflushed w"])
  qed
  from L(2) step show "w' = w \<or> flushed w w'" by (rule db_inv_pool_step) auto
qed

text \<open>A record that changes no page is appended.\<close>

lemma crash_safe_control:
  assumes safe: "crash_safe p w base R C"
    and r: "good_record r" "\<forall>x\<in>set (unflushed w). rec_lsn x \<le> rec_lsn r" "page_of r = None"
    and rec: "recovered (R @ [r]) base = C"
  shows "crash_safe p (push_record r w) base (R @ [r]) C"
proof -
  obtain L stale where L: "R = L @ unflushed w" "db_inv p w base L stale (length R)"
    "recovered L base = C" "recovered R base = C"
    using safe unfolding crash_safe_def by blast
  have u: "unflushed (push_record r w) = unflushed w @ [r]"
    using wal_okD(2) [OF crash_safeD(2) [OF safe]] by simp
  have "db_inv p (push_record r w) base L stale (Suc (length R))"
    using db_inv_push [OF L(2) r(1,2)] r(3) by (intro db_inv_control) (simp_all add: u L(1))
  then show ?thesis
    using L rec u unfolding crash_safe_def by (intro exI [of _ L] exI [of _ stale]) simp
qed

lemma applied_page:
  assumes ap: "applied r p w p' w'" and f: "page_of r = Some f"
  obtains p1 where "pool_step p w p1 w'" "marks_page f (rec_lsn r) p1 p'" "pool_inv p'"
    "view p' = redo r (view p1)"
proof -
  obtain off bs where "redo_write r = Some (f, off, bs)" using f by (auto simp: page_of_def)
  then obtain p1 where p1: "pool_step p w p1 w'" "marks_page f (rec_lsn r) p1 p'" "pool_inv p'"
    "view p' = redo r (view p)"
    using ap by (auto simp: applied_def)
  have "view p1 = view p" using p1(1) by (simp add: pool_step_def)
  with p1 that show thesis by simp
qed

text \<open>A record is appended and applied (\<open>write_clrs\<close>), or applied and appended (\<open>set\<close>).\<close>

lemma crash_safe_marks:
  assumes db: "db_inv p w base L stale (length R)" and R: "R @ [r] = L @ unflushed w"
    and L: "recovered L base = C" "recovered (R @ [r]) base = C"
    and r: "page_of r = Some f" "marks_page f (rec_lsn r) p p'" "pool_inv p'" "view p' = redo r (view p)"
  shows "crash_safe p' w base (R @ [r]) C"
proof -
  have n: "length R < length (L @ unflushed w)" "(L @ unflushed w) ! length R = r"
    using R [symmetric] by simp_all
  have "db_inv p' w base L stale (length (R @ [r]))" using db_inv_mark [OF db n r] by simp
  then show ?thesis using L R unfolding crash_safe_def by (intro exI [of _ L] exI [of _ stale]) blast
qed

lemma crash_safe_apply:
  assumes safe: "crash_safe p w base R C"
    and r: "good_record r" "\<forall>x\<in>set (unflushed w). rec_lsn x \<le> rec_lsn r" "page_of r = Some f"
    and rec: "recovered (R @ [r]) base = C"
    and a: "apply_record r (p, push_record r w) = Inr (p', w')"
  shows "crash_safe p' w' base (R @ [r]) C" "w' = push_record r w \<or> flushed (push_record r w) w'"
    "view p' = redo r (view p)" "refcounts p' = refcounts p"
proof -
  obtain L stale where L: "R = L @ unflushed w" "db_inv p w base L stale (length R)"
    "recovered L base = C" "recovered R base = C"
    using safe unfolding crash_safe_def by blast
  have u: "unflushed (push_record r w) = unflushed w @ [r]"
    using wal_okD(2) [OF crash_safeD(2) [OF safe]] by simp
  note db = db_inv_push [OF L(2) r(1,2)]
  have ap: "applied r p (push_record r w) p' w'"
    by (rule apply_record_applied [OF db_invD(1) [OF db] r(1) a])
  then show "view p' = redo r (view p)" "refcounts p' = refcounts p" by (simp_all add: applied_def)
  obtain p1 where p1: "pool_step p (push_record r w) p1 w'" "marks_page f (rec_lsn r) p1 p'" "pool_inv p'"
    "view p' = redo r (view p1)"
    using applied_page [OF ap r(3)] by metis
  from db p1(1) show "crash_safe p' w' base (R @ [r]) C"
  proof (rule db_inv_pool_step)
    assume db': "db_inv p1 w' base L stale (length R)" and "unflushed w' = unflushed (push_record r w)"
    then have "R @ [r] = L @ unflushed w'" using L(1) u by simp
    then show ?thesis by (rule crash_safe_marks [OF db' _ L(3) rec r(3) p1(2-4)])
  next
    assume db': "db_inv p1 w' base (L @ unflushed (push_record r w)) stale (length R)" and "unflushed w' = []"
    then have R: "R @ [r] = (L @ unflushed (push_record r w)) @ unflushed w'" using L(1) u by simp
    have "recovered (L @ unflushed (push_record r w)) base = C" using rec L(1) u by simp
    then show ?thesis by (rule crash_safe_marks [OF db' R _ rec r(3) p1(2-4)])
  qed
  from db p1(1) show "w' = push_record r w \<or> flushed (push_record r w) w'" by (rule db_inv_pool_step) auto
qed

lemma crash_safe_set:
  assumes safe: "crash_safe p w base R C"
    and r: "good_record r" "\<forall>x\<in>set (unflushed w). rec_lsn x \<le> rec_lsn r" "page_of r = Some f"
    and rec: "recovered (R @ [r]) base = C"
    and a: "apply_record r (p, w) = Inr (p', w')"
  shows "crash_safe p' (push_record r w') base (R @ [r]) C" "w' = w \<or> flushed w w'"
    "view p' = redo r (view p)" "refcounts p' = refcounts p"
proof -
  have ap: "applied r p w p' w'" by (rule apply_record_applied [OF crash_safeD(1) [OF safe] r(1) a])
  then show "view p' = redo r (view p)" "refcounts p' = refcounts p" by (simp_all add: applied_def)
  obtain p1 where p1: "pool_step p w p1 w'" "marks_page f (rec_lsn r) p1 p'" "pool_inv p'"
    "view p' = redo r (view p1)"
    using applied_page [OF ap r(3)] by metis
  note s1 = crash_safe_pool_step [OF safe p1(1)]
  show "w' = w \<or> flushed w w'" by (rule s1(2))
  obtain L stale where L: "R = L @ unflushed w'" "db_inv p1 w' base L stale (length R)"
    "recovered L base = C" "recovered R base = C"
    using s1(1) unfolding crash_safe_def by blast
  have u: "unflushed (push_record r w') = unflushed w' @ [r]"
    using wal_okD(2) [OF crash_safeD(2) [OF s1(1)]] by simp
  have "\<forall>x\<in>set (unflushed w'). rec_lsn x \<le> rec_lsn r"
    using s1(2) r(2) by (auto simp: flushed_def)
  then have db: "db_inv p1 (push_record r w') base L stale (length R)" by (rule db_inv_push [OF L(2) r(1)])
  have "R @ [r] = L @ unflushed (push_record r w')" using L(1) u by simp
  then show "crash_safe p' (push_record r w') base (R @ [r]) C"
    by (rule crash_safe_marks [OF db _ L(3) rec r(3) p1(2-4)])
qed

text \<open>All records go to the log file.\<close>

lemma crash_safe_flushed:
  assumes db: "db_inv p w base L stale (length (L @ unflushed w))" and fl: "flushed w w'"
  shows "crash_safe p w' base (L @ unflushed w) (recovered (L @ unflushed w) base)"
proof -
  note d = db_invD [OF db]
  have u: "unflushed w' = []" using fl by (simp add: flushed_def)
  have "\<exists>m\<le>length (L @ unflushed w). m \<le> length (L @ unflushed w) \<and>
      file_page (fd p) f = redo_all (take m (L @ unflushed w)) base f" for f
    using d(8) [of f] by auto
  then have "db_inv p w' base (L @ unflushed w) stale (length (L @ unflushed w))"
    using fl d u by (auto simp: db_inv_def flushed_def)
  then show ?thesis using u unfolding crash_safe_def by (intro exI [of _ "L @ unflushed w"] exI [of _ stale]) simp
qed

end
