(* ===== verification/Transactions.thy ===== *)
theory Transactions
  imports Prelude Wal_Record Redo Buffer_Pool Wal Durability
begin

text \<open>
  The operations of the log one by one: \<open>begin\<close>, \<open>set\<close>, \<open>commit\<close>, \<open>abort\<close> and the checkpoint keep
  the state crash-safe, and change the pages and the committed state as a transaction should.  At
  most one read-write transaction is live, as the lock of \<open>DiskMap\<close> ensures.
\<close>

section \<open>The records of a history\<close>

text \<open>No transaction writes after its end, and every write belongs to a transaction that ended
  later or to the live one.\<close>

definition bracketed :: "nat option \<Rightarrow> InMemoryWALRecord list \<Rightarrow> bool" where
  "bracketed live R \<longleftrightarrow> (\<forall>X r Y. R = X @ r # Y \<longrightarrow> is_set r \<longrightarrow>
     rec_txn_id r \<notin> finished_txns X \<and> (rec_txn_id r \<in> finished_txns Y \<or> live = Some (rec_txn_id r)))"

lemma bracketedI:
  assumes "\<And>X r Y. R = X @ r # Y \<Longrightarrow> is_set r \<Longrightarrow> rec_txn_id r \<notin> finished_txns X"
    "\<And>X r Y. R = X @ r # Y \<Longrightarrow> is_set r \<Longrightarrow> rec_txn_id r \<in> finished_txns Y \<or> live = Some (rec_txn_id r)"
  shows "bracketed live R"
  using assms unfolding bracketed_def by blast

lemma bracketedD:
  assumes "bracketed live R" "R = X @ r # Y" "is_set r"
  shows "rec_txn_id r \<notin> finished_txns X" "rec_txn_id r \<in> finished_txns Y \<or> live = Some (rec_txn_id r)"
  using assms unfolding bracketed_def by blast+

lemma snoc_split: "R @ [s] = X @ r # Y \<Longrightarrow> Y = [] \<and> X = R \<and> r = s \<or> (\<exists>Y'. Y = Y' @ [s] \<and> R = X @ r # Y')"
  by (cases Y rule: rev_cases) auto

lemma bracketed_Nil [simp]: "bracketed live []"
  by (simp add: bracketed_def)

lemma bracketed_start: "bracketed None R \<Longrightarrow> bracketed live R"
  unfolding bracketed_def by blast

lemma bracketed_snocI:
  assumes "\<And>X r Y. R = X @ r # Y \<Longrightarrow> is_set r \<Longrightarrow> rec_txn_id r \<notin> finished_txns X"
    "\<And>X r Y. R = X @ r # Y \<Longrightarrow> is_set r \<Longrightarrow> rec_txn_id r \<in> finished_txns (Y @ [s]) \<or> live = Some (rec_txn_id r)"
    "is_set s \<Longrightarrow> rec_txn_id s \<notin> finished_txns R \<and> live = Some (rec_txn_id s)"
  shows "bracketed live (R @ [s])"
proof (rule bracketedI)
  fix X r Y assume R: "R @ [s] = X @ r # Y" and r: "is_set r"
  consider "X = R" "r = s" | Y' where "Y = Y' @ [s]" "R = X @ r # Y'" using snoc_split [OF R] by blast
  then have "rec_txn_id r \<notin> finished_txns X \<and> (rec_txn_id r \<in> finished_txns Y \<or> live = Some (rec_txn_id r))"
    by cases (use assms r in blast)+
  then show "rec_txn_id r \<notin> finished_txns X" "rec_txn_id r \<in> finished_txns Y \<or> live = Some (rec_txn_id r)"
    by blast+
qed

lemma bracketed_other: "bracketed live R \<Longrightarrow> \<not> is_set s \<Longrightarrow> bracketed live (R @ [s])"
  by (rule bracketed_snocI) (use bracketedD in fastforce)+

lemma bracketed_others:
  "bracketed live R \<Longrightarrow> \<forall>s\<in>set S. \<not> is_set s \<Longrightarrow> bracketed live (R @ S)"
proof (induction S rule: rev_induct)
  case (snoc s S)
  then have "bracketed live ((R @ S) @ [s])" by (intro bracketed_other) auto
  then show ?case by simp
qed simp

lemma bracketed_set:
  "bracketed (Some T) R \<Longrightarrow> rec_txn_id s = T \<Longrightarrow> T \<notin> finished_txns R \<Longrightarrow> bracketed (Some T) (R @ [s])"
  by (rule bracketed_snocI) (use bracketedD in fastforce)+

lemma end_not_set: "is_end s \<Longrightarrow> \<not> is_set s"
  by (auto simp: is_set_def is_end_def)

lemma bracketed_end:
  "bracketed (Some T) R \<Longrightarrow> rec_txn_id s = T \<Longrightarrow> is_end s \<Longrightarrow> bracketed None (R @ [s])"
  by (rule bracketed_snocI) (use bracketedD end_not_set in fastforce)+

lemma bracketed_suffix:
  assumes "bracketed live (X @ R)"
  shows "bracketed live R"
proof (rule bracketedI)
  fix U r Y assume "R = U @ r # Y" and r: "is_set r"
  then have "X @ R = (X @ U) @ r # Y" by simp
  from bracketedD [OF assms this r]
  show "rec_txn_id r \<notin> finished_txns U" "rec_txn_id r \<in> finished_txns Y \<or> live = Some (rec_txn_id r)" by auto
qed

lemma losers_bracketed:
  assumes "bracketed live R" "r \<in> set (losers R)"
  shows "live = Some (rec_txn_id r)" "is_set r" "r \<in> set R"
proof -
  show r: "is_set r" "r \<in> set R" using assms(2) by (simp_all add: losers_def)
  then obtain X Y where R: "R = X @ r # Y" by (meson split_list)
  have "rec_txn_id r \<notin> finished_txns R" using assms(2) by (simp add: losers_def)
  then have "rec_txn_id r \<notin> finished_txns Y" by (auto simp: R split: if_splits)
  then show "live = Some (rec_txn_id r)" using bracketedD(2) [OF assms(1) R r(1)] by blast
qed

lemma losers_none: "bracketed None R \<Longrightarrow> losers R = []"
  using losers_bracketed(1) by (metis last_in_set option.distinct(1))

lemma recovered_none: "bracketed None R \<Longrightarrow> recovered R v = redo_all R v"
  by (simp add: recovered_def losers_none)

section \<open>The invariant between operations\<close>

definition log_inv :: "WAL \<Rightarrow> InMemoryWALRecord list \<Rightarrow> bool" where
  "log_inv w R \<longleftrightarrow> (\<forall>r\<in>set R \<union> set (records w). good_record r \<and> rec_lsn r < next_lsn w \<and> rec_txn_id r \<le> rec_lsn r) \<and>
     (\<forall>r\<in>set R. rec_lsn (hd R) \<le> rec_lsn r) \<and> next_txn_id w \<le> next_lsn w \<and> next_lsn w < 2 ^ 32 \<and>
     length R \<le> length (records w)"

text \<open>What the records in memory say about the live transaction, as far as \<open>abort\<close> relies on it:
  besides its BEGIN they contain just its changes, and no BEGIN comes after the first of these.\<close>

definition live_inv :: "WAL \<Rightarrow> InMemoryWALRecord list \<Rightarrow> nat \<Rightarrow> bool" where
  "live_inv w R T \<longleftrightarrow> T < next_lsn w \<and> T \<notin> finished_txns R \<and>
     filter (\<lambda>r. rec_txn_id r = T \<and> rec_body r \<noteq> BEGIN) (records w) = losers R \<and>
     (\<exists>X Y. records w = X @ Y \<and> (\<forall>r\<in>set Y. rec_body r \<noteq> BEGIN) \<and>
        (\<forall>r\<in>set X. rec_txn_id r = T \<longrightarrow> rec_body r = BEGIN))"

definition sys_inv :: "BufferPool \<Rightarrow> WAL \<Rightarrow> nat option \<Rightarrow> (nat \<Rightarrow> page) \<Rightarrow> InMemoryWALRecord list \<Rightarrow>
    (nat \<Rightarrow> page) \<Rightarrow> bool" where
  "sys_inv p w live base R C \<longleftrightarrow> crash_safe p w base R C \<and> log_inv w R \<and> bracketed live R \<and>
     (\<forall>T. live = Some T \<longrightarrow> live_inv w R T) \<and>
     active_transactions w = (if live = None then 0 else 1)"

lemma sys_invD:
  assumes "sys_inv p w live base R C"
  shows "crash_safe p w base R C" "log_inv w R" "bracketed live R" "live = Some T \<Longrightarrow> live_inv w R T"
    "active_transactions w = (if live = None then 0 else 1)"
  using assms by (simp_all add: sys_inv_def)

lemma log_invD:
  assumes "log_inv w R"
  shows "r \<in> set R \<Longrightarrow> good_record r" "r \<in> set (records w) \<Longrightarrow> good_record r"
    "r \<in> set R \<Longrightarrow> rec_lsn r < next_lsn w" "r \<in> set (records w) \<Longrightarrow> rec_lsn r < next_lsn w"
    "r \<in> set R \<Longrightarrow> rec_txn_id r < next_lsn w" "r \<in> set (records w) \<Longrightarrow> rec_txn_id r < next_lsn w"
    "next_txn_id w \<le> next_lsn w" "next_lsn w < 2 ^ 32" "length R \<le> length (records w)"
proof -
  note i = assms [unfolded log_inv_def]
  from i have a: "\<forall>r\<in>set R \<union> set (records w). good_record r \<and> rec_lsn r < next_lsn w \<and> rec_txn_id r \<le> rec_lsn r"
    by (rule conjunct1)
  then show "r \<in> set R \<Longrightarrow> good_record r" "r \<in> set (records w) \<Longrightarrow> good_record r"
    "r \<in> set R \<Longrightarrow> rec_lsn r < next_lsn w" "r \<in> set (records w) \<Longrightarrow> rec_lsn r < next_lsn w" by blast+
  show "r \<in> set R \<Longrightarrow> rec_txn_id r < next_lsn w" "r \<in> set (records w) \<Longrightarrow> rec_txn_id r < next_lsn w"
    using a by (meson UnCI le_less_trans)+
  show "next_txn_id w \<le> next_lsn w" "next_lsn w < 2 ^ 32" "length R \<le> length (records w)"
    using i by blast+
qed

lemma sys_inv_log_same:
  assumes "log_same w w'" "log_inv w R"
  shows "log_inv w' R" "live_inv w R T \<Longrightarrow> live_inv w' R T"
  using assms by (simp_all add: log_inv_def live_inv_def log_same_def)

lemma flushed_log_same: "w' = w \<or> flushed w w' \<Longrightarrow> log_same w w'"
  by (auto simp: flushed_def)

lemma log_same_trans: "log_same w w1 \<Longrightarrow> log_same w1 w2 \<Longrightarrow> log_same w w2"
  by (simp add: log_same_def)

lemma view_committed: "sys_inv p w None base R C \<Longrightarrow> view p = C"
  using sys_invD(1,3) [of p w None base R C] crash_safeD(3,4) [of p w base R C]
  by (simp add: recovered_none)

lemma unflushed_older:
  "crash_safe p w base R C \<Longrightarrow> log_inv w R \<Longrightarrow> x \<in> set (unflushed w) \<Longrightarrow> rec_lsn x < next_lsn w"
  using crash_safeD(5) log_invD(3) by blast

text \<open>One more record in memory.\<close>

lemma log_inv_snoc:
  assumes inv: "log_inv w R" and r: "good_record r" "rec_lsn r = next_lsn w" "rec_txn_id r \<le> next_lsn w"
    and w': "records w' = records w @ [r]" "next_lsn w' = next_lsn w + 1" "next_txn_id w' \<le> next_lsn w'"
      "next_lsn w + 1 < 2 ^ 32"
  shows "log_inv w' (R @ [r])"
proof -
  have "rec_lsn (hd (R @ [r])) \<le> rec_lsn x" if "x \<in> set (R @ [r])" for x
    using that r(2) inv unfolding log_inv_def by (cases R) (auto simp: less_imp_le)
  then show ?thesis using inv r w' unfolding log_inv_def by (auto simp: less_Suc_eq)
qed

lemma new_record_simps [simp]:
  "rec_lsn (new_record l T b d) = l" "rec_txn_id (new_record l T b d) = T"
  "rec_body (new_record l T b d) = b" "rec_data (new_record l T b d) = d"
  by (simp_all add: new_record_def)

lemma new_record_good:
  "l < 2 ^ 32 \<Longrightarrow> T < 2 ^ 32 \<Longrightarrow> wf_body b \<Longrightarrow> body_fits b \<Longrightarrow> length d = data_size b \<Longrightarrow>
   good_record (new_record l T b d)"
  unfolding new_record_def good_record_def by (simp add: valid_with_checksum wf_record_def)

lemma log_control_simps:
  "records (log_control T b w) = records w @ [new_record (next_lsn w) T b []]"
  "next_lsn (log_control T b w) = (next_lsn w + 1) mod 2 ^ 32"
  "next_txn_id (log_control T b w) = next_txn_id w"
  "active_transactions (log_control T b w) = active_transactions w"
  "checkpoint_pending (log_control T b w) = checkpoint_pending w"
  by (simp_all add: log_control_def push_record_def bump_lsn_def)

section \<open>Begin\<close>

lemma begin_kept:
  assumes inv: "sys_inv p w None base R C" and b: "wal_begin w = Some (T, w')" and room: "next_lsn w + 1 < 2 ^ 32"
  shows "T = next_lsn w"
    "sys_inv p w' (Some T) base (R @ [new_record (next_lsn w) (next_txn_id w) BEGIN []]) C"
proof -
  note s = sys_invD [OF inv]
  note l = log_invD [OF s(2)]
  define r where "r = new_record (next_lsn w) (next_txn_id w) BEGIN []"
  have T: "T = next_lsn w" and w': "w' = push_record r (bump_txn_id (bump_lsn (w\<lparr>active_transactions := active_transactions w + 1\<rparr>)))"
    using b by (auto simp: wal_begin_def Let_def r_def bump_lsn_def split: if_splits)
  show "T = next_lsn w" by (rule T)
  have f: "records w' = records w @ [r]" "next_lsn w' = next_lsn w + 1" "next_txn_id w' = next_txn_id w + 1"
    "active_transactions w' = active_transactions w + 1"
    using room l(7) by (simp_all add: w' push_record_def bump_lsn_def bump_txn_id_def)
  have good: "good_record r" unfolding r_def using l(7,8) by (intro new_record_good) simp_all
  have nowrite: "page_of r = None" by (simp add: r_def page_of_def redo_write.simps)
  have ctl: "\<not> is_end r" "\<not> is_set r" by (simp_all add: r_def is_end_def is_set_def)
  have w1: "crash_safe p (bump_txn_id (bump_lsn (w\<lparr>active_transactions := active_transactions w + 1\<rparr>))) base R C"
    by (rule crash_safe_update [OF s(1)]) (simp_all add: bump_lsn_def bump_txn_id_def)
  have "crash_safe p w' base (R @ [r]) C"
    unfolding w'
  proof (rule crash_safe_control [OF w1 good _ nowrite])
    show "\<forall>x\<in>set (unflushed (bump_txn_id (bump_lsn (w\<lparr>active_transactions := active_transactions w + 1\<rparr>)))).
        rec_lsn x \<le> rec_lsn r"
      using unflushed_older [OF s(1,2)] by (auto simp: unflushed_def r_def bump_lsn_def bump_txn_id_def less_imp_le)
    show "recovered (R @ [r]) base = C"
      using recovered_control [OF ctl(1) _ ctl(2)] nowrite crash_safeD(4) [OF s(1)] by (simp add: page_of_def)
  qed
  moreover have "log_inv w' (R @ [r])"
    using good f room l(7) by (intro log_inv_snoc [OF s(2)]) (simp_all add: r_def)
  moreover have "bracketed (Some T) (R @ [r])"
    using bracketed_other [OF bracketed_start [OF s(3)] ctl(2)] .
  moreover have "live_inv w' (R @ [r]) T"
  proof -
    have other: "rec_txn_id x \<noteq> T" if "x \<in> set (records w)" for x using l(6) [OF that] T by simp
    have "losers (R @ [r]) = []" using losers_none [OF s(3)] ctl by (simp add: losers_snoc)
    moreover have "filter (\<lambda>x. rec_txn_id x = T \<and> rec_body x \<noteq> BEGIN) (records w') = []"
      using other by (auto simp: f(1) r_def filter_empty_conv)
    moreover have "T \<notin> finished_txns (R @ [r])"
    proof -
      have "rec_txn_id x \<noteq> T" if "x \<in> set R" for x using l(5) [OF that] T by simp
      then show ?thesis using ctl by (auto simp: finished_txns_def)
    qed
    moreover have "\<forall>x\<in>set (records w'). rec_txn_id x = T \<longrightarrow> rec_body x = BEGIN"
      using other by (auto simp: f(1) r_def)
    then have "\<exists>X Y. records w' = X @ Y \<and> (\<forall>r\<in>set Y. rec_body r \<noteq> BEGIN) \<and>
        (\<forall>r\<in>set X. rec_txn_id r = T \<longrightarrow> rec_body r = BEGIN)"
      by (intro exI [of _ "records w'"] exI [of _ "[]"]) simp
    moreover have "T < next_lsn w'" using f(2) T by simp
    ultimately show ?thesis unfolding live_inv_def by (metis (no_types, lifting))
  qed
  ultimately show "sys_inv p w' (Some T) base (R @ [new_record (next_lsn w) (next_txn_id w) BEGIN []]) C"
    using s(5) f(4) by (simp add: sys_inv_def r_def)
qed

section \<open>Set\<close>

lemma pinned_slot:
  assumes "pool_inv p" "i < pool_size p" "0 < refcount (metadata p ! i)"
  shows "i < next_pool_index p"
  using pool_invD(5) [OF assms(1,2)] assms(3) by (cases "i < next_pool_index p") (simp_all add: PageMetadata_reset_def)

lemma refcounts_nth: "pool_inv p \<Longrightarrow> i < pool_size p \<Longrightarrow> refcounts p ! i = refcount (metadata p ! i)"
  using pool_invD(2) by (simp add: refcounts_def)

text \<open>The pins of a handle, taken and given back around changes that keep the other pins.\<close>

lemma destroy_handle:
  assumes r: "retained f advise p i p1" and inv: "pool_inv p" and inv2: "pool_inv p2"
    and rc1: "refcounts p1 = (refcounts p)[i := refcounts p ! i + 1]" and rc: "refcounts p2 = refcounts p1"
    and d: "PageHandle_destroy \<lparr>pool_index = int i\<rparr> p2 = Inr p3"
  shows "pool_inv p3" "view p3 = view p2" "fd p3 = fd p2" "pending p3 = pending p2" "refcounts p3 = refcounts p"
proof -
  note d1 = retainedD [OF r]
  have len: "length (refcounts p2) = pool_size p2" "length (refcounts p1) = pool_size p1"
    using pool_invD(2) [OF inv2] pool_invD(2) [OF d1(1)] by (simp_all add: refcounts_def)
  then have i2: "i < pool_size p2" using rc d1(4,6) by simp
  have "refcount (metadata p2 ! i) = refcount (metadata p1 ! i)"
    using refcounts_nth [OF inv2 i2] refcounts_nth [OF d1(1), of i] d1(4,6) rc by simp
  then have pos: "0 < refcount (metadata p2 ! i)" using retained_pinned [OF inv r] by simp
  have n: "i < next_pool_index p2" by (rule pinned_slot [OF inv2 i2 pos])
  have rel: "release i p2 = Inr p3" using d by (simp add: PageHandle_destroy_def)
  obtain q where "release i p2 = Inr q" "pool_inv q" "view q = view p2" "fd q = fd p2"
    using release_ok [OF inv2 n pos] by metis
  with rel show "pool_inv p3" "view p3 = view p2" "fd p3 = fd p2" by simp_all
  show "pending p3 = pending p2" by (rule release_pending [OF inv2 n pos rel])
  have "i < length (refcounts p)" using len(2) d1(6) rc1 by (metis length_list_update d1(4))
  then show "refcounts p3 = refcounts p" using release_refcounts [OF inv2 n pos rel] rc rc1 by simp
qed

text \<open>The record that \<open>set\<close> builds when the page is \<open>pg\<close>.\<close>

definition set_record :: "nat \<Rightarrow> nat \<Rightarrow> nat \<Rightarrow> byte list \<Rightarrow> nat \<Rightarrow> page \<Rightarrow> InMemoryWALRecord" where
  "set_record l T loc data len pg =
     (let old = bytes_at pg (loc mod PAGE_SIZE) len; from_length = get_unpadded_length len old in
      new_record l T (SET \<lparr>set_loc = loc, set_length = len mod 2 ^ 16,
        set_old_value_len = from_length mod 2 ^ 16, set_new_value_len = length data mod 2 ^ 16\<rparr>)
        (take from_length old @ data))"

lemma wal_set_retained:
  assumes "retain (Some flush_up_to) (loc div PAGE_SIZE) False (p, bump_lsn w) = Inr (i, p1, w1)"
    "handle_data \<lparr>pool_index = int i\<rparr> p1 = Inr pg" "r = set_record (next_lsn w) T loc data len pg"
  shows "wal_set T loc data len (p, w) =
      (if PAGE_SIZE < loc mod PAGE_SIZE + len then Inl MemoryError
       else bindR (apply_record r (p1, w1)) (\<lambda>(p, w).
         bindR (PageHandle_destroy \<lparr>pool_index = int i\<rparr> p) (\<lambda>p.
           Inr (p, push_record r w))))"
  unfolding wal_set_def get_page_def Let_def assms(3)
  by (simp only: prod.case assms(1,2) bindR_simps set_record_def Let_def)

lemma set_record_restores:
  fixes v :: "nat \<Rightarrow> page"
  assumes v: "length data \<le> len" "loc mod PAGE_SIZE + len \<le> PAGE_SIZE"
    and b: "l < 2 ^ 32" "T < 2 ^ 32" "loc < 2 ^ 64"
  defines "r \<equiv> set_record l T loc data len (v (loc div PAGE_SIZE))"
  shows "good_record r" "page_of r = Some (loc div PAGE_SIZE)" "is_set r" "rec_lsn r = l" "rec_txn_id r = T"
    "redo r v = v(loc div PAGE_SIZE := blit (v (loc div PAGE_SIZE)) (loc mod PAGE_SIZE) (pad len data))"
    "write_bytes (undo_write r) (redo r v) = v"
proof -
  define old where "old = bytes_at (v (loc div PAGE_SIZE)) (loc mod PAGE_SIZE) len"
  define from_length where "from_length = get_unpadded_length len old"
  have lo: "length old = len" by (simp add: old_def)
  have fl: "from_length \<le> len" by (simp add: from_length_def get_unpadded_length_def unpadded_loop_le)
  have m: "len mod 2 ^ 16 = len" "from_length mod 2 ^ 16 = from_length" "length data mod 2 ^ 16 = length data"
    using v fl by simp_all
  have r': "r = new_record l T (SET \<lparr>set_loc = loc, set_length = len, set_old_value_len = from_length,
      set_new_value_len = length data\<rparr>) (take from_length old @ data)"
    unfolding r_def set_record_def Let_def old_def [symmetric] from_length_def [symmetric] m ..
  have body: "rec_body r = SET \<lparr>set_loc = loc, set_length = len, set_old_value_len = from_length,
      set_new_value_len = length data\<rparr>" and rd: "rec_data r = take from_length old @ data"
    and rlt: "rec_lsn r = l" "rec_txn_id r = T"
    by (simp_all add: r')
  show "rec_lsn r = l" "rec_txn_id r = T" by (rule rlt)+
  show "good_record r" unfolding r' using b v fl lo by (intro new_record_good) simp_all
  have rw: "redo_write r = Some (loc div PAGE_SIZE, loc mod PAGE_SIZE, pad len data)"
    and uw: "undo_write r = Some (loc div PAGE_SIZE, loc mod PAGE_SIZE, old)"
    using fl lo pad_unpadded [OF lo] by (simp_all add: redo_write.simps undo_write.simps body rd from_length_def)
  show "page_of r = Some (loc div PAGE_SIZE)" "is_set r"
    by (simp_all add: page_of_def rw is_set_def body)
  show rv: "redo r v = v(loc div PAGE_SIZE := blit (v (loc div PAGE_SIZE)) (loc mod PAGE_SIZE) (pad len data))"
    by (simp add: redo_def rw write_bytes_def)
  have "length (pad len data) = length old" using v(1) lo by simp
  then show "write_bytes (undo_write r) (redo r v) = v"
    unfolding rv uw by (simp add: write_bytes_def blit_blit_overwrite old_def)
qed

lemma set_kept:
  assumes inv: "sys_inv p w (Some T) base R C"
    and set: "wal_set T loc data len (p, w) = Inr (p', w')"
    and b: "loc < 2 ^ 64" "length data \<le> len" "next_lsn w + 1 < 2 ^ 32"
  shows "\<exists>r. sys_inv p' w' (Some T) base (R @ [r]) C"
    "view p' = (view p)(loc div PAGE_SIZE := blit (view p (loc div PAGE_SIZE)) (loc mod PAGE_SIZE) (pad len data))"
    "refcounts p' = refcounts p" "records w' \<noteq> []" "length (records w') = Suc (length (records w))"
    "next_lsn w' = Suc (next_lsn w)" "checkpoint_pending w' = checkpoint_pending w"
    "sys_inv p' w' (Some T) base (R @ [set_record (next_lsn w) T loc data len (view p (loc div PAGE_SIZE))]) C"
proof -
  note s = sys_invD [OF inv]
  note l = log_invD [OF s(2)]
  have live: "live_inv w R T" using s(4) by simp
  define f where "f = loc div PAGE_SIZE"
  define w0 where "w0 = bump_lsn w"
  obtain i p1 w1 where ret: "retain (Some flush_up_to) f False (p, w0) = Inr (i, p1, w1)"
    using set by (auto simp: wal_set_def get_page_def bindR_Inr Let_def f_def w0_def)
  define h where "h = \<lparr>pool_index = int i\<rparr>"
  have s0: "crash_safe p w0 base R C" by (rule crash_safe_update [OF s(1)]) (simp_all add: w0_def bump_lsn_def)
  have pinv: "pool_inv p" by (rule crash_safeD(1) [OF s(1)])
  have r1: "retained f False p i p1" using retain_retained [OF pinv ret] by blast
  note d1 = retainedD [OF r1]
  have s1: "crash_safe p1 w1 base R C" "w1 = w0 \<or> flushed w0 w1"
    using crash_safe_pool_step [OF s0 retain_pool_step [OF pinv ret]] by blast+
  have pg: "handle_data h p1 = Inr (view p f)"
    using d1(6,8) pool_invD(1) [OF d1(1)] by (simp add: handle_data_def h_def)
  define r where "r = set_record (next_lsn w) T loc data len (view p f)"
  note eq = wal_set_retained [OF ret [unfolded f_def w0_def] pg [unfolded h_def] r_def]
  have fits: "loc mod PAGE_SIZE + len \<le> PAGE_SIZE" using set unfolding eq by (simp split: if_splits)
  obtain p2 w2 where ap: "apply_record r (p1, w1) = Inr (p2, w2)" "PageHandle_destroy h p2 = Inr p'"
    "w' = push_record r w2"
    using set unfolding eq by (auto simp: bindR_Inr h_def split: if_splits)
  have T: "T < 2 ^ 32" "T \<notin> finished_txns R" using live l(8) by (auto simp: live_inv_def)
  note rr0 = set_record_restores [where v = "view p", OF b(2) fits l(8) T(1) b(1), folded f_def, folded r_def]
  have rf: "rec_lsn r = next_lsn w" "rec_txn_id r = T" "rec_body r \<noteq> BEGIN"
    using rr0(3-5) by (auto simp: is_set_def)
  note rr = rr0(1-3,6,7)
  have v1: "view p1 = view p" by (rule d1(2))
  have rec: "recovered (R @ [r]) base = C"
    using recovered_set [OF rr(3), of R base] rr(5) T(2) crash_safeD(3,4) [OF s1(1)] v1 by (simp add: rf)
  have young: "\<forall>x\<in>set (unflushed w1). rec_lsn x \<le> rec_lsn r"
    using s1(2) unflushed_older [OF s(1,2)] by (auto simp: w0_def flushed_def rf less_imp_le)
  note cs = crash_safe_set [OF s1(1) rr(1) young rr(2) rec ap(1)]
  have inv2: "pool_inv p2" by (rule crash_safeD(1) [OF cs(1)])
  note dh = destroy_handle [OF r1 pinv inv2 retain_refcounts [OF pinv ret] cs(4) ap(2) [unfolded h_def]]
  show "view p' = (view p)(loc div PAGE_SIZE := blit (view p (loc div PAGE_SIZE)) (loc mod PAGE_SIZE) (pad len data))"
    using dh(2) cs(3) v1 rr(4) by (simp add: f_def)
  show "refcounts p' = refcounts p" by (rule dh(5))
  have ls: "log_same w0 w2"
    by (rule log_same_trans [OF flushed_log_same [OF s1(2)] flushed_log_same [OF cs(2)]])
  have f': "records w' = records w @ [r]" "next_lsn w' = next_lsn w + 1" "next_txn_id w' = next_txn_id w"
    "active_transactions w' = active_transactions w" "checkpoint_pending w' = checkpoint_pending w"
    using ls b(3) by (simp_all add: ap(3) push_record_def log_same_def w0_def bump_lsn_def)
  show "records w' \<noteq> []" "length (records w') = Suc (length (records w))" "next_lsn w' = Suc (next_lsn w)"
    "checkpoint_pending w' = checkpoint_pending w"
    by (simp_all add: f')
  have "crash_safe p' w' base (R @ [r]) C"
    unfolding ap(3) by (rule crash_safe_pool [OF cs(1) dh(1-4)])
  moreover have "log_inv w' (R @ [r])"
    using rr(1) f' b(3) l(7) live by (intro log_inv_snoc [OF s(2)]) (simp_all add: rf live_inv_def)
  moreover have "bracketed (Some T) (R @ [r])"
    by (rule bracketed_set [OF s(3) _ T(2)]) (simp add: rf)
  moreover have "live_inv w' (R @ [r]) T"
  proof -
    obtain X Y where XY: "records w = X @ Y" "\<forall>r\<in>set Y. rec_body r \<noteq> BEGIN"
      "\<forall>r\<in>set X. rec_txn_id r = T \<longrightarrow> rec_body r = BEGIN"
      using live unfolding live_inv_def by blast
    have ne: "\<not> is_end r" using rr(3) end_not_set by blast
    have "losers (R @ [r]) = losers R @ [r]" using rr(3) T(2) ne by (simp add: losers_snoc rf)
    moreover have "filter (\<lambda>r. rec_txn_id r = T \<and> rec_body r \<noteq> BEGIN) (records w') = losers R @ [r]"
      using live f'(1) by (simp add: live_inv_def rf)
    moreover have "\<exists>X Y. records w' = X @ Y \<and> (\<forall>r\<in>set Y. rec_body r \<noteq> BEGIN) \<and>
        (\<forall>r\<in>set X. rec_txn_id r = T \<longrightarrow> rec_body r = BEGIN)"
      using XY f'(1) by (intro exI [of _ X] exI [of _ "Y @ [r]"]) (auto simp: rf)
    ultimately show ?thesis using live ne f'(2) by (simp add: live_inv_def)
  qed
  ultimately have "sys_inv p' w' (Some T) base (R @ [r]) C"
    using s(5) f'(4) by (auto simp: sys_inv_def)
  then show "\<exists>r. sys_inv p' w' (Some T) base (R @ [r]) C"
    "sys_inv p' w' (Some T) base (R @ [set_record (next_lsn w) T loc data len (view p (loc div PAGE_SIZE))]) C"
    unfolding r_def f_def by blast+
qed

section \<open>Commit\<close>

text \<open>A record without data is appended.\<close>

lemma control_kept:
  assumes safe: "crash_safe p w base R C" and inv: "log_inv w R" and room: "next_lsn w + 1 < 2 ^ 32"
    and T: "T \<le> next_lsn w" and b: "b = ABORT_BEGIN \<or> b = COMMIT \<or> b = ABORT_END"
  defines "r \<equiv> new_record (next_lsn w) T b []"
  shows "good_record r" "page_of r = None" "rec_lsn r = next_lsn w" "rec_txn_id r = T" "\<not> is_set r"
    "is_end r \<longleftrightarrow> b \<noteq> ABORT_BEGIN" "log_control T b w = push_record r (bump_lsn w)"
    "crash_safe p (bump_lsn w) base R C" "\<forall>x\<in>set (unflushed (bump_lsn w)). rec_lsn x \<le> rec_lsn r"
    "log_inv (log_control T b w) (R @ [r])" "next_lsn (log_control T b w) = next_lsn w + 1"
proof -
  note l = log_invD [OF inv]
  show g: "good_record r" unfolding r_def using b l(8) T by (intro new_record_good) auto
  show "page_of r = None" using b by (auto simp: r_def page_of_def redo_write.simps)
  show rf: "rec_lsn r = next_lsn w" "rec_txn_id r = T" by (simp_all add: r_def)
  show "\<not> is_set r" "is_end r \<longleftrightarrow> b \<noteq> ABORT_BEGIN" using b by (auto simp: r_def is_set_def is_end_def)
  show "log_control T b w = push_record r (bump_lsn w)" by (simp add: log_control_def r_def)
  show "crash_safe p (bump_lsn w) base R C" by (rule crash_safe_update [OF safe]) (simp_all add: bump_lsn_def)
  show "\<forall>x\<in>set (unflushed (bump_lsn w)). rec_lsn x \<le> rec_lsn r"
    using unflushed_older [OF safe inv] rf by (simp add: less_imp_le)
  show n: "next_lsn (log_control T b w) = next_lsn w + 1" using room by (simp add: log_control_simps)
  show "log_inv (log_control T b w) (R @ [r])"
    using g rf T n room l(7) by (intro log_inv_snoc [OF inv]) (simp_all add: log_control_simps r_def)
qed

lemma commit_kept:
  assumes inv: "sys_inv p w (Some T) base R C" and c: "wal_commit T w = Inr w'" and room: "next_lsn w + 1 < 2 ^ 32"
  shows "sys_inv p w' None base (R @ [new_record (next_lsn w) T COMMIT []]) (view p)"
    "records w' = records w @ [new_record (next_lsn w) T COMMIT []]" "unflushed w' = []"
    "next_lsn w' = Suc (next_lsn w)" "checkpoint_pending w' = checkpoint_pending w"
    "fsync_results w = [] \<Longrightarrow> fsync_results w' = []"
proof -
  note s = sys_invD [OF inv]
  define r where "r = new_record (next_lsn w) T COMMIT []"
  define w1 where "w1 = log_control T COMMIT w"
  have live: "live_inv w R T" using s(4) by simp
  then have T: "T \<le> next_lsn w" by (simp add: live_inv_def)
  note k = control_kept [OF s(1,2) room T, of COMMIT, folded r_def w1_def]
  obtain w2 where w2: "wal_flush w1 = Inr w2" "w' = w2\<lparr>active_transactions := active_transactions w2 - 1\<rparr>"
    using c by (auto simp: wal_commit_def w1_def bindR_Inr)
  obtain L stale where L: "R = L @ unflushed w" "db_inv p (bump_lsn w) base L stale (length R)"
    using k(8) unfolding crash_safe_def by auto
  have u: "unflushed w1 = unflushed w @ [r]"
    using wal_okD(2) [OF db_invD(2) [OF L(2)]] by (simp add: k(7))
  have R1: "L @ unflushed w1 = R @ [r]" using L(1) u by simp
  have "db_inv p w1 base L stale (Suc (length R))"
    using db_inv_push [OF L(2) k(1,9)] k(2,7) R1 by (intro db_inv_control) simp_all
  then have db: "db_inv p w1 base L stale (length (L @ unflushed w1))" using R1 by simp
  have fl: "flushed w1 w2" using wal_flush_flushed [OF db_invD(2) [OF db] w2(1)] .
  have b: "bracketed None (R @ [r])" using bracketed_end [OF s(3) k(4)] k(6) by simp
  have v: "view p = redo_all (R @ [r]) base"
    using crash_safeD(3) [OF s(1)] redo_no_page [OF k(2)] by simp
  have cs2: "crash_safe p w2 base (R @ [r]) (view p)"
    using crash_safe_flushed [OF db fl] recovered_none [OF b] v R1 by simp
  then have cs: "crash_safe p w' base (R @ [r]) (view p)"
    by (rule crash_safe_update) (simp_all add: w2(2))
  have ls: "log_same w1 w2" using fl by (simp add: flushed_def)
  have li: "log_inv w2 (R @ [r])" by (rule sys_inv_log_same(1) [OF ls]) (use k(10) in simp)
  then have li': "log_inv w' (R @ [r])" by (simp add: log_inv_def w2(2))
  have act: "active_transactions w2 = 1"
    using ls s(5) by (simp add: log_same_def w1_def log_control_simps)
  show "sys_inv p w' None base (R @ [new_record (next_lsn w) T COMMIT []]) (view p)"
    using cs li' b act by (simp add: sys_inv_def r_def [symmetric] w2(2))
  show "records w' = records w @ [new_record (next_lsn w) T COMMIT []]" "next_lsn w' = Suc (next_lsn w)"
    "checkpoint_pending w' = checkpoint_pending w"
    using ls room by (simp_all add: w2(2) log_same_def w1_def log_control_simps)
  show "fsync_results w = [] \<Longrightarrow> fsync_results w' = []"
    using fl by (simp add: flushed_def w2(2) w1_def log_control_def push_record_def bump_lsn_def)
  show "unflushed w' = []" using fl by (simp add: flushed_def w2(2) unflushed_def)
qed

section \<open>Abort\<close>

lemma collect_undo_sets:
  "\<forall>i\<in>set is. rec_txn_id (rs ! i) = T \<longrightarrow> (\<forall>c. rec_body (rs ! i) \<noteq> CLR c) \<Longrightarrow>
   collect_undo T rs is acc = Inr (acc @ filter (\<lambda>i. rec_txn_id (rs ! i) = T \<and> is_set (rs ! i)) is)"
proof (induction "is" arbitrary: acc)
  case (Cons i "is")
  then show ?case by (cases "rec_body (rs ! i)") (auto simp: is_set_def)
qed simp

lemma map_nth_filter:
  "map ((!) rs) (filter (\<lambda>i. P (rs ! i)) [start..<length rs]) = filter P (drop start rs)"
proof -
  have "drop start rs = map ((!) rs) [start..<length rs]"
    by (metis drop_map drop_upt add_0 map_nth)
  then show ?thesis by (simp add: filter_map comp_def)
qed

lemma find_begin_Some:
  "find_begin T rs = Some i \<Longrightarrow> i < length rs \<and> rec_body (rs ! i) = BEGIN"
  by (induction rs arbitrary: i) (auto split: if_splits)

text \<open>The loop that writes and applies the compensations, for changes that recovery would undo too.\<close>

lemma write_clrs_kept:
  assumes "crash_safe p w base R C" "log_inv w R" "next_lsn w + length is < 2 ^ 32"
    "\<forall>i\<in>set is. i < length (records w) \<and> records w ! i \<in> set (losers R)"
    "write_clrs is (p, w) = Inr (p', w')"
  shows "\<exists>clrs. crash_safe p' w' base (R @ clrs) C \<and> log_inv w' (R @ clrs) \<and>
    view p' = fold write_bytes (map undo_write (map ((!) (records w)) is)) (view p) \<and>
    records w' = records w @ clrs \<and> length clrs = length is \<and> (\<forall>c\<in>set clrs. \<not> is_set c \<and> \<not> is_end c) \<and>
    refcounts p' = refcounts p \<and> active_transactions w' = active_transactions w \<and>
    checkpoint_pending w' = checkpoint_pending w \<and> next_lsn w' = next_lsn w + length is"
  using assms
proof (induction "is" arbitrary: p w R)
  case Nil
  then show ?case by (intro exI [of _ "[]"]) simp
next
  case (Cons i "is")
  note l = log_invD [OF Cons.prems(2)]
  define r where "r = records w ! i"
  have r: "r \<in> set (losers R)" and i: "i < length (records w)" using Cons.prems(4) by (simp_all add: r_def)
  then have rs: "is_set r" "good_record r" "r \<in> set R" using l(1) by (auto simp: losers_def)
  obtain sr where sr: "rec_body r = SET sr" using rs(1) by (auto simp: is_set_def split: wal_body.splits)
  obtain c where c: "create_compensation_record r (next_lsn w) = Inr c" "good_record c"
    "rec_lsn c = next_lsn w" "rec_txn_id c = rec_txn_id r" "redo_write c = undo_write r"
    "rec_body c = CLR \<lparr>clr_undo_lsn = rec_lsn r, clr_loc = set_loc sr, clr_length = set_length sr,
       clr_new_value_len = set_old_value_len sr\<rparr>"
    using compensation_good [OF rs(2) sr l(8)] by metis
  obtain f where f: "page_of c = Some f"
    using sr by (simp add: page_of_def c(5) undo_write.simps)
  have ctl: "\<not> is_end c" "\<not> is_set c" by (simp_all add: is_end_def is_set_def c(6))
  define w1 where "w1 = push_record c (bump_lsn w)"
  obtain p2 w2 where a: "apply_record c (p, w1) = Inr (p2, w2)" and rest: "write_clrs is (p2, w2) = Inr (p', w')"
    using Cons.prems(5) c(1) by (auto simp: r_def [symmetric] w1_def [symmetric] bindR_Inr)
  have s0: "crash_safe p (bump_lsn w) base R C"
    by (rule crash_safe_update [OF Cons.prems(1)]) (simp_all add: bump_lsn_def)
  have young: "\<forall>x\<in>set (unflushed (bump_lsn w)). rec_lsn x \<le> rec_lsn c"
    using unflushed_older [OF Cons.prems(1,2)] c(3) by (simp add: less_imp_le)
  have rec: "recovered (R @ [c]) base = C"
    using recovered_clr [OF ctl r, of base] crash_safeD(4) [OF s0] by (simp add: c(5))
  note cs = crash_safe_apply [OF s0 c(2) young f rec a [unfolded w1_def]]
  have ls: "log_same w1 w2" using cs(2) by (auto simp: flushed_def w1_def)
  have w1: "records w1 = records w @ [c]" "next_lsn w1 = next_lsn w + 1" "next_txn_id w1 = next_txn_id w"
    "active_transactions w1 = active_transactions w" "checkpoint_pending w1 = checkpoint_pending w"
    using Cons.prems(3) by (simp_all add: w1_def push_record_def bump_lsn_def)
  have txn: "rec_txn_id c \<le> next_lsn w" using l(5) [OF rs(3)] c(4) by simp
  have "log_inv w1 (R @ [c])"
    using c(2,3) txn w1 l(7) Cons.prems(3) by (intro log_inv_snoc [OF Cons.prems(2)]) simp_all
  then have li: "log_inv w2 (R @ [c])" by (rule sys_inv_log_same(1) [OF ls])
  have w2: "records w2 = records w @ [c]" "next_lsn w2 = next_lsn w + 1"
    "active_transactions w2 = active_transactions w" "checkpoint_pending w2 = checkpoint_pending w"
    using ls w1 by (simp_all add: log_same_def)
  have "\<forall>i\<in>set is. i < length (records w2) \<and> records w2 ! i \<in> set (losers (R @ [c]))"
    using Cons.prems(4) ctl by (auto simp: w2(1) nth_append losers_snoc)
  then obtain clrs where clrs: "crash_safe p' w' base ((R @ [c]) @ clrs) C" "log_inv w' ((R @ [c]) @ clrs)"
    "view p' = fold write_bytes (map undo_write (map ((!) (records w2)) is)) (view p2)"
    "records w' = records w2 @ clrs" "length clrs = length is" "\<forall>c\<in>set clrs. \<not> is_set c \<and> \<not> is_end c"
    "refcounts p' = refcounts p2" "active_transactions w' = active_transactions w2"
    "checkpoint_pending w' = checkpoint_pending w2" "next_lsn w' = next_lsn w2 + length is"
    using Cons.IH [OF cs(1) li _ _ rest] Cons.prems(3) w2(2) by auto
  have m: "map ((!) (records w2)) is = map ((!) (records w)) is"
    using Cons.prems(4) by (simp add: w2(1) nth_append)
  have "view p2 = write_bytes (undo_write r) (view p)" using cs(3) by (simp add: redo_def c(5))
  then have "view p' = fold write_bytes (map undo_write (map ((!) (records w)) (i # is))) (view p)"
    using clrs(3) unfolding m by (simp add: r_def del: map_map)
  then show ?case
    using clrs w2 ctl cs(4) by (intro exI [of _ "c # clrs"]) (simp del: map_map)
qed

text \<open>\<open>abort\<close> finds just the changes of its transaction.\<close>

lemma abort_collects:
  assumes live: "live_inv w R T"
    and w1: "records w1 = records w @ [r]" and r: "rec_body r = ABORT_BEGIN"
  defines "start \<equiv> (case find_begin T (records w1) of None \<Rightarrow> 0 | Some i \<Rightarrow> Suc i)"
  obtains ixs where "collect_undo T (records w1) [start..<length (records w1)] [] = Inr ixs"
    "map ((!) (records w1)) ixs = losers R" "length ixs \<le> length (records w1)"
    "\<forall>i\<in>set ixs. i < length (records w1)"
proof -
  define P where "P x \<longleftrightarrow> rec_txn_id x = T \<and> is_set x" for x
  define is' where "is' = filter (\<lambda>i. P (records w1 ! i)) [start..<length (records w1)]"
  have mine: "filter (\<lambda>x. rec_txn_id x = T \<and> rec_body x \<noteq> BEGIN) (records w) = losers R"
    using live by (simp add: live_inv_def)
  have set_of_T: "is_set x" if "x \<in> set (records w)" "rec_txn_id x = T" "rec_body x \<noteq> BEGIN" for x
  proof -
    have "x \<in> set (losers R)" using that by (simp flip: mine)
    then show ?thesis by (simp add: losers_def)
  qed
  have nb: "is_set x \<Longrightarrow> rec_body x \<noteq> BEGIN" for x by (auto simp: is_set_def)
  have nr: "\<not> is_set r" by (simp add: is_set_def r)
  have "collect_undo T (records w1) [start..<length (records w1)] [] = Inr is'"
  proof -
    have "rec_body (records w1 ! i) \<noteq> CLR c" if "i < length (records w1)" "rec_txn_id (records w1 ! i) = T" for i c
    proof
      assume clr: "rec_body (records w1 ! i) = CLR c"
      have "records w1 ! i \<in> set (records w1)" using that(1) by simp
      moreover have "records w1 ! i \<noteq> r" using clr r by auto
      ultimately have "is_set (records w1 ! i)" using clr that(2) by (intro set_of_T) (auto simp: w1)
      then show False using clr by (simp add: is_set_def)
    qed
    then show ?thesis by (subst collect_undo_sets) (auto simp: is'_def P_def)
  qed
  moreover have "map ((!) (records w1)) is' = losers R"
  proof -
    obtain X Y where XY: "records w = X @ Y" "\<forall>r\<in>set Y. rec_body r \<noteq> BEGIN"
      "\<forall>r\<in>set X. rec_txn_id r = T \<longrightarrow> rec_body r = BEGIN"
      using live unfolding live_inv_def by blast
    have "start \<le> length X"
    proof (cases "find_begin T (records w1)")
      case (Some i)
      then have i: "i < length (records w1)" "rec_body (records w1 ! i) = BEGIN" using find_begin_Some by blast+
      have "i < length X"
      proof (rule ccontr)
        assume "\<not> i < length X"
        then have "records w1 ! i \<in> set (Y @ [r])" using i(1) by (auto simp: w1 XY(1) nth_append)
        then show False using i(2) XY(2) r by auto
      qed
      then show ?thesis by (simp add: start_def Some)
    qed (simp add: start_def)
    then have "take start (records w1) = take start X" by (simp add: w1 XY(1))
    then have "filter P (take start (records w1)) = []"
      using XY(3) nb by (auto simp: filter_empty_conv P_def dest: in_set_takeD)
    moreover have "filter P (records w1) = filter P (take start (records w1)) @ filter P (drop start (records w1))"
      by (metis append_take_drop_id filter_append)
    moreover have "filter P (records w1) = losers R"
    proof -
      have "filter P (records w) = filter (\<lambda>x. rec_txn_id x = T \<and> rec_body x \<noteq> BEGIN) (records w)"
        using set_of_T nb by (intro filter_cong) (auto simp: P_def)
      then show ?thesis using mine nr by (simp add: w1 P_def)
    qed
    ultimately show ?thesis using map_nth_filter [of "records w1" P start] by (simp add: is'_def)
  qed
  moreover have "length is' \<le> length (records w1)" unfolding is'_def
    by (rule order_trans [OF length_filter_le]) simp
  moreover have "\<forall>i\<in>set is'. i < length (records w1)" by (auto simp: is'_def)
  ultimately show thesis using that by blast
qed

lemma abort_kept:
  assumes inv: "sys_inv p w (Some T) base R C" and a: "wal_abort T (p, w) = Inr (p', w')"
    and room: "next_lsn w + length (records w) + 3 < 2 ^ 32"
  shows "\<exists>S. sys_inv p' w' None base (R @ S) C" "view p' = C" "refcounts p' = refcounts p"
proof -
  note s = sys_invD [OF inv]
  have live: "live_inv w R T" using s(4) by simp
  then have T: "T \<le> next_lsn w" "T \<notin> finished_txns R" by (simp_all add: live_inv_def)
  define r where "r = new_record (next_lsn w) T ABORT_BEGIN []"
  define w1 where "w1 = log_control T ABORT_BEGIN w"
  have "next_lsn w + 1 < 2 ^ 32" using room by simp
  note k = control_kept [OF s(1,2) this T(1), of ABORT_BEGIN, folded r_def w1_def]
  have ne: "\<not> is_end r" using k(6) by simp
  have cs1: "crash_safe p w1 base (R @ [r]) C"
    unfolding k(7) [OF disjI1 [OF refl]]
    using k(1-9) ne recovered_control [OF ne _ k(5), of R base] crash_safeD(4) [OF s(1)]
    by (intro crash_safe_control) (simp_all add: page_of_def)
  have w1: "records w1 = records w @ [r]" "next_lsn w1 = next_lsn w + 1"
    "active_transactions w1 = active_transactions w"
    using room by (simp_all add: w1_def log_control_simps r_def)
  have lo: "losers (R @ [r]) = losers R" using ne k(5) by (simp add: losers_snoc)
  define start where "start = (case find_begin T (records w1) of None \<Rightarrow> 0 | Some i \<Rightarrow> Suc i)"
  obtain is' where is': "collect_undo T (records w1) [start..<length (records w1)] [] = Inr is'"
    "map ((!) (records w1)) is' = losers R" "length is' \<le> length (records w1)" "\<forall>i\<in>set is'. i < length (records w1)"
    using abort_collects [OF live w1(1), folded start_def] by (auto simp: r_def)
  note sets = is'(2) and len = is'(3)
  obtain p2 w2 where cl: "write_clrs (rev is') (p, w1) = Inr (p2, w2)"
    and w': "p' = p2" "w' = (log_control T ABORT_END w2)\<lparr>active_transactions := active_transactions w2 - 1\<rparr>"
    using a is'(1) by (auto simp: wal_abort_def Let_def w1_def [symmetric] start_def [symmetric] bindR_Inr)
  have ix: "\<forall>i\<in>set (rev is'). i < length (records w1) \<and> records w1 ! i \<in> set (losers (R @ [r]))"
    unfolding lo sets [symmetric] using is'(4) by auto
  have "length is' \<le> length (records w1)" by (rule len)
  then have "next_lsn w1 + length (rev is') < 2 ^ 32" using room w1 by simp
  then obtain clrs where clrs: "crash_safe p2 w2 base ((R @ [r]) @ clrs) C" "log_inv w2 ((R @ [r]) @ clrs)"
    "view p2 = fold write_bytes (map undo_write (map ((!) (records w1)) (rev is'))) (view p)"
    "\<forall>c\<in>set clrs. \<not> is_set c \<and> \<not> is_end c" "refcounts p2 = refcounts p"
    "active_transactions w2 = active_transactions w1" "next_lsn w2 = next_lsn w1 + length (rev is')"
    using write_clrs_kept [OF cs1 _ _ ix cl] k(10) by auto
  have v: "view p2 = C"
  proof -
    have "view p2 = undo_all (losers R) (view p)"
      using clrs(3) by (simp add: undo_all_def sets [symmetric] rev_map del: map_map)
    then show ?thesis using crash_safeD(3,4) [OF s(1)] by (simp add: recovered_def)
  qed
  then show "view p' = C" "refcounts p' = refcounts p" using w'(1) clrs(5) by simp_all
  define R2 where "R2 = (R @ [r]) @ clrs"
  have T2: "T \<le> next_lsn w2" and room2: "next_lsn w2 + 1 < 2 ^ 32"
    using T(1) clrs(7) w1 len room by simp_all
  define e where "e = new_record (next_lsn w2) T ABORT_END []"
  note k2 = control_kept [OF clrs(1,2) room2 T2, of ABORT_END, folded R2_def e_def]
  have "bracketed (Some T) R2"
    unfolding R2_def using bracketed_others [OF bracketed_other [OF s(3) k(5)]] clrs(4) by blast
  then have b: "bracketed None (R2 @ [e])" using bracketed_end k2(4,6) by simp
  have "redo_all (R2 @ [e]) base = C"
    using crash_safeD(3) [OF clrs(1), folded R2_def] v redo_no_page [of e] k2(2) by simp
  then have "recovered (R2 @ [e]) base = C" using recovered_none [OF b] by simp
  then have cs: "crash_safe p2 (log_control T ABORT_END w2) base (R2 @ [e]) C"
    using crash_safe_control [OF k2(8) k2(1,9,2)] k2(7) by simp
  have "crash_safe p' w' base (R2 @ [e]) C"
    unfolding w' by (rule crash_safe_update [OF cs]) simp_all
  moreover have "log_inv w' (R2 @ [e])" using k2(10) by (simp add: w'(2) log_inv_def)
  moreover have "active_transactions w' = 0" using clrs(6) w1(3) s(5) by (simp add: w'(2))
  ultimately have "sys_inv p' w' None base (R @ ([r] @ clrs @ [e])) C"
    using b by (simp add: sys_inv_def R2_def)
  then show "\<exists>S. sys_inv p' w' None base (R @ S) C" by blast
qed

section \<open>Checkpoint\<close>

text \<open>Everything is in the data file, the log file is emptied; records not yet flushed stay in
  memory, but the transactions they belong to are over.\<close>

lemma crash_safe_checkpoint:
  assumes inv: "pool_inv p" and v: "redo_all (unflushed w) (view p) = view p"
    and b: "bracketed None (unflushed w)" and ok: "wal_ok w"
    and w': "records w' = records w" "wal_fd w' = []" "wal_disk w' = []" "log_pos w' = 0"
      "unflushed_record_index w' = unflushed_record_index w"
  shows "crash_safe (flush_all p) w' (view p) (unflushed w) (view p)"
proof -
  have u: "unflushed w' = unflushed w" by (simp add: unflushed_def w')
  have "wal_ok w'" using ok unfolding wal_ok_def u by (simp add: w')
  then have "db_inv (flush_all p) w' (view p) [] (length (unflushed w)) (length (unflushed w))"
    using flush_all_pending [OF inv] v w' by (simp add: db_inv_def u log_holds_def)
  moreover have "recovered (unflushed w) (view p) = view p" using recovered_none [OF b] v by simp
  ultimately show ?thesis
    unfolding crash_safe_def using u by (intro exI [of _ "[]"] exI [of _ "length (unflushed w)"]) simp
qed

lemma checkpoint_kept:
  assumes inv: "sys_inv p w live base R C" and c: "checkpoint_finish (p, w) = Some (Inr (p', w'))"
  shows "live = None" "sys_inv p' w' None (view p) (unflushed w) C" "view p' = view p"
    "refcounts p' = refcounts p" "wal_fd w' = []" "unflushed w' = unflushed w"
    "file_page (fd p') = view p" "records w' = records w" "next_lsn w' = next_lsn w"
proof -
  note s = sys_invD [OF inv]
  show l: "live = None" using c s(5) by (auto simp: checkpoint_finish_def split: if_splits)
  have pinv: "pool_inv p" and ok: "wal_ok w" using crash_safeD(1,2) [OF s(1)] by blast+
  have C: "view p = C" using view_committed inv l by simp
  obtain w1 where w1: "sync_log (w\<lparr>wal_fd := [], log_pos := 0\<rparr>) = Inr w1"
    and p': "p' = flush_all p" and w': "w' = w1\<lparr>checkpoint_pending := False\<rparr>"
    using c by (auto simp: checkpoint_finish_def Let_def bindR_Inr split: if_splits)
  obtain results where r: "w1 = (w\<lparr>wal_fd := [], log_pos := 0\<rparr>)\<lparr>fsync_results := results, wal_disk := []\<rparr>"
    using sync_log_Inr [OF w1] by auto
  have f: "records w' = records w" "wal_fd w' = []" "wal_disk w' = []" "log_pos w' = 0"
    "unflushed_record_index w' = unflushed_record_index w" "next_lsn w' = next_lsn w"
    "next_txn_id w' = next_txn_id w" "active_transactions w' = active_transactions w"
    by (simp_all add: w' r)
  then show "wal_fd w' = []" "unflushed w' = unflushed w" "records w' = records w" "next_lsn w' = next_lsn w"
    by (simp_all add: unflushed_def)
  note fa = flush_all_pending [OF pinv]
  show "view p' = view p" "file_page (fd p') = view p" using fa by (simp_all add: p')
  show "refcounts p' = refcounts p"
    using fa(5) pool_invD(2) [OF fa(1)] pool_invD(2) [OF pinv]
    by (intro nth_equalityI) (simp_all add: p' refcounts_def fa(6))
  obtain L where L: "R = L @ unflushed w" using s(1) by (auto simp: crash_safe_def)
  have b: "bracketed None (unflushed w)" using bracketed_suffix s(3) l L by simp
  have "redo_all (unflushed w) (view p) = view p"
    using redo_all_suffix [of "unflushed w" L base] crash_safeD(3) [OF s(1)] L by simp
  then have cs: "crash_safe p' w' (view p) (unflushed w) C"
    using crash_safe_checkpoint [OF pinv _ b ok f(1-5)] C p' by simp
  have li: "log_inv w' (unflushed w)"
  proof -
    have "rec_lsn (hd (unflushed w)) \<le> rec_lsn x" if "x \<in> set (unflushed w)" for x
      using wal_okD(6) [OF ok that] .
    moreover have "length (unflushed w) \<le> length (records w)" by (simp add: unflushed_def)
    moreover have "set (unflushed w) \<subseteq> set (records w)" by (simp add: unflushed_def set_drop_subset)
    ultimately show ?thesis using s(2) by (auto simp: log_inv_def f)
  qed
  show "sys_inv p' w' None (view p) (unflushed w) C"
    using cs li b s(5) l by (simp add: sys_inv_def f)
qed

section \<open>Reading\<close>

lemma pin_kept:
  assumes inv: "sys_inv p w live base R C" and ret: "retain (Some flush_up_to) f advise (p, w) = Inr (i, p', w')"
  shows "sys_inv p' w' live base R C" "view p' = view p" "pages p' ! i = view p f"
    "records w' = records w" "next_lsn w' = next_lsn w"
proof -
  note s = sys_invD [OF inv]
  note step = retain_pool_step [OF crash_safeD(1) [OF s(1)] ret]
  note c = crash_safe_pool_step [OF s(1) step]
  have ls: "log_same w w'" by (rule flushed_log_same [OF c(2)])
  then show "records w' = records w" "next_lsn w' = next_lsn w" by (simp_all add: log_same_def)
  show "sys_inv p' w' live base R C"
    using c(1) s ls sys_inv_log_same [OF ls] by (simp add: sys_inv_def) (simp add: log_same_def)
  have r: "retained f advise p i p'" using retain_retained [OF crash_safeD(1) [OF s(1)] ret] by blast
  show "view p' = view p" "pages p' ! i = view p f" using retainedD [OF r] by blast+
qed

lemma unpin_kept:
  assumes inv: "sys_inv p w live base R C" and i: "i < next_pool_index p" "0 < refcount (metadata p ! i)"
    and r: "release i p = Inr p'"
  shows "sys_inv p' w live base R C" "view p' = view p"
proof -
  note s = sys_invD [OF inv]
  have pinv: "pool_inv p" by (rule crash_safeD(1) [OF s(1)])
  obtain q where "release i p = Inr q" "pool_inv q" "view q = view p" "fd q = fd p"
    using release_ok [OF pinv i] by metis
  then have q: "pool_inv p'" "view p' = view p" "fd p' = fd p" using r by simp_all
  then show "view p' = view p" by simp
  have "crash_safe p' w base R C" by (rule crash_safe_pool [OF s(1) q release_pending [OF pinv i r]])
  then show "sys_inv p' w live base R C" using s by (simp add: sys_inv_def)
qed

end
