(* ===== verification/Recovery.thy ===== *)
theory Recovery
  imports Prelude Wal_Record Redo Buffer_Pool Wal Durability Transactions
begin

text \<open>
  \<open>WAL::recover\<close> and the constructor of \<open>WAL\<close>: what happens when a database is opened whose log
  file is there.  The lemmas show that recovery returns, that it brings the pages to the state
  that undoes the unfinished transactions of the log, and that the state after opening satisfies
  the invariant of normal operation again.
\<close>

section \<open>The code\<close>

text \<open>The first pass: replay the log, and continue the LSNs and transaction ids after those in it.
  (The set of reverted LSNs the code builds here is never used.)\<close>

fun recover_redo :: "InMemoryWALRecord list \<Rightarrow> BufferPool \<times> WAL \<Rightarrow> (BufferPool \<times> WAL) result" where
  "recover_redo [] s = Inr s"
| "recover_redo (r # rs) s =
     bindR (apply_record r s) (\<lambda>(p, w).
       recover_redo rs (p, w\<lparr>next_lsn := max (next_lsn w) ((rec_lsn r + 1) mod 2 ^ 32),
         next_txn_id := max (next_txn_id w) ((rec_txn_id r + 1) mod 2 ^ 32)\<rparr>))"

text \<open>The records that end the aborted transactions, in the order in which the code's unordered set
  of their ids is traversed.\<close>

fun abort_ends :: "nat list \<Rightarrow> WAL \<Rightarrow> WAL" where
  "abort_ends [] w = w"
| "abort_ends (txn # txns) w = abort_ends txns (log_control txn ABORT_END w)"

definition to_undo_indices :: "InMemoryWALRecord list \<Rightarrow> nat list" where
  "to_undo_indices rs =
     filter (\<lambda>i. rec_txn_id (rs ! i) \<notin> finished_txns rs \<and> is_set (rs ! i)) [0..<length rs]"

definition aborted_txns :: "InMemoryWALRecord list \<Rightarrow> nat list" where
  "aborted_txns rs = map rec_txn_id (filter (\<lambda>r. rec_txn_id r \<notin> finished_txns rs) rs)"

text \<open>\<open>traverse\<close> is the order in which a set into which the elements of the list were inserted is
  traversed.\<close>

definition recover :: "(nat list \<Rightarrow> nat list) \<Rightarrow> BufferPool \<times> WAL \<Rightarrow> (BufferPool \<times> WAL) result" where
  "recover traverse = (\<lambda>(p, w).
     let (rs, pos) = load_log (wal_fd w) 0;
         w = w\<lparr>records := rs, log_pos := pos\<rparr> in
     bindR (recover_redo rs (p, w)) (\<lambda>(p, w).
     bindR (write_clrs (rev (to_undo_indices rs)) (p, w)) (\<lambda>(p, w).
       Inr (p, abort_ends (traverse (aborted_txns rs)) w))))"

text \<open>The constructor: if the log file could not be created because it exists, recover and make a
  checkpoint.\<close>

definition WAL_open :: "(nat list \<Rightarrow> nat list) \<Rightarrow> byte list option \<Rightarrow> bool list \<Rightarrow> BufferPool \<Rightarrow>
    (BufferPool \<times> WAL) result option" where
  "WAL_open traverse existing syncs p =
     (case existing of
        None \<Rightarrow> Some (Inr (p, WAL_init [] syncs))
      | Some content \<Rightarrow>
          (case recover traverse (p, WAL_init content syncs) of
             Inl e \<Rightarrow> Some (Inl e)
           | Inr s \<Rightarrow> checkpoint_internal s))"

text \<open>What the code relies on of the traversal of a set: each element exactly once.\<close>

definition traverses :: "(nat list \<Rightarrow> nat list) \<Rightarrow> bool" where
  "traverses traverse \<longleftrightarrow> (\<forall>xs. set (traverse xs) = set xs \<and> distinct (traverse xs))"

lemma traverses_remdups: "traverses remdups"
  by (simp add: traverses_def)

section \<open>Recovery returns\<close>

text \<open>The pool and the log can be worked on: syncing succeeds, some slot is free to take a page.\<close>

definition workable :: "BufferPool \<Rightarrow> WAL \<Rightarrow> bool" where
  "workable p w \<longleftrightarrow> pool_inv p \<and> wal_ok w \<and> fsync_results w = [] \<and> 0 \<in> set (refcounts p)"

lemma workable_room: "workable p w \<Longrightarrow> has_room p f"
  by (simp add: workable_def has_room_def)

lemma apply_workable:
  assumes wk: "workable p w" and r: "good_record r"
  obtains p' w' where "apply_record r (p, w) = Inr (p', w')" "workable p' w'" "view p' = redo r (view p)"
    "log_same w w'" "refcounts p' = refcounts p" "pool_size p' = pool_size p"
proof -
  have d: "pool_inv p" "wal_ok w" "fsync_results w = []" "0 \<in> set (refcounts p)"
    using wk by (simp_all add: workable_def)
  obtain p' w' where a: "apply_record r (p, w) = Inr (p', w')"
    using apply_record_returns [OF d(1) r d(2,3)] workable_room [OF wk] by metis
  have ap: "applied r p w p' w'" by (rule apply_record_applied [OF d(1) r a])
  have w': "wal_ok w' \<and> log_same w w' \<and> fsync_results w' = [] \<and> pool_size p' = pool_size p"
  proof (cases "page_of r")
    case None
    then show ?thesis using ap d by (simp add: applied_def page_of_def)
  next
    case (Some f)
    obtain p1 where p1: "pool_step p w p1 w'" "marks_page f (rec_lsn r) p1 p'"
      using applied_page [OF ap Some] by metis
    then show ?thesis using pool_step_log [OF p1(1) d(2)] d(3) by (simp add: marks_page_def pool_step_def)
  qed
  show thesis
    using a ap w' d(4) by (intro that [of p' w']) (simp_all add: applied_def workable_def)
qed

lemma workable_update:
  "workable p w \<Longrightarrow> workable p (w\<lparr>next_lsn := l, next_txn_id := t\<rparr>)"
  by (auto simp: workable_def wal_ok_def unflushed_def)

lemma workable_push:
  "workable p w \<Longrightarrow> good_record r \<Longrightarrow> \<forall>x\<in>set (unflushed w). rec_lsn x \<le> rec_lsn r \<Longrightarrow>
   workable p (push_record r w)"
  using wal_ok_push [of w r] by (simp add: workable_def) (simp add: push_record_def)

text \<open>Bounds on the LSNs and ids of a list of records, and on the counters of the log.\<close>

definition below :: "nat \<Rightarrow> InMemoryWALRecord list \<Rightarrow> bool" where
  "below n rs \<longleftrightarrow> (\<forall>r\<in>set rs. good_record r \<and> rec_lsn r < n \<and> rec_txn_id r \<le> rec_lsn r)"

lemma recover_redo_returns:
  assumes "workable p w" "below n rs" "n < 2 ^ 32" "next_lsn w \<le> n" "next_txn_id w \<le> next_lsn w"
  shows "\<exists>p' w'. recover_redo rs (p, w) = Inr (p', w') \<and> workable p' w' \<and> view p' = redo_all rs (view p) \<and>
    records w' = records w \<and> refcounts p' = refcounts p \<and> pool_size p' = pool_size p \<and>
    next_lsn w \<le> next_lsn w' \<and> next_lsn w' \<le> n \<and>
    next_txn_id w' \<le> next_lsn w' \<and> below (next_lsn w') rs \<and>
    active_transactions w' = active_transactions w \<and> unflushed_record_index w \<le> length (records w')"
  using assms
proof (induction rs arbitrary: p w)
  case Nil
  then show ?case by (auto simp: below_def workable_def wal_ok_def)
next
  case (Cons r rs)
  have r: "good_record r" "rec_lsn r < n" "rec_txn_id r \<le> rec_lsn r" and rs: "below n rs"
    using Cons.prems(2) by (simp_all add: below_def)
  obtain p1 w1 where 1: "apply_record r (p, w) = Inr (p1, w1)" "workable p1 w1" "view p1 = redo r (view p)"
    "log_same w w1" "refcounts p1 = refcounts p" "pool_size p1 = pool_size p"
    using apply_workable [OF Cons.prems(1) r(1)] by metis
  define w2 where "w2 = w1\<lparr>next_lsn := max (next_lsn w1) (rec_lsn r + 1),
    next_txn_id := max (next_txn_id w1) (rec_txn_id r + 1)\<rparr>"
  have wk2: "workable p1 w2" unfolding w2_def by (rule workable_update [OF 1(2)])
  have n2: "next_lsn w2 \<le> n" "next_txn_id w2 \<le> next_lsn w2" "next_lsn w \<le> next_lsn w2" "rec_lsn r < next_lsn w2"
    using 1(4) Cons.prems(4,5) r(2,3) by (auto simp: w2_def log_same_def)
  obtain p' w' where p': "recover_redo rs (p1, w2) = Inr (p', w')" "workable p' w'"
    "view p' = redo_all rs (view p1)" "records w' = records w2" "refcounts p' = refcounts p1"
    "pool_size p' = pool_size p1" "next_lsn w2 \<le> next_lsn w'" "next_lsn w' \<le> n" "next_txn_id w' \<le> next_lsn w'"
    "below (next_lsn w') rs" "active_transactions w' = active_transactions w2"
    using Cons.IH [OF wk2 rs Cons.prems(3) n2(1,2)] by blast
  have m: "(rec_lsn r + 1) mod 2 ^ 32 = rec_lsn r + 1" "(rec_txn_id r + 1) mod 2 ^ 32 = rec_txn_id r + 1"
    using r(2,3) Cons.prems(3) by simp_all
  have "recover_redo (r # rs) (p, w) = Inr (p', w')"
    using p'(1) unfolding w2_def by (simp only: recover_redo.simps 1(1) bindR_simps prod.case m)
  moreover have "below (next_lsn w') (r # rs)" using p'(7,10) n2(4) r by (auto simp: below_def)
  moreover have "unflushed_record_index w \<le> length (records w)"
    using Cons.prems(1) by (simp add: workable_def wal_ok_def)
  ultimately show ?case
    using p' 1 n2 by (intro exI [of _ p'] exI [of _ w']) (simp add: w2_def log_same_def)
qed

text \<open>The loop of compensations returns, in recovery as in \<open>abort\<close>.\<close>

lemma write_clrs_returns:
  assumes "workable p w" "below (next_lsn w) (records w)" "next_lsn w + length is < 2 ^ 32"
    "\<forall>i\<in>set is. i < length (records w) \<and> is_set (records w ! i)" "next_txn_id w \<le> next_lsn w"
  shows "\<exists>p' w' clrs. write_clrs is (p, w) = Inr (p', w') \<and> workable p' w' \<and> records w' = records w @ clrs \<and>
    view p' = redo_all clrs (view p) \<and> map redo_write clrs = map undo_write (map ((!) (records w)) is) \<and>
    length clrs = length is \<and> (\<forall>c\<in>set clrs. \<not> is_set c \<and> \<not> is_end c \<and> next_lsn w \<le> rec_lsn c) \<and>
    below (next_lsn w') (records w') \<and> next_lsn w' = next_lsn w + length is \<and> next_txn_id w' \<le> next_lsn w' \<and>
    refcounts p' = refcounts p \<and> pool_size p' = pool_size p \<and> active_transactions w' = active_transactions w"
  using assms
proof (induction "is" arbitrary: p w)
  case Nil
  then show ?case by (intro exI [of _ p] exI [of _ w] exI [of _ "[]"]) simp
next
  case (Cons i "is")
  define r where "r = records w ! i"
  have i: "i < length (records w)" "is_set r" using Cons.prems(4) by (simp_all add: r_def)
  then have "r \<in> set (records w)" by (simp add: r_def)
  then have r: "good_record r" "rec_lsn r < next_lsn w" "rec_txn_id r \<le> rec_lsn r"
    using Cons.prems(2) by (simp_all add: below_def)
  obtain sr where sr: "rec_body r = SET sr" using i(2) by (auto simp: is_set_def split: wal_body.splits)
  have n32: "next_lsn w < 2 ^ 32" using Cons.prems(3) by simp
  obtain c where c: "create_compensation_record r (next_lsn w) = Inr c" "good_record c"
    "rec_lsn c = next_lsn w" "rec_txn_id c = rec_txn_id r" "redo_write c = undo_write r"
    "rec_body c = CLR \<lparr>clr_undo_lsn = rec_lsn r, clr_loc = set_loc sr, clr_length = set_length sr,
       clr_new_value_len = set_old_value_len sr\<rparr>"
    using compensation_good [OF r(1) sr n32] by metis
  have ctl: "\<not> is_end c" "\<not> is_set c" by (simp_all add: is_end_def is_set_def c(6))
  define w1 where "w1 = push_record c (bump_lsn w)"
  have w1: "records w1 = records w @ [c]" "next_lsn w1 = next_lsn w + 1" "next_txn_id w1 = next_txn_id w"
    "active_transactions w1 = active_transactions w"
    using Cons.prems(3) by (simp_all add: w1_def push_record_def bump_lsn_def)
  have "workable p (bump_lsn w)"
    using Cons.prems(1) by (auto simp: workable_def wal_ok_def unflushed_def bump_lsn_def)
  moreover have "\<forall>x\<in>set (unflushed (bump_lsn w)). rec_lsn x \<le> rec_lsn c"
  proof
    fix x assume "x \<in> set (unflushed (bump_lsn w))"
    then have "x \<in> set (records w)" using set_drop_subset by (auto simp: unflushed_def bump_lsn_def dest: in_set_dropD)
    then show "rec_lsn x \<le> rec_lsn c" using Cons.prems(2) c(3) by (simp add: below_def less_imp_le)
  qed
  ultimately have wk1: "workable p w1" unfolding w1_def by (rule workable_push [OF _ c(2)])
  obtain p2 w2 where 2: "apply_record c (p, w1) = Inr (p2, w2)" "workable p2 w2" "view p2 = redo c (view p)"
    "log_same w1 w2" "refcounts p2 = refcounts p" "pool_size p2 = pool_size p"
    using apply_workable [OF wk1 c(2)] by metis
  have w2: "records w2 = records w @ [c]" "next_lsn w2 = next_lsn w + 1" "next_txn_id w2 = next_txn_id w"
    "active_transactions w2 = active_transactions w"
    using 2(4) w1 by (simp_all add: log_same_def)
  have below2: "below (next_lsn w2) (records w2)"
    using Cons.prems(2) c r by (auto simp: w2 below_def less_Suc_eq)
  have is2: "\<forall>i\<in>set is. i < length (records w2) \<and> is_set (records w2 ! i)"
    using Cons.prems(4) by (simp add: w2(1) nth_append less_SucI)
  obtain p' w' clrs where r: "write_clrs is (p2, w2) = Inr (p', w')" "workable p' w'"
    "records w' = records w2 @ clrs" "view p' = redo_all clrs (view p2)"
    "map redo_write clrs = map undo_write (map ((!) (records w2)) is)" "length clrs = length is"
    "\<forall>c\<in>set clrs. \<not> is_set c \<and> \<not> is_end c \<and> next_lsn w2 \<le> rec_lsn c"
    "below (next_lsn w') (records w')" "next_lsn w' = next_lsn w2 + length is" "next_txn_id w' \<le> next_lsn w'"
    "refcounts p' = refcounts p2" "pool_size p' = pool_size p2" "active_transactions w' = active_transactions w2"
    using Cons.IH [OF 2(2) below2 _ is2] Cons.prems(3,5) w2(2,3) by auto
  have m: "map ((!) (records w2)) is = map ((!) (records w)) is"
    using Cons.prems(4) by (simp add: w2(1) nth_append)
  have "write_clrs (i # is) (p, w) = Inr (p', w')"
    using c(1) 2(1) r(1) by (simp add: r_def [symmetric] w1_def [symmetric])
  moreover have "map redo_write (c # clrs) = map undo_write (map ((!) (records w)) (i # is))"
    using r(5) c(5) unfolding m by (simp add: r_def)
  ultimately show ?case
    using r(2-4,6-13) w2 ctl 2(3,5,6) c(3)
    by (intro exI [of _ p'] exI [of _ w'] exI [of _ "c # clrs"]) (auto simp del: map_map)
qed

lemma abort_ends_ok:
  assumes "workable p w" "below (next_lsn w) (records w)" "next_lsn w + length txns < 2 ^ 32"
    "\<forall>t\<in>set txns. t < next_lsn w" "next_txn_id w \<le> next_lsn w"
  shows "\<exists>ends. records (abort_ends txns w) = records w @ ends \<and> workable p (abort_ends txns w) \<and>
    below (next_lsn (abort_ends txns w)) (records (abort_ends txns w)) \<and>
    finished_txns ends = set txns \<and> (\<forall>e\<in>set ends. \<not> is_set e \<and> redo_write e = None \<and> next_lsn w \<le> rec_lsn e) \<and>
    next_lsn (abort_ends txns w) = next_lsn w + length txns \<and>
    next_txn_id (abort_ends txns w) \<le> next_lsn (abort_ends txns w) \<and>
    active_transactions (abort_ends txns w) = active_transactions w"
  using assms
proof (induction txns arbitrary: w)
  case Nil
  then show ?case by (intro exI [of _ "[]"]) simp
next
  case (Cons t txns)
  define e where "e = new_record (next_lsn w) t ABORT_END []"
  define w1 where "w1 = log_control t ABORT_END w"
  have t: "t < next_lsn w" using Cons.prems(4) by simp
  have e: "good_record e" unfolding e_def using Cons.prems(3) t by (intro new_record_good) simp_all
  have ef: "rec_lsn e = next_lsn w" "rec_txn_id e = t" "\<not> is_set e" "is_end e" "redo_write e = None"
    by (simp_all add: e_def is_set_def is_end_def redo_write.simps)
  have w1: "records w1 = records w @ [e]" "next_lsn w1 = next_lsn w + 1" "next_txn_id w1 = next_txn_id w"
    "active_transactions w1 = active_transactions w" "w1 = push_record e (bump_lsn w)"
    using Cons.prems(3) by (simp_all add: w1_def e_def log_control_simps) (simp add: log_control_def)
  have "workable p (bump_lsn w)"
    using Cons.prems(1) by (auto simp: workable_def wal_ok_def unflushed_def bump_lsn_def)
  moreover have "\<forall>x\<in>set (unflushed (bump_lsn w)). rec_lsn x \<le> rec_lsn e"
  proof
    fix x assume "x \<in> set (unflushed (bump_lsn w))"
    then have "x \<in> set (records w)" by (auto simp: unflushed_def bump_lsn_def dest: in_set_dropD)
    then show "rec_lsn x \<le> rec_lsn e" using Cons.prems(2) ef(1) by (simp add: below_def less_imp_le)
  qed
  ultimately have wk: "workable p w1" unfolding w1(5) by (rule workable_push [OF _ e])
  have b1: "below (next_lsn w1) (records w1)"
    using Cons.prems(2) e ef t by (auto simp: w1(1-4) below_def less_Suc_eq)
  obtain ends where ends: "records (abort_ends txns w1) = records w1 @ ends" "workable p (abort_ends txns w1)"
    "below (next_lsn (abort_ends txns w1)) (records (abort_ends txns w1))" "finished_txns ends = set txns"
    "\<forall>e\<in>set ends. \<not> is_set e \<and> redo_write e = None \<and> next_lsn w1 \<le> rec_lsn e"
    "next_lsn (abort_ends txns w1) = next_lsn w1 + length txns"
    "next_txn_id (abort_ends txns w1) \<le> next_lsn (abort_ends txns w1)"
    "active_transactions (abort_ends txns w1) = active_transactions w1"
    using Cons.IH [OF wk b1] Cons.prems(3-5) w1(2,3) by fastforce
  have "abort_ends (t # txns) w = abort_ends txns w1" by (simp add: w1_def)
  then show ?case
    using ends ef by (intro exI [of _ "e # ends"]) (auto simp: w1(1-4))
qed

section \<open>What recovery leads to\<close>

text \<open>A log as a crash leaves it: complete good records, the oldest one first, no writes of a
  transaction after its end; after them nothing, or something the checksum rejects.\<close>

definition good_log :: "nat \<Rightarrow> InMemoryWALRecord list \<Rightarrow> bool" where
  "good_log n L \<longleftrightarrow> below n L \<and> (\<forall>r\<in>set L. rec_lsn (hd L) \<le> rec_lsn r) \<and>
     (\<forall>X r Y. L = X @ r # Y \<longrightarrow> is_set r \<longrightarrow> rec_txn_id r \<notin> finished_txns X)"

lemma bracketed_recovered:
  assumes L: "\<And>X r Y. L = X @ r # Y \<Longrightarrow> is_set r \<Longrightarrow> rec_txn_id r \<notin> finished_txns X"
    and S: "\<forall>s\<in>set S. \<not> is_set s" "\<forall>r\<in>set L. rec_txn_id r \<in> finished_txns L \<union> finished_txns S"
  shows "bracketed None (L @ S)"
proof (rule bracketedI)
  fix X r Y assume split: "L @ S = X @ r # Y" and r: "is_set r"
  have "\<exists>Y1. L = X @ r # Y1 \<and> Y = Y1 @ S"
  proof -
    from split consider (pre) us where "L = X @ us" "us @ S = r # Y" | (post) us where "L @ us = X" "S = us @ r # Y"
      by (auto simp: append_eq_append_conv2)
    then show ?thesis
    proof cases
      case pre
      then show ?thesis using S(1) r by (cases us) auto
    next
      case post
      then show ?thesis using S(1) r by auto
    qed
  qed
  then obtain Y1 where Y1: "L = X @ r # Y1" "Y = Y1 @ S" by blast
  show n: "rec_txn_id r \<notin> finished_txns X" by (rule L [OF Y1(1) r])
  have "\<not> is_end r" using r end_not_set by blast
  then show "rec_txn_id r \<in> finished_txns Y \<or> None = Some (rec_txn_id r)"
    using S(2) n Y1 by auto
qed

lemma map_to_undo: "map ((!) L) (to_undo_indices L) = losers L"
  using map_nth_filter [of L "\<lambda>r. rec_txn_id r \<notin> finished_txns L \<and> is_set r" 0]
  by (simp add: to_undo_indices_def losers_def conj_commute)

lemma redo_all_none: "\<forall>r\<in>set rs. redo_write r = None \<Longrightarrow> redo_all rs v = v"
  by (induction rs arbitrary: v) (simp_all add: redo_def write_bytes_def)

text \<open>What \<open>recover\<close> returns.\<close>

lemma recover_returns:
  assumes good: "good_log n L" and tl: "rejected junk" and n: "n + 2 * length L < 2 ^ 32"
    and p: "pool_inv p" "0 \<in> set (refcounts p)" and tr: "traverses traverse"
  shows "\<exists>p' w' S. recover traverse (p, WAL_init (encode_all L @ junk) []) = Inr (p', w') \<and> workable p' w' \<and>
    records w' = L @ S \<and> view p' = recovered L (view p) \<and> view p' = redo_all (L @ S) (view p) \<and>
    bracketed None (L @ S) \<and> below (next_lsn w') (L @ S) \<and>
    next_txn_id w' \<le> next_lsn w' \<and> next_lsn w' \<le> n + 2 * length L \<and>
    refcounts p' = refcounts p \<and> pool_size p' = pool_size p \<and> active_transactions w' = 0"
proof -
  have L: "below n L" "\<forall>r\<in>set L. rec_lsn (hd L) \<le> rec_lsn r"
    "\<And>X r Y. L = X @ r # Y \<Longrightarrow> is_set r \<Longrightarrow> rec_txn_id r \<notin> finished_txns X"
    using good by (simp_all add: good_log_def)
  have valid: "\<forall>r\<in>set L. valid_record r" using L(1) by (simp add: below_def good_record_def)
  have load: "load_log (encode_all L @ junk) 0 = (L, length (encode_all L))"
    using load_log_encoded [OF valid tl, of "[]"] by simp
  define w0 where "w0 = (WAL_init (encode_all L @ junk) [])\<lparr>records := L, log_pos := length (encode_all L)\<rparr>"
  have w0: "records w0 = L" "next_lsn w0 = 0" "next_txn_id w0 = 0" "active_transactions w0 = 0"
    by (simp_all add: w0_def WAL_init_def)
  have wk0: "workable p w0"
    using L(1,2) p by (simp add: workable_def wal_ok_def w0_def WAL_init_def unflushed_def below_def)
  have n32: "n < 2 ^ 32" using n by simp
  obtain p1 w1 where 1: "recover_redo L (p, w0) = Inr (p1, w1)" "workable p1 w1" "view p1 = redo_all L (view p)"
    "records w1 = L" "refcounts p1 = refcounts p" "pool_size p1 = pool_size p" "next_lsn w1 \<le> n"
    "next_txn_id w1 \<le> next_lsn w1" "below (next_lsn w1) L" "active_transactions w1 = 0"
    using recover_redo_returns [OF wk0 L(1) n32] w0 by auto
  have len: "length (rev (to_undo_indices L)) \<le> length L"
    unfolding to_undo_indices_def by (simp add: order_trans [OF length_filter_le])
  have ix: "\<forall>i\<in>set (rev (to_undo_indices L)). i < length (records w1) \<and> is_set (records w1 ! i)"
    by (auto simp: to_undo_indices_def 1(4))
  obtain p2 w2 clrs where 2: "write_clrs (rev (to_undo_indices L)) (p1, w1) = Inr (p2, w2)" "workable p2 w2"
    "records w2 = L @ clrs" "view p2 = redo_all clrs (view p1)"
    "map redo_write clrs = map undo_write (map ((!) L) (rev (to_undo_indices L)))"
    "\<forall>c\<in>set clrs. \<not> is_set c \<and> \<not> is_end c \<and> next_lsn w1 \<le> rec_lsn c" "below (next_lsn w2) (records w2)"
    "next_lsn w2 = next_lsn w1 + length (rev (to_undo_indices L))" "next_txn_id w2 \<le> next_lsn w2"
    "refcounts p2 = refcounts p1" "pool_size p2 = pool_size p1" "active_transactions w2 = active_transactions w1"
    using write_clrs_returns [OF 1(2) _ _ ix 1(8)] 1(4,7,9) n len by fastforce
  define txns where "txns = traverse (aborted_txns L)"
  have tx: "set txns = set (aborted_txns L)" "distinct txns" using tr by (simp_all add: traverses_def txns_def)
  have "length txns = card (set (aborted_txns L))" using tx distinct_card by metis
  also have "\<dots> \<le> length (aborted_txns L)" by (rule card_length)
  also have "\<dots> \<le> length L" by (simp add: aborted_txns_def)
  finally have lt: "length txns \<le> length L" .
  have small: "\<forall>t\<in>set txns. t < next_lsn w2"
    using 1(9) 2(8) by (auto simp: tx(1) aborted_txns_def below_def intro: le_less_trans trans_less_add1)
  have room: "next_lsn w2 + length txns < 2 ^ 32" using 1(7) 2(8) len lt n by simp
  define w3 where "w3 = abort_ends txns w2"
  obtain ends where 3: "records w3 = records w2 @ ends" "workable p2 w3" "below (next_lsn w3) (records w3)"
    "finished_txns ends = set txns" "\<forall>e\<in>set ends. \<not> is_set e \<and> redo_write e = None \<and> next_lsn w2 \<le> rec_lsn e"
    "next_lsn w3 = next_lsn w2 + length txns" "next_txn_id w3 \<le> next_lsn w3"
    "active_transactions w3 = active_transactions w2"
    using abort_ends_ok [OF 2(2,7) room small 2(9)] unfolding w3_def by blast
  have rec: "recover traverse (p, WAL_init (encode_all L @ junk) []) = Inr (p2, w3)"
  proof -
    have "wal_fd (WAL_init (encode_all L @ junk) []) = encode_all L @ junk" by (simp add: WAL_init_def)
    then show ?thesis
      using load 1(1) 2(1) unfolding recover_def w3_def txns_def w0_def by simp
  qed
  have v: "view p2 = recovered L (view p)"
  proof -
    have "view p2 = fold write_bytes (map undo_write (rev (losers L))) (view p1)"
      using 2(4,5) by (simp only: redo_all_writes rev_map [symmetric] map_to_undo)
    then show ?thesis using 1(3) by (simp add: recovered_def undo_all_def)
  qed
  have v2: "view p2 = redo_all (L @ clrs @ ends) (view p)"
    using 2(4) 1(3) redo_all_none 3(5) by simp
  have "bracketed None (L @ clrs @ ends)"
  proof (rule bracketed_recovered [OF L(3)])
    show "\<forall>s\<in>set (clrs @ ends). \<not> is_set s" using 2(6) 3(5) by auto
    show "\<forall>r\<in>set L. rec_txn_id r \<in> finished_txns L \<union> finished_txns (clrs @ ends)"
      using 3(4) tx(1) by (auto simp: aborted_txns_def)
  qed
  moreover have "next_lsn w3 \<le> n + 2 * length L" using 3(6) 2(8) 1(7) len lt by simp
  ultimately show ?thesis
    using rec 3 2 1 v v2 by (intro exI [of _ p2] exI [of _ w3] exI [of _ "clrs @ ends"]) simp
qed

section \<open>Opening after a crash\<close>

text \<open>What a crash leaves: the data file and the log file; a new pool, a new log object.  Opening
  leads to the committed state, and to the invariant of normal operation.\<close>

lemma crash_image:
  assumes inv: "sys_inv p w live base R C"
  obtains L where "wal_disk w = encode_all L" "good_log (next_lsn w) L" "length L \<le> length (records w)"
    "recovered L (file_page (fd p)) = C"
proof -
  note s = sys_invD [OF inv]
  note l = log_invD [OF s(2)]
  obtain L stale where L: "R = L @ unflushed w" "db_inv p w base L stale (length R)" "recovered L base = C"
    using s(1) unfolding crash_safe_def by blast
  note d = db_invD [OF L(2)]
  have "wal_disk w = encode_all L"
    using d(3,4) wal_okD(1) [OF d(2)] by (simp add: log_holds_def)
  moreover have "good_log (next_lsn w) L"
  proof -
    have "below (next_lsn w) L" using s(2) by (auto simp: below_def log_inv_def L(1))
    moreover have "\<forall>r\<in>set L. rec_lsn (hd L) \<le> rec_lsn r"
      using s(2) by (cases L) (auto simp: log_inv_def L(1))
    moreover have "rec_txn_id r \<notin> finished_txns X" if "L = X @ r # Y" "is_set r" for X r Y
      using bracketedD(1) [OF s(3), of X r "Y @ unflushed w"] that by (simp add: L(1))
    ultimately show ?thesis by (simp add: good_log_def)
  qed
  moreover have "length L \<le> length (records w)" using l(9) by (simp add: L(1))
  moreover have "redo_all L (file_page (fd p)) = redo_all L base"
  proof (rule redo_all_mixed)
    fix f
    obtain m where "m \<le> length L" "file_page (fd p) f = redo_all (take m (L @ unflushed w)) base f"
      using d(8) by blast
    then show "\<exists>m. file_page (fd p) f = redo_all (take m L) base f" by (intro exI [of _ m]) simp
  qed
  ultimately show thesis using L(3) by (intro that [of L]) (simp_all add: recovered_def)
qed

lemma checkpoint_recovered:
  assumes wk: "workable p w" and R: "records w = R" "bracketed None R" "below (next_lsn w) R"
    and v: "view p = redo_all R v" and n: "next_lsn w < 2 ^ 32" "next_txn_id w \<le> next_lsn w"
    and act: "active_transactions w = 0"
  obtains p' w' where "checkpoint_internal (p, w) = Some (Inr (p', w'))"
    "sys_inv p' w' None (view p) (unflushed w') (view p)" "view p' = view p" "refcounts p' = refcounts p"
    "fsync_results w' = []" "records w' = R" "next_lsn w' = next_lsn w" "pool_size p' = pool_size p"
proof -
  define w' where "w' = w\<lparr>checkpoint_pending := False, wal_fd := [], log_pos := 0, wal_disk := []\<rparr>"
  have inv: "pool_inv p" and ok: "wal_ok w" and f: "fsync_results w = []" using wk by (simp_all add: workable_def)
  have c: "checkpoint_internal (p, w) = Some (Inr (flush_all p, w'))"
    using act f by (simp add: checkpoint_internal_def checkpoint_finish_def checkpoint_start_def Let_def
        sync_log_returns w'_def)
  have u: "unflushed w' = unflushed w" by (simp add: unflushed_def w'_def)
  have split: "R = take (unflushed_record_index w) R @ unflushed w" by (simp add: unflushed_def R(1))
  have b: "bracketed None (unflushed w)" using bracketed_suffix R(2) split by metis
  have "redo_all (unflushed w) (view p) = view p" using redo_all_suffix split v by metis
  then have cs: "crash_safe (flush_all p) w' (view p) (unflushed w) (view p)"
    by (intro crash_safe_checkpoint [OF inv _ b ok]) (simp_all add: w'_def)
  have "set (unflushed w) \<subseteq> set R" using split by (metis Un_upper2 set_append)
  then have "\<forall>r\<in>set (unflushed w) \<union> set (records w'). good_record r \<and> rec_lsn r < next_lsn w' \<and> rec_txn_id r \<le> rec_lsn r"
    using R(1,3) by (auto simp: below_def w'_def)
  moreover have "\<forall>r\<in>set (unflushed w). rec_lsn (hd (unflushed w)) \<le> rec_lsn r" using wal_okD(6) [OF ok] by blast
  moreover have "length (unflushed w) \<le> length (records w')" by (simp add: unflushed_def w'_def)
  ultimately have "log_inv w' (unflushed w)" using n by (simp add: log_inv_def w'_def)
  then have "sys_inv (flush_all p) w' None (view p) (unflushed w') (view p)"
    using cs b act u by (simp add: sys_inv_def w'_def)
  note fa = flush_all_pending [OF inv]
  have "refcounts (flush_all p) = refcounts p"
    using fa(5) pool_invD(2) [OF fa(1)] pool_invD(2) [OF inv]
    by (intro nth_equalityI) (simp_all add: refcounts_def fa(6))
  then show thesis
    using c \<open>sys_inv (flush_all p) w' None (view p) (unflushed w') (view p)\<close> fa f R(1)
    by (intro that [of "flush_all p" w']) (simp_all add: w'_def)
qed

lemma open_returns:
  assumes L: "good_log n L" and room: "n + 2 * length L < 2 ^ 32" and f: "file_inv f"
    and tr: "traverses traverse" and m: "0 < m"
  obtains p' w' where
    "WAL_open traverse (Some (encode_all L)) [] (BufferPool_init f m) = Some (Inr (p', w'))"
    "sys_inv p' w' None (recovered L (file_page f)) (unflushed w') (recovered L (file_page f))"
    "view p' = recovered L (file_page f)" "refcounts p' = replicate m 0" "fsync_results w' = []"
proof -
  define p0 where "p0 = BufferPool_init f m"
  have p0: "pool_inv p0" "view p0 = file_page f" "refcounts p0 = replicate m 0"
    using f by (simp_all add: p0_def pool_inv_init)
      (simp add: refcounts_def BufferPool_init_def PageMetadata_reset_def map_replicate)
  have z: "0 \<in> set (refcounts p0)" using m by (simp add: p0(3))
  have rej: "rejected []" by (simp add: rejected_def)
  obtain p1 w1 S where 1: "recover traverse (p0, WAL_init (encode_all L @ []) []) = Inr (p1, w1)"
    "workable p1 w1" "records w1 = L @ S" "view p1 = recovered L (view p0)" "view p1 = redo_all (L @ S) (view p0)"
    "bracketed None (L @ S)" "below (next_lsn w1) (L @ S)" "next_txn_id w1 \<le> next_lsn w1"
    "next_lsn w1 \<le> n + 2 * length L" "refcounts p1 = refcounts p0" "active_transactions w1 = 0"
    using recover_returns [OF L rej room p0(1) z tr] by blast
  have n1: "next_lsn w1 < 2 ^ 32" using 1(9) room by simp
  obtain p' w' where 2: "checkpoint_internal (p1, w1) = Some (Inr (p', w'))"
    "sys_inv p' w' None (view p1) (unflushed w') (view p1)" "view p' = view p1" "refcounts p' = refcounts p1"
    "fsync_results w' = []"
    using checkpoint_recovered [OF 1(2,3,6,7,5) n1 1(8,11)] by metis
  have "WAL_open traverse (Some (encode_all L)) [] p0 = Some (Inr (p', w'))"
    using 1(1) 2(1) by (simp add: WAL_open_def)
  then show thesis using 2 1(4,10) p0(2,3) by (intro that [of p' w']) (simp_all add: p0_def)
qed

lemma reopen_returns:
  assumes inv: "sys_inv p w live base R C" and room: "next_lsn w + 2 * length (records w) < 2 ^ 32"
    and tr: "traverses traverse" and n: "0 < n"
  obtains p' w' where
    "WAL_open traverse (Some (wal_disk w)) [] (BufferPool_init (fd p) n) = Some (Inr (p', w'))"
    "sys_inv p' w' None C (unflushed w') C" "view p' = C" "refcounts p' = replicate n 0"
    "fsync_results w' = []"
proof -
  obtain L where L: "wal_disk w = encode_all L" "good_log (next_lsn w) L" "length L \<le> length (records w)"
    "recovered L (file_page (fd p)) = C"
    using crash_image [OF inv] by metis
  have f: "file_inv (fd p)" using crash_safeD(1) [OF sys_invD(1) [OF inv]] pool_invD(10) by blast
  have small: "next_lsn w + 2 * length L < 2 ^ 32" using room L(3) by simp
  show thesis
    by (rule open_returns [OF L(2) small f tr n, folded L(1), unfolded L(4)]) (rule that)
qed

lemma fresh_inv:
  assumes "file_inv f"
  shows "sys_inv (BufferPool_init f n) (WAL_init [] syncs) None (file_page f) [] (file_page f)"
proof -
  have w: "unflushed (WAL_init [] syncs) = []" by (simp add: unflushed_def WAL_init_def)
  have "wal_ok (WAL_init [] syncs)" unfolding wal_ok_def w by (simp add: WAL_init_def)
  then have "db_inv (BufferPool_init f n) (WAL_init [] syncs) (file_page f) [] 0 0"
    using assms unfolding db_inv_def w
    by (simp add: pool_inv_init log_holds_def WAL_init_def) (simp add: BufferPool_init_def)
  then have "crash_safe (BufferPool_init f n) (WAL_init [] syncs) (file_page f) [] (file_page f)"
    unfolding crash_safe_def w by (intro exI [of _ "[]"] exI [of _ 0]) simp
  then show ?thesis by (simp add: sys_inv_def log_inv_def WAL_init_def)
qed

end
