(* ===== verification/Database.thy ===== *)
theory Database
  imports Prelude Wal_Record Redo Buffer_Pool Wal Durability Transactions Recovery
begin

text \<open>
  The page store as its clients see it: pool, log and data file together, driven by the operations
  of transactions, by readers, by the checkpoint thread and by crashes, as a step relation.  Its
  specification keeps two versions of the pages, the current and the committed one; the code
  refines it.
\<close>

section \<open>Transaction objects\<close>

text \<open>\<open>RWTransaction\<close>: its id, its state and whether it still has a log layer (it does not once moved
  from).\<close>

datatype rw_state = UNCOMMITTED | COMMITTED | ABORTED

record RWTransaction =
  rw_has_wal :: bool
  rw_txn_id :: nat
  rw_state :: rw_state

definition begin_rw_transaction :: "WAL \<Rightarrow> (RWTransaction \<times> WAL) option" where
  "begin_rw_transaction w = map_option (\<lambda>(txn, w).
     (\<lparr>rw_has_wal = True, rw_txn_id = txn, rw_state = UNCOMMITTED\<rparr>,
      w\<lparr>transactions_since_last_checkpoint := transactions_since_last_checkpoint w + 1\<rparr>)) (wal_begin w)"

definition RWTransaction_commit :: "RWTransaction \<Rightarrow> BufferPool \<times> WAL \<Rightarrow>
    (RWTransaction \<times> BufferPool \<times> WAL) result" where
  "RWTransaction_commit t = (\<lambda>(p, w).
     if \<not> rw_has_wal t then Inl MemoryError
     else bindR (wal_commit (rw_txn_id t) w) (\<lambda>w. Inr (t\<lparr>rw_state := COMMITTED\<rparr>, p, w)))"

definition RWTransaction_abort :: "RWTransaction \<Rightarrow> BufferPool \<times> WAL \<Rightarrow>
    (RWTransaction \<times> BufferPool \<times> WAL) result" where
  "RWTransaction_abort t s =
     (if \<not> rw_has_wal t then Inl MemoryError
      else bindR (wal_abort (rw_txn_id t) s) (\<lambda>s. Inr (t\<lparr>rw_state := ABORTED\<rparr>, s)))"

definition RWTransaction_destroy :: "RWTransaction \<Rightarrow> BufferPool \<times> WAL \<Rightarrow> (BufferPool \<times> WAL) result" where
  "RWTransaction_destroy t s =
     (if rw_state t = UNCOMMITTED \<and> rw_has_wal t then wal_abort (rw_txn_id t) s else Inr s)"

definition RWTransaction_move :: "RWTransaction \<Rightarrow> RWTransaction \<times> RWTransaction" where
  "RWTransaction_move other = (other, other\<lparr>rw_has_wal := False\<rparr>)"

text \<open>\<open>get_page\<close> of a transaction, and \<open>write\<close> of the handle it gives: the bytes of the buffer, zeros
  up to the written length.\<close>

definition RWTransaction_get_page :: "RWTransaction \<Rightarrow> nat \<Rightarrow> bool \<Rightarrow> BufferPool \<times> WAL \<Rightarrow>
    (PageHandle \<times> BufferPool \<times> WAL) result" where
  "RWTransaction_get_page t page advise s =
     (if rw_state t \<noteq> UNCOMMITTED
      then Inl (DiskMapException ''get_page: transaction is already finished'')
      else if \<not> rw_has_wal t then Inl MemoryError
      else get_page (Some flush_up_to) page advise s)"

definition PageHandle_write :: "nat \<Rightarrow> nat \<Rightarrow> nat \<Rightarrow> byte list \<Rightarrow> nat \<Rightarrow> BufferPool \<times> WAL \<Rightarrow>
    (BufferPool \<times> WAL) result" where
  "PageHandle_write txn page offset buffer written_length s =
     wal_set txn ((page * PAGE_SIZE + offset) mod 2 ^ 64) buffer written_length s"

section \<open>Operations return\<close>

text \<open>Each operation returns if syncing works and some slot of the pool is free.\<close>

lemma control_workable:
  assumes "workable p w" "log_inv w R" "crash_safe p w base R C" "next_lsn w + 1 < 2 ^ 32" "T \<le> next_lsn w"
    "b = ABORT_BEGIN \<or> b = COMMIT \<or> b = ABORT_END"
  shows "workable p (log_control T b w)"
proof -
  note k = control_kept [OF assms(3,2,4,5,6)]
  have "workable p (bump_lsn w)"
    using assms(1) by (auto simp: workable_def wal_ok_def unflushed_def bump_lsn_def)
  then show ?thesis unfolding k(7) by (rule workable_push [OF _ k(1,9)])
qed

lemma set_returns:
  assumes inv: "sys_inv p w (Some T) base R C" and wk: "fsync_results w = []" "0 \<in> set (refcounts p)"
    and b: "loc < 2 ^ 64" "length data \<le> len" "loc mod PAGE_SIZE + len \<le> PAGE_SIZE"
  obtains p' w' where "wal_set T loc data len (p, w) = Inr (p', w')" "fsync_results w' = []"
proof -
  note s = sys_invD [OF inv]
  note l = log_invD [OF s(2)]
  have pinv: "pool_inv p" and ok: "wal_ok w" using crash_safeD(1,2) [OF s(1)] by blast+
  define f where "f = loc div PAGE_SIZE"
  have ok0: "wal_ok (bump_lsn w)" "fsync_results (bump_lsn w) = []"
    using wal_ok_update [OF ok] wk(1) by (simp_all add: bump_lsn_def)
  have "has_room p f" using wk(2) by (simp add: has_room_def)
  then obtain i p1 w1 where ret: "retain (Some flush_up_to) f False (p, bump_lsn w) = Inr (i, p1, w1)"
    using retain_log_returns [OF pinv ok0] by metis
  have r1: "retained f False p i p1" using retain_retained [OF pinv ret] by blast
  note d1 = retainedD [OF r1]
  note step = pool_step_log [OF retain_pool_step [OF pinv ret] ok0(1)]
  have pg: "handle_data \<lparr>pool_index = int i\<rparr> p1 = Inr (view p f)"
    using d1(6,8) pool_invD(1) [OF d1(1)] by (simp add: handle_data_def)
  define r where "r = set_record (next_lsn w) T loc data len (view p f)"
  have T: "T < 2 ^ 32" using s(4) l(8) by (auto simp: live_inv_def)
  note rr = set_record_restores [where v = "view p", OF b(2,3) l(8) T b(1), folded f_def, folded r_def]
  have room: "has_room p1 g" if "page_of r = Some g" for g
    using that rr(2) d1(3) by (simp add: has_room_def)
  obtain p2 w2 where a: "apply_record r (p1, w1) = Inr (p2, w2)"
    using apply_record_returns [OF d1(1) rr(1) step(2) step(4) [OF ok0(2)] room] by metis
  have ap: "applied r p1 w1 p2 w2" by (rule apply_record_applied [OF d1(1) rr(1) a])
  obtain q where q: "pool_step p1 w1 q w2" using applied_page [OF ap rr(2)] by metis
  have fs: "fsync_results w2 = []" using pool_step_log(4) [OF q step(2)] step(4) ok0(2) by simp
  have inv2: "pool_inv p2" and rc: "refcounts p2 = refcounts p1" using ap by (simp_all add: applied_def)
  have len: "length (refcounts p2) = pool_size p2" "length (refcounts p1) = pool_size p1"
    using pool_invD(2) [OF inv2] pool_invD(2) [OF d1(1)] by (simp_all add: refcounts_def)
  have i2: "i < pool_size p2" using len rc d1(6) d1(4) by simp
  have pos: "0 < refcount (metadata p2 ! i)"
    using refcounts_nth [OF inv2 i2] refcounts_nth [OF d1(1), of i] d1(4,6) rc retained_pinned [OF pinv r1] by simp
  obtain p' where p': "release i p2 = Inr p'" using release_ok [OF inv2 pinned_slot [OF inv2 i2 pos] pos] by metis
  have "wal_set T loc data len (p, w) = Inr (p', push_record r w2)"
    using wal_set_retained [OF ret [unfolded f_def] pg [unfolded f_def] r_def [unfolded f_def]] a p' b(3)
    by (simp add: PageHandle_destroy_def)
  moreover have "fsync_results (push_record r w2) = []" using fs by (simp add: push_record_def)
  ultimately show thesis using that by blast
qed

lemma commit_returns:
  assumes inv: "sys_inv p w (Some T) base R C" and wk: "fsync_results w = []" and room: "next_lsn w + 1 < 2 ^ 32"
  obtains w' where "wal_commit T w = Inr w'"
proof -
  note s = sys_invD [OF inv]
  have T: "T \<le> next_lsn w" using s(4) by (simp add: live_inv_def)
  note k = control_kept [OF s(1,2) room T, of COMMIT]
  have "wal_ok (log_control T COMMIT w)"
    unfolding k(7) [OF disjI2 [OF disjI1 [OF refl]]]
    using wal_ok_push [OF crash_safeD(2) [OF k(8)] k(1,9)] by blast
  moreover have "fsync_results (log_control T COMMIT w) = []"
    using wk by (simp add: log_control_def push_record_def bump_lsn_def)
  ultimately obtain w1 where "wal_flush (log_control T COMMIT w) = Inr w1" using wal_flush_returns by blast
  then show thesis using that by (simp add: wal_commit_def)
qed

lemma abort_returns:
  assumes inv: "sys_inv p w (Some T) base R C" and wk: "fsync_results w = []" "0 \<in> set (refcounts p)"
    and room: "next_lsn w + length (records w) + 3 < 2 ^ 32"
  obtains p' w' where "wal_abort T (p, w) = Inr (p', w')" "fsync_results w' = []"
proof -
  note s = sys_invD [OF inv]
  have live: "live_inv w R T" and T: "T \<le> next_lsn w" using s(4) by (simp_all add: live_inv_def)
  define w1 where "w1 = log_control T ABORT_BEGIN w"
  define start where "start = (case find_begin T (records w1) of None \<Rightarrow> 0 | Some i \<Rightarrow> Suc i)"
  have r1: "next_lsn w + 1 < 2 ^ 32" using room by simp
  note k = control_kept [OF s(1,2) r1 T, of ABORT_BEGIN, folded w1_def]
  have "workable p w" using crash_safeD(1,2) [OF s(1)] wk by (simp add: workable_def)
  then have wk1: "workable p w1" unfolding w1_def using control_workable [OF _ s(2,1) r1 T] by blast
  have w1: "records w1 = records w @ [new_record (next_lsn w) T ABORT_BEGIN []]" "next_lsn w1 = next_lsn w + 1"
    using r1 by (simp_all add: w1_def log_control_simps)
  obtain is' where is': "collect_undo T (records w1) [start..<length (records w1)] [] = Inr is'"
    "map ((!) (records w1)) is' = losers R" "length is' \<le> length (records w1)" "\<forall>i\<in>set is'. i < length (records w1)"
    using abort_collects [OF live w1(1), folded start_def] by auto
  have "is_set (records w1 ! i)" if "i \<in> set is'" for i
  proof -
    have "records w1 ! i \<in> set (losers R)" using that by (simp flip: is'(2))
    then show ?thesis by (simp add: losers_def)
  qed
  then have ix: "\<forall>i\<in>set (rev is'). i < length (records w1) \<and> is_set (records w1 ! i)" using is'(4) by simp
  have li: "log_inv w1 (R @ [new_record (next_lsn w) T ABORT_BEGIN []])" using k(10) by simp
  then have "below (next_lsn w1) (records w1)" and n: "next_txn_id w1 \<le> next_lsn w1"
    by (auto simp: below_def log_inv_def)
  moreover have "next_lsn w1 + length (rev is') < 2 ^ 32" using is'(3) w1 room by simp
  ultimately obtain p2 w2 where "write_clrs (rev is') (p, w1) = Inr (p2, w2)" "workable p2 w2"
    using write_clrs_returns [OF wk1 _ _ ix] by blast
  moreover have "fsync_results ((log_control T ABORT_END w2)\<lparr>active_transactions := n\<rparr>) = fsync_results w2" for n
    by (simp add: log_control_def push_record_def bump_lsn_def)
  ultimately show thesis
    using is'(1) that by (simp add: wal_abort_def Let_def w1_def [symmetric] start_def [symmetric] workable_def)
qed

lemma checkpoint_returns:
  assumes "sys_inv p w None base R C" "fsync_results w = []"
  obtains p' w' where "checkpoint_finish (p, w) = Some (Inr (p', w'))"
  using sys_invD(5) [OF assms(1)] assms(2) that
  by (simp add: checkpoint_finish_def Let_def sync_log_returns)

section \<open>The page store as a transition system\<close>

record db =
  db_pool :: BufferPool
  db_wal :: WAL
  db_live :: "RWTransaction option"

text \<open>
  \<open>Read\<close> is \<open>get_page\<close> by anybody, with what the handle shows; \<open>Unpin\<close> is the end of a handle.
  \<open>Crash\<close> loses everything but the two files and opens them with a new pool.
\<close>

datatype event =
    Begin
  | Write nat nat "byte list" nat
  | Commit
  | Abort
  | Destroy
  | Read nat bool page
  | Unpin nat
  | Checkpoint_Start
  | Checkpoint_Finish
  | Crash nat

text \<open>LSNs left before the 32-bit counter wraps around, also for a recovery.\<close>

definition lsn_room :: "WAL \<Rightarrow> bool" where
  "lsn_room w \<longleftrightarrow> next_lsn w + 2 * length (records w) + 3 < 2 ^ 32"

inductive db_step :: "(nat list \<Rightarrow> nat list) \<Rightarrow> db \<Rightarrow> event \<Rightarrow> db \<Rightarrow> bool" for traverse where
  step_begin: "db_live s = None \<Longrightarrow> lsn_room (db_wal s) \<Longrightarrow>
    begin_rw_transaction (db_wal s) = Some (t, w') \<Longrightarrow>
    db_step traverse s Begin (s\<lparr>db_wal := w', db_live := Some t\<rparr>)"
| step_write: "db_live s = Some t \<Longrightarrow> lsn_room (db_wal s) \<Longrightarrow>
    page * PAGE_SIZE + offset < 2 ^ 64 \<Longrightarrow> offset < PAGE_SIZE \<Longrightarrow> length data \<le> len \<Longrightarrow>
    PageHandle_write (rw_txn_id t) page offset data len (db_pool s, db_wal s) = Inr (p', w') \<Longrightarrow>
    db_step traverse s (Write page offset data len) (s\<lparr>db_pool := p', db_wal := w'\<rparr>)"
| step_commit: "db_live s = Some t \<Longrightarrow> lsn_room (db_wal s) \<Longrightarrow>
    RWTransaction_commit t (db_pool s, db_wal s) = Inr (t', p', w') \<Longrightarrow>
    db_step traverse s Commit (s\<lparr>db_pool := p', db_wal := w', db_live := None\<rparr>)"
| step_abort: "db_live s = Some t \<Longrightarrow> lsn_room (db_wal s) \<Longrightarrow>
    RWTransaction_abort t (db_pool s, db_wal s) = Inr (t', p', w') \<Longrightarrow>
    db_step traverse s Abort (s\<lparr>db_pool := p', db_wal := w', db_live := None\<rparr>)"
| step_destroy: "db_live s = Some t \<Longrightarrow> lsn_room (db_wal s) \<Longrightarrow>
    RWTransaction_destroy t (db_pool s, db_wal s) = Inr (p', w') \<Longrightarrow>
    db_step traverse s Destroy (s\<lparr>db_pool := p', db_wal := w', db_live := None\<rparr>)"
| step_read: "get_page (Some flush_up_to) f advise (db_pool s, db_wal s) = Inr (h, p', w') \<Longrightarrow>
    handle_data h p' = Inr pg \<Longrightarrow>
    db_step traverse s (Read f advise pg) (s\<lparr>db_pool := p', db_wal := w'\<rparr>)"
| step_unpin: "i < next_pool_index (db_pool s) \<Longrightarrow> 0 < refcount (metadata (db_pool s) ! i) \<Longrightarrow>
    PageHandle_destroy \<lparr>pool_index = int i\<rparr> (db_pool s) = Inr p' \<Longrightarrow>
    db_step traverse s (Unpin i) (s\<lparr>db_pool := p'\<rparr>)"
| step_checkpoint_start:
    "db_step traverse s Checkpoint_Start (s\<lparr>db_wal := checkpoint_start (db_wal s)\<rparr>)"
| step_checkpoint_finish: "checkpoint_pending (db_wal s) \<Longrightarrow>
    checkpoint_finish (db_pool s, db_wal s) = Some (Inr (p', w')) \<Longrightarrow>
    db_step traverse s Checkpoint_Finish (s\<lparr>db_pool := p', db_wal := w'\<rparr>)"
| step_crash: "lsn_room (db_wal s) \<Longrightarrow> 0 < n \<Longrightarrow>
    WAL_open traverse (Some (wal_disk (db_wal s))) [] (BufferPool_init (fd (db_pool s)) n) = Some (Inr (p', w')) \<Longrightarrow>
    db_step traverse s (Crash n) \<lparr>db_pool = p', db_wal = w', db_live = None\<rparr>"

inductive db_run :: "(nat list \<Rightarrow> nat list) \<Rightarrow> db \<Rightarrow> event list \<Rightarrow> db \<Rightarrow> bool" for traverse where
  run_Nil: "db_run traverse s [] s"
| run_snoc: "db_run traverse s es s' \<Longrightarrow> db_step traverse s' e s'' \<Longrightarrow> db_run traverse s (es @ [e]) s''"

text \<open>A database on a data file whose log file does not exist yet.\<close>

definition fresh_db :: "data_file \<Rightarrow> nat \<Rightarrow> bool list \<Rightarrow> db" where
  "fresh_db f n syncs = \<lparr>db_pool = BufferPool_init f n, db_wal = WAL_init [] syncs, db_live = None\<rparr>"

section \<open>Specification\<close>

record spec =
  current :: "nat \<Rightarrow> page"
  committed :: "nat \<Rightarrow> page"

fun spec_step :: "event \<Rightarrow> spec \<Rightarrow> spec option" where
  "spec_step (Write page offset data len) a =
     Some (a\<lparr>current := (current a)(page := blit (current a page) offset (pad len data))\<rparr>)"
| "spec_step Commit a = Some (a\<lparr>committed := current a\<rparr>)"
| "spec_step Abort a = Some (a\<lparr>current := committed a\<rparr>)"
| "spec_step Destroy a = Some (a\<lparr>current := committed a\<rparr>)"
| "spec_step (Crash n) a = Some (a\<lparr>current := committed a\<rparr>)"
| "spec_step (Read f advise pg) a = (if \<forall>i. pg i = current a f i then Some a else None)"
| "spec_step _ a = Some a"

fun spec_run :: "event list \<Rightarrow> spec \<Rightarrow> spec option" where
  "spec_run [] a = Some a"
| "spec_run (e # es) a = Option.bind (spec_step e a) (spec_run es)"

lemma spec_run_snoc: "spec_run (es @ [e]) a = Option.bind (spec_run es a) (spec_step e)"
proof (induction es arbitrary: a)
  case Nil
  then show ?case by (cases "spec_step e a") simp_all
next
  case (Cons x es)
  then show ?case by (cases "spec_step x a") simp_all
qed

section \<open>Refinement\<close>

definition simulates :: "db \<Rightarrow> spec \<Rightarrow> bool" where
  "simulates s a \<longleftrightarrow> (\<exists>base R. sys_inv (db_pool s) (db_wal s) (map_option rw_txn_id (db_live s)) base R (committed a)) \<and>
     view (db_pool s) = current a \<and>
     (\<forall>t. db_live s = Some t \<longrightarrow> rw_has_wal t \<and> rw_state t = UNCOMMITTED)"

lemma sys_inv_fields:
  assumes inv: "sys_inv p w live base R C"
  shows "sys_inv p (w\<lparr>transactions_since_last_checkpoint := n\<rparr>) live base R C"
    "sys_inv p (w\<lparr>checkpoint_pending := b\<rparr>) live base R C"
proof -
  note s = sys_invD [OF inv]
  have "crash_safe p (w\<lparr>transactions_since_last_checkpoint := n\<rparr>) base R C"
    "crash_safe p (w\<lparr>checkpoint_pending := b\<rparr>) base R C"
    using crash_safe_update [OF s(1)] by simp_all
  then show "sys_inv p (w\<lparr>transactions_since_last_checkpoint := n\<rparr>) live base R C"
    "sys_inv p (w\<lparr>checkpoint_pending := b\<rparr>) live base R C"
    using s by (auto simp: sys_inv_def log_inv_def live_inv_def)
qed

lemma simulatesD:
  assumes "simulates s a"
  obtains base R where "sys_inv (db_pool s) (db_wal s) (map_option rw_txn_id (db_live s)) base R (committed a)"
    "view (db_pool s) = current a" "\<And>t. db_live s = Some t \<Longrightarrow> rw_has_wal t \<and> rw_state t = UNCOMMITTED"
  using assms unfolding simulates_def by blast

lemma simulatesI:
  "sys_inv p w (map_option rw_txn_id live) base R (committed a) \<Longrightarrow> view p = current a \<Longrightarrow>
   (\<And>t. live = Some t \<Longrightarrow> rw_has_wal t \<and> rw_state t = UNCOMMITTED) \<Longrightarrow>
   simulates \<lparr>db_pool = p, db_wal = w, db_live = live\<rparr> a"
  unfolding simulates_def by auto

lemma db_eta: "s = \<lparr>db_pool = db_pool s, db_wal = db_wal s, db_live = db_live s\<rparr>"
  by simp

lemma abort_simulates:
  assumes sim: "simulates s a" and live: "db_live s = Some t" and room: "lsn_room (db_wal s)"
    and ab: "wal_abort (rw_txn_id t) (db_pool s, db_wal s) = Inr (p', w')"
  shows "simulates (s\<lparr>db_pool := p', db_wal := w', db_live := None\<rparr>) (a\<lparr>current := committed a\<rparr>)"
proof -
  obtain base R where inv: "sys_inv (db_pool s) (db_wal s) (Some (rw_txn_id t)) base R (committed a)"
    using simulatesD [OF sim] live by (metis option.simps(9))
  have "next_lsn (db_wal s) + length (records (db_wal s)) + 3 < 2 ^ 32" using room by (simp add: lsn_room_def)
  note k = abort_kept [OF inv ab this]
  then show ?thesis by (auto simp: simulates_def)
qed

lemma write_simulates:
  assumes sim: "simulates s a" and live: "db_live s = Some t" and room: "lsn_room (db_wal s)"
    and b: "page * PAGE_SIZE + offset < 2 ^ 64" "offset < PAGE_SIZE" "length data \<le> len"
    and w: "PageHandle_write (rw_txn_id t) page offset data len (db_pool s, db_wal s) = Inr (p', w')"
  shows "simulates (s\<lparr>db_pool := p', db_wal := w'\<rparr>)
    (a\<lparr>current := (current a)(page := blit (current a page) offset (pad len data))\<rparr>)"
proof -
  obtain base R where inv: "sys_inv (db_pool s) (db_wal s) (Some (rw_txn_id t)) base R (committed a)"
    and v: "view (db_pool s) = current a" and t: "rw_has_wal t \<and> rw_state t = UNCOMMITTED"
    using simulatesD [OF sim] live by (metis option.simps(9))
  have loc: "(page * PAGE_SIZE + offset) div PAGE_SIZE = page" "(page * PAGE_SIZE + offset) mod PAGE_SIZE = offset"
    using b(2) by simp_all
  have r: "next_lsn (db_wal s) + 1 < 2 ^ 32" using room by (simp add: lsn_room_def)
  have "wal_set (rw_txn_id t) (page * PAGE_SIZE + offset) data len (db_pool s, db_wal s) = Inr (p', w')"
    using w b(1) by (simp add: PageHandle_write_def)
  from set_kept [OF inv this b(1,3) r, unfolded loc] live t v show ?thesis
    unfolding simulates_def by auto
qed

lemma step_simulates:
  assumes step: "db_step traverse s e s'" and sim: "simulates s a" and tr: "traverses traverse"
  shows "\<exists>a'. spec_step e a = Some a' \<and> simulates s' a'"
  using step
proof cases
  case (step_begin t w')
  obtain base R where inv: "sys_inv (db_pool s) (db_wal s) None base R (committed a)"
    and v: "view (db_pool s) = current a"
    using simulatesD [OF sim] step_begin(3) by (metis option.simps(8))
  obtain T w1 where w1: "wal_begin (db_wal s) = Some (T, w1)"
    "t = \<lparr>rw_has_wal = True, rw_txn_id = T, rw_state = UNCOMMITTED\<rparr>"
    "w' = w1\<lparr>transactions_since_last_checkpoint := transactions_since_last_checkpoint w1 + 1\<rparr>"
    using step_begin(5) by (auto simp: begin_rw_transaction_def)
  have "next_lsn (db_wal s) + 1 < 2 ^ 32" using step_begin(4) by (simp add: lsn_room_def)
  from sys_inv_fields(1) [OF begin_kept(2) [OF inv w1(1) this]] show ?thesis
    using v step_begin(1,2) w1 by (auto simp: simulates_def)
next
  case (step_write t page offset data len p' w')
  then show ?thesis using write_simulates [OF sim step_write(3-8)] by simp
next
  case (step_commit t t' p' w')
  obtain base R where inv: "sys_inv (db_pool s) (db_wal s) (Some (rw_txn_id t)) base R (committed a)"
    and v: "view (db_pool s) = current a"
    using simulatesD [OF sim] step_commit(3) by (metis option.simps(9))
  have r: "next_lsn (db_wal s) + 1 < 2 ^ 32" using step_commit(4) by (simp add: lsn_room_def)
  have c: "wal_commit (rw_txn_id t) (db_wal s) = Inr w'" "p' = db_pool s"
    using step_commit(5) by (auto simp: RWTransaction_commit_def bindR_Inr split: if_splits)
  from commit_kept(1) [OF inv c(1) r] show ?thesis
    using v step_commit(1,2) c(2) by (auto simp: simulates_def)
next
  case (step_abort t t' p' w')
  then have "wal_abort (rw_txn_id t) (db_pool s, db_wal s) = Inr (p', w')"
    by (auto simp: RWTransaction_abort_def bindR_Inr split: if_splits)
  from abort_simulates [OF sim step_abort(3,4) this] show ?thesis using step_abort(1,2) by simp
next
  case (step_destroy t p' w')
  have "rw_has_wal t \<and> rw_state t = UNCOMMITTED" using simulatesD [OF sim] step_destroy(3) by metis
  then have "wal_abort (rw_txn_id t) (db_pool s, db_wal s) = Inr (p', w')"
    using step_destroy(5) by (simp add: RWTransaction_destroy_def)
  from abort_simulates [OF sim step_destroy(3,4) this] show ?thesis using step_destroy(1,2) by simp
next
  case (step_read f advise h p' w' pg)
  obtain base R where inv: "sys_inv (db_pool s) (db_wal s) (map_option rw_txn_id (db_live s)) base R (committed a)"
    and v: "view (db_pool s) = current a" and t: "\<And>t. db_live s = Some t \<Longrightarrow> rw_has_wal t \<and> rw_state t = UNCOMMITTED"
    using simulatesD [OF sim] by metis
  obtain i where i: "retain (Some flush_up_to) f advise (db_pool s, db_wal s) = Inr (i, p', w')"
    "h = \<lparr>pool_index = int i\<rparr>"
    using step_read(3) by (auto simp: get_page_def bindR_Inr)
  note k = pin_kept [OF inv i(1)]
  have "pg = current a f" using step_read(4) k(3) v i(2) by (simp add: handle_data_def split: if_splits)
  then show ?thesis using k(1,2) v t step_read(1,2) by (auto simp: simulates_def)
next
  case (step_unpin i p')
  obtain base R where inv: "sys_inv (db_pool s) (db_wal s) (map_option rw_txn_id (db_live s)) base R (committed a)"
    and v: "view (db_pool s) = current a" and t: "\<And>t. db_live s = Some t \<Longrightarrow> rw_has_wal t \<and> rw_state t = UNCOMMITTED"
    using simulatesD [OF sim] by metis
  have "release i (db_pool s) = Inr p'" using step_unpin(5) by (simp add: PageHandle_destroy_def)
  from unpin_kept [OF inv step_unpin(3,4) this] show ?thesis using v t step_unpin(1,2) by (auto simp: simulates_def)
next
  case step_checkpoint_start
  obtain base R where inv: "sys_inv (db_pool s) (db_wal s) (map_option rw_txn_id (db_live s)) base R (committed a)"
    and v: "view (db_pool s) = current a" and t: "\<And>t. db_live s = Some t \<Longrightarrow> rw_has_wal t \<and> rw_state t = UNCOMMITTED"
    using simulatesD [OF sim] by metis
  from sys_inv_fields(2) [OF inv, of True] show ?thesis
    using v t step_checkpoint_start by (auto simp: simulates_def checkpoint_start_def)
next
  case (step_checkpoint_finish p' w')
  obtain base R where inv: "sys_inv (db_pool s) (db_wal s) (map_option rw_txn_id (db_live s)) base R (committed a)"
    and v: "view (db_pool s) = current a"
    using simulatesD [OF sim] by metis
  note k = checkpoint_kept [OF inv step_checkpoint_finish(4)]
  show ?thesis using k(1-3) v step_checkpoint_finish(1,2) by (auto simp: simulates_def)
next
  case (step_crash n p' w')
  obtain base R where inv: "sys_inv (db_pool s) (db_wal s) (map_option rw_txn_id (db_live s)) base R (committed a)"
    using simulatesD [OF sim] by metis
  have room: "next_lsn (db_wal s) + 2 * length (records (db_wal s)) < 2 ^ 32"
    using step_crash(3) by (simp add: lsn_room_def)
  obtain p1 w1 where
    "WAL_open traverse (Some (wal_disk (db_wal s))) [] (BufferPool_init (fd (db_pool s)) n) = Some (Inr (p1, w1))"
    "sys_inv p1 w1 None (committed a) (unflushed w1) (committed a)" "view p1 = committed a"
    using reopen_returns [OF inv room tr step_crash(4)] by metis
  then show ?thesis using step_crash(1,2,5) by (auto simp: simulates_def)
qed

lemma fresh_simulates:
  assumes "file_inv f"
  shows "simulates (fresh_db f n syncs) \<lparr>current = file_page f, committed = file_page f\<rparr>"
  using fresh_inv [OF assms, of n syncs] by (auto simp: simulates_def fresh_db_def)

lemma run_simulates:
  "db_run traverse s es s' \<Longrightarrow> simulates s a \<Longrightarrow> traverses traverse \<Longrightarrow>
   \<exists>a'. spec_run es a = Some a' \<and> simulates s' a'"
proof (induction rule: db_run.induct)
  case (run_Nil s)
  then show ?case by simp
next
  case (run_snoc s es s' e s'')
  then obtain a1 where "spec_run es a = Some a1" "simulates s' a1" by blast
  with step_simulates [OF run_snoc(2) _ run_snoc.prems(2)] show ?case by (auto simp: spec_run_snoc)
qed

section \<open>Properties\<close>

lemma reachable_simulates:
  assumes "traverses traverse" "file_inv f" "db_run traverse (fresh_db f n syncs) es s"
  obtains a where "spec_run es \<lparr>current = file_page f, committed = file_page f\<rparr> = Some a" "simulates s a"
  using run_simulates [OF assms(3) fresh_simulates [OF assms(2)] assms(1)] by blast

text \<open>A run of one transaction that writes a byte.\<close>

lemma empty_file_inv: "file_inv empty_file"
  by (simp add: file_inv_def empty_file_def)

lemma begin_step:
  assumes "db_live s = None" "lsn_room (db_wal s)" "\<not> checkpoint_pending (db_wal s)"
  obtains t w' where "db_step traverse s Begin (s\<lparr>db_wal := w', db_live := Some t\<rparr>)"
    "next_lsn w' = next_lsn (db_wal s) + 1" "length (records w') = Suc (length (records (db_wal s)))"
    "fsync_results w' = fsync_results (db_wal s)" "\<not> checkpoint_pending w'" "begin_rw_transaction (db_wal s) = Some (t, w')"
proof -
  define w where "w = db_wal s"
  have r: "next_lsn w + 1 < 2 ^ 32" using assms(2) by (simp add: lsn_room_def w_def)
  obtain T w1 where w1: "wal_begin w = Some (T, w1)" "next_lsn w1 = next_lsn w + 1"
    "length (records w1) = Suc (length (records w))" "fsync_results w1 = fsync_results w" "\<not> checkpoint_pending w1"
    using assms(3) r by (auto simp: wal_begin_def Let_def push_record_def bump_lsn_def bump_txn_id_def w_def)
  then show thesis
    using that [OF db_step.step_begin [OF assms(1,2), of "\<lparr>rw_has_wal = True, rw_txn_id = T, rw_state = UNCOMMITTED\<rparr>"
        "w1\<lparr>transactions_since_last_checkpoint := transactions_since_last_checkpoint w1 + 1\<rparr>"]]
    by (simp add: begin_rw_transaction_def w_def)
qed

lemma commit_step:
  assumes sim: "simulates s a" and live: "db_live s = Some t" and room: "lsn_room (db_wal s)"
    and f: "fsync_results (db_wal s) = []"
  obtains w' where "db_step traverse s Commit (s\<lparr>db_wal := w', db_live := None\<rparr>)"
    "next_lsn w' = next_lsn (db_wal s) + 1" "length (records w') = Suc (length (records (db_wal s)))"
    "fsync_results w' = []" "checkpoint_pending w' = checkpoint_pending (db_wal s)"
    "RWTransaction_commit t (db_pool s, db_wal s) = Inr (t\<lparr>rw_state := COMMITTED\<rparr>, db_pool s, w')"
proof -
  obtain base R where inv: "sys_inv (db_pool s) (db_wal s) (Some (rw_txn_id t)) base R (committed a)"
    and t: "rw_has_wal t"
    using simulatesD [OF sim] live by (metis option.simps(9))
  have r: "next_lsn (db_wal s) + 1 < 2 ^ 32" using room by (simp add: lsn_room_def)
  obtain w' where w': "wal_commit (rw_txn_id t) (db_wal s) = Inr w'" using commit_returns [OF inv f r] .
  note k = commit_kept [OF inv w' r]
  have c: "RWTransaction_commit t (db_pool s, db_wal s) = Inr (t\<lparr>rw_state := COMMITTED\<rparr>, db_pool s, w')"
    using t w' by (simp add: RWTransaction_commit_def)
  from db_step.step_commit [OF live room c, of traverse] show thesis
    using that [of w'] k(2,4,5) k(6) [OF f] c by simp
qed

lemma write_step:
  assumes sim: "simulates s a" and live: "db_live s = Some t" and room: "lsn_room (db_wal s)"
    and f: "fsync_results (db_wal s) = []" "0 \<in> set (refcounts (db_pool s))"
    and b: "page * PAGE_SIZE + offset < 2 ^ 64" "offset < PAGE_SIZE" "offset + len \<le> PAGE_SIZE" "length data \<le> len"
  obtains p' w' where "db_step traverse s (Write page offset data len) (s\<lparr>db_pool := p', db_wal := w'\<rparr>)"
    "next_lsn w' = next_lsn (db_wal s) + 1" "length (records w') = Suc (length (records (db_wal s)))"
    "fsync_results w' = []" "refcounts p' = refcounts (db_pool s)" "checkpoint_pending w' = checkpoint_pending (db_wal s)"
proof -
  obtain base R where inv: "sys_inv (db_pool s) (db_wal s) (Some (rw_txn_id t)) base R (committed a)"
    using simulatesD [OF sim] live by (metis option.simps(9))
  have r: "next_lsn (db_wal s) + 1 < 2 ^ 32" using room by (simp add: lsn_room_def)
  have loc: "(page * PAGE_SIZE + offset) div PAGE_SIZE = page" "(page * PAGE_SIZE + offset) mod PAGE_SIZE = offset"
    using b(2) by simp_all
  have "(page * PAGE_SIZE + offset) mod PAGE_SIZE + len \<le> PAGE_SIZE" unfolding loc by (rule b(3))
  then obtain p' w' where w': "wal_set (rw_txn_id t) (page * PAGE_SIZE + offset) data len (db_pool s, db_wal s) = Inr (p', w')"
    "fsync_results w' = []"
    using set_returns [OF inv f b(1,4)] by metis
  note k = set_kept [OF inv w'(1) b(1,4) r]
  have "PageHandle_write (rw_txn_id t) page offset data len (db_pool s, db_wal s) = Inr (p', w')"
    using w'(1) b(1) by (simp add: PageHandle_write_def)
  from db_step.step_write [OF live room b(1,2,4) this, of traverse] show thesis
    using that [of w' p'] w'(2) k(3,5,6,7) by simp
qed

lemma fresh_db_simps:
  "db_live (fresh_db f n syncs) = None" "fsync_results (db_wal (fresh_db f n syncs)) = syncs"
  "next_lsn (db_wal (fresh_db f n syncs)) = 0" "records (db_wal (fresh_db f n syncs)) = []"
  "\<not> checkpoint_pending (db_wal (fresh_db f n syncs))" "refcounts (db_pool (fresh_db f n syncs)) = replicate n 0"
  by (simp_all add: fresh_db_def WAL_init_def refcounts_def BufferPool_init_def PageMetadata_reset_def map_replicate)

lemma example_run:
  obtains s where "db_run remdups (fresh_db empty_file 4 []) [Begin, Write 5 0 [1] 1, Commit] s"
    "lsn_room (db_wal s)"
proof -
  define s0 where "s0 = fresh_db empty_file 4 []"
  note f0 = fresh_db_simps [of empty_file 4 "[]", folded s0_def]
  define a0 where "a0 = \<lparr>current = file_page empty_file, committed = file_page empty_file\<rparr>"
  have sim0: "simulates s0 a0" unfolding s0_def a0_def by (rule fresh_simulates [OF empty_file_inv])
  have room0: "lsn_room (db_wal s0)" by (simp add: lsn_room_def f0)
  obtain t w1 where 1: "db_step remdups s0 Begin (s0\<lparr>db_wal := w1, db_live := Some t\<rparr>)"
    "next_lsn w1 = 1" "length (records w1) = 1" "fsync_results w1 = []"
    by (rule begin_step [OF f0(1) room0 f0(5), of remdups]) (rule that; simp add: f0)
  define s1 where "s1 = s0\<lparr>db_wal := w1, db_live := Some t\<rparr>"
  obtain a1 where sim1: "simulates s1 a1"
    using step_simulates [OF 1(1) sim0 traverses_remdups] by (auto simp: s1_def)
  have f1: "db_live s1 = Some t" "lsn_room (db_wal s1)" "fsync_results (db_wal s1) = []"
    "0 \<in> set (refcounts (db_pool s1))"
    using 1 f0(6) by (simp_all add: s1_def lsn_room_def)
  obtain p2 w2 where 2: "db_step remdups s1 (Write 5 0 [1] 1) (s1\<lparr>db_pool := p2, db_wal := w2\<rparr>)"
    "next_lsn w2 = 2" "length (records w2) = 2" "fsync_results w2 = []"
    by (rule write_step [OF sim1 f1, of 5 0 1 "[1]" remdups]) (use 1(2,3) in \<open>simp_all add: s1_def\<close>)
  define s2 where "s2 = s1\<lparr>db_pool := p2, db_wal := w2\<rparr>"
  obtain a2 where sim2: "simulates s2 a2"
    using step_simulates [OF 2(1) sim1 traverses_remdups] by (auto simp: s2_def)
  have f2: "db_live s2 = Some t" "lsn_room (db_wal s2)" "fsync_results (db_wal s2) = []"
    using 2 f1(1) by (simp_all add: s2_def lsn_room_def)
  obtain w3 where 3: "db_step remdups s2 Commit (s2\<lparr>db_wal := w3, db_live := None\<rparr>)"
    "next_lsn w3 = 3" "length (records w3) = 3"
    by (rule commit_step [OF sim2 f2, of remdups]) (rule that; use 2(2,3) in \<open>simp add: s2_def\<close>)
  have "db_run remdups s0 ([] @ [Begin]) s1" unfolding s1_def by (rule run_snoc [OF run_Nil 1(1)])
  then have "db_run remdups s0 (([] @ [Begin]) @ [Write 5 0 [1] 1]) s2"
    unfolding s2_def by (rule run_snoc [OF _ 2(1)])
  then have "db_run remdups s0 ((([] @ [Begin]) @ [Write 5 0 [1] 1]) @ [Commit]) (s2\<lparr>db_wal := w3, db_live := None\<rparr>)"
    by (rule run_snoc [OF _ 3(1)])
  then show thesis using that 3(2,3) by (simp add: s0_def lsn_room_def)
qed

text \<open>C15: The page store refines its specification: whatever transactions, readers, evictions,
  checkpoints and crashes do, in any order the locks allow, every reader sees the current version of
  a page: the last write of the live transaction or else the committed version, with aborts and
  crashes leading back to the latter.\<close>

theorem page_store_refines:
  assumes "traverses traverse" "file_inv f" "db_run traverse (fresh_db f n syncs) es s"
  shows "\<exists>a. spec_run es \<lparr>current = file_page f, committed = file_page f\<rparr> = Some a \<and>
    view (db_pool s) = current a"
  using reachable_simulates [OF assms] by (metis simulates_def)

theorem page_store_refines_witness:
  "\<exists>s. db_run remdups (fresh_db empty_file 4 []) [Begin, Write 5 0 [1] 1, Commit] s \<and> view (db_pool s) 5 0 = 1"
proof -
  obtain s where s: "db_run remdups (fresh_db empty_file 4 []) [Begin, Write 5 0 [1] 1, Commit] s"
    using example_run by metis
  from page_store_refines [OF traverses_remdups empty_file_inv s] have "view (db_pool s) 5 0 = 1"
    by (auto simp: pad_def blit_def)
  with s show ?thesis by blast
qed

text \<open>C16: After a crash at any point between two operations, opening the files again always
  succeeds (as long as LSNs are left), with any number of pool slots, and leads exactly to the
  committed version: every committed transaction is there, nothing of any other is.\<close>

theorem crash_recovers_committed:
  assumes "traverses traverse" "file_inv f" "db_run traverse (fresh_db f n syncs) es s"
    "lsn_room (db_wal s)" "0 < m"
  shows "\<exists>a s'. spec_run es \<lparr>current = file_page f, committed = file_page f\<rparr> = Some a \<and>
    db_step traverse s (Crash m) s' \<and> view (db_pool s') = committed a"
proof -
  obtain a where a: "spec_run es \<lparr>current = file_page f, committed = file_page f\<rparr> = Some a" "simulates s a"
    using reachable_simulates [OF assms(1-3)] .
  obtain base R where inv: "sys_inv (db_pool s) (db_wal s) (map_option rw_txn_id (db_live s)) base R (committed a)"
    using simulatesD [OF a(2)] by metis
  have "next_lsn (db_wal s) + 2 * length (records (db_wal s)) < 2 ^ 32" using assms(4) by (simp add: lsn_room_def)
  then obtain p' w' where
    "WAL_open traverse (Some (wal_disk (db_wal s))) [] (BufferPool_init (fd (db_pool s)) m) = Some (Inr (p', w'))"
    "view p' = committed a"
    using reopen_returns [OF inv _ assms(1,5)] by metis
  then show ?thesis using db_step.step_crash [OF assms(4,5)] a(1) by fastforce
qed

theorem crash_recovers_committed_witness:
  "\<exists>s s'. db_run remdups (fresh_db empty_file 4 []) [Begin, Write 5 0 [1] 1, Commit] s \<and>
    db_step remdups s (Crash 1) s' \<and> view (db_pool s') 5 0 = 1"
proof -
  obtain s where s: "db_run remdups (fresh_db empty_file 4 []) [Begin, Write 5 0 [1] 1, Commit] s"
    "lsn_room (db_wal s)"
    using example_run by metis
  have one: "0 < (1::nat)" by simp
  from crash_recovers_committed [OF traverses_remdups empty_file_inv s one]
  obtain s' where "db_step remdups s (Crash 1) s'" "view (db_pool s') 5 0 = 1"
    by (auto simp: pad_def blit_def)
  with s(1) show ?thesis by blast
qed

text \<open>C17: In every reachable state a live transaction can write to any page, commit and abort, and
  without one a checkpoint can finish, provided a slot of the pool is free, syncing works and LSNs
  are left; with a live transaction no checkpoint finishes.\<close>

theorem page_store_progress:
  assumes "traverses traverse" "file_inv f" "db_run traverse (fresh_db f n syncs) es s"
    "lsn_room (db_wal s)" "fsync_results (db_wal s) = []" "0 \<in> set (refcounts (db_pool s))"
    "length data \<le> PAGE_SIZE"
  shows "case db_live s of
      None \<Rightarrow> \<exists>p' w'. checkpoint_finish (db_pool s, db_wal s) = Some (Inr (p', w'))
    | Some t \<Rightarrow> (\<exists>s'. db_step traverse s Commit s') \<and> (\<exists>s'. db_step traverse s Abort s') \<and>
        (\<forall>page<2 ^ 51. \<exists>s'. db_step traverse s (Write page 0 data PAGE_SIZE) s') \<and>
        checkpoint_finish (db_pool s, db_wal s) = None"
proof -
  obtain a where sim: "simulates s a" using reachable_simulates [OF assms(1-3)] .
  obtain base R where inv: "sys_inv (db_pool s) (db_wal s) (map_option rw_txn_id (db_live s)) base R (committed a)"
    and t: "\<And>t. db_live s = Some t \<Longrightarrow> rw_has_wal t \<and> rw_state t = UNCOMMITTED"
    using simulatesD [OF sim] by metis
  show ?thesis
  proof (cases "db_live s")
    case None
    then have "sys_inv (db_pool s) (db_wal s) None base R (committed a)" using inv by simp
    from checkpoint_returns [OF this assms(5)] obtain p' w' where
      "checkpoint_finish (db_pool s, db_wal s) = Some (Inr (p', w'))" .
    then show ?thesis using None by simp
  next
    case (Some u)
    have inv': "sys_inv (db_pool s) (db_wal s) (Some (rw_txn_id u)) base R (committed a)" using inv Some by simp
    have r: "next_lsn (db_wal s) + length (records (db_wal s)) + 3 < 2 ^ 32" using assms(4) by (simp add: lsn_room_def)
    obtain p' w' where "wal_abort (rw_txn_id u) (db_pool s, db_wal s) = Inr (p', w')"
      using abort_returns [OF inv' assms(5,6) r] by metis
    then have "RWTransaction_abort u (db_pool s, db_wal s) = Inr (u\<lparr>rw_state := ABORTED\<rparr>, p', w')"
      using t [OF Some] by (simp add: RWTransaction_abort_def)
    from db_step.step_abort [OF Some assms(4) this]
    have "\<exists>s'. db_step traverse s Abort s'" by blast
    moreover have "\<exists>s'. db_step traverse s Commit s'" using commit_step [OF sim Some assms(4,5)] by metis
    moreover have "\<exists>s'. db_step traverse s (Write page 0 data PAGE_SIZE) s'" if "page < 2 ^ 51" for page
      using write_step [OF sim Some assms(4-6), of page 0 PAGE_SIZE data traverse] that assms(7)
      by fastforce
    moreover have "checkpoint_finish (db_pool s, db_wal s) = None"
      using sys_invD(5) [OF inv'] by (simp add: checkpoint_finish_def)
      ultimately show ?thesis using Some by simp
  qed
qed

theorem page_store_progress_witness:
  "\<exists>p' w'. checkpoint_finish (db_pool (fresh_db empty_file 4 []), db_wal (fresh_db empty_file 4 [])) = Some (Inr (p', w'))"
proof -
  have "lsn_room (db_wal (fresh_db empty_file 4 []))" "0 \<in> set (refcounts (db_pool (fresh_db empty_file 4 [])))"
    "length ([] :: byte list) \<le> PAGE_SIZE"
    by (simp_all add: fresh_db_simps lsn_room_def)
  from page_store_progress [OF traverses_remdups empty_file_inv run_Nil this(1) _ this(2,3)]
  show ?thesis by (simp add: fresh_db_simps)
qed

end
