(* ===== verification/Wal_Properties.thy ===== *)
theory Wal_Properties
  imports Prelude Wal_Record Redo Buffer_Pool Wal Durability Transactions Recovery Database
begin

text \<open>
  Properties of the single operations of the log: undoing by compensation records, replaying over
  pages of different ages, when syncing gives up, what is on stable storage after a commit; and
  the situations in which the code breaks one of its promises: after a failed sync, when LSNs wrap
  around, with concurrent transactions, after a checkpoint that leaves records to be flushed later.
\<close>

section \<open>Undo and redo\<close>

text \<open>C23: The compensation of a change restores the pages as they were before it, for every range
  within a page and every new value that fits it.\<close>

theorem compensation_restores:
  fixes v :: "nat \<Rightarrow> page"
  assumes "length data \<le> len" "loc mod PAGE_SIZE + len \<le> PAGE_SIZE"
    "l < 2 ^ 32" "T < 2 ^ 32" "loc < 2 ^ 64" "l' < 2 ^ 32"
  shows "\<exists>c. create_compensation_record (set_record l T loc data len (v (loc div PAGE_SIZE))) l' = Inr c \<and>
    redo c (redo (set_record l T loc data len (v (loc div PAGE_SIZE))) v) = v"
proof -
  define r where "r = set_record l T loc data len (v (loc div PAGE_SIZE))"
  note k = set_record_restores [where v = v, OF assms(1-5), folded r_def]
  obtain s where s: "rec_body r = SET s" using k(3) by (auto simp: is_set_def split: wal_body.splits)
  obtain c where "create_compensation_record r l' = Inr c" "redo_write c = undo_write r"
    using compensation_good [OF k(1) s assms(6)] by metis
  then have "create_compensation_record r l' = Inr c \<and> redo c (redo r v) = v"
    using k(7) by (simp add: redo_def)
  then show ?thesis unfolding r_def [symmetric] by blast
qed

theorem compensation_restores_witness:
  "\<exists>c. create_compensation_record (set_record 3 1 4100 [7, 8] 5 zero_page) 9 = Inr c \<and>
    redo c (redo (set_record 3 1 4100 [7, 8] 5 zero_page) (\<lambda>_. zero_page)) = (\<lambda>_. zero_page)"
  using compensation_restores [of "[7, 8]" 5 4100 3 1 9 "\<lambda>_. zero_page"] by simp

text \<open>C22: Replaying a log gives the same pages whichever changes had already reached the data file,
  independently for each page, as long as each page holds the changes of some prefix of the log.\<close>

theorem replay_ignores_page_ages:
  assumes "\<And>f. vs f = redo_all (take (m f) rs) v f"
    "workable p w" "below n rs" "n < 2 ^ 32" "next_lsn w \<le> n" "next_txn_id w \<le> next_lsn w" "view p = vs"
  shows "\<exists>p' w'. recover_redo rs (p, w) = Inr (p', w') \<and> view p' = redo_all rs v"
proof -
  have "redo_all rs vs = redo_all rs v" by (rule redo_all_mixed) (use assms(1) in blast)
  then show ?thesis using recover_redo_returns [OF assms(2-6)] assms(7) by metis
qed

lemma workable_fresh: "file_inv f \<Longrightarrow> 0 < n \<Longrightarrow> workable (BufferPool_init f n) (WAL_init [] [])"
  using crash_safeD(1,2) [OF sys_invD(1) [OF fresh_inv [of f n "[]"]]]
  by (simp add: workable_def refcounts_def BufferPool_init_def PageMetadata_reset_def map_replicate WAL_init_def)

theorem replay_ignores_page_ages_witness:
  "\<exists>p' w'. recover_redo [set_record 0 0 0 [7] 1 zero_page] (BufferPool_init empty_file 1, WAL_init [] []) = Inr (p', w') \<and>
    view p' = redo_all [set_record 0 0 0 [7] 1 zero_page] (file_page empty_file)"
proof -
  define r where "r = set_record 0 0 0 [7] 1 zero_page"
  have r: "good_record r" "rec_lsn r = 0" "rec_txn_id r = 0"
    using set_record_restores(1,4,5) [of "[7]" 1 0 0 0 "\<lambda>_. zero_page"] by (simp_all add: r_def)
  have v: "view (BufferPool_init empty_file 1) = file_page empty_file"
    using fresh_inv [OF empty_file_inv, of 1 "[]"] view_committed by blast
  show ?thesis
    unfolding r_def [symmetric]
    using replay_ignores_page_ages [of "file_page empty_file" "\<lambda>_. 0" "[r]" "file_page empty_file"
        "BufferPool_init empty_file 1" "WAL_init [] []" 1] r v workable_fresh [OF empty_file_inv, of 1]
    by (simp add: below_def WAL_init_def)
qed

section \<open>Syncing\<close>

text \<open>A log with one change waiting to be flushed.\<close>

definition one_record_log :: "bool list \<Rightarrow> WAL" where
  "one_record_log syncs = push_record (set_record 0 0 0 [7] 1 zero_page) (bump_lsn (WAL_init [] syncs))"

lemma one_record_log_ok: "wal_ok (one_record_log syncs)" "unflushed (one_record_log syncs) \<noteq> []"
  using set_record_restores(1) [of "[7]" 1 0 0 0 "\<lambda>_. zero_page"]
  by (simp_all add: one_record_log_def wal_ok_def unflushed_def push_record_def bump_lsn_def WAL_init_def)

text \<open>\<open>sync_log\<close> fails exactly if three attempts fail; it stops at the first that succeeds, and
  then the log file is on stable storage.\<close>

theorem sync_log_attempts:
  "sync_log w =
    (case fsync_results w of
       False # False # False # results \<Rightarrow>
         Inl (DiskMapException ''WAL::sync: fsync failed three times. Data cannot be saved properly.'')
     | False # False # results \<Rightarrow> Inr (w\<lparr>fsync_results := tl results, wal_disk := wal_fd w\<rparr>)
     | False # results \<Rightarrow> Inr (w\<lparr>fsync_results := tl results, wal_disk := wal_fd w\<rparr>)
     | results \<Rightarrow> Inr (w\<lparr>fsync_results := tl results, wal_disk := wal_fd w\<rparr>))"
  by (simp add: sync_log_def numeral_3_eq_3 Let_def split: list.splits bool.splits)

text \<open>C21: When \<open>commit\<close> returns, the log file on stable storage holds, after what it held before,
  all records that had not been flushed and the COMMIT record, and nothing is left to be flushed.\<close>

theorem commit_is_durable:
  assumes "wal_ok w" "wal_commit T w = Inr w'" "next_lsn w < 2 ^ 32" "T < 2 ^ 32"
  shows "take (log_pos w') (wal_disk w') = take (log_pos w) (wal_disk w) @
      encode_all (unflushed w @ [new_record (next_lsn w) T COMMIT []]) \<and> unflushed w' = []"
proof -
  define w1 where "w1 = log_control T COMMIT w"
  define r where "r = new_record (next_lsn w) T COMMIT []"
  note d = wal_okD [OF assms(1)]
  have w1: "unflushed w1 = unflushed w @ [r]" "log_pos w1 = log_pos w" "wal_fd w1 = wal_fd w"
    using d(2) by (simp_all add: w1_def r_def log_control_def push_record_def bump_lsn_def unflushed_def)
  have "\<forall>x\<in>set (unflushed w1). good_record x"
    unfolding w1(1) using d(5) new_record_good [of "next_lsn w" T COMMIT "[]"] assms(3,4) by (auto simp: r_def)
  note f = flush_write_ok [OF this]
  obtain w2 where w2: "wal_flush w1 = Inr w2" "w' = w2\<lparr>active_transactions := active_transactions w2 - 1\<rparr>"
    using assms(2) by (auto simp: wal_commit_def w1_def [symmetric] bindR_Inr)
  then obtain results where w2': "w2 = w1\<lparr>wal_fd := pwrite_log (log_pos w) (encode_all (unflushed w @ [r])) (wal_fd w),
      log_pos := log_pos w + length (encode_all (unflushed w @ [r])), unflushed_record_index := length (records w1),
      fsync_results := results, wal_disk := pwrite_log (log_pos w) (encode_all (unflushed w @ [r])) (wal_fd w)\<rparr>"
    using f sync_log_Inr by (fastforce simp: wal_flush_def w1)
  show ?thesis
    using take_pwrite_log [OF d(3), of "encode_all (unflushed w @ [r])"] d(1)
    by (simp add: w2(2) w2' r_def unflushed_def del: encode_all_simps)
qed

theorem commit_is_durable_witness:
  "\<exists>w'. wal_commit 0 (one_record_log [True]) = Inr w' \<and> unflushed w' = [] \<and>
    take (log_pos w') (wal_disk w') =
      encode_all (unflushed (one_record_log [True]) @ [new_record 1 0 COMMIT []])"
proof -
  have n: "next_lsn (one_record_log [True]) = 1" "log_pos (one_record_log [True]) = 0"
    by (simp_all add: one_record_log_def push_record_def bump_lsn_def WAL_init_def)
  have g: "\<forall>r\<in>set (unflushed (log_control 0 COMMIT (one_record_log [True]))). good_record r"
    using set_record_restores(1) [of "[7]" 1 0 0 0 "\<lambda>_. zero_page"] new_record_good [of 1 0 COMMIT "[]"]
    by (simp add: one_record_log_def push_record_def bump_lsn_def WAL_init_def log_control_def unflushed_def)
  have "fsync_results (log_control 0 COMMIT (one_record_log [True])) = [True]"
    by (simp add: one_record_log_def push_record_def bump_lsn_def WAL_init_def log_control_def)
  then obtain w' where "wal_commit 0 (one_record_log [True]) = Inr w'"
    using flush_write_ok [OF g] by (simp add: wal_commit_def wal_flush_def sync_log_def numeral_3_eq_3)
  with commit_is_durable [OF one_record_log_ok(1) this] show ?thesis by (simp add: n)
qed

section \<open>Situations that break a promise\<close>

text \<open>C24: After a \<open>flush\<close> whose sync failed, the log object takes its records for flushed although
  the log file on stable storage does not hold them: the exception is the only trace, every later
  \<open>flush_up_to\<close> does nothing and succeeds, so dirty pages may go to the data file without their
  log records.\<close>

theorem failed_sync_is_forgotten:
  assumes "wal_ok w" "unflushed w \<noteq> []" "fsync_results w = [False, False, False]"
  shows "\<exists>w1. flush_write w = Inr w1 \<and> sync_log w1 =
      Inl (DiskMapException ''WAL::sync: fsync failed three times. Data cannot be saved properly.'') \<and>
    wal_disk w1 = wal_disk w \<and> unflushed w1 = [] \<and> flush_up_to l w1 = Inr w1"
proof -
  have "\<forall>r\<in>set (unflushed w). good_record r" using wal_okD(5) [OF assms(1)] by blast
  from flush_write_ok [OF this] show ?thesis
    using assms(3) by (simp add: sync_log_def numeral_3_eq_3 unflushed_def flush_up_to_def)
qed

theorem failed_sync_is_forgotten_witness:
  "\<exists>w1. flush_write (one_record_log [False, False, False]) = Inr w1 \<and> wal_disk w1 = [] \<and> unflushed w1 = [] \<and>
    flush_up_to 0 w1 = Inr w1"
  using failed_sync_is_forgotten [OF one_record_log_ok, of "[False, False, False]" 0]
  by (auto simp: one_record_log_def push_record_def bump_lsn_def WAL_init_def)

text \<open>C25: When the 32-bit LSN wraps around while a record waits to be flushed, \<open>flush_up_to\<close> with
  the LSN of the record after it does nothing: the comparison of LSNs is not modular.  A page changed
  by that record can go to the data file before its log record.\<close>

theorem lsn_wrap_breaks_flush:
  assumes "next_lsn w = 2 ^ 32 - 1" "unflushed_record_index w = length (records w)"
  shows "flush_up_to (rec_lsn (last (records (log_control T b (log_control T a w))))) (log_control T b (log_control T a w))
      = Inr (log_control T b (log_control T a w)) \<and>
    last (records (log_control T b (log_control T a w))) \<in> set (unflushed (log_control T b (log_control T a w)))"
  using assms by (simp add: log_control_def push_record_def bump_lsn_def flush_up_to_def unflushed_def new_record_def)

theorem lsn_wrap_breaks_flush_witness:
  "\<exists>w. length (unflushed w) = 2 \<and> flush_up_to (rec_lsn (last (records w))) w = Inr w"
proof (intro exI conjI)
  let ?w = "(WAL_init [] [])\<lparr>next_lsn := 2 ^ 32 - 1\<rparr>"
  show "flush_up_to (rec_lsn (last (records (log_control 0 COMMIT (log_control 0 BEGIN ?w)))))
      (log_control 0 COMMIT (log_control 0 BEGIN ?w)) = Inr (log_control 0 COMMIT (log_control 0 BEGIN ?w))"
    using lsn_wrap_breaks_flush [of ?w 0 COMMIT BEGIN] by (simp add: WAL_init_def)
  show "length (unflushed (log_control 0 COMMIT (log_control 0 BEGIN ?w))) = 2"
    by (simp add: WAL_init_def log_control_def push_record_def bump_lsn_def unflushed_def)
qed

lemma find_begin_append: "find_begin T xs = None \<Longrightarrow> find_begin T (xs @ ys) = map_option ((+) (length xs)) (find_begin T ys)"
proof (induction xs)
  case Nil
  then show ?case by (cases "find_begin T ys") simp_all
next
  case (Cons x xs)
  then show ?case by (cases "find_begin T ys") (auto split: if_splits)
qed

lemma collect_undo_none:
  "\<forall>i\<in>set is. rec_txn_id (rs ! i) = T \<longrightarrow> \<not> is_set (rs ! i) \<and> (\<forall>c. rec_body (rs ! i) \<noteq> CLR c) \<Longrightarrow>
   collect_undo T rs is [] = Inr []"
  by (induction "is") (auto simp: is_set_def split: wal_body.splits)

text \<open>\<open>begin\<close> hands out the LSN of the BEGIN record as the id of the transaction, while the
  record itself carries the number of transactions begun before.  If the BEGIN record of a later
  transaction carries the id of a running one, \<open>abort\<close> of the latter starts to look for changes
  only there: it succeeds without undoing any of the changes before it.\<close>

theorem abort_misses_changes:
  assumes "records w = pre @ b # post" "rec_txn_id b = T" "rec_body b = BEGIN" "find_begin T pre = None"
    "\<forall>r\<in>set post. rec_txn_id r \<noteq> T"
  shows "\<exists>w'. wal_abort T (p, w) = Inr (p, w')"
proof -
  define e where "e = new_record (next_lsn w) T ABORT_BEGIN []"
  define rs where "rs = pre @ b # post @ [e]"
  have r: "records (log_control T ABORT_BEGIN w) = rs"
    using assms(1) by (simp add: log_control_def push_record_def bump_lsn_def rs_def e_def)
  have f: "find_begin T rs = Some (length pre)"
    unfolding rs_def find_begin_append [OF assms(4)] using assms(2,3) by simp
  have "collect_undo T rs [Suc (length pre)..<length rs] [] = Inr []"
  proof (rule collect_undo_none, intro ballI impI)
    fix i assume i: "i \<in> set [Suc (length pre)..<length rs]" and t: "rec_txn_id (rs ! i) = T"
    define j where "j = i - Suc (length pre)"
    have j: "i = Suc (length pre) + j" "j < length (post @ [e])" using i by (auto simp: rs_def j_def)
    then have "rs ! i = (post @ [e]) ! j" by (simp add: rs_def nth_append)
    then have "rs ! i \<in> set (post @ [e])" using j(2) nth_mem by metis
    then have "rs ! i = e" using assms(5) t by auto
    then show "\<not> is_set (rs ! i) \<and> (\<forall>c. rec_body (rs ! i) \<noteq> CLR c)" by (simp add: e_def is_set_def)
  qed
  then show ?thesis by (simp add: wal_abort_def Let_def r f)
qed

text \<open>One transaction begins and commits; a second one gets the id 2 and changes a byte; the BEGIN
  record of a third carries the number 2.\<close>

definition concurrent_log :: "WAL \<Rightarrow> WAL option" where
  "concurrent_log w = Option.bind (wal_begin w) (\<lambda>(t0, w). Option.bind (wal_begin (log_control t0 COMMIT w)) (\<lambda>(t1, w).
     map_option snd (wal_begin (push_record (set_record (next_lsn w) t1 0 [7] 1 zero_page) (bump_lsn w)))))"

theorem abort_misses_changes_witness:
  "\<exists>w w'. concurrent_log (WAL_init [] []) = Some w \<and> (\<exists>r\<in>set (records w). is_set r \<and> rec_txn_id r = 2) \<and>
    wal_abort 2 (BufferPool_init empty_file 1, w) = Inr (BufferPool_init empty_file 1, w')"
proof -
  define s where "s = set_record 3 2 0 [7] 1 zero_page"
  have s: "is_set s" "rec_txn_id s = 2" "rec_body s \<noteq> BEGIN"
    using set_record_restores(3,5) [of "[7]" 1 0 3 2 "\<lambda>_. zero_page"] by (auto simp: s_def is_set_def)
  define pre where "pre = [new_record 0 0 BEGIN [], new_record 1 0 COMMIT [], new_record 2 1 BEGIN [], s]"
  obtain w where w: "concurrent_log (WAL_init [] []) = Some w" "records w = pre @ new_record 4 2 BEGIN [] # []"
    by (simp add: concurrent_log_def wal_begin_def Let_def WAL_init_def log_control_def push_record_def
        bump_lsn_def bump_txn_id_def pre_def s_def flip: One_nat_def numeral_2_eq_2)
  have "find_begin 2 pre = None" using s(3) by (simp add: pre_def)
  then obtain w' where "wal_abort 2 (BufferPool_init empty_file 1, w) = Inr (BufferPool_init empty_file 1, w')"
    using abort_misses_changes [OF w(2)] by auto
  moreover have "s \<in> set (records w)" by (simp add: w(2) pre_def)
  ultimately show ?thesis using w(1) s(1,2) by blast
qed

section \<open>Records left over by a checkpoint\<close>

lemma undo_write_set: "undo_write r = Some x \<Longrightarrow> is_set r" 
  by (cases "rec_body r") (auto simp: undo_write.simps is_set_def)

lemma set_writes: "is_set r \<Longrightarrow> page_of r \<noteq> None"
  by (cases "rec_body r") (auto simp: page_of_def redo_write.simps is_set_def)

lemma undo_after_redo:
  assumes "good_record r" "undo_write r = Some (g, off, old)"
  shows "write_bytes (undo_write r) (redo r v) = v(g := blit (v g) off old)"
proof -
  obtain b where b: "rec_body r = SET b" using assms(2) by (cases "rec_body r") (auto simp: undo_write.simps)
  have fit: "set_new_value_len b \<le> set_length b" "set_old_value_len b \<le> set_length b" "length (rec_data r) = set_old_value_len b + set_new_value_len b"
    using assms(1) b by (simp_all add: good_record_def valid_record_def wf_record_def)
  obtain new where new: "redo_write r = Some (g, off, new)" "length new = length old"
    using assms(2) b fit by (auto simp: undo_write.simps redo_write.simps)
  then show ?thesis using assms(2) by (simp add: redo_def write_bytes_def blit_blit_overwrite)
qed

text \<open>Records of which the last one is the only change, by a transaction that has not finished.\<close>

lemma recovered_first_change:
  assumes "\<forall>b\<in>set bs. page_of b = None" "good_record r" "undo_write r = Some (g, off, old)" "rec_txn_id r \<notin> finished_txns bs"
  shows "recovered (bs @ [r]) v = v(g := blit (v g) off old)"
proof -
  have r: "is_set r" "\<not> is_end r" using undo_write_set [OF assms(3)] end_not_set by blast+
  have "\<not> is_set b" if "b \<in> set bs" for b using assms(1) set_writes that by blast
  then have "losers bs = []" by (simp add: losers_def filter_empty_conv)
  then have "losers (bs @ [r]) = [r]" using r assms(4) by (simp add: losers_snoc)
  moreover have "redo_all bs v = v" using assms(1) by (intro redo_all_none) (simp add: page_of_def)
  ultimately show ?thesis using undo_after_redo [OF assms(2,3)] by (simp add: recovered_def undo_all_def)
qed

lemma encode_all_empty: "encode_all rs = [] \<Longrightarrow> \<forall>r\<in>set rs. good_record r \<Longrightarrow> rs = []"
  using length_encode_pos by (cases rs) (auto simp: good_record_def)

text \<open>An empty log file: all records wait to be flushed, and the data file holds the committed pages.\<close>

lemma empty_log:
  assumes inv: "sys_inv p w live base R C" and e: "wal_fd w = []"
  shows "R = unflushed w" "log_pos w = 0" "file_page (fd p) = C"
proof -
  note s = sys_invD [OF inv]
  obtain L stale where L: "R = L @ unflushed w" "db_inv p w base L stale (length R)" using s(1) unfolding crash_safe_def by blast
  note d = db_invD [OF L(2)]
  have "encode_all L = []" using d(3) e by (simp add: log_holds_def)
  moreover have "\<forall>r\<in>set L. good_record r" using log_invD(1) [OF s(2)] L(1) by simp
  ultimately show "R = unflushed w" using L(1) encode_all_empty by auto
  show "log_pos w = 0" using d(4) e by simp
  obtain L' where L': "wal_disk w = encode_all L'" "good_log (next_lsn w) L'" "recovered L' (file_page (fd p)) = C"
    by (rule crash_image [OF inv])
  have "encode_all L' = []" using L'(1) wal_okD(1) [OF d(2)] e by simp
  moreover have "\<forall>r\<in>set L'. good_record r" using L'(2) by (simp add: good_log_def below_def)
  ultimately have "L' = []" using encode_all_empty by blast
  then show "file_page (fd p) = C" using L'(3) by simp
qed

text \<open>The next flush, and what is left of it when only its first bytes reach the disk.\<close>

lemma torn_flush:
  assumes inv: "sys_inv p w (Some T) base R C" and e: "wal_fd w = []" and u: "unflushed w = bs @ r # rs"
    and b: "\<forall>b\<in>set bs. page_of b = None" and r: "undo_write r = Some (g, off, old)"
    and room: "lsn_room w" and tr: "traverses traverse" and m: "0 < m"
  obtains w2 p' w' where "flush_write (log_control T COMMIT w) = Inr w2" "WAL_open traverse (Some (take (length (encode_all (bs @ [r]))) (wal_fd w2))) [] (BufferPool_init (fd p) m) = Some (Inr (p', w'))"
    "view p' = C(g := blit (C g) off old)"
proof -
  note s = sys_invD [OF inv]
  note l = log_invD [OF s(2)]
  note em = empty_log [OF inv e]
  define L where "L = bs @ [r]"
  have R: "R = L @ rs" using em(1) u by (simp add: L_def)
  have n: "next_lsn w + 1 < 2 ^ 32" "next_lsn w + 2 * length L < 2 ^ 32" using room l(9) R by (simp_all add: lsn_room_def)
  have T: "T \<le> next_lsn w" using s(4) by (simp add: live_inv_def)
  define c where "c = new_record (next_lsn w) T COMMIT []"
  note k = control_kept [OF s(1,2) n(1) T, of COMMIT, folded c_def]
  have u1: "unflushed (log_control T COMMIT w) = L @ rs @ [c]"
    using u wal_okD(2) [OF crash_safeD(2) [OF k(8)]] by (simp add: k(7) L_def)
  have fields: "wal_fd (log_control T COMMIT w) = []" "log_pos (log_control T COMMIT w) = 0"
    using e em(2) by (simp_all add: log_control_def push_record_def bump_lsn_def)
  have "\<forall>x\<in>set (unflushed (log_control T COMMIT w)). good_record x" unfolding u1 using l(1) R k(1) by auto
  from flush_write_ok [OF this] obtain w2 where w2: "flush_write (log_control T COMMIT w) = Inr w2" "wal_fd w2 = encode_all (L @ rs @ [c])"
    using u1 fields by (auto simp: pwrite_log_def)
  then have torn: "take (length (encode_all L)) (wal_fd w2) = encode_all L" by simp
  have good: "good_log (next_lsn w) L"
    unfolding good_log_def
  proof (intro conjI allI impI)
    show "below (next_lsn w) L" using s(2) by (auto simp: below_def log_inv_def R)
    show "\<forall>r\<in>set L. rec_lsn (hd L) \<le> rec_lsn r" using s(2) by (cases L) (auto simp: log_inv_def R)
    show "rec_txn_id x \<notin> finished_txns X" if "L = X @ x # Y" "is_set x" for X x Y
      using bracketedD(1) [OF s(3), of X x "Y @ rs"] that R by simp
  qed
  have fin: "file_inv (fd p)" using crash_safeD(1) [OF s(1)] pool_invD(10) by blast
  have g: "good_record r" "rec_txn_id r \<notin> finished_txns bs"
    using l(1) R bracketedD(1) [OF s(3), of bs r rs] undo_write_set [OF r] by (auto simp: L_def)
  obtain p' w' where "WAL_open traverse (Some (encode_all L)) [] (BufferPool_init (fd p) m) = Some (Inr (p', w'))"
    "view p' = recovered L (file_page (fd p))"
    by (rule open_returns [OF good n(2) fin tr m])
  then show thesis using that w2(1) recovered_first_change [OF b g(1) r g(2)] torn em(3) by (simp add: L_def)
qed


lemma spec_run_append: "spec_run (es @ es') a = Option.bind (spec_run es a) (spec_run es')"
proof (induction es arbitrary: a)
  case (Cons e es)
  show ?case by (cases "spec_step e a") (simp_all add: Cons.IH)
qed simp

text \<open>A log that recovery does not flush again.\<close>

lemma apply_to_fresh_pool:
  assumes "good_record r" "file_inv f" "0 < m"
  obtains p where "apply_record r (BufferPool_init f m, w) = Inr (p, w)"
proof (cases "redo_write r")
  case None
  then show thesis using apply_record_none that by blast
next
  case (Some x)
  then obtain g off bs where x: "redo_write r = Some (g, off, bs)" by (cases x) auto
  note inv = pool_inv_init [OF assms(2), of m]
  obtain loc len new where a: "apply_record r (BufferPool_init f m, w) = set_range loc len new (rec_lsn r) (BufferPool_init f m, w)"
    "g = loc div PAGE_SIZE" "loc mod PAGE_SIZE + len \<le> PAGE_SIZE" "length new \<le> len"
    using apply_record_range [OF assms(1) x] by metis
  have "file_to_pool_index (BufferPool_init f m) g = None" "next_pool_index (BufferPool_init f m) < pool_size (BufferPool_init f m)"
    using assms(3) by (simp_all add: BufferPool_init_def)
  note ret = retain_fresh [OF inv this, of "Some flush_up_to" False w]
  obtain p' where "set_range loc len new (rec_lsn r) (BufferPool_init f m, w) = Inr (p', w)"
    by (rule set_range_retained [OF inv ret a(2,3,4)])
  then show thesis using that a(1) by simp
qed

lemma open_one_change:
  fixes b r c :: InMemoryWALRecord
  assumes L: "good_record b" "good_record r" "good_record c" "redo_write b = None" "redo_write c = None"
    and ids: "rec_body c = COMMIT" "rec_txn_id b = rec_txn_id c" "rec_txn_id r = rec_txn_id c"
    and lsn: "rec_lsn b < 9" "rec_lsn r < 9" "rec_lsn c < 9"
    and f: "file_inv f" "0 < m" and tr: "traverses traverse"
    and w: "WAL_open traverse (Some (encode_all [b, r, c])) [] (BufferPool_init f m) = Some (Inr (p', w'))"
  shows "unflushed w' = [b, r, c] \<and> records w' = [b, r, c] \<and> next_lsn w' < 10 \<and> wal_fd w' = [] \<and> \<not> checkpoint_pending w'"
proof -
  define rs where "rs = [b, r, c]"
  have "\<forall>x\<in>set rs. valid_record x" using L by (simp add: rs_def good_record_def)
  from load_log_encoded [OF this, of "[]" "[]"] have load: "load_log (encode_all rs) 0 = (rs, length (encode_all rs))"
    by (simp add: rejected_def)
  define w0 where "w0 = (WAL_init (encode_all rs) [])\<lparr>records := rs, log_pos := length (encode_all rs)\<rparr>"
  define after where "after x v = v\<lparr>next_lsn := max (next_lsn v) ((rec_lsn x + 1) mod 2 ^ 32),
    next_txn_id := max (next_txn_id v) ((rec_txn_id x + 1) mod 2 ^ 32)\<rparr>" for x :: InMemoryWALRecord and v :: WAL
  obtain p1 where p1: "apply_record r (BufferPool_init f m, after b w0) = Inr (p1, after b w0)"
    by (rule apply_to_fresh_pool [OF L(2) f])
  have redo: "recover_redo rs (BufferPool_init f m, w0) = Inr (p1, after c (after r (after b w0)))"
    using p1 apply_record_none [OF L(4)] apply_record_none [OF L(5)] by (simp add: rs_def after_def)
  have "is_end c" using ids(1) by (simp add: is_end_def)
  then have "rec_txn_id c \<in> finished_txns rs" by (simp add: rs_def)
  then have fin: "\<forall>x\<in>set rs. rec_txn_id x \<in> finished_txns rs" using ids by (simp add: rs_def)
  then have none: "to_undo_indices rs = []" "aborted_txns rs = []"
    by (simp_all add: to_undo_indices_def aborted_txns_def filter_empty_conv)
  have "set (traverse []) = {}" using tr unfolding traverses_def by (metis empty_set)
  then have tn: "traverse [] = []" by simp
  have "wal_fd (WAL_init (encode_all rs) []) = encode_all rs" by (simp add: WAL_init_def)
  then have rec: "recover traverse (BufferPool_init f m, WAL_init (encode_all rs) []) = Inr (p1, after c (after r (after b w0)))"
    using load redo none tn unfolding recover_def w0_def by simp
  define w1 where "w1 = after c (after r (after b w0))"
  have w1: "records w1 = rs" "unflushed_record_index w1 = 0" "active_transactions w1 = 0" "fsync_results w1 = []" "next_lsn w1 < 10"
    using lsn by (simp_all add: w1_def after_def w0_def WAL_init_def)
  have "Some (Inr (p', w')) = checkpoint_internal (p1, w1)"
    using w rec by (simp add: WAL_open_def rs_def w1_def)
  then have "w' = w1\<lparr>checkpoint_pending := False, wal_fd := [], log_pos := 0, wal_disk := []\<rparr>"
    using w1(3,4) by (simp add: checkpoint_internal_def checkpoint_finish_def checkpoint_start_def Let_def sync_log_returns)
  then show ?thesis using w1 by (simp add: unflushed_def rs_def)
qed


text \<open>One committed change of a byte, and a crash.\<close>

definition change7 :: InMemoryWALRecord where
  "change7 = set_record 1 0 (5 * PAGE_SIZE) [7] 1 zero_page"

lemma change7_facts:
  "good_record change7" "rec_lsn change7 = 1" "rec_txn_id change7 = 0" "undo_write change7 = Some (5, 0, [0])"
  using set_record_restores(1,4,5) [of "[7]" 1 "5 * PAGE_SIZE" 1 0 "\<lambda>_. zero_page"]
  by (simp_all add: change7_def)
    (simp add: set_record_def Let_def undo_write.simps pad_def get_unpadded_length_def bytes_at_def zeros_def)

abbreviation log7 :: "InMemoryWALRecord list" where
  "log7 \<equiv> [new_record 0 0 BEGIN [], change7, new_record 2 0 COMMIT []]"

lemma log7_good: "good_record (new_record 0 0 BEGIN [])" "good_record (new_record 2 0 COMMIT [])"
  by (rule new_record_good; simp)+

lemma change7_run:
  obtains s base C where "db_run remdups (fresh_db empty_file 4 []) [Begin, Write 5 0 [7] 1, Commit] s"
    "sys_inv (db_pool s) (db_wal s) None base log7 C" "unflushed (db_wal s) = []" "lsn_room (db_wal s)" "fsync_results (db_wal s) = []"
proof -
  define s0 where "s0 = fresh_db empty_file 4 []"
  note f0 = fresh_db_simps [of empty_file 4 "[]", folded s0_def]
  have inv0: "sys_inv (db_pool s0) (db_wal s0) None (file_page empty_file) [] (file_page empty_file)"
    using fresh_inv [OF empty_file_inv] by (simp add: s0_def fresh_db_def)
  have t0: "next_txn_id (db_wal s0) = 0" by (simp add: s0_def fresh_db_def WAL_init_def)
  have room0: "lsn_room (db_wal s0)" by (simp add: lsn_room_def f0)
  obtain t w1 where 1: "db_step remdups s0 Begin (s0\<lparr>db_wal := w1, db_live := Some t\<rparr>)"
    "next_lsn w1 = 1" "length (records w1) = 1" "fsync_results w1 = []" "begin_rw_transaction (db_wal s0) = Some (t, w1)"
    by (rule begin_step [OF f0(1) room0 f0(5), of remdups]) (rule that; simp add: f0)
  obtain T v where v: "wal_begin (db_wal s0) = Some (T, v)" "t = \<lparr>rw_has_wal = True, rw_txn_id = T, rw_state = UNCOMMITTED\<rparr>"
    "w1 = v\<lparr>transactions_since_last_checkpoint := transactions_since_last_checkpoint v + 1\<rparr>"
    using 1(5) by (auto simp: begin_rw_transaction_def split: option.splits)
  have T: "rw_txn_id t = 0" "T = 0" using begin_kept(1) [OF inv0 v(1)] v(2) f0(3) by simp_all
  have inv1: "sys_inv (db_pool s0) w1 (Some 0) (file_page empty_file) [new_record 0 0 BEGIN []] (file_page empty_file)"
    using sys_inv_fields(1) [OF begin_kept(2) [OF inv0 v(1)]] T(2) v(3) f0(3) t0 by simp
  define s1 where "s1 = s0\<lparr>db_wal := w1, db_live := Some t\<rparr>"
  have s1: "db_pool s1 = db_pool s0" "db_wal s1 = w1" "db_live s1 = Some t" by (simp_all add: s1_def)
  have z: "0 \<in> set (refcounts (db_pool s0))" using f0(6) by simp
  have loc: "(5 * PAGE_SIZE) div PAGE_SIZE = 5" "(5 * PAGE_SIZE) mod PAGE_SIZE = 0" by simp_all
  obtain p2 w2 where 2: "wal_set 0 (5 * PAGE_SIZE) [7] 1 (db_pool s0, w1) = Inr (p2, w2)" "fsync_results w2 = []"
    by (rule set_returns [OF inv1 1(4) z, of "5 * PAGE_SIZE" "[7]" 1]) simp_all
  have v0: "view (db_pool s0) = file_page empty_file" by (simp add: s0_def fresh_db_def)
  have b: "5 * PAGE_SIZE < 2 ^ 64" "length [7 :: byte] \<le> 1" "next_lsn w1 + 1 < 2 ^ 32" using 1(2) by simp_all
  note k2 = set_kept [OF inv1 2(1) b]
  have inv2: "sys_inv p2 w2 (Some 0) (file_page empty_file) [new_record 0 0 BEGIN [], change7] (file_page empty_file)"
    using k2(8) 1(2) v0 by (simp add: change7_def empty_file_def)
  define s2 where "s2 = s1\<lparr>db_pool := p2, db_wal := w2\<rparr>"
  have s2: "db_pool s2 = p2" "db_wal s2 = w2" "db_live s2 = Some t" by (simp_all add: s2_def s1_def)
  have 22: "db_step remdups s1 (Write 5 0 [7] 1) s2"
    unfolding s2_def by (rule db_step.step_write [OF s1(3)])
      (use 2(1) 1(2,3) T(1) s1 in \<open>simp_all add: lsn_room_def PageHandle_write_def\<close>)
  have n2: "next_lsn w2 = 2" "length (records w2) = 2" using k2(5,6) 1(2,3) by simp_all
  have r2: "next_lsn w2 + 1 < 2 ^ 32" using n2 by simp
  obtain w3 where 3: "wal_commit 0 w2 = Inr w3" by (rule commit_returns [OF inv2 2(2) r2])
  note k3 = commit_kept [OF inv2 3 r2]
  define s3 where "s3 = s2\<lparr>db_pool := p2, db_wal := w3, db_live := None\<rparr>"
  have 33: "db_step remdups s2 Commit s3"
    unfolding s3_def by (rule db_step.step_commit [OF s2(3), where t' = "t\<lparr>rw_state := COMMITTED\<rparr>"])
      (use 3 n2 T s2 v(2) in \<open>simp_all add: lsn_room_def RWTransaction_commit_def\<close>)
  have "db_run remdups s0 ([] @ [Begin]) s1" unfolding s1_def by (rule run_snoc [OF run_Nil 1(1)])
  from run_snoc [OF run_snoc [OF this 22] 33] have "db_run remdups s0 [Begin, Write 5 0 [7] 1, Commit] s3" by simp
  moreover have "sys_inv (db_pool s3) (db_wal s3) None (file_page empty_file) log7 (view p2)"
    using k3(1) n2 by (simp add: s3_def)
  moreover have "lsn_room (db_wal s3)" using k3(2,4) n2 by (simp add: s3_def lsn_room_def)
  ultimately show thesis using that k3(3) k3(6) [OF 2(2)] unfolding s0_def s3_def by simp
qed

lemma log_on_disk:
  assumes inv: "sys_inv p w live base R C" and u: "unflushed w = []"
  shows "wal_disk w = encode_all R"
proof -
  obtain L stale where L: "R = L @ unflushed w" "db_inv p w base L stale (length R)"
    using sys_invD(1) [OF inv] unfolding crash_safe_def by blast
  note d = db_invD [OF L(2)]
  show ?thesis using d(3,4) wal_okD(1) [OF d(2)] L(1) u by (simp add: log_holds_def)
qed


lemma reopened_run:
  obtains s where "db_run remdups (fresh_db empty_file 4 []) [Begin, Write 5 0 [7] 1, Commit, Crash 4] s" "db_live s = None"
    "unflushed (db_wal s) = log7" "records (db_wal s) = log7" "next_lsn (db_wal s) < 10" "\<not> checkpoint_pending (db_wal s)"
    "fsync_results (db_wal s) = []" "view (db_pool s) 5 0 = 7"
proof -
  obtain s base C where s: "db_run remdups (fresh_db empty_file 4 []) [Begin, Write 5 0 [7] 1, Commit] s"
    "sys_inv (db_pool s) (db_wal s) None base log7 C" "unflushed (db_wal s) = []" "lsn_room (db_wal s)" "fsync_results (db_wal s) = []"
    by (rule change7_run)
  have room: "next_lsn (db_wal s) + 2 * length (records (db_wal s)) < 2 ^ 32" using s(4) by (simp add: lsn_room_def)
  obtain p' w' where w': "WAL_open remdups (Some (wal_disk (db_wal s))) [] (BufferPool_init (fd (db_pool s)) 4) = Some (Inr (p', w'))"
    "fsync_results w' = []"
    by (rule reopen_returns [OF s(2) room traverses_remdups, of 4]) simp
  have f: "file_inv (fd (db_pool s))" using crash_safeD(1) [OF sys_invD(1) [OF s(2)]] pool_invD(10) by blast
  have o: "unflushed w' = log7 \<and> records w' = log7 \<and> next_lsn w' < 10 \<and> wal_fd w' = [] \<and> \<not> checkpoint_pending w'"
    using w'(1) unfolding log_on_disk [OF s(2,3)]
    by (intro open_one_change [OF log7_good(1) change7_facts(1) log7_good(2) _ _ _ _ _ _ _ _ f _ traverses_remdups])
      (simp_all add: redo_write.simps change7_facts)
  define s' where "s' = \<lparr>db_pool = p', db_wal = w', db_live = None\<rparr>"
  have "db_step remdups s (Crash 4) s'" unfolding s'_def by (rule db_step.step_crash [OF s(4) _ w'(1)]) simp
  from run_snoc [OF s(1) this] have run: "db_run remdups (fresh_db empty_file 4 []) [Begin, Write 5 0 [7] 1, Commit, Crash 4] s'" by simp
  obtain a where "spec_run [Begin, Write 5 0 [7] 1, Commit, Crash 4] \<lparr>current = file_page empty_file, committed = file_page empty_file\<rparr> = Some a"
    "simulates s' a" by (rule reachable_simulates [OF traverses_remdups empty_file_inv run])
  then have "view (db_pool s') 5 0 = 7" by (auto simp: simulates_def pad_def blit_def)
  then show thesis using that [OF run] o w'(2) by (simp add: s'_def)
qed

text \<open>C26: A checkpoint empties the log file but keeps the records that were not flushed (those of aborted
  transactions, and all that recovery has loaded), so the next flush writes them into the new log.  If
  the power fails while the commit of a later transaction flushes, and of the records only those up to the
  first change reach the disk, opening the database again succeeds and gives the committed version, except
  that the bytes of that change are set back to what they were before it.  If a transaction that committed
  since, or the one the change belongs to, has left other bytes there, a committed change is lost.\<close>

theorem checkpoint_keeps_stale_records:
  assumes "traverses traverse" "file_inv f" "db_run traverse (fresh_db f n syncs) es s"
    "checkpoint_finish (db_pool s, db_wal s) = Some (Inr (p, w))"
    "db_run traverse \<lparr>db_pool = p, db_wal = w, db_live = None\<rparr> es' s'" "db_live s' = Some t" "wal_fd (db_wal s') = []"
    "unflushed (db_wal s') = bs @ r # rs" "\<forall>b\<in>set bs. redo_write b = None" "undo_write r = Some (g, off, old)"
    "lsn_room (db_wal s')" "0 < m"
  shows "wal_fd w = [] \<and> unflushed w = unflushed (db_wal s) \<and>
    (\<exists>a w2 p' w'. spec_run (es @ es') \<lparr>current = file_page f, committed = file_page f\<rparr> = Some a \<and>
      flush_write (log_control (rw_txn_id t) COMMIT (db_wal s')) = Inr w2 \<and>
      WAL_open traverse (Some (take (length (encode_all (bs @ [r]))) (wal_fd w2))) [] (BufferPool_init (fd (db_pool s')) m) = Some (Inr (p', w')) \<and>
      view p' = (committed a)(g := blit (committed a g) off old) \<and>
      ((\<exists>i<length old. committed a g (off + i) \<noteq> old ! i) \<longrightarrow> view p' \<noteq> committed a))"
proof -
  obtain a where a: "spec_run es \<lparr>current = file_page f, committed = file_page f\<rparr> = Some a" "simulates s a"
    by (rule reachable_simulates [OF assms(1-3)])
  obtain base R where inv: "sys_inv (db_pool s) (db_wal s) (map_option rw_txn_id (db_live s)) base R (committed a)" "view (db_pool s) = current a"
    using simulatesD [OF a(2)] by metis
  note k = checkpoint_kept [OF inv(1) assms(4)]
  have "simulates \<lparr>db_pool = p, db_wal = w, db_live = None\<rparr> a"
    by (rule simulatesI) (use k(2,3) inv(2) in \<open>simp_all; fail\<close>)+
  then obtain a' where a': "spec_run es' a = Some a'" "simulates s' a'" using run_simulates [OF assms(5) _ assms(1)] by blast
  obtain base' R' where inv': "sys_inv (db_pool s') (db_wal s') (Some (rw_txn_id t)) base' R' (committed a')"
    using simulatesD [OF a'(2)] assms(6) by (metis option.simps(9))
  have b: "\<forall>b\<in>set bs. page_of b = None" using assms(9) by (simp add: page_of_def)
  obtain w2 p' w' where "flush_write (log_control (rw_txn_id t) COMMIT (db_wal s')) = Inr w2"
    "WAL_open traverse (Some (take (length (encode_all (bs @ [r]))) (wal_fd w2))) [] (BufferPool_init (fd (db_pool s')) m) = Some (Inr (p', w'))"
    "view p' = (committed a')(g := blit (committed a' g) off old)"
    by (rule torn_flush [OF inv' assms(7,8) b assms(10,11,1,12)])
  moreover have "(committed a')(g := blit (committed a' g) off old) \<noteq> committed a'"
    if "i < length old" "committed a' g (off + i) \<noteq> old ! i" for i
    using that by (auto simp: blit_def fun_eq_iff intro!: exI [of _ g] exI [of _ "off + i"])
  moreover have "spec_run (es @ es') \<lparr>current = file_page f, committed = file_page f\<rparr> = Some a'"
    using a(1) a'(1) by (simp add: spec_run_append)
  ultimately show ?thesis using k(5,6) by (intro conjI exI [of _ a'] exI [of _ w2] exI [of _ p'] exI [of _ w']) auto
qed

text \<open>The only transaction has committed; after recovery and a checkpoint the next one commits, and the write
  of its records stops after the first change: the committed byte is lost.\<close>

theorem checkpoint_keeps_stale_records_witness:
  "\<exists>s p w s' t w2 p' w'. db_run remdups (fresh_db empty_file 4 []) [Begin, Write 5 0 [7] 1, Commit, Crash 4] s \<and>
    checkpoint_finish (db_pool s, db_wal s) = Some (Inr (p, w)) \<and>
    db_run remdups \<lparr>db_pool = p, db_wal = w, db_live = None\<rparr> [Begin] s' \<and> db_live s' = Some t \<and>
    flush_write (log_control (rw_txn_id t) COMMIT (db_wal s')) = Inr w2 \<and>
    WAL_open remdups (Some (take (length (encode_all (take 2 (unflushed (db_wal s'))))) (wal_fd w2))) [] (BufferPool_init (fd (db_pool s')) 4)
      = Some (Inr (p', w')) \<and>
    view (db_pool s) 5 0 = 7 \<and> view p' 5 0 = 0"
proof -
  obtain s where s: "db_run remdups (fresh_db empty_file 4 []) [Begin, Write 5 0 [7] 1, Commit, Crash 4] s" "db_live s = None"
    "unflushed (db_wal s) = log7" "records (db_wal s) = log7" "next_lsn (db_wal s) < 10" "\<not> checkpoint_pending (db_wal s)"
    "fsync_results (db_wal s) = []" "view (db_pool s) 5 0 = 7"
    by (rule reopened_run)
  obtain a where a: "simulates s a" by (rule reachable_simulates [OF traverses_remdups empty_file_inv s(1)])
  obtain base R where inv: "sys_inv (db_pool s) (db_wal s) None base R (committed a)"
    using simulatesD [OF a] s(2) by (metis option.simps(8))
  obtain p w where c: "checkpoint_finish (db_pool s, db_wal s) = Some (Inr (p, w))" by (rule checkpoint_returns [OF inv s(7)])
  note k = checkpoint_kept [OF inv c]
  have pend: "\<not> checkpoint_pending w" using c by (auto simp: checkpoint_finish_def Let_def bindR_Inr split: if_splits)
  define d where "d = \<lparr>db_pool = p, db_wal = w, db_live = None\<rparr>"
  have d: "db_live d = None" "db_wal d = w" "db_pool d = p" by (simp_all add: d_def)
  have room: "lsn_room (db_wal d)" using k(8,9) s(4,5) by (simp add: lsn_room_def d)
  obtain t w1 where b: "db_step remdups d Begin (d\<lparr>db_wal := w1, db_live := Some t\<rparr>)" "next_lsn w1 = next_lsn w + 1"
    "length (records w1) = Suc (length (records w))" "begin_rw_transaction w = Some (t, w1)"
    by (rule begin_step [OF d(1) room, of remdups]) (use pend d in simp_all)
  define s' where "s' = d\<lparr>db_wal := w1, db_live := Some t\<rparr>"
  obtain x where x: "records w1 = records w @ [x]" "unflushed_record_index w1 = unflushed_record_index w" "wal_fd w1 = wal_fd w"
    using b(4) by (auto simp: begin_rw_transaction_def wal_begin_def Let_def push_record_def bump_lsn_def bump_txn_id_def split: if_splits)
  have s': "db_wal s' = w1" "db_live s' = Some t" "wal_fd (db_wal s') = []" "lsn_room (db_wal s')"
    using x(3) k(5,8,9) b(2,3) s(4,5) by (simp_all add: s'_def lsn_room_def)
  have ix: "unflushed_record_index w \<le> length (records w)" using k(2) crash_safeD(2) [OF sys_invD(1)] wal_okD(2) by blast
  have "unflushed w1 = unflushed w @ [x]" using x(1,2) ix by (simp add: unflushed_def)
  then have u: "unflushed (db_wal s') = [new_record 0 0 BEGIN []] @ change7 # [new_record 2 0 COMMIT [], x]"
    using k(6) s(3) s'(1) by simp
  have run': "db_run remdups \<lparr>db_pool = p, db_wal = w, db_live = None\<rparr> [Begin] s'"
    using run_snoc [OF run_Nil b(1)] by (simp add: s'_def d_def)
  have nw: "\<forall>b\<in>set [new_record 0 0 BEGIN []]. redo_write b = None" by (simp add: redo_write.simps)
  have four: "0 < (4 :: nat)" by simp
  from checkpoint_keeps_stale_records [OF traverses_remdups empty_file_inv s(1) c run' s'(2,3) u nw change7_facts(4) s'(4) four]
  obtain a' :: spec and w2 p' w' where
    "flush_write (log_control (rw_txn_id t) COMMIT (db_wal s')) = Inr w2"
    "WAL_open remdups (Some (take (length (encode_all ([new_record 0 0 BEGIN []] @ [change7]))) (wal_fd w2))) [] (BufferPool_init (fd (db_pool s')) 4)
      = Some (Inr (p', w'))" "view p' = (committed a')(5 := blit (committed a' 5) 0 [0])"
    by (elim conjE exE) (rule that)
  moreover have "take 2 (unflushed (db_wal s')) = [new_record 0 0 BEGIN []] @ [change7]" unfolding u by simp
  moreover have "blit pg 0 [0] 0 = 0" for pg by (simp add: blit_def)
  ultimately show ?thesis using s(1,8) c run' s'(2) by (metis fun_upd_same)
qed

end
