(* ===== verification/Pages.thy ===== *)
theory Pages
  imports Prelude Wal_Record Wal Transactions Database
begin

text \<open>
  What the data structures above the log see of it: the pages of a read-write transaction as a
  function, reads of 8- and 4-byte fields, and \<open>write\<close> of a page handle.  The last section connects
  this view with the page store: a sequence of such writes is a sequence of \<open>Write\<close> events.
\<close>

named_theorems field_simps_pages \<open>reading a field after a write\<close>

type_synonym pages = "nat \<Rightarrow> page"

section \<open>Fields of a page\<close>

text \<open>\<open>uint64_t\<close> and \<open>int64_t\<close> are both kept as the unsigned value of their 8 bytes.\<close>

definition get_u64 :: "page \<Rightarrow> nat \<Rightarrow> nat" where
  "get_u64 pg off = le_val (bytes_at pg off 8)"

definition get_u16 :: "page \<Rightarrow> nat \<Rightarrow> nat" where
  "get_u16 pg off = le_val (bytes_at pg off 2)"

definition signed :: "nat \<Rightarrow> nat \<Rightarrow> int" where
  "signed bits v = (if v < 2 ^ (bits - 1) then int v else int v - 2 ^ bits)"

definition get_i32 :: "page \<Rightarrow> nat \<Rightarrow> int" where
  "get_i32 pg off = signed 32 (le_val (bytes_at pg off 4))"

section \<open>Writes\<close>

text \<open>\<open>write\<close> of a page handle hands the location to the log, which writes to the page it lies in.\<close>

definition pages_write :: "nat \<Rightarrow> nat \<Rightarrow> byte list \<Rightarrow> nat \<Rightarrow> pages \<Rightarrow> pages result" where
  "pages_write page offset buffer written_length s =
     (let loc = (page * PAGE_SIZE + offset) mod 2 ^ 64; f = loc div PAGE_SIZE; off = loc mod PAGE_SIZE in
      if written_length < length buffer \<or> PAGE_SIZE < off + written_length then Inl MemoryError
      else Inr (s(f := blit (s f) off (pad written_length buffer))))"

definition put_bytes :: "nat \<Rightarrow> nat \<Rightarrow> byte list \<Rightarrow> pages \<Rightarrow> pages result" where
  "put_bytes page off bs = pages_write page off bs (length bs)"

definition put_u64 :: "nat \<Rightarrow> nat \<Rightarrow> nat \<Rightarrow> pages \<Rightarrow> pages result" where
  "put_u64 page off v = put_bytes page off (le_bytes 8 v)"

definition put_u16 :: "nat \<Rightarrow> nat \<Rightarrow> nat \<Rightarrow> pages \<Rightarrow> pages result" where
  "put_u16 page off v = put_bytes page off (le_bytes 2 v)"

definition put_i32 :: "nat \<Rightarrow> nat \<Rightarrow> int \<Rightarrow> pages \<Rightarrow> pages result" where
  "put_i32 page off v = put_bytes page off (le_bytes 4 (nat (v mod 2 ^ 32)))"

definition clear_page :: "nat \<Rightarrow> pages \<Rightarrow> pages result" where
  "clear_page page = pages_write page 0 [] PAGE_SIZE"

text \<open>Page numbers whose bytes have 64-bit locations.\<close>

definition page_ok :: "nat \<Rightarrow> bool" where
  "page_ok page \<longleftrightarrow> page < 2 ^ 52"

lemma pad_same [simp]: "n = length bs \<Longrightarrow> pad n bs = bs"
  by (simp add: pad_def)

lemma pad_Nil [simp]: "pad n [] = zeros n"
  by (simp add: pad_def zeros_def)

lemma pages_write_ok:
  assumes "page_ok page" "off + len \<le> PAGE_SIZE" "off < PAGE_SIZE" "length bs \<le> len"
  shows "pages_write page off bs len s = Inr (s(page := blit (s page) off (pad len bs)))"
proof -
  have "page * PAGE_SIZE + off < 2 ^ 64" using assms(1,3) by (simp add: page_ok_def)
  then have "(page * PAGE_SIZE + off) mod 2 ^ 64 = page * PAGE_SIZE + off" by (rule mod_less)
  moreover have "(page * PAGE_SIZE + off) div PAGE_SIZE = page" "(page * PAGE_SIZE + off) mod PAGE_SIZE = off"
    using assms(3) by simp_all
  ultimately show ?thesis using assms(2,4) unfolding pages_write_def Let_def by simp
qed

lemma put_bytes_ok:
  "page_ok page \<Longrightarrow> off + length bs \<le> PAGE_SIZE \<Longrightarrow> off < PAGE_SIZE \<Longrightarrow>
   put_bytes page off bs s = Inr (s(page := blit (s page) off bs))"
  unfolding put_bytes_def by (subst pages_write_ok) simp_all

lemma put_u64_ok:
  "page_ok page \<Longrightarrow> off + 8 \<le> PAGE_SIZE \<Longrightarrow> put_u64 page off v s = Inr (s(page := blit (s page) off (le_bytes 8 v)))"
  unfolding put_u64_def by (subst put_bytes_ok) simp_all

lemma put_u16_ok:
  "page_ok page \<Longrightarrow> off + 2 \<le> PAGE_SIZE \<Longrightarrow> put_u16 page off v s = Inr (s(page := blit (s page) off (le_bytes 2 v)))"
  unfolding put_u16_def by (subst put_bytes_ok) simp_all

lemma put_i32_ok:
  "page_ok page \<Longrightarrow> off + 4 \<le> PAGE_SIZE \<Longrightarrow>
   put_i32 page off v s = Inr (s(page := blit (s page) off (le_bytes 4 (nat (v mod 2 ^ 32)))))"
  unfolding put_i32_def by (subst put_bytes_ok) simp_all

lemma clear_page_ok: "page_ok page \<Longrightarrow> clear_page page s = Inr (s(page := blit (s page) 0 (zeros PAGE_SIZE)))"
  unfolding clear_page_def by (subst pages_write_ok) simp_all

lemmas put_ok = put_u64_ok put_u16_ok put_i32_ok put_bytes_ok clear_page_ok

lemma get_u64_less: "get_u64 pg off < 2 ^ 64"
  using le_val_less [of "bytes_at pg off 8"] by (simp add: get_u64_def)

lemma get_u64_blit [field_simps_pages]:
  "get_u64 (blit pg off (le_bytes 8 v)) off = v mod 2 ^ 64"
  "off' + 8 \<le> off \<or> off + length bs \<le> off' \<Longrightarrow> get_u64 (blit pg off bs) off' = get_u64 pg off'"
  by (simp_all add: get_u64_def le_val_le_bytes bytes_at_blit_disjoint)

lemma get_u16_blit [field_simps_pages]:
  "get_u16 (blit pg off (le_bytes 2 v)) off = v mod 2 ^ 16"
  "off' + 2 \<le> off \<or> off + length bs \<le> off' \<Longrightarrow> get_u16 (blit pg off bs) off' = get_u16 pg off'"
  by (simp_all add: get_u16_def le_val_le_bytes bytes_at_blit_disjoint)

lemma signed_i32: "- (2 ^ 31) \<le> v \<Longrightarrow> v < 2 ^ 31 \<Longrightarrow> signed 32 (nat (v mod 2 ^ 32)) = v"
proof (cases "v < 0")
  case True
  moreover assume "- (2 ^ 31) \<le> v" "v < 2 ^ 31"
  ultimately have "(v + 2 ^ 32) mod 2 ^ 32 = v + 2 ^ 32" by (intro mod_pos_pos_trivial) auto
  then have "v mod 2 ^ 32 = v + 2 ^ 32" by simp
  with True \<open>- (2 ^ 31) \<le> v\<close> show ?thesis by (simp add: signed_def nat_less_iff)
qed (simp add: signed_def nat_less_iff)

lemma get_i32_blit [field_simps_pages]:
  "- (2 ^ 31) \<le> v \<Longrightarrow> v < 2 ^ 31 \<Longrightarrow> get_i32 (blit pg off (le_bytes 4 (nat (v mod 2 ^ 32)))) off = v"
  "off' + 4 \<le> off \<or> off + length bs \<le> off' \<Longrightarrow> get_i32 (blit pg off bs) off' = get_i32 pg off'"
proof -
  assume v: "- (2 ^ 31) \<le> v" "v < 2 ^ 31"
  have "nat (v mod 2 ^ 32) < 256 ^ 4" by (simp add: nat_less_iff)
  then show "get_i32 (blit pg off (le_bytes 4 (nat (v mod 2 ^ 32)))) off = v"
    using signed_i32 [OF v] by (simp add: get_i32_def)
qed (simp add: get_i32_def bytes_at_blit_disjoint)

text \<open>Bytes of a page, as far as the code can see them.\<close>

definition page_eq :: "page \<Rightarrow> page \<Rightarrow> bool" where
  "page_eq p q \<longleftrightarrow> (\<forall>i<PAGE_SIZE. p i = q i)"

definition is_zero :: "page \<Rightarrow> bool" where
  "is_zero pg \<longleftrightarrow> (\<forall>i<PAGE_SIZE. pg i = 0)"

lemma is_zero_blit [simplified, simp]: "is_zero (blit pg 0 (zeros PAGE_SIZE))"
  by (simp add: is_zero_def blit_def)

lemma is_zero_page [simp]: "is_zero zero_page"
  by (simp add: is_zero_def)

lemma le_val_zeros [simp]: "le_val (replicate n 0) = 0"
  by (induction n) simp_all

lemma is_zero_bytes: "is_zero pg \<Longrightarrow> off + n \<le> PAGE_SIZE \<Longrightarrow> bytes_at pg off n = replicate n 0"
  by (rule nth_equalityI) (simp_all add: is_zero_def)

lemma is_zero_get:
  "is_zero pg \<Longrightarrow> off + 8 \<le> PAGE_SIZE \<Longrightarrow> get_u64 pg off = 0"
  "is_zero pg \<Longrightarrow> off + 2 \<le> PAGE_SIZE \<Longrightarrow> get_u16 pg off = 0"
  "is_zero pg \<Longrightarrow> off + 4 \<le> PAGE_SIZE \<Longrightarrow> get_i32 pg off = 0"
  by (simp_all add: get_u64_def get_u16_def get_i32_def is_zero_bytes signed_def)

section \<open>Connection with the page store\<close>

text \<open>Whatever page and offset a write names, it is a write within one page, at an offset of that
  page: a \<open>Write\<close> event.\<close>

inductive page_change :: "pages \<Rightarrow> pages \<Rightarrow> bool" where
  "f * PAGE_SIZE + off < 2 ^ 64 \<Longrightarrow> off < PAGE_SIZE \<Longrightarrow> off + len \<le> PAGE_SIZE \<Longrightarrow> length bs \<le> len \<Longrightarrow>
   page_change s (s(f := blit (s f) off (pad len bs)))"

inductive_cases page_changeE: "page_change s s'"

abbreviation traced :: "pages \<Rightarrow> pages \<Rightarrow> bool" where
  "traced \<equiv> rtranclp page_change"

lemma pages_write_traced: "pages_write page off bs len s = Inr s' \<Longrightarrow> traced s s'"
proof -
  assume w: "pages_write page off bs len s = Inr s'"
  define loc where "loc = (page * PAGE_SIZE + off) mod 2 ^ 64"
  have loc: "loc < 2 ^ 64" by (simp add: loc_def)
  have "length bs \<le> len \<and> loc mod PAGE_SIZE + len \<le> PAGE_SIZE \<and>
      s' = s(loc div PAGE_SIZE := blit (s (loc div PAGE_SIZE)) (loc mod PAGE_SIZE) (pad len bs))"
    using w unfolding pages_write_def Let_def loc_def [symmetric] by (auto split: if_splits)
  then have "page_change s s'"
    using page_change.intros [of "loc div PAGE_SIZE" "loc mod PAGE_SIZE" len bs s] loc by simp
  then show ?thesis by (rule r_into_rtranclp [where r = page_change])
qed

lemma put_traced:
  "put_bytes page off bs s = Inr s' \<Longrightarrow> traced s s'"
  "put_u64 page off v s = Inr s' \<Longrightarrow> traced s s'"
  "put_u16 page off v s = Inr s' \<Longrightarrow> traced s s'"
  "put_i32 page off i s = Inr s' \<Longrightarrow> traced s s'"
  "clear_page page s = Inr s' \<Longrightarrow> traced s s'"
  unfolding put_bytes_def put_u64_def put_u16_def put_i32_def clear_page_def
  by (rule pages_write_traced, assumption)+

end
