(* ===== verification/Space_Manager.thy ===== *)
theory Space_Manager
  imports Prelude Pages "HOL-Library.Multiset"
begin

text \<open>
  \<open>space_manager.cpp\<close>: which pages of the data file are in use.  The meta page holds the first page
  never used, and for each order (regions of 2^order pages) the last page of its free page list
  (FPL) and the number of entries there.  The FPL pages of an order are a doubly linked list; those
  after the last one are kept for later.  The lemmas show that the lists work as stacks, that a
  region is never handed out twice and never overlaps another one, a list or a reserved page, and
  that a new region is zeroed.
\<close>

section \<open>The code\<close>

definition MAX_ORDER :: nat where
  "MAX_ORDER = 38"

definition FPL_PAGE_CAPACITY :: int where
  "FPL_PAGE_CAPACITY = int PAGE_SIZE div 8 - 2"

text \<open>\<open>MetaPage\<close> and \<open>FPLPage\<close>.\<close>

definition kv_entry_count :: "pages \<Rightarrow> nat" where
  "kv_entry_count s = get_u64 (s 0) 8"

definition next_free_page :: "pages \<Rightarrow> nat" where
  "next_free_page s = get_u64 (s 0) 16"

definition last_fpl_page :: "pages \<Rightarrow> nat \<Rightarrow> nat" where
  "last_fpl_page s order = get_u64 (s 0) (24 + 8 * order)"

definition last_fpl_page_entries :: "pages \<Rightarrow> nat \<Rightarrow> int" where
  "last_fpl_page_entries s order = get_i32 (s 0) (336 + 4 * order)"

definition fpl_previous :: "pages \<Rightarrow> nat \<Rightarrow> nat" where
  "fpl_previous s page = get_u64 (s page) 0"

definition fpl_next :: "pages \<Rightarrow> nat \<Rightarrow> nat" where
  "fpl_next s page = get_u64 (s page) 8"

definition fpl_entry :: "pages \<Rightarrow> nat \<Rightarrow> nat \<Rightarrow> nat" where
  "fpl_entry s page i = get_u64 (s page) (16 + 8 * i)"

definition put_kv_entry_count :: "nat \<Rightarrow> pages \<Rightarrow> pages result" where
  "put_kv_entry_count v = put_u64 0 8 v"

definition put_next_free_page :: "nat \<Rightarrow> pages \<Rightarrow> pages result" where
  "put_next_free_page v = put_u64 0 16 v"

definition put_last_fpl_page :: "nat \<Rightarrow> nat \<Rightarrow> pages \<Rightarrow> pages result" where
  "put_last_fpl_page order v = put_u64 0 (24 + 8 * order) v"

definition put_last_fpl_page_entries :: "nat \<Rightarrow> int \<Rightarrow> pages \<Rightarrow> pages result" where
  "put_last_fpl_page_entries order n = put_i32 0 (336 + 4 * order) n"

definition put_fpl_previous :: "nat \<Rightarrow> nat \<Rightarrow> pages \<Rightarrow> pages result" where
  "put_fpl_previous page v = put_u64 page 0 v"

definition put_fpl_next :: "nat \<Rightarrow> nat \<Rightarrow> pages \<Rightarrow> pages result" where
  "put_fpl_next page v = put_u64 page 8 v"

definition put_fpl_entry :: "nat \<Rightarrow> nat \<Rightarrow> nat \<Rightarrow> pages \<Rightarrow> pages result" where
  "put_fpl_entry page i v = put_u64 page (16 + 8 * i) v"

text \<open>\<open>init\<close>.\<close>

definition SpaceManager_init :: "pages \<Rightarrow> pages result" where
  "SpaceManager_init s =
     bindR (put_next_free_page (MAX_ORDER + 3) s) (\<lambda>s.
     bindR (put_last_fpl_page 0 1 s) (\<lambda>s.
     bindR (put_last_fpl_page 1 1 s) (\<lambda>s.
     bindR (put_last_fpl_page_entries 0 0 s) (\<lambda>s.
       put_last_fpl_page_entries 1 0 s))))"

text \<open>\<open>1 << order\<close> in a 32-bit \<open>int\<close>.\<close>

definition shift_one :: "nat \<Rightarrow> int result" where
  "shift_one order =
     (if order < 31 then Inr (2 ^ order) else if order = 31 then Inr (- (2 ^ 31)) else Inl MemoryError)"

fun clear_region :: "nat \<Rightarrow> nat \<Rightarrow> pages \<Rightarrow> pages result" where
  "clear_region page 0 s = Inr s"
| "clear_region page (Suc n) s = bindR (clear_page page s) (clear_region ((page + 1) mod 2 ^ 64) n)"

text \<open>The end of \<open>allocate\<close>: one entry less, or back to the end of the previous FPL page.\<close>

definition pop_fpl :: "nat \<Rightarrow> nat \<Rightarrow> pages \<Rightarrow> pages result" where
  "pop_fpl order fpl s =
     (let n = last_fpl_page_entries s order - 1 in
      bindR (if n = 0 \<and> fpl_previous s fpl \<noteq> 0
             then bindR (put_last_fpl_page order (fpl_previous s fpl) s) (\<lambda>s. Inr (FPL_PAGE_CAPACITY, s))
             else Inr (n, s)) (\<lambda>(n, s).
        put_last_fpl_page_entries order n s))"

text \<open>Indices outside of the arrays are \<open>MemoryError\<close>.\<close>

definition SpaceManager_allocate :: "nat \<Rightarrow> pages \<Rightarrow> (nat \<times> pages) result" where
  "SpaceManager_allocate order s =
     (if MAX_ORDER < order then Inl MemoryError
      else bindR (shift_one order) (\<lambda>pages_in_region.
      if last_fpl_page_entries s order = 0 then
        let page = next_free_page s in
        bindR (put_next_free_page (nat ((int page + pages_in_region) mod 2 ^ 64)) s) (\<lambda>s. Inr (page, s))
      else let fpl = last_fpl_page s order; n = last_fpl_page_entries s order in
      if n < 1 \<or> FPL_PAGE_CAPACITY < n then Inl MemoryError
      else let result = fpl_entry s fpl (nat (n - 1)) in
        bindR (clear_region result (nat (pages_in_region mod 2 ^ 64)) s) (\<lambda>s.
        bindR (pop_fpl order fpl s) (\<lambda>s. Inr (result, s)))))"

definition SpaceManager_free :: "nat \<Rightarrow> nat \<Rightarrow> pages \<Rightarrow> pages result" where
  "SpaceManager_free page order s =
     (if signed 64 page < int MAX_ORDER + 3
      then Inl (DiskMapException ''free: cannot free reserved pages'')
      else if MAX_ORDER < order then Inl MemoryError
      else let n = last_fpl_page_entries s order; fpl = last_fpl_page s order in
      if n < FPL_PAGE_CAPACITY then
        if n < 0 then Inl MemoryError
        else bindR (put_fpl_entry fpl (nat n) page s) (\<lambda>s.
          put_last_fpl_page_entries order (last_fpl_page_entries s order + 1) s)
      else if fpl_next s fpl = 0 then
        if order = 0 then
          let current_last = last_fpl_page s order in
          bindR (clear_page page s) (\<lambda>s.
          bindR (put_fpl_previous page current_last s) (\<lambda>s.
            put_fpl_next fpl page s))
        else
          bindR (SpaceManager_allocate 0 s) (\<lambda>(new_fpl, s).
          bindR (clear_page new_fpl s) (\<lambda>s.
          bindR (put_fpl_previous new_fpl (last_fpl_page s order) s) (\<lambda>s.
          bindR (put_fpl_next fpl new_fpl s) (\<lambda>s.
          bindR (put_fpl_entry new_fpl 0 page s) (\<lambda>s.
          bindR (put_last_fpl_page order new_fpl s) (\<lambda>s.
            put_last_fpl_page_entries order 1 s))))))
      else
        let new_fpl = fpl_next s fpl in
        bindR (put_fpl_entry new_fpl 0 page s) (\<lambda>s.
        bindR (put_last_fpl_page order new_fpl s) (\<lambda>s.
          put_last_fpl_page_entries order 1 s)))"

lemmas put_meta_defs = put_kv_entry_count_def put_next_free_page_def put_last_fpl_page_def
  put_last_fpl_page_entries_def
lemmas put_fpl_defs = put_fpl_previous_def put_fpl_next_def put_fpl_entry_def
lemmas get_meta_defs = kv_entry_count_def next_free_page_def last_fpl_page_def last_fpl_page_entries_def
lemmas get_fpl_defs = fpl_previous_def fpl_next_def fpl_entry_def

lemma capacity_510: "FPL_PAGE_CAPACITY = 510"
  by (simp add: FPL_PAGE_CAPACITY_def)

section \<open>Updates of fields\<close>

definition upd_u64 :: "nat \<Rightarrow> nat \<Rightarrow> nat \<Rightarrow> pages \<Rightarrow> pages" where
  "upd_u64 page off v s = s(page := blit (s page) off (le_bytes 8 v))"

definition upd_i32 :: "nat \<Rightarrow> nat \<Rightarrow> int \<Rightarrow> pages \<Rightarrow> pages" where
  "upd_i32 page off v s = s(page := blit (s page) off (le_bytes 4 (nat (v mod 2 ^ 32))))"

lemma page_ok_0 [simp]: "page_ok 0"
  by (simp add: page_ok_def)

lemma put_upd:
  "page_ok page \<Longrightarrow> off + 8 \<le> PAGE_SIZE \<Longrightarrow> put_u64 page off v s = Inr (upd_u64 page off v s)"
  "page_ok page \<Longrightarrow> off + 4 \<le> PAGE_SIZE \<Longrightarrow> put_i32 page off i s = Inr (upd_i32 page off i s)"
  by (simp_all add: upd_u64_def upd_i32_def put_u64_ok put_i32_ok)

lemma upd_other [simp]: "p \<noteq> page \<Longrightarrow> upd_u64 page off v s p = s p" "p \<noteq> page \<Longrightarrow> upd_i32 page off i s p = s p"
  by (simp_all add: upd_u64_def upd_i32_def)

text \<open>Arrays of fields.\<close>

lemma array_blit:
  "get_u64 (blit pg (b + 8 * j) (le_bytes 8 v)) (b + 8 * i) = (if i = j then v mod 2 ^ 64 else get_u64 pg (b + 8 * i))"
  "0 \<le> n \<Longrightarrow> n < 2 ^ 31 \<Longrightarrow> get_i32 (blit pg (b + 4 * j) (le_bytes 4 (nat (n mod 2 ^ 32)))) (b + 4 * i) =
     (if i = j then n else get_i32 pg (b + 4 * i))"
proof -
  show "get_u64 (blit pg (b + 8 * j) (le_bytes 8 v)) (b + 8 * i) = (if i = j then v mod 2 ^ 64 else get_u64 pg (b + 8 * i))"
  proof (cases "i = j")
    case False
    then have "b + 8 * i + 8 \<le> b + 8 * j \<or> b + 8 * j + length (le_bytes 8 v) \<le> b + 8 * i" by auto
    then show ?thesis using False get_u64_blit(2) by simp
  qed (simp add: get_u64_blit)
  assume n: "0 \<le> n" "n < 2 ^ 31"
  show "get_i32 (blit pg (b + 4 * j) (le_bytes 4 (nat (n mod 2 ^ 32)))) (b + 4 * i) =
     (if i = j then n else get_i32 pg (b + 4 * i))"
  proof (cases "i = j")
    case True
    then show ?thesis using n get_i32_blit(1) [of n] by simp
  next
    case False
    then have "b + 4 * i + 4 \<le> b + 4 * j \<or> b + 4 * j + length (le_bytes 4 (nat (n mod 2 ^ 32))) \<le> b + 4 * i" by auto
    then show ?thesis using False get_i32_blit(2) by presburger
  qed
qed

lemma meta_upd_u64 [simp]:
  "off \<noteq> 16 \<Longrightarrow> 24 \<le> off \<Longrightarrow> next_free_page (upd_u64 0 off v s) = next_free_page s"
  "next_free_page (upd_u64 0 16 v s) = v mod 2 ^ 64"
  "k \<le> MAX_ORDER \<Longrightarrow> last_fpl_page (upd_u64 0 16 v s) k = last_fpl_page s k"
  "k \<le> MAX_ORDER \<Longrightarrow> k' \<le> MAX_ORDER \<Longrightarrow>
   last_fpl_page (upd_u64 0 (24 + 8 * k') v s) k = (if k = k' then v mod 2 ^ 64 else last_fpl_page s k)"
  "last_fpl_page_entries (upd_u64 0 16 v s) k = last_fpl_page_entries s k"
  "k' \<le> MAX_ORDER \<Longrightarrow> last_fpl_page_entries (upd_u64 0 (24 + 8 * k') v s) k = last_fpl_page_entries s k"
  "16 \<le> off \<Longrightarrow> kv_entry_count (upd_u64 0 off v s) = kv_entry_count s"
  by (simp_all add: get_meta_defs upd_u64_def array_blit field_simps_pages MAX_ORDER_def)

lemma meta_upd_i32 [simp]:
  "next_free_page (upd_i32 0 (336 + 4 * k') i s) = next_free_page s"
  "k \<le> MAX_ORDER \<Longrightarrow> last_fpl_page (upd_i32 0 (336 + 4 * k') i s) k = last_fpl_page s k"
  "kv_entry_count (upd_i32 0 (336 + 4 * k') i s) = kv_entry_count s"
  by (simp_all add: get_meta_defs upd_i32_def field_simps_pages MAX_ORDER_def)

lemma entries_upd_i32 [simp]:
  "0 \<le> i \<Longrightarrow> i < 2 ^ 31 \<Longrightarrow> last_fpl_page_entries (upd_i32 0 (336 + 4 * k') i s) k =
     (if k = k' then i else last_fpl_page_entries s k)"
  unfolding get_meta_defs upd_i32_def fun_upd_same by (rule array_blit(2))

lemma meta_other [simp]:
  "page \<noteq> 0 \<Longrightarrow> next_free_page (upd_u64 page off v s) = next_free_page s"
  "page \<noteq> 0 \<Longrightarrow> last_fpl_page (upd_u64 page off v s) k = last_fpl_page s k"
  "page \<noteq> 0 \<Longrightarrow> last_fpl_page_entries (upd_u64 page off v s) k = last_fpl_page_entries s k"
  "page \<noteq> 0 \<Longrightarrow> kv_entry_count (upd_u64 page off v s) = kv_entry_count s"
  by (simp_all add: get_meta_defs)

lemma fpl_upd [simp]:
  "fpl_previous (upd_u64 page 0 v s) page = v mod 2 ^ 64"
  "8 \<le> off \<Longrightarrow> fpl_previous (upd_u64 page off v s) page = fpl_previous s page"
  "fpl_next (upd_u64 page 8 v s) page = v mod 2 ^ 64"
  "16 \<le> off \<Longrightarrow> fpl_next (upd_u64 page off v s) page = fpl_next s page"
  "fpl_next (upd_u64 page 0 v s) page = fpl_next s page"
  "fpl_entry (upd_u64 page 0 v s) page i = fpl_entry s page i"
  "fpl_entry (upd_u64 page 8 v s) page i = fpl_entry s page i"
  "fpl_entry (upd_u64 page (16 + 8 * j) v s) page i = (if i = j then v mod 2 ^ 64 else fpl_entry s page i)"
  by (simp_all add: get_fpl_defs upd_u64_def array_blit field_simps_pages)

lemma fpl_cong:
  "s' page = s page \<Longrightarrow> fpl_previous s' page = fpl_previous s page"
  "s' page = s page \<Longrightarrow> fpl_next s' page = fpl_next s page"
  "s' page = s page \<Longrightarrow> fpl_entry s' page i = fpl_entry s page i"
  by (simp_all add: get_fpl_defs)

lemma fpl_upd_other [simp]:
  "p \<noteq> page \<Longrightarrow> fpl_previous (upd_u64 page off v s) p = fpl_previous s p"
  "p \<noteq> page \<Longrightarrow> fpl_next (upd_u64 page off v s) p = fpl_next s p"
  "p \<noteq> page \<Longrightarrow> fpl_entry (upd_u64 page off v s) p i = fpl_entry s p i"
  by (simp_all add: get_fpl_defs)

lemma meta_cong:
  "s' 0 = s 0 \<Longrightarrow> next_free_page s' = next_free_page s"
  "s' 0 = s 0 \<Longrightarrow> last_fpl_page s' k = last_fpl_page s k"
  "s' 0 = s 0 \<Longrightarrow> last_fpl_page_entries s' k = last_fpl_page_entries s k"
  "s' 0 = s 0 \<Longrightarrow> kv_entry_count s' = kv_entry_count s"
  by (simp_all add: get_meta_defs)

lemma fpl_zero:
  "is_zero (s page) \<Longrightarrow> fpl_previous s page = 0" "is_zero (s page) \<Longrightarrow> fpl_next s page = 0"
  by (simp_all add: get_fpl_defs is_zero_get)

section \<open>Regions\<close>

definition region :: "nat \<Rightarrow> nat \<Rightarrow> nat set" where
  "region x k = {x..<x + 2 ^ k}"

lemma region_0 [simp]: "region x 0 = {x}"
  by (auto simp: region_def)

lemma region_start [simp]: "x \<in> region x k"
  by (simp add: region_def)

definition cleared :: "nat set \<Rightarrow> pages \<Rightarrow> pages" where
  "cleared P s = (\<lambda>p. if p \<in> P then blit (s p) 0 (zeros PAGE_SIZE) else s p)"

lemma clear_region_ok:
  "page + n \<le> 2 ^ 52 \<Longrightarrow> clear_region page n s = Inr (cleared {page..<page + n} s)"
proof (induction n arbitrary: page s)
  case 0
  then show ?case by (simp add: cleared_def)
next
  case (Suc n)
  have "page_ok page" using Suc.prems by (simp add: page_ok_def)
  moreover have "(page + 1) mod 2 ^ 64 = page + 1" using Suc.prems by simp
  moreover have "cleared {page + 1..<page + 1 + n} (s(page := blit (s page) 0 (zeros PAGE_SIZE))) =
      cleared {page..<page + Suc n} s"
    by (rule ext) (auto simp: cleared_def)
  ultimately show ?case using Suc.IH [of "page + 1"] Suc.prems by (simp add: clear_page_ok)
qed

section \<open>Invariant\<close>

text \<open>
  The free page list of an order stands for a stack: \<open>F\<close> are its FPL pages, \<open>c\<close> the index of the
  current one, \<open>xs\<close> the free regions, the one freed last at the end.
\<close>

definition fpl_rep :: "pages \<Rightarrow> nat \<Rightarrow> nat list \<Rightarrow> nat \<Rightarrow> nat list \<Rightarrow> bool" where
  "fpl_rep s k F c xs \<longleftrightarrow> c < length F \<and> last_fpl_page s k = F ! c \<and>
     last_fpl_page_entries s k = int (length xs) - 510 * int c \<and>
     510 * c \<le> length xs \<and> length xs \<le> 510 * Suc c \<and> (0 < c \<longrightarrow> 510 * c < length xs) \<and>
     (\<forall>j<length xs. fpl_entry s (F ! (j div 510)) (j mod 510) = xs ! j) \<and>
     (\<forall>i<length F. fpl_previous s (F ! i) = (if i = 0 then 0 else F ! (i - 1)) \<and>
        fpl_next s (F ! i) = (if Suc i < length F then F ! Suc i else 0))"

lemma fpl_repD:
  assumes "fpl_rep s k F c xs"
  shows "c < length F" "last_fpl_page s k = F ! c" "last_fpl_page_entries s k = int (length xs) - 510 * int c"
    "510 * c \<le> length xs" "length xs \<le> 510 * Suc c" "0 < c \<Longrightarrow> 510 * c < length xs"
    "j < length xs \<Longrightarrow> fpl_entry s (F ! (j div 510)) (j mod 510) = xs ! j"
    "i < length F \<Longrightarrow> fpl_previous s (F ! i) = (if i = 0 then 0 else F ! (i - 1))"
    "i < length F \<Longrightarrow> fpl_next s (F ! i) = (if Suc i < length F then F ! Suc i else 0)"
  using assms unfolding fpl_rep_def by blast+

lemma fpl_rep_cong:
  assumes "fpl_rep s k F c xs" "\<And>f. f \<in> set F \<Longrightarrow> s' f = s f"
    "last_fpl_page s' k = last_fpl_page s k" "last_fpl_page_entries s' k = last_fpl_page_entries s k"
  shows "fpl_rep s' k F c xs"
proof -
  note d = fpl_repD [OF assms(1)]
  have "F ! (j div 510) \<in> set F" if "j < length xs" for j
  proof -
    have "j div 510 < length F" using that d(1,5) by (simp add: less_mult_imp_div_less mult.commute)
    then show ?thesis by simp
  qed
  then have "fpl_entry s' (F ! (j div 510)) (j mod 510) = xs ! j" if "j < length xs" for j
    using that d(7) [OF that] fpl_cong(3) assms(2) by metis
  moreover have "fpl_previous s' (F ! i) = fpl_previous s (F ! i)" "fpl_next s' (F ! i) = fpl_next s (F ! i)"
    if "i < length F" for i
    using that fpl_cong(1,2) assms(2) nth_mem by metis+
  ultimately show ?thesis using d assms(3,4) unfolding fpl_rep_def by auto
qed

text \<open>Every page has one owner.\<close>

datatype owner = Reserved | Unused | Fpl nat nat | Free nat nat | Alloc nat nat

text \<open>\<open>F\<close>, \<open>c\<close> and \<open>xs\<close> of each order, the owner of each page, and the regions handed out.\<close>

definition space_inv :: "pages \<Rightarrow> (nat \<Rightarrow> nat list) \<Rightarrow> (nat \<Rightarrow> nat) \<Rightarrow> (nat \<Rightarrow> nat list) \<Rightarrow> (nat \<Rightarrow> owner) \<Rightarrow>
    (nat \<times> nat) set \<Rightarrow> bool" where
  "space_inv s F c xs own A \<longleftrightarrow>
     own 0 = Reserved \<and> own 1 = Reserved \<and>
     41 \<le> next_free_page s \<and> next_free_page s \<le> 2 ^ 52 \<and>
     (\<forall>p\<ge>next_free_page s. own p = Unused \<and> is_zero (s p)) \<and>
     (\<forall>k\<le>MAX_ORDER. fpl_rep s k (F k) (c k) (xs k)) \<and>
     (\<forall>k\<le>MAX_ORDER. \<forall>i<length (F k). own (F k ! i) = Fpl k i) \<and>
     (\<forall>k\<le>MAX_ORDER. \<forall>j<length (xs k). 41 \<le> xs k ! j \<and> (\<forall>p\<in>region (xs k ! j) k. own p = Free k j)) \<and>
     (\<forall>(x, k)\<in>A. k \<le> MAX_ORDER \<and> 41 \<le> x \<and> (\<forall>p\<in>region x k. own p = Alloc x k))"

lemma space_invD:
  assumes "space_inv s F c xs own A"
  shows "own 0 = Reserved" "own 1 = Reserved" "41 \<le> next_free_page s" "next_free_page s \<le> 2 ^ 52"
    "next_free_page s \<le> p \<Longrightarrow> own p = Unused" "next_free_page s \<le> p \<Longrightarrow> is_zero (s p)"
    "k \<le> MAX_ORDER \<Longrightarrow> fpl_rep s k (F k) (c k) (xs k)"
    "k \<le> MAX_ORDER \<Longrightarrow> i < length (F k) \<Longrightarrow> own (F k ! i) = Fpl k i"
    "k \<le> MAX_ORDER \<Longrightarrow> j < length (xs k) \<Longrightarrow> 41 \<le> xs k ! j"
    "k \<le> MAX_ORDER \<Longrightarrow> j < length (xs k) \<Longrightarrow> p \<in> region (xs k ! j) k \<Longrightarrow> own p = Free k j"
    "(x, k) \<in> A \<Longrightarrow> k \<le> MAX_ORDER" "(x, k) \<in> A \<Longrightarrow> 41 \<le> x"
    "(x, k) \<in> A \<Longrightarrow> p \<in> region x k \<Longrightarrow> own p = Alloc x k"
  using assms unfolding space_inv_def by fast+

lemma space_invI:
  assumes "own 0 = Reserved" "own 1 = Reserved" "41 \<le> next_free_page s" "next_free_page s \<le> 2 ^ 52"
    "\<And>p. next_free_page s \<le> p \<Longrightarrow> own p = Unused" "\<And>p. next_free_page s \<le> p \<Longrightarrow> is_zero (s p)"
    "\<And>k. k \<le> MAX_ORDER \<Longrightarrow> fpl_rep s k (F k) (c k) (xs k)"
    "\<And>k i. k \<le> MAX_ORDER \<Longrightarrow> i < length (F k) \<Longrightarrow> own (F k ! i) = Fpl k i"
    "\<And>k j. k \<le> MAX_ORDER \<Longrightarrow> j < length (xs k) \<Longrightarrow> 41 \<le> xs k ! j"
    "\<And>k j p. k \<le> MAX_ORDER \<Longrightarrow> j < length (xs k) \<Longrightarrow> p \<in> region (xs k ! j) k \<Longrightarrow> own p = Free k j"
    "\<And>x k. (x, k) \<in> A \<Longrightarrow> k \<le> MAX_ORDER" "\<And>x k. (x, k) \<in> A \<Longrightarrow> 41 \<le> x"
    "\<And>x k p. (x, k) \<in> A \<Longrightarrow> p \<in> region x k \<Longrightarrow> own p = Alloc x k"
  shows "space_inv s F c xs own A"
proof -
  have "\<forall>(x, k)\<in>A. k \<le> MAX_ORDER \<and> 41 \<le> x \<and> (\<forall>p\<in>region x k. own p = Alloc x k)"
    using assms(11-13) by fast
  moreover have "\<forall>k\<le>MAX_ORDER. \<forall>j<length (xs k). 41 \<le> xs k ! j \<and> (\<forall>p\<in>region (xs k ! j) k. own p = Free k j)"
    using assms(9,10) by fast
  moreover have "\<forall>p\<ge>next_free_page s. own p = Unused \<and> is_zero (s p)" using assms(5,6) by blast
  moreover have "\<forall>k\<le>MAX_ORDER. fpl_rep s k (F k) (c k) (xs k)" using assms(7) by blast
  moreover have "\<forall>k\<le>MAX_ORDER. \<forall>i<length (F k). own (F k ! i) = Fpl k i" using assms(8) by blast
  ultimately show ?thesis unfolding space_inv_def using assms(1-4) by (intro conjI)
qed

lemma owned_below:
  "space_inv s F c xs own A \<Longrightarrow> own p \<noteq> Unused \<Longrightarrow> p < next_free_page s \<and> page_ok p"
proof -
  assume i: "space_inv s F c xs own A" and o: "own p \<noteq> Unused"
  have "p < next_free_page s" using o space_invD(5) [OF i] by (meson not_le)
  then show ?thesis using space_invD(4) [OF i] by (simp add: page_ok_def)
qed

lemma fpl_page_owner:
  "space_inv s F c xs own A \<Longrightarrow> k \<le> MAX_ORDER \<Longrightarrow> f \<in> set (F k) \<Longrightarrow> \<exists>i. own f = Fpl k i"
  using space_invD(8) by (metis in_set_conv_nth)

text \<open>Changes outside of the meta page and the FPL pages.\<close>

lemma space_inv_cong:
  assumes "space_inv s F c xs own A" "s' 0 = s 0"
    "\<And>p k i. own p = Fpl k i \<Longrightarrow> s' p = s p" "\<And>p. own p = Unused \<Longrightarrow> s' p = s p"
  shows "space_inv s' F c xs own A"
proof -
  note d = space_invD [OF assms(1)]
  note m = meta_cong [of s' s, OF assms(2)]
  have "fpl_rep s' k (F k) (c k) (xs k)" if "k \<le> MAX_ORDER" for k
    using fpl_rep_cong [OF d(7) [OF that], of s'] m(2,3) fpl_page_owner [OF assms(1) that] assms(3) by blast
  moreover have "is_zero (s' p)" if "next_free_page s \<le> p" for p using d(5,6) [OF that] assms(4) by simp
  ultimately show ?thesis using assms(1) m(1) unfolding space_inv_def by simp
qed

section \<open>Allocation\<close>

lemma fpl_pop:
  assumes rep: "fpl_rep s k F c (ys @ [x])" and c': "c' = (if length ys = 510 * c \<and> 0 < c then c - 1 else c)"
    and s': "\<And>f. f \<in> set F \<Longrightarrow> s' f = s f" "last_fpl_page s' k = F ! c'"
      "last_fpl_page_entries s' k = int (length ys) - 510 * int c'"
  shows "fpl_rep s' k F c' ys"
proof -
  define s0 where "s0 = s'(0 := s 0)"
  note d = fpl_repD [OF rep]
  have b: "c' < length F" "510 * c' \<le> length ys" "length ys \<le> 510 * Suc c'" "0 < c' \<longrightarrow> 510 * c' < length ys"
    using d(1,4,5,6) unfolding c' by (cases "c = 0"; auto split: if_splits)+
  have e: "fpl_entry s' (F ! (j div 510)) (j mod 510) = ys ! j" if "j < length ys" for j
  proof -
    have "j div 510 < length F" using that b(1,3) by (simp add: less_mult_imp_div_less mult.commute)
    then have "F ! (j div 510) \<in> set F" by simp
    then have "fpl_entry s' (F ! (j div 510)) (j mod 510) = fpl_entry s (F ! (j div 510)) (j mod 510)"
      using fpl_cong(3) s'(1) by metis
    then show ?thesis using d(7) [of j] that by (simp add: nth_append)
  qed
  have "fpl_previous s' (F ! i) = fpl_previous s (F ! i)" "fpl_next s' (F ! i) = fpl_next s (F ! i)"
    if "i < length F" for i
    using that fpl_cong(1,2) s'(1) nth_mem by metis+
  then show ?thesis using b e d(8,9) s'(2,3) unfolding fpl_rep_def by simp
qed

definition own_region :: "nat set \<Rightarrow> owner \<Rightarrow> (nat \<Rightarrow> owner) \<Rightarrow> nat \<Rightarrow> owner" where
  "own_region P w own = (\<lambda>p. if p \<in> P then w else own p)"

text \<open>Handing out a region that nobody but the list itself (or nobody at all) owns.\<close>

lemma space_inv_hand_out:
  assumes inv: "space_inv s F c xs own A" and k: "k \<le> MAX_ORDER" "41 \<le> x"
    and free: "\<And>p. p \<in> region x k \<Longrightarrow> own p = Unused \<or> (\<exists>j\<ge>length ys. own p = Free k j)"
    and ys: "ys = take (length ys) (xs k)"
    and n: "next_free_page s \<le> next_free_page s'" "next_free_page s' \<le> 2 ^ 52"
      "\<And>p. p \<in> region x k \<Longrightarrow> p < next_free_page s'"
      "\<And>p. next_free_page s' \<le> p \<Longrightarrow> is_zero (s' p)"
    and reps: "\<And>k'. k' \<le> MAX_ORDER \<Longrightarrow> fpl_rep s' k' (F k') ((c(k := c')) k') ((xs(k := ys)) k')"
  shows "space_inv s' F (c(k := c')) (xs(k := ys)) (own_region (region x k) (Alloc x k) own) (insert (x, k) A)"
    "(x, k) \<notin> A"
proof -
  note d = space_invD [OF inv]
  define own' where "own' = own_region (region x k) (Alloc x k) own"
  have in': "p \<in> region x k \<Longrightarrow> own' p = Alloc x k" for p by (simp add: own'_def own_region_def)
  have keep: "own' p = own p" if "own p \<noteq> Unused" "\<And>j. length ys \<le> j \<Longrightarrow> own p \<noteq> Free k j" for p
    using free that by (auto simp: own'_def own_region_def)
  have old: "(xs(k := ys)) k' ! j = xs k' ! j \<and> j < length (xs k') \<and> (k' = k \<longrightarrow> j < length ys)"
    if "j < length ((xs(k := ys)) k')" for k' j
  proof (cases "k' = k")
    case True
    then have "j < length ys" using that by simp
    moreover from this have "j < length (xs k)" "ys ! j = xs k ! j"
      using ys by (metis length_take min_less_iff_conj, metis nth_take)
    ultimately show ?thesis using True by simp
  qed (use that in simp)
  show "space_inv s' F (c(k := c')) (xs(k := ys)) own' (insert (x, k) A)"
  proof (rule space_invI)
    show "own' 0 = Reserved" "own' 1 = Reserved" using keep d(1,2) by simp_all
    show "41 \<le> next_free_page s'" "next_free_page s' \<le> 2 ^ 52" using n d(3) by simp_all
    show "own' p = Unused" "is_zero (s' p)" if "next_free_page s' \<le> p" for p
      using that d(5) [of p] n(1,4) n(3) [of p] by (auto simp: own'_def own_region_def)
    show "fpl_rep s' k' (F k') ((c(k := c')) k') ((xs(k := ys)) k')" if "k' \<le> MAX_ORDER" for k' by (rule reps [OF that])
    show "own' (F k' ! i) = Fpl k' i" if "k' \<le> MAX_ORDER" "i < length (F k')" for k' i
      using keep d(8) [OF that] by simp
    fix k' j assume k': "k' \<le> MAX_ORDER" and j: "j < length ((xs(k := ys)) k')"
    note o = old [OF j]
    show "41 \<le> (xs(k := ys)) k' ! j" using o d(9) [OF k'] by simp
    show "own' p = Free k' j" if "p \<in> region ((xs(k := ys)) k' ! j) k'" for p
    proof -
      have "own p = Free k' j" using o d(10) [OF k'] that by simp
      then show ?thesis using keep [of p] o by fastforce
    qed
  next
    fix y k' assume y: "(y, k') \<in> insert (x, k) A"
    then show "k' \<le> MAX_ORDER" "41 \<le> y" using k d(11,12) [of y k'] by auto
    show "own' p = Alloc y k'" if "p \<in> region y k'" for p
      using y that in' keep [of p] d(13) [of y k' p] by auto
  qed
  show "(x, k) \<notin> A" using free [of x] d(13) [of x k x] by auto
qed

text \<open>The pages a client may rely on: those of the regions it holds, the root page, the count of
  entries.\<close>

definition kept :: "(nat \<times> nat) set \<Rightarrow> pages \<Rightarrow> pages \<Rightarrow> bool" where
  "kept A s s' \<longleftrightarrow> s' 1 = s 1 \<and> kv_entry_count s' = kv_entry_count s \<and>
     (\<forall>(x, k)\<in>A. \<forall>p\<in>region x k. s' p = s p)"

lemma keptI:
  "s' 1 = s 1 \<Longrightarrow> kv_entry_count s' = kv_entry_count s \<Longrightarrow>
   (\<And>x k p. (x, k) \<in> A \<Longrightarrow> p \<in> region x k \<Longrightarrow> s' p = s p) \<Longrightarrow> kept A s s'"
  by (auto simp: kept_def)

definition space_ok :: "pages \<Rightarrow> (nat \<times> nat) set \<Rightarrow> bool" where
  "space_ok s A \<longleftrightarrow> (\<exists>F c xs own. space_inv s F c xs own A)"

definition allocated :: "nat \<Rightarrow> (nat \<times> nat) set \<Rightarrow> pages \<Rightarrow> nat \<Rightarrow> pages \<Rightarrow> bool" where
  "allocated k A s x s' \<longleftrightarrow> space_ok s' (insert (x, k) A) \<and> (x, k) \<notin> A \<and> kept A s s' \<and>
     (\<forall>p\<in>region x k. is_zero (s' p)) \<and>
     next_free_page s \<le> next_free_page s' \<and> next_free_page s' \<le> next_free_page s + 2 ^ k"

lemma allocate_fresh:
  assumes inv: "space_inv s F c xs own A" and k: "k < 31" and room: "next_free_page s + 2 ^ k \<le> 2 ^ 52"
    and n: "last_fpl_page_entries s k = 0"
  shows "\<exists>x s' c' ys own'. SpaceManager_allocate k s = Inr (x, s') \<and> allocated k A s x s' \<and>
    space_inv s' F (c(k := c')) (xs(k := ys)) own' (insert (x, k) A)"
proof -
  note d = space_invD [OF inv]
  define x where "x = next_free_page s"
  define s' where "s' = upd_u64 0 16 (x + 2 ^ k) s"
  have k': "k \<le> MAX_ORDER" using k by (simp add: MAX_ORDER_def)
  have b: "x + 2 ^ k < 2 ^ 64" using room by (simp add: x_def)
  define y where "y = x + 2 ^ k"
  have "int y < 2 ^ 64" using b by (simp add: y_def [symmetric])
  then have "nat (int y mod 2 ^ 64) = y" by simp
  then have "nat ((int x + 2 ^ k) mod 2 ^ 64) = x + 2 ^ k" by (simp add: y_def)
  then have run: "SpaceManager_allocate k s = Inr (x, s')"
    using n k k' by (simp add: SpaceManager_allocate_def shift_one_def put_meta_defs put_upd Let_def x_def s'_def)
  have nf: "next_free_page s' = x + 2 ^ k" using b by (simp add: s'_def)
  have page: "s' p = s p" if "p \<noteq> 0" for p using that by (simp add: s'_def)
  have fp: "f \<noteq> 0" if "k \<le> MAX_ORDER" "f \<in> set (F k)" for k f
    using fpl_page_owner [OF inv that] d(1) by (cases "f = 0") auto
  have reps: "fpl_rep s' k' (F k') (c k') (xs k')" if "k' \<le> MAX_ORDER" for k'
    by (rule fpl_rep_cong [OF d(7) [OF that]]) (use that page fp in \<open>simp_all add: s'_def\<close>)
  have f: "own p = Unused \<or> (\<exists>j\<ge>length (xs k). own p = Free k j)" if "p \<in> region x k" for p
    using that d(5) by (simp add: region_def x_def)
  have l: "p < next_free_page s'" if "p \<in> region x k" for p using that nf by (simp add: region_def)
  have zero: "is_zero (s' p)" if "next_free_page s \<le> p" for p using d(6) [OF that] page that d(3) by simp
  have z: "is_zero (s' p)" if "next_free_page s' \<le> p" for p using zero nf that by (simp add: x_def)
  have x41: "41 \<le> x" and t: "xs k = take (length (xs k)) (xs k)" and n: "next_free_page s \<le> next_free_page s'"
    "next_free_page s' \<le> 2 ^ 52"
    using d(3) nf room by (simp_all add: x_def)
  have reps': "fpl_rep s' k' (F k') ((c(k := c k)) k') ((xs(k := xs k)) k')" if "k' \<le> MAX_ORDER" for k'
    using reps [OF that] by simp
  note h = space_inv_hand_out [OF inv k' x41 f t n l z reps']
  have new: "(x, k) \<notin> A" by (rule h(2))
  have "space_ok s' (insert (x, k) A)" unfolding space_ok_def using h(1) by blast
  moreover have "kept A s s'"
  proof (rule keptI)
    show "s' p = s p" if "(y, j) \<in> A" "p \<in> region y j" for y j p
    proof -
      have "p \<noteq> 0" using d(13) [OF that] d(1) by (intro notI) simp
      then show ?thesis by (rule page)
    qed
  qed (simp_all add: s'_def)
  moreover have "is_zero (s' p)" if "p \<in> region x k" for p
    using zero that by (simp add: region_def x_def)
  ultimately have "allocated k A s x s'" using new nf by (simp add: allocated_def x_def)
  with run h(1) show ?thesis by blast
qed

lemma allocate_pop:
  assumes inv: "space_inv s F c xs own A" and k: "k < 31" and n: "last_fpl_page_entries s k \<noteq> 0"
  shows "\<exists>x s' c' ys own'. SpaceManager_allocate k s = Inr (x, s') \<and> allocated k A s x s' \<and>
    space_inv s' F (c(k := c')) (xs(k := ys)) own' (insert (x, k) A)"
proof -
  note d = space_invD [OF inv]
  have k': "k \<le> MAX_ORDER" using k by (simp add: MAX_ORDER_def)
  note r = fpl_repD [OF d(7) [OF k']]
  obtain ys x where xs: "xs k = ys @ [x]" using n r(3,6) by (cases "xs k" rule: rev_cases) auto
  have j: "ys @ [x] = xs k" "length ys < length (xs k)" "xs k ! length ys = x" using xs by simp_all
  note rep = d(7) [OF k', unfolded xs]
  define fpl where "fpl = F k ! c k"
  define n' where "n' = last_fpl_page_entries s k - 1"
  have div: "length ys div 510 = c k" "nat n' = length ys mod 510" "0 \<le> n'" "n' < 510" "n' = int (length ys) - 510 * int (c k)"
  proof -
    have b: "510 * c k \<le> length ys" "length ys < 510 * Suc (c k)"
      using r(4,5,6) by (cases "c k = 0"; simp add: xs)+
    then have "length ys = 510 * c k + (length ys - 510 * c k)" "length ys - 510 * c k < 510" by simp_all
    then show "length ys div 510 = c k" by (metis Suc_1 div_mult_self4 div_less add.right_neutral zero_neq_numeral)
    show n': "n' = int (length ys) - 510 * int (c k)" using r(3) by (simp add: n'_def xs)
    show "0 \<le> n'" "n' < 510" using b n' by simp_all
    show "nat n' = length ys mod 510" using n' \<open>length ys div 510 = c k\<close>
      by (metis minus_div_mult_eq_mod mult.commute nat_int of_nat_diff of_nat_mult of_nat_numeral b(1))
  qed
  have x: "fpl_entry s fpl (nat n') = x" using r(7) [OF j(2)] div(1,2) j(3) by (simp add: fpl_def)
  have own: "own p = Free k (length ys)" if "p \<in> region x k" for p using d(10) [OF k' j(2)] that j(3) by simp
  have x41: "41 \<le> x" using d(9) [OF k' j(2)] j(3) by simp
  have "1 \<le> (2::nat) ^ k" by simp
  then have "x + 2 ^ k - 1 \<in> region x k" unfolding region_def atLeastLessThan_iff by linarith
  then have xb: "x + 2 ^ k \<le> next_free_page s" using owned_below [OF inv, of "x + 2 ^ k - 1"] own by fastforce
  then have "x + 2 ^ k \<le> 2 ^ 52" using d(4) by simp
  then have clear: "clear_region x (2 ^ k) s = Inr (cleared (region x k) s)" by (simp add: clear_region_ok region_def)
  define s1 where "s1 = cleared (region x k) s"
  have s1: "s1 p = s p" if "\<nexists>j. own p = Free k j" for p using that own by (auto simp: s1_def cleared_def)
  have s10: "s1 0 = s 0" using s1 d(1) by simp
  have inv1: "space_inv s1 F c xs own A" by (rule space_inv_cong [OF inv]) (use s1 d(1) in simp_all)
  note d1 = space_invD [OF inv1]
  have prev: "fpl_previous s1 fpl = (if c k = 0 then 0 else F k ! (c k - 1))"
    using fpl_repD(8) [OF d1(7) [OF k'] r(1)] by (simp add: fpl_def)
  have fpl0: "F k' ! i \<noteq> 0 \<and> page_ok (F k' ! i)" if "k' \<le> MAX_ORDER" "i < length (F k')" for k' i
    using d(8) [OF that] d(1) owned_below [OF inv, of "F k' ! i"] by (intro conjI notI) simp_all
  define bk where "bk = (n' = 0 \<and> fpl_previous s1 fpl \<noteq> 0)"
  define c' where "c' = (if length ys = 510 * c k \<and> 0 < c k then c k - 1 else c k)"
  define s2 where "s2 = (if bk then upd_u64 0 (24 + 8 * k) (fpl_previous s1 fpl) s1 else s1)"
  define m where "m = (if bk then 510 else n')"
  define s' where "s' = upd_i32 0 (336 + 4 * k) m s2"
  have bk: "bk \<longleftrightarrow> length ys = 510 * c k \<and> 0 < c k"
    using prev div(5) fpl0 [OF k', of "c k - 1"] r(1) by (auto simp: bk_def)
  have m: "0 \<le> m" "m \<le> 510" "m = int (length ys) - 510 * int c'"
    using div(3,4,5) bk by (auto simp: m_def c'_def)
  have ofs: "24 + 8 * k + 8 \<le> PAGE_SIZE" "336 + 4 * k + 4 \<le> PAGE_SIZE" using k by simp_all
  have e1: "last_fpl_page_entries s1 k - 1 = n'" using meta_cong(3) [of s1 s, OF s10] by (simp add: n'_def)
  have region_nat: "nat (2 ^ k mod 2 ^ 64) = 2 ^ k"
  proof -
    have "(2::int) ^ k < 2 ^ 64" using k by (intro power_strict_increasing) simp_all
    then show ?thesis by (simp add: nat_power_eq)
  qed
  have n1: "\<not> (n' + 1 < 1 \<or> FPL_PAGE_CAPACITY < n' + 1)" "n' + 1 \<noteq> 0" "n' + 1 - 1 = n'"
    using div(3,4) by (simp_all add: capacity_510)
  have nn: "last_fpl_page_entries s k = n' + 1" by (simp add: n'_def)
  have lf: "last_fpl_page s k = fpl" using r(2) by (simp add: fpl_def)
  have pop: "pop_fpl k fpl s1 = Inr s'"
    unfolding pop_fpl_def Let_def e1 bk_def [symmetric] s'_def s2_def m_def
    using k by (cases bk) (simp_all add: put_meta_defs put_upd capacity_510)
  have clear': "clear_region x (nat (2 ^ k mod 2 ^ 64)) s = Inr s1" unfolding region_nat s1_def by (rule clear)
  have run: "SpaceManager_allocate k s = Inr (x, s')"
    unfolding SpaceManager_allocate_def Let_def nn lf n1(3) x
    using k k' n1(1,2) clear' pop by (simp add: shift_one_def)
  have page: "s' p = s1 p" if "p \<noteq> 0" for p using that by (simp add: s'_def s2_def)
  have meta: "next_free_page s' = next_free_page s" "kv_entry_count s' = kv_entry_count s"
    "last_fpl_page_entries s' k' = (if k' = k then m else last_fpl_page_entries s k')"
    "k' \<le> MAX_ORDER \<Longrightarrow> last_fpl_page s' k' = (if k' = k \<and> bk then fpl_previous s1 fpl else last_fpl_page s k')" for k'
    using meta_cong [of s1 s, OF s10] m(1,2) get_u64_less [of "s1 fpl" 0] k'
    by (simp_all add: s'_def s2_def fpl_previous_def)
  have lp: "last_fpl_page s' k = F k ! c'"
    using meta(4) [OF k'] r(2) prev bk by (simp add: c'_def)
  have fpl_same: "s' f = s f" if f: "k' \<le> MAX_ORDER" "f \<in> set (F k')" for k' f
  proof -
    obtain i where i: "own f = Fpl k' i" using fpl_page_owner [OF inv f] by blast
    then have "f \<noteq> 0" using d(1) by (intro notI) simp
    then have "s' f = s1 f" by (rule page)
    also have "\<dots> = s f" by (rule s1) (simp add: i)
    finally show ?thesis .
  qed
  have rk: "fpl_rep s' k (F k) c' ys"
    by (rule fpl_pop [OF rep c'_def fpl_same [OF k'] lp]) (simp_all add: meta(3) m(3))
  have ro: "fpl_rep s' k' (F k') (c k') (xs k')" if "k' \<le> MAX_ORDER" "k' \<noteq> k" for k'
    by (rule fpl_rep_cong [OF d(7) [OF that(1)] fpl_same [OF that(1)]]) (use that meta in simp_all)
  have reps: "fpl_rep s' k' (F k') ((c(k := c')) k') ((xs(k := ys)) k')" if "k' \<le> MAX_ORDER" for k'
    using rk ro [OF that] by simp
  have zero: "is_zero (s' p)" if "next_free_page s \<le> p" for p
    using d1(6) [of p] that meta_cong(1) [of s1 s, OF s10] page [of p] d(3) by simp
  have inv': "space_inv s' F (c(k := c')) (xs(k := ys)) (own_region (region x k) (Alloc x k) own) (insert (x, k) A)"
    and new: "(x, k) \<notin> A"
  proof -
    have f: "own p = Unused \<or> (\<exists>j\<ge>length ys. own p = Free k j)" if "p \<in> region x k" for p using own [OF that] by blast
    have t: "ys = take (length ys) (xs k)" by (simp add: xs)
    have l: "p < next_free_page s'" if "p \<in> region x k" for p using that xb meta(1) by (simp add: region_def)
    show "space_inv s' F (c(k := c')) (xs(k := ys)) (own_region (region x k) (Alloc x k) own) (insert (x, k) A)" "(x, k) \<notin> A"
      using space_inv_hand_out [OF inv k' x41 f t _ _ l _ reps] meta(1) d(4) zero by simp_all
  qed
  then have "space_ok s' (insert (x, k) A)" unfolding space_ok_def by blast
  moreover have "kept A s s'"
  proof (rule keptI)
    show "s' 1 = s 1" using page [of 1] s1 [of 1] d(2) by simp
    show "kv_entry_count s' = kv_entry_count s" by (rule meta(2))
    show "s' p = s p" if "(y, j) \<in> A" "p \<in> region y j" for y j p
    proof -
      have o: "own p = Alloc y j" by (rule d(13) [OF that])
      then have "p \<noteq> 0" using d(1) by (intro notI) simp
      then have "s' p = s1 p" by (rule page)
      also have "\<dots> = s p" by (rule s1) (simp add: o)
      finally show ?thesis .
    qed
  qed
  moreover have "is_zero (s' p)" if "p \<in> region x k" for p
    using that page [of p] x41 by (simp add: s1_def cleared_def region_def)
  ultimately have "allocated k A s x s'" using new meta(1) by (simp add: allocated_def)
  with run inv' show ?thesis by blast
qed

lemma allocate_inv:
  assumes "space_inv s F c xs own A" "k < 31" "next_free_page s + 2 ^ k \<le> 2 ^ 52"
  obtains x s' c' ys own' where "SpaceManager_allocate k s = Inr (x, s')" "allocated k A s x s'"
    "space_inv s' F (c(k := c')) (xs(k := ys)) own' (insert (x, k) A)"
  using allocate_fresh [OF assms] allocate_pop [OF assms(1,2)] by (cases "last_fpl_page_entries s k = 0") blast+

lemma allocate_ok:
  assumes "space_ok s A" "k < 31" "next_free_page s + 2 ^ k \<le> 2 ^ 52"
  obtains x s' where "SpaceManager_allocate k s = Inr (x, s')" "allocated k A s x s'"
  using assms(1) allocate_inv [OF _ assms(2,3)] unfolding space_ok_def by metis

section \<open>Freeing\<close>

lemma fpl_push:
  assumes rep: "fpl_rep s k F c xs" and dist: "distinct F" and x: "x < 2 ^ 64"
    and c': "c' = (if length xs < 510 * Suc c then c else Suc c)" "c' < length F" and n: "n = length xs - 510 * c'"
    and s': "\<And>f. f \<in> set F \<Longrightarrow> s' f = upd_u64 (F ! c') (16 + 8 * n) x s f" "last_fpl_page s' k = F ! c'"
      "last_fpl_page_entries s' k = int n + 1"
  shows "fpl_rep s' k F c' (xs @ [x])" "n < 510"
proof -
  note d = fpl_repD [OF rep]
  have len: "length xs = 510 * c' + n" "n < 510" using c'(1) n d(4,5) by (auto split: if_splits)
  have div: "length xs div 510 = c'" "length xs mod 510 = n" using len by simp_all
  have e: "fpl_entry s' (F ! (j div 510)) (j mod 510) = (xs @ [x]) ! j" if j: "j < length (xs @ [x])" for j
  proof -
    have b: "j div 510 < length F" using j len c'(2) by (auto simp: less_mult_imp_div_less mult.commute div_le_mono less_Suc_eq_le intro: le_less_trans [of _ c'])
    then have m: "F ! (j div 510) \<in> set F" by simp
    have s'j: "fpl_entry s' (F ! (j div 510)) i = fpl_entry (upd_u64 (F ! c') (16 + 8 * n) x s) (F ! (j div 510)) i" for i
      using s'(1) [OF m] by (simp add: get_fpl_defs)
    show ?thesis
    proof (cases "j = length xs")
      case True
      then show ?thesis using div x s'j [of n] by simp
    next
      case False
      then have lt: "j < length xs" using j by simp
      have "j div 510 \<noteq> c' \<or> j mod 510 \<noteq> n" using False div by (metis div_mod_decomp)
      then have "fpl_entry (upd_u64 (F ! c') (16 + 8 * n) x s) (F ! (j div 510)) (j mod 510) =
          fpl_entry s (F ! (j div 510)) (j mod 510)"
        using b c'(2) nth_eq_iff_index_eq [OF dist b c'(2)] by (cases "j div 510 = c'") simp_all
      then show ?thesis using d(7) [OF lt] lt by (simp add: s'j nth_append)
    qed
  qed
  have "fpl_previous s' (F ! i) = fpl_previous s (F ! i) \<and> fpl_next s' (F ! i) = fpl_next s (F ! i)" if i: "i < length F" for i
  proof -
    have "fpl_previous s' (F ! i) = fpl_previous (upd_u64 (F ! c') (16 + 8 * n) x s) (F ! i)"
      "fpl_next s' (F ! i) = fpl_next (upd_u64 (F ! c') (16 + 8 * n) x s) (F ! i)"
      using s'(1) [of "F ! i"] i by (simp_all add: get_fpl_defs)
    then show ?thesis by (cases "F ! i = F ! c'") simp_all
  qed
  then show "fpl_rep s' k F c' (xs @ [x])" using c'(2) len e d(8,9) s'(2,3) unfolding fpl_rep_def by simp
  show "n < 510" by (rule len(2))
qed

lemma fpl_extend:
  assumes rep: "fpl_rep s k F c xs" and c: "Suc c = length F" and dist: "distinct (F @ [f])" and f: "f < 2 ^ 64"
    and s': "\<And>g. g \<in> set F \<Longrightarrow> s' g = upd_u64 (F ! c) 8 f s g"
      "fpl_previous s' f = F ! c" "fpl_next s' f = 0"
    and meta: "last_fpl_page s' k = last_fpl_page s k" "last_fpl_page_entries s' k = last_fpl_page_entries s k"
  shows "fpl_rep s' k (F @ [f]) c xs"
proof -
  note d = fpl_repD [OF rep]
  have e: "fpl_entry s' ((F @ [f]) ! (j div 510)) (j mod 510) = xs ! j" if j: "j < length xs" for j
  proof -
    have b: "j div 510 < length F" using j d(5) c by (auto simp: less_mult_imp_div_less mult.commute)
    then have "fpl_entry s' (F ! (j div 510)) (j mod 510) = fpl_entry (upd_u64 (F ! c) 8 f s) (F ! (j div 510)) (j mod 510)"
      using s'(1) [of "F ! (j div 510)"] by (simp add: get_fpl_defs)
    also have "\<dots> = fpl_entry s (F ! (j div 510)) (j mod 510)"
      by (cases "F ! (j div 510) = F ! c") simp_all
    finally show ?thesis using d(7) [OF j] b by (simp add: nth_append)
  qed
  have l: "fpl_previous s' ((F @ [f]) ! i) = (if i = 0 then 0 else (F @ [f]) ! (i - 1)) \<and>
      fpl_next s' ((F @ [f]) ! i) = (if Suc i < length (F @ [f]) then (F @ [f]) ! Suc i else 0)"
    if i: "i < length (F @ [f])" for i
  proof (cases "i = length F")
    case True
    then have "i - 1 = c" "i \<noteq> 0" using c by linarith+
    moreover have "F \<noteq> []" using c by auto
    ultimately show ?thesis using True s'(2,3) c by (auto simp: nth_append)
  next
    case False
    then have lt: "i < length F" using i by simp
    have "fpl_previous s' (F ! i) = fpl_previous (upd_u64 (F ! c) 8 f s) (F ! i)"
      "fpl_next s' (F ! i) = fpl_next (upd_u64 (F ! c) 8 f s) (F ! i)"
      using s'(1) [of "F ! i"] lt by (simp_all add: get_fpl_defs)
    moreover have "F ! i = F ! c \<longleftrightarrow> i = c" using dist lt c by (simp add: nth_eq_iff_index_eq)
    ultimately have "fpl_previous s' (F ! i) = fpl_previous s (F ! i)"
      "fpl_next s' (F ! i) = (if i = c then f else fpl_next s (F ! i))"
      using f by (cases "i = c"; simp)+
    then show ?thesis using d(8,9) [OF lt] lt c by (auto simp: nth_append)
  qed
  show ?thesis using d(1-6) e l meta unfolding fpl_rep_def by (simp add: nth_append)
qed

lemma fpl_pages:
  assumes inv: "space_inv s F c xs own A" and k: "k \<le> MAX_ORDER"
  shows "distinct (F k)" "f \<in> set (F k) \<Longrightarrow> f \<noteq> 0 \<and> f \<noteq> 1 \<and> page_ok f \<and> f < next_free_page s"
    "f \<in> set (F k) \<Longrightarrow> f \<in> set (F k') \<Longrightarrow> k' \<le> MAX_ORDER \<Longrightarrow> k' = k"
proof -
  note d = space_invD [OF inv]
  show "distinct (F k)" unfolding distinct_conv_nth
    using d(8) [OF k] by (metis owner.inject(1))
  show "f \<in> set (F k) \<Longrightarrow> f \<noteq> 0 \<and> f \<noteq> 1 \<and> page_ok f \<and> f < next_free_page s"
  proof -
    assume "f \<in> set (F k)"
    then obtain i where o: "own f = Fpl k i" using fpl_page_owner [OF inv k] by blast
    then have "f \<noteq> 0" "f \<noteq> 1" using d(1,2) by (intro notI; simp)+
    then show ?thesis using owned_below [OF inv, of f] o by simp
  qed
  show "f \<in> set (F k) \<Longrightarrow> f \<in> set (F k') \<Longrightarrow> k' \<le> MAX_ORDER \<Longrightarrow> k' = k"
    using fpl_page_owner [OF inv k, of f] fpl_page_owner [OF inv, of k' f] by auto
qed

lemma alloc_page:
  assumes inv: "space_inv s F c xs own A" and x: "(x, k) \<in> A" "p \<in> region x k"
  shows "own p = Alloc x k" "p \<noteq> 0" "p \<noteq> 1" "page_ok p" "p < next_free_page s"
    "k' \<le> MAX_ORDER \<Longrightarrow> p \<notin> set (F k')"
proof -
  note d = space_invD [OF inv]
  show o: "own p = Alloc x k" by (rule d(13) [OF x])
  show "p \<noteq> 0" "p \<noteq> 1" using o d(1,2) by (intro notI; simp)+
  show "page_ok p" "p < next_free_page s" using owned_below [OF inv, of p] o by simp_all
  show "k' \<le> MAX_ORDER \<Longrightarrow> p \<notin> set (F k')" using fpl_page_owner [OF inv] o by fastforce
qed

text \<open>A region goes back to the list.\<close>

lemma space_inv_take_back:
  assumes inv: "space_inv s F c xs own A" and x: "(x, k) \<in> A"
    and n: "next_free_page s' = next_free_page s" "\<And>p. next_free_page s \<le> p \<Longrightarrow> s' p = s p"
    and reps: "\<And>k'. k' \<le> MAX_ORDER \<Longrightarrow> fpl_rep s' k' (F k') ((c(k := c')) k') ((xs(k := xs k @ [x])) k')"
  shows "space_inv s' F (c(k := c')) (xs(k := xs k @ [x]))
    (own_region (region x k) (Free k (length (xs k))) own) (A - {(x, k)})"
proof -
  note d = space_invD [OF inv]
  define own' where "own' = own_region (region x k) (Free k (length (xs k))) own"
  note k = d(11) [OF x] d(12) [OF x]
  have new: "own' p = Free k (length (xs k))" if "p \<in> region x k" for p using that by (simp add: own'_def own_region_def)
  have keep: "own' p = own p" if "own p \<noteq> Alloc x k" for p
    using that d(13) [OF x] by (auto simp: own'_def own_region_def)
  show "space_inv s' F (c(k := c')) (xs(k := xs k @ [x])) own' (A - {(x, k)})"
  proof (rule space_invI)
    show "own' 0 = Reserved" "own' 1 = Reserved" using keep d(1,2) by simp_all
    show "41 \<le> next_free_page s'" "next_free_page s' \<le> 2 ^ 52" using n d(3,4) by simp_all
    show "own' p = Unused" "is_zero (s' p)" if "next_free_page s' \<le> p" for p
      using that d(5,6) [of p] n keep [of p] by simp_all
    show "fpl_rep s' k' (F k') ((c(k := c')) k') ((xs(k := xs k @ [x])) k')" if "k' \<le> MAX_ORDER" for k' by (rule reps [OF that])
    show "own' (F k' ! i) = Fpl k' i" if "k' \<le> MAX_ORDER" "i < length (F k')" for k' i
      using keep d(8) [OF that] by simp
    fix k' j assume k': "k' \<le> MAX_ORDER" and j: "j < length ((xs(k := xs k @ [x])) k')"
    have old: "41 \<le> xs k' ! j" "p \<in> region (xs k' ! j) k' \<Longrightarrow> own' p = Free k' j" if "j < length (xs k')" for p
      using d(9,10) [OF k' that] keep [of p] by simp_all
    have which: "k' = k \<and> j = length (xs k) \<or> j < length (xs k')" using j by (auto split: if_splits)
    then show "41 \<le> (xs(k := xs k @ [x])) k' ! j" using old(1) k(2) by (auto simp: nth_append)
    show "own' p = Free k' j" if "p \<in> region ((xs(k := xs k @ [x])) k' ! j) k'" for p
      using which that old(2) [of p] new [of p] by (auto simp: nth_append split: if_splits)
  next
    fix y k' assume y: "(y, k') \<in> A - {(x, k)}"
    then show "k' \<le> MAX_ORDER" "41 \<le> y" using d(11,12) [of y k'] by auto
    show "own' p = Alloc y k'" if "p \<in> region y k'" for p
      using y keep [of p] d(13) [OF _ that] by auto
  qed
qed

text \<open>A page becomes the last FPL page of a list.\<close>

lemma space_inv_new_fpl:
  assumes inv: "space_inv s F c xs own A" and f: "(f, 0) \<in> A" and k: "k \<le> MAX_ORDER"
    and n: "next_free_page s' = next_free_page s" "\<And>p. next_free_page s \<le> p \<Longrightarrow> s' p = s p"
    and reps: "\<And>k'. k' \<le> MAX_ORDER \<Longrightarrow> fpl_rep s' k' ((F(k := F k @ [f])) k') (c k') (xs k')"
  shows "space_inv s' (F(k := F k @ [f])) c xs (own_region {f} (Fpl k (length (F k))) own) (A - {(f, 0)})"
proof -
  note d = space_invD [OF inv]
  define own' where "own' = own_region {f} (Fpl k (length (F k))) own"
  have new: "own' f = Fpl k (length (F k))" by (simp add: own'_def own_region_def)
  have keep: "own' p = own p" if "own p \<noteq> Alloc f 0" for p
    using that d(13) [OF f] by (auto simp: own'_def own_region_def)
  show "space_inv s' (F(k := F k @ [f])) c xs own' (A - {(f, 0)})"
  proof (rule space_invI)
    show "own' 0 = Reserved" "own' 1 = Reserved" using keep d(1,2) by simp_all
    show "41 \<le> next_free_page s'" "next_free_page s' \<le> 2 ^ 52" using n d(3,4) by simp_all
    show "own' p = Unused" "is_zero (s' p)" if "next_free_page s' \<le> p" for p
      using that d(5,6) [of p] n keep [of p] by simp_all
    show "fpl_rep s' k' ((F(k := F k @ [f])) k') (c k') (xs k')" if "k' \<le> MAX_ORDER" for k' by (rule reps [OF that])
    show "own' ((F(k := F k @ [f])) k' ! i) = Fpl k' i"
      if "k' \<le> MAX_ORDER" "i < length ((F(k := F k @ [f])) k')" for k' i
    proof (cases "k' = k \<and> i = length (F k)")
      case False
      then have i: "i < length (F k')" using that(2) by (auto split: if_splits)
      then have "(F(k := F k @ [f])) k' ! i = F k' ! i" by (cases "k' = k") (simp_all add: nth_append)
      then show ?thesis using d(8) [OF that(1) i] keep by simp
    qed (simp add: new)
    show "41 \<le> xs k' ! j" if "k' \<le> MAX_ORDER" "j < length (xs k')" for k' j using d(9) [OF that] .
    show "own' p = Free k' j" if "k' \<le> MAX_ORDER" "j < length (xs k')" "p \<in> region (xs k' ! j) k'" for k' j p
      using d(10) [OF that] keep by simp
  next
    fix y k' assume y: "(y, k') \<in> A - {(f, 0)}"
    then show "k' \<le> MAX_ORDER" "41 \<le> y" using d(11,12) [of y k'] by auto
    show "own' p = Alloc y k'" if "p \<in> region y k'" for p
      using y keep [of p] d(13) [OF _ that] by auto
  qed
qed

lemma push_step:
  assumes inv: "space_inv s F c xs own A" and x: "(x, k) \<in> A"
    and c': "c' = (if length (xs k) < 510 * Suc (c k) then c k else Suc (c k))" "c' < length (F k)"
    and n: "n = length (xs k) - 510 * c'"
    and s2: "s2 = upd_u64 (F k ! c') (16 + 8 * n) x s \<and> c' = c k \<or>
      s2 = upd_u64 0 (24 + 8 * k) (F k ! c') (upd_u64 (F k ! c') (16 + 8 * n) x s)"
    and s': "s' = upd_i32 0 (336 + 4 * k) (int n + 1) s2"
  shows "\<exists>own'. space_inv s' F (c(k := c')) (xs(k := xs k @ [x])) own' (A - {(x, k)})"
    "kept (A - {(x, k)}) s s'" "next_free_page s' = next_free_page s"
proof -
  note d = space_invD [OF inv]
  have k: "k \<le> MAX_ORDER" by (rule d(11) [OF x])
  note rep = d(7) [OF k]
  define fpl where "fpl = F k ! c'"
  have fm: "fpl \<in> set (F k)" using c'(2) by (simp add: fpl_def)
  note fp = fpl_pages [OF inv k]
  have f: "fpl \<noteq> 0" "fpl \<noteq> 1" "fpl < 2 ^ 64" "fpl < next_free_page s" using fp(2) [OF fm] by (auto simp: page_ok_def)
  have xx: "x < 2 ^ 64" using alloc_page(4) [OF inv x region_start] by (simp add: page_ok_def)
  have n510: "n < 510" using c'(1) n fpl_repD(4,5) [OF rep] by (auto split: if_splits)
  have page: "s' p = upd_u64 fpl (16 + 8 * n) x s p" if "p \<noteq> 0" for p
    using that s2 by (auto simp: s' fpl_def)
  have meta: "next_free_page s' = next_free_page s" "kv_entry_count s' = kv_entry_count s"
    "k' \<le> MAX_ORDER \<Longrightarrow> last_fpl_page s' k' = (if k' = k then fpl else last_fpl_page s k')"
    "last_fpl_page_entries s' k' = (if k' = k then int n + 1 else last_fpl_page_entries s k')" for k'
    using s2 f k n510 fpl_repD(2) [OF rep] unfolding s' fpl_def [symmetric] by (auto simp: fpl_def)
  have same: "fpl_rep s' k' (F k') (c k') (xs k')" if k': "k' \<le> MAX_ORDER" "k' \<noteq> k" for k'
  proof (rule fpl_rep_cong [OF d(7) [OF k'(1)]])
    fix g assume g: "g \<in> set (F k')"
    then have "g \<noteq> fpl" using fp(3) [OF fm _ k'(1)] k'(2) by blast
    then show "s' g = s g" using page [of g] fpl_pages(2) [OF inv k'(1) g] by simp
  qed (use meta k' in simp_all)
  have "fpl_rep s' k (F k) c' (xs k @ [x])"
  proof (rule fpl_push(1) [OF rep fp(1) xx c' n])
    show "s' g = upd_u64 (F k ! c') (16 + 8 * n) x s g" if "g \<in> set (F k)" for g
      using page [of g] fp(2) [OF that] by (simp add: fpl_def)
  qed (use meta k fpl_def in simp_all)
  with same have reps: "fpl_rep s' k' (F k') ((c(k := c')) k') ((xs(k := xs k @ [x])) k')" if "k' \<le> MAX_ORDER" for k'
    using that by (cases "k' = k") simp_all
  have above: "s' p = s p" if "next_free_page s \<le> p" for p
    using page [of p] that f(4) d(3) by (cases "p = fpl") simp_all
  show "\<exists>own'. space_inv s' F (c(k := c')) (xs(k := xs k @ [x])) own' (A - {(x, k)})"
    using space_inv_take_back [OF inv x meta(1) above reps] by blast
  show "kept (A - {(x, k)}) s s'"
  proof (rule keptI)
    show "s' 1 = s 1" using page [of 1] f(2) by simp
    show "s' p = s p" if "(y, j) \<in> A - {(x, k)}" "p \<in> region y j" for y j p
    proof -
      have "(y, j) \<in> A" using that(1) by blast
      note a = alloc_page [OF inv this that(2)]
      have "p \<noteq> fpl" using a(6) [OF k] fm by blast
      then show ?thesis using page [OF a(2)] by simp
    qed
  qed (rule meta(2))
  show "next_free_page s' = next_free_page s" by (rule meta(1))
qed

lemma link_step:
  assumes inv: "space_inv s F c xs own A" and f: "(f, 0) \<in> A" and k: "k \<le> MAX_ORDER"
    and c: "Suc (c k) = length (F k)" and fpl: "fpl = F k ! c k"
  obtains s' own' where "bindR (clear_page f s) (\<lambda>s. bindR (put_fpl_previous f fpl s) (put_fpl_next fpl f)) = Inr s'"
    "space_inv s' (F(k := F k @ [f])) c xs own' (A - {(f, 0)})" "kept (A - {(f, 0)}) s s'" "s' 0 = s 0"
proof -
  note d = space_invD [OF inv]
  note rep = d(7) [OF k]
  have fm: "fpl \<in> set (F k)" using c by (simp add: fpl)
  note fp = fpl_pages [OF inv k]
  have p: "fpl \<noteq> 0" "fpl \<noteq> 1" "page_ok fpl" "fpl < 2 ^ 64" "fpl < next_free_page s"
    using fp(2) [OF fm] by (auto simp: page_ok_def)
  note a = alloc_page [OF inv f region_start]
  have ff: "f \<noteq> fpl" "f < 2 ^ 64" using a(4) a(6) [OF k] fm by (auto simp: page_ok_def)
  define s1 where "s1 = s(f := blit (s f) 0 (zeros PAGE_SIZE))"
  define s' where "s' = upd_u64 fpl 8 f (upd_u64 f 0 fpl s1)"
  have run: "bindR (clear_page f s) (\<lambda>s. bindR (put_fpl_previous f fpl s) (put_fpl_next fpl f)) = Inr s'"
    using a(4) p(3) by (simp add: clear_page_ok put_fpl_defs put_upd s1_def s'_def)
  have page: "s' g = s g" if "g \<noteq> f" "g \<noteq> fpl" for g using that by (simp add: s'_def s1_def)
  have s0: "s' 0 = s 0" using page a(2) p(1) by auto
  have onf: "s' g = upd_u64 fpl 8 f s g" if "g \<noteq> f" for g
    using that ff(1) by (cases "g = fpl") (simp_all add: s'_def s1_def upd_u64_def)
  have z: "is_zero (s1 f)" by (simp add: s1_def)
  have prev: "fpl_previous s' f = fpl" and nxt: "fpl_next s' f = 0"
    using ff p(4) fpl_zero [of s1 f, OF z] by (simp_all add: s'_def)
  have rk: "fpl_rep s' k (F k @ [f]) (c k) (xs k)"
  proof (rule fpl_extend [OF rep c _ ff(2)])
    show "distinct (F k @ [f])" using fp(1) a(6) [OF k] by simp
    show "s' g = upd_u64 (F k ! c k) 8 f s g" if "g \<in> set (F k)" for g
      using onf [of g] that a(6) [OF k] fpl by fastforce
  qed (use prev nxt fpl meta_cong(2,3) [of s' s, OF s0] in simp_all)
  have ro: "fpl_rep s' k' (F k') (c k') (xs k')" if k': "k' \<le> MAX_ORDER" "k' \<noteq> k" for k'
  proof (rule fpl_rep_cong [OF d(7) [OF k'(1)]])
    fix g assume g: "g \<in> set (F k')"
    then have "g \<noteq> fpl" "g \<noteq> f" using fp(3) [OF fm _ k'(1)] k'(2) a(6) [OF k'(1)] by blast+
    then show "s' g = s g" using page by blast
  qed (use meta_cong(2,3) [of s' s, OF s0] in simp_all)
  have reps: "fpl_rep s' k' ((F(k := F k @ [f])) k') (c k') (xs k')" if "k' \<le> MAX_ORDER" for k'
    using rk ro [OF that] by simp
  have above: "s' g = s g" if "next_free_page s \<le> g" for g using page [of g] that p(5) a(5) by auto
  have "kept (A - {(f, 0)}) s s'"
  proof (rule keptI)
    show "s' 1 = s 1" using page [of 1] p(2) a(3) by simp
    show "kv_entry_count s' = kv_entry_count s" by (rule meta_cong(4) [of s' s, OF s0])
    show "s' g = s g" if g: "(y, j) \<in> A - {(f, 0)}" "g \<in> region y j" for y j g
    proof -
      have "(y, j) \<in> A" using g(1) by blast
      note b = alloc_page [OF inv this g(2)]
      have "g \<noteq> fpl" using b(6) [OF k] fm by blast
      moreover have "g \<noteq> f" using a(1) b(1) g(1) by auto
      ultimately show ?thesis using page by blast
    qed
  qed
  then show thesis
    using that [OF run space_inv_new_fpl [OF inv f k meta_cong(1) [of s' s, OF s0] above reps]] s0 by blast
qed

definition freed :: "nat \<Rightarrow> (nat \<times> nat) set \<Rightarrow> pages \<Rightarrow> nat \<Rightarrow> pages \<Rightarrow> bool" where
  "freed k A s x s' \<longleftrightarrow> space_ok s' (A - {(x, k)}) \<and> kept (A - {(x, k)}) s s' \<and>
     next_free_page s \<le> next_free_page s' \<and> next_free_page s' \<le> next_free_page s + 1"

lemma kept_trans: "kept A s s1 \<Longrightarrow> kept B s1 s2 \<Longrightarrow> C \<subseteq> A \<Longrightarrow> C \<subseteq> B \<Longrightarrow> kept C s s2"
  unfolding kept_def by fastforce

lemma put_entries_ok: "k \<le> MAX_ORDER \<Longrightarrow> put_last_fpl_page_entries k n s = Inr (upd_i32 0 (336 + 4 * k) n s)"
  and put_last_ok: "k \<le> MAX_ORDER \<Longrightarrow> put_last_fpl_page k v s = Inr (upd_u64 0 (24 + 8 * k) v s)"
  and put_entry_ok: "page_ok f \<Longrightarrow> i < 510 \<Longrightarrow> put_fpl_entry f i v s = Inr (upd_u64 f (16 + 8 * i) v s)"
  by (simp_all add: put_meta_defs put_fpl_defs put_upd MAX_ORDER_def)

text \<open>With room in the FPL page the page goes there, and nothing else changes.\<close>

lemma free_with_room:
  assumes inv: "space_inv s F c xs own A" and x: "(x, k) \<in> A" and short: "last_fpl_page_entries s k < 510"
  obtains s' where "SpaceManager_free x k s = Inr s'" "freed k A s x s'"
    "\<forall>p. p \<noteq> 0 \<longrightarrow> p \<noteq> last_fpl_page s k \<longrightarrow> s' p = s p"
    "\<forall>j\<le>MAX_ORDER. last_fpl_page s' j = last_fpl_page s j \<and> (j \<noteq> k \<longrightarrow> last_fpl_page_entries s' j = last_fpl_page_entries s j)"
    "next_free_page s' = next_free_page s"
proof -
  note d = space_invD [OF inv]
  have k: "k \<le> MAX_ORDER" and x41: "41 \<le> x" using d(11,12) [OF x] by simp_all
  note rep = fpl_repD [OF d(7) [OF k]]
  define fpl where "fpl = F k ! c k"
  note ax = alloc_page [OF inv x region_start]
  have xs64: "\<not> signed 64 x < int MAX_ORDER + 3" using ax(4) x41 by (simp add: signed_def page_ok_def MAX_ORDER_def)
  have fm: "fpl \<in> set (F k)" using rep(1) by (simp add: fpl_def)
  note fp = fpl_pages(2) [OF inv k fm]
  have lf: "last_fpl_page s k = fpl" using rep(2) by (simp add: fpl_def)
  have some: "length (xs k) < 510 * Suc (c k)" using short rep(3,4) by simp
  define n where "n = length (xs k) - 510 * c k"
  have n: "last_fpl_page_entries s k = int n" "n < 510" using rep(3,4) some by (simp_all add: n_def)
  define s' where "s' = upd_i32 0 (336 + 4 * k) (int n + 1) (upd_u64 fpl (16 + 8 * n) x s)"
  have "last_fpl_page_entries (upd_u64 fpl (16 + 8 * n) x s) k = int n" using n(1) fp by simp
  then have run: "SpaceManager_free x k s = Inr s'"
    using xs64 n k fp lf unfolding SpaceManager_free_def Let_def
    by (simp add: capacity_510 put_entry_ok put_entries_ok s'_def)
  have c': "c k = (if length (xs k) < 510 * Suc (c k) then c k else Suc (c k))" using some by simp
  note p = push_step [OF inv x c' rep(1) n_def, of "upd_u64 fpl (16 + 8 * n) x s" s']
  have "freed k A s x s'" using p s'_def by (auto simp: freed_def space_ok_def fpl_def)
  moreover have "s' pg = s pg" if "pg \<noteq> 0" "pg \<noteq> last_fpl_page s k" for pg using that lf by (simp add: s'_def)
  moreover have "last_fpl_page s' j = last_fpl_page s j" "j \<noteq> k \<Longrightarrow> last_fpl_page_entries s' j = last_fpl_page_entries s j" if "j \<le> MAX_ORDER" for j
    using that k fp n(2) by (simp_all add: s'_def)
  moreover have "next_free_page s' = next_free_page s" using fp by (simp add: s'_def)
  ultimately show thesis using that [OF run] by blast
qed

lemma free_inv:
  assumes inv: "space_inv s F c xs own A" and x: "(x, k) \<in> A" and room: "next_free_page s + 1 \<le> 2 ^ 52"
  obtains s' where "SpaceManager_free x k s = Inr s'" "freed k A s x s'"
proof -
  note d = space_invD [OF inv]
  have k: "k \<le> MAX_ORDER" and x41: "41 \<le> x" using d(11,12) [OF x] by simp_all
  note rep = fpl_repD [OF d(7) [OF k]]
  define fpl where "fpl = F k ! c k"
  note ax = alloc_page [OF inv x region_start]
  have xs64: "\<not> signed 64 x < int MAX_ORDER + 3" using ax(4) x41 by (simp add: signed_def page_ok_def MAX_ORDER_def)
  have fm: "fpl \<in> set (F k)" using rep(1) by (simp add: fpl_def)
  note fp = fpl_pages(2) [OF inv k fm]
  have lf: "last_fpl_page s k = fpl" using rep(2) by (simp add: fpl_def)
  have nx: "fpl_next s fpl = (if Suc (c k) < length (F k) then F k ! Suc (c k) else 0)"
    using rep(9) [OF rep(1)] by (simp add: fpl_def)
  consider (some) "length (xs k) < 510 * Suc (c k)" | (spare) "length (xs k) = 510 * Suc (c k)" "Suc (c k) < length (F k)"
    | (full) "length (xs k) = 510 * Suc (c k)" "Suc (c k) = length (F k)"
    using rep(1,5) by linarith
  then show thesis
  proof cases
    case some
    have "last_fpl_page_entries s k < 510" using rep(3,4) some by simp
    then obtain s' where "SpaceManager_free x k s = Inr s'" "freed k A s x s'" using free_with_room [OF inv x] by metis
    then show thesis by (rule that)
  next
    case spare
    define q where "q = F k ! Suc (c k)"
    have q: "fpl_next s fpl = q" using nx spare(2) by (simp add: q_def)
    have qq: "q \<noteq> 0" "page_ok q" using fpl_pages(2) [OF inv k, of q] spare(2) by (simp_all add: q_def)
    have n: "last_fpl_page_entries s k = 510" using rep(3) spare(1) by simp
    define s' where "s' = upd_i32 0 (336 + 4 * k) 1 (upd_u64 0 (24 + 8 * k) q (upd_u64 q (16 + 8 * 0) x s))"
    have run: "SpaceManager_free x k s = Inr s'"
      using xs64 n k qq lf q unfolding SpaceManager_free_def Let_def
      by (simp add: capacity_510 put_entry_ok put_entries_ok put_last_ok s'_def)
    have c': "Suc (c k) = (if length (xs k) < 510 * Suc (c k) then c k else Suc (c k))" and
      n0: "0 = length (xs k) - 510 * Suc (c k)" using spare(1) by simp_all
    note p = push_step [OF inv x c' spare(2) n0, of "upd_u64 0 (24 + 8 * k) q (upd_u64 q (16 + 8 * 0) x s)" s']
    show thesis using that [OF run] p s'_def by (auto simp: freed_def space_ok_def q_def)
  next
    case full
    have n: "last_fpl_page_entries s k = 510" using rep(3) full(1) by simp
    have q: "fpl_next s fpl = 0" using nx full(2) by simp
    show thesis
    proof (cases "k = 0")
      case True
      have x0: "(x, 0) \<in> A" using x True by simp
      obtain s' own' where s': "bindR (clear_page x s) (\<lambda>s. bindR (put_fpl_previous x fpl s) (put_fpl_next fpl x)) = Inr s'"
        "space_inv s' (F(k := F k @ [x])) c xs own' (A - {(x, 0)})" "kept (A - {(x, 0)}) s s'" "s' 0 = s 0"
        by (rule link_step [OF inv x0 k full(2) fpl_def])
      have "SpaceManager_free x k s = Inr s'"
        using xs64 n k lf q s'(1) True unfolding SpaceManager_free_def Let_def by (simp add: capacity_510)
      moreover have "freed k A s x s'"
        using s'(2,3) meta_cong(1) [of s' s, OF s'(4)] True by (auto simp: freed_def space_ok_def)
      ultimately show thesis using that by blast
    next
      case False
      have r: "next_free_page s + 2 ^ 0 \<le> 2 ^ 52" using room by simp
      obtain f s1 c1 ys1 own1 where s1: "SpaceManager_allocate 0 s = Inr (f, s1)" "allocated 0 A s f s1"
        "space_inv s1 F (c(0 := c1)) (xs(0 := ys1)) own1 (insert (f, 0) A)"
        by (rule allocate_inv [OF inv _ r]) simp_all
      have ck: "(c(0 := c1)) k = c k" "(xs(0 := ys1)) k = xs k" using False by simp_all
      note i1 = s1(3)
      have rep1: "fpl_rep s1 k (F k) (c k) (xs k)" using space_invD(7) [OF i1 k] ck by simp
      have lf1: "last_fpl_page s1 k = fpl" using fpl_repD(2) [OF rep1] by (simp add: fpl_def)
      have f0: "(f, 0) \<in> insert (f, 0) A" by simp
      have c1': "Suc ((c(0 := c1)) k) = length (F k)" using full(2) ck by simp
      have fpl1: "fpl = F k ! (c(0 := c1)) k" using ck by (simp add: fpl_def)
      obtain s2 own2 where s2: "bindR (clear_page f s1) (\<lambda>s. bindR (put_fpl_previous f fpl s) (put_fpl_next fpl f)) = Inr s2"
        "space_inv s2 (F(k := F k @ [f])) (c(0 := c1)) (xs(0 := ys1)) own2 (insert (f, 0) A - {(f, 0)})"
        "kept (insert (f, 0) A - {(f, 0)}) s1 s2" "s2 0 = s1 0"
        by (rule link_step [OF i1 f0 k c1' fpl1])
      have A: "insert (f, 0) A - {(f, 0)} = A" using s1(2) by (simp add: allocated_def)
      have lf2: "last_fpl_page s1 k = fpl" "page_ok f" "f \<noteq> 0"
        using lf1 alloc_page(2,4) [OF i1 f0 region_start] by simp_all
      define F' where "F' = F(k := F k @ [f])"
      have F': "F' k ! Suc (c k) = f" "Suc (c k) < length (F' k)" using full(2) by (simp_all add: F'_def)
      define s' where "s' = upd_i32 0 (336 + 4 * k) 1 (upd_u64 0 (24 + 8 * k) f (upd_u64 f (16 + 8 * 0) x s2))"
      define u where "u = s1(f := blit (s1 f) 0 (zeros PAGE_SIZE))"
      have "u 0 = s1 0" using lf2(3) by (simp add: u_def)
      then have u: "clear_page f s1 = Inr u" "last_fpl_page u k = fpl"
        using lf2(1) clear_page_ok [OF lf2(2)] meta_cong(2) [of u s1 k] by (simp_all add: u_def)
      have link: "bindR (put_fpl_previous f fpl u) (put_fpl_next fpl f) = Inr s2" using s2(1) u(1) by simp
      then obtain v where v: "put_fpl_previous f fpl u = Inr v" "put_fpl_next fpl f v = Inr s2" unfolding bindR_Inr by blast
      have run: "SpaceManager_free x k s = Inr s'"
        using xs64 n k lf q False s1(1) u v lf2(2) unfolding SpaceManager_free_def Let_def
        by (simp add: capacity_510 put_entry_ok put_entries_ok put_last_ok s'_def)
      have c2: "Suc (c k) = (if length ((xs(0 := ys1)) k) < 510 * Suc ((c(0 := c1)) k) then (c(0 := c1)) k else Suc ((c(0 := c1)) k))"
        and n2: "0 = length ((xs(0 := ys1)) k) - 510 * Suc (c k)" using full(1) ck by simp_all
      note p = push_step [OF s2(2) [folded F'_def, unfolded A] x c2 F'(2) n2,
          of "upd_u64 0 (24 + 8 * k) f (upd_u64 f (16 + 8 * 0) x s2)" s']
      have "freed k A s x s'"
      proof -
        have k1: "kept A s s1" and nf: "next_free_page s \<le> next_free_page s1" "next_free_page s1 \<le> next_free_page s + 1"
          using s1(2) by (simp_all add: allocated_def)
        have k2: "kept A s s2" by (rule kept_trans [OF k1 s2(3) [unfolded A]]) simp_all
        have "kept (A - {(x, k)}) s2 s'" using p(2) s'_def F'(1) by simp
        then have "kept (A - {(x, k)}) s s'" by (rule kept_trans [OF k2]) blast+
        moreover have "space_ok s' (A - {(x, k)})" using p(1) s'_def F'(1) unfolding space_ok_def by fastforce
        moreover have "next_free_page s' = next_free_page s1"
          using p(3) s'_def F'(1) meta_cong(1) [of s2 s1, OF s2(4)] by simp
        ultimately show ?thesis using nf by (simp add: freed_def)
      qed
      then show thesis using that [OF run] by blast
    qed
  qed
qed

lemma free_ok:
  assumes "space_ok s A" "(x, k) \<in> A" "next_free_page s + 1 \<le> 2 ^ 52"
  obtains s' where "SpaceManager_free x k s = Inr s'" "freed k A s x s'"
  using assms(1) free_inv [OF _ assms(2,3)] unfolding space_ok_def by metis

section \<open>What clients rely on\<close>

lemma space_okD:
  assumes "space_ok s A"
  shows "(x, k) \<in> A \<Longrightarrow> p \<in> region x k \<Longrightarrow> p \<noteq> 0 \<and> p \<noteq> 1 \<and> page_ok p \<and> p < next_free_page s"
    "(x, k) \<in> A \<Longrightarrow> 41 \<le> x" "(x, k) \<in> A \<Longrightarrow> k \<le> MAX_ORDER"
    "(x, k) \<in> A \<Longrightarrow> (y, j) \<in> A \<Longrightarrow> (x, k) \<noteq> (y, j) \<Longrightarrow> region x k \<inter> region y j = {}"
    "next_free_page s \<le> 2 ^ 52"
proof -
  obtain F c xs own where inv: "space_inv s F c xs own A" using assms by (auto simp: space_ok_def)
  note d = space_invD [OF inv]
  show "(x, k) \<in> A \<Longrightarrow> p \<in> region x k \<Longrightarrow> p \<noteq> 0 \<and> p \<noteq> 1 \<and> page_ok p \<and> p < next_free_page s"
    using alloc_page(2-5) [OF inv] by blast
  show "(x, k) \<in> A \<Longrightarrow> 41 \<le> x" "(x, k) \<in> A \<Longrightarrow> k \<le> MAX_ORDER" "next_free_page s \<le> 2 ^ 52"
    by (rule d(12), assumption) (rule d(11), assumption, rule d(4))
  show "region x k \<inter> region y j = {}" if "(x, k) \<in> A" "(y, j) \<in> A" "(x, k) \<noteq> (y, j)"
  proof (rule ccontr)
    assume "region x k \<inter> region y j \<noteq> {}"
    then obtain p where "p \<in> region x k" "p \<in> region y j" by blast
    then have "own p = Alloc x k" "own p = Alloc y j" using d(13) that by blast+
    then show False using that(3) by simp
  qed
qed

text \<open>Writes to pages of regions handed out, to the root page and to the count of entries.\<close>

lemma space_ok_pages:
  assumes ok: "space_ok s A" and same: "\<And>p. s' p \<noteq> s p \<Longrightarrow> p = 1 \<or> (\<exists>(x, k)\<in>A. p \<in> region x k)"
  shows "space_ok s' A"
proof -
  obtain F c xs own where inv: "space_inv s F c xs own A" using ok by (auto simp: space_ok_def)
  note d = space_invD [OF inv]
  have o: "own p \<noteq> Unused \<and> own p \<noteq> Fpl k i \<and> p \<noteq> 0" if "s' p \<noteq> s p" for p k i
    using same [OF that]
  proof
    assume "\<exists>(x, k)\<in>A. p \<in> region x k"
    then obtain x j where x: "(x, j) \<in> A" "p \<in> region x j" by blast
    then show ?thesis using alloc_page(1,2) [OF inv x] by simp
  qed (simp add: d(2) [unfolded One_nat_def])
  have "space_inv s' F c xs own A" by (rule space_inv_cong [OF inv]) (use o in metis)+
  then show ?thesis by (auto simp: space_ok_def)
qed

lemma fpl_not_in_use:
  assumes "space_ok s A" "(x, k) \<in> A" "p \<in> region x k" "j \<le> MAX_ORDER"
  shows "p \<noteq> last_fpl_page s j"
proof -
  obtain F c xs own where inv: "space_inv s F c xs own A" using assms(1) by (auto simp: space_ok_def)
  note rep = fpl_repD [OF space_invD(7) [OF inv assms(4)]]
  have "p \<notin> set (F j)" by (rule alloc_page(6) [OF inv assms(2,3,4)])
  then show ?thesis using rep(1,2) by auto
qed

lemma space_ok_write:
  assumes "space_ok s A" "p = 1 \<or> (\<exists>(x, k)\<in>A. p \<in> region x k)"
  shows "space_ok (s(p := pg)) A"
  by (rule space_ok_pages [OF assms(1)]) (use assms(2) in \<open>simp split: if_splits\<close>)

lemma space_ok_count:
  assumes "space_ok s A"
  shows "space_ok (upd_u64 0 8 v s) A" "next_free_page (upd_u64 0 8 v s) = next_free_page s"
    "kv_entry_count (upd_u64 0 8 v s) = v mod 2 ^ 64"
proof -
  obtain F c xs own where inv: "space_inv s F c xs own A" using assms by (auto simp: space_ok_def)
  note d = space_invD [OF inv]
  define s' where "s' = upd_u64 0 8 v s"
  have m: "next_free_page s' = next_free_page s" "last_fpl_page s' k = last_fpl_page s k"
    "last_fpl_page_entries s' k = last_fpl_page_entries s k" for k
    by (simp_all add: s'_def get_meta_defs upd_u64_def field_simps_pages)
  have "fpl_rep s' k (F k) (c k) (xs k)" if "k \<le> MAX_ORDER" for k
    by (rule fpl_rep_cong [OF d(7) [OF that]]) (use m fpl_pages(2) [OF inv that] in \<open>simp_all add: s'_def\<close>)
  moreover have "is_zero (s' p)" if "next_free_page s \<le> p" for p
    using d(3) d(6) [OF that] that by (simp add: s'_def)
  ultimately have "space_inv s' F c xs own A" using inv m(1) unfolding space_inv_def by simp
  then show "space_ok (upd_u64 0 8 v s) A" "next_free_page (upd_u64 0 8 v s) = next_free_page s"
    using m(1) by (auto simp: space_ok_def s'_def)
  show "kv_entry_count (upd_u64 0 8 v s) = v mod 2 ^ 64"
    by (simp add: kv_entry_count_def upd_u64_def field_simps_pages)
qed

text \<open>The operations change the pages only by writes.\<close>

lemma bind_traced:
  "bindR r g = Inr s' \<Longrightarrow> (\<And>s1. r = Inr s1 \<Longrightarrow> traced s s1) \<Longrightarrow> (\<And>s1. r = Inr s1 \<Longrightarrow> g s1 = Inr s' \<Longrightarrow> traced s1 s') \<Longrightarrow>
   traced s s'"
  by (cases r) (auto intro: rtranclp_trans)

lemma put_meta_traced:
  "put_kv_entry_count v s = Inr s' \<Longrightarrow> traced s s'" "put_next_free_page v s = Inr s' \<Longrightarrow> traced s s'"
  "put_last_fpl_page k v s = Inr s' \<Longrightarrow> traced s s'" "put_last_fpl_page_entries k n s = Inr s' \<Longrightarrow> traced s s'"
  "put_fpl_previous f v s = Inr s' \<Longrightarrow> traced s s'" "put_fpl_next f v s = Inr s' \<Longrightarrow> traced s s'"
  "put_fpl_entry f i v s = Inr s' \<Longrightarrow> traced s s'"
  unfolding put_meta_defs put_fpl_defs by (erule put_traced)+

lemma clear_region_traced: "clear_region page n s = Inr s' \<Longrightarrow> traced s s'"
proof (induction n arbitrary: page s)
  case (Suc n)
  then show ?case by (auto elim!: bind_traced intro: put_traced)
qed simp

lemma traced_trans: "traced s s1 \<Longrightarrow> traced s1 s2 \<Longrightarrow> traced s s2"
  by (rule rtranclp_trans [where r = page_change])

lemma pop_fpl_traced: "pop_fpl k fpl s = Inr s' \<Longrightarrow> traced s s'"
  unfolding pop_fpl_def Let_def
  by (auto simp: bindR_Inr split: if_splits intro: traced_trans put_meta_traced)

lemma allocate_traced: "SpaceManager_allocate k s = Inr (x, s') \<Longrightarrow> traced s s'"
  unfolding SpaceManager_allocate_def Let_def
  by (auto simp: bindR_Inr split: if_splits
      intro: put_meta_traced traced_trans [OF clear_region_traced pop_fpl_traced])

lemma free_traced:
  assumes "SpaceManager_free x k s = Inr s'"
  shows "traced s s'"
proof -
  note t = put_meta_traced put_traced allocate_traced
  have "\<And>s1. put_fpl_entry f i v s = Inr s1 \<Longrightarrow> bindR (put_last_fpl_page k q s1) (put_last_fpl_page_entries k m) = Inr s' \<Longrightarrow> traced s s'"
    for f i v s q m
    by (auto simp: bindR_Inr) (meson t traced_trans)
  then show ?thesis
    using assms unfolding SpaceManager_free_def Let_def
    by (auto simp: bindR_Inr split: if_splits) (meson t traced_trans)+
qed

section \<open>A new database\<close>

text \<open>What the constructor of \<open>DiskMap\<close> writes into a new file.\<close>

definition MAGIC :: "byte list" where
  "MAGIC = [0x44, 0x49, 0x53, 0x4B, 0x4D, 0x41, 0x50, 0]"

fun format_orders :: "nat list \<Rightarrow> pages \<Rightarrow> pages result" where
  "format_orders [] s = Inr s"
| "format_orders (k # ks) s =
     bindR (put_last_fpl_page k (k + 2) s) (\<lambda>s.
     bindR (put_last_fpl_page_entries k 0 s) (format_orders ks))"

definition DiskMap_format :: "pages \<Rightarrow> pages result" where
  "DiskMap_format s =
     bindR (put_kv_entry_count 0 s) (\<lambda>s.
     bindR (put_next_free_page (MAX_ORDER + 3) s) (\<lambda>s.
     bindR (format_orders [0..<MAX_ORDER + 1] s) (\<lambda>s.
       put_bytes 0 0 MAGIC s)))"

text \<open>The check of an existing file.\<close>

definition magic_ok :: "pages \<Rightarrow> bool" where
  "magic_ok s \<longleftrightarrow> bytes_at (s 0) 0 8 = MAGIC"

lemma format_orders_ok:
  "\<forall>k\<in>set ks. k \<le> MAX_ORDER \<Longrightarrow> \<exists>s'. format_orders ks s = Inr s' \<and> (\<forall>p. p \<noteq> 0 \<longrightarrow> s' p = s p) \<and>
     next_free_page s' = next_free_page s \<and> kv_entry_count s' = kv_entry_count s \<and>
     (\<forall>k\<le>MAX_ORDER. last_fpl_page s' k = (if k \<in> set ks then k + 2 else last_fpl_page s k) \<and>
        last_fpl_page_entries s' k = (if k \<in> set ks then 0 else last_fpl_page_entries s k))"
proof (induction ks arbitrary: s)
  case (Cons k ks)
  define s1 where "s1 = upd_i32 0 (336 + 4 * k) 0 (upd_u64 0 (24 + 8 * k) (k + 2) s)"
  have k: "k \<le> MAX_ORDER" using Cons.prems by simp
  have s1: "next_free_page s1 = next_free_page s" "kv_entry_count s1 = kv_entry_count s" "\<forall>p. p \<noteq> 0 \<longrightarrow> s1 p = s p"
    "\<forall>j\<le>MAX_ORDER. last_fpl_page s1 j = (if j = k then k + 2 else last_fpl_page s j) \<and>
       last_fpl_page_entries s1 j = (if j = k then 0 else last_fpl_page_entries s j)"
    using k by (auto simp: s1_def MAX_ORDER_def)
  obtain s' where s': "format_orders ks s1 = Inr s'" "\<forall>p. p \<noteq> 0 \<longrightarrow> s' p = s1 p"
    "next_free_page s' = next_free_page s1" "kv_entry_count s' = kv_entry_count s1"
    "\<forall>k\<le>MAX_ORDER. last_fpl_page s' k = (if k \<in> set ks then k + 2 else last_fpl_page s1 k) \<and>
        last_fpl_page_entries s' k = (if k \<in> set ks then 0 else last_fpl_page_entries s1 k)"
    using Cons.IH [of s1] Cons.prems by (metis list.set_intros(2))
  have "format_orders (k # ks) s = Inr s'" using s'(1) k by (simp add: put_last_ok put_entries_ok s1_def)
  then show ?case using s' s1 by (intro exI [of _ s']) simp
qed simp

lemma format_ok:
  assumes "\<forall>p. is_zero (s p)"
  obtains s' where "DiskMap_format s = Inr s'" "space_ok s' {}" "next_free_page s' = 41" "kv_entry_count s' = 0"
    "\<forall>p. p \<noteq> 0 \<longrightarrow> s' p = s p" "magic_ok s'" "\<forall>k\<le>MAX_ORDER. last_fpl_page_entries s' k = 0 \<and> last_fpl_page s' k = k + 2"
proof -
  define s1 where "s1 = upd_u64 0 16 41 (upd_u64 0 8 0 s)"
  have s1: "next_free_page s1 = 41" "kv_entry_count s1 = 0" "\<forall>p. p \<noteq> 0 \<longrightarrow> s1 p = s p"
    by (simp_all add: s1_def get_meta_defs upd_u64_def field_simps_pages)
  obtain s2 where s2: "format_orders [0..<MAX_ORDER + 1] s1 = Inr s2" "\<forall>p. p \<noteq> 0 \<longrightarrow> s2 p = s1 p"
    "next_free_page s2 = next_free_page s1" "kv_entry_count s2 = kv_entry_count s1"
    "\<forall>k\<le>MAX_ORDER. last_fpl_page s2 k = (if k \<in> set [0..<MAX_ORDER + 1] then k + 2 else last_fpl_page s1 k) \<and>
        last_fpl_page_entries s2 k = (if k \<in> set [0..<MAX_ORDER + 1] then 0 else last_fpl_page_entries s1 k)"
    using format_orders_ok [of "[0..<MAX_ORDER + 1]" s1] by auto
  define s' where "s' = s2(0 := blit (s2 0) 0 MAGIC)"
  have run: "DiskMap_format s = Inr s'"
    using s2(1) by (simp add: DiskMap_format_def put_meta_defs put_upd s1_def s'_def put_bytes_ok MAX_ORDER_def MAGIC_def)
  have m8: "length MAGIC = 8" by (simp add: MAGIC_def)
  have meta: "next_free_page s' = 41" "kv_entry_count s' = 0" "k \<le> MAX_ORDER \<Longrightarrow> last_fpl_page s' k = k + 2"
    "k \<le> MAX_ORDER \<Longrightarrow> last_fpl_page_entries s' k = 0" for k
  proof -
    have "next_free_page s' = next_free_page s2" "kv_entry_count s' = kv_entry_count s2"
      "last_fpl_page s' k = last_fpl_page s2 k" "last_fpl_page_entries s' k = last_fpl_page_entries s2 k" for k
      by (simp_all add: get_meta_defs s'_def field_simps_pages m8)
    then show "next_free_page s' = 41" "kv_entry_count s' = 0" "k \<le> MAX_ORDER \<Longrightarrow> last_fpl_page s' k = k + 2"
      "k \<le> MAX_ORDER \<Longrightarrow> last_fpl_page_entries s' k = 0"
      using s1(1,2) s2(3-5) by simp_all
  qed
  have page: "s' p = s p" if "p \<noteq> 0" for p using that s1(3) s2(2) by (simp add: s'_def)
  have z: "is_zero (s' p)" if "p \<noteq> 0" for p using page [OF that] assms by simp
  define own where "own = (\<lambda>p::nat. if p < 2 then Reserved else if p < 41 then Fpl (p - 2) 0 else Unused)"
  have "space_inv s' (\<lambda>k. [k + 2]) (\<lambda>_. 0) (\<lambda>_. []) own {}"
  proof (rule space_invI)
    show "fpl_rep s' k [k + 2] 0 []" if "k \<le> MAX_ORDER" for k
      using that meta fpl_zero [of s' "k + 2", OF z] by (simp add: fpl_rep_def)
    show "own ([k + 2] ! i) = Fpl k i" if "k \<le> MAX_ORDER" "i < length [k + 2]" for k i
      using that by (simp add: own_def MAX_ORDER_def)
    show "own p = Unused" "is_zero (s' p)" if "next_free_page s' \<le> p" for p
      using that z meta(1) by (simp_all add: own_def)
  qed (use meta(1) in \<open>simp_all add: own_def\<close>)
  then have "space_ok s' {}" by (auto simp: space_ok_def)
  moreover have "magic_ok s'" using m8 by (simp add: magic_ok_def s'_def)
  ultimately show thesis using that [OF run] meta page by blast
qed

section \<open>Properties\<close>

text \<open>C27: \<open>allocate\<close> returns a region of zeroed pages that lies beyond the reserved pages and overlaps
  no region in use; it leaves the pages of those, the root page and the count of entries alone, and
  the free lists stay well formed, as long as page numbers are left.\<close>

theorem allocate_fresh_region:
  assumes "space_ok s A" "k < 31" "next_free_page s + 2 ^ k \<le> 2 ^ 52"
  shows "\<exists>x s'. SpaceManager_allocate k s = Inr (x, s') \<and> space_ok s' (insert (x, k) A) \<and> 41 \<le> x \<and>
    (\<forall>p\<in>region x k. is_zero (s' p)) \<and> (\<forall>(y, j)\<in>A. region x k \<inter> region y j = {}) \<and> kept A s s'"
proof -
  obtain x s' where a: "SpaceManager_allocate k s = Inr (x, s')" "allocated k A s x s'"
    by (rule allocate_ok [OF assms])
  then have ok: "space_ok s' (insert (x, k) A)" and n: "(x, k) \<notin> A" by (simp_all add: allocated_def)
  have "region x k \<inter> region y j = {}" if "(y, j) \<in> A" for y j
    by (rule space_okD(4) [OF ok]) (use that n in auto)
  moreover have "41 \<le> x" using space_okD(2) [OF ok] by blast
  ultimately show ?thesis using a by (auto simp: allocated_def)
qed

theorem allocate_fresh_region_witness:
  "\<exists>s x s'. DiskMap_format (\<lambda>_. zero_page) = Inr s \<and> SpaceManager_allocate 2 s = Inr (x, s') \<and> space_ok s' {(x, 2)}"
proof -
  obtain s where s: "DiskMap_format (\<lambda>_. zero_page) = Inr s" "space_ok s {}" "next_free_page s = 41"
    by (rule format_ok [of "\<lambda>_. zero_page"]) simp_all
  have "next_free_page s + 2 ^ 2 \<le> 2 ^ 52" using s(3) by simp
  then show ?thesis using allocate_fresh_region [OF s(2), of 2] s(1) by auto
qed

text \<open>C28: \<open>free\<close> of a region in use succeeds, whether its page list has room, has a spare page, or
  needs a new one (the freed page itself for single pages), and keeps all other regions in use.\<close>

theorem free_keeps_regions:
  assumes "space_ok s A" "(x, k) \<in> A" "next_free_page s + 1 \<le> 2 ^ 52"
  shows "\<exists>s'. SpaceManager_free x k s = Inr s' \<and> space_ok s' (A - {(x, k)}) \<and> kept (A - {(x, k)}) s s'"
proof -
  obtain s' where "SpaceManager_free x k s = Inr s'" "freed k A s x s'" by (rule free_ok [OF assms])
  then show ?thesis by (auto simp: freed_def)
qed

theorem free_keeps_regions_witness:
  "\<exists>s x s1 s'. DiskMap_format (\<lambda>_. zero_page) = Inr s \<and> SpaceManager_allocate 0 s = Inr (x, s1) \<and>
    SpaceManager_free x 0 s1 = Inr s' \<and> space_ok s' {}"
proof -
  obtain s where s: "DiskMap_format (\<lambda>_. zero_page) = Inr s" "space_ok s {}" "next_free_page s = 41"
    by (rule format_ok [of "\<lambda>_. zero_page"]) simp_all
  have r: "next_free_page s + 2 ^ 0 \<le> 2 ^ 52" using s(3) by simp
  obtain x s1 where x: "SpaceManager_allocate 0 s = Inr (x, s1)" "allocated 0 {} s x s1"
    by (rule allocate_ok [OF s(2) _ r]) simp_all
  have "space_ok s1 {(x, 0)}" "next_free_page s1 + 1 \<le> 2 ^ 52" using x(2) s(3) by (simp_all add: allocated_def)
  from free_keeps_regions [OF this(1) _ this(2)] show ?thesis using s(1) x(1) by fastforce
qed

text \<open>C29: \<open>MAX_ORDER\<close> admits orders up to 38, but the number of pages is computed in a 32-bit
  integer: allocating a region of order 31 moves the first unused page back by 2^31, below pages in
  use.\<close>

theorem allocate_order_31_goes_back:
  assumes "last_fpl_page_entries s 31 = 0" "2 ^ 31 \<le> next_free_page s"
  shows "\<exists>s'. SpaceManager_allocate 31 s = Inr (next_free_page s, s') \<and>
    next_free_page s' = next_free_page s - 2 ^ 31"
proof -
  define x where "x = next_free_page s"
  have x: "x < 2 ^ 64" "2 ^ 31 \<le> x" using get_u64_less assms(2) by (simp_all add: x_def next_free_page_def)
  then have "(int x - 2 ^ 31) mod 2 ^ 64 = int x - 2 ^ 31" by (intro mod_pos_pos_trivial) auto
  then have n: "nat ((int x + - (2 ^ 31)) mod 2 ^ 64) = x - 2 ^ 31" using x(2) by simp
  have "SpaceManager_allocate 31 s = Inr (x, upd_u64 0 16 (x - 2 ^ 31) s)"
    unfolding SpaceManager_allocate_def Let_def x_def [symmetric]
    using assms(1) n by (simp add: MAX_ORDER_def shift_one_def put_meta_defs put_upd)
  moreover have "(x - 2 ^ 31) mod 2 ^ 64 = x - 2 ^ 31" using x(1) by simp
  ultimately show ?thesis by (simp add: x_def)
qed

theorem allocate_order_31_goes_back_witness:
  "\<exists>s s'. next_free_page s = 2 ^ 40 \<and> SpaceManager_allocate 31 s = Inr (2 ^ 40, s') \<and> next_free_page s' < 2 ^ 40"
proof -
  define s where "s = upd_u64 0 16 (2 ^ 40) (\<lambda>_. zero_page)"
  have s: "next_free_page s = 2 ^ 40" "last_fpl_page_entries s 31 = 0"
    by (simp_all add: s_def get_meta_defs upd_u64_def field_simps_pages is_zero_get)
  then show ?thesis using allocate_order_31_goes_back [of s] by auto
qed

end
