(* ===== verification/Leaf.thy ===== *)
theory Leaf
  imports Prelude Pages Wal_Record
begin

text \<open>
  Leaf nodes: the entries of one page.  After the header (the page of the next region, the number of
  bytes used, the number of entries) the data section holds the entries one after the other, each a
  NUL-terminated key, the length of the value in 8 bytes and the value; the rest is zero.  The
  functions of \<open>diskmap.cpp\<close> that search, list, check and change them work on pointers into the
  page, here offsets from its start; reading past its end is \<open>MemoryError\<close>.
\<close>

section \<open>Layout\<close>

record KVEntry =
  kv_key :: "byte list"
  kv_value :: "byte list"

definition leaf_next :: "page \<Rightarrow> nat" where
  "leaf_next pg = get_u64 pg 0"

definition leaf_usage :: "page \<Rightarrow> nat" where
  "leaf_usage pg = get_u64 pg 8"

definition leaf_entry_count :: "page \<Rightarrow> nat" where
  "leaf_entry_count pg = get_u16 pg 16"

definition DATA :: nat where
  "DATA = 18"

definition leaf_capacity :: nat where
  "leaf_capacity = PAGE_SIZE - DATA"

definition put_leaf_next :: "nat \<Rightarrow> nat \<Rightarrow> pages \<Rightarrow> pages result" where
  "put_leaf_next f v = put_u64 f 0 v"

definition put_leaf_usage :: "nat \<Rightarrow> nat \<Rightarrow> pages \<Rightarrow> pages result" where
  "put_leaf_usage f v = put_u64 f 8 v"

definition put_leaf_entry_count :: "nat \<Rightarrow> nat \<Rightarrow> pages \<Rightarrow> pages result" where
  "put_leaf_entry_count f v = put_u16 f 16 v"

definition put_leaf_data :: "nat \<Rightarrow> nat \<Rightarrow> byte list \<Rightarrow> pages \<Rightarrow> pages result" where
  "put_leaf_data f i bs = put_bytes f (DATA + i) bs"

section \<open>The code\<close>

lemma bindR_cong [fundef_cong]:
  "r = r' \<Longrightarrow> (\<And>x. r' = Inr x \<Longrightarrow> f x = g x) \<Longrightarrow> bindR r f = bindR r' g"
  by (cases r') simp_all

text \<open>\<open>strlen\<close>, and \<open>strncmp(ptr, key.c_str(), key.size()) == 0 && ptr[key.size()] == 0\<close>: the
  comparison ends early at a NUL in both strings.\<close>

function strlen_at :: "page \<Rightarrow> nat \<Rightarrow> nat result" where
  "strlen_at pg ptr =
     (if PAGE_SIZE \<le> ptr then Inl MemoryError
      else if pg ptr = 0 then Inr 0
      else bindR (strlen_at pg (ptr + 1)) (\<lambda>n. Inr (n + 1)))"
  by pat_completeness auto
termination by (relation "measure (\<lambda>(pg, ptr). PAGE_SIZE - ptr)") auto

fun strncmp_eq :: "page \<Rightarrow> nat \<Rightarrow> byte list \<Rightarrow> bool result" where
  "strncmp_eq pg ptr [] = Inr True"
| "strncmp_eq pg ptr (k # ks) =
     (if PAGE_SIZE \<le> ptr then Inl MemoryError
      else if pg ptr \<noteq> k then Inr False
      else if k = 0 then Inr True
      else strncmp_eq pg (ptr + 1) ks)"

definition key_matches :: "page \<Rightarrow> nat \<Rightarrow> byte list \<Rightarrow> bool result" where
  "key_matches pg ptr key =
     bindR (strncmp_eq pg ptr key) (\<lambda>eq.
       if \<not> eq then Inr False
       else if PAGE_SIZE \<le> ptr + length key then Inl MemoryError
       else Inr (pg (ptr + length key) = 0))"

function find_from :: "page \<Rightarrow> byte list \<Rightarrow> nat \<Rightarrow> int result" where
  "find_from pg key ptr =
     (if PAGE_SIZE \<le> ptr \<or> pg ptr = 0 then Inr (- 1)
      else bindR (key_matches pg ptr key) (\<lambda>eq.
        if eq then Inr (int ptr - int DATA)
        else bindR (strlen_at pg ptr) (\<lambda>n.
          if PAGE_SIZE < ptr + n + 1 + 8 then Inl MemoryError
          else find_from pg key (ptr + n + 1 + 8 + get_u64 pg (ptr + n + 1)))))"
  by pat_completeness auto
termination by (relation "measure (\<lambda>(pg, key, ptr). PAGE_SIZE - ptr)") auto

definition find_entry_in_leaf :: "page \<Rightarrow> byte list \<Rightarrow> int result" where
  "find_entry_in_leaf pg key = find_from pg key DATA"

function entries_from :: "page \<Rightarrow> nat \<Rightarrow> KVEntry list result" where
  "entries_from pg ptr =
     (if PAGE_SIZE \<le> ptr \<or> pg ptr = 0 then Inr []
      else bindR (strlen_at pg ptr) (\<lambda>n.
        if PAGE_SIZE < ptr + n + 1 + 8 then Inl MemoryError
        else let value_length = get_u64 pg (ptr + n + 1); value = ptr + n + 1 + 8 in
        if PAGE_SIZE < value + value_length then Inl MemoryError
        else bindR (entries_from pg (value + value_length)) (\<lambda>es.
          Inr (\<lparr>kv_key = bytes_at pg ptr n, kv_value = bytes_at pg value value_length\<rparr> # es))))"
  by pat_completeness auto
termination by (relation "measure (\<lambda>(pg, ptr). PAGE_SIZE - ptr)") auto

definition get_entries_in_leaf :: "page \<Rightarrow> KVEntry list result" where
  "get_entries_in_leaf pg = entries_from pg DATA"

text \<open>\<open>validate_leaf_integrity\<close>: the loop over the entries returns where it ends and how many there
  are.\<close>

function validate_entries :: "page \<Rightarrow> nat \<Rightarrow> nat \<Rightarrow> (nat \<times> nat) result" where
  "validate_entries pg ptr entry_count =
     (if PAGE_SIZE \<le> ptr \<or> pg ptr = 0 then Inr (ptr, entry_count)
      else case strlen_at pg ptr of
        Inl e \<Rightarrow> Inl (DiskMapException ''Leaf corruption: key overruns page boundary'')
      | Inr n \<Rightarrow>
          if PAGE_SIZE < ptr + n + 1 + 8
          then Inl (DiskMapException ''Leaf corruption: value_length field overruns page boundary'')
          else validate_entries pg (ptr + n + 1 + 8 + get_u64 pg (ptr + n + 1)) (entry_count + 1))"
  by pat_completeness auto
termination by (relation "measure (\<lambda>(pg, ptr, n). PAGE_SIZE - ptr)") auto

definition validate_leaf_integrity :: "page \<Rightarrow> unit result" where
  "validate_leaf_integrity pg =
     bindR (validate_entries pg DATA 0) (\<lambda>(ptr, entry_count).
       if \<exists>i\<in>set [ptr..<PAGE_SIZE]. pg i \<noteq> 0
       then Inl (DiskMapException ''Leaf corruption: unused space not zeroed'')
       else if leaf_entry_count pg \<noteq> entry_count
       then Inl (DiskMapException ''Leaf corruption: entry_count mismatch'')
       else Inr ())"

declare strlen_at.simps [simp del] find_from.simps [simp del] entries_from.simps [simp del]
  validate_entries.simps [simp del]

text \<open>\<open>memcpy\<close> and \<open>memmove\<close> within a buffer.\<close>

definition copy_into :: "byte list \<Rightarrow> nat \<Rightarrow> byte list \<Rightarrow> byte list result" where
  "copy_into buf off bs =
     (if length buf < off + length bs then Inl MemoryError
      else Inr (take off buf @ bs @ drop (off + length bs) buf))"

definition move_within :: "byte list \<Rightarrow> nat \<Rightarrow> nat \<Rightarrow> nat \<Rightarrow> byte list result" where
  "move_within buf dest src n =
     (if length buf < src + n then Inl MemoryError else copy_into buf dest (take n (drop src buf)))"

definition update_value_trivially :: "nat \<Rightarrow> nat \<Rightarrow> byte list \<Rightarrow> byte list \<Rightarrow> pages \<Rightarrow> pages result" where
  "update_value_trivially f entry_offset key buffer s =
     (let pg = s f;
          len = length buffer;
          value_length_offset = entry_offset + length key + 1;
          current = get_u64 pg (DATA + value_length_offset);
          value_offset = value_length_offset + 8;
          usage = leaf_usage pg in
      if PAGE_SIZE < DATA + value_offset then Inl MemoryError
      else if int leaf_capacity < (int usage + int len - int current) mod 2 ^ 64
      then Inl (DiskMapException
        ''update_value_trivially: updated leaf node exceeds maximum capacity, update is not trivial'')
      else if len = current then put_leaf_data f value_offset buffer s
      else
        let update_start = value_length_offset;
            update_end = usage + (if current < len then len - current else 0) in
        if update_end < update_start \<or> PAGE_SIZE < DATA + update_end then Inl MemoryError
        else
        let update_buffer = bytes_at pg (DATA + update_start) (update_end - update_start);
            next_entry_offset = value_offset + current;
            new_next_entry_offset = value_offset + len in
        if usage < next_entry_offset then Inl MemoryError
        else
        bindR (move_within update_buffer (new_next_entry_offset - update_start) (next_entry_offset - update_start)
          (usage - next_entry_offset)) (\<lambda>update_buffer.
        bindR (copy_into update_buffer 0 (le_bytes 8 len)) (\<lambda>update_buffer.
        bindR (copy_into update_buffer (value_offset - update_start) buffer) (\<lambda>update_buffer.
        bindR (put_leaf_usage f (nat ((int (leaf_usage (s f)) + int len - int current) mod 2 ^ 64)) s) (\<lambda>s.
          put_leaf_data f update_start update_buffer s)))))"

text \<open>An entry as it lies in the page.\<close>

definition encode_entry :: "byte list \<Rightarrow> byte list \<Rightarrow> byte list" where
  "encode_entry key value = key @ [0] @ le_bytes 8 (length value) @ value"

definition entry_size :: "byte list \<Rightarrow> nat \<Rightarrow> nat" where
  "entry_size key value_length = length key + 1 + 8 + value_length"

text \<open>The end of \<open>write_at_node\<close> for a new key for which there is room.\<close>

definition append_entry :: "nat \<Rightarrow> byte list \<Rightarrow> byte list \<Rightarrow> pages \<Rightarrow> pages result" where
  "append_entry f key buffer s =
     bindR (put_leaf_data f (leaf_usage (s f)) (encode_entry key buffer) s) (\<lambda>s.
     bindR (put_leaf_usage f (leaf_usage (s f) + entry_size key (length buffer)) s) (\<lambda>s.
       put_leaf_entry_count f (leaf_entry_count (s f) + 1) s))"

text \<open>The part of \<open>create_subtree\<close> that writes the entries into one new leaf.\<close>

definition encode_entries :: "KVEntry list \<Rightarrow> byte list" where
  "encode_entries es = concat (map (\<lambda>e. encode_entry (kv_key e) (kv_value e)) es)"

definition total_entries_size :: "KVEntry list \<Rightarrow> nat" where
  "total_entries_size es = sum_list (map (\<lambda>e. entry_size (kv_key e) (length (kv_value e))) es)"

definition fill_leaf :: "nat \<Rightarrow> KVEntry list \<Rightarrow> pages \<Rightarrow> pages result" where
  "fill_leaf f es s =
     bindR (put_leaf_usage f (total_entries_size es) s) (\<lambda>s.
     bindR (put_leaf_entry_count f (length es) s) (\<lambda>s.
       put_leaf_data f 0 (encode_entries es) s))"

text \<open>The part of \<open>remove\<close> that takes one of several entries out of a leaf.\<close>

definition remove_entry :: "nat \<Rightarrow> nat \<Rightarrow> byte list \<Rightarrow> pages \<Rightarrow> pages result" where
  "remove_entry f entry_offset key s =
     (let pg = s f;
          value_length = get_u64 pg (DATA + entry_offset + length key + 1);
          size = entry_size key value_length;
          next_entry_offset = entry_offset + size;
          usage = leaf_usage pg in
      if PAGE_SIZE < DATA + entry_offset + length key + 1 + 8 \<or> usage < next_entry_offset \<or>
         PAGE_SIZE < DATA + usage
      then Inl MemoryError
      else let write_buffer = bytes_at pg (DATA + next_entry_offset) (usage - next_entry_offset) @ zeros size in
      bindR (put_leaf_data f entry_offset write_buffer s) (\<lambda>s.
      bindR (put_leaf_usage f (leaf_usage (s f) - size) s) (\<lambda>s.
        put_leaf_entry_count f (leaf_entry_count (s f) + 2 ^ 16 - 1) s)))"

section \<open>Bytes at an offset\<close>

definition holds_at :: "page \<Rightarrow> nat \<Rightarrow> byte list \<Rightarrow> bool" where
  "holds_at pg ptr bs \<longleftrightarrow> ptr + length bs \<le> PAGE_SIZE \<and> (\<forall>i<length bs. pg (ptr + i) = bs ! i)"

lemma holds_at_append:
  "holds_at pg ptr (xs @ ys) \<longleftrightarrow> holds_at pg ptr xs \<and> holds_at pg (ptr + length xs) ys"
proof (intro iffI conjI)
  assume h: "holds_at pg ptr (xs @ ys)"
  then have e: "\<And>i. i < length xs + length ys \<Longrightarrow> pg (ptr + i) = (xs @ ys) ! i" by (simp add: holds_at_def)
  show "holds_at pg ptr xs" using h e by (simp add: holds_at_def nth_append)
  have "pg (ptr + length xs + i) = ys ! i" if "i < length ys" for i
    using e [of "length xs + i"] that by (simp add: add.assoc)
  then show "holds_at pg (ptr + length xs) ys" using h by (simp add: holds_at_def)
next
  assume h: "holds_at pg ptr xs \<and> holds_at pg (ptr + length xs) ys"
  have "pg (ptr + i) = (xs @ ys) ! i" if "i < length xs + length ys" for i
  proof (cases "i < length xs")
    case False
    have "\<forall>i<length ys. pg (ptr + length xs + i) = ys ! i" using h by (simp add: holds_at_def)
    moreover have "i - length xs < length ys" "ptr + length xs + (i - length xs) = ptr + i" using False that by simp_all
    ultimately show ?thesis using False by (metis nth_append)
  qed (use h in \<open>simp add: holds_at_def nth_append\<close>)
  then show "holds_at pg ptr (xs @ ys)" using h by (simp add: holds_at_def)
qed

lemma holds_at_Nil [simp]: "holds_at pg ptr [] \<longleftrightarrow> ptr \<le> PAGE_SIZE"
  by (simp add: holds_at_def)

lemma holds_at_Cons: "holds_at pg ptr (b # bs) \<longleftrightarrow> ptr < PAGE_SIZE \<and> pg ptr = b \<and> holds_at pg (ptr + 1) bs"
  using holds_at_append [of pg ptr "[b]" bs] by (auto simp: holds_at_def)

lemma holds_at_bytes: "holds_at pg ptr bs \<Longrightarrow> bytes_at pg ptr (length bs) = bs"
  by (rule nth_equalityI) (simp_all add: holds_at_def)

lemma bytes_holds: "ptr + n \<le> PAGE_SIZE \<Longrightarrow> holds_at pg ptr (bytes_at pg ptr n)"
  by (simp add: holds_at_def)

lemma holds_at_u64: "holds_at pg ptr (le_bytes 8 v) \<Longrightarrow> get_u64 pg ptr = v mod 2 ^ 64"
  using holds_at_bytes [of pg ptr "le_bytes 8 v"] by (simp add: get_u64_def le_val_le_bytes)

lemma holds_at_blit:
  "off + length bs \<le> PAGE_SIZE \<Longrightarrow> holds_at (blit pg off bs) off bs"
  "holds_at pg ptr cs \<Longrightarrow> ptr + length cs \<le> off \<or> off + length bs \<le> ptr \<Longrightarrow> holds_at (blit pg off bs) ptr cs"
  by (auto simp: holds_at_def blit_def)

lemma strlen_at_holds:
  "holds_at pg ptr (key @ [0]) \<Longrightarrow> 0 \<notin> set key \<Longrightarrow> strlen_at pg ptr = Inr (length key)"
proof (induction key arbitrary: ptr)
  case Nil
  then show ?case by (simp add: strlen_at.simps [of pg ptr] holds_at_Cons)
next
  case (Cons k ks)
  then show ?case using Cons.IH [of "ptr + 1"] by (simp add: strlen_at.simps [of pg ptr] holds_at_Cons)
qed

lemma strncmp_eq_holds:
  "holds_at pg ptr (key' @ [0]) \<Longrightarrow> 0 \<notin> set key' \<Longrightarrow> 0 \<notin> set key \<Longrightarrow>
   strncmp_eq pg ptr key = Inr (take (length key) key' = key)"
proof (induction key arbitrary: ptr key')
  case (Cons k ks)
  then show ?case using Cons.IH [of "ptr + 1"]
    by (cases key') (auto simp: holds_at_Cons)
qed simp

lemma key_matches_holds:
  assumes h: "holds_at pg ptr (key' @ [0])" and k: "0 \<notin> set key'" "0 \<notin> set key"
  shows "key_matches pg ptr key = Inr (key' = key)"
proof (cases "take (length key) key' = key")
  case True
  have len: "length key \<le> length key'" using arg_cong [OF True, of length] by simp
  then have b: "ptr + length key < PAGE_SIZE" using h by (simp add: holds_at_def)
  have "pg (ptr + length key) = (key' @ [0]) ! length key" using h len by (simp add: holds_at_def)
  also have "\<dots> = 0 \<longleftrightarrow> key' = key"
  proof (cases "length key = length key'")
    case True
    then show ?thesis using \<open>take (length key) key' = key\<close> by (simp add: nth_append)
  next
    case False
    then have "length key < length key'" using len by simp
    then have "(key' @ [0]) ! length key \<in> set key'" by (simp add: nth_append)
    then have "(key' @ [0]) ! length key \<noteq> 0" using k(1) by metis
    then show ?thesis using False by auto
  qed
  finally have "pg (ptr + length key) = 0 \<longleftrightarrow> key' = key" .
  then show ?thesis using True b by (simp add: key_matches_def strncmp_eq_holds [OF h k])
next
  case False
  then show ?thesis by (auto simp: key_matches_def strncmp_eq_holds [OF h k])
qed

text \<open>An entry that starts at an offset; the value may go on beyond the page.\<close>

definition entry_starts :: "page \<Rightarrow> nat \<Rightarrow> byte list \<Rightarrow> nat \<Rightarrow> bool" where
  "entry_starts pg ptr key value_length \<longleftrightarrow> holds_at pg ptr (key @ [0] @ le_bytes 8 value_length) \<and>
     key \<noteq> [] \<and> 0 \<notin> set key \<and> value_length < 2 ^ 64"

lemma entry_startsD:
  assumes "entry_starts pg ptr key n"
  shows "ptr < PAGE_SIZE" "pg ptr \<noteq> 0" "strlen_at pg ptr = Inr (length key)"
    "ptr + length key + 1 + 8 \<le> PAGE_SIZE" "get_u64 pg (ptr + length key + 1) = n"
    "0 \<notin> set key' \<Longrightarrow> key_matches pg ptr key' = Inr (key = key')" "holds_at pg ptr key"
proof -
  have h: "holds_at pg ptr (key @ [0])" "holds_at pg (ptr + length key + 1) (le_bytes 8 n)"
    and k: "key \<noteq> []" "0 \<notin> set key" "n < 2 ^ 64"
    using assms holds_at_append [of pg ptr "key @ [0]" "le_bytes 8 n"] by (simp_all add: entry_starts_def)
  show "strlen_at pg ptr = Inr (length key)" by (rule strlen_at_holds [OF h(1) k(2)])
  show "ptr < PAGE_SIZE" using h(1) by (simp add: holds_at_def)
  show "pg ptr \<noteq> 0" using h(1) k by (cases key) (auto simp: holds_at_Cons)
  show "ptr + length key + 1 + 8 \<le> PAGE_SIZE" using h(2) by (simp add: holds_at_def)
  show "get_u64 pg (ptr + length key + 1) = n" using holds_at_u64 [OF h(2)] k(3) by simp
  show "0 \<notin> set key' \<Longrightarrow> key_matches pg ptr key' = Inr (key = key')" by (rule key_matches_holds [OF h(1) k(2)])
  show "holds_at pg ptr key" using h(1) by (simp add: holds_at_append)
qed

lemma holds_at_overwrite:
  assumes "holds_at pg ptr (A @ B @ C)" "length B' = length B"
  shows "holds_at (blit pg (ptr + length A) B') ptr (A @ B' @ C)"
proof -
  have h: "holds_at pg ptr A" "holds_at pg (ptr + length A + length B) C" "ptr + length A + length B \<le> PAGE_SIZE"
    using assms(1) by (simp_all add: holds_at_append) (simp add: holds_at_def)
  have "holds_at (blit pg (ptr + length A) B') ptr A" by (rule holds_at_blit(2) [OF h(1)]) simp
  moreover have "holds_at (blit pg (ptr + length A) B') (ptr + length A) B'"
    by (rule holds_at_blit(1)) (use h(3) assms(2) in simp)
  moreover have "holds_at (blit pg (ptr + length A) B') (ptr + length A + length B') C"
    using holds_at_blit(2) [OF h(2), of "ptr + length A" B'] assms(2) by simp
  ultimately show ?thesis by (simp add: holds_at_append)
qed

section \<open>Well-formed leaves\<close>

definition valid_key :: "byte list \<Rightarrow> bool" where
  "valid_key key \<longleftrightarrow> key \<noteq> [] \<and> 0 \<notin> set key"

abbreviation encode_kv :: "KVEntry \<Rightarrow> byte list" where
  "encode_kv e \<equiv> encode_entry (kv_key e) (kv_value e)"

definition leaf_holds :: "page \<Rightarrow> KVEntry list \<Rightarrow> bool" where
  "leaf_holds pg es \<longleftrightarrow>
     holds_at pg DATA (encode_entries es @ zeros (leaf_capacity - length (encode_entries es))) \<and>
     leaf_usage pg = length (encode_entries es) \<and> leaf_entry_count pg = length es \<and> leaf_next pg = 0 \<and>
     (\<forall>e\<in>set es. valid_key (kv_key e))"

lemma encode_entries_simps [simp]:
  "encode_entries [] = []"
  "encode_entries (e # es) = encode_kv e @ encode_entries es"
  "encode_entries (es @ es') = encode_entries es @ encode_entries es'"
  by (simp_all add: encode_entries_def)

lemma length_encode_entry [simp]: "length (encode_entry key value) = entry_size key (length value)"
  by (simp add: encode_entry_def entry_size_def)

lemma length_encode_entries: "length (encode_entries es) = total_entries_size es"
  by (induction es) (simp_all add: total_entries_size_def)

lemma data_capacity: "DATA = 18" "leaf_capacity = 4078"
  by (simp_all add: DATA_def leaf_capacity_def)

lemma leaf_holds_bound: "leaf_holds pg es \<Longrightarrow> length (encode_entries es) \<le> leaf_capacity"
  by (simp add: leaf_holds_def holds_at_def data_capacity)

lemma entry_starts_encoded:
  assumes "holds_at pg ptr (encode_entry key value @ rest)" "valid_key key"
  shows "entry_starts pg ptr key (length value)"
proof -
  have h: "holds_at pg ptr ((key @ [0] @ le_bytes 8 (length value)) @ value @ rest)"
    using assms(1) by (simp add: encode_entry_def)
  then have "length value \<le> PAGE_SIZE" by (simp add: holds_at_def)
  then show ?thesis using h assms(2) unfolding holds_at_append by (auto simp: entry_starts_def valid_key_def holds_at_append holds_at_Cons)
qed

lemma holds_at_entry:
  "holds_at pg ptr (encode_entry key value @ rest) \<Longrightarrow> holds_at pg (ptr + length key + 1 + 8) value \<and>
     holds_at pg (ptr + length key + 1 + 8 + length value) rest"
  by (simp add: encode_entry_def holds_at_append holds_at_Cons add.assoc)

lemma holds_zeros: "holds_at pg ptr (zeros m) \<Longrightarrow> ptr + m = PAGE_SIZE \<Longrightarrow> PAGE_SIZE \<le> ptr \<or> pg ptr = 0"
  by (cases m) (simp_all add: zeros_def holds_at_Cons)

text \<open>Where a key is.\<close>

fun offset_of :: "byte list \<Rightarrow> KVEntry list \<Rightarrow> nat option" where
  "offset_of key [] = None"
| "offset_of key (e # es) =
     (if kv_key e = key then Some 0
      else map_option (\<lambda>n. length (encode_kv e) + n) (offset_of key es))"

lemma offset_of_None: "offset_of key es = None \<longleftrightarrow> key \<notin> kv_key ` set es"
  by (induction es) auto

lemma offset_of_Some:
  "offset_of key es = Some n \<longleftrightarrow> (\<exists>xs e ys. es = xs @ e # ys \<and> kv_key e = key \<and> key \<notin> kv_key ` set xs \<and>
     n = length (encode_entries xs))"
proof (induction es arbitrary: n)
  case (Cons e es)
  show ?case
  proof (cases "kv_key e = key")
    case True
    show ?thesis
    proof
      assume "offset_of key (e # es) = Some n"
      then have "n = 0" using True by simp
      then show "\<exists>xs e' ys. e # es = xs @ e' # ys \<and> kv_key e' = key \<and> key \<notin> kv_key ` set xs \<and> n = length (encode_entries xs)"
        using True by (intro exI [of _ "[]"]) simp
    next
      assume "\<exists>xs e' ys. e # es = xs @ e' # ys \<and> kv_key e' = key \<and> key \<notin> kv_key ` set xs \<and> n = length (encode_entries xs)"
      then show "offset_of key (e # es) = Some n" using True by (auto simp: Cons_eq_append_conv)
    qed
  next
    case False
    have "offset_of key (e # es) = Some n \<longleftrightarrow> (\<exists>m. offset_of key es = Some m \<and> n = length (encode_kv e) + m)"
      using False by auto
    also have "\<dots> \<longleftrightarrow> (\<exists>xs e' ys. es = xs @ e' # ys \<and> kv_key e' = key \<and> key \<notin> kv_key ` set xs \<and>
        n = length (encode_entries (e # xs)))"
      unfolding Cons.IH by auto
    also have "\<dots> \<longleftrightarrow> (\<exists>xs e' ys. e # es = xs @ e' # ys \<and> kv_key e' = key \<and> key \<notin> kv_key ` set xs \<and>
        n = length (encode_entries xs))" (is "?l \<longleftrightarrow> ?r")
    proof
      assume ?l
      then obtain xs e' ys where "es = xs @ e' # ys" "kv_key e' = key" "key \<notin> kv_key ` set xs"
        "n = length (encode_entries (e # xs))" by blast
      then show ?r using False by (intro exI [of _ "e # xs"] exI [of _ e'] exI [of _ ys]) simp
    next
      assume ?r
      then obtain xs e' ys where r: "e # es = xs @ e' # ys" "kv_key e' = key" "key \<notin> kv_key ` set xs"
        "n = length (encode_entries xs)" by blast
      then obtain xs' where "xs = e # xs'" using False by (cases xs) auto
      then show ?l using r by auto
    qed
    finally show ?thesis .
  qed
qed simp

lemma find_from_holds:
  "holds_at pg ptr (encode_entries es @ zeros m) \<Longrightarrow> ptr + length (encode_entries es) + m = PAGE_SIZE \<Longrightarrow>
   \<forall>e\<in>set es. valid_key (kv_key e) \<Longrightarrow> 0 \<notin> set key \<Longrightarrow>
   find_from pg key ptr = Inr (case offset_of key es of None \<Rightarrow> - 1 | Some n \<Rightarrow> int (ptr + n) - int DATA)"
proof (induction es arbitrary: ptr)
  case Nil
  then show ?case using holds_zeros [of pg ptr m] by (simp add: find_from.simps [of pg key ptr])
next
  case (Cons e es)
  have h: "holds_at pg ptr (encode_kv e @ (encode_entries es @ zeros m))" using Cons.prems(1) by simp
  note st = entry_startsD [OF entry_starts_encoded [OF h]]
  have ve: "valid_key (kv_key e)" using Cons.prems(3) by simp
  have rest: "holds_at pg (ptr + length (kv_key e) + 1 + 8 + length (kv_value e)) (encode_entries es @ zeros m)"
    using holds_at_entry [OF h] by blast
  have IH: "find_from pg key (ptr + length (kv_key e) + 1 + 8 + length (kv_value e)) =
      Inr (case offset_of key es of None \<Rightarrow> - 1 | Some n \<Rightarrow> int (ptr + length (encode_kv e) + n) - int DATA)"
    using Cons.IH [OF rest] Cons.prems(2,3,4) by (auto simp: entry_size_def add.assoc split: option.splits)
  show ?case
    using st(1-5) [OF ve] st(6) [OF ve Cons.prems(4)] IH
    by (simp add: find_from.simps [of pg key ptr] add.assoc split: option.splits)
qed

lemma find_entry_holds:
  assumes "leaf_holds pg es" "0 \<notin> set key"
  shows "find_entry_in_leaf pg key = Inr (case offset_of key es of None \<Rightarrow> - 1 | Some n \<Rightarrow> int n)"
proof -
  have "DATA + length (encode_entries es) + (leaf_capacity - length (encode_entries es)) = PAGE_SIZE"
    using leaf_holds_bound [OF assms(1)] by (simp add: data_capacity)
  then show ?thesis using find_from_holds [of pg DATA es "leaf_capacity - length (encode_entries es)" key] assms
    unfolding find_entry_in_leaf_def leaf_holds_def by (auto split: option.splits)
qed

lemma entries_from_holds:
  "holds_at pg ptr (encode_entries es @ zeros m) \<Longrightarrow> ptr + length (encode_entries es) + m = PAGE_SIZE \<Longrightarrow>
   \<forall>e\<in>set es. valid_key (kv_key e) \<Longrightarrow> entries_from pg ptr = Inr es"
proof (induction es arbitrary: ptr)
  case Nil
  then show ?case using holds_zeros [of pg ptr m] by (simp add: entries_from.simps [of pg ptr])
next
  case (Cons e es)
  have h: "holds_at pg ptr (encode_kv e @ (encode_entries es @ zeros m))" using Cons.prems(1) by simp
  have ve: "valid_key (kv_key e)" using Cons.prems(3) by simp
  note st = entry_startsD [OF entry_starts_encoded [OF h ve]]
  note r = holds_at_entry [OF h]
  have IH: "entries_from pg (ptr + length (kv_key e) + 1 + 8 + length (kv_value e)) = Inr es"
    using Cons.IH r Cons.prems(2,3) by (simp add: entry_size_def add.assoc)
  have "ptr + length (kv_key e) + 1 + 8 + length (kv_value e) \<le> PAGE_SIZE"
    using Cons.prems(2) by (simp add: entry_size_def)
  moreover have "bytes_at pg ptr (length (kv_key e)) = kv_key e" by (rule holds_at_bytes [OF st(7)])
  moreover have "bytes_at pg (ptr + length (kv_key e) + 1 + 8) (length (kv_value e)) = kv_value e"
    using r holds_at_bytes by blast
  ultimately show ?case using st(1-5) IH
    by (simp add: entries_from.simps [of pg ptr] Let_def)
qed

lemma get_entries_holds:
  assumes "leaf_holds pg es"
  shows "get_entries_in_leaf pg = Inr es"
proof -
  have "DATA + length (encode_entries es) + (leaf_capacity - length (encode_entries es)) = PAGE_SIZE"
    using leaf_holds_bound [OF assms] by (simp add: data_capacity)
  then show ?thesis using entries_from_holds [of pg DATA es "leaf_capacity - length (encode_entries es)"] assms
    unfolding get_entries_in_leaf_def leaf_holds_def by blast
qed

lemma validate_from_holds:
  "holds_at pg ptr (encode_entries es @ zeros m) \<Longrightarrow> ptr + length (encode_entries es) + m = PAGE_SIZE \<Longrightarrow>
   \<forall>e\<in>set es. valid_key (kv_key e) \<Longrightarrow>
   validate_entries pg ptr n = Inr (ptr + length (encode_entries es), n + length es)"
proof (induction es arbitrary: ptr n)
  case Nil
  then show ?case using holds_zeros [of pg ptr m] by (simp add: validate_entries.simps [of pg ptr])
next
  case (Cons e es)
  have h: "holds_at pg ptr (encode_kv e @ (encode_entries es @ zeros m))" using Cons.prems(1) by simp
  have ve: "valid_key (kv_key e)" using Cons.prems(3) by simp
  note st = entry_startsD [OF entry_starts_encoded [OF h ve]]
  have "validate_entries pg (ptr + length (kv_key e) + 1 + 8 + length (kv_value e)) (n + 1) =
      Inr (ptr + length (encode_entries (e # es)), n + length (e # es))"
    using Cons.IH holds_at_entry [OF h] Cons.prems(2,3) by (simp add: entry_size_def add.assoc)
  then show ?case using st(1-5) by (simp add: validate_entries.simps [of pg ptr] add.assoc)
qed

lemma validate_holds:
  assumes "leaf_holds pg es"
  shows "validate_leaf_integrity pg = Inr ()"
proof -
  define u where "u = length (encode_entries es)"
  have u: "DATA + u + (leaf_capacity - u) = PAGE_SIZE" using leaf_holds_bound [OF assms] by (simp add: data_capacity u_def)
  have h: "holds_at pg DATA (encode_entries es @ zeros (leaf_capacity - u))"
    and k: "\<forall>e\<in>set es. valid_key (kv_key e)" and n: "leaf_entry_count pg = length es"
    using assms by (simp_all add: leaf_holds_def u_def)
  have v: "validate_entries pg DATA 0 = Inr (DATA + u, 0 + length es)"
    unfolding u_def by (rule validate_from_holds [OF h _ k]) (use u in \<open>simp add: u_def\<close>)
  have "holds_at pg (DATA + u) (zeros (leaf_capacity - u))" using h by (simp add: holds_at_append u_def)
  then have z: "\<forall>i<leaf_capacity - u. pg (DATA + u + i) = 0" by (simp add: holds_at_def)
  have "pg i = 0" if "DATA + u \<le> i" "i < PAGE_SIZE" for i
    using z [rule_format, of "i - (DATA + u)"] that u by simp
  then show ?thesis using v n by (simp add: validate_leaf_integrity_def)
qed

section \<open>Changing a leaf\<close>

lemma leaf_header_blit [simp]:
  "DATA \<le> off \<Longrightarrow> leaf_next (blit pg off bs) = leaf_next pg"
  "DATA \<le> off \<Longrightarrow> leaf_usage (blit pg off bs) = leaf_usage pg"
  "DATA \<le> off \<Longrightarrow> leaf_entry_count (blit pg off bs) = leaf_entry_count pg"
  "leaf_next (blit pg 8 (le_bytes 8 v)) = leaf_next pg"
  "leaf_usage (blit pg 8 (le_bytes 8 v)) = v mod 2 ^ 64"
  "leaf_entry_count (blit pg 8 (le_bytes 8 v)) = leaf_entry_count pg"
  "leaf_next (blit pg 16 (le_bytes 2 v)) = leaf_next pg"
  "leaf_usage (blit pg 16 (le_bytes 2 v)) = leaf_usage pg"
  "leaf_entry_count (blit pg 16 (le_bytes 2 v)) = v mod 2 ^ 16"
  by (simp_all add: leaf_next_def leaf_usage_def leaf_entry_count_def field_simps_pages data_capacity)

lemma holds_data_header [simp]:
  "holds_at pg DATA bs \<Longrightarrow> holds_at (blit pg 8 (le_bytes 8 v)) DATA bs"
  "holds_at pg DATA bs \<Longrightarrow> holds_at (blit pg 16 (le_bytes 2 v)) DATA bs"
  by (rule holds_at_blit(2); simp add: data_capacity)+

lemma put_leaf_ok:
  "page_ok f \<Longrightarrow> put_leaf_next f v s = Inr (s(f := blit (s f) 0 (le_bytes 8 v)))"
  "page_ok f \<Longrightarrow> put_leaf_usage f v s = Inr (s(f := blit (s f) 8 (le_bytes 8 v)))"
  "page_ok f \<Longrightarrow> put_leaf_entry_count f v s = Inr (s(f := blit (s f) 16 (le_bytes 2 v)))"
  "page_ok f \<Longrightarrow> i < leaf_capacity \<Longrightarrow> i + length bs \<le> leaf_capacity \<Longrightarrow>
   put_leaf_data f i bs s = Inr (s(f := blit (s f) (DATA + i) bs))"
  by (simp_all add: put_leaf_next_def put_leaf_usage_def put_leaf_entry_count_def put_leaf_data_def put_ok data_capacity)

text \<open>What \<open>update_value_trivially\<close> does to the bytes; \<open>R\<close> is what a shorter value leaves behind.\<close>

lemma update_buffers:
  fixes v buffer E :: "byte list"
  defines "L \<equiv> length v" and "n \<equiv> length buffer"
  defines "old \<equiv> le_bytes 8 L @ v @ E @ (if L < n then zeros (n - L) else [])"
  assumes "n \<noteq> L"
  shows "\<exists>b1 b2. move_within old (8 + n) (8 + L) (length E) = Inr b1 \<and>
    copy_into b1 0 (le_bytes 8 n) = Inr b2 \<and>
    copy_into b2 8 buffer = Inr (le_bytes 8 n @ buffer @ E @ (if n < L then drop (8 + n + length E) old else []))"
proof -
  define R where "R = (if n < L then drop (8 + n + length E) old else [])"
  have len: "length old = 8 + (if L < n then n else L) + length E" by (simp add: old_def L_def n_def)
  have "take (length E) (drop (8 + L) old) = E" by (simp add: old_def L_def)
  moreover have "drop (8 + n + length E) old = R" using assms(4) by (auto simp: R_def len)
  ultimately have 1: "move_within old (8 + n) (8 + L) (length E) = Inr (take (8 + n) old @ E @ R)"
    by (simp add: move_within_def copy_into_def len)
  have t: "length (take (8 + n) old) = 8 + n" by (simp add: len)
  have 2: "copy_into (take (8 + n) old @ E @ R) 0 (le_bytes 8 n) =
      Inr (le_bytes 8 n @ drop 8 (take (8 + n) old) @ E @ R)"
    using t by (simp add: copy_into_def)
  have t2: "length (drop 8 (take (8 + n) old)) = n" using t by simp
  have 3: "copy_into (le_bytes 8 n @ drop 8 (take (8 + n) old) @ E @ R) 8 buffer = Inr (le_bytes 8 n @ buffer @ E @ R)"
    using t2 by (simp add: copy_into_def n_def)
  show ?thesis using 1 2 3 unfolding R_def by blast
qed

lemma update_value_bytes:
  assumes h: "leaf_holds (s f) (xs @ e # ys)" and f: "page_ok f" and n: "length buffer \<noteq> length (kv_value e)"
    and fits: "length (encode_entries (xs @ e\<lparr>kv_value := buffer\<rparr> # ys)) \<le> leaf_capacity"
  defines "old \<equiv> le_bytes 8 (length (kv_value e)) @ kv_value e @ encode_entries ys"
  defines "A \<equiv> encode_entries xs @ kv_key e @ [0]"
  defines "R \<equiv> if length buffer < length (kv_value e) then drop (8 + length buffer + length (encode_entries ys)) old else []"
  shows "update_value_trivially f (length (encode_entries xs)) (kv_key e) buffer s =
    Inr (s(f := blit (blit (s f) 8 (le_bytes 8 (length (encode_entries (xs @ e\<lparr>kv_value := buffer\<rparr> # ys)))))
      (DATA + length A) (le_bytes 8 (length buffer) @ buffer @ encode_entries ys @ R)))"
proof -
  define E where "E = encode_entries ys"
  define L where "L = length (kv_value e)"
  define m where "m = length buffer"
  define u where "u = length (encode_entries (xs @ e # ys))"
  define u' where "u' = length (encode_entries (xs @ e\<lparr>kv_value := buffer\<rparr> # ys))"
  define vlo where "vlo = length A"
  have vlo: "length (encode_entries xs) + length (kv_key e) + 1 = vlo" by (simp add: vlo_def A_def)
  have lens: "u = vlo + 8 + L + length E" "u' = vlo + 8 + m + length E" "u' \<le> 4078"
    using fits by (simp_all add: u_def u'_def vlo_def A_def L_def m_def E_def entry_size_def data_capacity)
  have hd: "holds_at (s f) DATA (encode_entries (xs @ e # ys) @ zeros (leaf_capacity - u))" and us: "leaf_usage (s f) = u"
    using h by (simp_all add: leaf_holds_def u_def)
  have ub: "u \<le> 4078" using leaf_holds_bound [OF h] by (simp add: u_def data_capacity)
  have parts: "holds_at (s f) DATA (A @ old @ zeros (leaf_capacity - u))"
    using hd by (simp add: A_def old_def encode_entry_def)
  have "holds_at (s f) (DATA + vlo) (le_bytes 8 L)"
    using parts by (simp add: vlo_def old_def holds_at_append L_def)
  then have cur: "get_u64 (s f) (DATA + vlo) = L" using holds_at_u64 [of "s f" "DATA + vlo" L] lens(1) ub by simp
  have zs: "holds_at (s f) (DATA + vlo) (old @ zeros (leaf_capacity - u))"
    using parts by (simp add: vlo_def holds_at_append)
  define ue where "ue = u + (if L < m then m - L else 0)"
  have ue: "ue = (if L < m then u' else u)" "vlo \<le> ue" "DATA + ue \<le> PAGE_SIZE"
    using lens ub by (auto simp: ue_def data_capacity)
  define buf where "buf = le_bytes 8 L @ kv_value e @ E @ (if L < m then zeros (m - L) else [])"
  have lb: "length buf = ue - vlo" using lens by (simp add: buf_def ue_def L_def)
  have ho: "holds_at (s f) (DATA + vlo) buf"
  proof (cases "L < m")
    case True
    then have "leaf_capacity - u = (m - L) + (leaf_capacity - u')" using lens ub by (simp add: data_capacity)
    then have "zeros (leaf_capacity - u) = zeros (m - L) @ zeros (leaf_capacity - u')" by (simp add: zeros_def replicate_add)
    then show ?thesis using zs True by (simp add: buf_def old_def E_def L_def holds_at_append)
  qed (use zs in \<open>simp add: buf_def old_def E_def L_def holds_at_append\<close>)
  then have rd: "bytes_at (s f) (DATA + vlo) (ue - vlo) = buf" using holds_at_bytes lb by metis
  have R: "(if m < L then drop (8 + m + length E) buf else []) = R" using n by (simp add: R_def buf_def old_def E_def L_def m_def)
  obtain b1 b2 where b: "move_within buf (8 + m) (8 + L) (length E) = Inr b1"
    "copy_into b1 0 (le_bytes 8 m) = Inr b2" "copy_into b2 8 buffer = Inr (le_bytes 8 m @ buffer @ E @ R)"
    using update_buffers [of buffer "kv_value e" E] n unfolding L_def [symmetric] m_def [symmetric] buf_def [symmetric] R by blast
  have int: "(int u + int m - int L) mod 2 ^ 64 = int u'" using lens by simp
  have lR: "length (le_bytes 8 m @ buffer @ E @ R) = ue - vlo"
    using lens n by (auto simp: R_def old_def E_def L_def m_def ue_def)
  have fin: "put_leaf_data f vlo (le_bytes 8 m @ buffer @ E @ R) (s(f := blit (s f) 8 (le_bytes 8 u'))) =
      Inr (s(f := blit (blit (s f) 8 (le_bytes 8 u')) (DATA + vlo) (le_bytes 8 m @ buffer @ E @ R)))"
    using put_leaf_ok(4) [OF f, of vlo "le_bytes 8 m @ buffer @ E @ R"] lR ue lens ub by (simp add: data_capacity)
  have conds: "\<not> PAGE_SIZE < DATA + (vlo + 8)" "\<not> int leaf_capacity < int u'" "m \<noteq> L" "\<not> ue < vlo" "\<not> PAGE_SIZE < DATA + ue"
    "\<not> u < vlo + 8 + L" "vlo + 8 + m - vlo = 8 + m" "vlo + 8 + L - vlo = 8 + L" "u - (vlo + 8 + L) = length E" "vlo + 8 - vlo = 8"
    using lens ub ue n by (simp_all add: data_capacity L_def m_def)
  have "update_value_trivially f (length (encode_entries xs)) (kv_key e) buffer s =
      Inr (s(f := blit (blit (s f) 8 (le_bytes 8 u')) (DATA + vlo) (le_bytes 8 m @ buffer @ E @ R)))"
    unfolding update_value_trivially_def Let_def vlo us cur m_def [symmetric] int ue_def [symmetric] rd
    using conds b fin put_leaf_ok(2) [OF f, of u' s] us by simp
  then show ?thesis by (simp only: u'_def E_def vlo_def m_def)
qed

lemma zeros_split: "m \<le> n \<Longrightarrow> zeros n = zeros m @ zeros (n - m)"
  by (simp add: zeros_def flip: replicate_add)

lemma leaf_holdsI:
  "holds_at pg DATA (encode_entries es @ zeros (leaf_capacity - length (encode_entries es))) \<Longrightarrow>
   leaf_usage pg = length (encode_entries es) \<Longrightarrow> leaf_entry_count pg = length es \<Longrightarrow> leaf_next pg = 0 \<Longrightarrow>
   \<forall>e\<in>set es. valid_key (kv_key e) \<Longrightarrow> leaf_holds pg es"
  by (simp add: leaf_holds_def)

text \<open>Longer values and values of the same length.\<close>

lemma update_value_holds:
  assumes h: "leaf_holds (s f) (xs @ e # ys)" and f: "page_ok f" and n: "length (kv_value e) \<le> length buffer"
    and fits: "length (encode_entries (xs @ e\<lparr>kv_value := buffer\<rparr> # ys)) \<le> leaf_capacity"
  obtains pg where "update_value_trivially f (length (encode_entries xs)) (kv_key e) buffer s = Inr (s(f := pg))"
    "leaf_holds pg (xs @ e\<lparr>kv_value := buffer\<rparr> # ys)"
proof -
  define es where "es = xs @ e\<lparr>kv_value := buffer\<rparr> # ys"
  define u where "u = length (encode_entries (xs @ e # ys))"
  define u' where "u' = length (encode_entries es)"
  define A where "A = encode_entries xs @ kv_key e @ [0]"
  have hd: "holds_at (s f) DATA (encode_entries (xs @ e # ys) @ zeros (leaf_capacity - u))"
    and hdr: "leaf_usage (s f) = u" "leaf_entry_count (s f) = length es" "leaf_next (s f) = 0"
      "\<forall>e\<in>set es. valid_key (kv_key e)"
    using h by (auto simp: leaf_holds_def u_def es_def)
  have b: "u' \<le> 4078" "u \<le> u'" "u' = u + (length buffer - length (kv_value e))"
    using fits n by (simp_all add: u_def u'_def es_def data_capacity entry_size_def)
  show thesis
  proof (cases "length buffer = length (kv_value e)")
    case True
    define B where "B = A @ le_bytes 8 (length (kv_value e))"
    have enc: "encode_entries (xs @ e # ys) = B @ kv_value e @ encode_entries ys" "encode_entries es = B @ buffer @ encode_entries ys"
      using True by (simp_all add: B_def A_def encode_entry_def es_def)
    define pg where "pg = blit (s f) (DATA + length B) buffer"
    have lB: "length B = length (encode_entries xs) + length (kv_key e) + 1 + 8" by (simp add: B_def A_def)
    have hp: "holds_at (s f) DATA (B @ kv_value e @ encode_entries ys @ zeros (leaf_capacity - u))"
      using hd unfolding enc(1) by simp
    have "holds_at (s f) (DATA + length A) (le_bytes 8 (length buffer))"
      using hp True by (simp add: B_def holds_at_append)
    moreover have "length buffer < 2 ^ 64" using b(1) by (simp add: u'_def enc)
    ultimately have cur: "get_u64 (s f) (DATA + (length (encode_entries xs) + length (kv_key e) + 1)) = length buffer"
      using holds_at_u64 by (fastforce simp: A_def)
    have lu: "length (encode_entries es) = u" using True b by (simp add: u'_def)
    have run: "update_value_trivially f (length (encode_entries xs)) (kv_key e) buffer s = Inr (s(f := pg))"
    proof -
      have "length B + length buffer + length (encode_entries ys) \<le> 4078" using b(1) by (simp add: u'_def enc(2))
      moreover have "length buffer = 0 \<longleftrightarrow> buffer = []" by simp
      moreover have "u \<le> 4078" using b(1,2) by linarith
      ultimately have c: "\<not> PAGE_SIZE < DATA + (length (encode_entries xs) + length (kv_key e) + 1 + 8)"
        "\<not> int leaf_capacity < (int u + int (length buffer) - int (length buffer)) mod 2 ^ 64"
        "length B < leaf_capacity \<or> buffer = []" "length B + length buffer \<le> leaf_capacity"
        using lB by (simp_all add: data_capacity) (cases buffer; simp)
      have "put_leaf_data f (length B) buffer s = Inr (s(f := pg))"
      proof (cases "buffer = []")
        case True
        then show ?thesis using f c(4) put_leaf_ok(4) [OF f, of "length B" buffer s] lB
          by (cases "length B < leaf_capacity") (simp_all add: pg_def put_leaf_data_def put_bytes_def pages_write_def Let_def data_capacity)
      next
        case False
        then show ?thesis using c put_leaf_ok(4) [OF f] by (simp add: pg_def)
      qed
      then show ?thesis
        unfolding update_value_trivially_def Let_def cur hdr(1) using c(1,2) by (simp add: lB)
    qed
    have "holds_at pg DATA (encode_entries es @ zeros (leaf_capacity - length (encode_entries es)))"
      using holds_at_overwrite [OF hp True] lu by (simp add: pg_def enc)
    then have "leaf_holds pg es" using hdr lu by (intro leaf_holdsI) (simp_all add: pg_def)
    then show thesis using that [OF run] by (simp add: es_def)
  next
    case False
    then have gt: "\<not> length buffer < length (kv_value e)" using n by simp
    define old where "old = le_bytes 8 (length (kv_value e)) @ kv_value e @ encode_entries ys @ zeros (u' - u)"
    define new where "new = le_bytes 8 (length buffer) @ buffer @ encode_entries ys"
    define pg where "pg = blit (blit (s f) 8 (le_bytes 8 u')) (DATA + length A) new"
    have run: "update_value_trivially f (length (encode_entries xs)) (kv_key e) buffer s = Inr (s(f := pg))"
      using update_value_bytes [of s f, OF h f False fits] gt by (simp add: A_def new_def pg_def u'_def es_def)
    have ln: "length new = length old" using b n by (simp add: new_def old_def)
    have enc: "encode_entries (xs @ e # ys) @ zeros (leaf_capacity - u) = A @ old @ zeros (leaf_capacity - u')"
      using zeros_split [of "u' - u" "leaf_capacity - u"] b by (simp add: A_def old_def encode_entry_def data_capacity)
    have enc': "encode_entries es = A @ new" by (simp add: A_def new_def es_def encode_entry_def)
    have "holds_at (blit (s f) 8 (le_bytes 8 u')) DATA (A @ old @ zeros (leaf_capacity - u'))"
      using hd unfolding enc by (rule holds_data_header)
    from holds_at_overwrite [OF this ln] have "holds_at pg DATA (encode_entries es @ zeros (leaf_capacity - u'))"
      by (simp add: pg_def enc')
    moreover have "u' mod 2 ^ 64 = u'" using b by simp
    ultimately have "leaf_holds pg es" using hdr by (intro leaf_holdsI) (simp_all add: pg_def u'_def)
    then show thesis using that [OF run] by (simp add: es_def)
  qed
qed

lemma append_entry_holds:
  assumes h: "leaf_holds (s f) es" and f: "page_ok f" and k: "valid_key key"
    and fits: "length (encode_entries es) + entry_size key (length buffer) \<le> leaf_capacity" "length es + 1 < 2 ^ 16"
  obtains pg where "append_entry f key buffer s = Inr (s(f := pg))"
    "leaf_holds pg (es @ [\<lparr>kv_key = key, kv_value = buffer\<rparr>])"
proof -
  define u where "u = length (encode_entries es)"
  define en where "en = encode_entry key buffer"
  have hd: "holds_at (s f) DATA (encode_entries es @ zeros (leaf_capacity - u))"
    and hdr: "leaf_usage (s f) = u" "leaf_entry_count (s f) = length es" "leaf_next (s f) = 0" "\<forall>e\<in>set es. valid_key (kv_key e)"
    using h by (simp_all add: leaf_holds_def u_def)
  have b: "u + length en \<le> 4078" "length en = entry_size key (length buffer)" "0 < length en"
    using fits by (simp_all add: u_def en_def data_capacity entry_size_def)
  define pg where "pg = blit (blit (blit (s f) (DATA + u) en) 8 (le_bytes 8 (u + length en))) 16 (le_bytes 2 (length es + 1))"
  have run: "append_entry f key buffer s = Inr (s(f := pg))"
    using f hdr b fits(2) by (simp add: append_entry_def put_leaf_ok en_def [symmetric] pg_def data_capacity)
  have "zeros (leaf_capacity - u) = zeros (length en) @ zeros (leaf_capacity - (u + length en))"
    using zeros_split [of "length en" "leaf_capacity - u"] b(1) by (simp add: data_capacity)
  then have "holds_at (s f) DATA (encode_entries es @ zeros (length en) @ zeros (leaf_capacity - (u + length en)))" using hd by simp
  from holds_at_overwrite [OF this, of en]
  have "holds_at (blit (s f) (DATA + u) en) DATA (encode_entries es @ en @ zeros (leaf_capacity - (u + length en)))"
    by (simp add: u_def)
  moreover have "(u + length en) mod 2 ^ 64 = u + length en" "Suc (length es) mod 2 ^ 16 = Suc (length es)" using b fits(2) by simp_all
  ultimately have "leaf_holds pg (es @ [\<lparr>kv_key = key, kv_value = buffer\<rparr>])"
    using hdr k by (intro leaf_holdsI) (auto simp: pg_def en_def u_def)
  then show thesis using that [OF run] by blast
qed

lemma fill_leaf_holds:
  assumes z: "is_zero (s f)" and f: "page_ok f" and k: "\<forall>e\<in>set es. valid_key (kv_key e)"
    and fits: "total_entries_size es \<le> leaf_capacity" "length es < 2 ^ 16"
  obtains pg where "fill_leaf f es s = Inr (s(f := pg))" "leaf_holds pg es"
proof -
  define u where "u = length (encode_entries es)"
  have b: "u \<le> 4078" "total_entries_size es = u" using fits(1) by (simp_all add: u_def length_encode_entries data_capacity)
  define pg where "pg = blit (blit (blit (s f) 8 (le_bytes 8 u)) 16 (le_bytes 2 (length es))) (DATA + 0) (encode_entries es)"
  have run: "fill_leaf f es s = Inr (s(f := pg))"
    using f b by (simp add: fill_leaf_def put_leaf_ok pg_def u_def data_capacity)
  have "holds_at (s f) DATA (zeros leaf_capacity)" using z by (simp add: holds_at_def is_zero_def data_capacity)
  then have "holds_at (s f) DATA ([] @ zeros u @ zeros (leaf_capacity - u))"
    using zeros_split [of u leaf_capacity] b(1) by (simp add: data_capacity)
  then have "holds_at (blit (blit (s f) 8 (le_bytes 8 u)) 16 (le_bytes 2 (length es))) DATA
      ([] @ zeros u @ zeros (leaf_capacity - u))"
    by (intro holds_data_header)
  from holds_at_overwrite [OF this, of "encode_entries es"]
  have "holds_at pg DATA (encode_entries es @ zeros (leaf_capacity - u))" by (simp add: pg_def u_def)
  moreover have "u mod 2 ^ 64 = u" "length es mod 2 ^ 16 = length es" using b fits(2) by simp_all
  moreover have "leaf_next (s f) = 0" using is_zero_get(1) [OF z] by (simp add: leaf_next_def)
  ultimately have "leaf_holds pg es" using k by (intro leaf_holdsI) (simp_all add: pg_def u_def)
  then show thesis using that [OF run] by blast
qed

lemma remove_entry_holds:
  assumes h: "leaf_holds (s f) (xs @ e # ys)" and f: "page_ok f" and n: "length (xs @ e # ys) < 2 ^ 16"
  obtains pg where "remove_entry f (length (encode_entries xs)) (kv_key e) s = Inr (s(f := pg))" "leaf_holds pg (xs @ ys)"
proof -
  define X where "X = encode_entries xs"
  define Y where "Y = encode_entries ys"
  define en where "en = encode_kv e"
  define u where "u = length (encode_entries (xs @ e # ys))"
  have u: "u = length X + length en + length Y" by (simp add: u_def X_def Y_def en_def)
  have hd: "holds_at (s f) DATA (X @ (en @ Y) @ zeros (leaf_capacity - u))"
    and hdr: "leaf_usage (s f) = u" "leaf_entry_count (s f) = length (xs @ e # ys)" "leaf_next (s f) = 0"
      "\<forall>e\<in>set (xs @ e # ys). valid_key (kv_key e)"
    using h by (simp_all add: leaf_holds_def u_def X_def Y_def en_def)
  have ub: "u \<le> 4078" using leaf_holds_bound [OF h] by (simp add: u_def data_capacity)
  have he: "holds_at (s f) (DATA + length X) (en @ Y @ zeros (leaf_capacity - u))"
    and hY: "holds_at (s f) (DATA + length X + length en) Y"
    using hd by (simp_all add: holds_at_append)
  note st = entry_startsD [OF entry_starts_encoded [OF he [unfolded en_def]]]
  have vk: "valid_key (kv_key e)" using hdr(4) by simp
  have cur: "get_u64 (s f) (DATA + length X + length (kv_key e) + 1) = length (kv_value e)" using st(5) [OF vk] .
  have len: "length en = entry_size (kv_key e) (length (kv_value e))" "0 < length en" by (simp_all add: en_def entry_size_def)
  have rd: "bytes_at (s f) (DATA + (length X + length en)) (length Y) = Y"
    using holds_at_bytes [OF hY] by (simp add: add.assoc)
  define new where "new = Y @ zeros (length en)"
  define pg where "pg = blit (blit (blit (s f) (DATA + length X) new) 8 (le_bytes 8 (u - length en)))
    16 (le_bytes 2 (length (xs @ e # ys) + 2 ^ 16 - 1))"
  have c: "\<not> (PAGE_SIZE < DATA + length X + length (kv_key e) + 1 + 8 \<or> u < length X + length en \<or> PAGE_SIZE < DATA + u)"
    "u - (length X + length en) = length Y" "length X < leaf_capacity" "length X + length new \<le> leaf_capacity"
    using u ub len by (simp_all add: data_capacity entry_size_def new_def)
  have run: "remove_entry f (length X) (kv_key e) s = Inr (s(f := pg))"
    unfolding remove_entry_def Let_def cur len(1) [symmetric] hdr(1) c(2) rd new_def [symmetric]
    using c(1) put_leaf_ok(4) [OF f c(3,4)] f hdr by (simp add: put_leaf_ok pg_def)
  have lz: "leaf_capacity - (u - length en) = length en + (leaf_capacity - u)" using u ub by (simp add: data_capacity)
  have "length new = length (en @ Y)" by (simp add: new_def)
  from holds_at_overwrite [OF hd this]
  have "holds_at (blit (s f) (DATA + length X) new) DATA (X @ Y @ zeros (leaf_capacity - (u - length en)))"
    unfolding lz by (simp add: new_def zeros_def replicate_add)
  moreover have "(u - length en) mod 2 ^ 64 = u - length en" using ub by simp
  moreover have "(length (xs @ e # ys) + 2 ^ 16 - 1) mod 2 ^ 16 = length (xs @ ys)" using n by simp
  moreover have "u - length en = length (encode_entries (xs @ ys))" using u by (simp add: X_def Y_def)
  ultimately have "leaf_holds pg (xs @ ys)" using hdr by (intro leaf_holdsI) (auto simp: pg_def X_def Y_def)
  then show thesis using that run by (simp add: X_def)
qed

section \<open>Properties\<close>

text \<open>C31: The entries written into a new leaf are read back: all of them by \<open>get_entries_in_leaf\<close>, each
  key by \<open>find_entry_in_leaf\<close> at the place of its first entry, any other key not at all, and the
  leaf passes the integrity check.\<close>

theorem leaf_roundtrip:
  assumes "is_zero (s f)" "page_ok f" "\<forall>e\<in>set es. valid_key (kv_key e)"
    "total_entries_size es \<le> leaf_capacity" "length es < 2 ^ 16"
  shows "\<exists>pg. fill_leaf f es s = Inr (s(f := pg)) \<and> get_entries_in_leaf pg = Inr es \<and>
    validate_leaf_integrity pg = Inr () \<and>
    (\<forall>key. 0 \<notin> set key \<longrightarrow>
      find_entry_in_leaf pg key = Inr (case offset_of key es of None \<Rightarrow> - 1 | Some n \<Rightarrow> int n))"
proof -
  obtain pg where "fill_leaf f es s = Inr (s(f := pg))" "leaf_holds pg es"
    by (rule fill_leaf_holds [of s f, OF assms])
  then show ?thesis using get_entries_holds validate_holds find_entry_holds by blast
qed

definition two_entries :: "KVEntry list" where
  "two_entries = [\<lparr>kv_key = [97], kv_value = [1, 2]\<rparr>, \<lparr>kv_key = [98, 99], kv_value = []\<rparr>]"

lemma two_entries_ok: "\<forall>e\<in>set two_entries. valid_key (kv_key e)" "total_entries_size two_entries \<le> leaf_capacity"
  "length two_entries < 2 ^ 16"
  by (simp_all add: two_entries_def valid_key_def total_entries_size_def entry_size_def data_capacity)

theorem leaf_roundtrip_witness:
  "\<exists>pg. fill_leaf 41 two_entries (\<lambda>_. zero_page) = Inr ((\<lambda>_. zero_page)(41 := pg)) \<and>
    get_entries_in_leaf pg = Inr two_entries \<and> find_entry_in_leaf pg [98, 99] = Inr 12"
proof -
  have "offset_of [98, 99] two_entries = Some 12" by (simp add: two_entries_def entry_size_def)
  then show ?thesis
    using leaf_roundtrip [of "\<lambda>_. zero_page" 41 two_entries] two_entries_ok by (force simp: page_ok_def)
qed

text \<open>Replacing a value by one of the same length or a longer one that still fits keeps all other
  entries, in their order.\<close>

theorem leaf_update_longer:
  assumes "leaf_holds (s f) (xs @ e # ys)" "page_ok f" "length (kv_value e) \<le> length buffer"
    "total_entries_size (xs @ e\<lparr>kv_value := buffer\<rparr> # ys) \<le> leaf_capacity"
  shows "\<exists>pg. update_value_trivially f (length (encode_entries xs)) (kv_key e) buffer s = Inr (s(f := pg)) \<and>
    get_entries_in_leaf pg = Inr (xs @ e\<lparr>kv_value := buffer\<rparr> # ys) \<and> validate_leaf_integrity pg = Inr ()"
proof -
  have "length (encode_entries (xs @ e\<lparr>kv_value := buffer\<rparr> # ys)) \<le> leaf_capacity"
    using assms(4) by (simp only: length_encode_entries)
  from update_value_holds [of s f, OF assms(1-3) this] show ?thesis
    using get_entries_holds validate_holds by metis
qed

lemma example_leaf:
  obtains pg where "leaf_holds pg two_entries"
proof -
  have "page_ok 41" by (simp add: page_ok_def)
  from fill_leaf_holds [of "\<lambda>_. zero_page", OF _ this two_entries_ok] show thesis using that by auto
qed

theorem leaf_update_longer_witness:
  "\<exists>s s' pg. update_value_trivially 41 0 [97] [5, 6, 7] s = Inr s' \<and> s' 41 = pg \<and>
    get_entries_in_leaf pg = Inr [\<lparr>kv_key = [97], kv_value = [5, 6, 7]\<rparr>, \<lparr>kv_key = [98, 99], kv_value = []\<rparr>]"
proof -
  obtain pg where pg: "leaf_holds pg two_entries" by (rule example_leaf)
  define e where "e = \<lparr>kv_key = [97], kv_value = [1, 2 :: byte]\<rparr>"
  define s where "s = (\<lambda>_::nat. zero_page)(41 := pg)"
  have h: "leaf_holds (s 41) ([] @ e # [\<lparr>kv_key = [98, 99], kv_value = []\<rparr>])"
    using pg by (simp add: two_entries_def e_def s_def)
  show ?thesis
    using leaf_update_longer [of s 41, OF h, of "[5, 6, 7]"]
    by (fastforce simp: e_def page_ok_def total_entries_size_def entry_size_def data_capacity)
qed

text \<open>C32: A shorter value leaves the last bytes of the old contents behind, beyond the new end of the
  entries, where the leaf must be zero: if a value that ends in the image of an entry is the last one
  of the leaf and is cut short by just these bytes, that image becomes an entry of the leaf.\<close>

theorem shorter_value_leaves_entry:
  assumes "leaf_holds (s f) (xs @ [e])" "page_ok f" "kv_value e = p @ encode_entry key value" "valid_key key"
    "length buffer = length p" "key \<notin> kv_key ` set (xs @ [e])"
  shows "\<exists>pg. update_value_trivially f (length (encode_entries xs)) (kv_key e) buffer s = Inr (s(f := pg)) \<and>
    get_entries_in_leaf pg = Inr (xs @ [e\<lparr>kv_value := buffer\<rparr>, \<lparr>kv_key = key, kv_value = value\<rparr>]) \<and>
    find_entry_in_leaf pg key = Inr (int (length (encode_entries (xs @ [e\<lparr>kv_value := buffer\<rparr>])))) \<and>
    leaf_entry_count pg = length (xs @ [e])"
proof -
  define new where "new = \<lparr>kv_key = key, kv_value = value\<rparr>"
  define es where "es = xs @ [e\<lparr>kv_value := buffer\<rparr>, new]"
  define A where "A = encode_entries xs @ kv_key e @ [0]"
  define u' where "u' = length (encode_entries (xs @ e\<lparr>kv_value := buffer\<rparr> # []))"
  define R where "R = encode_entry key value"
  have R: "0 < length R" by (simp add: R_def entry_size_def)
  have lt: "length buffer < length (kv_value e)" "length buffer \<noteq> length (kv_value e)"
    using R assms(3,5) by (simp_all add: R_def [symmetric])
  have ue: "length (encode_entries (xs @ [e])) = length (encode_entries es)"
    using assms(3,5) by (simp add: es_def new_def entry_size_def)
  have b: "length (encode_entries es) \<le> leaf_capacity" using leaf_holds_bound [OF assms(1)] ue by simp
  have fits: "length (encode_entries (xs @ e\<lparr>kv_value := buffer\<rparr> # [])) \<le> leaf_capacity"
    using b by (simp add: es_def)
  define pg where "pg = blit (blit (s f) 8 (le_bytes 8 u')) (DATA + length A) (le_bytes 8 (length buffer) @ buffer @ R)"
  have dr: "drop (8 + length buffer + length (encode_entries [])) (le_bytes 8 (length (kv_value e)) @ kv_value e @ encode_entries []) = R"
    using assms(3,5) by (simp add: R_def)
  have run: "update_value_trivially f (length (encode_entries xs)) (kv_key e) buffer s = Inr (s(f := pg))"
    using update_value_bytes [of s f, OF assms(1,2) lt(2) fits] lt(1) dr
    by (simp add: pg_def A_def u'_def)
  have hd: "holds_at (s f) DATA (A @ (le_bytes 8 (length (kv_value e)) @ kv_value e) @ zeros (leaf_capacity - length (encode_entries es)))"
    using assms(1) ue by (simp add: leaf_holds_def A_def encode_entry_def)
  have "length (le_bytes 8 (length buffer) @ buffer @ R) = length (le_bytes 8 (length (kv_value e)) @ kv_value e)"
    using assms(3,5) by (simp add: R_def)
  from holds_at_overwrite [OF holds_data_header(1) [OF hd] this]
  have h: "holds_at pg DATA (encode_entries es @ zeros (leaf_capacity - length (encode_entries es)))"
    by (simp add: pg_def es_def new_def A_def R_def encode_entry_def [of "kv_key e"])
  have sz: "DATA + length (encode_entries es) + (leaf_capacity - length (encode_entries es)) = PAGE_SIZE"
    using b by (simp add: data_capacity)
  have vk: "\<forall>x\<in>set es. valid_key (kv_key x)" using assms(1,4) by (simp add: leaf_holds_def es_def new_def)
  have "offset_of key (xs @ [e\<lparr>kv_value := buffer\<rparr>, new]) = Some (length (encode_entries (xs @ [e\<lparr>kv_value := buffer\<rparr>])))"
    unfolding offset_of_Some using assms(6) by (intro exI [of _ "xs @ [e\<lparr>kv_value := buffer\<rparr>]"] exI [of _ new] exI [of _ "[]"]) (simp add: new_def)
  then have "find_entry_in_leaf pg key = Inr (int (length (encode_entries (xs @ [e\<lparr>kv_value := buffer\<rparr>]))))"
    using find_from_holds [OF h sz vk, of key] assms(4) by (simp add: find_entry_in_leaf_def valid_key_def es_def)
  moreover have "get_entries_in_leaf pg = Inr es" unfolding get_entries_in_leaf_def by (rule entries_from_holds [OF h sz vk])
  moreover have "leaf_entry_count pg = length (xs @ [e])" using assms(1) by (simp add: pg_def leaf_holds_def)
  ultimately show ?thesis using run unfolding es_def new_def by blast
qed

theorem shorter_value_leaves_entry_witness:
  "\<exists>s s'. get_entries_in_leaf (s 41) = Inr [\<lparr>kv_key = [97], kv_value = encode_entry [98] [7]\<rparr>] \<and>
    update_value_trivially 41 0 [97] [] s = Inr s' \<and>
    get_entries_in_leaf (s' 41) = Inr [\<lparr>kv_key = [97], kv_value = []\<rparr>, \<lparr>kv_key = [98], kv_value = [7]\<rparr>]"
proof -
  define e where "e = \<lparr>kv_key = [97], kv_value = encode_entry [98] [7 :: byte]\<rparr>"
  have ok: "page_ok 41" "\<forall>x\<in>set [e]. valid_key (kv_key x)" "total_entries_size [e] \<le> leaf_capacity" "length [e] < 2 ^ 16"
    by (simp_all add: page_ok_def e_def valid_key_def total_entries_size_def entry_size_def data_capacity)
  obtain pg where pg: "leaf_holds pg [e]" using fill_leaf_holds [of "\<lambda>_. zero_page", OF _ ok] by auto
  define s where "s = (\<lambda>_::nat. zero_page)(41 := pg)"
  have h: "leaf_holds (s 41) ([] @ [e])" using pg by (simp add: s_def)
  have v: "kv_value e = [] @ encode_entry [98] [7]" "valid_key [98 :: byte]" "length ([] :: byte list) = length ([] :: byte list)"
    "[98] \<notin> kv_key ` set ([] @ [e])"
    by (simp_all add: e_def valid_key_def)
  from shorter_value_leaves_entry [of s 41, OF h ok(1) v] get_entries_holds [OF h]
  show ?thesis by (fastforce simp: e_def)
qed

text \<open>Taking an entry out of a leaf keeps the others in their order.\<close>

theorem leaf_remove:
  assumes "leaf_holds (s f) (xs @ e # ys)" "page_ok f" "length (xs @ e # ys) < 2 ^ 16"
  shows "\<exists>pg. remove_entry f (length (encode_entries xs)) (kv_key e) s = Inr (s(f := pg)) \<and>
    get_entries_in_leaf pg = Inr (xs @ ys) \<and> validate_leaf_integrity pg = Inr () \<and>
    leaf_usage pg = total_entries_size (xs @ ys)"
proof -
  obtain pg where "remove_entry f (length (encode_entries xs)) (kv_key e) s = Inr (s(f := pg))" "leaf_holds pg (xs @ ys)"
    by (rule remove_entry_holds [of s f, OF assms])
  moreover from this(2) have "leaf_usage pg = total_entries_size (xs @ ys)"
    by (simp only: leaf_holds_def length_encode_entries)
  ultimately show ?thesis using get_entries_holds validate_holds by blast
qed

theorem leaf_remove_witness:
  "\<exists>s s'. get_entries_in_leaf (s 41) = Inr two_entries \<and> remove_entry 41 0 [97] s = Inr s' \<and>
    get_entries_in_leaf (s' 41) = Inr [\<lparr>kv_key = [98, 99], kv_value = []\<rparr>]"
proof -
  obtain pg where pg: "leaf_holds pg two_entries" by (rule example_leaf)
  define e where "e = \<lparr>kv_key = [97], kv_value = [1, 2 :: byte]\<rparr>"
  define s where "s = (\<lambda>_::nat. zero_page)(41 := pg)"
  have h: "leaf_holds (s 41) ([] @ e # [\<lparr>kv_key = [98, 99], kv_value = []\<rparr>])"
    using pg by (simp add: two_entries_def e_def s_def)
  have "page_ok 41" by (simp add: page_ok_def)
  from leaf_remove [of s 41, OF h this] get_entries_holds [OF h] show ?thesis
    by (fastforce simp: e_def two_entries_def)
qed

text \<open>C33: A key with a NUL byte in it is stored as it is, but read only up to that byte: searching for
  the part before the NUL finds the entry.\<close>

theorem nul_key_shadows_prefix:
  assumes "holds_at pg DATA (encode_entry (key @ [0] @ suffix) value @ rest)" "valid_key key"
  shows "find_entry_in_leaf pg key = Inr 0"
proof -
  have h: "holds_at pg DATA (key @ [0])" using assms(1) by (simp add: encode_entry_def holds_at_append holds_at_Cons)
  have k: "0 \<notin> set key" "key \<noteq> []" using assms(2) by (simp_all add: valid_key_def)
  have "pg DATA \<noteq> 0" "\<not> PAGE_SIZE \<le> DATA" using h k by (cases key; auto simp: holds_at_Cons data_capacity)+
  then show ?thesis
    using key_matches_holds [OF h k(1) k(1)] by (simp add: find_entry_in_leaf_def find_from.simps [of pg key DATA])
qed

theorem nul_key_shadows_prefix_witness:
  "find_entry_in_leaf (blit zero_page DATA (encode_entry [97, 0, 98] [1])) [97] = Inr 0"
proof (rule nul_key_shadows_prefix)
  show "holds_at (blit zero_page DATA (encode_entry [97, 0, 98] [1])) DATA (encode_entry ([97] @ [0] @ [98]) [1] @ [])"
    using holds_at_blit(1) [of DATA "encode_entry [97, 0, 98] [1]" zero_page] by (simp add: data_capacity entry_size_def)
qed (simp add: valid_key_def)

end
