(* ===== verification/Big_Value.thy ===== *)
theory Big_Value
  imports Prelude Pages Space_Manager Leaf
begin

text \<open>
  \<open>big_value.cpp\<close>: values that go on beyond the first page of their leaf.  The leaf page is linked to
  regions of 2, 4, 8, ... pages; each region starts with the page number of the next one.  The lemmas
  show that the loops of \<open>rw_impl\<close> visit just the bytes of the requested range, that writing and
  reading agree, and that enough regions are there after \<open>create_continuation_regions\<close>.
\<close>

section \<open>The code\<close>

datatype LeafPageType = START | CONTINUATION | PURE

fun start_offset :: "nat \<Rightarrow> LeafPageType \<Rightarrow> nat" where
  "start_offset voff START = DATA + voff"
| "start_offset voff CONTINUATION = 8"
| "start_offset voff PURE = 0"

definition next_region_start :: "pages \<Rightarrow> nat \<Rightarrow> nat" where
  "next_region_start s start = leaf_next (s start)"

text \<open>\<open>x << n\<close> in a 32-bit \<open>int\<close>, and a \<open>size_t\<close> from a difference.\<close>

definition shl_int :: "nat \<Rightarrow> nat \<Rightarrow> int result" where
  "shl_int x n =
     (let y = int x * 2 ^ n in
      if 32 \<le> n then Inl MemoryError
      else if y < 2 ^ 31 then Inr y
      else if y < 2 ^ 32 then Inr (y - 2 ^ 32)
      else Inl MemoryError)"

definition size_t :: "int \<Rightarrow> nat" where
  "size_t i = nat (i mod 2 ^ 64)"

record big_pos =
  depth :: nat
  region_start_page :: nat
  region_offset :: nat
  page_offset :: nat
  value_offset :: nat
  current_page_type :: LeafPageType

definition big_start :: "nat \<Rightarrow> big_pos" where
  "big_start start_page = \<lparr>depth = 0, region_start_page = start_page, region_offset = 0, page_offset = 0,
     value_offset = 0, current_page_type = START\<rparr>"

text \<open>The first loop of \<open>rw_impl\<close>: skip regions, pages, bytes.\<close>

lemma shl_int_page_pos: "shl_int PAGE_SIZE n = Inr i \<Longrightarrow> 0 < n \<Longrightarrow> 0 < size_t (i - 8)"
proof -
  assume "shl_int PAGE_SIZE n = Inr i" "0 < n"
  then have n: "n < 20"
    by (cases "n < 20") (auto simp: shl_int_def Let_def split: if_splits dest!: leI
        [THEN power_increasing [where a = "2 :: int"]])
  have p: "(2::int) ^ 1 \<le> 2 ^ n" using \<open>0 < n\<close> by (intro power_increasing) simp_all
  have q: "(2::int) ^ n \<le> 2 ^ 19" using n by (intro power_increasing) simp_all
  have "i = 4096 * 2 ^ n \<or> i = 4096 * 2 ^ n - 2 ^ 32"
    using \<open>shl_int PAGE_SIZE n = Inr i\<close> by (auto simp: shl_int_def Let_def split: if_splits)
  then show "0 < size_t (i - 8)"
  proof
    assume "i = 4096 * 2 ^ n"
    then have "(i - 8) mod 2 ^ 64 = i - 8" using p q by (intro mod_pos_pos_trivial) auto
    then show ?thesis using p \<open>i = _\<close> by (simp add: size_t_def)
  next
    assume i: "i = 4096 * 2 ^ n - 2 ^ 32"
    then have "(i - 8 + 2 ^ 64) mod 2 ^ 64 = i - 8 + 2 ^ 64" using p q by (intro mod_pos_pos_trivial) auto
    then have "(i - 8) mod 2 ^ 64 = i - 8 + 2 ^ 64" using mod_add_self2 [of "i - 8" "2 ^ 64"] by metis
    then show ?thesis using p i by (simp add: size_t_def)
  qed
qed

function skip_to :: "pages \<Rightarrow> nat \<Rightarrow> nat \<Rightarrow> big_pos \<Rightarrow> big_pos result" where
  "skip_to s voff offset p =
     (if offset \<le> value_offset p then Inr p
      else let distance = offset - value_offset p in
      bindR (shl_int PAGE_SIZE (depth p)) (\<lambda>region_bytes.
      let region_skip = size_t (region_bytes -
        int (start_offset voff (if depth p = 0 then START else CONTINUATION))) in
      if region_skip \<le> distance then
        skip_to s voff offset (p\<lparr>value_offset := value_offset p + region_skip, depth := depth p + 1,
          region_start_page := next_region_start s (region_start_page p), current_page_type := CONTINUATION\<rparr>)
      else let page_skip = size_t (int PAGE_SIZE - int (start_offset voff (current_page_type p))) in
      if page_skip \<le> distance then
        skip_to s voff offset (p\<lparr>value_offset := value_offset p + page_skip,
          region_offset := region_offset p + 1, current_page_type := PURE\<rparr>)
      else
        skip_to s voff offset (p\<lparr>page_offset := page_offset p + distance,
          value_offset := value_offset p + distance\<rparr>)))"
  by pat_completeness auto
termination
proof (relation "measures [\<lambda>(s, voff, offset, p). offset - value_offset p,
    \<lambda>(s, voff, offset, p). if depth p = 0 then 1 else 0,
    \<lambda>(s, voff, offset, p). if current_page_type p = START then 1 else 0]", goal_cases)
  case (2 s voff offset p distance region_bytes region_skip)
  then have "0 < region_skip \<or> depth p = 0" using shl_int_page_pos [of "depth p" region_bytes] by auto
  then show ?case using 2(1,2,5) by auto
next
  case (3 s voff offset p distance region_bytes region_skip page_skip)
  have "0 < page_skip \<or> current_page_type p = START"
    unfolding 3(6) by (cases "current_page_type p") (simp_all add: size_t_def)
  then show ?case using 3(1,2,7) by auto
qed auto

text \<open>\<open>length_in_page\<close> bytes of one page, to or from position \<open>at\<close> of the buffer.\<close>

definition rw_page :: "bool \<Rightarrow> nat \<Rightarrow> nat \<Rightarrow> nat \<Rightarrow> nat \<Rightarrow> byte list \<Rightarrow> pages \<Rightarrow> (byte list \<times> pages) result" where
  "rw_page is_write page off length_in_page at buffer s =
     (if is_write then
        if length buffer < at + length_in_page then Inl MemoryError
        else bindR (put_bytes page off (take length_in_page (drop at buffer)) s) (\<lambda>s. Inr (buffer, s))
      else if PAGE_SIZE < off + length_in_page then Inl MemoryError
      else bindR (copy_into buffer at (bytes_at (s page) off length_in_page)) (\<lambda>buffer. Inr (buffer, s)))"

text \<open>The second loop: read into the buffer or write from it, page by page.\<close>

function rw_loop :: "bool \<Rightarrow> nat \<Rightarrow> nat \<Rightarrow> nat \<Rightarrow> big_pos \<Rightarrow> byte list \<Rightarrow> pages \<Rightarrow> (byte list \<times> pages) result" where
  "rw_loop is_write voff offset end_offset p buffer s =
     (if end_offset \<le> value_offset p then Inr (buffer, s)
      else let distance = end_offset - value_offset p;
               from = start_offset voff (current_page_type p) + page_offset p;
               page_skip = size_t (int PAGE_SIZE - int from);
               length_in_page = min distance page_skip;
               page = region_start_page p + region_offset p in
      bindR (rw_page is_write page from length_in_page (value_offset p - offset) buffer s) (\<lambda>(buffer, s).
      bindR (shl_int 1 (depth p)) (\<lambda>pages_in_region.
      let p = p\<lparr>value_offset := value_offset p + length_in_page\<rparr> in
      if distance \<le> page_skip then rw_loop is_write voff offset end_offset p buffer s
      else let p = p\<lparr>region_offset := region_offset p + 1, current_page_type := PURE, page_offset := 0\<rparr> in
      if int (region_offset p) \<noteq> pages_in_region then rw_loop is_write voff offset end_offset p buffer s
      else let next_start = next_region_start s (region_start_page p) in
      if next_start = 0 then Inl (DiskMapException ''Invalid next pointer in big value'')
      else rw_loop is_write voff offset end_offset (p\<lparr>depth := depth p + 1, region_start_page := next_start,
        current_page_type := CONTINUATION, region_offset := 0\<rparr>) buffer s)))"
  by pat_completeness auto
termination
proof (relation "measures [\<lambda>(w, voff, offset, end_offset, p, b, s). end_offset - value_offset p,
    \<lambda>(w, voff, offset, end_offset, p, b, s). if page_offset p \<noteq> 0 \<or> current_page_type p = START then 1 else 0]", goal_cases)
  case (2 is_write voff offset end_offset p buffer s distance "from" page_skip length_in_page page bs buffer' s' i p')
  then show ?case by auto
next
  case (3 is_write voff offset end_offset p buffer s distance "from" page_skip length_in_page page bs buffer' s' i p' p'')
  have "0 < page_skip \<or> page_offset p \<noteq> 0 \<or> current_page_type p = START"
    unfolding 3(4) 3(3) by (cases "current_page_type p"; cases "page_offset p = 0") (simp_all add: size_t_def)
  then show ?case using 3 by auto
next
  case (4 is_write voff offset end_offset p buffer s distance "from" page_skip length_in_page page bs buffer' s' i p' p'' region)
  have "0 < page_skip \<or> page_offset p \<noteq> 0 \<or> current_page_type p = START"
    unfolding 4(4) 4(3) by (cases "current_page_type p"; cases "page_offset p = 0") (simp_all add: size_t_def)
  then show ?case using 4 by auto
qed auto

definition rw_impl :: "nat \<Rightarrow> nat \<Rightarrow> nat \<Rightarrow> byte list \<Rightarrow> bool \<Rightarrow> pages \<Rightarrow> (byte list \<times> pages) result" where
  "rw_impl start_page voff offset buffer is_write s =
     bindR (skip_to s voff offset (big_start start_page)) (\<lambda>p.
       rw_loop is_write voff offset ((offset + length buffer) mod 2 ^ 64) p buffer s)"

definition BigValue_read :: "nat \<Rightarrow> nat \<Rightarrow> nat \<Rightarrow> nat \<Rightarrow> pages \<Rightarrow> byte list result" where
  "BigValue_read start_page voff offset n s =
     bindR (rw_impl start_page voff offset (zeros n) False s) (\<lambda>(buffer, s). Inr buffer)"

function regions_needed :: "nat \<Rightarrow> nat \<Rightarrow> nat \<Rightarrow> nat result" where
  "regions_needed esize capacity result =
     (if esize \<le> capacity then Inr result
      else bindR (shl_int 1 (result + 1)) (\<lambda>pages_in_next_region.
        regions_needed esize ((capacity + size_t (pages_in_next_region * int PAGE_SIZE - 8)) mod 2 ^ 64)
          (result + 1)))"
  by pat_completeness auto
termination
proof (relation "measure (\<lambda>(e, c, r). 32 - r)", goal_cases)
  case (2 e c r i)
  then have "r + 1 < 32" by (auto simp: shl_int_def Let_def split: if_splits)
  then show ?case by simp
qed simp

definition required_continuation_regions :: "nat \<Rightarrow> nat result" where
  "required_continuation_regions esize = regions_needed esize leaf_capacity 0"

text \<open>The loop over the regions: the first step works on the leaf page, the others on the region before.\<close>

fun extend_regions :: "nat \<Rightarrow> nat \<Rightarrow> nat \<Rightarrow> pages \<Rightarrow> pages result" where
  "extend_regions 0 order prev s = Inr s"
| "extend_regions (Suc n) order prev s =
     (let next_page = next_region_start s prev in
      if next_page = 0 then
        bindR (SpaceManager_allocate order s) (\<lambda>(next_page, s).
        bindR (put_leaf_next prev next_page s) (extend_regions n (order + 1) next_page))
      else extend_regions n (order + 1) next_page s)"

definition create_continuation_regions :: "nat \<Rightarrow> nat \<Rightarrow> pages \<Rightarrow> pages result" where
  "create_continuation_regions start_page esize s =
     bindR (required_continuation_regions esize) (\<lambda>n. extend_regions n 1 start_page s)"

definition BigValue_write :: "nat \<Rightarrow> nat \<Rightarrow> nat \<Rightarrow> byte list \<Rightarrow> pages \<Rightarrow> pages result" where
  "BigValue_write start_page voff offset buffer s =
     (let max_value_size = (offset + length buffer) mod 2 ^ 64 in
      bindR (create_continuation_regions start_page ((voff + max_value_size) mod 2 ^ 64) s) (\<lambda>s.
      bindR (rw_impl start_page voff offset buffer True s) (\<lambda>(buffer, s). Inr s)))"

declare skip_to.simps [simp del] rw_loop.simps [simp del] regions_needed.simps [simp del]

section \<open>Where the bytes of a value are\<close>

text \<open>\<open>rs\<close> are the starts of the regions, the leaf page first.  \<open>room_in voff d\<close> is the number of
  bytes of a value in region \<open>d\<close>, \<open>base voff d\<close> that in the regions before it.\<close>

definition header :: "nat \<Rightarrow> nat \<Rightarrow> nat" where
  "header voff d = (if d = 0 then DATA + voff else 8)"

definition room_in :: "nat \<Rightarrow> nat \<Rightarrow> nat" where
  "room_in voff d = 2 ^ d * PAGE_SIZE - header voff d"

definition base :: "nat \<Rightarrow> nat \<Rightarrow> nat" where
  "base voff d = (\<Sum>k<d. room_in voff k)"

lemma base_simps [simp]: "base voff 0 = 0" "base voff (Suc d) = base voff d + room_in voff d"
  by (simp_all add: base_def)

lemma base_mono: "d \<le> e \<Longrightarrow> base voff d \<le> base voff e"
  unfolding base_def by (intro sum_mono2) auto

fun addr_from :: "nat \<Rightarrow> nat \<Rightarrow> nat list \<Rightarrow> nat \<Rightarrow> (nat \<times> nat) option" where
  "addr_from voff d [] i = None"
| "addr_from voff d (r # rs) i =
     (if i < room_in voff d
      then Some (r + (header voff d + i) div PAGE_SIZE, (header voff d + i) mod PAGE_SIZE)
      else addr_from voff (Suc d) rs (i - room_in voff d))"

definition addr :: "nat \<Rightarrow> nat list \<Rightarrow> nat \<Rightarrow> (nat \<times> nat) option" where
  "addr voff rs = addr_from voff 0 rs"

lemma addr_from_at:
  "e < length rs \<Longrightarrow> i < room_in voff (d + e) \<Longrightarrow>
   addr_from voff d rs (base voff (d + e) - base voff d + i) =
     Some (rs ! e + (header voff (d + e) + i) div PAGE_SIZE, (header voff (d + e) + i) mod PAGE_SIZE)"
proof (induction rs arbitrary: d e)
  case (Cons r rs)
  show ?case
  proof (cases e)
    case 0
    then show ?thesis using Cons.prems by simp
  next
    case (Suc e')
    have "base voff (Suc d) \<le> base voff (Suc d + e')" by (rule base_mono) simp
    then have "base voff (d + e) - base voff d + i = room_in voff d + (base voff (Suc d + e') - base voff (Suc d) + i)"
      using Suc by simp
    then show ?thesis using Cons.IH [of e' "Suc d"] Cons.prems Suc by simp
  qed
qed simp

lemma addr_at:
  "d < length rs \<Longrightarrow> i < room_in voff d \<Longrightarrow>
   addr voff rs (base voff d + i) = Some (rs ! d + (header voff d + i) div PAGE_SIZE, (header voff d + i) mod PAGE_SIZE)"
  using addr_from_at [of d rs i voff 0] by (simp add: addr_def)

text \<open>Every byte within the capacity is in some region.\<close>

lemma region_of_byte:
  "j < base voff n \<Longrightarrow> \<exists>d i. d < n \<and> i < room_in voff d \<and> j = base voff d + i"
proof (induction n)
  case (Suc n)
  show ?case
  proof (cases "j < base voff n")
    case True
    then show ?thesis using Suc.IH by (meson less_SucI)
  next
    case False
    then show ?thesis using Suc.prems by (intro exI [of _ n] exI [of _ "j - base voff n"]) simp
  qed
qed simp

text \<open>The regions of a value: linked, apart from each other, with page numbers that have locations.\<close>

definition regions :: "pages \<Rightarrow> nat list \<Rightarrow> bool" where
  "regions s rs \<longleftrightarrow> rs \<noteq> [] \<and> length rs \<le> 19 \<and>
     (\<forall>d<length rs. rs ! d \<noteq> 0 \<and> rs ! d + 2 ^ d \<le> 2 ^ 52 \<and>
        next_region_start s (rs ! d) = (if Suc d < length rs then rs ! Suc d else 0)) \<and>
     (\<forall>d<length rs. \<forall>e<length rs. d \<noteq> e \<longrightarrow> region (rs ! d) d \<inter> region (rs ! e) e = {})"

lemma regionsD:
  assumes "regions s rs"
  shows "rs \<noteq> []" "length rs \<le> 19" "d < length rs \<Longrightarrow> rs ! d \<noteq> 0" "d < length rs \<Longrightarrow> rs ! d + 2 ^ d \<le> 2 ^ 52"
    "d < length rs \<Longrightarrow> next_region_start s (rs ! d) = (if Suc d < length rs then rs ! Suc d else 0)"
    "d < length rs \<Longrightarrow> e < length rs \<Longrightarrow> p \<in> region (rs ! d) d \<Longrightarrow> p \<in> region (rs ! e) e \<Longrightarrow> d = e"
  using assms unfolding regions_def by blast+

lemma byte_in_region:
  assumes "i < room_in voff d" "DATA + voff < PAGE_SIZE"
  shows "(header voff d + i) div PAGE_SIZE < 2 ^ d" "r + (header voff d + i) div PAGE_SIZE \<in> region r d"
    "header voff d < PAGE_SIZE"
proof -
  have "header voff d + i < 2 ^ d * PAGE_SIZE" using assms(1) by (simp add: room_in_def)
  then show "(header voff d + i) div PAGE_SIZE < 2 ^ d" by (simp add: less_mult_imp_div_less)
  then show "r + (header voff d + i) div PAGE_SIZE \<in> region r d" by (simp add: region_def)
  show "header voff d < PAGE_SIZE" using assms(2) by (simp add: header_def data_capacity)
qed

lemma addr_inj:
  assumes rs: "regions s rs" and v: "DATA + voff < PAGE_SIZE"
    and ij: "i < base voff (length rs)" "j < base voff (length rs)" "addr voff rs i = addr voff rs j"
  shows "i = j"
proof -
  obtain d a where d: "d < length rs" "a < room_in voff d" "i = base voff d + a" using region_of_byte [OF ij(1)] by blast
  obtain e b where e: "e < length rs" "b < room_in voff e" "j = base voff e + b" using region_of_byte [OF ij(2)] by blast
  have eq: "rs ! d + (header voff d + a) div PAGE_SIZE = rs ! e + (header voff e + b) div PAGE_SIZE"
    "(header voff d + a) mod PAGE_SIZE = (header voff e + b) mod PAGE_SIZE"
    using ij(3) addr_at [OF d(1,2)] addr_at [OF e(1,2)] d(3) e(3) by simp_all
  have "d = e"
    using regionsD(6) [OF rs d(1) e(1)] byte_in_region(2) [OF d(2) v, of "rs ! d"] byte_in_region(2) [OF e(2) v, of "rs ! e"] eq(1)
    by metis
  moreover from this have "header voff d + a = header voff e + b" using eq by (metis add_left_imp_eq div_mod_decomp)
  ultimately show ?thesis using d(3) e(3) by simp
qed

section \<open>The loops\<close>

text \<open>The position of byte \<open>i\<close> of region \<open>d\<close>.\<close>

definition at_byte :: "nat \<Rightarrow> nat list \<Rightarrow> big_pos \<Rightarrow> nat \<Rightarrow> nat \<Rightarrow> bool" where
  "at_byte voff rs p d i \<longleftrightarrow> depth p = d \<and> d < length rs \<and> region_start_page p = rs ! d \<and> i < room_in voff d \<and>
     value_offset p = base voff d + i \<and> region_offset p = (header voff d + i) div PAGE_SIZE \<and>
     start_offset voff (current_page_type p) + page_offset p = (header voff d + i) mod PAGE_SIZE \<and>
     current_page_type p = (if region_offset p = 0 then if d = 0 then START else CONTINUATION else PURE)"

lemma at_byteD:
  assumes "at_byte voff rs p d i"
  shows "depth p = d" "d < length rs" "region_start_page p = rs ! d" "i < room_in voff d"
    "value_offset p = base voff d + i" "region_offset p = (header voff d + i) div PAGE_SIZE"
    "start_offset voff (current_page_type p) + page_offset p = (header voff d + i) mod PAGE_SIZE"
    "current_page_type p = (if region_offset p = 0 then if d = 0 then START else CONTINUATION else PURE)"
  using assms unfolding at_byte_def by blast+

lemma shl_page: "d < 19 \<Longrightarrow> shl_int PAGE_SIZE d = Inr (int (2 ^ d * PAGE_SIZE))"
proof -
  assume d: "d < 19"
  have "(2::int) ^ d \<le> 2 ^ 18" using d by (intro power_increasing) simp_all
  then show ?thesis using d by (simp add: shl_int_def Let_def)
qed

lemma shl_one: "d < 31 \<Longrightarrow> shl_int 1 d = Inr (int (2 ^ d))"
proof -
  assume d: "d < 31"
  have "(2::int) ^ d < 2 ^ 31" using d by (intro power_strict_increasing) simp_all
  then show ?thesis using d by (simp add: shl_int_def Let_def)
qed

lemma size_t_diff: "b \<le> a \<Longrightarrow> a < 2 ^ 64 \<Longrightarrow> size_t (int a - int b) = a - b"
  by (simp add: size_t_def nat_diff_distrib flip: of_nat_diff)

lemma room_in_pos: "DATA + voff < PAGE_SIZE \<Longrightarrow> 0 < room_in voff d"
  "DATA + voff < PAGE_SIZE \<Longrightarrow> header voff d < 2 ^ d * PAGE_SIZE"
proof -
  assume "DATA + voff < PAGE_SIZE"
  then have "header voff d < 1 * PAGE_SIZE" by (simp add: header_def)
  also have "\<dots> \<le> 2 ^ d * PAGE_SIZE" by (intro mult_le_mono1) simp
  finally show "header voff d < 2 ^ d * PAGE_SIZE" .
  then show "0 < room_in voff d" by (simp add: room_in_def)
qed

lemma region_skip_room:
  assumes "d < 19" "DATA + voff < PAGE_SIZE"
  shows "size_t (int (2 ^ d * PAGE_SIZE) - int (start_offset voff (if d = 0 then START else CONTINUATION))) = room_in voff d"
proof -
  have "(2::nat) ^ d \<le> 2 ^ 18" using assms(1) by (intro power_increasing) simp_all
  then have "2 ^ d * PAGE_SIZE < 2 ^ 64" by simp
  moreover have "start_offset voff (if d = 0 then START else CONTINUATION) = header voff d" by (simp add: header_def)
  ultimately show ?thesis using size_t_diff room_in_pos(2) [OF assms(2), of d] by (simp only: room_in_def less_imp_le)
qed

lemma depth_below: "base voff d < base voff n \<Longrightarrow> d < n"
  using base_mono [of n d voff] by (meson not_le)

lemma skip_to_ok:
  assumes rs: "regions s rs" and v: "DATA + voff < PAGE_SIZE" and off: "offset < base voff (length rs)"
  shows "at_byte voff rs p d i \<Longrightarrow> page_offset p = 0 \<Longrightarrow> i = 0 \<or> offset < base voff (Suc d) \<Longrightarrow> value_offset p \<le> offset \<Longrightarrow>
    \<exists>p' d' i'. skip_to s voff offset p = Inr p' \<and> at_byte voff rs p' d' i' \<and> value_offset p' = offset"
proof (induction "offset - value_offset p" arbitrary: p d i rule: less_induct)
  case less
  note a = at_byteD [OF less.prems(1)]
  show ?case
  proof (cases "value_offset p = offset")
    case True
    then show ?thesis using less.prems(1) by (auto simp: skip_to.simps [of s voff offset p])
  next
    case False
    then have lt: "value_offset p < offset" using less.prems(4) by simp
    have d19: "d < 19" using a(2) regionsD(2) [OF rs] by simp
    define b where "b = (header voff d + i) mod PAGE_SIZE"
    define ro where "ro = (header voff d + i) div PAGE_SIZE"
    have hb: "header voff d + i = ro * PAGE_SIZE + b" "b < PAGE_SIZE" by (simp_all add: b_def ro_def)
    have roe: "region_offset p = ro" using a(6) by (simp only: ro_def)
    have so: "start_offset voff (current_page_type p) = b" using a(7) less.prems(2) by (simp add: b_def)
    have ps: "size_t (int PAGE_SIZE - int (start_offset voff (current_page_type p))) = PAGE_SIZE - b"
      unfolding so using hb(2) by (intro size_t_diff) simp_all
    define distance where "distance = offset - value_offset p"
    have un: "skip_to s voff offset p =
        (if room_in voff d \<le> distance then
          skip_to s voff offset (p\<lparr>value_offset := value_offset p + room_in voff d, depth := depth p + 1,
            region_start_page := next_region_start s (region_start_page p), current_page_type := CONTINUATION\<rparr>)
         else if PAGE_SIZE - b \<le> distance then
          skip_to s voff offset (p\<lparr>value_offset := value_offset p + (PAGE_SIZE - b),
            region_offset := region_offset p + 1, current_page_type := PURE\<rparr>)
         else
          skip_to s voff offset (p\<lparr>page_offset := page_offset p + distance,
            value_offset := value_offset p + distance\<rparr>))"
      using lt shl_page [OF d19] region_skip_room [OF d19 v] ps
      by (subst skip_to.simps) (simp add: Let_def a(1) distance_def [symmetric] del: of_nat_mult of_nat_power)
    show ?thesis
    proof (cases "room_in voff d \<le> distance")
      case True
      have i0: "i = 0"
      proof (rule ccontr)
        assume "i \<noteq> 0"
        then have "offset < base voff d + room_in voff d" using less.prems(3) by simp
        then show False using True \<open>i \<noteq> 0\<close> a(5) lt by (simp add: distance_def)
      qed
      define p' where "p' = p\<lparr>value_offset := value_offset p + room_in voff d, depth := depth p + 1,
            region_start_page := next_region_start s (region_start_page p), current_page_type := CONTINUATION\<rparr>"
      have le: "base voff (Suc d) \<le> offset" using True a(5) lt i0 by (simp add: distance_def)
      then have d': "Suc d < length rs" using off depth_below [of voff "Suc d" "length rs"] by linarith
      have ro0: "region_offset p = 0" using a(6) i0 byte_in_region(3) [OF a(4) v] by simp
      have "at_byte voff rs p' (Suc d) 0"
        unfolding at_byte_def
      proof (intro conjI)
        show "region_start_page p' = rs ! Suc d" using a(3) regionsD(5) [OF rs a(2)] d' by (simp add: p'_def)
        show "0 < room_in voff (Suc d)" by (rule room_in_pos(1) [OF v])
        show "value_offset p' = base voff (Suc d) + 0" using a(5) i0 by (simp add: p'_def)
        show "region_offset p' = (header voff (Suc d) + 0) div PAGE_SIZE" using ro0 by (simp add: p'_def header_def)
      qed (use a(1) d' ro0 less.prems(2) in \<open>simp_all add: p'_def header_def\<close>)
      moreover have "offset - value_offset p' < offset - value_offset p" "value_offset p' \<le> offset" "page_offset p' = 0"
        using True lt room_in_pos(1) [OF v, of d] less.prems(2) by (auto simp: p'_def distance_def)
      ultimately have "\<exists>q d' i'. skip_to s voff offset p' = Inr q \<and> at_byte voff rs q d' i' \<and> value_offset q = offset"
        using less.hyps [of p' "Suc d" 0] by blast
      then show ?thesis using un True by (simp add: p'_def)
    next
      case False
      then have inside: "offset < base voff d + room_in voff d"
        using a(5) lt less.prems(3) by (cases "i = 0") (simp_all add: distance_def)
      show ?thesis
      proof (cases "PAGE_SIZE - b \<le> distance")
        case True
        define p' where "p' = p\<lparr>value_offset := value_offset p + (PAGE_SIZE - b),
            region_offset := region_offset p + 1, current_page_type := PURE\<rparr>"
        define i' where "i' = i + (PAGE_SIZE - b)"
        have "header voff d + i' = (ro + 1) * PAGE_SIZE" using hb by (simp add: i'_def)
        then have hi: "(header voff d + i') div PAGE_SIZE = ro + 1" "(header voff d + i') mod PAGE_SIZE = 0"
          by (simp_all only: nonzero_mult_div_cancel_right mod_mult_self2_is_0) simp_all
        have "i' < room_in voff d" using True inside a(5) lt by (simp add: distance_def i'_def)
        then have "at_byte voff rs p' d i'"
          unfolding at_byte_def hi using a(1,2,3,5) roe less.prems(2) less_imp_le [OF hb(2)]
          by (simp add: p'_def i'_def)
        moreover have "offset - value_offset p' < offset - value_offset p" "value_offset p' \<le> offset" "page_offset p' = 0"
          using True lt hb(2) less.prems(2) by (auto simp: p'_def distance_def)
        ultimately have "\<exists>q d' i'. skip_to s voff offset p' = Inr q \<and> at_byte voff rs q d' i' \<and> value_offset q = offset"
          using less.hyps [of p' d i'] inside by simp
        then show ?thesis using un False True by (simp add: p'_def)
      next
        case nskip: False
        define p' where "p' = p\<lparr>page_offset := page_offset p + distance, value_offset := value_offset p + distance\<rparr>"
        have vo: "value_offset p' = offset" using lt by (simp add: p'_def distance_def)
        have bd: "b + distance < PAGE_SIZE" using nskip by simp
        have e: "header voff d + (i + distance) = ro * PAGE_SIZE + (b + distance)" using hb(1) by simp
        have hi: "(header voff d + (i + distance)) div PAGE_SIZE = ro" "(header voff d + (i + distance)) mod PAGE_SIZE = b + distance"
          unfolding e using bd by simp_all
        have "i + distance < room_in voff d" using inside a(5) lt by (simp add: distance_def)
        then have "at_byte voff rs p' d (i + distance)"
          unfolding at_byte_def hi using a(1,2,3,5,8) roe so less.prems(2)
          by (simp add: p'_def)
        moreover have "skip_to s voff offset p' = Inr p'" using vo by (simp add: skip_to.simps [of s voff offset p'])
        ultimately show ?thesis using un False nskip vo by (auto simp: p'_def)
      qed
    qed
  qed
qed

text \<open>The page and the bytes of one step of the second loop, and the position after it.\<close>

definition value_byte :: "pages \<Rightarrow> nat \<Rightarrow> nat list \<Rightarrow> nat \<Rightarrow> byte" where
  "value_byte s voff rs j = (case addr voff rs j of Some (f, b) \<Rightarrow> s f b | None \<Rightarrow> 0)"

definition written :: "nat \<Rightarrow> nat list \<Rightarrow> nat \<Rightarrow> byte list \<Rightarrow> pages \<Rightarrow> pages \<Rightarrow> bool" where
  "written voff rs lo bs s s' \<longleftrightarrow>
     (\<forall>k<length bs. \<forall>f b. addr voff rs (lo + k) = Some (f, b) \<longrightarrow> s' f b = bs ! k) \<and>
     (\<forall>f b. (\<forall>k<length bs. addr voff rs (lo + k) \<noteq> Some (f, b)) \<longrightarrow> s' f b = s f b)"

lemma written_append:
  assumes rs: "regions s0 rs" and v: "DATA + voff < PAGE_SIZE"
    and b: "lo + length (xs @ ys) \<le> base voff (length rs)"
    and w: "written voff rs lo xs s s1" "written voff rs (lo + length xs) ys s1 s'"
  shows "written voff rs lo (xs @ ys) s s'"
  unfolding written_def
proof (intro conjI allI impI)
  fix k f b assume k: "k < length (xs @ ys)" and a: "addr voff rs (lo + k) = Some (f, b)"
  show "s' f b = (xs @ ys) ! k"
  proof (cases "k < length xs")
    case True
    have "addr voff rs (lo + length xs + m) \<noteq> Some (f, b)" if "m < length ys" for m
    proof
      assume "addr voff rs (lo + length xs + m) = Some (f, b)"
      then have "lo + length xs + m = lo + k" using addr_inj [OF rs v, of "lo + length xs + m" "lo + k"] a that k assms(3) by simp
      then show False using True by simp
    qed
    then have "s' f b = s1 f b" using w(2) by (simp add: written_def)
    then show ?thesis using w(1) True a by (simp add: written_def nth_append)
  next
    case False
    then have m: "lo + length xs + (k - length xs) = lo + k" "k - length xs < length ys" using k by simp_all
    have "s' f b = ys ! (k - length xs)"
      using w(2) m(2) a unfolding written_def by (metis (no_types) m(1))
    then show ?thesis using False by (simp add: nth_append)
  qed
next
  fix f b assume n: "\<forall>k<length (xs @ ys). addr voff rs (lo + k) \<noteq> Some (f, b)"
  have "addr voff rs (lo + length xs + k) \<noteq> Some (f, b)" if "k < length ys" for k
    using n [rule_format, of "length xs + k"] that by (simp add: add.assoc)
  moreover have "addr voff rs (lo + k) \<noteq> Some (f, b)" if "k < length xs" for k using n that by simp
  ultimately show "s' f b = s f b" using w by (simp add: written_def)
qed

lemma step_facts:
  assumes rs: "regions s rs" and v: "DATA + voff < PAGE_SIZE" and at: "at_byte voff rs p d i"
  defines "from \<equiv> start_offset voff (current_page_type p) + page_offset p"
    and "f \<equiv> region_start_page p + region_offset p"
  shows "from < PAGE_SIZE" "size_t (int PAGE_SIZE - int from) = PAGE_SIZE - from" "page_ok f" "shl_int 1 (depth p) = Inr (int (2 ^ d))"
    "k < PAGE_SIZE - from \<Longrightarrow> addr voff rs (value_offset p + k) = Some (f, from + k)"
    "k < PAGE_SIZE - from \<Longrightarrow> value_offset p + k < base voff (length rs)"
    "header voff d \<le> from \<or> (\<forall>e<length rs. f \<noteq> rs ! e)"
proof -
  note a = at_byteD [OF at]
  define b where "b = (header voff d + i) mod PAGE_SIZE"
  define ro where "ro = (header voff d + i) div PAGE_SIZE"
  have hb: "header voff d + i = ro * PAGE_SIZE + b" "b < PAGE_SIZE" by (simp_all add: b_def ro_def)
  have fb: "from = b" using a(7) by (simp add: from_def b_def)
  have ff: "f = rs ! d + ro" using a(3,6) by (simp add: f_def ro_def)
  show "from < PAGE_SIZE" using fb hb(2) by simp
  show "size_t (int PAGE_SIZE - int from) = PAGE_SIZE - from" using fb hb(2) by (intro size_t_diff) simp_all
  have ro: "ro < 2 ^ d" "f \<in> region (rs ! d) d" using byte_in_region(1,2) [OF a(4) v] by (simp_all add: ro_def ff)
  show "page_ok f" using regionsD(4) [OF rs a(2)] ro(1) ff by (simp add: page_ok_def)
  show "shl_int 1 (depth p) = Inr (int (2 ^ d))" unfolding a(1) using a(2) regionsD(2) [OF rs] by (intro shl_one) linarith
  have k: "i + k < room_in voff d \<and> (header voff d + (i + k)) div PAGE_SIZE = ro \<and> (header voff d + (i + k)) mod PAGE_SIZE = b + k"
    if "k < PAGE_SIZE - from" for k
  proof -
    have "b + k < PAGE_SIZE" using that fb by simp
    moreover have e: "header voff d + (i + k) = ro * PAGE_SIZE + (b + k)" using hb by simp
    moreover have "(ro + 1) * PAGE_SIZE \<le> 2 ^ d * PAGE_SIZE" using ro(1) by (intro mult_le_mono1) simp
    ultimately show ?thesis using hb(1) by (auto simp: room_in_def e)
  qed
  show "k < PAGE_SIZE - from \<Longrightarrow> addr voff rs (value_offset p + k) = Some (f, from + k)"
    using k [of k] addr_at [OF a(2), of "i + k" voff] a(5) ff fb by (simp add: add.assoc)
  show "value_offset p + k < base voff (length rs)" if "k < PAGE_SIZE - from"
  proof -
    have "value_offset p + k < base voff (Suc d)" using k [OF that] a(5) by simp
    also have "\<dots> \<le> base voff (length rs)" using a(2) by (intro base_mono) simp
    finally show ?thesis .
  qed
  show "header voff d \<le> from \<or> (\<forall>e<length rs. f \<noteq> rs ! e)"
  proof (cases "ro = 0")
    case True
    then show ?thesis using hb fb by simp
  next
    case False
    have "f \<noteq> rs ! e" if "e < length rs" for e
    proof
      assume "f = rs ! e"
      then have "e = d" using regionsD(6) [OF rs that a(2), of f] ro(2) by simp
      then show False using ff \<open>f = rs ! e\<close> False by simp
    qed
    then show ?thesis by blast
  qed
qed

text \<open>One pass of the second loop, whatever it does to the buffer and the page.\<close>

lemma rw_unfold:
  fixes voff e
  assumes lt: "value_offset p < e"
  defines "from \<equiv> start_offset voff (current_page_type p) + page_offset p"
  assumes ps: "size_t (int PAGE_SIZE - int from) = PAGE_SIZE - from" and sh: "shl_int 1 (depth p) = Inr (int (2 ^ depth p))"
    and body: "rw_page w (region_start_page p + region_offset p) from (min (e - value_offset p) (PAGE_SIZE - from))
      (value_offset p - offset) buffer s = Inr (buffer', s')"
  shows "rw_loop w voff offset e p buffer s =
    (if e - value_offset p \<le> PAGE_SIZE - from then Inr (buffer', s')
     else let p1 = p\<lparr>value_offset := value_offset p + (PAGE_SIZE - from), region_offset := region_offset p + 1,
                current_page_type := PURE, page_offset := 0\<rparr> in
     if region_offset p1 \<noteq> 2 ^ depth p then rw_loop w voff offset e p1 buffer' s'
     else let next_start = next_region_start s' (region_start_page p) in
     if next_start = 0 then Inl (DiskMapException ''Invalid next pointer in big value'')
     else rw_loop w voff offset e (p1\<lparr>depth := depth p + 1, region_start_page := next_start,
        current_page_type := CONTINUATION, region_offset := 0\<rparr>) buffer' s')"
proof -
  have ends: "rw_loop w voff offset e (p\<lparr>value_offset := e\<rparr>) b t = Inr (b, t)" for b t
    by (subst rw_loop.simps) simp
  have eq: "int x \<noteq> int (2 ^ depth p) \<longleftrightarrow> x \<noteq> 2 ^ depth p" for x
    by (simp only: of_nat_eq_iff)
  have "\<not> e \<le> value_offset p" using lt by simp
  note unf = rw_loop.simps [of w voff offset e p buffer s, unfolded Let_def, folded from_def, unfolded ps body sh bindR_simps prod.case if_not_P [OF this]]
  show ?thesis
  proof (cases "e - value_offset p \<le> PAGE_SIZE - from")
    case True
    then have "value_offset p + min (e - value_offset p) (PAGE_SIZE - from) = e" using lt by simp
    then show ?thesis using True unf ends by (simp only: if_True)
  next
    case False
    then have m: "min (e - value_offset p) (PAGE_SIZE - from) = PAGE_SIZE - from" by simp
    show ?thesis unfolding unf m Let_def using False by (simp add: eq del: of_nat_power of_nat_add)
  qed
qed

text \<open>\<dots> takes the position to the next page.\<close>

lemma rw_step:
  fixes voff e
  assumes rs: "regions s rs" and v: "DATA + voff < PAGE_SIZE" and at: "at_byte voff rs p d i" and lt: "value_offset p < e"
    and rs': "regions s' rs"
  defines "from \<equiv> start_offset voff (current_page_type p) + page_offset p"
  assumes body: "rw_page w (region_start_page p + region_offset p) from (min (e - value_offset p) (PAGE_SIZE - from))
      (value_offset p - offset) buffer s = Inr (buffer', s')"
  shows "e - value_offset p \<le> PAGE_SIZE - from \<Longrightarrow> rw_loop w voff offset e p buffer s = Inr (buffer', s')"
    "PAGE_SIZE - from < e - value_offset p \<Longrightarrow> e \<le> base voff (length rs) \<Longrightarrow>
      \<exists>p' d' i'. at_byte voff rs p' d' i' \<and> value_offset p' = value_offset p + (PAGE_SIZE - from) \<and>
        rw_loop w voff offset e p buffer s = rw_loop w voff offset e p' buffer' s'"
proof -
  note a = at_byteD [OF at]
  note f = step_facts [OF rs v at, folded from_def]
  have unf: "rw_loop w voff offset e p buffer s =
    (if e - value_offset p \<le> PAGE_SIZE - from then Inr (buffer', s')
     else let p1 = p\<lparr>value_offset := value_offset p + (PAGE_SIZE - from), region_offset := region_offset p + 1,
                current_page_type := PURE, page_offset := 0\<rparr> in
     if region_offset p1 \<noteq> 2 ^ depth p then rw_loop w voff offset e p1 buffer' s'
     else let next_start = next_region_start s' (region_start_page p) in
     if next_start = 0 then Inl (DiskMapException ''Invalid next pointer in big value'')
     else rw_loop w voff offset e (p1\<lparr>depth := depth p + 1, region_start_page := next_start,
        current_page_type := CONTINUATION, region_offset := 0\<rparr>) buffer' s')"
    unfolding from_def
    by (rule rw_unfold [OF lt]) (use f(2,4) body in \<open>simp_all only: from_def [symmetric] a(1)\<close>)
  show "e - value_offset p \<le> PAGE_SIZE - from \<Longrightarrow> rw_loop w voff offset e p buffer s = Inr (buffer', s')"
    using unf by (simp only: if_True)
  assume more: "PAGE_SIZE - from < e - value_offset p" and e: "e \<le> base voff (length rs)"
  define b where "b = (header voff d + i) mod PAGE_SIZE"
  define ro where "ro = (header voff d + i) div PAGE_SIZE"
  have hb: "header voff d + i = ro * PAGE_SIZE + b" "b < PAGE_SIZE" by (simp_all add: b_def ro_def)
  have fb: "from = b" using a(7) by (simp add: from_def b_def)
  have roe: "region_offset p = ro" using a(6) by (simp only: ro_def)
  define p1 where "p1 = p\<lparr>value_offset := value_offset p + (PAGE_SIZE - from), region_offset := region_offset p + 1,
    current_page_type := PURE, page_offset := 0\<rparr>"
  define i' where "i' = i + (PAGE_SIZE - b)"
  have hi: "header voff d + i' = (ro + 1) * PAGE_SIZE" using hb by (simp add: i'_def)
  have ro: "ro < 2 ^ d" using byte_in_region(1) [OF a(4) v] by (simp add: ro_def)
  have not_last: "\<not> e - value_offset p \<le> PAGE_SIZE - from" using more by simp
  show "\<exists>p' d' i'. at_byte voff rs p' d' i' \<and> value_offset p' = value_offset p + (PAGE_SIZE - from) \<and>
      rw_loop w voff offset e p buffer s = rw_loop w voff offset e p' buffer' s'"
  proof (cases "ro + 1 = 2 ^ d")
    case False
    then have "(ro + 2) * PAGE_SIZE \<le> 2 ^ d * PAGE_SIZE" using ro by (intro mult_le_mono1) simp
    then have "i' < room_in voff d" using hi by (simp add: room_in_def)
    moreover have "(header voff d + i') div PAGE_SIZE = ro + 1" "(header voff d + i') mod PAGE_SIZE = 0"
      by (simp_all only: hi nonzero_mult_div_cancel_right mod_mult_self2_is_0) simp_all
    ultimately have "at_byte voff rs p1 d i'"
      unfolding at_byte_def using a(1,2,3,5) roe fb less_imp_le [OF hb(2)] by (simp add: p1_def i'_def)
    moreover have "rw_loop w voff offset e p buffer s = rw_loop w voff offset e p1 buffer' s'"
      using unf not_last False roe a(1) by (simp add: p1_def)
    ultimately show ?thesis by (intro exI [of _ p1]) (auto simp: p1_def)
  next
    case True
    then have i': "i' = room_in voff d" using hi by (simp add: room_in_def)
    then have vo: "value_offset p + (PAGE_SIZE - from) = base voff (Suc d)" using a(5) fb less_imp_le [OF hb(2)] by (simp add: i'_def)
    then have d': "Suc d < length rs" using more e depth_below [of voff "Suc d" "length rs"] by linarith
    have next_is: "next_region_start s' (region_start_page p) = rs ! Suc d" using regionsD(5) [OF rs' a(2)] a(3) d' by simp
    define p2 where "p2 = p1\<lparr>depth := depth p + 1, region_start_page := rs ! Suc d,
        current_page_type := CONTINUATION, region_offset := 0\<rparr>"
    have "at_byte voff rs p2 (Suc d) 0"
      unfolding at_byte_def
    proof (intro conjI)
      show "0 < room_in voff (Suc d)" by (rule room_in_pos(1) [OF v])
      show "value_offset p2 = base voff (Suc d) + 0" using vo by (simp add: p2_def p1_def)
    qed (use a(1) d' in \<open>simp_all add: p2_def p1_def header_def\<close>)
    moreover have "rw_loop w voff offset e p buffer s = rw_loop w voff offset e p2 buffer' s'"
      using unf not_last True roe a(1) next_is regionsD(3) [OF rs' d'] by (simp add: p2_def p1_def)
    ultimately show ?thesis by (intro exI [of _ p2]) (auto simp: p2_def p1_def)
  qed
qed

text \<open>Reading: the buffer gets the bytes of the range.\<close>

lemma page_bytes:
  assumes rs: "regions s rs" and v: "DATA + voff < PAGE_SIZE" and at: "at_byte voff rs p d i"
    and len: "n \<le> PAGE_SIZE - (start_offset voff (current_page_type p) + page_offset p)"
  shows "bytes_at (s (region_start_page p + region_offset p)) (start_offset voff (current_page_type p) + page_offset p) n =
    map (value_byte s voff rs) [value_offset p..<value_offset p + n]"
proof (rule nth_equalityI)
  fix k assume "k < length (bytes_at (s (region_start_page p + region_offset p)) (start_offset voff (current_page_type p) + page_offset p) n)"
  then have "k < n" by simp
  then show "bytes_at (s (region_start_page p + region_offset p)) (start_offset voff (current_page_type p) + page_offset p) n ! k =
      map (value_byte s voff rs) [value_offset p..<value_offset p + n] ! k"
    using step_facts(5) [OF rs v at, of k] len by (simp add: value_byte_def)
qed simp

lemma rw_read:
  assumes rs: "regions s rs" and v: "DATA + voff < PAGE_SIZE" and e: "e \<le> base voff (length rs)"
  shows "at_byte voff rs p d i \<Longrightarrow> offset \<le> value_offset p \<Longrightarrow> value_offset p < e \<Longrightarrow> offset + length buffer = e \<Longrightarrow>
    rw_loop False voff offset e p buffer s =
      Inr (take (value_offset p - offset) buffer @ map (value_byte s voff rs) [value_offset p..<e], s)"
proof (induction "e - value_offset p" arbitrary: p d i buffer rule: less_induct)
  case less
  define f where "f = region_start_page p + region_offset p"
  define b where "b = start_offset voff (current_page_type p) + page_offset p"
  define n where "n = min (e - value_offset p) (PAGE_SIZE - b)"
  define buffer' where "buffer' = take (value_offset p - offset) buffer @ map (value_byte s voff rs) [value_offset p..<value_offset p + n]
    @ drop (value_offset p - offset + n) buffer"
  have b: "b < PAGE_SIZE" using step_facts(1) [OF rs v less.prems(1)] by (simp add: b_def)
  have n: "n \<le> PAGE_SIZE - b" "value_offset p + n \<le> e" using less.prems(3) by (simp_all add: n_def)
  have bytes: "bytes_at (s f) b n = map (value_byte s voff rs) [value_offset p..<value_offset p + n]"
    using page_bytes [OF rs v less.prems(1), of n] n(1) by (simp add: f_def b_def)
  have len: "value_offset p - offset + n \<le> length buffer" using n(2) less.prems(2,4) by linarith
  have body: "rw_page False f b n (value_offset p - offset) buffer s = Inr (buffer', s)"
    unfolding rw_page_def bytes using b n(1) len by (simp add: copy_into_def buffer'_def)
  note step = rw_step [OF rs v less.prems(1) less.prems(3) rs, of False offset buffer buffer', folded b_def f_def n_def, OF body]
  show ?case
  proof (cases "e - value_offset p \<le> PAGE_SIZE - b")
    case True
    then have "n = e - value_offset p" by (simp add: n_def)
    then show ?thesis using step(1) [OF True] less.prems(2-4) by (simp add: buffer'_def)
  next
    case False
    then have np: "n = PAGE_SIZE - b" by (simp add: n_def)
    obtain p' d' i' where p': "at_byte voff rs p' d' i'" "value_offset p' = value_offset p + (PAGE_SIZE - b)"
      "rw_loop False voff offset e p buffer s = rw_loop False voff offset e p' buffer' s"
      using step(2) [OF _ e] False by (auto simp: not_le)
    have lt': "value_offset p' < e" using False p'(2) by simp
    have vo': "value_offset p' - offset = (value_offset p - offset) + n" using p'(2) np less.prems(2) by simp
    have "length buffer' = length buffer" using len by (simp add: buffer'_def)
    then have "rw_loop False voff offset e p' buffer' s =
        Inr (take (value_offset p' - offset) buffer' @ map (value_byte s voff rs) [value_offset p'..<e], s)"
      using less.hyps [OF _ p'(1), of buffer'] p'(2) less.prems(2-4) lt' b by simp
    moreover have "take (value_offset p' - offset) buffer' = take (value_offset p - offset) buffer @
        map (value_byte s voff rs) [value_offset p..<value_offset p + n]"
      unfolding vo' using len by (simp add: buffer'_def)
    moreover have "[value_offset p..<e] = [value_offset p..<value_offset p + n] @ [value_offset p + n..<e]"
      using upt_add_eq_append [of "value_offset p" "value_offset p + n" "e - (value_offset p + n)"] n(2) by simp
    ultimately show ?thesis using p'(2,3) np by simp
  qed
qed

text \<open>Writing: the bytes of the range get those of the buffer, and nothing else changes.\<close>

lemma regions_blit:
  assumes "regions s rs" "8 \<le> b \<or> (\<forall>e<length rs. f \<noteq> rs ! e)"
  shows "regions (s(f := blit (s f) b bs)) rs"
proof -
  have "next_region_start (s(f := blit (s f) b bs)) (rs ! e) = next_region_start s (rs ! e)" if "e < length rs" for e
    using assms(2) that by (auto simp: next_region_start_def leaf_next_def get_u64_blit(2))
  then show ?thesis using assms(1) unfolding regions_def by simp
qed

lemma written_page:
  assumes "\<And>k. k < length bs \<Longrightarrow> addr voff rs (lo + k) = Some (f, b + k)"
  shows "written voff rs lo bs s (s(f := blit (s f) b bs))"
  unfolding written_def
proof (intro conjI allI impI)
  fix k g c assume "k < length bs" "addr voff rs (lo + k) = Some (g, c)"
  then show "(s(f := blit (s f) b bs)) g c = bs ! k" using assms [of k] by (auto simp: blit_def)
next
  fix g c assume n: "\<forall>k<length bs. addr voff rs (lo + k) \<noteq> Some (g, c)"
  show "(s(f := blit (s f) b bs)) g c = s g c"
  proof (cases "g = f \<and> b \<le> c \<and> c < b + length bs")
    case True
    then have k: "c - b < length bs" "b + (c - b) = c" by auto
    have "addr voff rs (lo + (c - b)) = Some (g, c)" using assms [OF k(1)] k(2) True by simp
    then have False using n k(1) by blast
    then show ?thesis ..
  qed (auto simp: blit_def)
qed

lemma rw_write:
  assumes v: "DATA + voff < PAGE_SIZE" and e: "e \<le> base voff (length rs)" and len: "offset + length buffer = e"
  shows "regions s rs \<Longrightarrow> at_byte voff rs p d i \<Longrightarrow> offset \<le> value_offset p \<Longrightarrow> value_offset p < e \<Longrightarrow>
    \<exists>s'. rw_loop True voff offset e p buffer s = Inr (buffer, s') \<and> regions s' rs \<and>
      written voff rs (value_offset p) (drop (value_offset p - offset) buffer) s s'"
proof (induction "e - value_offset p" arbitrary: p d i s rule: less_induct)
  case less
  note rs = less.prems(1)
  define f where "f = region_start_page p + region_offset p"
  define b where "b = start_offset voff (current_page_type p) + page_offset p"
  define n where "n = min (e - value_offset p) (PAGE_SIZE - b)"
  define bs where "bs = take n (drop (value_offset p - offset) buffer)"
  define s1 where "s1 = s(f := blit (s f) b bs)"
  note facts = step_facts [OF rs v less.prems(2), folded b_def f_def]
  have n: "n \<le> PAGE_SIZE - b" "value_offset p + n \<le> e" using less.prems(4) by (simp_all add: n_def)
  have lbs: "length bs = n" using n(2) less.prems(3) len by (simp add: bs_def)
  have rs1: "regions s1 rs"
    unfolding s1_def using regions_blit [OF rs, of b f bs] facts(7) by (auto simp: header_def DATA_def split: if_splits)
  have w1: "written voff rs (value_offset p) bs s s1"
    unfolding s1_def by (rule written_page) (use facts(5) n(1) lbs in simp)
  have "put_bytes f b bs s = Inr s1"
    unfolding s1_def by (rule put_bytes_ok) (use facts(1,3) n(1) lbs in simp_all)
  then have body: "rw_page True f b n (value_offset p - offset) buffer s = Inr (buffer, s1)"
    using n(2) less.prems(3) len by (simp add: rw_page_def bs_def [symmetric])
  note step = rw_step [OF rs v less.prems(2) less.prems(4) rs1, of True offset buffer buffer, folded b_def f_def n_def, OF body]
  show ?case
  proof (cases "e - value_offset p \<le> PAGE_SIZE - b")
    case True
    then have "n = e - value_offset p" by (simp add: n_def)
    then have "bs = drop (value_offset p - offset) buffer" using less.prems(3,4) len by (simp add: bs_def)
    then show ?thesis using step(1) [OF True] rs1 w1 by simp
  next
    case False
    then have np: "n = PAGE_SIZE - b" by (simp add: n_def)
    obtain p' d' i' where p': "at_byte voff rs p' d' i'" "value_offset p' = value_offset p + (PAGE_SIZE - b)"
      "rw_loop True voff offset e p buffer s = rw_loop True voff offset e p' buffer s1"
      using step(2) [OF _ e] False by (auto simp: not_le)
    have lt': "value_offset p' < e" using False p'(2) by simp
    have vo': "value_offset p' - offset = n + (value_offset p - offset)" using p'(2) np less.prems(3) by simp
    have "e - value_offset p' < e - value_offset p" "offset \<le> value_offset p'"
      using p'(2) less.prems(3,4) facts(1) by simp_all
    then obtain s' where s': "rw_loop True voff offset e p' buffer s1 = Inr (buffer, s')" "regions s' rs"
      "written voff rs (value_offset p') (drop (value_offset p' - offset) buffer) s1 s'"
      using less.hyps [OF _ rs1 p'(1) _ lt'] by blast
    have split: "drop (value_offset p - offset) buffer = bs @ drop (value_offset p' - offset) buffer"
      unfolding vo' bs_def by (metis append_take_drop_id drop_drop)
    have "written voff rs (value_offset p) (bs @ drop (value_offset p' - offset) buffer) s s'"
    proof (rule written_append [OF rs v _ w1])
      show "value_offset p + length (bs @ drop (value_offset p' - offset) buffer) \<le> base voff (length rs)"
        unfolding split [symmetric] using e len less.prems(3,4) by simp
      show "written voff rs (value_offset p + length bs) (drop (value_offset p' - offset) buffer) s1 s'"
        using s'(3) p'(2) np lbs by simp
    qed
    then show ?thesis using s'(1,2) p'(3) split by auto
  qed
qed

section \<open>Reading and writing within the regions there are\<close>

lemma start_at_byte:
  assumes "regions s rs" "DATA + voff < PAGE_SIZE"
  shows "at_byte voff rs (big_start (rs ! 0)) 0 0"
proof -
  have "0 < length rs" using regionsD(1) [OF assms(1)] by simp
  moreover have "header voff 0 div PAGE_SIZE = 0" using assms(2) by (simp add: header_def)
  ultimately show ?thesis using room_in_pos(1) [OF assms(2), of 0] assms(2) by (simp add: at_byte_def big_start_def header_def)
qed

lemma capacity_bound: "base voff n \<le> 2 ^ n * PAGE_SIZE"
proof (induction n)
  case (Suc n)
  have "room_in voff n \<le> 2 ^ n * PAGE_SIZE" by (simp add: room_in_def)
  then show ?case using Suc by simp
qed simp

lemma rw_setup:
  assumes rs: "regions s rs" and v: "DATA + voff < PAGE_SIZE" and e: "offset + n \<le> base voff (length rs)" and n: "0 < n"
  shows "\<exists>p d i. skip_to s voff offset (big_start (rs ! 0)) = Inr p \<and> at_byte voff rs p d i \<and> value_offset p = offset"
    "(offset + n) mod 2 ^ 64 = offset + n"
proof -
  show "\<exists>p d i. skip_to s voff offset (big_start (rs ! 0)) = Inr p \<and> at_byte voff rs p d i \<and> value_offset p = offset"
    by (rule skip_to_ok [OF rs v _ start_at_byte [OF rs v]]) (use e n in \<open>simp_all add: big_start_def\<close>)
  have "(2::nat) ^ length rs \<le> 2 ^ 19" using regionsD(2) [OF rs] by (intro power_increasing) simp_all
  then have "offset + n < 2 ^ 64" using e capacity_bound [of voff "length rs"] by simp
  then show "(offset + n) mod 2 ^ 64 = offset + n" by simp
qed

lemma skip_nothing: "skip_to s voff 0 p = Inr p"
  by (simp add: skip_to.simps)

lemma read_in_regions:
  assumes rs: "regions s rs" and v: "DATA + voff < PAGE_SIZE" and e: "offset + n \<le> base voff (length rs)" and n: "0 < n"
  shows "BigValue_read (rs ! 0) voff offset n s = Inr (map (value_byte s voff rs) [offset..<offset + n])"
proof -
  obtain p d i where p: "skip_to s voff offset (big_start (rs ! 0)) = Inr p" "at_byte voff rs p d i" "value_offset p = offset"
    using rw_setup(1) [OF rs v e n] by blast
  have "rw_loop False voff offset (offset + n) p (zeros n) s = Inr (map (value_byte s voff rs) [offset..<offset + n], s)"
    using rw_read [OF rs v e p(2), of offset "zeros n"] p(3) n by simp
  then show ?thesis using p(1) rw_setup(2) [OF rs v e n] by (simp add: BigValue_read_def rw_impl_def)
qed

lemma write_in_regions:
  assumes rs: "regions s rs" and v: "DATA + voff < PAGE_SIZE" and e: "offset + length bs \<le> base voff (length rs)" and n: "bs \<noteq> []"
  shows "\<exists>s'. rw_impl (rs ! 0) voff offset bs True s = Inr (bs, s') \<and> regions s' rs \<and> written voff rs offset bs s s'"
proof -
  have n: "0 < length bs" using n by simp
  obtain p d i where p: "skip_to s voff offset (big_start (rs ! 0)) = Inr p" "at_byte voff rs p d i" "value_offset p = offset"
    using rw_setup(1) [OF rs v e n] by blast
  obtain s' where "rw_loop True voff offset (offset + length bs) p bs s = Inr (bs, s')" "regions s' rs" "written voff rs offset bs s s'"
    using rw_write [OF v e refl rs p(2)] p(3) n by auto
  then show ?thesis using p(1) rw_setup(2) [OF rs v e n] by (auto simp: rw_impl_def)
qed

text \<open>What was written is what is read; the bytes of the value outside the range stay.\<close>

lemma written_value:
  assumes rs: "regions s rs" and v: "DATA + voff < PAGE_SIZE" and e: "lo + length bs \<le> base voff (length rs)"
    and w: "written voff rs lo bs s s'" and j: "j < base voff (length rs)"
  shows "value_byte s' voff rs j = (if lo \<le> j \<and> j < lo + length bs then bs ! (j - lo) else value_byte s voff rs j)"
proof -
  obtain d i where d: "d < length rs" "i < room_in voff d" "j = base voff d + i" using region_of_byte [OF j] by blast
  obtain f b where a: "addr voff rs j = Some (f, b)" using addr_at [OF d(1,2)] d(3) by simp
  show ?thesis
  proof (cases "lo \<le> j \<and> j < lo + length bs")
    case True
    then have "j - lo < length bs" "lo + (j - lo) = j" by auto
    then have "s' f b = bs ! (j - lo)" using w a unfolding written_def by (metis (no_types))
    then show ?thesis using True a by (simp add: value_byte_def)
  next
    case False
    have "addr voff rs (lo + k) \<noteq> Some (f, b)" if "k < length bs" for k
    proof
      assume "addr voff rs (lo + k) = Some (f, b)"
      then have "lo + k = j" using addr_inj [OF rs v _ j, of "lo + k"] a e that by simp
      then show False using False that by auto
    qed
    then have "s' f b = s f b" using w by (simp add: written_def)
    moreover have "value_byte s' voff rs j = s' f b" "value_byte s voff rs j = s f b" using a by (simp_all add: value_byte_def)
    ultimately show ?thesis using False by auto
  qed
qed

section \<open>How many regions\<close>

lemma base_Suc_offset: "DATA + voff < PAGE_SIZE \<Longrightarrow> base voff (Suc n) = base 0 (Suc n) - voff \<and> voff \<le> base 0 (Suc n)"
proof (induction n)
  case (Suc n)
  have "room_in voff (Suc n) = room_in 0 (Suc n)" by (simp add: room_in_def header_def)
  then show ?case using Suc by (simp add: add.assoc)
qed (simp add: room_in_def header_def)

lemma regions_needed_ok:
  "esize \<le> base 0 19 \<Longrightarrow> r \<le> 18 \<Longrightarrow>
   \<exists>n\<le>18. r \<le> n \<and> regions_needed esize (base 0 (Suc r)) r = Inr n \<and> esize \<le> base 0 (Suc n) \<and> (r < n \<longrightarrow> base 0 n < esize)"
proof (induction "18 - r" arbitrary: r rule: less_induct)
  case less
  show ?case
  proof (cases "esize \<le> base 0 (Suc r)")
    case True
    then show ?thesis using less.prems(2) by (intro exI [of _ r]) (simp add: regions_needed.simps [of esize _ r])
  next
    case False
    then have r: "r < 18" using less.prems by (cases "r = 18") (simp_all del: base_simps)
    have p: "(2::nat) ^ Suc r \<le> 2 ^ 18" using r by (intro power_increasing) simp_all
    have pos: "8 \<le> 2 ^ Suc r * PAGE_SIZE" using mult_le_mono1 [of 1 "2 ^ Suc r" PAGE_SIZE] by simp
    have "size_t (int (2 ^ Suc r) * int PAGE_SIZE - 8) = size_t (int (2 ^ Suc r * PAGE_SIZE) - int 8)" by simp
    also have "\<dots> = 2 ^ Suc r * PAGE_SIZE - 8" using p pos by (intro size_t_diff) simp_all
    finally have st: "size_t (int (2 ^ Suc r) * int PAGE_SIZE - 8) = room_in 0 (Suc r)" by (simp add: room_in_def header_def)
    have "base 0 (Suc (Suc r)) \<le> 2 ^ Suc (Suc r) * PAGE_SIZE" by (rule capacity_bound)
    also have "\<dots> < 2 ^ 64" using p by simp
    finally have "(base 0 (Suc r) + room_in 0 (Suc r)) mod 2 ^ 64 = base 0 (Suc (Suc r))" by simp
    then have un: "regions_needed esize (base 0 (Suc r)) r = regions_needed esize (base 0 (Suc (Suc r))) (Suc r)"
      using False shl_one [of "Suc r"] r st by (subst regions_needed.simps) (simp del: base_simps)
    have "\<exists>n\<le>18. Suc r \<le> n \<and> regions_needed esize (base 0 (Suc (Suc r))) (Suc r) = Inr n \<and>
        esize \<le> base 0 (Suc n) \<and> (Suc r < n \<longrightarrow> base 0 n < esize)"
      by (rule less.hyps) (use less.prems(1) r in linarith)+
    then obtain n where "n \<le> 18" "Suc r \<le> n" "regions_needed esize (base 0 (Suc (Suc r))) (Suc r) = Inr n"
      "esize \<le> base 0 (Suc n)" "Suc r < n \<longrightarrow> base 0 n < esize"
      by blast
    moreover have "base 0 n < esize" if "n = Suc r" using False that by simp
    ultimately show ?thesis using un by (intro exI [of _ n]) auto
  qed
qed

lemma required_ok:
  assumes "esize \<le> base 0 19"
  obtains n where "n \<le> 18" "required_continuation_regions esize = Inr n" "esize \<le> base 0 (Suc n)"
    "\<And>m. m < n \<Longrightarrow> base 0 (Suc m) < esize"
proof -
  have c: "base 0 (Suc 0) = leaf_capacity" by (simp add: room_in_def header_def leaf_capacity_def)
  obtain n where n: "n \<le> 18" "regions_needed esize (base 0 (Suc 0)) 0 = Inr n" "esize \<le> base 0 (Suc n)" "0 < n \<longrightarrow> base 0 n < esize"
    using regions_needed_ok [OF assms, of 0] by auto
  have "base 0 (Suc m) < esize" if "m < n" for m
    using n(4) that base_mono [of "Suc m" n 0] by auto
  then show thesis using that n(1-3) unfolding required_continuation_regions_def c by blast
qed

section \<open>Adding regions\<close>

definition value_regions :: "nat list \<Rightarrow> (nat \<times> nat) set" where
  "value_regions rs = (\<lambda>d. (rs ! d, d)) ` {..<length rs}"

lemma value_regionsI: "d < length rs \<Longrightarrow> (rs ! d, d) \<in> value_regions rs"
  by (auto simp: value_regions_def)

lemma value_regions_snoc: "value_regions (rs @ [x]) = insert (x, length rs) (value_regions rs)"
  by (simp add: value_regions_def lessThan_Suc nth_append cong: image_cong_simp)

lemma value_regions_append: "value_regions rs \<subseteq> value_regions (rs @ zs)"
  by (auto simp: value_regions_def nth_append image_iff)

definition linked :: "pages \<Rightarrow> nat list \<Rightarrow> bool" where
  "linked s rs \<longleftrightarrow> (\<forall>d<length rs. next_region_start s (rs ! d) = (if Suc d < length rs then rs ! Suc d else 0))"

lemma regions_of_space:
  assumes ok: "space_ok s A" and sub: "value_regions rs \<subseteq> A" and l: "linked s rs" "rs \<noteq> []" "length rs \<le> 19"
  shows "regions s rs"
proof -
  have A: "(rs ! d, d) \<in> A" if "d < length rs" for d using value_regionsI [OF that] sub by blast
  have "rs ! d \<noteq> 0 \<and> rs ! d + 2 ^ d \<le> 2 ^ 52" if "d < length rs" for d
  proof -
    have pos: "(0::nat) < 2 ^ d" by simp
    then have "rs ! d + (2 ^ d - 1) \<in> region (rs ! d) d" unfolding region_def atLeastLessThan_iff by linarith
    then have "page_ok (rs ! d + (2 ^ d - 1))" "rs ! d \<noteq> 0"
      using space_okD(1) [OF ok A [OF that]] space_okD(2) [OF ok A [OF that]] by auto
    then show ?thesis using pos by (simp add: page_ok_def)
  qed
  moreover have "region (rs ! d) d \<inter> region (rs ! e) e = {}" if "d < length rs" "e < length rs" "d \<noteq> e" for d e
    using space_okD(4) [OF ok A [OF that(1)] A [OF that(2)]] that(3) by blast
  ultimately show ?thesis using l unfolding regions_def linked_def by blast
qed

lemma regions_linked: "regions s rs \<Longrightarrow> linked s rs"
  by (simp add: regions_def linked_def)

text \<open>The pages of the regions in \<open>A\<close>, the root page and the count stay, but for the bytes with the
  number of the next region.\<close>

definition kept_but_links :: "nat list \<Rightarrow> (nat \<times> nat) set \<Rightarrow> pages \<Rightarrow> pages \<Rightarrow> bool" where
  "kept_but_links rs A s s' \<longleftrightarrow> s' 1 = s 1 \<and> kv_entry_count s' = kv_entry_count s \<and>
     (\<forall>(x, k)\<in>A. \<forall>p\<in>region x k. \<forall>b. 8 \<le> b \<or> p \<notin> set rs \<longrightarrow> s' p b = s p b)"

lemma kept_but_linksD:
  assumes "kept_but_links rs A s s'"
  shows "s' 1 = s 1" "kv_entry_count s' = kv_entry_count s"
    "(x, k) \<in> A \<Longrightarrow> p \<in> region x k \<Longrightarrow> 8 \<le> b \<or> p \<notin> set rs \<Longrightarrow> s' p b = s p b"
  using assms unfolding kept_but_links_def by blast+

lemma kept_but_links_refl [simp]: "kept_but_links rs A s s"
  by (auto simp: kept_but_links_def)

lemma extend_one:
  assumes rs: "regions s rs" and ok: "space_ok s A" and sub: "value_regions rs \<subseteq> A" and len: "length rs < 19"
    and room: "next_free_page s + 2 ^ length rs \<le> 2 ^ 52"
  obtains x s1 s' where "SpaceManager_allocate (length rs) s = Inr (x, s1)" "put_leaf_next (last rs) x s1 = Inr s'"
    "regions s' (rs @ [x])" "space_ok s' (insert (x, length rs) A)" "kept_but_links rs A s s'" "(x, length rs) \<notin> A"
    "next_free_page s' \<le> next_free_page s + 2 ^ length rs"
proof -
  define m where "m = length rs - 1"
  have m: "m < length rs" "Suc m = length rs" "last rs = rs ! m" using regionsD(1) [OF rs] by (auto simp: m_def last_conv_nth)
  obtain x s1 where x: "SpaceManager_allocate (length rs) s = Inr (x, s1)" "allocated (length rs) A s x s1"
    by (rule allocate_ok [OF ok _ room]) (use len in simp_all)
  have ok1: "space_ok s1 (insert (x, length rs) A)" and new: "(x, length rs) \<notin> A" and k: "kept A s s1"
    and z: "\<And>p. p \<in> region x (length rs) \<Longrightarrow> is_zero (s1 p)" and nf: "next_free_page s1 \<le> next_free_page s + 2 ^ length rs"
    using x(2) by (simp_all add: allocated_def)
  have A: "(rs ! d, d) \<in> A" if "d < length rs" for d using value_regionsI [OF that] sub by blast
  have same: "s1 (rs ! d) = s (rs ! d)" if "d < length rs" for d
    using k A [OF that] region_start [of "rs ! d" d] unfolding kept_def by blast
  define s' where "s' = s1(last rs := blit (s1 (last rs)) 0 (le_bytes 8 x))"
  have lp: "page_ok (last rs)" "last rs \<noteq> 0" "last rs \<noteq> 1"
    using space_okD(1) [OF ok A [OF m(1)] region_start] m(3) by simp_all
  have run: "put_leaf_next (last rs) x s1 = Inr s'"
    unfolding put_leaf_next_def s'_def by (rule put_u64_ok) (use lp in simp_all)
  have ok': "space_ok s' (insert (x, length rs) A)"
    unfolding s'_def by (rule space_ok_write [OF ok1]) (use A [OF m(1)] m(3) region_start in \<open>intro disjI2 bexI [of _ "(rs ! m, m)"], simp_all\<close>)
  have xb: "x < 2 ^ 64" "x \<noteq> last rs"
  proof -
    show "x < 2 ^ 64" using space_okD(1) [OF ok1, of x "length rs" x] by (simp add: page_ok_def)
    have "region x (length rs) \<inter> region (rs ! m) m = {}"
      by (rule space_okD(4) [OF ok1 insertI1 insertI2 [OF A [OF m(1)]]]) (use m(1) in simp)
    then show "x \<noteq> last rs" using m(3) by (metis disjoint_iff region_start)
  qed
  have "next_region_start s' ((rs @ [x]) ! d) = (if Suc d < length (rs @ [x]) then (rs @ [x]) ! Suc d else 0)"
    if "d < length (rs @ [x])" for d
  proof -
    have "d = length rs \<or> d = m \<or> d < m" using that m(2) by auto
    then show ?thesis
    proof (elim disjE)
      assume "d = length rs"
      then show ?thesis using z [OF region_start] xb(2)
        by (simp add: next_region_start_def leaf_next_def s'_def nth_append is_zero_get)
    next
      assume "d = m"
      then show ?thesis using m xb(1) by (simp add: next_region_start_def leaf_next_def s'_def nth_append get_u64_blit)
    next
      assume 3: "d < m"
      have "rs ! d \<noteq> rs ! m" using regionsD(6) [OF rs, of d m "rs ! d"] 3 m(1) by force
      then show ?thesis using 3 m regionsD(5) [OF rs, of d] same [of d]
        by (simp add: next_region_start_def s'_def nth_append)
    qed
  qed
  then have "linked s' (rs @ [x])" by (simp add: linked_def)
  then have rs': "regions s' (rs @ [x])"
    by (intro regions_of_space [OF ok']) (use sub len in \<open>auto simp: value_regions_snoc\<close>)
  have mem: "last rs \<in> set rs" using regionsD(1) [OF rs] by simp
  have "kept_but_links rs A s s'"
    unfolding kept_but_links_def
  proof (intro conjI ballI allI impI, simp_all only: split_paired_all split_conv)
    show "s' 1 = s 1" using k lp(3) by (simp add: kept_def s'_def)
    show "kv_entry_count s' = kv_entry_count s" using k lp(2) by (simp add: kept_def s'_def kv_entry_count_def)
  qed (use k mem in \<open>auto simp: s'_def kept_def blit_def\<close>)
  moreover have "next_free_page s' \<le> next_free_page s + 2 ^ length rs" using nf lp(2) by (simp add: s'_def next_free_page_def)
  ultimately show thesis using that [OF x(1) run rs' ok' _ new] by blast
qed

lemma kept_but_links_trans:
  assumes k1: "kept_but_links rs A s s1" and k2: "kept_but_links (rs @ [x]) (insert (x, l) A) s1 s2"
    and ok: "space_ok s1 (insert (x, l) A)" and new: "(x, l) \<notin> A"
  shows "kept_but_links rs A s s2"
proof -
  have "s2 p b = s p b" if a: "(y, k) \<in> A" "p \<in> region y k" "8 \<le> b \<or> p \<notin> set rs" for y k p b
  proof -
    have "region x l \<inter> region y k = {}"
      by (rule space_okD(4) [OF ok insertI1 insertI2 [OF a(1)]]) (use a(1) new in blast)
    then have "p \<noteq> x" using a(2) by (metis disjoint_iff region_start)
    then have "s2 p b = s1 p b" using kept_but_linksD(3) [OF k2 insertI2 [OF a(1)] a(2)] a(3) by simp
    then show ?thesis using kept_but_linksD(3) [OF k1 a] by simp
  qed
  moreover have "s2 1 = s 1" "kv_entry_count s2 = kv_entry_count s" using kept_but_linksD(1,2) [OF k1] kept_but_linksD(1,2) [OF k2] by simp_all
  ultimately show ?thesis unfolding kept_but_links_def by blast
qed

definition extended :: "nat list \<Rightarrow> (nat \<times> nat) set \<Rightarrow> pages \<Rightarrow> nat \<Rightarrow> nat list \<Rightarrow> pages \<Rightarrow> bool" where
  "extended rs A s n zs s' \<longleftrightarrow> regions s' (rs @ zs) \<and> space_ok s' (A \<union> value_regions (rs @ zs)) \<and> kept_but_links rs A s s' \<and>
     value_regions (rs @ zs) \<inter> A = value_regions rs \<and>
     length (rs @ zs) = max (length rs) n \<and> next_free_page s' + 2 ^ length rs \<le> next_free_page s + 2 ^ length (rs @ zs)"

lemma Int_insert_out: "V \<inter> insert q A = insert q R \<Longrightarrow> q \<notin> A \<Longrightarrow> R \<subseteq> A \<Longrightarrow> V \<inter> A = R"
proof -
  assume a: "V \<inter> insert q A = insert q R" "q \<notin> A" "R \<subseteq> A"
  have "V \<inter> A = V \<inter> insert q A - {q}" using a(2) by auto
  also have "\<dots> = R" unfolding a(1) using a(2,3) by auto
  finally show ?thesis .
qed

lemma extend_ok:
  "regions s rs \<Longrightarrow> space_ok s A \<Longrightarrow> value_regions rs \<subseteq> A \<Longrightarrow> d < length rs \<Longrightarrow> d + n < 19 \<Longrightarrow>
   next_free_page s + 2 ^ (d + n + 1) \<le> 2 ^ 52 + 2 ^ length rs \<Longrightarrow>
   \<exists>zs s'. extend_regions n (d + 1) (rs ! d) s = Inr s' \<and> extended rs A s (d + n + 1) zs s'"
proof (induction n arbitrary: s rs A d)
  case 0
  then have "extended rs A s (d + 0 + 1) [] s" by (simp add: extended_def Un_absorb2 Int_absorb2)
  then show ?case by auto
next
  case (Suc n)
  show ?case
  proof (cases "Suc d < length rs")
    case True
    have "next_region_start s (rs ! d) = rs ! (d + 1)" "rs ! (d + 1) \<noteq> 0"
      using regionsD(5) [OF Suc.prems(1,4)] regionsD(3) [OF Suc.prems(1), of "d + 1"] True by simp_all
    then have "extend_regions (Suc n) (d + 1) (rs ! d) s = extend_regions n (d + 1 + 1) (rs ! (d + 1)) s" by (simp add: Let_def)
    moreover have "\<exists>zs s'. extend_regions n (d + 1 + 1) (rs ! (d + 1)) s = Inr s' \<and> extended rs A s (d + 1 + n + 1) zs s'"
      by (rule Suc.IH [OF Suc.prems(1-3)]) (use True Suc.prems(5,6) in simp_all)
    ultimately show ?thesis by simp
  next
    case False
    then have len: "length rs = d + 1" using Suc.prems(4) by simp
    have le: "(2::nat) ^ (length rs + 1) \<le> 2 ^ (d + Suc n + 1)" using len by (intro power_increasing) simp_all
    then have room: "next_free_page s + 2 ^ length rs \<le> 2 ^ 52" using Suc.prems(6) by simp
    have last: "last rs = rs ! d" using len last_conv_nth [of rs] by (cases "rs = []") simp_all
    have l19: "length rs < 19" using len Suc.prems(5) by simp
    obtain x s1 s2 where x: "SpaceManager_allocate (length rs) s = Inr (x, s1)" "put_leaf_next (last rs) x s1 = Inr s2"
      "regions s2 (rs @ [x])" "space_ok s2 (insert (x, length rs) A)" "kept_but_links rs A s s2" "(x, length rs) \<notin> A"
      "next_free_page s2 \<le> next_free_page s + 2 ^ length rs"
      by (rule extend_one [OF Suc.prems(1-3) l19 room])
    have "next_region_start s (rs ! d) = 0" using regionsD(5) [OF Suc.prems(1,4)] False by simp
    then have run: "extend_regions (Suc n) (d + 1) (rs ! d) s = extend_regions n (d + 1 + 1) ((rs @ [x]) ! (d + 1)) s2"
      using x(1,2) last len by (simp add: Let_def nth_append)
    have "\<exists>zs s'. extend_regions n (d + 1 + 1) ((rs @ [x]) ! (d + 1)) s2 = Inr s' \<and>
        extended (rs @ [x]) (insert (x, length rs) A) s2 (d + 1 + n + 1) zs s'"
    proof (rule Suc.IH [OF x(3,4)])
      show "value_regions (rs @ [x]) \<subseteq> insert (x, length rs) A" using Suc.prems(3) by (auto simp: value_regions_snoc)
    qed (use len Suc.prems(5,6) x(7) in simp_all)
    then obtain zs s' where zs: "extend_regions n (d + 1 + 1) ((rs @ [x]) ! (d + 1)) s2 = Inr s'"
      "extended (rs @ [x]) (insert (x, length rs) A) s2 (d + 1 + n + 1) zs s'" by blast
    have e: "regions s' (rs @ x # zs)" "space_ok s' (insert (x, length rs) A \<union> value_regions (rs @ x # zs))"
      "kept_but_links (rs @ [x]) (insert (x, length rs) A) s2 s'"
      "next_free_page s' + 2 ^ (length rs + 1) \<le> next_free_page s2 + 2 ^ length (rs @ x # zs)"
      "length (rs @ x # zs) = max (length rs) (d + Suc n + 1)"
      "value_regions (rs @ x # zs) \<inter> insert (x, length rs) A = insert (x, length rs) (value_regions rs)"
      using zs(2) len by (auto simp: extended_def value_regions_snoc)
    have "(x, length rs) \<in> value_regions (rs @ x # zs)" using value_regionsI [of "length rs" "rs @ x # zs"] by simp
    then have "insert (x, length rs) A \<union> value_regions (rs @ x # zs) = A \<union> value_regions (rs @ x # zs)" by blast
    then have "extended rs A s (d + Suc n + 1) (x # zs) s'"
      unfolding extended_def
    proof (intro conjI)
      show "kept_but_links rs A s s'" by (rule kept_but_links_trans [OF x(5) e(3) x(4,6)])
      show "next_free_page s' + 2 ^ length rs \<le> next_free_page s + 2 ^ length (rs @ x # zs)" using e(4) x(7) by simp
      show "value_regions (rs @ x # zs) \<inter> A = value_regions rs" by (rule Int_insert_out [OF e(6) x(6) Suc.prems(3)])
    qed (use e in simp_all)
    then show ?thesis using run zs(1) by auto
  qed
qed

section \<open>Reading and writing values\<close>

text \<open>\<open>BigValue::write\<close>: the value has regions for all of it, its bytes are as before but for the
  range written, and nothing else changes.\<close>

definition big_written :: "nat \<Rightarrow> nat list \<Rightarrow> (nat \<times> nat) set \<Rightarrow> nat \<Rightarrow> byte list \<Rightarrow> pages \<Rightarrow> nat list \<Rightarrow> pages \<Rightarrow> bool" where
  "big_written voff rs A offset bs s zs s' \<longleftrightarrow> regions s' (rs @ zs) \<and> space_ok s' (A \<union> value_regions (rs @ zs)) \<and>
     offset + length bs \<le> base voff (length (rs @ zs)) \<and>
     (\<forall>j<base voff (length (rs @ zs)). offset \<le> j \<and> j < offset + length bs \<longrightarrow> value_byte s' voff (rs @ zs) j = bs ! (j - offset)) \<and>
     (\<forall>j<base voff (length rs). \<not> (offset \<le> j \<and> j < offset + length bs) \<longrightarrow>
        value_byte s' voff (rs @ zs) j = value_byte s voff rs j) \<and>
     s' 1 = s 1 \<and> kv_entry_count s' = kv_entry_count s \<and>
     (\<forall>(x, k)\<in>A - value_regions rs. \<forall>p\<in>region x k. s' p = s p) \<and>
     (\<forall>b. 8 \<le> b \<and> b < DATA + voff \<longrightarrow> s' (rs ! 0) b = s (rs ! 0) b) \<and> value_regions (rs @ zs) \<inter> A = value_regions rs"

lemma big_writtenD:
  assumes "big_written voff rs A offset bs s zs s'"
  shows "regions s' (rs @ zs)" "space_ok s' (A \<union> value_regions (rs @ zs))" "offset + length bs \<le> base voff (length (rs @ zs))"
    "j < base voff (length (rs @ zs)) \<Longrightarrow> offset \<le> j \<Longrightarrow> j < offset + length bs \<Longrightarrow> value_byte s' voff (rs @ zs) j = bs ! (j - offset)"
    "j < base voff (length rs) \<Longrightarrow> \<not> (offset \<le> j \<and> j < offset + length bs) \<Longrightarrow> value_byte s' voff (rs @ zs) j = value_byte s voff rs j"
    "s' 1 = s 1" "kv_entry_count s' = kv_entry_count s"
    "(x, k) \<in> A \<Longrightarrow> (x, k) \<notin> value_regions rs \<Longrightarrow> p \<in> region x k \<Longrightarrow> s' p = s p"
    "8 \<le> b \<Longrightarrow> b < DATA + voff \<Longrightarrow> s' (rs ! 0) b = s (rs ! 0) b"
    "value_regions (rs @ zs) \<inter> A = value_regions rs"
  using assms unfolding big_written_def by blast+

lemma addr_append: "j < base voff (length rs) \<Longrightarrow> addr voff (rs @ zs) j = addr voff rs j"
proof -
  assume "j < base voff (length rs)"
  then obtain d i where d: "d < length rs" "i < room_in voff d" "j = base voff d + i" using region_of_byte by blast
  then show ?thesis using addr_at [OF d(1,2)] addr_at [of d "rs @ zs" i voff] by (simp add: nth_append)
qed

lemma addr_region:
  assumes "addr voff rs j = Some (f, b)" "DATA + voff < PAGE_SIZE" "j < base voff (length rs)"
  obtains d where "d < length rs" "f \<in> region (rs ! d) d" "8 \<le> b \<or> f \<noteq> rs ! d"
proof -
  obtain d i where d: "d < length rs" "i < room_in voff d" "j = base voff d + i" using region_of_byte [OF assms(3)] by blast
  then have f: "f = rs ! d + (header voff d + i) div PAGE_SIZE" "b = (header voff d + i) mod PAGE_SIZE"
    using addr_at [OF d(1,2)] assms(1) by simp_all
  show thesis
  proof (rule that [OF d(1)])
    show "f \<in> region (rs ! d) d" unfolding f by (rule byte_in_region(2) [OF d(2) assms(2)])
    show "8 \<le> b \<or> f \<noteq> rs ! d" unfolding f by (cases "header voff d + i < PAGE_SIZE") (auto simp: header_def DATA_def)
  qed
qed

lemma value_byte_kept:
  assumes rs: "regions s rs" and k: "kept_but_links rs A s s1" and sub: "value_regions rs \<subseteq> A"
    and v: "DATA + voff < PAGE_SIZE" and j: "j < base voff (length rs)"
  shows "value_byte s1 voff (rs @ zs) j = value_byte s voff rs j"
proof -
  obtain d0 i where "d0 < length rs" "i < room_in voff d0" "j = base voff d0 + i" using region_of_byte [OF j] by blast
  then obtain f b where a: "addr voff rs j = Some (f, b)" using addr_at by blast
  obtain d where d: "d < length rs" "f \<in> region (rs ! d) d" "8 \<le> b \<or> f \<noteq> rs ! d" by (rule addr_region [OF a v j])
  have "8 \<le> b \<or> f \<notin> set rs"
  proof (cases "8 \<le> b")
    case False
    have "f \<noteq> rs ! e" if "e < length rs" for e
    proof
      assume f: "f = rs ! e"
      then have "e = d" using regionsD(6) [OF rs that d(1), of f] d(2) by simp
      then show False using d(3) False f by simp
    qed
    then show ?thesis by (metis in_set_conv_nth)
  qed simp
  then have "s1 f b = s f b" using kept_but_linksD(3) [OF k _ d(2)] value_regionsI [OF d(1)] sub by blast
  then show ?thesis using a addr_append [OF j, of zs] by (simp add: value_byte_def)
qed

lemma regions_nth_0: "regions s rs \<Longrightarrow> (rs @ zs) ! 0 = rs ! 0"
  using regionsD(1) [of s rs] by (cases rs) simp_all

lemma addr_first_page:
  assumes rs: "regions s rs" and a: "addr voff rs j = Some (rs ! 0, b)" and v: "DATA + voff < PAGE_SIZE" and j: "j < base voff (length rs)"
  shows "DATA + voff \<le> b"
proof -
  obtain d i where d: "d < length rs" "i < room_in voff d" "j = base voff d + i" using region_of_byte [OF j] by blast
  then have f: "rs ! 0 = rs ! d + (header voff d + i) div PAGE_SIZE" "b = (header voff d + i) mod PAGE_SIZE"
    using addr_at [OF d(1,2)] a by simp_all
  have l: "0 < length rs" using d(1) by linarith
  have "rs ! 0 \<in> region (rs ! d) d" unfolding f(1) by (rule byte_in_region(2) [OF d(2) v])
  then have d0: "d = 0" using regionsD(6) [OF rs d(1) l, of "rs ! 0"] by simp
  have "header voff 0 + i < PAGE_SIZE" using d(2) v by (simp add: d0 room_in_def header_def)
  then show ?thesis using f(2) by (simp add: d0 header_def)
qed

lemma written_region:
  assumes w: "written voff rs lo bs s s'" and v: "DATA + voff < PAGE_SIZE" and e: "lo + length bs \<le> base voff (length rs)"
    and p: "s' p \<noteq> s p"
  obtains d where "d < length rs" "p \<in> region (rs ! d) d"
proof -
  obtain b where "s' p b \<noteq> s p b" using p by (meson ext)
  then obtain k where k: "k < length bs" "addr voff rs (lo + k) = Some (p, b)" using w unfolding written_def by blast
  have "lo + k < base voff (length rs)" using k(1) e by simp
  from addr_region [OF k(2) v this] show thesis using that by blast
qed

lemma big_write_grow:
  assumes rs: "regions s rs" and ok: "space_ok s A" and sub: "value_regions rs \<subseteq> A" and v: "DATA + voff < PAGE_SIZE"
    and e: "voff + offset + length bs \<le> base 0 19" and bs: "bs \<noteq> []" and room: "next_free_page s + 2 ^ 19 \<le> 2 ^ 52"
  obtains zs s' where "BigValue_write (rs ! 0) voff offset bs s = Inr s'" "big_written voff rs A offset bs s zs s'"
    "next_free_page s' \<le> next_free_page s + 2 ^ 19" "voff + offset + length bs \<le> base 0 (length rs) \<longrightarrow> zs = []"
proof -
  have big: "base 0 19 < 2 ^ 64" using capacity_bound [of 0 19] by simp
  have m: "(offset + length bs) mod 2 ^ 64 = offset + length bs" "(voff + (offset + length bs)) mod 2 ^ 64 = voff + (offset + length bs)"
    using e big by (simp_all del: base_simps)
  obtain n where n: "n \<le> 18" "required_continuation_regions (voff + (offset + length bs)) = Inr n"
    "voff + (offset + length bs) \<le> base 0 (Suc n)" "\<And>m. m < n \<Longrightarrow> base 0 (Suc m) < voff + (offset + length bs)"
    by (rule required_ok [of "voff + (offset + length bs)"]) (use e in \<open>simp_all add: add.assoc del: base_simps\<close>)
  have l: "0 < length rs" "length rs \<le> 19" using regionsD(1,2) [OF rs] by simp_all
  have "(2::nat) ^ (n + 1) \<le> 2 ^ 19" using n(1) by (intro power_increasing) simp_all
  then have r: "next_free_page s + 2 ^ (0 + n + 1) \<le> 2 ^ 52 + 2 ^ length rs" using room by simp
  obtain zs s1 where x: "extend_regions n (0 + 1) (rs ! 0) s = Inr s1" "extended rs A s (0 + n + 1) zs s1"
    using extend_ok [OF rs ok sub l(1) _ r] n(1) by auto
  have rs1: "regions s1 (rs @ zs)" and ok1: "space_ok s1 (A \<union> value_regions (rs @ zs))" and k: "kept_but_links rs A s s1"
    and new: "value_regions (rs @ zs) \<inter> A = value_regions rs" and len: "length (rs @ zs) = max (length rs) (n + 1)"
    and nf: "next_free_page s1 + 2 ^ length rs \<le> next_free_page s + 2 ^ length (rs @ zs)"
    using x(2) unfolding extended_def add_0 by blast+
  define L where "L = length (rs @ zs)"
  have L: "Suc n \<le> L" "L = Suc (L - 1)" "L \<le> 19" using len l n(1) by (simp_all add: L_def)
  have "base 0 (Suc n) \<le> base 0 L" using L(1) by (rule base_mono)
  moreover have "base voff L = base 0 L - voff \<and> voff \<le> base 0 L" using base_Suc_offset [OF v, of "L - 1"] L(2) by simp
  ultimately have cap: "offset + length bs \<le> base voff (length (rs @ zs))" using n(3) unfolding L_def by linarith
  obtain s' where s': "rw_impl ((rs @ zs) ! 0) voff offset bs True s1 = Inr (bs, s')" "regions s' (rs @ zs)" "written voff (rs @ zs) offset bs s1 s'"
    using write_in_regions [OF rs1 v cap bs] by blast
  have hit: "\<exists>(y, j)\<in>value_regions (rs @ zs). p \<in> region y j" if p: "s' p \<noteq> s1 p" for p
  proof -
    obtain d where d: "d < length (rs @ zs)" "p \<in> region ((rs @ zs) ! d) d" by (rule written_region [OF s'(3) v cap p])
    show ?thesis using value_regionsI [OF d(1)] d(2) by (intro bexI [of _ "((rs @ zs) ! d, d)"]) simp_all
  qed
  have ok': "space_ok s' (A \<union> value_regions (rs @ zs))"
    by (rule space_ok_pages [OF ok1]) (use hit in fast)
  have low: "s' 0 = s1 0" "s' 1 = s1 1" using hit [of 0] hit [of 1] space_okD(1) [OF ok1] by blast+
  have other: "s' p = s p" if a: "(y, j) \<in> A - value_regions rs" "p \<in> region y j" for y j p
  proof -
    have n: "(y, j) \<notin> value_regions (rs @ zs)" using new a(1) by blast
    have disj: "p \<notin> region z i" if "(z, i) \<in> value_regions (rs @ zs)" for z i
      using space_okD(4) [OF ok1, of y j z i] a n that by (metis DiffD1 UnCI disjoint_iff)
    have "s' p = s1 p" using hit [of p] disj by blast
    moreover have "p \<notin> set rs"
    proof
      assume "p \<in> set rs"
      then obtain d where d: "d < length rs" "p = rs ! d" by (metis in_set_conv_nth)
      then have "(p, d) \<in> value_regions (rs @ zs)" using value_regionsI [OF d(1)] value_regions_append by blast
      then show False using disj region_start by blast
    qed
    then have "s1 p = s p" using kept_but_linksD(3) [OF k _ a(2)] a(1) by (intro ext) blast
    ultimately show ?thesis by simp
  qed
  have first: "s' (rs ! 0) b = s (rs ! 0) b" if b: "8 \<le> b" "b < DATA + voff" for b
  proof -
    have "s1 (rs ! 0) b = s (rs ! 0) b"
      by (rule kept_but_linksD(3) [OF k, of "rs ! 0" 0]) (use value_regionsI [OF l(1)] sub b in auto)
    moreover have "addr voff (rs @ zs) (offset + m) \<noteq> Some (rs ! 0, b)" if "m < length bs" for m
      using addr_first_page [OF rs1, of voff "offset + m" b] v cap that b regions_nth_0 [OF rs, of zs] by auto
    ultimately show ?thesis using s'(3) unfolding written_def by metis
  qed
  show thesis
  proof (rule that [of s' zs])
    show "voff + offset + length bs \<le> base 0 (length rs) \<longrightarrow> zs = []"
    proof
      assume fits: "voff + offset + length bs \<le> base 0 (length rs)"
      have "n < length rs"
      proof (rule ccontr)
        assume "\<not> n < length rs"
        then have "base 0 (Suc (length rs - 1)) < voff + (offset + length bs)" using l(1) by (intro n(4)) linarith
        moreover have "Suc (length rs - 1) = length rs" using l(1) by linarith
        ultimately show False using fits by (simp del: base_simps)
      qed
      then show "zs = []" using len by simp
    qed
    show "BigValue_write (rs ! 0) voff offset bs s = Inr s'"
      using n(2) x(1) s'(1) l(1) m by (simp add: BigValue_write_def create_continuation_regions_def Let_def nth_append del: base_simps)
    show "big_written voff rs A offset bs s zs s'"
      unfolding big_written_def
    proof (intro conjI allI impI ballI)
      fix j assume j: "j < base voff (length (rs @ zs))" "offset \<le> j \<and> j < offset + length bs"
      then show "value_byte s' voff (rs @ zs) j = bs ! (j - offset)" using written_value [OF rs1 v cap s'(3) j(1)] by simp
    next
      fix j assume j: "j < base voff (length rs)" "\<not> (offset \<le> j \<and> j < offset + length bs)"
      have "j < base voff (length (rs @ zs))" using j(1) base_mono [of "length rs" "length (rs @ zs)" voff] by simp
      then show "value_byte s' voff (rs @ zs) j = value_byte s voff rs j"
        using written_value [OF rs1 v cap s'(3)] if_not_P [OF j(2)] value_byte_kept [OF rs k sub v j(1)] by (simp only:)
    next
      fix b assume "8 \<le> b \<and> b < DATA + voff"
      then show "s' (rs ! 0) b = s (rs ! 0) b" using first by blast
    next
      show "value_regions (rs @ zs) \<inter> A = value_regions rs" by (rule new)
    next
      fix q assume "q \<in> A - value_regions rs"
      then show "case q of (x, k) \<Rightarrow> \<forall>p\<in>region x k. s' p = s p" using other by (cases q) blast
    qed (use s'(2) ok' cap low kept_but_linksD(1,2) [OF k] in \<open>simp_all add: kv_entry_count_def\<close>)
    have "(2::nat) ^ L \<le> 2 ^ 19" using L(3) by (intro power_increasing) simp_all
    then show "next_free_page s' \<le> next_free_page s + 2 ^ 19" using nf low(1) by (simp add: next_free_page_def L_def)
  qed
qed

lemma big_write_ok:
  assumes "regions s rs" "space_ok s A" "value_regions rs \<subseteq> A" "DATA + voff < PAGE_SIZE"
    "voff + offset + length bs \<le> base 0 19" "bs \<noteq> []" "next_free_page s + 2 ^ 19 \<le> 2 ^ 52"
  obtains zs s' where "BigValue_write (rs ! 0) voff offset bs s = Inr s'" "big_written voff rs A offset bs s zs s'"
    "next_free_page s' \<le> next_free_page s + 2 ^ 19"
  by (rule big_write_grow [OF assms]) (rule that)

lemma value_byte_grow:
  "regions s' (rs @ zs) \<Longrightarrow> lo + n \<le> base voff (length rs) \<Longrightarrow> lo + n \<le> base voff (length (rs @ zs))"
  using base_mono [of "length rs" "length (rs @ zs)" voff] by simp

lemma big_written_read:
  assumes rs: "regions s rs" and w: "big_written voff rs A offset bs s zs s'" and v: "DATA + voff < PAGE_SIZE" and bs: "bs \<noteq> []"
  shows "BigValue_read (rs ! 0) voff offset (length bs) s' = Inr bs"
    "0 < n \<Longrightarrow> lo + n \<le> base voff (length rs) \<Longrightarrow> BigValue_read (rs ! 0) voff lo n s = Inr old \<Longrightarrow>
     BigValue_read (rs ! 0) voff lo n s' =
       Inr (map (\<lambda>j. if offset \<le> j \<and> j < offset + length bs then bs ! (j - offset) else old ! (j - lo)) [lo..<lo + n])"
proof -
  have rs': "regions s' (rs @ zs)" and cap: "offset + length bs \<le> base voff (length (rs @ zs))"
    and new: "\<And>j. j < base voff (length (rs @ zs)) \<Longrightarrow> offset \<le> j \<and> j < offset + length bs \<Longrightarrow> value_byte s' voff (rs @ zs) j = bs ! (j - offset)"
    and keep: "\<And>j. j < base voff (length rs) \<Longrightarrow> \<not> (offset \<le> j \<and> j < offset + length bs) \<Longrightarrow>
      value_byte s' voff (rs @ zs) j = value_byte s voff rs j"
    using w unfolding big_written_def by blast+
  note start = regions_nth_0 [OF rs, of zs]
  have "BigValue_read (rs ! 0) voff offset (length bs) s' = Inr (map (value_byte s' voff (rs @ zs)) [offset..<offset + length bs])"
    using read_in_regions [OF rs' v cap] bs start by simp
  also have "map (value_byte s' voff (rs @ zs)) [offset..<offset + length bs] = bs"
    by (rule nth_equalityI) (use new cap in simp_all)
  finally show "BigValue_read (rs ! 0) voff offset (length bs) s' = Inr bs" .
  assume n: "0 < n" and lo: "lo + n \<le> base voff (length rs)" and old: "BigValue_read (rs ! 0) voff lo n s = Inr old"
  have o: "old = map (value_byte s voff rs) [lo..<lo + n]" using read_in_regions [OF rs v lo n] old by simp
  have lo': "lo + n \<le> base voff (length (rs @ zs))" by (rule value_byte_grow [OF rs' lo])
  have "BigValue_read (rs ! 0) voff lo n s' = Inr (map (value_byte s' voff (rs @ zs)) [lo..<lo + n])"
    using read_in_regions [OF rs' v lo' n] start by simp
  also have "map (value_byte s' voff (rs @ zs)) [lo..<lo + n] =
      map (\<lambda>j. if offset \<le> j \<and> j < offset + length bs then bs ! (j - offset) else old ! (j - lo)) [lo..<lo + n]"
  proof (rule map_cong [OF refl])
    fix j assume j: "j \<in> set [lo..<lo + n]"
    then have "lo \<le> j" "j < lo + n" by simp_all
    then obtain k where "j = lo + k" "k < n" by (auto simp: le_iff_add)
    then have oj: "old ! (j - lo) = value_byte s voff rs j" unfolding o by simp
    have jl: "j < base voff (length rs)" "j < base voff (length (rs @ zs))" using j lo lo' by simp_all
    show "value_byte s' voff (rs @ zs) j = (if offset \<le> j \<and> j < offset + length bs then bs ! (j - offset) else old ! (j - lo))"
      unfolding oj using new [OF jl(2)] keep [OF jl(1)] by (simp split: if_split)
  qed
  finally show "BigValue_read (rs ! 0) voff lo n s' =
       Inr (map (\<lambda>j. if offset \<le> j \<and> j < offset + length bs then bs ! (j - offset) else old ! (j - lo)) [lo..<lo + n])" .
qed

text \<open>The capacity of the leaf page and \<open>n\<close> regions, in closed form.\<close>

lemma base_closed: "base 0 (Suc n) + 4096 + 8 * n + 18 = 2 ^ Suc n * PAGE_SIZE"
proof (induction n)
  case (Suc n)
  have "PAGE_SIZE * 1 \<le> PAGE_SIZE * 2 ^ Suc n" by (intro mult_le_mono2) simp
  then show ?case using Suc by (simp add: room_in_def header_def)
qed (simp add: room_in_def header_def DATA_def)

lemma base_19: "2 ^ 31 - 2 ^ 13 \<le> base 0 19"
  using base_closed [of 18] by (simp del: base_simps)

section \<open>Properties\<close>

text \<open>C30: what \<open>BigValue::write\<close> writes at any offset of a value is what \<open>BigValue::read\<close> of the range
  returns; a read of any range within the regions the value had returns the old bytes with the new
  ones over them; the root page, the count and the regions of other values do not change.  New regions
  are allocated as needed.\<close>

theorem big_value_write_read:
  assumes "regions s rs" "space_ok s A" "value_regions rs \<subseteq> A" "DATA + voff < PAGE_SIZE"
    "voff + offset + length bs \<le> 2 ^ 31 - 2 ^ 13" "bs \<noteq> []" "next_free_page s + 2 ^ 19 \<le> 2 ^ 52"
  shows "\<exists>s'. BigValue_write (rs ! 0) voff offset bs s = Inr s' \<and>
    BigValue_read (rs ! 0) voff offset (length bs) s' = Inr bs \<and>
    (\<forall>lo n old. 0 < n \<longrightarrow> lo + n \<le> base voff (length rs) \<longrightarrow> BigValue_read (rs ! 0) voff lo n s = Inr old \<longrightarrow>
      BigValue_read (rs ! 0) voff lo n s' =
        Inr (map (\<lambda>j. if offset \<le> j \<and> j < offset + length bs then bs ! (j - offset) else old ! (j - lo)) [lo..<lo + n])) \<and>
    s' 1 = s 1 \<and> kv_entry_count s' = kv_entry_count s \<and> (\<forall>(x, k)\<in>A - value_regions rs. \<forall>p\<in>region x k. s' p = s p)"
proof -
  have e: "voff + offset + length bs \<le> base 0 19" using assms(5) base_19 by linarith
  obtain zs s' where w: "BigValue_write (rs ! 0) voff offset bs s = Inr s'" "big_written voff rs A offset bs s zs s'"
    by (rule big_write_ok [OF assms(1-4) e assms(6,7)])
  note r = big_written_read [OF assms(1) w(2) assms(4,6)]
  have "s' 1 = s 1" "kv_entry_count s' = kv_entry_count s" "\<forall>(x, k)\<in>A - value_regions rs. \<forall>p\<in>region x k. s' p = s p"
    using w(2) unfolding big_written_def by blast+
  then show ?thesis using w(1) r by blast
qed

theorem big_value_write_read_witness:
  "\<exists>s x s1 s'. DiskMap_format (\<lambda>_. zero_page) = Inr s \<and> SpaceManager_allocate 0 s = Inr (x, s1) \<and>
    BigValue_write x 12 0 (replicate 9000 7) s1 = Inr s' \<and> BigValue_read x 12 0 9000 s' = Inr (replicate 9000 7)"
proof -
  obtain s where s: "DiskMap_format (\<lambda>_. zero_page) = Inr s" "space_ok s {}" "next_free_page s = 41"
    by (rule format_ok [of "\<lambda>_. zero_page"]) simp_all
  have r: "next_free_page s + 2 ^ 0 \<le> 2 ^ 52" using s(3) by simp
  obtain x s1 where x: "SpaceManager_allocate 0 s = Inr (x, s1)" "allocated 0 {} s x s1"
    by (rule allocate_ok [OF s(2) _ r]) simp_all
  have ok: "space_ok s1 {(x, 0)}" and z: "is_zero (s1 x)" and n: "next_free_page s1 \<le> 42" using x(2) s(3) by (simp_all add: allocated_def)
  have l: "linked s1 [x]" using z by (simp add: linked_def next_region_start_def leaf_next_def is_zero_get)
  have rs: "regions s1 [x]" by (rule regions_of_space [OF ok _ l]) (auto simp: value_regions_def)
  show ?thesis
    using big_value_write_read [OF rs ok, of 12 0 "replicate 9000 7"] s(1) x(1) n by (auto simp: value_regions_def DATA_def)
qed

text \<open>\<open>required_continuation_regions\<close> returns the least number of regions that, with the leaf
  page, have room for the entry: \<open>n\<close> regions and the page hold 4096 (2^(n+1) - 1) - 8 n - 18 bytes.\<close>

theorem required_regions_least:
  assumes "esize \<le> 2 ^ 31 - 2 ^ 13"
  shows "\<exists>n. required_continuation_regions esize = Inr n \<and> esize + 4096 + 8 * n + 18 \<le> 2 ^ (n + 1) * PAGE_SIZE \<and>
    (\<forall>m<n. 2 ^ (m + 1) * PAGE_SIZE < esize + 4096 + 8 * m + 18)"
proof -
  have "esize \<le> base 0 19" using assms base_19 by linarith
  then obtain n where n: "required_continuation_regions esize = Inr n" "esize \<le> base 0 (Suc n)" "\<And>m. m < n \<Longrightarrow> base 0 (Suc m) < esize"
    by (rule required_ok) blast
  have "2 ^ (m + 1) * PAGE_SIZE < esize + 4096 + 8 * m + 18" if "m < n" for m
    using n(3) [OF that] base_closed [of m] by simp
  moreover have "esize + 4096 + 8 * n + 18 \<le> 2 ^ (n + 1) * PAGE_SIZE" using n(2) base_closed [of n] by simp
  ultimately show ?thesis using n(1) by blast
qed

theorem required_regions_least_witness: "\<exists>n. required_continuation_regions 12262 = Inr n \<and> n = 1"
proof -
  obtain n where n: "required_continuation_regions 12262 = Inr n" "(12262::nat) + 4096 + 8 * n + 18 \<le> 2 ^ (n + 1) * PAGE_SIZE"
    "\<And>m. m < n \<Longrightarrow> 2 ^ (m + 1) * PAGE_SIZE < 12262 + 4096 + 8 * m + 18"
    using required_regions_least [of 12262] by auto
  have "n \<noteq> 0" using n(2) by (cases n) simp_all
  moreover have "\<not> 1 < n" using n(3) [of 1] by auto
  ultimately show ?thesis using n(1) by auto
qed

end
