(* ===== verification/Disk_Map.thy ===== *)
theory Disk_Map
  imports Prelude Hashing Pages Space_Manager Leaf Big_Value
begin

text \<open>
  The hash tree of \<open>diskmap.cpp\<close>: from the root page, each internal node selects one of 512 entries
  by a digit of the hash of the key; an entry is 0, a leaf, or, with its top bit set, another internal
  node.  The operations work on the pages a transaction sees.  Those that follow the tree need not end
  (the pages may have a cycle, keys may never separate): they have fuel and give \<open>None\<close> without it.
\<close>

section \<open>Entries of internal nodes\<close>

definition set_msb :: "nat \<Rightarrow> nat \<Rightarrow> nat" where
  "set_msb v b = v mod 2 ^ 63 + b mod 2 * 2 ^ 63"

definition get_msb :: "nat \<Rightarrow> int" where
  "get_msb v = (if v < 2 ^ 63 then 0 else - 1)"

definition clear_msb :: "nat \<Rightarrow> nat" where
  "clear_msb v = v mod 2 ^ 63"

definition ROOT_PAGE :: nat where
  "ROOT_PAGE = 1"

definition MAX_KEY_LENGTH :: nat where
  "MAX_KEY_LENGTH = 2000"

definition node_entry :: "pages \<Rightarrow> nat \<Rightarrow> nat \<Rightarrow> nat" where
  "node_entry s page i = get_u64 (s page) (8 * i)"

definition put_node_entry :: "nat \<Rightarrow> nat \<Rightarrow> nat \<Rightarrow> pages \<Rightarrow> pages result" where
  "put_node_entry page i v = put_u64 page (8 * i) v"

text \<open>Results of what may not end.\<close>

definition bindO :: "'a result option \<Rightarrow> ('a \<Rightarrow> 'b result option) \<Rightarrow> 'b result option" where
  "bindO r f = (case r of None \<Rightarrow> None | Some (Inl e) \<Rightarrow> Some (Inl e) | Some (Inr x) \<Rightarrow> f x)"

lemma bindO_simps [simp]:
  "bindO None f = None"
  "bindO (Some (Inl e)) f = Some (Inl e)"
  "bindO (Some (Inr x)) f = f x"
  by (simp_all add: bindO_def)

fun for_each :: "('i \<Rightarrow> 's \<Rightarrow> 's result option) \<Rightarrow> 'i list \<Rightarrow> 's \<Rightarrow> 's result option" where
  "for_each f [] s = Some (Inr s)"
| "for_each f (i # is) s = bindO (f i s) (for_each f is)"

text \<open>\<open>find_parent\<close>: the last internal node on the way of the key, the index of the entry in it, and
  the depth of the node.\<close>

fun find_parent_from :: "nat \<Rightarrow> pages \<Rightarrow> byte list \<Rightarrow> nat \<Rightarrow> nat \<Rightarrow> (nat \<times> nat \<times> nat) option" where
  "find_parent_from 0 s key parent parent_depth = None"
| "find_parent_from (Suc fuel) s key parent parent_depth =
     (let parent_entry = get_bucket key (int parent_depth + 1);
          parent_entry_value = node_entry s parent parent_entry in
      if parent_entry_value = 0 \<or> get_msb parent_entry_value = 0
      then Some (parent, parent_entry, parent_depth)
      else find_parent_from fuel s key (clear_msb parent_entry_value) (parent_depth + 1))"

definition find_parent :: "nat \<Rightarrow> pages \<Rightarrow> byte list \<Rightarrow> (nat \<times> nat \<times> nat) option" where
  "find_parent fuel s key = find_parent_from fuel s key ROOT_PAGE 0"

section \<open>Writing\<close>

text \<open>\<open>free_leaf\<close>: a chain of more regions than there are orders ends with an error.\<close>

function free_leaf_from :: "nat \<Rightarrow> nat \<Rightarrow> pages \<Rightarrow> pages result" where
  "free_leaf_from page_number order s =
     (let next_page = leaf_next (s page_number) in
      bindR (SpaceManager_free page_number order s) (\<lambda>s.
        if next_page = 0 then Inr s else free_leaf_from next_page (order + 1) s))"
  by pat_completeness auto
termination
proof (relation "measure (\<lambda>(page, order, s). MAX_ORDER + 1 - order)", goal_cases)
  case (2 page_number order s next_page s')
  then have "order \<le> MAX_ORDER" by (auto simp: SpaceManager_free_def split: if_splits)
  then show ?case by simp
qed simp

declare free_leaf_from.simps [simp del]

definition free_leaf :: "nat \<Rightarrow> pages \<Rightarrow> pages result" where
  "free_leaf page_number = free_leaf_from page_number 0"

text \<open>The cases of \<open>create_subtree\<close>: one leaf, one leaf for a single big entry, and what follows each.\<close>

definition create_leaf :: "KVEntry list \<Rightarrow> pages \<Rightarrow> (nat \<times> pages) result" where
  "create_leaf entries s =
     bindR (SpaceManager_allocate 0 s) (\<lambda>(new_leaf, s).
     bindR (fill_leaf new_leaf entries s) (\<lambda>s. Inr (set_msb new_leaf 0, s)))"

definition create_big_leaf :: "KVEntry \<Rightarrow> pages \<Rightarrow> (nat \<times> pages) result" where
  "create_big_leaf e s =
     bindR (SpaceManager_allocate 0 s) (\<lambda>(new_leaf_start, s).
     bindR (put_leaf_usage new_leaf_start (total_entries_size [e]) s) (\<lambda>s.
     bindR (put_leaf_entry_count new_leaf_start 1 s) (\<lambda>s.
     bindR (put_leaf_data new_leaf_start 0 (kv_key e @ [0] @ le_bytes 8 (length (kv_value e))) s) (\<lambda>s.
     bindR (BigValue_write new_leaf_start (length (kv_key e) + 1 + 8) 0 (kv_value e) s) (\<lambda>s.
       Inr (set_msb new_leaf_start 0, s))))))"

definition link_subtree :: "nat \<Rightarrow> nat \<Rightarrow> nat \<Rightarrow> pages \<Rightarrow> pages result" where
  "link_subtree parent parent_entry new_parent_entry s =
     (let parent_entry_value = node_entry s parent parent_entry in
      bindR (if parent_entry_value = 0 then Inr s
             else if get_msb parent_entry_value \<noteq> 0
             then Inl (DiskMapException ''create_subtree: parent entry points to internal node'')
             else free_leaf (clear_msb parent_entry_value) s) (\<lambda>s.
        put_node_entry parent parent_entry new_parent_entry s))"

definition bucket_entries :: "KVEntry list \<Rightarrow> nat \<Rightarrow> nat \<Rightarrow> KVEntry list" where
  "bucket_entries entries level i =
     filter (\<lambda>e. get_bucket_hash (fnv_hash (kv_key e)) (int level) = i) entries"

primrec create_subtree :: "nat \<Rightarrow> nat \<Rightarrow> nat \<Rightarrow> nat \<Rightarrow> KVEntry list \<Rightarrow> pages \<Rightarrow> pages result option" where
  "create_subtree 0 parent parent_entry parent_depth entries s = None"
| "create_subtree (Suc fuel) parent parent_entry parent_depth entries s =
     bindO (if total_entries_size entries \<le> leaf_capacity then Some (create_leaf entries s)
            else if length entries = 1 then Some (create_big_leaf (hd entries) s)
            else bindO (Some (SpaceManager_allocate 0 s)) (\<lambda>(node, s).
              bindO (for_each (\<lambda>i s.
                  let es = bucket_entries entries (parent_depth + 1) i in
                  if es = [] then Some (Inr s) else create_subtree fuel node i (parent_depth + 1) es s)
                [0..<512] s) (\<lambda>s.
              Some (Inr (set_msb node 1, s)))))
       (\<lambda>(new_parent_entry, s). Some (link_subtree parent parent_entry new_parent_entry s))"

text \<open>A pointer to bytes: \<open>None\<close> is the null pointer.  The pointer to the data of an empty vector is
  null.\<close>

type_synonym buffer = "byte list option"

definition vector_data :: "byte list \<Rightarrow> buffer" where
  "vector_data v = (if v = [] then None else Some v)"

definition count_entry :: "pages \<Rightarrow> pages result" where
  "count_entry s = put_kv_entry_count ((kv_entry_count s + 1) mod 2 ^ 64) s"

text \<open>\<open>write_at_node\<close>: a key that the leaf has, \<dots>\<close>

fun replace_value :: "byte list \<Rightarrow> byte list \<Rightarrow> KVEntry list \<Rightarrow> KVEntry list" where
  "replace_value key value [] = []"
| "replace_value key value (e # es) =
     (if kv_key e = key then e\<lparr>kv_value := value\<rparr> # es else e # replace_value key value es)"

definition write_existing :: "nat \<Rightarrow> nat \<Rightarrow> nat \<Rightarrow> nat \<Rightarrow> nat \<Rightarrow> nat \<Rightarrow> byte list \<Rightarrow> byte list \<Rightarrow> pages \<Rightarrow> pages result option" where
  "write_existing fuel parent parent_entry parent_depth leaf entry_offset key buffer s =
     bindO (Some (if leaf_next (s leaf) \<noteq> 0
                  then bindR (free_leaf leaf s) (\<lambda>s. put_node_entry parent parent_entry 0 s)
                  else Inr s)) (\<lambda>s.
     let value_length_offset = entry_offset + length key + 1;
         current_value_length = get_u64 (s leaf) (DATA + value_length_offset) in
     if PAGE_SIZE < DATA + value_length_offset + 8 then Some (Inl MemoryError)
     else if int leaf_capacity < (int (leaf_usage (s leaf)) + int (length buffer) - int current_value_length) mod 2 ^ 64
     then bindO (Some (get_entries_in_leaf (s leaf))) (\<lambda>entries.
       create_subtree fuel parent parent_entry parent_depth (replace_value key buffer entries) s)
     else Some (update_value_trivially leaf entry_offset key buffer s))"

text \<open>\<dots> a leaf with one entry that is to be split, \<dots>\<close>

fun split_leaf :: "nat \<Rightarrow> nat \<Rightarrow> byte list \<Rightarrow> byte list \<Rightarrow> byte list \<Rightarrow> nat \<Rightarrow> nat \<Rightarrow> pages \<Rightarrow> pages result option" where
  "split_leaf 0 leaf existing_key key buffer parent parent_depth s = None"
| "split_leaf (Suc fuel) leaf existing_key key buffer parent parent_depth s =
     (let new_bucket = get_bucket key (int parent_depth + 1);
          existing_key_bucket = get_bucket existing_key (int parent_depth + 1) in
      if existing_key_bucket = new_bucket then
        bindO (Some (SpaceManager_allocate 0 s)) (\<lambda>(new_internal, s).
        bindO (Some (put_node_entry parent new_bucket (set_msb new_internal 1) s)) (\<lambda>s.
          split_leaf fuel leaf existing_key key buffer new_internal (parent_depth + 1) s))
      else
        bindO (Some (put_node_entry parent existing_key_bucket (set_msb leaf 0) s)) (\<lambda>s.
          create_subtree (Suc fuel) parent new_bucket parent_depth [\<lparr>kv_key = key, kv_value = buffer\<rparr>] s))"

text \<open>\<dots> a key that the leaf does not have, \<dots>\<close>

definition write_new :: "nat \<Rightarrow> nat \<Rightarrow> nat \<Rightarrow> nat \<Rightarrow> nat \<Rightarrow> byte list \<Rightarrow> byte list \<Rightarrow> pages \<Rightarrow> pages result option" where
  "write_new fuel parent parent_entry parent_depth leaf key buffer s =
     bindO (Some (count_entry s)) (\<lambda>s.
     if (leaf_usage (s leaf) + entry_size key (length buffer)) mod 2 ^ 64 \<le> leaf_capacity
     then Some (append_entry leaf key buffer s)
     else bindO (Some (get_entries_in_leaf (s leaf))) (\<lambda>entries.
       if leaf_entry_count (s leaf) = 1 then
         case entries of [] \<Rightarrow> Some (Inl MemoryError)
         | e # _ \<Rightarrow> split_leaf fuel leaf (kv_key e) key buffer parent parent_depth s
       else create_subtree fuel parent parent_entry parent_depth (entries @ [\<lparr>kv_key = key, kv_value = buffer\<rparr>]) s))"

text \<open>\<dots> and all of it.\<close>

definition write_at_node :: "nat \<Rightarrow> nat \<Rightarrow> nat \<Rightarrow> nat \<Rightarrow> byte list \<Rightarrow> buffer \<Rightarrow> pages \<Rightarrow> pages result option" where
  "write_at_node fuel parent parent_entry parent_depth key buffer s =
     (case buffer of
        None \<Rightarrow> Some (Inl (DiskMapException ''write: invalid input parameters''))
      | Some buffer \<Rightarrow>
          if length key = 0 \<or> MAX_KEY_LENGTH < length key
          then Some (Inl (DiskMapException ''write: invalid input parameters''))
          else let parent_entry_value = node_entry s parent parent_entry in
          if parent_entry_value = 0 then
            bindO (create_subtree fuel parent parent_entry parent_depth [\<lparr>kv_key = key, kv_value = buffer\<rparr>] s) (\<lambda>s.
              Some (count_entry s))
          else let leaf = clear_msb parent_entry_value in
          bindO (Some (find_entry_in_leaf (s leaf) key)) (\<lambda>entry_offset.
            if entry_offset \<noteq> - 1
            then write_existing fuel parent parent_entry parent_depth leaf (nat entry_offset) key buffer s
            else write_new fuel parent parent_entry parent_depth leaf key buffer s))"

record disk_map =
  dm_pages :: pages
  op_count :: nat

definition count_op :: "disk_map \<Rightarrow> disk_map" where
  "count_op dm = dm\<lparr>op_count := (op_count dm + 1) mod 2 ^ 64\<rparr>"

text \<open>An operation on the pages, and what the map is after it.\<close>

definition on_pages :: "(pages \<Rightarrow> pages result option) \<Rightarrow> disk_map \<Rightarrow> disk_map result option" where
  "on_pages f dm = bindO (f (dm_pages dm)) (\<lambda>s. Some (Inr (dm\<lparr>dm_pages := s\<rparr>)))"

definition DiskMap_write :: "nat \<Rightarrow> byte list \<Rightarrow> buffer \<Rightarrow> disk_map \<Rightarrow> disk_map result option" where
  "DiskMap_write fuel key buffer dm =
     on_pages (\<lambda>s. case find_parent fuel s key of
         None \<Rightarrow> None
       | Some (parent, parent_entry, parent_depth) \<Rightarrow> write_at_node fuel parent parent_entry parent_depth key buffer s)
       (count_op dm)"

text \<open>\<open>write_part\<close>: what it does without the key (zeros in front of the bytes, but with the length of
  the bytes), and with it.\<close>

definition NPOS :: nat where
  "NPOS = 2 ^ 64 - 1"

definition part_not_found :: "nat \<Rightarrow> nat \<Rightarrow> nat \<Rightarrow> nat \<Rightarrow> byte list \<Rightarrow> nat \<Rightarrow> buffer \<Rightarrow> pages \<Rightarrow> pages result option" where
  "part_not_found fuel parent parent_entry parent_depth key write_offset buffer s =
     (let write_length = (case buffer of None \<Rightarrow> 0 | Some bs \<Rightarrow> length bs);
          write_offset = (if write_offset = NPOS then 0 else write_offset);
          true_buffer = (if write_offset \<noteq> 0
            then Some (take write_length (zeros write_offset @ (case buffer of None \<Rightarrow> [] | Some bs \<Rightarrow> bs)))
            else buffer) in
      write_at_node fuel parent parent_entry parent_depth key true_buffer s)"

definition part_found :: "nat \<Rightarrow> nat \<Rightarrow> nat \<Rightarrow> nat \<Rightarrow> nat \<Rightarrow> nat \<Rightarrow> byte list \<Rightarrow> nat \<Rightarrow> byte list \<Rightarrow> pages \<Rightarrow> pages result option" where
  "part_found fuel parent parent_entry parent_depth leaf entry_offset key write_offset buffer s =
     (let value_length_offset = entry_offset + length key + 1;
          existing_length = get_u64 (s leaf) (DATA + value_length_offset);
          write_offset = (if write_offset = NPOS then existing_length else write_offset);
          data_section_offset = value_length_offset + 8;
          new_value_length = max existing_length ((write_offset + length buffer) mod 2 ^ 64) in
      if PAGE_SIZE < DATA + data_section_offset then Some (Inl MemoryError)
      else if leaf_entry_count (s leaf) = 1 then
        Some (bindR (BigValue_write leaf data_section_offset write_offset buffer s) (\<lambda>s.
          if new_value_length \<noteq> existing_length then
            bindR (put_leaf_data leaf value_length_offset (le_bytes 8 new_value_length) s) (\<lambda>s.
              put_leaf_usage leaf (nat ((int (leaf_usage (s leaf)) + int new_value_length - int existing_length) mod 2 ^ 64)) s)
          else Inr s))
      else if PAGE_SIZE < DATA + data_section_offset + existing_length then Some (Inl MemoryError)
      else bindO (Some (bindR (copy_into (zeros new_value_length) 0
            (bytes_at (s leaf) (DATA + data_section_offset) existing_length)) (\<lambda>new_value.
          copy_into new_value write_offset buffer))) (\<lambda>new_value.
        write_at_node fuel parent parent_entry parent_depth key (vector_data new_value) s))"

definition DiskMap_write_part :: "nat \<Rightarrow> byte list \<Rightarrow> nat \<Rightarrow> buffer \<Rightarrow> disk_map \<Rightarrow> disk_map result option" where
  "DiskMap_write_part fuel key write_offset buffer dm =
     on_pages (\<lambda>s. case find_parent fuel s key of
         None \<Rightarrow> None
       | Some (parent, parent_entry, parent_depth) \<Rightarrow>
           let parent_entry_value = node_entry s parent parent_entry in
           if parent_entry_value = 0
           then part_not_found fuel parent parent_entry parent_depth key write_offset buffer s
           else let leaf = clear_msb parent_entry_value in
           bindO (Some (find_entry_in_leaf (s leaf) key)) (\<lambda>entry_offset.
             if entry_offset = - 1
             then part_not_found fuel parent parent_entry parent_depth key write_offset buffer s
             else part_found fuel parent parent_entry parent_depth leaf (nat entry_offset) key write_offset
               (case buffer of None \<Rightarrow> [] | Some bs \<Rightarrow> bs) s))
       (count_op dm)"

definition DiskMap_append :: "nat \<Rightarrow> byte list \<Rightarrow> buffer \<Rightarrow> disk_map \<Rightarrow> disk_map result option" where
  "DiskMap_append fuel key buffer = DiskMap_write_part fuel key NPOS buffer"

section \<open>Reading\<close>

definition DiskMap_read_part :: "nat \<Rightarrow> byte list \<Rightarrow> nat \<Rightarrow> nat \<Rightarrow> pages \<Rightarrow> byte list option result option" where
  "DiskMap_read_part fuel key read_offset read_length s =
     (case find_parent fuel s key of
        None \<Rightarrow> None
      | Some (parent, parent_entry, _) \<Rightarrow>
          let parent_entry_value = node_entry s parent parent_entry in
          if get_msb parent_entry_value \<noteq> 0 then Some (Inr None)
          else let leaf = clear_msb parent_entry_value in
          Some (bindR (find_entry_in_leaf (s leaf) key) (\<lambda>entry_offset.
            if entry_offset = - 1 then Inr None
            else let offset = nat entry_offset + length key + 1;
                     len = get_u64 (s leaf) (DATA + offset);
                     read_length = min read_length (nat ((int len - int read_offset) mod 2 ^ 64));
                     offset = offset + 8 in
            if PAGE_SIZE < DATA + offset then Inl MemoryError
            else if leaf_next (s leaf) \<noteq> 0
            then bindR (BigValue_read leaf offset read_offset read_length s) (\<lambda>buffer. Inr (Some buffer))
            else if PAGE_SIZE < DATA + offset + read_offset + read_length then Inl MemoryError
            else Inr (Some (bytes_at (s leaf) (DATA + offset + read_offset) read_length)))))"

definition DiskMap_read :: "nat \<Rightarrow> byte list \<Rightarrow> pages \<Rightarrow> byte list option result option" where
  "DiskMap_read fuel key = DiskMap_read_part fuel key 0 NPOS"

definition DiskMap_read_value_length :: "nat \<Rightarrow> byte list \<Rightarrow> pages \<Rightarrow> nat option result option" where
  "DiskMap_read_value_length fuel key s =
     (case find_parent fuel s key of
        None \<Rightarrow> None
      | Some (parent, parent_entry, _) \<Rightarrow>
          let parent_entry_value = node_entry s parent parent_entry in
          if get_msb parent_entry_value \<noteq> 0 then Some (Inr None)
          else let leaf = clear_msb parent_entry_value in
          Some (bindR (find_entry_in_leaf (s leaf) key) (\<lambda>entry_offset.
            if entry_offset = - 1 then Inr None
            else let offset = nat entry_offset + length key + 1 in
            if PAGE_SIZE < DATA + offset + 8 then Inl MemoryError
            else Inr (Some (get_u64 (s leaf) (DATA + offset))))))"

section \<open>Removing\<close>

text \<open>The way to the leaf, with the node above and the index of the entry in it: \<open>None\<close> as the value if
  the entry is 0.\<close>

fun remove_path :: "nat \<Rightarrow> pages \<Rightarrow> byte list \<Rightarrow> nat \<Rightarrow> nat \<Rightarrow> int \<Rightarrow> nat \<Rightarrow>
    (nat \<times> nat \<times> nat \<times> int) option option" where
  "remove_path 0 s key grandparent parent parent_entry level = None"
| "remove_path (Suc fuel) s key grandparent parent parent_entry level =
     (let grandparent_entry = parent_entry;
          parent_entry = get_bucket key (int level);
          parent_entry_value = node_entry s parent parent_entry in
      if parent_entry_value = 0 then Some None
      else if get_msb parent_entry_value \<noteq> 0
      then remove_path fuel s key parent (clear_msb parent_entry_value) (int parent_entry) (level + 1)
      else Some (Some (grandparent, parent, parent_entry, grandparent_entry)))"

text \<open>The loop that counts the children, up to two, and keeps the last one seen.\<close>

fun count_siblings :: "pages \<Rightarrow> nat \<Rightarrow> nat list \<Rightarrow> nat \<times> nat \<Rightarrow> nat \<times> nat" where
  "count_siblings s parent [] acc = acc"
| "count_siblings s parent (i # is) (sibling_count, sibling_entry_value) =
     (if node_entry s parent i \<noteq> 0 then
        if sibling_count + 1 > 1 then (sibling_count + 1, node_entry s parent i)
        else count_siblings s parent is (sibling_count + 1, node_entry s parent i)
      else count_siblings s parent is (sibling_count, sibling_entry_value))"

definition remove_leaf :: "nat \<Rightarrow> nat \<Rightarrow> nat \<Rightarrow> int \<Rightarrow> nat \<Rightarrow> pages \<Rightarrow> pages result" where
  "remove_leaf grandparent parent parent_entry grandparent_entry leaf s =
     bindR (free_leaf leaf s) (\<lambda>s.
     bindR (put_node_entry parent parent_entry 0 s) (\<lambda>s.
       if grandparent_entry = - 1 then Inr s
       else let (sibling_count, sibling_entry_value) = count_siblings s parent [0..<512] (0, 0) in
         if sibling_count = 1 then
           bindR (put_node_entry grandparent (nat grandparent_entry) sibling_entry_value s) (\<lambda>s.
             SpaceManager_free parent 0 s)
         else Inr s))"

definition remove_impl :: "nat \<Rightarrow> byte list \<Rightarrow> pages \<Rightarrow> (bool \<times> pages) result option" where
  "remove_impl fuel key s =
     (case remove_path fuel s key ROOT_PAGE ROOT_PAGE (- 1) 1 of
        None \<Rightarrow> None
      | Some None \<Rightarrow> Some (Inr (False, s))
      | Some (Some (grandparent, parent, parent_entry, grandparent_entry)) \<Rightarrow>
          let leaf = node_entry s parent parent_entry in
          Some (bindR (find_entry_in_leaf (s leaf) key) (\<lambda>entry_offset.
            if entry_offset = - 1 then Inr (False, s)
            else bindR (if leaf_entry_count (s leaf) = 1
                        then remove_leaf grandparent parent parent_entry grandparent_entry leaf s
                        else remove_entry leaf (nat entry_offset) key s) (\<lambda>s.
              bindR (put_kv_entry_count ((kv_entry_count s + 2 ^ 64 - 1) mod 2 ^ 64) s) (\<lambda>s.
                Inr (True, s))))))"

definition DiskMap_remove :: "nat \<Rightarrow> byte list \<Rightarrow> disk_map \<Rightarrow> (bool \<times> disk_map) result option" where
  "DiskMap_remove fuel key dm =
     (let dm = count_op dm in
      bindO (remove_impl fuel key (dm_pages dm)) (\<lambda>(found, s). Some (Inr (found, dm\<lparr>dm_pages := s\<rparr>))))"

section \<open>Sampling and checking\<close>

text \<open>\<open>sample\<close>: the values of \<open>rand()\<close> are a parameter.\<close>

fun sample_loop :: "nat \<Rightarrow> (nat \<Rightarrow> nat) \<Rightarrow> pages \<Rightarrow> nat \<Rightarrow> nat list \<Rightarrow> KVEntry list \<Rightarrow> KVEntry list result option" where
  "sample_loop 0 rand s wanted todo result = None"
| "sample_loop (Suc fuel) rand s wanted todo result =
     (if todo = [] \<or> wanted \<le> length result then Some (Inr result)
      else let idx = rand fuel mod length todo;
               page = todo ! idx;
               todo = butlast (todo[idx := last todo]) in
      if get_msb page \<noteq> 0 then
        sample_loop fuel rand s wanted
          (todo @ filter (\<lambda>child. child \<noteq> 0) (map (node_entry s (clear_msb page)) [0..<512])) result
      else let leaf = s (clear_msb page) in
        if leaf_next leaf = 0 then
          bindO (Some (get_entries_in_leaf leaf)) (\<lambda>entries.
            sample_loop fuel rand s wanted todo (result @ take (wanted - length result) entries))
        else sample_loop fuel rand s wanted todo result)"

definition DiskMap_sample :: "nat \<Rightarrow> (nat \<Rightarrow> nat) \<Rightarrow> nat \<Rightarrow> pages \<Rightarrow> KVEntry list result option" where
  "DiskMap_sample fuel rand wanted s = sample_loop fuel rand s wanted [set_msb ROOT_PAGE 1] []"

primrec verify_integrity_recursive :: "nat \<Rightarrow> nat \<Rightarrow> pages \<Rightarrow> unit result option" where
  "verify_integrity_recursive 0 page s = None"
| "verify_integrity_recursive (Suc fuel) page s =
     (if get_msb page \<noteq> 0 then
        for_each (\<lambda>i _. if node_entry s (clear_msb page) i \<noteq> 0
                        then verify_integrity_recursive fuel (node_entry s (clear_msb page) i) s
                        else Some (Inr ()))
          [0..<512] ()
      else Some (validate_leaf_integrity (s page)))"

definition verify_integrity :: "nat \<Rightarrow> pages \<Rightarrow> unit result option" where
  "verify_integrity fuel s = verify_integrity_recursive fuel (set_msb ROOT_PAGE 1) s"

end
