(* ===== verification/Map_Invariant.thy ===== *)
theory Map_Invariant
  imports Prelude Hashing Pages Space_Manager Leaf Big_Value Disk_Map
begin

text \<open>
  What the pages of a well-formed map are: internal nodes, leaves with entries, apart from each other
  in the regions the space manager handed out.  The invariant is flat: a set of internal nodes and, for
  each entry of one that leads to a leaf, the regions and the contents of that leaf; a key belongs to
  the leaf that \<open>find_parent\<close> leads to.
\<close>

section \<open>Following the tree\<close>

lemma find_parent_mono: "find_parent_from f s key p l = Some r \<Longrightarrow> f \<le> f' \<Longrightarrow> find_parent_from f' s key p l = Some r"
proof (induction f arbitrary: f' p l)
  case (Suc f)
  then obtain g where "f' = Suc g" "f \<le> g" by (cases f') auto
  then show ?case using Suc by (auto simp: Let_def split: if_splits)
qed simp

lemma find_parent_unique:
  "find_parent_from f s key p l = Some r \<Longrightarrow> find_parent_from f' s key p l = Some r' \<Longrightarrow> r = r'"
  using find_parent_mono [of f s key p l r "max f f'"] find_parent_mono [of f' s key p l r' "max f f'"] by simp

definition closed_nodes :: "pages \<Rightarrow> nat set \<Rightarrow> bool" where
  "closed_nodes s N \<longleftrightarrow> (\<forall>p\<in>N. \<forall>i<512. get_msb (node_entry s p i) \<noteq> 0 \<longrightarrow> clear_msb (node_entry s p i) \<in> N)"

lemma get_bucket_less: "get_bucket key d < 512"
  by (simp add: get_bucket_def Let_def get_bucket_hash_digit)

lemma get_msb_0 [simp]: "get_msb 0 = 0"
  by (simp add: get_msb_def)

lemma find_parent_in:
  "find_parent_from f s key p l = Some (q, e, l') \<Longrightarrow> p \<in> N \<Longrightarrow> closed_nodes s N \<Longrightarrow>
   q \<in> N \<and> e < 512 \<and> get_msb (node_entry s q e) = 0 \<and> e = get_bucket key (int l' + 1) \<and> l \<le> l'"
proof (induction f arbitrary: p l)
  case (Suc f)
  define e0 where "e0 = get_bucket key (int l + 1)"
  have e0: "e0 < 512" by (simp add: e0_def get_bucket_less)
  show ?case
  proof (cases "get_msb (node_entry s p e0) = 0")
    case True
    then show ?thesis using Suc.prems(1,2) e0 unfolding e0_def by (auto simp: Let_def)
  next
    case False
    then have "find_parent_from f s key (clear_msb (node_entry s p e0)) (l + 1) = Some (q, e, l')"
      using Suc.prems(1) by (auto simp: Let_def e0_def [symmetric] split: if_splits)
    moreover have "clear_msb (node_entry s p e0) \<in> N" using False e0 Suc.prems(2,3) by (simp add: closed_nodes_def)
    ultimately have "q \<in> N \<and> e < 512 \<and> get_msb (node_entry s q e) = 0 \<and> e = get_bucket key (int l' + 1) \<and> l + 1 \<le> l'"
      by (rule Suc.IH) (rule Suc.prems(3))
    then show ?thesis by (elim conjE, intro conjI) (assumption | linarith)+
  qed
qed simp

text \<open>Changes of entries that point to leaves do not change the way.\<close>

definition same_nodes :: "nat set \<Rightarrow> pages \<Rightarrow> pages \<Rightarrow> bool" where
  "same_nodes N s s' \<longleftrightarrow> (\<forall>p\<in>N. \<forall>i<512. (get_msb (node_entry s' p i) \<noteq> 0 \<longleftrightarrow> get_msb (node_entry s p i) \<noteq> 0) \<and>
     (get_msb (node_entry s p i) \<noteq> 0 \<longrightarrow> node_entry s' p i = node_entry s p i))"

lemma find_parent_frame:
  "closed_nodes s N \<Longrightarrow> same_nodes N s s' \<Longrightarrow> p \<in> N \<Longrightarrow> find_parent_from f s' key p l = find_parent_from f s key p l"
proof (induction f arbitrary: p l)
  case (Suc f)
  define e0 where "e0 = get_bucket key (int l + 1)"
  have e0: "e0 < 512" by (simp add: e0_def get_bucket_less)
  show ?case
  proof (cases "get_msb (node_entry s p e0) = 0")
    case True
    then have "get_msb (node_entry s' p e0) = 0" using Suc.prems(2,3) e0 by (simp add: same_nodes_def)
    then show ?thesis using True by (simp add: Let_def e0_def [symmetric])
  next
    case False
    then have "node_entry s' p e0 = node_entry s p e0" "clear_msb (node_entry s p e0) \<in> N"
      using Suc.prems e0 by (simp_all add: same_nodes_def closed_nodes_def)
    moreover have "node_entry s p e0 \<noteq> 0" using False get_msb_0 by metis
    ultimately show ?thesis using Suc.IH [OF Suc.prems(1,2)] False by (simp add: Let_def e0_def [symmetric])
  qed
qed simp

lemma same_nodesI:
  assumes "\<And>p i. p \<in> N \<Longrightarrow> i < 512 \<Longrightarrow> (p, i) \<noteq> (q, e) \<Longrightarrow> node_entry s' p i = node_entry s p i"
    "get_msb (node_entry s q e) = 0" "get_msb (node_entry s' q e) = 0"
  shows "same_nodes N s s'"
  unfolding same_nodes_def
proof (intro ballI allI impI)
  fix p i assume p: "p \<in> N" "i < (512::nat)"
  show "(get_msb (node_entry s' p i) \<noteq> 0 \<longleftrightarrow> get_msb (node_entry s p i) \<noteq> 0) \<and>
     (get_msb (node_entry s p i) \<noteq> 0 \<longrightarrow> node_entry s' p i = node_entry s p i)"
    using assms(1) [OF p] assms(2,3) by (cases "(p, i) = (q, e)") simp_all
qed

text \<open>From a node on, and from the root of the map.\<close>

definition leads_from :: "nat \<Rightarrow> nat \<Rightarrow> pages \<Rightarrow> byte list \<Rightarrow> nat \<times> nat \<Rightarrow> bool" where
  "leads_from rt lv s key q \<longleftrightarrow> (\<exists>f l. find_parent_from f s key rt lv = Some (fst q, snd q, l))"

abbreviation leads_to :: "pages \<Rightarrow> byte list \<Rightarrow> nat \<times> nat \<Rightarrow> bool" where
  "leads_to \<equiv> leads_from ROOT_PAGE 0"

lemma leads_to_def: "leads_to s key q \<longleftrightarrow> (\<exists>f l. find_parent f s key = Some (fst q, snd q, l))"
  by (simp add: leads_from_def find_parent_def)

lemma leads_to_unique: "leads_from rt lv s key q \<Longrightarrow> leads_from rt lv s key q' \<Longrightarrow> q = q'"
proof -
  assume "leads_from rt lv s key q" "leads_from rt lv s key q'"
  then obtain f l f' l' where "find_parent_from f s key rt lv = Some (fst q, snd q, l)" "find_parent_from f' s key rt lv = Some (fst q', snd q', l')"
    by (auto simp: leads_from_def)
  then have "(fst q, snd q, l) = (fst q', snd q', l')" by (rule find_parent_unique)
  then show "q = q'" by (simp add: prod_eq_iff)
qed

section \<open>Leaves\<close>

definition big_leaf :: "pages \<Rightarrow> nat list \<Rightarrow> KVEntry \<Rightarrow> bool" where
  "big_leaf s rs e \<longleftrightarrow> 2 \<le> length rs \<and> regions s rs \<and> valid_key (kv_key e) \<and> length (kv_key e) \<le> MAX_KEY_LENGTH \<and>
     entry_starts (s (rs ! 0)) DATA (kv_key e) (length (kv_value e)) \<and>
     leaf_entry_count (s (rs ! 0)) = 1 \<and> leaf_usage (s (rs ! 0)) = entry_size (kv_key e) (length (kv_value e)) \<and>
     leaf_capacity < entry_size (kv_key e) (length (kv_value e)) \<and>
     length (kv_value e) \<le> base (length (kv_key e) + 1 + 8) (length rs) \<and>
     (\<forall>j<length (kv_value e). value_byte s (length (kv_key e) + 1 + 8) rs j = kv_value e ! j)"

definition leaf_ok :: "pages \<Rightarrow> nat list \<Rightarrow> KVEntry list \<Rightarrow> bool" where
  "leaf_ok s rs es \<longleftrightarrow>
     (\<exists>x. rs = [x] \<and> leaf_holds (s x) es \<and> es \<noteq> [] \<and> length es < 2 ^ 16) \<or> (\<exists>e. es = [e] \<and> big_leaf s rs e)"

lemma value_byte_cong:
  assumes "\<And>d p. d < length rs \<Longrightarrow> p \<in> region (rs ! d) d \<Longrightarrow> s' p = s p" "j < base voff (length rs)" "DATA + voff < PAGE_SIZE"
  shows "value_byte s' voff rs j = value_byte s voff rs j"
proof -
  obtain d0 i where "d0 < length rs" "i < room_in voff d0" "j = base voff d0 + i" using region_of_byte [OF assms(2)] by blast
  then obtain f b where a: "addr voff rs j = Some (f, b)" using addr_at by blast
  obtain d where "d < length rs" "f \<in> region (rs ! d) d" by (rule addr_region [OF a assms(3,2)])
  then show ?thesis using assms(1) a by (simp add: value_byte_def)
qed

lemma regions_cong:
  assumes "\<And>d. d < length rs \<Longrightarrow> s' (rs ! d) = s (rs ! d)"
  shows "regions s' rs \<longleftrightarrow> regions s rs"
  unfolding regions_def next_region_start_def using assms by auto

lemma key_room: "length key \<le> MAX_KEY_LENGTH \<Longrightarrow> DATA + (length key + 1 + 8) < PAGE_SIZE"
  by (simp add: MAX_KEY_LENGTH_def DATA_def)

lemma leaf_ok_cong:
  assumes same: "\<And>d p. d < length rs \<Longrightarrow> p \<in> region (rs ! d) d \<Longrightarrow> s' p = s p" and ok: "leaf_ok s rs es"
  shows "leaf_ok s' rs es"
  using ok unfolding leaf_ok_def
proof (elim disjE exE conjE)
  fix x assume x: "rs = [x]" "leaf_holds (s x) es" "es \<noteq> []" "length es < 2 ^ 16"
  have "s' x = s x" using same [of 0 x] x(1) by simp
  then show "(\<exists>x. rs = [x] \<and> leaf_holds (s' x) es \<and> es \<noteq> [] \<and> length es < 2 ^ 16) \<or> (\<exists>e. es = [e] \<and> big_leaf s' rs e)"
    using x by simp
next
  fix e assume e: "es = [e]" "big_leaf s rs e"
  then have r: "2 \<le> length rs" "regions s rs" "length (kv_key e) \<le> MAX_KEY_LENGTH"
    "length (kv_value e) \<le> base (length (kv_key e) + 1 + 8) (length rs)" by (simp_all add: big_leaf_def)
  have heads: "s' (rs ! d) = s (rs ! d)" if "d < length rs" for d using same [OF that region_start] .
  have "regions s' rs" using r(2) regions_cong [of rs s' s, OF heads] by simp
  moreover have "value_byte s' (length (kv_key e) + 1 + 8) rs j = value_byte s (length (kv_key e) + 1 + 8) rs j"
    if "j < length (kv_value e)" for j
    by (rule value_byte_cong [OF same _ key_room [OF r(3)]]) (use that r(4) in auto)
  moreover have "s' (rs ! 0) = s (rs ! 0)" by (rule heads) (use r(1) in linarith)
  ultimately have "big_leaf s' rs e" using e(2) unfolding big_leaf_def by simp
  then show "(\<exists>x. rs = [x] \<and> leaf_holds (s' x) es \<and> es \<noteq> [] \<and> length es < 2 ^ 16) \<or> (\<exists>e. es = [e] \<and> big_leaf s' rs e)"
    using e(1) by blast
qed

section \<open>The invariant\<close>

text \<open>\<open>N\<close>: the internal nodes.  \<open>C\<close>: for the entries that point to leaves, the regions and the contents
  of the leaf.\<close>

type_synonym leaves = "nat \<times> nat \<Rightarrow> (nat list \<times> KVEntry list) option"

definition leaf_at :: "nat \<Rightarrow> nat \<Rightarrow> pages \<Rightarrow> (nat \<times> nat) set \<Rightarrow> nat set \<Rightarrow> nat \<times> nat \<Rightarrow> nat list \<Rightarrow> KVEntry list \<Rightarrow> bool" where
  "leaf_at rt lv s A N q rs es \<longleftrightarrow> fst q \<in> N \<and> snd q < 512 \<and> node_entry s (fst q) (snd q) = rs ! 0 \<and>
     value_regions rs \<subseteq> A \<and> value_regions rs \<inter> N \<times> {0} = {} \<and> leaf_ok s rs es \<and> distinct (map kv_key es) \<and>
     (\<forall>e\<in>set es. leads_from rt lv s (kv_key e) q)"

text \<open>The nodes form a tree: each has a single parent, and its digits, the indices on the way to it.\<close>

definition tree_shaped :: "pages \<Rightarrow> nat set \<Rightarrow> nat \<Rightarrow> bool" where
  "tree_shaped s N rt \<longleftrightarrow>
     (\<exists>digits :: nat \<Rightarrow> nat list. digits rt = [] \<and>
        (\<forall>p\<in>N. \<forall>i<512. get_msb (node_entry s p i) \<noteq> 0 \<longrightarrow> digits (clear_msb (node_entry s p i)) = digits p @ [i])) \<and>
     (\<forall>p\<in>N. \<forall>p'\<in>N. \<forall>i<512. \<forall>j<512. get_msb (node_entry s p i) \<noteq> 0 \<longrightarrow> node_entry s p' j = node_entry s p i \<longrightarrow> p' = p \<and> j = i)"

lemma tree_shaped_frame:
  assumes "tree_shaped s N rt" "same_nodes N s s'"
  shows "tree_shaped s' N rt"
proof -
  have same: "node_entry s' p i = node_entry s p i" "get_msb (node_entry s p i) \<noteq> 0" if "p \<in> N" "i < 512" "get_msb (node_entry s' p i) \<noteq> 0" for p i
    using assms(2) that unfolding same_nodes_def by metis+
  obtain digits where "digits rt = []"
    "\<forall>p\<in>N. \<forall>i<512. get_msb (node_entry s p i) \<noteq> 0 \<longrightarrow> digits (clear_msb (node_entry s p i)) = digits p @ [i]"
    using assms(1) by (auto simp: tree_shaped_def)
  then have "digits rt = [] \<and>
    (\<forall>p\<in>N. \<forall>i<512. get_msb (node_entry s' p i) \<noteq> 0 \<longrightarrow> digits (clear_msb (node_entry s' p i)) = digits p @ [i])" by (metis same)
  moreover have "p' = p \<and> j = i"
    if "p \<in> N" "p' \<in> N" "i < 512" "j < 512" "get_msb (node_entry s' p i) \<noteq> 0" "node_entry s' p' j = node_entry s' p i" for p p' i j
  proof -
    have "node_entry s p' j = node_entry s p i" "get_msb (node_entry s p i) \<noteq> 0"
      using same [OF that(1,3,5)] same(1) [OF that(2,4)] that(5,6) by simp_all
    then show ?thesis using assms(1) that(1-4) unfolding tree_shaped_def by blast
  qed
  ultimately show ?thesis unfolding tree_shaped_def by blast
qed

text \<open>The part of the map below the node \<open>rt\<close>, whose level is \<open>lv\<close>.\<close>

definition subtree :: "nat \<Rightarrow> nat \<Rightarrow> pages \<Rightarrow> (nat \<times> nat) set \<Rightarrow> nat set \<Rightarrow> leaves \<Rightarrow> bool" where
  "subtree rt lv s A N C \<longleftrightarrow> space_ok s A \<and> rt \<in> N \<and> (\<forall>p\<in>N. p = ROOT_PAGE \<or> (p, 0) \<in> A) \<and> closed_nodes s N \<and>
     (\<forall>key. \<exists>q. leads_from rt lv s key q) \<and>
     (\<forall>p\<in>N. \<forall>i<512. get_msb (node_entry s p i) = 0 \<longrightarrow> C (p, i) = None \<longrightarrow> node_entry s p i = 0) \<and>
     (\<forall>q rs es. C q = Some (rs, es) \<longrightarrow> leaf_at rt lv s A N q rs es) \<and>
     (\<forall>q q' rs es rs' es'. C q = Some (rs, es) \<longrightarrow> C q' = Some (rs', es') \<longrightarrow> q \<noteq> q' \<longrightarrow>
        value_regions rs \<inter> value_regions rs' = {}) \<and> tree_shaped s N rt"

abbreviation tree_inv :: "pages \<Rightarrow> (nat \<times> nat) set \<Rightarrow> nat set \<Rightarrow> leaves \<Rightarrow> bool" where
  "tree_inv \<equiv> subtree ROOT_PAGE 0"

lemma tree_invD:
  assumes "subtree rt lv s A N C"
  shows "space_ok s A" "rt \<in> N" "p \<in> N \<Longrightarrow> p = ROOT_PAGE \<or> (p, 0) \<in> A" "closed_nodes s N" "\<exists>q. leads_from rt lv s key q"
    "p \<in> N \<Longrightarrow> i < 512 \<Longrightarrow> get_msb (node_entry s p i) = 0 \<Longrightarrow> C (p, i) = None \<Longrightarrow> node_entry s p i = 0"
    "C q = Some (rs, es) \<Longrightarrow> leaf_at rt lv s A N q rs es"
    "C q = Some (rs, es) \<Longrightarrow> C q' = Some (rs', es') \<Longrightarrow> q \<noteq> q' \<Longrightarrow> value_regions rs \<inter> value_regions rs' = {}"
    "tree_shaped s N rt"
  using assms unfolding subtree_def by blast+

lemma leaf_atD:
  assumes "leaf_at rt lv s A N q rs es"
  shows "fst q \<in> N" "snd q < 512" "node_entry s (fst q) (snd q) = rs ! 0" "value_regions rs \<subseteq> A"
    "value_regions rs \<inter> N \<times> {0} = {}" "leaf_ok s rs es" "distinct (map kv_key es)" "e \<in> set es \<Longrightarrow> leads_from rt lv s (kv_key e) q"
  using assms unfolding leaf_at_def by blast+

lemma leads_to_in:
  assumes "subtree rt lv s A N C" "leads_from rt lv s key (p, i)"
  shows "p \<in> N" "i < 512" "get_msb (node_entry s p i) = 0"
  using assms(2) find_parent_in [of _ s key rt lv p i _ N] tree_invD(2,4) [OF assms(1)]
  by (auto simp: leads_from_def)

lemma leads_to_frame:
  assumes "subtree rt lv s A N C" "same_nodes N s s'"
  shows "leads_from rt lv s' key q \<longleftrightarrow> leads_from rt lv s key q" "find_parent_from f s' key rt lv = find_parent_from f s key rt lv"
proof -
  show "find_parent_from f s' key rt lv = find_parent_from f s key rt lv" for f
    by (rule find_parent_frame) (use tree_invD(2,4) [OF assms(1)] assms(2) in simp_all)
  then show "leads_from rt lv s' key q \<longleftrightarrow> leads_from rt lv s key q" by (simp add: leads_from_def)
qed

lemma leaf_ok_start:
  assumes "leaf_ok s rs es" "space_ok s A" "value_regions rs \<subseteq> A"
  shows "0 < length rs" "(rs ! 0, 0) \<in> A" "page_ok (rs ! 0)" "41 \<le> rs ! 0" "get_msb (rs ! 0) = 0" "clear_msb (rs ! 0) = rs ! 0" "es \<noteq> []"
proof -
  have "0 < length rs \<and> es \<noteq> []" using assms(1) by (auto simp: leaf_ok_def big_leaf_def)
  then show l: "0 < length rs" "es \<noteq> []" by simp_all
  then show a: "(rs ! 0, 0) \<in> A" using value_regionsI [OF l(1)] assms(3) by blast
  then show p: "page_ok (rs ! 0)" "41 \<le> rs ! 0"
    using space_okD(1) [OF assms(2) a, of "rs ! 0"] space_okD(2) [OF assms(2) a] by simp_all
  then show "get_msb (rs ! 0) = 0" "clear_msb (rs ! 0) = rs ! 0" by (simp_all add: page_ok_def get_msb_def clear_msb_def)
qed

text \<open>One entry of a node and its leaf change; everything else stays.\<close>

definition others_kept :: "pages \<Rightarrow> pages \<Rightarrow> nat set \<Rightarrow> leaves \<Rightarrow> nat \<times> nat \<Rightarrow> bool" where
  "others_kept s s' N C q \<longleftrightarrow>
     (\<forall>p\<in>N. \<forall>i<512. (p, i) \<noteq> q \<longrightarrow> node_entry s' p i = node_entry s p i) \<and>
     (\<forall>q' rs es. C q' = Some (rs, es) \<longrightarrow> q' \<noteq> q \<longrightarrow> (\<forall>(x, k)\<in>value_regions rs. \<forall>p\<in>region x k. s' p = s p))"

lemma others_keptD:
  assumes "others_kept s s' N C q"
  shows "p \<in> N \<Longrightarrow> i < 512 \<Longrightarrow> (p, i) \<noteq> q \<Longrightarrow> node_entry s' p i = node_entry s p i"
    "C q' = Some (rs, es) \<Longrightarrow> q' \<noteq> q \<Longrightarrow> (x, k) \<in> value_regions rs \<Longrightarrow> p \<in> region x k \<Longrightarrow> s' p = s p"
  using assms unfolding others_kept_def by blast+

lemma tree_inv_update:
  assumes inv: "subtree rt lv s A N C" and q: "fst q \<in> N" "snd q < 512" "get_msb (node_entry s (fst q) (snd q)) = 0"
    and ok: "space_ok s' A'" and N: "\<And>p. p \<in> N \<Longrightarrow> p \<noteq> ROOT_PAGE \<Longrightarrow> (p, 0) \<in> A'"
    and kept: "others_kept s s' N C q"
    and sub: "\<And>q' rs es. C q' = Some (rs, es) \<Longrightarrow> q' \<noteq> q \<Longrightarrow> value_regions rs \<subseteq> A'"
    and new: "case new of None \<Rightarrow> node_entry s' (fst q) (snd q) = 0
      | Some (rs, es) \<Rightarrow> node_entry s' (fst q) (snd q) = rs ! 0 \<and> value_regions rs \<subseteq> A' \<and> value_regions rs \<inter> N \<times> {0} = {} \<and>
          leaf_ok s' rs es \<and> distinct (map kv_key es) \<and> (\<forall>e\<in>set es. leads_from rt lv s (kv_key e) q) \<and>
          (\<forall>q' rs' es'. C q' = Some (rs', es') \<longrightarrow> q' \<noteq> q \<longrightarrow> value_regions rs \<inter> value_regions rs' = {})"
  shows "subtree rt lv s' A' N (C(q := new))" "same_nodes N s s'"
proof -
  have msb: "get_msb (node_entry s' (fst q) (snd q)) = 0"
    using new leaf_ok_start(5) [OF _ ok] by (cases new) auto
  show same: "same_nodes N s s'"
    by (rule same_nodesI [of N "fst q" "snd q"]) (use others_keptD(1) [OF kept] q(3) msb in \<open>auto simp: prod_eq_iff\<close>)
  note lf = leads_to_frame [OF inv same]
  have old: "leaf_at rt lv s' A' N q' rs es" if c: "C q' = Some (rs, es)" "q' \<noteq> q" for q' rs es
  proof -
    note l = leaf_atD [OF tree_invD(7) [OF inv c(1)]]
    have "leaf_ok s' rs es"
      by (rule leaf_ok_cong [OF others_keptD(2) [OF kept c value_regionsI] l(6)])
    moreover have "node_entry s' (fst q') (snd q') = rs ! 0" using others_keptD(1) [OF kept l(1,2)] l(3) c(2) by simp
    ultimately show ?thesis using l sub [OF c] lf(1) unfolding leaf_at_def by simp
  qed
  have mine: "leaf_at rt lv s' A' N q rs es" if "new = Some (rs, es)" for rs es
    using new that q lf(1) unfolding leaf_at_def by simp
  have disj: "value_regions rs \<inter> value_regions rs' = {}" if "new = Some (rs, es)" "C q' = Some (rs', es')" "q' \<noteq> q" for rs es q' rs' es'
    using new that(2,3) unfolding that(1) option.case prod.case by blast
  show "subtree rt lv s' A' N (C(q := new))"
    unfolding subtree_def
  proof (intro conjI allI ballI impI)
    show "space_ok s' A'" by (rule ok)
    show "tree_shaped s' N rt" by (rule tree_shaped_frame [OF tree_invD(9) [OF inv] same])
    show "rt \<in> N" by (rule tree_invD(2) [OF inv])
    show "p = ROOT_PAGE \<or> (p, 0) \<in> A'" if "p \<in> N" for p using N [OF that] by blast
    show "closed_nodes s' N" using tree_invD(4) [OF inv] same unfolding closed_nodes_def same_nodes_def by metis
    show "\<exists>q. leads_from rt lv s' key q" for key using tree_invD(5) [OF inv, of key] lf(1) by simp
  next
    fix p i assume p: "p \<in> N" "i < (512::nat)" "get_msb (node_entry s' p i) = 0" "(C(q := new)) (p, i) = None"
    show "node_entry s' p i = 0"
    proof (cases "(p, i) = q")
      case True
      then have "new = None" "p = fst q" "i = snd q" using p(4) by auto
      then show ?thesis using new by simp
    next
      case False
      then have "node_entry s' p i = node_entry s p i" by (rule others_keptD(1) [OF kept p(1,2)])
      then show ?thesis using p tree_invD(6) [OF inv p(1,2)] False by simp
    qed
  next
    fix q' rs es assume "(C(q := new)) q' = Some (rs, es)"
    then show "leaf_at rt lv s' A' N q' rs es" using old mine by (cases "q' = q") simp_all
  next
    fix q1 q2 rs es rs' es' assume a: "(C(q := new)) q1 = Some (rs, es)" "(C(q := new)) q2 = Some (rs', es')" "q1 \<noteq> q2"
    show "value_regions rs \<inter> value_regions rs' = {}"
    proof (cases "q1 = q")
      case True
      then show ?thesis using a disj [of rs es q2 rs' es'] by simp
    next
      case False
      then show ?thesis using a disj [of rs' es' q1 rs es] tree_invD(8) [OF inv, of q1 rs es q2 rs' es']
        by (cases "q2 = q") (simp_all add: Int_commute)
    qed
  qed
qed

section \<open>The map\<close>

definition kv_map :: "KVEntry list \<Rightarrow> byte list \<Rightarrow> byte list option" where
  "kv_map es = map_of (map (\<lambda>e. (kv_key e, kv_value e)) es)"

definition represents :: "leaves \<Rightarrow> (byte list \<Rightarrow> byte list option) \<Rightarrow> bool" where
  "represents C M \<longleftrightarrow> (\<forall>k v. M k = Some v \<longleftrightarrow>
     (\<exists>q rs es e. C q = Some (rs, es) \<and> e \<in> set es \<and> kv_key e = k \<and> kv_value e = v))"

text \<open>The pages hold the map \<open>M\<close>; \<open>A\<close> are the regions in use.\<close>

definition map_rep :: "pages \<Rightarrow> (nat \<times> nat) set \<Rightarrow> (byte list \<Rightarrow> byte list option) \<Rightarrow> bool" where
  "map_rep s A M \<longleftrightarrow> (\<exists>N C. tree_inv s A N C \<and> represents C M) \<and> finite (dom M) \<and>
     (\<forall>k\<in>dom M. length k \<le> MAX_KEY_LENGTH) \<and> kv_entry_count s = card (dom M) mod 2 ^ 64"

lemma kv_map_Some: "distinct (map kv_key es) \<Longrightarrow> kv_map es k = Some v \<longleftrightarrow> (\<exists>e\<in>set es. kv_key e = k \<and> kv_value e = v)"
  unfolding kv_map_def by (subst map_of_eq_Some_iff) (auto simp: comp_def)

lemma kv_map_None: "kv_map es k = None \<longleftrightarrow> k \<notin> kv_key ` set es"
  by (auto simp: kv_map_def map_of_eq_None_iff image_image)

lemma represents_at:
  assumes inv: "subtree rt lv s A N C" and rep: "represents C M" and q: "leads_from rt lv s key q"
  shows "M key = (case C q of None \<Rightarrow> None | Some (rs, es) \<Rightarrow> kv_map es key)"
proof (rule option.expand [symmetric])
  let ?m = "case C q of None \<Rightarrow> None | Some (rs, es) \<Rightarrow> kv_map es key"
  have eq: "?m = Some v \<longleftrightarrow> M key = Some v" for v
  proof
    assume "?m = Some v"
    then obtain rs es where c: "C q = Some (rs, es)" "kv_map es key = Some v" by (auto split: option.splits)
    then show "M key = Some v"
      using rep kv_map_Some [OF leaf_atD(7) [OF tree_invD(7) [OF inv c(1)]]] unfolding represents_def by blast
  next
    assume "M key = Some v"
    then obtain q' rs es e where c: "C q' = Some (rs, es)" "e \<in> set es" "kv_key e = key" "kv_value e = v"
      using rep unfolding represents_def by blast
    note l = leaf_atD [OF tree_invD(7) [OF inv c(1)]]
    have "q' = q" using l(8) [OF c(2)] c(3) leads_to_unique q by blast
    then show "?m = Some v" using c kv_map_Some [OF l(7)] by auto
  qed
  show "(?m = None) = (M key = None)" using eq by (metis option.exhaust)
  show "?m \<noteq> None \<Longrightarrow> M key \<noteq> None \<Longrightarrow> the ?m = the (M key)" using eq by (metis option.exhaust_sel option.sel)
qed

lemma find_big_leaf:
  assumes b: "big_leaf s rs e" and k: "0 \<notin> set key"
  shows "find_entry_in_leaf (s (rs ! 0)) key = Inr (if kv_key e = key then 0 else - 1)"
proof -
  have st: "entry_starts (s (rs ! 0)) DATA (kv_key e) (length (kv_value e))" and big: "leaf_capacity < entry_size (kv_key e) (length (kv_value e))"
    using b by (simp_all add: big_leaf_def)
  note f = entry_startsD [OF st]
  have far: "PAGE_SIZE \<le> DATA + length (kv_key e) + 1 + 8 + length (kv_value e)"
    using big by (simp add: entry_size_def data_capacity)
  then have "find_from (s (rs ! 0)) key (DATA + length (kv_key e) + 1 + 8 + length (kv_value e)) = Inr (- 1)"
    by (simp add: find_from.simps [of _ key])
  then show ?thesis using f(1-5) f(6) [OF k]
    by (simp add: find_entry_in_leaf_def find_from.simps [of _ key DATA])
qed

lemma small_leaf_value:
  assumes h: "leaf_holds pg (xs @ e # ys)"
  shows "get_u64 pg (DATA + (length (encode_entries xs) + length (kv_key e) + 1)) = length (kv_value e)"
    "DATA + (length (encode_entries xs) + length (kv_key e) + 1) + 8 + length (kv_value e) \<le> PAGE_SIZE"
    "holds_at pg (DATA + (length (encode_entries xs) + length (kv_key e) + 1) + 8) (kv_value e)"
proof -
  have "holds_at pg (DATA + length (encode_entries xs)) (encode_kv e @ encode_entries ys @ zeros (leaf_capacity - length (encode_entries (xs @ e # ys))))"
    and v: "valid_key (kv_key e)"
    using h by (simp_all add: leaf_holds_def holds_at_append)
  note st = entry_startsD [OF entry_starts_encoded [OF this]] and r = holds_at_entry [OF this(1)]
  show "get_u64 pg (DATA + (length (encode_entries xs) + length (kv_key e) + 1)) = length (kv_value e)"
    using st(5) by (simp add: add.assoc)
  show hv: "holds_at pg (DATA + (length (encode_entries xs) + length (kv_key e) + 1) + 8) (kv_value e)"
    using r by (simp add: add.assoc)
  then show "DATA + (length (encode_entries xs) + length (kv_key e) + 1) + 8 + length (kv_value e) \<le> PAGE_SIZE"
    by (simp add: holds_at_def)
qed

lemma holds_at_part: "holds_at pg ptr v \<Longrightarrow> off + n \<le> length v \<Longrightarrow> bytes_at pg (ptr + off) n = take n (drop off v)"
  by (rule nth_equalityI) (simp_all add: holds_at_def add.assoc)

lemma big_leaf_read:
  assumes b: "big_leaf s rs e" and off: "off < length (kv_value e)" "off + n \<le> length (kv_value e)"
  shows "BigValue_read (rs ! 0) (length (kv_key e) + 1 + 8) off n s = Inr (take n (drop off (kv_value e)))"
proof -
  define voff where "voff = length (kv_key e) + 1 + 8"
  have rs: "regions s rs" and kl: "length (kv_key e) \<le> MAX_KEY_LENGTH" and cap: "length (kv_value e) \<le> base voff (length rs)"
    and vb: "\<And>j. j < length (kv_value e) \<Longrightarrow> value_byte s voff rs j = kv_value e ! j"
    using b unfolding big_leaf_def voff_def by blast+
  have v: "DATA + voff < PAGE_SIZE" unfolding voff_def by (rule key_room [OF kl])
  have "BigValue_read (rs ! 0) voff off n s = Inr (take n (drop off (kv_value e)))"
  proof (cases "n = 0")
    case True
    obtain p where "skip_to s voff off (big_start (rs ! 0)) = Inr p" "value_offset p = off"
      using skip_to_ok [OF rs v _ start_at_byte [OF rs v], of off] off(1) cap by (auto simp: big_start_def)
    moreover have "rw_loop False voff off (off mod 2 ^ 64) p [] s = Inr ([], s)"
      by (subst rw_loop.simps) (simp add: calculation(2))
    ultimately show ?thesis using True
      by (simp add: BigValue_read_def rw_impl_def zeros_def)
  next
    case False
    have "BigValue_read (rs ! 0) voff off n s = Inr (map (value_byte s voff rs) [off..<off + n])"
      by (rule read_in_regions [OF rs v]) (use off(2) cap False in simp_all)
    also have "map (value_byte s voff rs) [off..<off + n] = take n (drop off (kv_value e))"
      by (rule nth_equalityI) (use off vb in simp_all)
    finally show ?thesis .
  qed
  then show ?thesis by (simp only: voff_def)
qed

section \<open>Reading\<close>

text \<open>\<open>read_part\<close> and \<open>read_value_length\<close> do not check for an empty entry: they search the metadata
  page, as long as that looks like an empty leaf.\<close>

lemma nth_le_bytes: "i < n \<Longrightarrow> le_bytes n k ! i = of_nat (k div 256 ^ i mod 256)"
proof (induction n arbitrary: i k)
  case (Suc n)
  then show ?case by (cases i) (simp_all add: div_mult2_eq)
qed simp

lemma metadata_not_found:
  assumes "next_free_page s < 2 ^ 16"
  shows "find_entry_in_leaf (s 0) key = Inr (- 1)"
proof -
  have "bytes_at (s 0) 16 8 = le_bytes 8 (get_u64 (s 0) 16)" by (simp add: get_u64_def)
  then have "bytes_at (s 0) 16 8 ! 2 = le_bytes 8 (get_u64 (s 0) 16) ! 2" by simp
  then have "s 0 18 = of_nat (get_u64 (s 0) 16 div 256 ^ 2 mod 256)" by (simp add: nth_le_bytes)
  moreover have "get_u64 (s 0) 16 div 256 ^ 2 = 0" using assms by (simp add: next_free_page_def)
  ultimately have "s 0 DATA = 0" by (simp add: DATA_def)
  then show ?thesis by (simp add: find_entry_in_leaf_def find_from.simps [of _ key DATA])
qed

lemma get_msb_zero [simp]: "clear_msb 0 = 0"
  by (simp add: clear_msb_def)

lemma find_parent_fuel:
  assumes "leads_to s key (p, i)"
  obtains f l where "\<And>fuel. f \<le> fuel \<Longrightarrow> find_parent fuel s key = Some (p, i, l)"
  using assms find_parent_mono unfolding leads_to_def find_parent_def by (metis fst_conv snd_conv)

lemma min_length: "n < 2 ^ 64 \<Longrightarrow> m \<le> n \<Longrightarrow> min k (nat ((int n - int m) mod 2 ^ 64)) = min k (n - m)"
  by (simp add: of_nat_diff [symmetric] nat_int del: of_nat_diff)

lemma take_min_drop: "take (min n (length v - off)) (drop off v) = take n (drop off v)"
  by (cases "n \<le> length v - off") simp_all

lemma read_part_at:
  assumes inv: "tree_inv s A N C" and rep: "represents C M" and k: "valid_key key" and meta: "next_free_page s < 2 ^ 16"
    and off: "\<And>v. M key = Some v \<Longrightarrow> off < length v \<or> off = 0"
    and fp: "find_parent fuel s key = Some (p, i, l)"
  shows "DiskMap_read_part fuel key off n s = Some (Inr (map_option (\<lambda>v. take n (drop off v)) (M key)))"
    "DiskMap_read_value_length fuel key s = Some (Inr (map_option length (M key)))"
proof -
  have q: "leads_to s key (p, i)" using fp by (auto simp: leads_to_def)
  note in_tree = leads_to_in [OF inv q]
  note M = represents_at [OF inv rep q]
  have k0: "0 \<notin> set key" using k by (simp add: valid_key_def)
  have "DiskMap_read_part fuel key off n s = Some (Inr (map_option (\<lambda>v. take n (drop off v)) (M key))) \<and>
    DiskMap_read_value_length fuel key s = Some (Inr (map_option length (M key)))"
  proof (cases "C (p, i)")
    case None
    then have z: "node_entry s p i = 0" using tree_invD(6) [OF inv in_tree] by simp
    have "M key = None" using M None by simp
    then show ?thesis
      using fp z metadata_not_found [OF meta] by (simp add: DiskMap_read_part_def DiskMap_read_value_length_def)
  next
    case (Some re)
    obtain rs es where c: "C (p, i) = Some (rs, es)" using Some by (cases re) simp
    note l = leaf_atD [OF tree_invD(7) [OF inv c]]
    note st = leaf_ok_start [OF l(6) tree_invD(1) [OF inv] l(4)]
    have ne: "node_entry s p i = rs ! 0" using l(3) by simp
    have Mk: "M key = kv_map es key" using M c by simp
    have body: "DiskMap_read_part fuel key off n s = Some (bindR (find_entry_in_leaf (s (rs ! 0)) key) (\<lambda>entry_offset.
            if entry_offset = - 1 then Inr None
            else let offset = nat entry_offset + length key + 1;
                     len = get_u64 (s (rs ! 0)) (DATA + offset);
                     read_length = min n (nat ((int len - int off) mod 2 ^ 64));
                     offset = offset + 8 in
            if PAGE_SIZE < DATA + offset then Inl MemoryError
            else if leaf_next (s (rs ! 0)) \<noteq> 0
            then bindR (BigValue_read (rs ! 0) offset off read_length s) (\<lambda>buffer. Inr (Some buffer))
            else if PAGE_SIZE < DATA + offset + off + read_length then Inl MemoryError
            else Inr (Some (bytes_at (s (rs ! 0)) (DATA + offset + off) read_length))))"
      using fp ne st(5,6) by (simp add: DiskMap_read_part_def Let_def)
    have body2: "DiskMap_read_value_length fuel key s = Some (bindR (find_entry_in_leaf (s (rs ! 0)) key) (\<lambda>entry_offset.
            if entry_offset = - 1 then Inr None
            else let offset = nat entry_offset + length key + 1 in
            if PAGE_SIZE < DATA + offset + 8 then Inl MemoryError
            else Inr (Some (get_u64 (s (rs ! 0)) (DATA + offset)))))"
      using fp ne st(5,6) by (simp add: DiskMap_read_value_length_def Let_def)
    show ?thesis
      using l(6) unfolding leaf_ok_def
    proof (elim disjE exE conjE)
      fix x assume x: "rs = [x]" "leaf_holds (s x) es"
      show ?thesis
      proof (cases "offset_of key es")
        case None
        then have "M key = None" using Mk kv_map_None offset_of_None by metis
        then show ?thesis unfolding body body2 using find_entry_holds [OF x(2) k0] None x(1) by simp
      next
        case (Some m)
        then obtain xs e ys where e: "es = xs @ e # ys" "kv_key e = key" "m = length (encode_entries xs)"
          using offset_of_Some by metis
        have Me: "M key = Some (kv_value e)" using Mk kv_map_Some [OF l(7)] e by auto
        note v = small_leaf_value [OF x(2) [unfolded e(1)]]
        have len: "length (kv_value e) < 2 ^ 64" using v(2) by simp
        have o: "off \<le> length (kv_value e)" using off [OF Me] by auto
        define r where "r = min n (length (kv_value e) - off)"
        have mr: "min n (nat ((int (length (kv_value e)) - int off) mod 2 ^ 64)) = r" unfolding r_def by (rule min_length [OF len o])
        define w where "w = m + length key + 1"
        have w: "nat (int m) + length key + 1 = w" "[x] ! 0 = x" by (simp_all add: w_def)
        have "bytes_at (s x) (DATA + w + 8 + off) r = take r (drop off (kv_value e))"
          using holds_at_part [OF v(3), of off r] o by (simp add: e(2,3) r_def w_def)
        also have "\<dots> = take n (drop off (kv_value e))" unfolding r_def by (rule take_min_drop)
        finally have bts: "bytes_at (s x) (DATA + w + 8 + off) r = take n (drop off (kv_value e))" .
        have nx: "leaf_next (s x) = 0" using x(2) by (simp add: leaf_holds_def)
        have fe: "find_entry_in_leaf (s x) key = Inr (int m)" using find_entry_holds [OF x(2) k0] Some by simp
        have g: "get_u64 (s x) (DATA + w) = length (kv_value e)" using v(1) by (simp only: e(2,3) w_def)
        have b1: "\<not> PAGE_SIZE < DATA + w + 8" "\<not> PAGE_SIZE < DATA + w + 8 + off + r"
          using v(2) o unfolding e(2) by (simp_all add: r_def w_def e(3))
        have neg: "int m \<noteq> - 1" by simp
        have "DiskMap_read_part fuel key off n s = Some (Inr (Some (take n (drop off (kv_value e)))))"
          unfolding body Let_def x(1) w(2) fe bindR_simps w(1) g mr if_not_P [OF neg] nx using b1 bts by (simp add: add.assoc)
        moreover have "DiskMap_read_value_length fuel key s = Some (Inr (Some (length (kv_value e))))"
          unfolding body2 Let_def x(1) w(2) fe bindR_simps w(1) g if_not_P [OF neg] using b1 by (simp add: add.assoc)
        ultimately show ?thesis using Me by simp
      qed
    next
      fix e assume e: "es = [e]" "big_leaf s rs e"
      have fe: "find_entry_in_leaf (s (rs ! 0)) key = Inr (if kv_key e = key then 0 else - 1)" by (rule find_big_leaf [OF e(2) k0])
      show ?thesis
      proof (cases "kv_key e = key")
        case False
        then have "M key = None" using Mk e(1) by (simp add: kv_map_def)
        then show ?thesis unfolding body body2 using fe False by simp
      next
        case True
        then have Me: "M key = Some (kv_value e)" using Mk e(1) by (simp add: kv_map_def)
        have b: "entry_starts (s (rs ! 0)) DATA key (length (kv_value e))" "2 \<le> length rs" "regions s rs"
          "leaf_capacity < entry_size key (length (kv_value e))" "length key \<le> MAX_KEY_LENGTH"
          using e(2) True unfolding big_leaf_def by blast+
        note f = entry_startsD [OF b(1)]
        have len: "length (kv_value e) < 2 ^ 64" using b(1) by (simp add: entry_starts_def)
        have pos: "0 < length (kv_value e)" using b(4,5) by (cases "kv_value e") (simp_all add: entry_size_def data_capacity MAX_KEY_LENGTH_def)
        then have o: "off < length (kv_value e)" using off [OF Me] by auto
        define r where "r = min n (length (kv_value e) - off)"
        have mr: "min n (nat ((int (length (kv_value e)) - int off) mod 2 ^ 64)) = r" unfolding r_def by (rule min_length [OF len]) (use o in simp)
        have "BigValue_read (rs ! 0) (length key + 1 + 8) off r s = Inr (take r (drop off (kv_value e)))"
          using big_leaf_read [OF e(2) o, of r] o True by (simp add: r_def)
        also have "take r (drop off (kv_value e)) = take n (drop off (kv_value e))" unfolding r_def by (rule take_min_drop)
        finally have bts: "BigValue_read (rs ! 0) (length key + 1 + 8) off r s = Inr (take n (drop off (kv_value e)))" .
        have "0 < length rs" using b(2) by linarith
        then have nx: "leaf_next (s (rs ! 0)) \<noteq> 0"
          using regionsD(5) [OF b(3), of 0] regionsD(3) [OF b(3), of 1] b(2) by (simp add: next_region_start_def)
        have e0: "(if kv_key e = key then 0 else - 1 :: int) = 0" "(0::int) \<noteq> - 1" "nat 0 + length key + 1 = length key + 1"
          using True by simp_all
        have g: "get_u64 (s (rs ! 0)) (DATA + (length key + 1)) = length (kv_value e)" using f(5) by simp
        have b1: "\<not> PAGE_SIZE < DATA + (length key + 1 + 8)" "\<not> PAGE_SIZE < DATA + (length key + 1) + 8" using f(4) by simp_all
        have "DiskMap_read_part fuel key off n s = Some (Inr (Some (take n (drop off (kv_value e)))))"
          unfolding body Let_def fe e0(1) bindR_simps if_not_P [OF e0(2)] e0(3) g mr if_not_P [OF b1(1)] if_P [OF nx] bts ..
        moreover have "DiskMap_read_value_length fuel key s = Some (Inr (Some (length (kv_value e))))"
          unfolding body2 Let_def fe e0(1) bindR_simps if_not_P [OF e0(2)] e0(3) g if_not_P [OF b1(2)] ..
        ultimately show ?thesis using Me by simp
      qed
    qed
  qed
  then show "DiskMap_read_part fuel key off n s = Some (Inr (map_option (\<lambda>v. take n (drop off v)) (M key)))"
    "DiskMap_read_value_length fuel key s = Some (Inr (map_option length (M key)))" by simp_all
qed

end
