(* ===== verification/Map_Write.thy ===== *)
theory Map_Write
  imports Prelude Hashing Pages Space_Manager Leaf Big_Value Disk_Map Map_Invariant
begin

text \<open>
  Writing to a well-formed map: new leaves for one entry, small and big, entries added to a leaf and
  values replaced in place, each shown to keep the invariant and to change the map just at the key.
\<close>

section \<open>New leaves\<close>

text \<open>A bound on the pages a new leaf for one entry takes.\<close>

definition page_cost :: "nat \<Rightarrow> nat" where
  "page_cost n = (if n \<le> leaf_capacity then 1 else 1 + 2 ^ 19)"

text \<open>A leaf in regions that were not in use; everything in use is as before.\<close>

definition leaf_made :: "pages \<Rightarrow> (nat \<times> nat) set \<Rightarrow> nat list \<Rightarrow> KVEntry list \<Rightarrow> pages \<Rightarrow> bool" where
  "leaf_made s A rs es s' \<longleftrightarrow> space_ok s' (A \<union> value_regions rs) \<and> value_regions rs \<inter> A = {} \<and> kept A s s' \<and> leaf_ok s' rs es"

lemma set_msb_page: "page_ok x \<Longrightarrow> set_msb x 0 = x"
  by (simp add: set_msb_def page_ok_def)

lemma kept_refl [simp]: "kept A s s"
  by (simp add: kept_def)

lemma keptD:
  assumes "kept A s s'"
  shows "s' 1 = s 1" "kv_entry_count s' = kv_entry_count s" "(x, k) \<in> A \<Longrightarrow> p \<in> region x k \<Longrightarrow> s' p = s p"
  using assms unfolding kept_def by blast+

lemma page_write_kept:
  assumes ok: "space_ok s (insert (x, 0) A)" and new: "(x, 0) \<notin> A"
  shows "kept A s (s(x := pg))" "space_ok (s(x := pg)) (insert (x, 0) A)" "next_free_page (s(x := pg)) = next_free_page s"
proof -
  have x: "x \<noteq> 0" "x \<noteq> 1" using space_okD(1) [OF ok, of x 0 x] by simp_all
  have "x \<notin> region y j" if "(y, j) \<in> A" for y j
  proof -
    have "(x, 0) \<noteq> (y, j)" using that new by blast
    then have "region x 0 \<inter> region y j = {}" by (rule space_okD(4) [OF ok insertI1 insertI2 [OF that]])
    then show ?thesis by simp
  qed
  then show "kept A s (s(x := pg))" using x by (auto simp: kept_def kv_entry_count_def)
  show "space_ok (s(x := pg)) (insert (x, 0) A)" by (rule space_ok_write [OF ok]) simp
  show "next_free_page (s(x := pg)) = next_free_page s" using x by (simp add: next_free_page_def)
qed

lemma value_regions_single: "value_regions [x] = {(x, 0)}"
  by (simp add: value_regions_def lessThan_Suc)

lemma create_leaf_made:
  assumes ok: "space_ok s A" and room: "next_free_page s + 1 \<le> 2 ^ 52" and k: "\<forall>e\<in>set es. valid_key (kv_key e)"
    and fits: "total_entries_size es \<le> leaf_capacity" "length es < 2 ^ 16" "es \<noteq> []"
  obtains x s' where "create_leaf es s = Inr (x, s')" "leaf_made s A [x] es s'" "next_free_page s' \<le> next_free_page s + 1"
proof -
  obtain x s1 where x: "SpaceManager_allocate 0 s = Inr (x, s1)" "allocated 0 A s x s1"
    by (rule allocate_ok [OF ok, of 0]) (use room in simp_all)
  have ok1: "space_ok s1 (insert (x, 0) A)" and new: "(x, 0) \<notin> A" and kp: "kept A s s1" and z: "is_zero (s1 x)"
    and nf: "next_free_page s1 \<le> next_free_page s + 1" using x(2) by (simp_all add: allocated_def)
  have px: "page_ok x" using space_okD(1) [OF ok1, of x 0 x] by simp
  obtain pg where pg: "fill_leaf x es s1 = Inr (s1(x := pg))" "leaf_holds pg es"
    by (rule fill_leaf_holds [of s1 x es, OF z px k fits(1,2)])
  note w = page_write_kept [OF ok1 new, of pg]
  have "kept A s (s1(x := pg))" by (rule kept_trans [OF kp w(1)]) auto
  moreover have "leaf_ok (s1(x := pg)) [x] es" using pg(2) fits(2,3) by (simp add: leaf_ok_def)
  ultimately have "leaf_made s A [x] es (s1(x := pg))"
    using w(2) new by (simp add: leaf_made_def value_regions_single Un_commute)
  moreover have "create_leaf es s = Inr (x, s1(x := pg))" using x(1) pg(1) px by (simp add: create_leaf_def set_msb_page)
  ultimately show thesis using that w(3) nf by simp
qed

lemma create_big_leaf_made:
  assumes ok: "space_ok s A" and room: "next_free_page s + 1 + 2 ^ 19 \<le> 2 ^ 52" and k: "valid_key (kv_key e)" "length (kv_key e) \<le> MAX_KEY_LENGTH"
    and big: "leaf_capacity < total_entries_size [e]" and bound: "total_entries_size [e] \<le> 2 ^ 31 - 2 ^ 13"
  obtains rs s' where "create_big_leaf e s = Inr (rs ! 0, s')" "leaf_made s A rs [e] s'" "next_free_page s' \<le> next_free_page s + 1 + 2 ^ 19"
proof -
  define voff where "voff = length (kv_key e) + 1 + 8"
  define n where "n = length (kv_value e)"
  have size: "total_entries_size [e] = voff + n" "entry_size (kv_key e) n = voff + n" by (simp_all add: total_entries_size_def entry_size_def voff_def n_def)
  have v: "DATA + voff < PAGE_SIZE" unfolding voff_def by (rule key_room [OF k(2)])
  have v4: "voff < 4078" using v by (simp add: DATA_def)
  have ne: "kv_value e \<noteq> []" using big size v4 by (auto simp: n_def data_capacity)
  obtain x s1 where x: "SpaceManager_allocate 0 s = Inr (x, s1)" "allocated 0 A s x s1"
    by (rule allocate_ok [OF ok, of 0]) (use room in simp_all)
  have ok1: "space_ok s1 (insert (x, 0) A)" and new: "(x, 0) \<notin> A" and kp: "kept A s s1" and z: "is_zero (s1 x)"
    and nf: "next_free_page s1 \<le> next_free_page s + 1" using x(2) by (simp_all add: allocated_def)
  have px: "page_ok x" using space_okD(1) [OF ok1, of x 0 x] by simp
  define hdr where "hdr = kv_key e @ [0] @ le_bytes 8 n"
  have lh: "length hdr = voff" by (simp add: hdr_def voff_def)
  define pg where "pg = blit (blit (blit (s1 x) 8 (le_bytes 8 (voff + n))) 16 (le_bytes 2 1)) (DATA + 0) hdr"
  define s2 where "s2 = s1(x := pg)"
  note w = page_write_kept [OF ok1 new, of pg, folded s2_def]
  define t1 where "t1 = s1(x := blit (s1 x) 8 (le_bytes 8 (voff + n)))"
  define t2 where "t2 = s1(x := blit (blit (s1 x) 8 (le_bytes 8 (voff + n))) 16 (le_bytes 2 1))"
  have puts: "put_leaf_usage x (voff + n) s1 = Inr t1" "put_leaf_entry_count x 1 t1 = Inr t2" "put_leaf_data x 0 hdr t2 = Inr s2"
    using px v4 by (simp_all add: put_leaf_ok lh s2_def t1_def t2_def pg_def data_capacity)
  have hdrs: "leaf_next pg = 0" "leaf_usage pg = (voff + n) mod 2 ^ 64" "leaf_entry_count pg = 1"
  proof -
    have "leaf_next (s1 x) = 0" using is_zero_get(1) [OF z, of 0] by (simp add: leaf_next_def)
    then show "leaf_next pg = 0" "leaf_usage pg = (voff + n) mod 2 ^ 64" "leaf_entry_count pg = 1" by (simp_all add: pg_def)
  qed
  have hold: "holds_at pg DATA hdr" using v lh by (simp add: pg_def holds_at_blit)
  have rs: "regions s2 [x]"
    by (rule regions_of_space [OF w(2)]) (use hdrs(1) in \<open>simp_all add: value_regions_single linked_def next_region_start_def s2_def\<close>)
  have b: "voff + 0 + length (kv_value e) \<le> base 0 19" using bound size base_19 by (simp add: n_def)
  obtain zs s3 where s3: "BigValue_write ([x] ! 0) voff 0 (kv_value e) s2 = Inr s3"
    "big_written voff [x] (insert (x, 0) A) 0 (kv_value e) s2 zs s3" "next_free_page s3 \<le> next_free_page s2 + 2 ^ 19"
    by (rule big_write_ok [OF rs w(2) _ v b ne]) (use room nf w(3) in \<open>simp_all add: value_regions_single\<close>)
  define R where "R = x # zs"
  note bw = big_writtenD [OF s3(2)]
  have app: "[x] @ zs = R" by (simp add: R_def)
  have R: "regions s3 R" "space_ok s3 (insert (x, 0) A \<union> value_regions R)" "n \<le> base voff (length R)"
    "value_regions R \<inter> insert (x, 0) A = {(x, 0)}" "s3 1 = s2 1" "kv_entry_count s3 = kv_entry_count s2"
    using bw(1,2,3,6,7,10) unfolding app by (simp_all add: n_def value_regions_single)
  have val: "value_byte s3 voff R j = kv_value e ! j" if "j < base voff (length R)" "j < n" for j
    using bw(4) [of j] that unfolding app by (simp add: n_def)
  have first: "s3 x b = s2 x b" if "8 \<le> b" "b < DATA + voff" for b using bw(9) [OF that] by simp
  have other: "s3 p = s2 p" if "(y, j) \<in> A" "p \<in> region y j" for y j p
  proof (rule bw(8) [OF insertI2 [OF that(1)] _ that(2)])
    show "(y, j) \<notin> value_regions [x]" unfolding value_regions_single using that(1) new by blast
  qed
  have xR: "(x, 0) \<in> value_regions R" using value_regionsI [of 0 R] by (simp add: R_def)
  have cap: "base voff 1 + voff = leaf_capacity" using v by (simp add: room_in_def header_def leaf_capacity_def)
  have two: "2 \<le> length R"
  proof (rule ccontr)
    assume "\<not> 2 \<le> length R"
    then have "base voff (length R) \<le> base voff 1" by (intro base_mono) simp
    then show False using R(3) cap big size by linarith
  qed
  have same: "bytes_at (s3 x) o' m = bytes_at pg o' m" if "8 \<le> o'" "o' + m \<le> DATA + voff" for o' m
    by (rule nth_equalityI) (use first that in \<open>simp_all add: s2_def\<close>)
  have st: "entry_starts (s3 x) DATA (kv_key e) n"
  proof -
    have "holds_at (s3 x) DATA hdr" using hold lh first unfolding holds_at_def by (simp add: s2_def DATA_def)
    moreover have "n < 2 ^ 64" using bound size by simp
    ultimately show ?thesis using k(1) by (simp add: entry_starts_def hdr_def valid_key_def)
  qed
  have "big_leaf s3 R e"
    unfolding big_leaf_def voff_def [symmetric] n_def [symmetric]
  proof (intro conjI allI impI)
    show "2 \<le> length R" "regions s3 R" "valid_key (kv_key e)" "length (kv_key e) \<le> MAX_KEY_LENGTH" "n \<le> base voff (length R)"
      by (fact two R(1) k R(3))+
    show "entry_starts (s3 (R ! 0)) DATA (kv_key e) n" using st by (simp add: R_def)
    show "leaf_entry_count (s3 (R ! 0)) = 1" using same [of 16 2] hdrs(3) by (simp add: R_def leaf_entry_count_def get_u16_def DATA_def)
    show "leaf_usage (s3 (R ! 0)) = entry_size (kv_key e) n"
      using same [of 8 8] hdrs(2) bound size by (simp add: R_def leaf_usage_def get_u64_def DATA_def)
    show "leaf_capacity < entry_size (kv_key e) n" using big size by simp
    show "value_byte s3 voff R j = kv_value e ! j" if "j < n" for j using val that R(3) by simp
  qed
  then have leaf: "leaf_ok s3 R [e]" by (simp add: leaf_ok_def)
  have kept3: "kept A s s3"
  proof (rule keptI)
    show "s3 1 = s 1" using R(5) keptD(1) [OF w(1)] keptD(1) [OF kp] by simp
    show "kv_entry_count s3 = kv_entry_count s" using R(6) keptD(2) [OF w(1)] keptD(2) [OF kp] by simp
    show "s3 p = s p" if "(y, j) \<in> A" "p \<in> region y j" for y j p
      using other [OF that] keptD(3) [OF w(1) that] keptD(3) [OF kp that] by simp
  qed
  have "value_regions R \<inter> A = {}" by (rule Int_insert_out [OF R(4) new]) simp
  moreover have "insert (x, 0) A \<union> value_regions R = A \<union> value_regions R" using xR by blast
  ultimately have made: "leaf_made s A R [e] s3" using R(2) kept3 leaf by (simp add: leaf_made_def)
  have "create_big_leaf e s = Inr (R ! 0, s3)"
    unfolding create_big_leaf_def size(1) n_def [symmetric] voff_def [symmetric] hdr_def [symmetric] x(1) bindR_simps prod.case puts s3(1) [simplified]
    using px by (simp add: set_msb_page R_def s3(1) [simplified])
  moreover have "next_free_page s3 \<le> next_free_page s + 1 + 2 ^ 19" using s3(3) w(3) nf by simp
  ultimately show thesis using that made by blast
qed

section \<open>Entries of nodes\<close>

definition set_entry :: "nat \<Rightarrow> nat \<Rightarrow> nat \<Rightarrow> pages \<Rightarrow> pages" where
  "set_entry p i v s = s(p := blit (s p) (8 * i) (le_bytes 8 v))"

lemma put_node_entry_ok: "page_ok p \<Longrightarrow> i < 512 \<Longrightarrow> put_node_entry p i v s = Inr (set_entry p i v s)"
  unfolding put_node_entry_def set_entry_def by (rule put_u64_ok) simp_all

lemma node_entry_set: "node_entry (set_entry p i v s) q j = (if q = p \<and> j = i then v mod 2 ^ 64 else node_entry s q j)"
proof (cases "q = p")
  case True
  then show ?thesis
    by (cases i j rule: linorder_cases) (simp_all add: node_entry_def set_entry_def get_u64_blit)
qed (simp add: node_entry_def set_entry_def)

lemma set_entry_other [simp]: "q \<noteq> p \<Longrightarrow> set_entry p i v s q = s q"
  by (simp add: set_entry_def)

lemma count_entry_ok: "count_entry s = Inr (upd_u64 0 8 ((kv_entry_count s + 1) mod 2 ^ 64) s)"
  by (simp add: count_entry_def put_meta_defs put_upd)

section \<open>Frame lemmas\<close>

text \<open>The pages of leaves are not nodes, and neither is page 0.\<close>

lemma node_page:
  assumes "subtree rt lv s A N C" "p \<in> N"
  shows "page_ok p" "p \<noteq> 0" "p = 1 \<or> (p, 0) \<in> A"
proof -
  show m: "p = 1 \<or> (p, 0) \<in> A" using tree_invD(3) [OF assms] by (simp add: ROOT_PAGE_def)
  show "page_ok p" "p \<noteq> 0" using m space_okD(1) [OF tree_invD(1) [OF assms(1)], of p 0 p] by (auto simp: page_ok_def)
qed

lemma region_not_node:
  assumes "space_ok s A" "V \<subseteq> A" "V \<inter> N \<times> {0} = {}" "p \<in> N" "p = 1 \<or> (p, 0) \<in> A" "(x, k) \<in> V" "pg \<in> region x k"
  shows "pg \<noteq> p"
proof
  assume e: "pg = p"
  have a: "(x, k) \<in> A" using assms(2,6) by blast
  have "pg \<noteq> 1" using space_okD(1) [OF assms(1) a assms(7)] by simp
  then have pA: "(p, 0) \<in> A" using assms(5) e by blast
  have "(x, k) \<noteq> (p, 0)" using assms(3,4,6) by blast
  then have "region x k \<inter> region p 0 = {}" by (rule space_okD(4) [OF assms(1) a pA])
  then show False using assms(7) e by simp
qed

lemma leaf_not_node:
  assumes inv: "subtree rt lv s A N C" and c: "C q = Some (rs, es)" and p: "p \<in> N" and x: "(x, k) \<in> value_regions rs" "pg \<in> region x k"
  shows "pg \<noteq> p"
proof -
  note l = leaf_atD [OF tree_invD(7) [OF inv c]]
  show ?thesis by (rule region_not_node [OF tree_invD(1) [OF inv] l(4,5) p node_page(3) [OF inv p] x])
qed

lemma leaf_page_in_use:
  assumes "subtree rt lv s A N C" "C q = Some (rs, es)" "(x, k) \<in> value_regions rs"
  shows "(x, k) \<in> A"
  using leaf_atD(4) [OF tree_invD(7) [OF assms(1,2)]] assms(3) by blast

text \<open>Nothing of the tree changes.\<close>

lemma tree_inv_pages:
  assumes inv: "subtree rt lv s A N C" and ok: "space_ok s' A" and nodes: "\<And>p. p \<in> N \<Longrightarrow> s' p = s p"
    and leaves: "\<And>q rs es x k p. C q = Some (rs, es) \<Longrightarrow> (x, k) \<in> value_regions rs \<Longrightarrow> p \<in> region x k \<Longrightarrow> s' p = s p"
  shows "subtree rt lv s' A N C"
proof -
  obtain q where q: "leads_from rt lv s [] q" using tree_invD(5) [OF inv] by blast
  have n: "node_entry s' p i = node_entry s p i" if "p \<in> N" for p i using nodes [OF that] by (simp add: node_entry_def)
  have "leads_from rt lv s [] (fst q, snd q)" using q by simp
  note in_tree = leads_to_in [OF inv this]
  have "subtree rt lv s' A N (C(q := C q))"
  proof (rule tree_inv_update(1) [OF inv in_tree ok])
    show "others_kept s s' N C q" unfolding others_kept_def using n leaves by blast
    show "(p, 0) \<in> A" if "p \<in> N" "p \<noteq> ROOT_PAGE" for p using tree_invD(3) [OF inv that(1)] that(2) by blast
    show "value_regions rs \<subseteq> A" if "C q' = Some (rs, es)" for q' rs es using leaf_atD(4) [OF tree_invD(7) [OF inv that]] .
    show "case C q of None \<Rightarrow> node_entry s' (fst q) (snd q) = 0
      | Some (rs, es) \<Rightarrow> node_entry s' (fst q) (snd q) = rs ! 0 \<and> value_regions rs \<subseteq> A \<and> value_regions rs \<inter> N \<times> {0} = {} \<and>
          leaf_ok s' rs es \<and> distinct (map kv_key es) \<and> (\<forall>e\<in>set es. leads_from rt lv s (kv_key e) q) \<and>
          (\<forall>q' rs' es'. C q' = Some (rs', es') \<longrightarrow> q' \<noteq> q \<longrightarrow> value_regions rs \<inter> value_regions rs' = {})"
    proof (cases "C q")
      case None
      then show ?thesis using tree_invD(6) [OF inv in_tree] n [OF in_tree(1)] by simp
    next
      case (Some re)
      obtain rs es where c: "C q = Some (rs, es)" using Some by (cases re) simp
      note l = leaf_atD [OF tree_invD(7) [OF inv c]]
      have lo: "leaf_ok s' rs es" by (rule leaf_ok_cong [OF leaves [OF c value_regionsI] l(6)])
      have "node_entry s' (fst q) (snd q) = rs ! 0" using n [OF l(1)] l(3) by simp
      moreover have "value_regions rs \<inter> value_regions rs' = {}" if "C q' = Some (rs', es')" "q' \<noteq> q" for q' rs' es'
        using tree_invD(8) [OF inv c that(1)] that(2) by simp
      ultimately show ?thesis unfolding c option.case prod.case by (intro conjI l(4,5,7) lo ballI l(8)) simp_all
    qed
  qed
  then show ?thesis by simp
qed

lemma tree_inv_count:
  assumes inv: "subtree rt lv s A N C"
  shows "subtree rt lv (upd_u64 0 8 v s) A N C"
proof (rule tree_inv_pages [OF inv space_ok_count(1) [OF tree_invD(1) [OF inv]]])
  show "upd_u64 0 8 v s p = s p" if "p \<in> N" for p using node_page(2) [OF inv that] by simp
  show "upd_u64 0 8 v s p = s p" if "C q = Some (rs, es)" "(x, k) \<in> value_regions rs" "p \<in> region x k" for q rs es x k p
    using space_okD(1) [OF tree_invD(1) [OF inv] leaf_page_in_use [OF inv that(1,2)] that(3)] by simp
qed

text \<open>The contents of one leaf change.\<close>

lemma represents_update:
  assumes inv: "subtree rt lv s A N C" and rep: "represents C M" and q: "fst q \<in> N" "snd q < 512"
    and keys: "case new of None \<Rightarrow> True | Some (rs, es) \<Rightarrow> distinct (map kv_key es) \<and> (\<forall>e\<in>set es. leads_from rt lv s (kv_key e) q)"
  shows "represents (C(q := new)) (\<lambda>k. if leads_from rt lv s k q then (case new of None \<Rightarrow> None | Some (rs, es) \<Rightarrow> kv_map es k) else M k)"
    (is "represents _ ?M")
  unfolding represents_def
proof (intro allI)
  fix k v
  let ?stored = "\<lambda>C. \<exists>q rs es e. C q = Some (rs, es) \<and> e \<in> set es \<and> kv_key e = k \<and> kv_value e = v"
  have at: "leads_from rt lv s k q'" if "C q' = Some (rs, es)" "e \<in> set es" "kv_key e = k" for q' rs es e
    using leaf_atD(8) [OF tree_invD(7) [OF inv that(1)] that(2)] that(3) by simp
  show "?M k = Some v \<longleftrightarrow> ?stored (C(q := new))"
  proof (cases "leads_from rt lv s k q")
    case True
    have other: "q' = q" if "C q' = Some (rs, es)" "e \<in> set es" "kv_key e = k" for q' rs es e
      using at [OF that] leads_to_unique True by blast
    show ?thesis
    proof (cases new)
      case None
      have "\<not> ?stored (C(q := new))" using other None by (auto split: if_splits)
      then show ?thesis using True None by simp
    next
      case (Some re)
      obtain rs es where n: "new = Some (rs, es)" using Some by (cases re) simp
      have "distinct (map kv_key es)" using keys n by simp
      from kv_map_Some [OF this, of k v] have "?M k = Some v \<longleftrightarrow> (\<exists>e\<in>set es. kv_key e = k \<and> kv_value e = v)" using True n by simp
      also have "\<dots> \<longleftrightarrow> ?stored (C(q := new))"
      proof
        assume "\<exists>e\<in>set es. kv_key e = k \<and> kv_value e = v"
        moreover have "(C(q := new)) q = Some (rs, es)" using n by simp
        ultimately show "?stored (C(q := new))" by blast
      next
        assume "?stored (C(q := new))"
        then obtain q' rs' es' e where e: "(C(q := new)) q' = Some (rs', es')" "e \<in> set es'" "kv_key e = k" "kv_value e = v" by blast
        have "q' = q" using e other by (cases "q' = q") auto
        then show "\<exists>e\<in>set es. kv_key e = k \<and> kv_value e = v" using e n by auto
      qed
      finally show ?thesis .
    qed
  next
    case False
    have "?stored (C(q := new)) \<longleftrightarrow> ?stored C"
    proof
      assume "?stored (C(q := new))"
      then obtain q' rs' es' e where e: "(C(q := new)) q' = Some (rs', es')" "e \<in> set es'" "kv_key e = k" "kv_value e = v" by blast
      have "q' \<noteq> q" using e keys False by auto
      then have "C q' = Some (rs', es')" using e(1) by simp
      then show "?stored C" using e by blast
    next
      assume "?stored C"
      then obtain q' rs' es' e where e: "C q' = Some (rs', es')" "e \<in> set es'" "kv_key e = k" "kv_value e = v" by blast
      have "q' \<noteq> q" using at [OF e(1-3)] False by blast
      then have "(C(q := new)) q' = Some (rs', es')" using e(1) by simp
      then show "?stored (C(q := new))" using e by blast
    qed
    then show ?thesis using False rep unfolding represents_def by simp
  qed
qed

section \<open>A leaf for an empty entry, and a leaf changed in place\<close>

lemma attach_leaf:
  assumes inv: "subtree rt lv s A N C" and q: "p \<in> N" "i < 512" "node_entry s p i = 0" "C (p, i) = None"
    and made: "leaf_made s A rs es s1" and es: "distinct (map kv_key es)" "\<forall>e\<in>set es. leads_from rt lv s (kv_key e) (p, i)"
  shows "subtree rt lv (set_entry p i (rs ! 0) s1) (A \<union> value_regions rs) N (C((p, i) \<mapsto> (rs, es)))"
    "kv_entry_count (set_entry p i (rs ! 0) s1) = kv_entry_count s" "next_free_page (set_entry p i (rs ! 0) s1) = next_free_page s1"
    "node_entry s1 p i = 0"
proof -
  define s' where "s' = set_entry p i (rs ! 0) s1"
  have ok1: "space_ok s1 (A \<union> value_regions rs)" and new: "value_regions rs \<inter> A = {}" and kp: "kept A s s1" and lf: "leaf_ok s1 rs es"
    using made by (simp_all add: leaf_made_def)
  have nodes: "p' = 1 \<or> (p', 0) \<in> A" if "p' \<in> N" for p' by (rule node_page(3) [OF inv that])
  have same: "s1 p' = s p'" if "p' \<in> N" for p' using nodes [OF that] keptD(1) [OF kp] keptD(3) [OF kp, of p' 0 p'] by auto
  show zero: "node_entry s1 p i = 0" using q(3) same [OF q(1)] by (simp add: node_entry_def)
  have disjN: "value_regions rs \<inter> N \<times> {0} = {}"
  proof (rule ccontr)
    assume "value_regions rs \<inter> N \<times> {0} \<noteq> {}"
    then obtain y where y: "(y, 0) \<in> value_regions rs" "y \<in> N" by blast
    have "41 \<le> y" by (rule space_okD(2) [OF ok1]) (use y(1) in blast)
    then have "(y, 0) \<in> A" using nodes [OF y(2)] by simp
    then show False using y(1) new by blast
  qed
  note st = leaf_ok_start [OF lf ok1 Un_upper2]
  have ok': "space_ok s' (A \<union> value_regions rs)"
    unfolding s'_def set_entry_def
  proof (rule space_ok_write [OF ok1])
    show "p = 1 \<or> (\<exists>(x, k)\<in>A \<union> value_regions rs. p \<in> region x k)"
      using nodes [OF q(1)] by (elim disjE) (simp, intro disjI2 bexI [of _ "(p, 0)"], simp_all)
  qed
  have np: "s' pg = s1 pg" if "pg \<noteq> p" for pg using that by (simp add: s'_def)
  have entry: "node_entry s' p i = rs ! 0" using st(3) by (simp add: s'_def node_entry_set page_ok_def)
  have "subtree rt lv s' (A \<union> value_regions rs) N (C((p, i) := Some (rs, es)))"
  proof (rule tree_inv_update(1) [OF inv _ _ _ ok'])
    show "fst (p, i) \<in> N" "snd (p, i) < 512" "get_msb (node_entry s (fst (p, i)) (snd (p, i))) = 0" using q by simp_all
    show "(p', 0) \<in> A \<union> value_regions rs" if "p' \<in> N" "p' \<noteq> ROOT_PAGE" for p'
      using nodes [OF that(1)] that(2) by (simp add: ROOT_PAGE_def)
    show "others_kept s s' N C (p, i)"
      unfolding others_kept_def
    proof (intro conjI ballI allI impI)
      fix p' j assume p': "p' \<in> N" "j < (512::nat)" "(p', j) \<noteq> (p, i)"
      have "node_entry s' p' j = node_entry s1 p' j" using p'(3) by (auto simp: s'_def node_entry_set)
      then show "node_entry s' p' j = node_entry s p' j" using same [OF p'(1)] by (simp add: node_entry_def)
    next
      fix q' rs' es' y assume c: "C q' = Some (rs', es')" "y \<in> value_regions rs'"
      have "s' pg = s pg" if x: "(x, k) = y" "pg \<in> region x k" for x k pg
      proof -
        have "(x, k) \<in> value_regions rs'" using c(2) x(1) by simp
        note this [THEN leaf_not_node [OF inv c(1) q(1) _ x(2)]] this [THEN leaf_page_in_use [OF inv c(1)]]
        then show ?thesis using np keptD(3) [OF kp _ x(2)] by simp
      qed
      then show "case y of (x, k) \<Rightarrow> \<forall>p\<in>region x k. s' p = s p" by (cases y) simp
    qed
    show "value_regions rs' \<subseteq> A \<union> value_regions rs" if "C q' = Some (rs', es')" for q' rs' es'
      using leaf_atD(4) [OF tree_invD(7) [OF inv that]] by blast
    have "leaf_ok s' rs es"
    proof (rule leaf_ok_cong [OF _ lf])
      fix d pg assume d: "d < length rs" "pg \<in> region (rs ! d) d"
      have "pg \<noteq> p"
        by (rule region_not_node [OF ok1 Un_upper2 disjN q(1) _ value_regionsI [OF d(1)] d(2)]) (use nodes [OF q(1)] in blast)
      then show "s' pg = s1 pg" by (rule np)
    qed
    moreover have "value_regions rs \<inter> value_regions rs' = {}" if "C q' = Some (rs', es')" for q' rs' es'
      using leaf_atD(4) [OF tree_invD(7) [OF inv that]] new by blast
    ultimately show "case Some (rs, es) of None \<Rightarrow> node_entry s' (fst (p, i)) (snd (p, i)) = 0
      | Some (r, f) \<Rightarrow> node_entry s' (fst (p, i)) (snd (p, i)) = r ! 0 \<and> value_regions r \<subseteq> A \<union> value_regions rs \<and>
          value_regions r \<inter> N \<times> {0} = {} \<and> leaf_ok s' r f \<and> distinct (map kv_key f) \<and> (\<forall>e\<in>set f. leads_from rt lv s (kv_key e) (p, i)) \<and>
          (\<forall>q' rs' es'. C q' = Some (rs', es') \<longrightarrow> q' \<noteq> (p, i) \<longrightarrow> value_regions r \<inter> value_regions rs' = {})"
      unfolding option.case prod.case using entry disjN es by (intro conjI allI impI) simp_all
  qed
  then show "subtree rt lv (set_entry p i (rs ! 0) s1) (A \<union> value_regions rs) N (C((p, i) \<mapsto> (rs, es)))" by (simp only: s'_def)
  have "p \<noteq> 0" by (rule node_page(2) [OF inv q(1)])
  then show "kv_entry_count (set_entry p i (rs ! 0) s1) = kv_entry_count s" "next_free_page (set_entry p i (rs ! 0) s1) = next_free_page s1"
    using keptD(2) [OF kp] by (simp_all add: kv_entry_count_def next_free_page_def)
qed

lemma change_leaf:
  assumes inv: "subtree rt lv s A N C" and c: "C q = Some ([x], es)"
    and pg: "leaf_holds pg es'" "es' \<noteq> []" "length es' < 2 ^ 16" "distinct (map kv_key es')" "\<forall>e\<in>set es'. leads_from rt lv s (kv_key e) q"
  shows "subtree rt lv (s(x := pg)) A N (C(q \<mapsto> ([x], es')))" "next_free_page (s(x := pg)) = next_free_page s"
    "kv_entry_count (s(x := pg)) = kv_entry_count s"
proof -
  note l = leaf_atD [OF tree_invD(7) [OF inv c]]
  note ok = tree_invD(1) [OF inv]
  note st = leaf_ok_start [OF l(6) ok l(4), simplified]
  have xA: "(x, 0) \<in> A" using st(2) by simp
  have x0: "x \<noteq> 0" using st(4) by simp
  then show "next_free_page (s(x := pg)) = next_free_page s" "kv_entry_count (s(x := pg)) = kv_entry_count s"
    by (simp_all add: next_free_page_def kv_entry_count_def)
  have nN: "x \<noteq> p" if "p \<in> N" for p
    by (rule leaf_not_node [OF inv c that, of x 0]) (simp_all add: value_regions_single)
  show "subtree rt lv (s(x := pg)) A N (C(q \<mapsto> ([x], es')))"
  proof (rule tree_inv_update(1) [OF inv l(1,2)])
    show "get_msb (node_entry s (fst q) (snd q)) = 0" using l(3) st(5) by simp
    show "space_ok (s(x := pg)) A"
      by (rule space_ok_write [OF ok]) (use xA in \<open>intro disjI2 bexI [of _ "(x, 0)"], simp_all\<close>)
    show "(p, 0) \<in> A" if "p \<in> N" "p \<noteq> ROOT_PAGE" for p using tree_invD(3) [OF inv that(1)] that(2) by simp
    show "others_kept s (s(x := pg)) N C q"
      unfolding others_kept_def
    proof (intro conjI ballI allI impI)
      fix p j assume "p \<in> N"
      then show "node_entry (s(x := pg)) p j = node_entry s p j" using nN by (auto simp: node_entry_def)
    next
      fix q' rs' es' y assume c': "C q' = Some (rs', es')" "q' \<noteq> q" "y \<in> value_regions rs'"
      have "(s(x := pg)) p = s p" if y: "(z, k) = y" "p \<in> region z k" for z k p
      proof -
        have zk: "(z, k) \<in> value_regions rs'" using c'(3) y(1) by simp
        have "(x, 0) \<in> value_regions [x]" by (simp add: value_regions_single)
        then have "(x, 0) \<noteq> (z, k)" using tree_invD(8) [OF inv c c'(1)] c'(2) zk by blast
        then have "region x 0 \<inter> region z k = {}" by (rule space_okD(4) [OF ok xA leaf_page_in_use [OF inv c'(1) zk]])
        then have "p \<noteq> x" using y(2) by auto
        then show ?thesis by simp
      qed
      then show "case y of (z, k) \<Rightarrow> \<forall>p\<in>region z k. (s(x := pg)) p = s p" by (cases y) simp
    qed
    show "value_regions rs' \<subseteq> A" if "C q' = Some (rs', es')" for q' rs' es'
      using leaf_atD(4) [OF tree_invD(7) [OF inv that]] .
    have "leaf_ok (s(x := pg)) [x] es'" using pg(1-3) by (simp add: leaf_ok_def)
    moreover have "node_entry (s(x := pg)) (fst q) (snd q) = x" using nN [OF l(1)] l(3) by (simp add: node_entry_def)
    moreover have "value_regions [x] \<inter> value_regions rs' = {}" if "C q' = Some (rs', es'')" "q' \<noteq> q" for q' rs' es''
      using tree_invD(8) [OF inv c that(1)] that(2) by simp
    ultimately show "case Some ([x], es') of None \<Rightarrow> node_entry (s(x := pg)) (fst q) (snd q) = 0
      | Some (rs, es) \<Rightarrow> node_entry (s(x := pg)) (fst q) (snd q) = rs ! 0 \<and> value_regions rs \<subseteq> A \<and> value_regions rs \<inter> N \<times> {0} = {} \<and>
          leaf_ok (s(x := pg)) rs es \<and> distinct (map kv_key es) \<and> (\<forall>e\<in>set es. leads_from rt lv s (kv_key e) q) \<and>
          (\<forall>q' rs' es'. C q' = Some (rs', es') \<longrightarrow> q' \<noteq> q \<longrightarrow> value_regions rs \<inter> value_regions rs' = {})"
      unfolding option.case prod.case using l(4,5) pg(4,5) by (intro conjI allI impI) simp_all
  qed
qed

section \<open>Writing\<close>

lemma entries_few:
  "\<forall>e\<in>set es. valid_key (kv_key e) \<Longrightarrow> 10 * length es \<le> total_entries_size es"
proof (induction es)
  case (Cons e es)
  have "kv_key e \<noteq> []" using Cons.prems by (simp add: valid_key_def)
  then show ?case using Cons by (cases "kv_key e") (simp_all add: total_entries_size_def entry_size_def)
qed simp

text \<open>A map with one key changed.\<close>

lemma map_at_key:
  assumes "subtree rt lv s A N C" "leads_from rt lv s key q" "\<And>k. leads_from rt lv s k q \<Longrightarrow> f k = (M(key \<mapsto> b)) k"
  shows "(\<lambda>k. if leads_from rt lv s k q then f k else M k) = M(key \<mapsto> b)"
  using assms(2,3) by (intro ext) auto

lemma write_to_empty:
  assumes inv: "tree_inv s A N C" and rep: "represents C M" and k: "valid_key key" "length key \<le> MAX_KEY_LENGTH"
    and q: "leads_to s key (p, i)" "C (p, i) = None"
    and size: "entry_size key (length b) \<le> 2 ^ 31 - 2 ^ 13" and room: "next_free_page s + 1 + 2 ^ 19 \<le> 2 ^ 52"
  obtains s' A' C' where "write_at_node (Suc fuel) p i l key (Some b) s = Some (Inr s')" "tree_inv s' A' N C'"
    "represents C' (M(key \<mapsto> b))" "kv_entry_count s' = (kv_entry_count s + 1) mod 2 ^ 64"
    "next_free_page s' \<le> next_free_page s + page_cost (entry_size key (length b))"
proof -
  define e where "e = \<lparr>kv_key = key, kv_value = b\<rparr>"
  note in_tree = leads_to_in [OF inv q(1)]
  have ne: "node_entry s p i = 0" using tree_invD(6) [OF inv in_tree] q(2) by simp
  have te: "total_entries_size [e] = entry_size key (length b)" by (simp add: total_entries_size_def e_def)
  obtain rs s1 where made: "(if total_entries_size [e] \<le> leaf_capacity then Some (create_leaf [e] s)
      else if length [e] = 1 then Some (create_big_leaf (hd [e]) s) else None) = Some (Inr (rs ! 0, s1))"
    "leaf_made s A rs [e] s1" "next_free_page s1 \<le> next_free_page s + page_cost (entry_size key (length b))"
  proof (cases "total_entries_size [e] \<le> leaf_capacity")
    case True
    obtain x s1 where "create_leaf [e] s = Inr (x, s1)" "leaf_made s A [x] [e] s1" "next_free_page s1 \<le> next_free_page s + 1"
      by (rule create_leaf_made [OF tree_invD(1) [OF inv], of "[e]"]) (use room k(1) True in \<open>simp_all add: e_def\<close>)
    then show thesis using that [of "[x]" s1] True te by (simp add: page_cost_def)
  next
    case False
    obtain rs s1 where "create_big_leaf e s = Inr (rs ! 0, s1)" "leaf_made s A rs [e] s1" "next_free_page s1 \<le> next_free_page s + 1 + 2 ^ 19"
      by (rule create_big_leaf_made [OF tree_invD(1) [OF inv] room, of e]) (use k False size te in \<open>simp_all add: e_def\<close>)
    then show thesis using that [of rs s1] False te by (simp add: page_cost_def)
  qed
  have keys: "distinct (map kv_key [e])" "\<forall>e'\<in>set [e]. leads_to s (kv_key e') (p, i)" using q(1) by (simp_all add: e_def)
  note att = attach_leaf [OF inv in_tree(1,2) ne q(2) made(2) keys]
  define s2 where "s2 = set_entry p i (rs ! 0) s1"
  define s3 where "s3 = upd_u64 0 8 ((kv_entry_count s2 + 1) mod 2 ^ 64) s2"
  have link: "link_subtree p i (rs ! 0) s1 = Inr s2"
    using att(4) node_page(1) [OF inv in_tree(1)] in_tree(2) by (simp add: link_subtree_def put_node_entry_ok s2_def)
  have run: "create_subtree (Suc fuel) p i l [e] s = Some (Inr s2)"
    using made(1) link by (simp split: if_splits)
  have "write_at_node (Suc fuel) p i l key (Some b) s = Some (Inr s3)"
    using k ne run by (simp add: write_at_node_def valid_key_def e_def [symmetric] count_entry_ok s3_def del: create_subtree.simps)
  moreover have "tree_inv s3 (A \<union> value_regions rs) N (C((p, i) \<mapsto> (rs, [e])))"
    unfolding s3_def s2_def by (rule tree_inv_count [OF att(1)])
  moreover have "represents (C((p, i) \<mapsto> (rs, [e]))) (M(key \<mapsto> b))"
  proof -
    have "represents (C((p, i) := Some (rs, [e]))) (\<lambda>k. if leads_to s k (p, i) then (case Some (rs, [e]) of None \<Rightarrow> None | Some (rs, es) \<Rightarrow> kv_map es k) else M k)"
      by (rule represents_update [OF inv rep]) (use in_tree keys in simp_all)
    also have "(\<lambda>k. if leads_to s k (p, i) then (case Some (rs, [e]) of None \<Rightarrow> None | Some (rs, es) \<Rightarrow> kv_map es k) else M k) = M(key \<mapsto> b)"
      by (rule map_at_key [OF inv q(1)]) (use represents_at [OF inv rep] q(2) in \<open>auto simp: kv_map_def e_def\<close>)
    finally show ?thesis .
  qed
  moreover have "kv_entry_count s3 = (kv_entry_count s + 1) mod 2 ^ 64" "next_free_page s3 \<le> next_free_page s + page_cost (entry_size key (length b))"
    using space_ok_count(2,3) [OF tree_invD(1) [OF att(1)]] att(2,3) made(3) by (simp_all add: s3_def s2_def)
  ultimately show thesis using that by blast
qed

lemma kv_map_append: "key \<notin> kv_key ` set es \<Longrightarrow> kv_map (es @ [\<lparr>kv_key = key, kv_value = b\<rparr>]) = (kv_map es)(key \<mapsto> b)"
  by (induction es) (auto simp: kv_map_def fun_upd_twist)

lemma kv_map_replace:
  "key \<notin> kv_key ` set xs \<Longrightarrow> kv_key e = key \<Longrightarrow> kv_map (xs @ e\<lparr>kv_value := b\<rparr> # ys) = (kv_map (xs @ e # ys))(key \<mapsto> b)"
  by (induction xs) (auto simp: kv_map_def fun_upd_twist)

lemma small_leaf_page:
  assumes inv: "tree_inv s A N C" and c: "C (p, i) = Some (rs, es)" and nx: "leaf_next (s (rs ! 0)) = 0"
  obtains x where "rs = [x]" "leaf_holds (s x) es" "es \<noteq> []" "length es < 2 ^ 16" "page_ok x" "x \<noteq> 0" "node_entry s p i = x"
    "get_msb x = 0" "clear_msb x = x"
proof -
  note l = leaf_atD [OF tree_invD(7) [OF inv c]]
  note st = leaf_ok_start [OF l(6) tree_invD(1) [OF inv] l(4)]
  have "\<not> big_leaf s rs e" for e
  proof
    assume "big_leaf s rs e"
    then have "2 \<le> length rs" "regions s rs" by (simp_all add: big_leaf_def)
    moreover from this have "0 < length rs" "1 < length rs" by linarith+
    ultimately show False using nx regionsD(5) [of s rs 0] regionsD(3) [of s rs 1] by (simp add: next_region_start_def)
  qed
  then obtain x where "rs = [x]" "leaf_holds (s x) es" "es \<noteq> []" "length es < 2 ^ 16" using l(6) by (auto simp: leaf_ok_def)
  then show thesis using that st(3-6) l(3) by simp
qed

lemma write_append:
  assumes inv: "tree_inv s A N C" and rep: "represents C M" and k: "valid_key key" "length key \<le> MAX_KEY_LENGTH"
    and q: "leads_to s key (p, i)" and c: "C (p, i) = Some ([x], es)" and h: "leaf_holds (s x) es" and new: "M key = None"
    and fits: "leaf_usage (s x) + entry_size key (length b) \<le> leaf_capacity"
  obtains s' C' where "write_at_node fuel p i l key (Some b) s = Some (Inr s')" "tree_inv s' A N C'"
    "represents C' (M(key \<mapsto> b))" "kv_entry_count s' = (kv_entry_count s + 1) mod 2 ^ 64" "next_free_page s' = next_free_page s"
proof -
  define e where "e = \<lparr>kv_key = key, kv_value = b\<rparr>"
  note l = leaf_atD [OF tree_invD(7) [OF inv c]]
  note st = leaf_ok_start [OF l(6) tree_invD(1) [OF inv] l(4), simplified]
  have k0: "0 \<notin> set key" using k(1) by (simp add: valid_key_def)
  have Mq: "M k' = kv_map es k'" if "leads_to s k' (p, i)" for k' using represents_at [OF inv rep that] c by simp
  have nk: "key \<notin> kv_key ` set es" using new Mq [OF q] kv_map_None by metis
  have usage: "leaf_usage (s x) = length (encode_entries es)" and vk: "\<forall>e\<in>set es. valid_key (kv_key e)" using h by (simp_all add: leaf_holds_def)
  have few: "length es + 1 < 2 ^ 16"
    using entries_few [OF vk] fits usage by (simp add: length_encode_entries data_capacity)
  define s1 where "s1 = upd_u64 0 8 ((kv_entry_count s + 1) mod 2 ^ 64) s"
  have x0: "x \<noteq> 0" using st(4) by simp
  have s1x: "s1 x = s x" using x0 by (simp add: s1_def)
  have inv1: "tree_inv s1 A N C" unfolding s1_def by (rule tree_inv_count [OF inv])
  have n1: "kv_entry_count s1 = (kv_entry_count s + 1) mod 2 ^ 64" "next_free_page s1 = next_free_page s"
    using space_ok_count(2,3) [OF tree_invD(1) [OF inv]] by (simp_all add: s1_def)
  have sm: "same_nodes N s s1"
  proof -
    have "s1 p' = s p'" if "p' \<in> N" for p' using node_page(2) [OF inv that] by (simp add: s1_def)
    then show ?thesis by (simp add: same_nodes_def node_entry_def)
  qed
  have fits1: "length (encode_entries es) + entry_size key (length b) \<le> leaf_capacity" using fits usage by simp
  obtain pg where pg: "append_entry x key b s1 = Inr (s1(x := pg))" "leaf_holds pg (es @ [e])"
    unfolding e_def by (rule append_entry_holds [of s1 x es key b]) (use h s1x st(3) k(1) fits1 few in simp_all)
  have keys: "distinct (map kv_key (es @ [e]))" "\<forall>e'\<in>set (es @ [e]). leads_to s1 (kv_key e') (p, i)"
    using l(7,8) nk q leads_to_frame(1) [OF inv sm] by (auto simp: e_def)
  note ch = change_leaf [OF inv1 c pg(2) _ _ keys]
  have "write_at_node fuel p i l key (Some b) s = Some (Inr (s1(x := pg)))"
  proof -
    have ne: "node_entry s p i = x" "x \<noteq> 0" "clear_msb x = x" using l(3) x0 st(6) by simp_all
    have fe: "find_entry_in_leaf (s x) key = Inr (- 1)" using find_entry_holds [OF h k0] nk offset_of_None by (metis option.case_eq_if)
    have c: "(leaf_usage (s x) + entry_size key (length b)) mod 2 ^ 64 \<le> leaf_capacity" using fits by (simp add: data_capacity)
    have w: "write_new fuel p i l x key b s = Some (Inr (s1(x := pg)))"
      unfolding write_new_def count_entry_ok s1_def [symmetric] bindO_simps s1x if_P [OF c] pg(1) ..
    show ?thesis using k ne fe w by (simp add: write_at_node_def valid_key_def Let_def)
  qed
  moreover have "represents (C((p, i) \<mapsto> ([x], es @ [e]))) (M(key \<mapsto> b))"
  proof -
    have "represents (C((p, i) := Some ([x], es @ [e]))) (\<lambda>k. if leads_to s1 k (p, i) then (case Some ([x], es @ [e]) of None \<Rightarrow> None | Some (rs, es) \<Rightarrow> kv_map es k) else M k)"
      by (rule represents_update [OF inv1 rep]) (use l(1,2) keys in simp_all)
    also have "(\<lambda>k. if leads_to s1 k (p, i) then (case Some ([x], es @ [e]) of None \<Rightarrow> None | Some (rs, es) \<Rightarrow> kv_map es k) else M k) = M(key \<mapsto> b)"
      by (rule map_at_key [OF inv1]) (use Mq leads_to_frame(1) [OF inv sm] q kv_map_append [OF nk, of b] in \<open>simp_all add: e_def\<close>)
    finally show ?thesis .
  qed
  ultimately show thesis using that [of "s1(x := pg)"] ch few n1 by simp
qed

lemma write_over:
  assumes inv: "tree_inv s A N C" and rep: "represents C M" and k: "valid_key key" "length key \<le> MAX_KEY_LENGTH"
    and q: "leads_to s key (p, i)" and c: "C (p, i) = Some ([x], es)" and h: "leaf_holds (s x) es" and old: "M key = Some v"
    and longer: "length v \<le> length b" and fits: "leaf_usage (s x) + (length b - length v) \<le> leaf_capacity"
  obtains s' C' where "write_at_node fuel p i l key (Some b) s = Some (Inr s')" "tree_inv s' A N C'"
    "represents C' (M(key \<mapsto> b))" "kv_entry_count s' = kv_entry_count s" "next_free_page s' = next_free_page s"
proof -
  note l = leaf_atD [OF tree_invD(7) [OF inv c]]
  note st = leaf_ok_start [OF l(6) tree_invD(1) [OF inv] l(4), simplified]
  have k0: "0 \<notin> set key" using k(1) by (simp add: valid_key_def)
  have Mq: "M k' = kv_map es k'" if "leads_to s k' (p, i)" for k' using represents_at [OF inv rep that] c by simp
  have "key \<in> kv_key ` set es" using old Mq [OF q] kv_map_None by (metis option.distinct(1))
  then obtain m where m: "offset_of key es = Some m" using offset_of_None by fastforce
  then obtain xs e ys where e: "es = xs @ e # ys" "kv_key e = key" "key \<notin> kv_key ` set xs" "m = length (encode_entries xs)"
    using offset_of_Some by metis
  have "\<exists>e'\<in>set es. kv_key e' = key \<and> kv_value e' = kv_value e" using e(1,2) by (intro bexI [of _ e]) simp_all
  then have "kv_map es key = Some (kv_value e)" using kv_map_Some [OF l(7)] by simp
  then have v: "kv_value e = v" using old Mq [OF q] by simp
  define e' where "e' = e\<lparr>kv_value := b\<rparr>"
  have usage: "leaf_usage (s x) = length (encode_entries es)" using h by (simp add: leaf_holds_def)
  have fits1: "length (encode_entries (xs @ e' # ys)) = leaf_usage (s x) + (length b - length v)"
    using longer v unfolding usage e(1) by (simp add: e'_def entry_size_def)
  have few: "length es < 2 ^ 16" using l(6) by (auto simp: leaf_ok_def)
  obtain pg where pg: "update_value_trivially x m key b s = Inr (s(x := pg))" "leaf_holds pg (xs @ e' # ys)"
    unfolding e'_def using update_value_holds [of s x xs e ys b] h st(3) longer v fits fits1 e by (auto simp: e'_def)
  have keys: "distinct (map kv_key (xs @ e' # ys))" "\<forall>e\<in>set (xs @ e' # ys). leads_to s (kv_key e) (p, i)"
    using l(7,8) e by (auto simp: e'_def)
  note ch = change_leaf [OF inv c pg(2) _ _ keys]
  have "write_at_node fuel p i l key (Some b) s = Some (Inr (s(x := pg)))"
  proof -
    have x0: "x \<noteq> 0" using st(4) by simp
    have ne: "node_entry s p i = x" "x \<noteq> 0" "clear_msb x = x" using l(3) x0 st(6) by simp_all
    have fe: "find_entry_in_leaf (s x) key = Inr (int m)" using find_entry_holds [OF h k0] m by simp
    note val = small_leaf_value [OF h [unfolded e(1)], unfolded e(2) e(4) [symmetric] v]
    have nx: "\<not> leaf_next (s x) \<noteq> 0" using h by (simp add: leaf_holds_def)
    have b1: "\<not> PAGE_SIZE < DATA + (m + length key + 1) + 8" using val(2) by linarith
    have b2: "\<not> int leaf_capacity < (int (leaf_usage (s x)) + int (length b) - int (length v)) mod 2 ^ 64"
    proof -
      have "int (leaf_usage (s x)) + int (length b) - int (length v) = int (leaf_usage (s x) + (length b - length v))" using longer by simp
      then show ?thesis using fits by (simp add: data_capacity)
    qed
    have w: "write_existing fuel p i l x m key b s = Some (Inr (s(x := pg)))"
      unfolding write_existing_def if_not_P [OF nx] bindO_simps Let_def val(1) if_not_P [OF b1] if_not_P [OF b2] pg(1) ..
    show ?thesis using k ne fe w by (simp add: write_at_node_def valid_key_def Let_def)
  qed
  moreover have "represents (C((p, i) \<mapsto> ([x], xs @ e' # ys))) (M(key \<mapsto> b))"
  proof -
    have "represents (C((p, i) := Some ([x], xs @ e' # ys))) (\<lambda>k. if leads_to s k (p, i) then (case Some ([x], xs @ e' # ys) of None \<Rightarrow> None | Some (rs, es) \<Rightarrow> kv_map es k) else M k)"
      by (rule represents_update [OF inv rep]) (use l(1,2) keys in simp_all)
    also have "(\<lambda>k. if leads_to s k (p, i) then (case Some ([x], xs @ e' # ys) of None \<Rightarrow> None | Some (rs, es) \<Rightarrow> kv_map es k) else M k) = M(key \<mapsto> b)"
      by (rule map_at_key [OF inv q]) (use Mq kv_map_replace [OF e(3,2), of b ys] e(1) in \<open>simp add: e'_def\<close>)
    finally show ?thesis .
  qed
  ultimately show thesis using that [of "s(x := pg)"] ch few e(1) by simp
qed

end
