(* ===== verification/Map_Subtree.thy ===== *)
theory Map_Subtree
  imports Prelude Hashing Pages Space_Manager Leaf Big_Value Disk_Map Map_Invariant Map_Write
begin

text \<open>
  Parts of the tree of a map: the level of a node, leaves that are freed, subtrees in pages that change
  elsewhere, and a subtree that takes the place of an entry.
\<close>

section \<open>Levels\<close>

text \<open>The node a key gets to fixes its level and all buckets of the key above.\<close>

lemma find_parent_digits:
  assumes digits: "\<forall>p\<in>N. \<forall>i<512. get_msb (node_entry s p i) \<noteq> 0 \<longrightarrow> digits (clear_msb (node_entry s p i)) = digits p @ [i]"
    and closed: "closed_nodes s N"
  shows "find_parent_from f s key p0 l0 = Some (p, i, l) \<Longrightarrow> p0 \<in> N \<Longrightarrow>
    l0 \<le> l \<and> digits p = digits p0 @ map (\<lambda>d. get_bucket key (int d + 1)) [l0..<l] \<and> i = get_bucket key (int l + 1)"
proof (induction f arbitrary: p0 l0)
  case (Suc f)
  define e0 where "e0 = get_bucket key (int l0 + 1)"
  have e0: "e0 < 512" by (simp add: e0_def get_bucket_less)
  show ?case
  proof (cases "get_msb (node_entry s p0 e0) = 0")
    case True
    then show ?thesis using Suc.prems(1) unfolding e0_def by (auto simp: Let_def)
  next
    case False
    then have f: "find_parent_from f s key (clear_msb (node_entry s p0 e0)) (l0 + 1) = Some (p, i, l)"
      using Suc.prems(1) by (auto simp: Let_def e0_def [symmetric] split: if_splits)
    have c: "clear_msb (node_entry s p0 e0) \<in> N" "digits (clear_msb (node_entry s p0 e0)) = digits p0 @ [e0]"
      using False e0 Suc.prems(2) closed digits by (simp_all add: closed_nodes_def)
    have "l0 + 1 \<le> l \<Longrightarrow> [l0..<l] = l0 # [l0 + 1..<l]" by (simp add: upt_conv_Cons)
    then show ?thesis using Suc.IH [OF f c(1)] c(2) by (auto simp: e0_def)
  qed
qed simp

lemma same_way:
  assumes inv: "subtree rt lv s A N C" and a: "find_parent_from f s key rt lv = Some (p, i, l)"
    and b: "find_parent_from f' s key' rt lv = Some (p, i, l')"
  shows "l' = l" "lv < d \<Longrightarrow> d \<le> l + 1 \<Longrightarrow> get_bucket key (int d) = get_bucket key' (int d)" "lv \<le> l"
proof -
  obtain digits where d: "\<forall>p\<in>N. \<forall>i<512. get_msb (node_entry s p i) \<noteq> 0 \<longrightarrow> digits (clear_msb (node_entry s p i)) = digits p @ [i]"
    using tree_invD(9) [OF inv] by (auto simp: tree_shaped_def)
  note way = find_parent_digits [OF d tree_invD(4) [OF inv] _ tree_invD(2) [OF inv]]
  from way [OF a] way [OF b] have l: "lv \<le> l" "lv \<le> l'" and
    m: "map (\<lambda>d. get_bucket key (int d + 1)) [lv..<l] = map (\<lambda>d. get_bucket key' (int d + 1)) [lv..<l']"
    and i: "get_bucket key (int l + 1) = i" "get_bucket key' (int l' + 1) = i" by auto
  have "length [lv..<l] = length [lv..<l']" using arg_cong [OF m, of length] by simp
  then show ll: "l' = l" using l by simp
  show "lv \<le> l" by (rule l(1))
  show "get_bucket key (int d) = get_bucket key' (int d)" if "lv < d" "d \<le> l + 1"
  proof (cases "d = l + 1")
    case True
    then show ?thesis using i ll by (simp add: add.commute)
  next
    case False
    then have k: "d - 1 - lv < l - lv" using that by simp
    have "get_bucket key (int (d - 1) + 1) = get_bucket key' (int (d - 1) + 1)"
      using arg_cong [OF m, of "\<lambda>xs. xs ! (d - 1 - lv)"] k that(1) ll by simp
    then show ?thesis using that(1) by (simp add: of_nat_diff)
  qed
qed

section \<open>Freeing leaves\<close>

definition regions_from :: "nat \<Rightarrow> nat list \<Rightarrow> (nat \<times> nat) set" where
  "regions_from d rs = (\<lambda>j. (rs ! j, j)) ` {d..<length rs}"

lemma regions_from_0: "regions_from 0 rs = value_regions rs"
  by (simp add: regions_from_def value_regions_def atLeast0LessThan)

lemma regions_from_Suc:
  assumes "d < length rs"
  shows "regions_from d rs = insert (rs ! d, d) (regions_from (Suc d) rs)"
proof -
  have "{d..<length rs} = insert d {Suc d..<length rs}" using assms by auto
  then show ?thesis by (simp add: regions_from_def)
qed

lemma regions_fromI: "d \<le> j \<Longrightarrow> j < length rs \<Longrightarrow> (rs ! j, j) \<in> regions_from d rs"
  by (simp add: regions_from_def)

lemma free_leaf_from_ok:
  assumes "space_ok s A" "d < length rs" "regions_from d rs \<subseteq> A" "next_free_page s + (length rs - d) \<le> 2 ^ 52"
    "\<forall>j\<ge>d. j < length rs \<longrightarrow> leaf_next (s (rs ! j)) = (if Suc j < length rs then rs ! Suc j else 0)"
    "\<forall>j<length rs. rs ! j \<noteq> 0"
  shows "\<exists>s'. free_leaf_from (rs ! d) d s = Inr s' \<and> space_ok s' (A - regions_from d rs) \<and> kept (A - regions_from d rs) s s' \<and>
    next_free_page s' \<le> next_free_page s + (length rs - d)"
  using assms(1-5)
proof (induction "length rs - d" arbitrary: d s A)
  case (Suc n)
  have dA: "(rs ! d, d) \<in> A" using Suc.prems(2,3) by (auto simp: regions_from_def)
  obtain s1 where f: "SpaceManager_free (rs ! d) d s = Inr s1" "freed d A s (rs ! d) s1"
    by (rule free_ok [OF Suc.prems(1) dA]) (use Suc.prems(2,4) in simp)
  have s1: "space_ok s1 (A - {(rs ! d, d)})" "kept (A - {(rs ! d, d)}) s s1" "next_free_page s1 \<le> next_free_page s + 1"
    using f(2) by (simp_all add: freed_def)
  show ?case
  proof (cases "Suc d < length rs")
    case False
    then have "regions_from (Suc d) rs = {}" by (simp add: regions_from_def)
    then have "regions_from d rs = {(rs ! d, d)}" using regions_from_Suc [OF Suc.prems(2)] by simp
    moreover have "leaf_next (s (rs ! d)) = 0" using Suc.prems(2,5) False by simp
    ultimately show ?thesis using f(1) s1 Suc.hyps(2) by (subst free_leaf_from.simps) simp
  next
    case True
    have nx: "leaf_next (s (rs ! d)) = rs ! Suc d" using Suc.prems(2,5) True by simp
    have sub: "regions_from (Suc d) rs \<subseteq> A - {(rs ! d, d)}"
      using Suc.prems(3) by (auto simp: regions_from_def)
    have "s1 (rs ! j) = s (rs ! j)" if "Suc d \<le> j" "j < length rs" for j
      by (rule keptD(3) [OF s1(2), of "rs ! j" j]) (use regions_fromI [OF that] sub in blast, simp)
    then have links: "\<forall>j\<ge>Suc d. j < length rs \<longrightarrow> leaf_next (s1 (rs ! j)) = (if Suc j < length rs then rs ! Suc j else 0)"
      using Suc.prems(5) by simp
    have "n = length rs - Suc d" "next_free_page s1 + (length rs - Suc d) \<le> 2 ^ 52" using Suc.hyps(2) Suc.prems(4) s1(3) by linarith+
    then obtain s' where s': "free_leaf_from (rs ! Suc d) (Suc d) s1 = Inr s'" "space_ok s' (A - {(rs ! d, d)} - regions_from (Suc d) rs)"
      "kept (A - {(rs ! d, d)} - regions_from (Suc d) rs) s1 s'" "next_free_page s' \<le> next_free_page s1 + (length rs - Suc d)"
      using Suc.hyps(1) [OF _ s1(1) True sub _ links] by blast
    have e: "A - {(rs ! d, d)} - regions_from (Suc d) rs = A - regions_from d rs"
      unfolding regions_from_Suc [OF Suc.prems(2)] by blast
    have "kept (A - regions_from d rs) s s'"
      by (rule kept_trans [OF s1(2) s'(3)]) (simp_all only: e order_refl, use e in blast)
    moreover have "free_leaf_from (rs ! d) d s = Inr s'"
      using f(1) nx assms(6) [rule_format, OF True] s'(1) by (subst free_leaf_from.simps) (simp add: Let_def)
    ultimately show ?thesis using s'(2,4) s1(3) Suc.hyps(2) unfolding e by auto
  qed
qed simp

lemma free_leaf_ok:
  assumes ok: "space_ok s A" and leaf: "leaf_ok s rs es" "value_regions rs \<subseteq> A" and room: "next_free_page s + 19 \<le> 2 ^ 52"
  obtains s' where "free_leaf (rs ! 0) s = Inr s'" "space_ok s' (A - value_regions rs)" "kept (A - value_regions rs) s s'"
    "next_free_page s' \<le> next_free_page s + 19"
proof -
  have l: "0 < length rs" "length rs \<le> 19" "\<forall>j<length rs. rs ! j \<noteq> 0"
    "\<forall>j\<ge>0. j < length rs \<longrightarrow> leaf_next (s (rs ! j)) = (if Suc j < length rs then rs ! Suc j else 0)"
  proof -
    note st = leaf_ok_start [OF leaf(1) ok leaf(2)]
    have "length rs \<le> 19 \<and> (\<forall>j<length rs. rs ! j \<noteq> 0 \<and> leaf_next (s (rs ! j)) = (if Suc j < length rs then rs ! Suc j else 0))"
      using leaf(1) unfolding leaf_ok_def
    proof (elim disjE exE conjE)
      fix x assume x: "rs = [x]" "leaf_holds (s x) es"
      then show ?thesis using st(4) by (simp add: leaf_holds_def)
    next
      fix e assume "big_leaf s rs e"
      then have "regions s rs" by (simp add: big_leaf_def)
      then show ?thesis using regionsD(2-5) [of s rs] by (simp add: next_region_start_def)
    qed
    then show "length rs \<le> 19" "\<forall>j<length rs. rs ! j \<noteq> 0"
      "\<forall>j\<ge>0. j < length rs \<longrightarrow> leaf_next (s (rs ! j)) = (if Suc j < length rs then rs ! Suc j else 0)" by simp_all
    show "0 < length rs" by (rule st(1))
  qed
  have "\<exists>s'. free_leaf_from (rs ! 0) 0 s = Inr s' \<and> space_ok s' (A - regions_from 0 rs) \<and> kept (A - regions_from 0 rs) s s' \<and>
    next_free_page s' \<le> next_free_page s + (length rs - 0)"
    by (rule free_leaf_from_ok [OF ok l(1) _ _ l(4,3)]) (use leaf(2) room l(2) in \<open>simp_all add: regions_from_0\<close>)
  then show thesis using that l(2) by (auto simp: regions_from_0 free_leaf_def)
qed

section \<open>Subtrees in pages that change elsewhere\<close>

definition leaf_regions :: "leaves \<Rightarrow> (nat \<times> nat) set" where
  "leaf_regions C = {x. \<exists>q rs es. C q = Some (rs, es) \<and> x \<in> value_regions rs}"

definition contents :: "leaves \<Rightarrow> KVEntry set" where
  "contents C = {e. \<exists>q rs es. C q = Some (rs, es) \<and> e \<in> set es}"

lemma leaf_regions_iff: "x \<in> leaf_regions C \<longleftrightarrow> (\<exists>q rs es. C q = Some (rs, es) \<and> x \<in> value_regions rs)"
  by (simp only: leaf_regions_def mem_Collect_eq)

lemma contents_iff: "e \<in> contents C \<longleftrightarrow> (\<exists>q rs es. C q = Some (rs, es) \<and> e \<in> set es)"
  by (simp only: contents_def mem_Collect_eq)

lemma represents_contents: "represents C M \<longleftrightarrow> (\<forall>k v. M k = Some v \<longleftrightarrow> (\<exists>e\<in>contents C. kv_key e = k \<and> kv_value e = v))"
  unfolding represents_def Bex_def contents_iff by (intro iff_allI arg_cong [of _ _ "(=) _"]) blast

lemma subtree_frame:
  assumes inv: "subtree rt lv s A N C" and ok: "space_ok s' A'" and nodes: "\<And>p. p \<in> N \<Longrightarrow> s' p = s p"
    and pages: "\<And>x k p. (x, k) \<in> leaf_regions C \<Longrightarrow> p \<in> region x k \<Longrightarrow> s' p = s p"
    and sub: "leaf_regions C \<subseteq> A'" "\<And>p. p \<in> N \<Longrightarrow> p = ROOT_PAGE \<or> (p, 0) \<in> A'"
  shows "subtree rt lv s' A' N C"
proof -
  obtain q where q: "leads_from rt lv s [] q" using tree_invD(5) [OF inv] by blast
  have n: "node_entry s' p i = node_entry s p i" if "p \<in> N" for p i using nodes [OF that] by (simp add: node_entry_def)
  have "leads_from rt lv s [] (fst q, snd q)" using q by simp
  note in_tree = leads_to_in [OF inv this]
  have vr: "value_regions rs \<subseteq> A'" if "C q = Some (rs, es)" for q rs es using that sub(1) unfolding leaf_regions_def by blast
  have leaves: "s' p = s p" if "C q = Some (rs, es)" "(x, k) \<in> value_regions rs" "p \<in> region x k" for q rs es x k p
    by (rule pages [OF _ that(3)]) (use that(1,2) in \<open>unfold leaf_regions_iff, blast\<close>)
  have "subtree rt lv s' A' N (C(q := C q))"
  proof (rule tree_inv_update(1) [OF inv in_tree ok])
    show "others_kept s s' N C q" unfolding others_kept_def using n leaves by blast
    show "(p, 0) \<in> A'" if "p \<in> N" "p \<noteq> ROOT_PAGE" for p using sub(2) that by blast
    show "value_regions rs \<subseteq> A'" if "C q' = Some (rs, es)" for q' rs es by (rule vr [OF that])
    show "case C q of None \<Rightarrow> node_entry s' (fst q) (snd q) = 0
      | Some (rs, es) \<Rightarrow> node_entry s' (fst q) (snd q) = rs ! 0 \<and> value_regions rs \<subseteq> A' \<and> value_regions rs \<inter> N \<times> {0} = {} \<and>
          leaf_ok s' rs es \<and> distinct (map kv_key es) \<and> (\<forall>e\<in>set es. leads_from rt lv s (kv_key e) q) \<and>
          (\<forall>q' rs' es'. C q' = Some (rs', es') \<longrightarrow> q' \<noteq> q \<longrightarrow> value_regions rs \<inter> value_regions rs' = {})"
    proof (cases "C q")
      case None
      then show ?thesis using tree_invD(6) [OF inv in_tree] n [OF in_tree(1)] by simp
    next
      case (Some re)
      obtain rs es where c: "C q = Some (rs, es)" using Some by (cases re) simp
      note l = leaf_atD [OF tree_invD(7) [OF inv c]]
      have lo: "leaf_ok s' rs es" by (rule leaf_ok_cong [OF leaves [OF c value_regionsI] l(6)])
      have "node_entry s' (fst q) (snd q) = rs ! 0" using n [OF l(1)] l(3) by simp
      moreover have "value_regions rs \<inter> value_regions rs' = {}" if "C q' = Some (rs', es')" "q' \<noteq> q" for q' rs' es'
        using tree_invD(8) [OF inv c that(1)] that(2) by simp
      ultimately show ?thesis unfolding c option.case prod.case by (intro conjI l(5,7) lo vr [OF c] ballI l(8)) simp_all
    qed
  qed
  then show ?thesis by simp
qed

section \<open>A subtree in place of an entry\<close>

lemma msb_entry: "r2 < 2 ^ 63 \<Longrightarrow> get_msb (set_msb r2 1) \<noteq> 0" "r2 < 2 ^ 63 \<Longrightarrow> clear_msb (set_msb r2 1) = r2"
  "r2 < 2 ^ 63 \<Longrightarrow> set_msb r2 1 \<noteq> 0" "r2 < 2 ^ 63 \<Longrightarrow> set_msb r2 1 mod 2 ^ 64 = set_msb r2 1"
  by (simp_all add: set_msb_def get_msb_def clear_msb_def)

lemma graft_way:
  assumes closed: "closed_nodes s N" and out: "\<And>x j. x \<in> N \<Longrightarrow> j < 512 \<Longrightarrow> (x, j) \<noteq> (p, i) \<Longrightarrow> node_entry s' x j = node_entry s x j"
    and link: "node_entry s' p i = set_msb r2 1" "r2 < 2 ^ 63" and leaf: "get_msb (node_entry s p i) = 0"
  shows graft_way_other: "find_parent_from f s k x m = Some (p', i', l') \<Longrightarrow> x \<in> N \<Longrightarrow> (p', i') \<noteq> (p, i) \<Longrightarrow> find_parent_from f s' k x m = Some (p', i', l')"
    and graft_way_in: "find_parent_from f s k x m = Some (p, i, l') \<Longrightarrow> x \<in> N \<Longrightarrow> find_parent_from g s' k r2 (l' + 1) = Some z \<Longrightarrow>
      find_parent_from (f + g) s' k x m = Some z"
proof -
  show "find_parent_from f s k x m = Some (p', i', l') \<Longrightarrow> x \<in> N \<Longrightarrow> (p', i') \<noteq> (p, i) \<Longrightarrow> find_parent_from f s' k x m = Some (p', i', l')"
  proof (induction f arbitrary: x m)
    case (Suc f)
    define e0 where "e0 = get_bucket k (int m + 1)"
    have e0: "e0 < 512" by (simp add: e0_def get_bucket_less)
    show ?case
    proof (cases "get_msb (node_entry s x e0) = 0")
      case True
      then have eq: "p' = x" "i' = e0" "l' = m" using Suc.prems(1) unfolding e0_def by (auto simp: Let_def)
      then have "node_entry s' x e0 = node_entry s x e0" using out [OF Suc.prems(2) e0] Suc.prems(3) by simp
      then show ?thesis using True eq by (simp add: Let_def e0_def [symmetric])
    next
      case False
      then have "(x, e0) \<noteq> (p, i)" using leaf by auto
      then have same: "node_entry s' x e0 = node_entry s x e0" by (rule out [OF Suc.prems(2) e0])
      have nz: "node_entry s x e0 \<noteq> 0" using False get_msb_0 by metis
      have "clear_msb (node_entry s x e0) \<in> N" using False e0 Suc.prems(2) closed by (simp add: closed_nodes_def)
      then show ?thesis using Suc.IH Suc.prems(1,3) False nz same by (simp add: Let_def e0_def [symmetric])
    qed
  qed simp
  show "find_parent_from f s k x m = Some (p, i, l') \<Longrightarrow> x \<in> N \<Longrightarrow> find_parent_from g s' k r2 (l' + 1) = Some z \<Longrightarrow>
      find_parent_from (f + g) s' k x m = Some z"
  proof (induction f arbitrary: x m)
    case (Suc f)
    define e0 where "e0 = get_bucket k (int m + 1)"
    have e0: "e0 < 512" by (simp add: e0_def get_bucket_less)
    show ?case
    proof (cases "get_msb (node_entry s x e0) = 0")
      case True
      then have eq: "p = x" "i = e0" "l' = m" using Suc.prems(1) unfolding e0_def by (auto simp: Let_def)
      have "find_parent_from (f + g) s' k r2 (m + 1) = Some z"
        by (rule find_parent_mono [of g]) (use Suc.prems(3) eq(3) in simp_all)
      then show ?thesis using link msb_entry [OF link(2)] unfolding eq by (simp add: Let_def e0_def [symmetric])
    next
      case False
      then have "(x, e0) \<noteq> (p, i)" using leaf by auto
      then have same: "node_entry s' x e0 = node_entry s x e0" by (rule out [OF Suc.prems(2) e0])
      have nz: "node_entry s x e0 \<noteq> 0" using False get_msb_0 by metis
      have "clear_msb (node_entry s x e0) \<in> N" using False e0 Suc.prems(2) closed by (simp add: closed_nodes_def)
      then show ?thesis using Suc.IH Suc.prems(1,3) False nz same by (simp add: Let_def e0_def [symmetric])
    qed
  qed simp
qed

lemma tree_shaped_graft:
  assumes one: "tree_shaped s N rt" "closed_nodes s N" "rt \<in> N" and two: "tree_shaped s1 N2 r2" "closed_nodes s1 N2" "r2 \<in> N2"
    and disj: "N \<inter> N2 = {}" and p: "p \<in> N" and r2: "r2 < 2 ^ 63" and link: "node_entry s' p i = set_msb r2 1"
    and out: "\<And>x j. x \<in> N \<Longrightarrow> j < 512 \<Longrightarrow> (x, j) \<noteq> (p, i) \<Longrightarrow> node_entry s' x j = node_entry s x j"
    and sub: "\<And>x j. x \<in> N2 \<Longrightarrow> node_entry s' x j = node_entry s1 x j"
  shows "tree_shaped s' (N \<union> N2) rt"
proof -
  note msb = msb_entry [OF r2]
  obtain d1 where d1: "d1 rt = []" "\<forall>x\<in>N. \<forall>j<512. get_msb (node_entry s x j) \<noteq> 0 \<longrightarrow> d1 (clear_msb (node_entry s x j)) = d1 x @ [j]"
    using one(1) by (auto simp: tree_shaped_def)
  obtain d2 where d2: "d2 r2 = []" "\<forall>x\<in>N2. \<forall>j<512. get_msb (node_entry s1 x j) \<noteq> 0 \<longrightarrow> d2 (clear_msb (node_entry s1 x j)) = d2 x @ [j]"
    using two(1) by (auto simp: tree_shaped_def)
  define digits where "digits x = (if x \<in> N2 then d1 p @ i # d2 x else d1 x)" for x
  have dN: "digits x = d1 x" if "x \<in> N" for x using that disj by (auto simp: digits_def)
  have dN2: "digits x = d1 p @ i # d2 x" if "x \<in> N2" for x using that by (simp add: digits_def)
  have child1: "clear_msb (node_entry s x j) \<in> N" if "x \<in> N" "j < 512" "get_msb (node_entry s x j) \<noteq> 0" for x j
    using that one(2) by (simp add: closed_nodes_def)
  have child2: "clear_msb (node_entry s1 x j) \<in> N2" if "x \<in> N2" "j < 512" "get_msb (node_entry s1 x j) \<noteq> 0" for x j
    using that two(2) by (simp add: closed_nodes_def)
  have not_r2: "node_entry s1 x j \<noteq> set_msb r2 1" if "x \<in> N2" "j < 512" for x j
  proof
    assume e: "node_entry s1 x j = set_msb r2 1"
    then have "get_msb (node_entry s1 x j) \<noteq> 0" using msb(1) by simp
    then have "d2 (clear_msb (node_entry s1 x j)) = d2 x @ [j]" by (rule d2(2) [rule_format, OF that])
    then show False using e msb(2) d2(1) by simp
  qed
  have not_r2_1: "node_entry s x j \<noteq> set_msb r2 1" if "x \<in> N" "j < 512" for x j
    using child1 [OF that] msb(1,2) two(3) disj by (metis disjoint_iff)
  have "digits (clear_msb (node_entry s' x j)) = digits x @ [j]" if x: "x \<in> N \<union> N2" "j < 512" "get_msb (node_entry s' x j) \<noteq> 0" for x j
  proof -
    consider "(x, j) = (p, i)" | "x \<in> N" "(x, j) \<noteq> (p, i)" | "x \<in> N2" using x(1) by blast
    then show ?thesis
    proof cases
      case 1
      then show ?thesis using link msb(2) two(3) d2(1) dN [OF p] dN2 by simp
    next
      case 2
      note o = out [OF 2(1) x(2) 2(2)]
      have c: "get_msb (node_entry s x j) \<noteq> 0" using x(3) o by simp
      show ?thesis using o dN [OF child1 [OF 2(1) x(2) c]] dN [OF 2(1)] d1(2) 2(1) x(2) c by simp
    next
      case 3
      note o = sub [OF 3]
      have c: "get_msb (node_entry s1 x j) \<noteq> 0" using x(3) o by simp
      show ?thesis using o dN2 [OF child2 [OF 3 x(2) c]] dN2 [OF 3] d2(2) 3 x(2) c by simp
    qed
  qed
  moreover have "digits rt = []" using dN [OF one(3)] d1(1) by simp
  moreover have "y = x \<and> k = j"
    if x: "x \<in> N \<union> N2" "y \<in> N \<union> N2" "j < 512" "k < 512" "get_msb (node_entry s' x j) \<noteq> 0" "node_entry s' y k = node_entry s' x j" for x y j k
  proof -
    have cases: "(z, m) = (p, i) \<and> node_entry s' z m = set_msb r2 1 \<or>
        z \<in> N \<and> node_entry s' z m = node_entry s z m \<or> z \<in> N2 \<and> node_entry s' z m = node_entry s1 z m"
      if "z \<in> N \<union> N2" "m < 512" for z m using that out [of z m] sub [of z m] link by blast
    have across: "node_entry s1 b m \<noteq> node_entry s a n" if "a \<in> N" "b \<in> N2" "n < 512" "m < 512" "get_msb (node_entry s a n) \<noteq> 0" for a b n m
    proof
      assume e: "node_entry s1 b m = node_entry s a n"
      have "clear_msb (node_entry s a n) \<in> N" "clear_msb (node_entry s1 b m) \<in> N2"
        using child1 [OF that(1,3,5)] child2 [OF that(2,4)] that(5) e by simp_all
      then show False using e disj by auto
    qed
    from cases [OF x(1,3)] show ?thesis
    proof (elim disjE conjE)
      assume a: "(x, j) = (p, i)" "node_entry s' x j = set_msb r2 1"
      then show ?thesis using cases [OF x(2,4)] x(6) not_r2_1 [of y k] not_r2 [of y k] x(4) by auto
    next
      assume a: "x \<in> N" "node_entry s' x j = node_entry s x j"
      then have m: "get_msb (node_entry s x j) \<noteq> 0" using x(5) by simp
      from cases [OF x(2,4)] show ?thesis
      proof (elim disjE conjE)
        assume "node_entry s' y k = set_msb r2 1"
        then show ?thesis using a not_r2_1 [OF a(1) x(3)] x(6) by simp
      next
        assume "y \<in> N" "node_entry s' y k = node_entry s y k"
        then show ?thesis using one(1) a x(3,4,6) m unfolding tree_shaped_def by metis
      next
        assume b: "y \<in> N2" "node_entry s' y k = node_entry s1 y k"
        then show ?thesis using across [OF a(1) b(1) x(3,4) m] a(2) x(6) by simp
      qed
    next
      assume a: "x \<in> N2" "node_entry s' x j = node_entry s1 x j"
      then have m: "get_msb (node_entry s1 x j) \<noteq> 0" using x(5) by simp
      from cases [OF x(2,4)] show ?thesis
      proof (elim disjE conjE)
        assume "node_entry s' y k = set_msb r2 1"
        then show ?thesis using a not_r2 [OF a(1) x(3)] x(6) by simp
      next
        assume b: "y \<in> N" "node_entry s' y k = node_entry s y k"
        then have "get_msb (node_entry s y k) \<noteq> 0" using m a(2) x(6) by simp
        then show ?thesis using across [OF b(1) a(1) x(4,3)] a(2) b(2) x(6) by simp
      next
        assume "y \<in> N2" "node_entry s' y k = node_entry s1 y k"
        then show ?thesis using two(1) a x(3,4,6) m unfolding tree_shaped_def by metis
      qed
    qed
  qed
  ultimately show ?thesis unfolding tree_shaped_def by blast
qed

text \<open>What can be put in place of the entry \<open>(p, i)\<close>: a subtree in regions of its own, for keys that lead there.\<close>

definition graftable :: "nat \<Rightarrow> nat \<Rightarrow> pages \<Rightarrow> nat set \<Rightarrow> leaves \<Rightarrow> nat \<times> nat \<Rightarrow> pages \<Rightarrow> (nat \<times> nat) set \<Rightarrow> nat set \<Rightarrow> leaves \<Rightarrow> bool" where
  "graftable rt lv s N C q s1 A1 N2 C2 \<longleftrightarrow>
     N \<inter> N2 = {} \<and> leaf_regions C2 \<inter> N \<times> {0} = {} \<and> leaf_regions (C(q := None)) \<inter> N2 \<times> {0} = {} \<and>
     leaf_regions (C(q := None)) \<inter> leaf_regions C2 = {} \<and>
     (\<forall>x\<in>N. s1 x = s x \<and> (x = ROOT_PAGE \<or> (x, 0) \<in> A1)) \<and>
     leaf_regions (C(q := None)) \<subseteq> A1 \<and> (\<forall>(x, k)\<in>leaf_regions (C(q := None)). \<forall>pg\<in>region x k. s1 pg = s pg) \<and>
     (\<forall>e\<in>contents C2. leads_from rt lv s (kv_key e) q)"

lemma graftableD:
  assumes "graftable rt lv s N C q s1 A1 N2 C2"
  shows "N \<inter> N2 = {}" "leaf_regions C2 \<inter> N \<times> {0} = {}" "leaf_regions (C(q := None)) \<inter> N2 \<times> {0} = {}"
    "leaf_regions (C(q := None)) \<inter> leaf_regions C2 = {}" "x \<in> N \<Longrightarrow> s1 x = s x" "x \<in> N \<Longrightarrow> x = ROOT_PAGE \<or> (x, 0) \<in> A1"
    "leaf_regions (C(q := None)) \<subseteq> A1" "(x, k) \<in> leaf_regions (C(q := None)) \<Longrightarrow> pg \<in> region x k \<Longrightarrow> s1 pg = s pg"
    "e \<in> contents C2 \<Longrightarrow> leads_from rt lv s (kv_key e) q"
  using assms unfolding graftable_def by blast+

lemma graft:
  assumes inv: "subtree rt lv s A N C" and q: "p \<in> N" "i < 512" "get_msb (node_entry s p i) = 0"
    and level: "\<forall>k f l'. find_parent_from f s k rt lv = Some (p, i, l') \<longrightarrow> l' = l"
    and sub: "subtree r2 (l + 1) s1 A1 N2 C2" and gr: "graftable rt lv s N C (p, i) s1 A1 N2 C2" and r2: "r2 \<noteq> ROOT_PAGE"
    and s': "s' = set_entry p i (set_msb r2 1) s1"
  shows "leads_from rt lv s' k q' \<longleftrightarrow> (if leads_from rt lv s k (p, i) then leads_from r2 (l + 1) s1 k q' else leads_from rt lv s k q')"
    and "subtree rt lv s' A1 (N \<union> N2) (C((p, i) := None) ++ C2)"
    and "find_parent_from f s k rt lv = Some (p, i, l) \<Longrightarrow> find_parent_from n s1 k r2 (l + 1) = Some z \<Longrightarrow> find_parent_from (f + n) s' k rt lv = Some z"
proof -
  note g = graftableD [OF gr]
  note ok1 = tree_invD(1) [OF sub]
  have r2N: "r2 \<in> N2" by (rule tree_invD(2) [OF sub])
  have r2s: "r2 < 2 ^ 63"
    using tree_invD(3) [OF sub r2N] r2 space_okD(1) [OF ok1, of r2 0 r2] by (auto simp: page_ok_def)
  note msb = msb_entry [OF r2s]
  have pN2: "p \<notin> N2" using q(1) g(1) by blast
  have link: "node_entry s' p i = set_msb r2 1" using msb(4) by (simp add: s' node_entry_set)
  have np: "s' pg = s1 pg" if "pg \<noteq> p" for pg using that by (simp add: s')
  have out: "node_entry s' x j = node_entry s x j" if "x \<in> N" "j < 512" "(x, j) \<noteq> (p, i)" for x j
  proof -
    have "node_entry s' x j = node_entry s1 x j" using that(3) by (auto simp: s' node_entry_set)
    then show ?thesis using g(5) [OF that(1)] by (simp add: node_entry_def)
  qed
  have sub_nodes: "node_entry s' x j = node_entry s1 x j" if "x \<in> N2" for x j
  proof -
    have "x \<noteq> p" using pN2 that by blast
    then show ?thesis using np by (simp add: node_entry_def)
  qed
  then have same2: "same_nodes N2 s1 s'" by (simp add: same_nodes_def)
  note frame2 = leads_to_frame [OF sub same2]
  note closed = tree_invD(4) [OF inv]
  have leads: "leads_from rt lv s' k q' \<longleftrightarrow> (if leads_from rt lv s k (p, i) then leads_from r2 (l + 1) s1 k q' else leads_from rt lv s k q')" for k q'
  proof (cases "leads_from rt lv s k (p, i)")
    case True
    then obtain f where f: "find_parent_from f s k rt lv = Some (p, i, l)" using level by (fastforce simp: leads_from_def)
    have inside: "leads_from rt lv s' k q1" if q1: "leads_from r2 (l + 1) s1 k q1" for q1
    proof -
      obtain g' l1 where "find_parent_from g' s' k r2 (l + 1) = Some (fst q1, snd q1, l1)"
        using q1 frame2(2) by (auto simp: leads_from_def)
      then have "find_parent_from (f + g') s' k rt lv = Some (fst q1, snd q1, l1)"
        using graft_way_in [OF closed out link r2s q(3) f tree_invD(2) [OF inv]] by blast
      then show ?thesis by (auto simp: leads_from_def)
    qed
    obtain q1 where q1: "leads_from r2 (l + 1) s1 k q1" using tree_invD(5) [OF sub] by blast
    have conv: "leads_from r2 (l + 1) s1 k q'" if "leads_from rt lv s' k q'"
      using leads_to_unique [OF that inside [OF q1]] q1 by simp
    show ?thesis unfolding if_P [OF True] using inside conv by blast
  next
    case False
    have outside: "leads_from rt lv s' k q1" if q1: "leads_from rt lv s k q1" for q1
    proof -
      have "(fst q1, snd q1) \<noteq> (p, i)" using False q1 by auto
      then show ?thesis using q1 graft_way_other [OF closed out link r2s q(3) _ tree_invD(2) [OF inv]]
        unfolding leads_from_def by blast
    qed
    obtain q1 where q1: "leads_from rt lv s k q1" using tree_invD(5) [OF inv] by blast
    have conv: "leads_from rt lv s k q'" if "leads_from rt lv s' k q'"
      using leads_to_unique [OF that outside [OF q1]] q1 by simp
    show ?thesis unfolding if_not_P [OF False] using outside conv by blast
  qed
  then show "leads_from rt lv s' k q' \<longleftrightarrow> (if leads_from rt lv s k (p, i) then leads_from r2 (l + 1) s1 k q' else leads_from rt lv s k q')" .
  show "find_parent_from (f + n) s' k rt lv = Some z"
    if f: "find_parent_from f s k rt lv = Some (p, i, l)" and n: "find_parent_from n s1 k r2 (l + 1) = Some z"
    using graft_way_in [OF closed out link r2s q(3) f tree_invD(2) [OF inv]] n frame2(2) by metis
  define C' where "C' = C((p, i) := None) ++ C2"
  have dom2: "fst q' \<in> N2" if "C2 q' = Some (rs, es)" for q' rs es by (rule leaf_atD(1) [OF tree_invD(7) [OF sub that]])
  have dom1: "fst q' \<in> N" if "C q' = Some (rs, es)" for q' rs es by (rule leaf_atD(1) [OF tree_invD(7) [OF inv that]])
  have none2: "C2 (x, j) = None" if "x \<in> N" for x j
    using dom2 [of "(x, j)"] g(1) that by (cases "C2 (x, j)") fastforce+
  have in_C': "C' (x, j) = (if (x, j) = (p, i) then None else C (x, j))" if "x \<in> N" for x j
    using none2 [OF that] by (simp add: C'_def map_add_def)
  have cases: "(C2 q' = Some (rs, es) \<and> fst q' \<in> N2) \<or> (C q' = Some (rs, es) \<and> q' \<noteq> (p, i) \<and> (C((p, i) := None)) q' = Some (rs, es) \<and> fst q' \<in> N)"
    if "C' q' = Some (rs, es)" for q' rs es
    using that unfolding C'_def map_add_Some_iff
  proof (elim disjE conjE)
    assume c: "C2 q' = Some (rs, es)"
    then show ?thesis using dom2 [OF c] by blast
  next
    assume c: "(C((p, i) := None)) q' = Some (rs, es)"
    then have "C q' = Some (rs, es) \<and> q' \<noteq> (p, i)" by (cases "q' = (p, i)") simp_all
    then show ?thesis using c dom1 [of q' rs es] by blast
  qed
  have vr1: "value_regions rs \<subseteq> leaf_regions (C((p, i) := None))" if "(C((p, i) := None)) q' = Some (rs, es)" for q' rs es
    using that unfolding leaf_regions_def by blast
  have vr2: "value_regions rs \<subseteq> leaf_regions C2" if "C2 q' = Some (rs, es)" for q' rs es
    using that unfolding leaf_regions_def by blast
  have sub1: "leaf_regions C2 \<subseteq> A1" using leaf_atD(4) [OF tree_invD(7) [OF sub]] unfolding leaf_regions_def by blast
  have pA1: "p = 1 \<or> (p, 0) \<in> A1" using g(6) [OF q(1)] by (simp add: ROOT_PAGE_def)
  have far: "s' pg = s1 pg" if "(x, k) \<in> V" "pg \<in> region x k" "V \<subseteq> A1" "V \<inter> N \<times> {0} = {}" for x k pg V
    by (rule np) (rule region_not_node [OF ok1 that(3,4) q(1) pA1 that(1,2)])
  have ok': "space_ok s' A1"
    unfolding s' set_entry_def
    by (rule space_ok_write [OF ok1]) (use pA1 in \<open>elim disjE, simp, intro disjI2 bexI [of _ "(p, 0)"], simp_all\<close>)
  have leaf1: "leaf_at rt lv s' A1 (N \<union> N2) q' rs es" if c: "C q' = Some (rs, es)" "q' \<noteq> (p, i)" for q' rs es
  proof -
    note l = leaf_atD [OF tree_invD(7) [OF inv c(1)]]
    have c1: "(C((p, i) := None)) q' = Some (rs, es)" using c by simp
    note v = vr1 [OF c1]
    have vA: "value_regions rs \<subseteq> A1" by (rule order_trans [OF v g(7)])
    have "leaf_ok s' rs es"
    proof (rule leaf_ok_cong [OF _ l(6)])
      fix d pg assume d: "d < length rs" "pg \<in> region (rs ! d) d"
      note r = value_regionsI [OF d(1)]
      have "s1 pg = s pg" by (rule g(8) [OF subsetD [OF v r] d(2)])
      then show "s' pg = s pg" using far [OF r d(2) vA l(5)] by simp
    qed
    moreover have "value_regions rs \<inter> (N \<union> N2) \<times> {0} = {}" using l(5) g(3) v by blast
    moreover have "leads_from rt lv s' (kv_key e) q'" if e: "e \<in> set es" for e
    proof -
      have "\<not> leads_from rt lv s (kv_key e) (p, i)" using leads_to_unique [OF l(8) [OF e]] c(2) by blast
      then show ?thesis using l(8) [OF e] leads by simp
    qed
    moreover have "node_entry s' (fst q') (snd q') = rs ! 0" using out [OF l(1,2)] c(2) l(3) by simp
    ultimately show ?thesis using l(1,2,7) vA unfolding leaf_at_def by simp
  qed
  have leaf2: "leaf_at rt lv s' A1 (N \<union> N2) q' rs es" if c: "C2 q' = Some (rs, es)" for q' rs es
  proof -
    note l = leaf_atD [OF tree_invD(7) [OF sub c]]
    note v = vr2 [OF c]
    have vN: "value_regions rs \<inter> N \<times> {0} = {}" using v g(2) by blast
    have "leaf_ok s' rs es"
      by (rule leaf_ok_cong [OF far [OF value_regionsI _ l(4) vN] l(6)])
    moreover have "value_regions rs \<inter> (N \<union> N2) \<times> {0} = {}" using l(5) vN by blast
    moreover have "leads_from rt lv s' (kv_key e) q'" if e: "e \<in> set es" for e
    proof -
      have "e \<in> contents C2" unfolding contents_iff using c e by blast
      then show ?thesis using g(9) leads l(8) [OF e] by simp
    qed
    moreover have "node_entry s' (fst q') (snd q') = rs ! 0" using sub_nodes [OF l(1)] l(3) by simp
    ultimately show ?thesis using l(1,2,4,7) unfolding leaf_at_def by simp
  qed
  have shaped: "tree_shaped s' (N \<union> N2) rt"
    by (rule tree_shaped_graft [OF tree_invD(9) [OF inv] closed tree_invD(2) [OF inv] tree_invD(9) [OF sub] tree_invD(4) [OF sub] r2N
      g(1) q(1) r2s link out sub_nodes])
  have "subtree rt lv s' A1 (N \<union> N2) C'"
    unfolding subtree_def
  proof (intro conjI allI ballI impI)
    show "space_ok s' A1" "tree_shaped s' (N \<union> N2) rt" by (fact ok' shaped)+
    show "rt \<in> N \<union> N2" using tree_invD(2) [OF inv] by simp
    show "x = ROOT_PAGE \<or> (x, 0) \<in> A1" if "x \<in> N \<union> N2" for x using that g(6) tree_invD(3) [OF sub] by blast
    show "closed_nodes s' (N \<union> N2)"
      unfolding closed_nodes_def
    proof (intro ballI allI impI)
      fix x j assume x: "x \<in> N \<union> N2" "j < (512::nat)" "get_msb (node_entry s' x j) \<noteq> 0"
      consider "(x, j) = (p, i)" | "x \<in> N" "(x, j) \<noteq> (p, i)" | "x \<in> N2" using x(1) by blast
      then show "clear_msb (node_entry s' x j) \<in> N \<union> N2"
      proof cases
        case 1
        then show ?thesis using link msb(2) r2N by simp
      next
        case 2
        then show ?thesis using out [OF 2(1) x(2) 2(2)] x(2,3) closed by (simp add: closed_nodes_def)
      next
        case 3
        then show ?thesis using sub_nodes [OF 3] x(2,3) tree_invD(4) [OF sub] by (simp add: closed_nodes_def)
      qed
    qed
    show "\<exists>q'. leads_from rt lv s' key q'" for key using leads tree_invD(5) [OF inv] tree_invD(5) [OF sub] by metis
  next
    fix x j assume x: "x \<in> N \<union> N2" "j < (512::nat)" "get_msb (node_entry s' x j) = 0" "C' (x, j) = None"
    consider "(x, j) = (p, i)" | "x \<in> N" "(x, j) \<noteq> (p, i)" | "x \<in> N2" using x(1) by blast
    then show "node_entry s' x j = 0"
    proof cases
      case 1
      then show ?thesis using link msb(1) x(3) by simp
    next
      case 2
      have "C (x, j) = None" using in_C' [OF 2(1), of j] 2(2) x(4) by auto
      then show ?thesis using out [OF 2(1) x(2) 2(2)] x(2,3) tree_invD(6) [OF inv 2(1) x(2)] by simp
    next
      case 3
      have "C2 (x, j) = None" using x(4) by (cases "C2 (x, j)") (simp_all add: C'_def)
      then show ?thesis using sub_nodes [OF 3] x(2,3) tree_invD(6) [OF sub 3 x(2)] by simp
    qed
  next
    show "leaf_at rt lv s' A1 (N \<union> N2) q' rs es" if "C' q' = Some (rs, es)" for q' rs es
      using cases [OF that] leaf1 leaf2 by blast
  next
    fix qa qb rs es rs' es' assume c: "C' qa = Some (rs, es)" "C' qb = Some (rs', es')" "qa \<noteq> qb"
    show "value_regions rs \<inter> value_regions rs' = {}"
      using cases [OF c(1)] cases [OF c(2)]
    proof (elim disjE conjE)
      assume "C2 qa = Some (rs, es)" "C2 qb = Some (rs', es')"
      then show ?thesis by (rule tree_invD(8) [OF sub _ _ c(3)])
    next
      assume "C qa = Some (rs, es)" "C qb = Some (rs', es')"
      then show ?thesis by (rule tree_invD(8) [OF inv _ _ c(3)])
    next
      assume "C2 qa = Some (rs, es)" "(C((p, i) := None)) qb = Some (rs', es')"
      then show ?thesis using vr1 vr2 g(4) by blast
    next
      assume "(C((p, i) := None)) qa = Some (rs, es)" "C2 qb = Some (rs', es')"
      then show ?thesis using vr1 vr2 g(4) by blast
    qed
  qed
  then show "subtree rt lv s' A1 (N \<union> N2) (C((p, i) := None) ++ C2)" unfolding C'_def .
qed

end
