(* ===== verification/Map_Build.thy ===== *)
theory Map_Build
  imports Prelude Hashing Pages Space_Manager Leaf Big_Value Disk_Map Map_Invariant Map_Write Map_Subtree
begin

text \<open>
  \<open>create_subtree\<close> builds a leaf or a tree of nodes for the entries it is given, in regions that were not
  in use, and links it to its parent in place of an empty entry or of an old leaf.
\<close>

section \<open>Linking\<close>

text \<open>The regions of the leaf that an entry points to, if any.\<close>

definition old_regions :: "leaves \<Rightarrow> nat \<times> nat \<Rightarrow> (nat \<times> nat) set" where
  "old_regions C q = (case C q of None \<Rightarrow> {} | Some (rs, es) \<Rightarrow> value_regions rs)"

lemma leaf_regions_without: "x \<in> leaf_regions (C(q := None)) \<longleftrightarrow> (\<exists>q' rs es. q' \<noteq> q \<and> C q' = Some (rs, es) \<and> x \<in> value_regions rs)"
  unfolding leaf_regions_iff by (auto split: if_splits)

lemma contents_without: "e \<in> contents (C(q := None)) \<longleftrightarrow> (\<exists>q' rs es. q' \<noteq> q \<and> C q' = Some (rs, es) \<and> e \<in> set es)"
  unfolding contents_iff by (auto split: if_splits)

lemma contents_upd: "contents (C(q := Some (rs, es))) = contents (C(q := None)) \<union> set es"
proof (intro set_eqI iffI)
  fix e assume "e \<in> contents (C(q := Some (rs, es)))"
  then obtain q' rs' es' where c: "(C(q := Some (rs, es))) q' = Some (rs', es')" "e \<in> set es'" unfolding contents_iff by blast
  show "e \<in> contents (C(q := None)) \<union> set es"
  proof (cases "q' = q")
    case False
    then have "C q' = Some (rs', es')" using c(1) by simp
    then have "e \<in> contents (C(q := None))" unfolding contents_without using False c(2) by blast
    then show ?thesis by blast
  qed (use c in simp)
next
  fix e assume "e \<in> contents (C(q := None)) \<union> set es"
  then consider "e \<in> set es" | q' rs' es' where "q' \<noteq> q" "C q' = Some (rs', es')" "e \<in> set es'"
    unfolding Un_iff contents_without by blast
  then show "e \<in> contents (C(q := Some (rs, es)))"
  proof cases
    case 1
    have "(C(q := Some (rs, es))) q = Some (rs, es)" by simp
    then show ?thesis using 1 unfolding contents_iff by blast
  next
    case 2
    then have "(C(q := Some (rs, es))) q' = Some (rs', es')" by simp
    then show ?thesis using 2(3) unfolding contents_iff by blast
  qed
qed

lemma leaf_regions_facts:
  assumes inv: "subtree rt lv s A N C"
  shows "leaf_regions C \<subseteq> A" "leaf_regions C \<inter> N \<times> {0} = {}"
  using leaf_atD(4,5) [OF tree_invD(7) [OF inv]] unfolding leaf_regions_def by blast+

lemma old_regions_leaf: "old_regions C q \<subseteq> leaf_regions C"
proof
  fix x assume x: "x \<in> old_regions C q"
  then obtain rs es where c: "C q = Some (rs, es)" by (cases "C q") (auto simp: old_regions_def)
  have "x \<in> value_regions rs" using x by (simp add: old_regions_def c)
  then show "x \<in> leaf_regions C" using c unfolding leaf_regions_iff by blast
qed

lemma old_regions_facts:
  assumes inv: "subtree rt lv s A N C"
  shows "old_regions C q \<subseteq> A" "old_regions C q \<inter> N \<times> {0} = {}" "leaf_regions (C(q := None)) \<inter> old_regions C q = {}"
    "leaf_regions (C(q := None)) \<subseteq> A"
proof -
  show "old_regions C q \<subseteq> A" "old_regions C q \<inter> N \<times> {0} = {}" using old_regions_leaf leaf_regions_facts [OF inv] by blast+
  show "leaf_regions (C(q := None)) \<subseteq> A"
    using leaf_atD(4) [OF tree_invD(7) [OF inv]] unfolding subset_iff leaf_regions_without by blast
  show "leaf_regions (C(q := None)) \<inter> old_regions C q = {}"
  proof (cases "C q")
    case (Some re)
    obtain rs es where c: "C q = Some (rs, es)" using Some by (cases re) simp
    show ?thesis using tree_invD(8) [OF inv c] unfolding disjoint_iff leaf_regions_without by (simp add: old_regions_def c) blast
  qed (simp add: old_regions_def)
qed

lemma kept_page:
  assumes "kept A s s'" "p = 1 \<or> (p, 0) \<in> A"
  shows "s' p = s p"
  using assms(2) keptD(1) [OF assms(1)] keptD(3) [OF assms(1), of p 0 p] by auto

lemma old_leaf_freed:
  assumes inv: "subtree rt lv s A N C" and p: "p \<in> N" "i < 512" "get_msb (node_entry s p i) = 0"
    and s1: "A \<subseteq> A1" "space_ok s1 A1" "kept A s s1" and room: "next_free_page s1 + 19 \<le> 2 ^ 52"
  obtains s2 where "link_subtree p i v s1 = put_node_entry p i v s2" "space_ok s2 (A1 - old_regions C (p, i))"
    "kept (A1 - old_regions C (p, i)) s1 s2" "next_free_page s2 \<le> next_free_page s1 + 19"
proof -
  have same: "node_entry s1 p i = node_entry s p i"
    using kept_page [OF s1(3) node_page(3) [OF inv p(1)]] by (simp add: node_entry_def)
  show thesis
  proof (cases "C (p, i)")
    case None
    then have "node_entry s1 p i = 0" using tree_invD(6) [OF inv p] same by simp
    then show thesis using that [of s1] s1(2) None by (simp add: link_subtree_def old_regions_def)
  next
    case (Some re)
    obtain rs es where c: "C (p, i) = Some (rs, es)" using Some by (cases re) simp
    note l = leaf_atD [OF tree_invD(7) [OF inv c]]
    note st = leaf_ok_start [OF l(6) tree_invD(1) [OF inv] l(4)]
    have old: "old_regions C (p, i) = value_regions rs" by (simp add: old_regions_def c)
    have leaf: "leaf_ok s1 rs es"
      by (rule leaf_ok_cong [OF keptD(3) [OF s1(3) subsetD [OF l(4) value_regionsI]] l(6)])
    obtain s2 where s2: "free_leaf (rs ! 0) s1 = Inr s2" "space_ok s2 (A1 - value_regions rs)" "kept (A1 - value_regions rs) s1 s2"
      "next_free_page s2 \<le> next_free_page s1 + 19"
      by (rule free_leaf_ok [OF s1(2) leaf order_trans [OF l(4) s1(1)] room])
    have "node_entry s1 p i = rs ! 0" "rs ! 0 \<noteq> 0" using same l(3) st(4) by simp_all
    then have "link_subtree p i v s1 = put_node_entry p i v s2" using s2(1) st(5,6) by (simp add: link_subtree_def)
    then show thesis using that s2(2-4) old by simp
  qed
qed

text \<open>What may hang below an entry of a node of level \<open>l\<close>: a leaf or a subtree, in regions that were
  not in use before.\<close>

definition branch :: "nat \<Rightarrow> KVEntry list \<Rightarrow> (nat \<times> nat) set \<Rightarrow> pages \<Rightarrow> (nat \<times> nat) set \<Rightarrow> nat \<Rightarrow> bool" where
  "branch l es A s A1 v \<longleftrightarrow> space_ok s A1 \<and> A \<subseteq> A1 \<and>
     ((\<exists>rs. v = rs ! 0 \<and> leaf_ok s rs es \<and> value_regions rs \<subseteq> A1 \<and> value_regions rs \<inter> A = {}) \<or>
      (\<exists>r2 N2 C2. v = set_msb r2 1 \<and> subtree r2 (l + 1) s A1 N2 C2 \<and> ROOT_PAGE \<notin> N2 \<and> N2 \<times> {0} \<inter> A = {} \<and>
         leaf_regions C2 \<inter> A = {} \<and> contents C2 = set es))"

text \<open>How a tree changes when the entry \<open>q\<close> gets another leaf or a subtree.\<close>

definition entry_changed :: "pages \<Rightarrow> pages \<Rightarrow> (nat \<times> nat) set \<Rightarrow> (nat \<times> nat) set \<Rightarrow> nat set \<Rightarrow> nat set \<Rightarrow> leaves \<Rightarrow> leaves \<Rightarrow> nat \<times> nat \<Rightarrow> bool" where
  "entry_changed s s' A A' N N' C C' q \<longleftrightarrow>
     (\<forall>(x, k)\<in>A - old_regions C q. (x, k) \<noteq> (fst q, 0) \<longrightarrow> (\<forall>pg\<in>region x k. s' pg = s pg)) \<and>
     (fst q \<noteq> 1 \<longrightarrow> s' 1 = s 1) \<and> kv_entry_count s' = kv_entry_count s \<and>
     A - old_regions C q \<subseteq> A' \<and> N \<subseteq> N' \<and> (N' - N) \<times> {0} \<inter> A = {} \<and> (ROOT_PAGE \<in> N' \<longrightarrow> ROOT_PAGE \<in> N) \<and>
     (\<forall>q'. fst q' \<in> N \<longrightarrow> q' \<noteq> q \<longrightarrow> C' q' = C q') \<and> leaf_regions C' \<subseteq> leaf_regions (C(q := None)) \<union> (- A) \<and>
     (\<forall>x\<in>N. \<forall>j. (x, j) \<noteq> q \<longrightarrow> node_entry s' x j = node_entry s x j)"

lemma entry_changedD:
  assumes "entry_changed s s' A A' N N' C C' q"
  shows "(x, k) \<in> A \<Longrightarrow> (x, k) \<notin> old_regions C q \<Longrightarrow> (x, k) \<noteq> (fst q, 0) \<Longrightarrow> pg \<in> region x k \<Longrightarrow> s' pg = s pg"
    "fst q \<noteq> 1 \<Longrightarrow> s' 1 = s 1" "kv_entry_count s' = kv_entry_count s" "A - old_regions C q \<subseteq> A'" "N \<subseteq> N'"
    "(N' - N) \<times> {0} \<inter> A = {}" "ROOT_PAGE \<in> N' \<Longrightarrow> ROOT_PAGE \<in> N" "fst q' \<in> N \<Longrightarrow> q' \<noteq> q \<Longrightarrow> C' q' = C q'"
    "leaf_regions C' \<subseteq> leaf_regions (C(q := None)) \<union> (- A)"
    "x \<in> N \<Longrightarrow> (x, j) \<noteq> q \<Longrightarrow> node_entry s' x j = node_entry s x j"
  using assms unfolding entry_changed_def by blast+

lemma link_ok:
  assumes inv: "subtree rt lv s A N C" and q: "p \<in> N" "i < 512" "get_msb (node_entry s p i) = 0"
    and br: "branch l es A s1 A1 v" and kp: "kept A s s1" and room: "next_free_page s1 + 19 \<le> 2 ^ 52"
    and es: "es \<noteq> []" "distinct (map kv_key es)" "\<forall>e\<in>set es. \<exists>f. find_parent_from f s (kv_key e) rt lv = Some (p, i, l)"
  obtains s' A' N' C' where "link_subtree p i v s1 = Inr s'" "subtree rt lv s' A' N' C'" "entry_changed s s' A A' N N' C C' (p, i)"
    "contents C' = contents (C((p, i) := None)) \<union> set es" "next_free_page s' \<le> next_free_page s1 + 19"
proof -
  have ok1: "space_ok s1 A1" "A \<subseteq> A1" using br by (simp_all add: branch_def)
  define old where "old = old_regions C (p, i)"
  note of = old_regions_facts [OF inv, of "(p, i)", folded old_def]
  obtain s2 where s2: "link_subtree p i v s1 = put_node_entry p i v s2" "space_ok s2 (A1 - old)" "kept (A1 - old) s1 s2"
    "next_free_page s2 \<le> next_free_page s1 + 19"
    using old_leaf_freed [OF inv q ok1(2,1) kp room] unfolding old_def by blast
  define s' where "s' = set_entry p i v s2"
  define A2 where "A2 = A1 - old"
  have run: "link_subtree p i v s1 = Inr s'" using s2(1) put_node_entry_ok [OF node_page(1) [OF inv q(1)] q(2)] by (simp add: s'_def)
  have kp2: "kept (A - old) s s2" by (rule kept_trans [OF kp s2(3)]) (use ok1(2) in blast)+
  have nodeA: "x = 1 \<or> (x, 0) \<in> A - old" if "x \<in> N" for x using node_page(3) [OF inv that] of(2) that by blast
  have nodes: "s2 x = s x" if "x \<in> N" for x by (rule kept_page [OF kp2 nodeA [OF that]])
  have np: "s' pg = s2 pg" if "pg \<noteq> p" for pg using that by (simp add: s'_def)
  have p0: "p \<noteq> 0" by (rule node_page(2) [OF inv q(1)])
  have count: "kv_entry_count s' = kv_entry_count s" "next_free_page s' = next_free_page s2"
    using keptD(2) [OF kp2] np [of 0] p0 by (simp_all add: kv_entry_count_def next_free_page_def)
  have frame: "s' pg = s pg" if "(x, k) \<in> A - old" "(x, k) \<noteq> (p, 0)" "pg \<in> region x k" for x k pg
  proof -
    have "pg \<noteq> p"
    proof
      assume e: "pg = p"
      have xA: "(x, k) \<in> A" using that(1) by blast
      have "p \<noteq> 1" using space_okD(1) [OF tree_invD(1) [OF inv] xA that(3)] e by simp
      then have "(p, 0) \<in> A" using node_page(3) [OF inv q(1)] by simp
      from space_okD(4) [OF tree_invD(1) [OF inv] xA this that(2)] show False using that(3) e by auto
    qed
    then show ?thesis using np keptD(3) [OF kp2 that(1,3)] by simp
  qed
  have root: "s' 1 = s 1" if "p \<noteq> 1" using np [of 1] that keptD(1) [OF kp2] by simp
  have leads: "leads_from rt lv s (kv_key e) (p, i)" if "e \<in> set es" for e using es(3) that unfolding leads_from_def fst_conv snd_conv by blast
  have A2: "A - old \<subseteq> A2" using ok1(2) by (auto simp: A2_def)
  have changed: "entry_changed s s' A A2 N N' C C' (p, i)"
    if "N \<subseteq> N'" "(N' - N) \<times> {0} \<inter> A = {}" "ROOT_PAGE \<in> N' \<longrightarrow> ROOT_PAGE \<in> N" "\<forall>q'. fst q' \<in> N \<longrightarrow> q' \<noteq> (p, i) \<longrightarrow> C' q' = C q'"
      "leaf_regions C' \<subseteq> leaf_regions (C((p, i) := None)) \<union> (- A)" for N' C'
    unfolding entry_changed_def old_def [symmetric]
  proof (intro conjI)
    show "\<forall>x\<in>N. \<forall>j. (x, j) \<noteq> (p, i) \<longrightarrow> node_entry s' x j = node_entry s x j"
    proof (intro ballI allI impI)
      fix x j assume x: "x \<in> N" "(x, j) \<noteq> (p, i)"
      have "node_entry s' x j = node_entry s2 x j" using x(2) by (auto simp: s'_def node_entry_set)
      then show "node_entry s' x j = node_entry s x j" using nodes [OF x(1)] by (simp add: node_entry_def)
    qed
  qed (use that frame root count(1) A2 in auto)
  have sizes: "next_free_page s' \<le> next_free_page s1 + 19" using count(2) s2(4) by simp
  from br consider rs where "v = rs ! 0" "leaf_ok s1 rs es" "value_regions rs \<subseteq> A1" "value_regions rs \<inter> A = {}"
    | r2 N2 C2 where "v = set_msb r2 1" "subtree r2 (l + 1) s1 A1 N2 C2" "ROOT_PAGE \<notin> N2" "N2 \<times> {0} \<inter> A = {}"
        "leaf_regions C2 \<inter> A = {}" "contents C2 = set es"
    unfolding branch_def by blast
  then show thesis
  proof cases
    case 1
    have vA2: "value_regions rs \<subseteq> A2" using 1(3,4) of(1) by (auto simp: A2_def)
    have lf: "leaf_ok s2 rs es"
      by (rule leaf_ok_cong [OF keptD(3) [OF s2(3) subsetD [OF vA2 [unfolded A2_def] value_regionsI]] 1(2)])
    note ok2 = s2(2) [folded A2_def]
    note st = leaf_ok_start [OF lf ok2 vA2]
    have disjN: "value_regions rs \<inter> N \<times> {0} = {}"
    proof (rule ccontr)
      assume "value_regions rs \<inter> N \<times> {0} \<noteq> {}"
      then obtain y where y: "(y, 0) \<in> value_regions rs" "y \<in> N" by blast
      have "41 \<le> y" by (rule space_okD(2) [OF ok2]) (use y(1) vA2 in blast)
      then have "(y, 0) \<in> A" using node_page(3) [OF inv y(2)] by simp
      then show False using y(1) 1(4) by blast
    qed
    define C' where "C' = C((p, i) := Some (rs, es))"
    have pA2: "p = 1 \<or> (p, 0) \<in> A2" using nodeA [OF q(1)] A2 by blast
    have ok': "space_ok s' A2"
      unfolding s'_def set_entry_def by (rule space_ok_write [OF ok2]) (use pA2 in \<open>elim disjE, simp, intro disjI2 bexI [of _ "(p, 0)"], simp_all\<close>)
    have ent: "node_entry s' p i = rs ! 0" using st(3) 1(1) by (simp add: s'_def node_entry_set page_ok_def)
    have "subtree rt lv s' A2 N C'"
      unfolding C'_def
    proof (rule tree_inv_update(1) [OF inv _ _ _ ok'])
      show "fst (p, i) \<in> N" "snd (p, i) < 512" "get_msb (node_entry s (fst (p, i)) (snd (p, i))) = 0" using q by simp_all
      show "(x, 0) \<in> A2" if "x \<in> N" "x \<noteq> ROOT_PAGE" for x using nodeA [OF that(1)] that(2) A2 by (auto simp: ROOT_PAGE_def)
      show "others_kept s s' N C (p, i)"
        unfolding others_kept_def
      proof (intro conjI ballI allI impI)
        fix x j assume x: "x \<in> N" "j < (512::nat)" "(x, j) \<noteq> (p, i)"
        have "node_entry s' x j = node_entry s2 x j" using x(3) by (auto simp: s'_def node_entry_set)
        then show "node_entry s' x j = node_entry s x j" using nodes [OF x(1)] by (simp add: node_entry_def)
      next
        fix q' rs' es' y assume c: "C q' = Some (rs', es')" "q' \<noteq> (p, i)" "y \<in> value_regions rs'"
        have "y \<in> leaf_regions (C((p, i) := None))" unfolding leaf_regions_without using c by blast
        then have yA: "y \<in> A - old" using of(3,4) by blast
        have yN: "y \<notin> N \<times> {0}" using leaf_atD(5) [OF tree_invD(7) [OF inv c(1)]] c(3) by blast
        then have "y \<noteq> (p, 0)" using q(1) by blast
        then show "case y of (x, k) \<Rightarrow> \<forall>pg\<in>region x k. s' pg = s pg" using frame yA by (cases y) simp
      qed
      show "value_regions rs' \<subseteq> A2" if "C q' = Some (rs', es')" "q' \<noteq> (p, i)" for q' rs' es'
      proof -
        have "value_regions rs' \<subseteq> leaf_regions (C((p, i) := None))" unfolding subset_iff leaf_regions_without using that by blast
        then show ?thesis using of(3,4) A2 by blast
      qed
      have "leaf_ok s' rs es"
      proof (rule leaf_ok_cong [OF _ lf])
        fix d pg assume d: "d < length rs" "pg \<in> region (rs ! d) d"
        have "pg \<noteq> p"
          by (rule region_not_node [OF ok2 vA2 disjN q(1) _ value_regionsI [OF d(1)] d(2)]) (use nodeA [OF q(1)] A2 in blast)
        then show "s' pg = s2 pg" by (rule np)
      qed
      moreover have "value_regions rs \<inter> value_regions rs' = {}" if "C q' = Some (rs', es')" for q' rs' es'
        using leaf_atD(4) [OF tree_invD(7) [OF inv that]] 1(4) by blast
      ultimately show "case Some (rs, es) of None \<Rightarrow> node_entry s' (fst (p, i)) (snd (p, i)) = 0
        | Some (r, f) \<Rightarrow> node_entry s' (fst (p, i)) (snd (p, i)) = r ! 0 \<and> value_regions r \<subseteq> A2 \<and>
            value_regions r \<inter> N \<times> {0} = {} \<and> leaf_ok s' r f \<and> distinct (map kv_key f) \<and> (\<forall>e\<in>set f. leads_from rt lv s (kv_key e) (p, i)) \<and>
            (\<forall>q' rs' es'. C q' = Some (rs', es') \<longrightarrow> q' \<noteq> (p, i) \<longrightarrow> value_regions r \<inter> value_regions rs' = {})"
        unfolding option.case prod.case using ent disjN vA2 es(2) leads by (intro conjI allI impI ballI) simp_all
    qed
    moreover have "entry_changed s s' A A2 N N C C' (p, i)"
    proof (rule changed)
      show "leaf_regions C' \<subseteq> leaf_regions (C((p, i) := None)) \<union> - A"
      proof
        fix x assume "x \<in> leaf_regions C'"
        then obtain q' rs' es' where c: "C' q' = Some (rs', es')" "x \<in> value_regions rs'" unfolding leaf_regions_iff by blast
        show "x \<in> leaf_regions (C((p, i) := None)) \<union> - A"
        proof (cases "q' = (p, i)")
          case True
          then show ?thesis using c 1(4) by (auto simp: C'_def)
        next
          case False
          then have "C q' = Some (rs', es')" using c(1) by (simp add: C'_def)
          then have "x \<in> leaf_regions (C((p, i) := None))" unfolding leaf_regions_without using False c(2) by blast
          then show ?thesis by blast
        qed
      qed
    qed (simp_all add: C'_def)
    moreover have "contents C' = contents (C((p, i) := None)) \<union> set es" unfolding C'_def by (rule contents_upd)
    ultimately show thesis using that run sizes by blast
  next
    case 2
    have r2: "r2 \<noteq> ROOT_PAGE" using tree_invD(2) [OF 2(2)] 2(3) by blast
    have new: "(x, 0) \<in> A2" "x \<notin> N" if "x \<in> N2" for x
    proof -
      have x: "x \<noteq> ROOT_PAGE" "(x, 0) \<in> A1" "(x, 0) \<notin> A" using 2(3,4) that tree_invD(3) [OF 2(2) that] by blast+
      show "(x, 0) \<in> A2" using x(2,3) of(1) by (auto simp: A2_def)
      show "x \<notin> N" using x(1,3) node_page(3) [OF inv, of x] by (auto simp: ROOT_PAGE_def)
    qed
    have lr2: "leaf_regions C2 \<subseteq> A2" using leaf_regions_facts(1) [OF 2(2)] 2(5) of(1) unfolding A2_def by blast
    have sub: "subtree r2 (l + 1) s2 A2 N2 C2"
    proof (rule subtree_frame [OF 2(2) s2(2) [folded A2_def] _ _ lr2])
      show "s2 x = s1 x" if "x \<in> N2" for x
        by (rule kept_page [OF s2(3)]) (use new(1) [OF that] in \<open>simp add: A2_def\<close>)
      show "s2 pg = s1 pg" if "(x, k) \<in> leaf_regions C2" "pg \<in> region x k" for x k pg
        by (rule keptD(3) [OF s2(3) subsetD [OF lr2 [unfolded A2_def] that(1)] that(2)])
      show "x = ROOT_PAGE \<or> (x, 0) \<in> A2" if "x \<in> N2" for x using new(1) [OF that] by blast
    qed
    have gr: "graftable rt lv s N C (p, i) s2 A2 N2 C2"
      unfolding graftable_def
    proof (intro conjI ballI)
      show "N \<inter> N2 = {}" using new(2) by blast
      show "leaf_regions C2 \<inter> N \<times> {0} = {}"
      proof (rule ccontr)
        assume "leaf_regions C2 \<inter> N \<times> {0} \<noteq> {}"
        then obtain x where x: "x \<in> N" "(x, 0) \<in> leaf_regions C2" by blast
        then have "(x, 0) \<in> A1" "(x, 0) \<notin> A" using leaf_regions_facts(1) [OF 2(2)] 2(5) by blast+
        then show False using node_page(3) [OF inv x(1)] space_okD(2) [OF ok1(1), of x 0] by auto
      qed
      show "leaf_regions (C((p, i) := None)) \<inter> N2 \<times> {0} = {}" using of(4) 2(4) by blast
      show "leaf_regions (C((p, i) := None)) \<inter> leaf_regions C2 = {}" using of(4) 2(5) by blast
      show "leaf_regions (C((p, i) := None)) \<subseteq> A2" using of(3,4) A2 by blast
      show "s2 x = s x" "x = ROOT_PAGE \<or> (x, 0) \<in> A2" if "x \<in> N" for x
        using nodes [OF that] nodeA [OF that] A2 by (auto simp: ROOT_PAGE_def)
      show "case y of (x, k) \<Rightarrow> \<forall>pg\<in>region x k. s2 pg = s pg" if "y \<in> leaf_regions (C((p, i) := None))" for y
      proof -
        have "y \<in> A - old" using that of(3,4) by blast
        then show ?thesis using keptD(3) [OF kp2] by (cases y) blast
      qed
      show "leads_from rt lv s (kv_key e) (p, i)" if "e \<in> contents C2" for e using leads that 2(6) by simp
    qed
    have level: "\<forall>k f l'. find_parent_from f s k rt lv = Some (p, i, l') \<longrightarrow> l' = l"
    proof -
      obtain e f0 where "e \<in> set es" "find_parent_from f0 s (kv_key e) rt lv = Some (p, i, l)" using es(1,3) by (cases es) auto
      then show ?thesis using same_way(1) [OF inv] by blast
    qed
    define C' where "C' = C((p, i) := None) ++ C2"
    have s'2: "s' = set_entry p i (set_msb r2 1) s2" using 2(1) by (simp add: s'_def)
    have sub': "subtree rt lv s' A2 (N \<union> N2) C'" unfolding C'_def by (rule graft(2) [OF inv q level sub gr r2 s'2])
    have none2: "C2 q' = None" if "fst q' \<in> N" for q'
    proof (rule ccontr)
      assume "C2 q' \<noteq> None"
      then obtain rs' es' where "C2 q' = Some (rs', es')" by auto
      then have "fst q' \<in> N2" by (rule leaf_atD(1) [OF tree_invD(7) [OF 2(2)]])
      then show False using new(2) that by blast
    qed
    have cases: "C' q' = Some re \<longleftrightarrow> C2 q' = Some re \<or> (C((p, i) := None)) q' = Some re" for q' re
    proof -
      have "C2 q' = None" if "(C((p, i) := None)) q' = Some re"
      proof (rule none2)
        have "C q' = Some (fst re, snd re)" using that by (simp split: if_splits)
        then show "fst q' \<in> N" by (rule leaf_atD(1) [OF tree_invD(7) [OF inv]])
      qed
      then show ?thesis unfolding C'_def map_add_Some_iff by blast
    qed
    have "entry_changed s s' A A2 N (N \<union> N2) C C' (p, i)"
    proof (rule changed)
      have "leaf_regions C' \<subseteq> leaf_regions (C((p, i) := None)) \<union> leaf_regions C2"
        unfolding subset_iff Un_iff leaf_regions_iff cases by blast
      then show "leaf_regions C' \<subseteq> leaf_regions (C((p, i) := None)) \<union> - A" using 2(5) by blast
      show "\<forall>q'. fst q' \<in> N \<longrightarrow> q' \<noteq> (p, i) \<longrightarrow> C' q' = C q'" using none2 by (simp add: C'_def map_add_def)
    qed (use 2(3,4) in blast)+
    moreover have "contents C' = contents (C((p, i) := None)) \<union> set es"
      unfolding 2(6) [symmetric] by (rule set_eqI) (unfold Un_iff contents_iff cases, blast)
    ultimately show thesis using that run sizes sub' by blast
  qed
qed

section \<open>Building\<close>

text \<open>Entries that a subtree of level \<open>l\<close> can be built for: their keys go the same way down to it, and their
  hashes differ.\<close>

definition writable :: "nat \<Rightarrow> KVEntry list \<Rightarrow> bool" where
  "writable l es \<longleftrightarrow> es \<noteq> [] \<and> distinct (map kv_key es) \<and>
     (\<forall>e\<in>set es. valid_key (kv_key e) \<and> length (kv_key e) \<le> MAX_KEY_LENGTH \<and> entry_size (kv_key e) (length (kv_value e)) \<le> 2 ^ 31 - 2 ^ 13) \<and>
     (\<forall>e\<in>set es. \<forall>e'\<in>set es. \<forall>d. 0 < d \<longrightarrow> d \<le> l + 1 \<longrightarrow> get_bucket (kv_key e) (int d) = get_bucket (kv_key e') (int d)) \<and>
     inj_on (\<lambda>e. fnv_hash (kv_key e)) (set es)"

lemma writableD:
  assumes "writable l es"
  shows "es \<noteq> []" "distinct (map kv_key es)" "e \<in> set es \<Longrightarrow> valid_key (kv_key e)" "e \<in> set es \<Longrightarrow> length (kv_key e) \<le> MAX_KEY_LENGTH"
    "e \<in> set es \<Longrightarrow> entry_size (kv_key e) (length (kv_value e)) \<le> 2 ^ 31 - 2 ^ 13"
    "e \<in> set es \<Longrightarrow> e' \<in> set es \<Longrightarrow> 0 < d \<Longrightarrow> d \<le> l + 1 \<Longrightarrow> get_bucket (kv_key e) (int d) = get_bucket (kv_key e') (int d)"
    "inj_on (\<lambda>e. fnv_hash (kv_key e)) (set es)"
  using assms unfolding writable_def by blast+

text \<open>Eight levels tell different hashes apart.\<close>

lemma writable_level:
  assumes w: "writable l es" and two: "length es \<noteq> 1"
  shows "l \<le> 6"
proof (rule ccontr)
  assume l: "\<not> l \<le> 6"
  note d = writableD [OF w]
  obtain e es' where es: "es = e # es'" using d(1) by (cases es) simp_all
  then obtain e' where e': "e' \<in> set es'" using two by (cases es') auto
  have "e \<noteq> e'" using d(2) e' es by auto
  have "fnv_hash (kv_key e) = fnv_hash (kv_key e')"
    by (rule same_digits_same_hash) (use d(6) [of e e' "Suc _"] es e' l in \<open>simp add: add.commute\<close>)
  then have "e = e'" using inj_onD [OF d(7)] es e' by simp
  with \<open>e \<noteq> e'\<close> show False by simp
qed

lemma bucket_shallow: "l \<le> 6 \<Longrightarrow> get_bucket k (int (l + 1) + 1) = get_bucket_hash (fnv_hash k) (int (l + 1))"
  by (subst get_bucket_shallow) simp_all

lemma writable_bucket:
  assumes w: "writable l es" and l: "l \<le> 6" and ne: "bucket_entries es (l + 1) j \<noteq> []"
  shows "writable (l + 1) (bucket_entries es (l + 1) j)"
proof -
  note d = writableD [OF w]
  have sub: "set (bucket_entries es (l + 1) j) \<subseteq> set es" by (auto simp: bucket_entries_def)
  have b: "get_bucket (kv_key e) (int (l + 1) + 1) = j" if "e \<in> set (bucket_entries es (l + 1) j)" for e
    using that unfolding bucket_shallow [OF l] by (simp add: bucket_entries_def)
  show ?thesis
    unfolding writable_def
  proof (intro conjI ballI allI impI)
    show "distinct (map kv_key (bucket_entries es (l + 1) j))" using d(2) by (simp add: bucket_entries_def distinct_map_filter)
    show "inj_on (\<lambda>e. fnv_hash (kv_key e)) (set (bucket_entries es (l + 1) j))" by (rule inj_on_subset [OF d(7) sub])
    fix e e' n assume e: "e \<in> set (bucket_entries es (l + 1) j)" "e' \<in> set (bucket_entries es (l + 1) j)" and n: "0 < n" "n \<le> l + 1 + 1"
    show "get_bucket (kv_key e) (int n) = get_bucket (kv_key e') (int n)"
    proof (cases "n \<le> l + 1")
      case True
      then show ?thesis using d(6) e sub n(1) by blast
    next
      case False
      then have "int n = int (l + 1) + 1" using n(2) by simp
      then show ?thesis using b [OF e(1)] b [OF e(2)] by simp
    qed
  qed (use ne d(3-5) sub in auto)
qed

text \<open>\<open>create_subtree\<close> before it links.\<close>

definition build :: "nat \<Rightarrow> nat \<Rightarrow> KVEntry list \<Rightarrow> pages \<Rightarrow> (nat \<times> pages) result option" where
  "build fuel l es s =
     (if total_entries_size es \<le> leaf_capacity then Some (create_leaf es s)
      else if length es = 1 then Some (create_big_leaf (hd es) s)
      else bindO (Some (SpaceManager_allocate 0 s)) (\<lambda>(node, s).
        bindO (for_each (\<lambda>i s.
            let es' = bucket_entries es (l + 1) i in
            if es' = [] then Some (Inr s) else create_subtree fuel node i (l + 1) es' s)
          [0..<512] s) (\<lambda>s.
        Some (Inr (set_msb node 1, s)))))"

lemma create_subtree_build:
  "create_subtree (Suc fuel) p i l es s = bindO (build fuel l es s) (\<lambda>(v, s). Some (link_subtree p i v s))"
  by (simp add: build_def)

definition subtree_cost :: "nat \<Rightarrow> nat \<Rightarrow> nat" where
  "subtree_cost l n = n * (2 ^ 19 + 1 + 20 * (8 - l))"

definition built :: "nat \<Rightarrow> nat \<Rightarrow> KVEntry list \<Rightarrow> (nat \<times> nat) set \<Rightarrow> pages \<Rightarrow> bool" where
  "built fuel l es A s \<longleftrightarrow> (\<exists>v s1 A1. build fuel l es s = Some (Inr (v, s1)) \<and> branch l es A s1 A1 v \<and> kept A s s1 \<and>
     next_free_page s1 \<le> next_free_page s + subtree_cost l (length es))"

text \<open>The loop over the buckets: the new node \<open>r\<close> has the subtrees for the buckets \<open>D\<close> so far.\<close>

definition buckets_done :: "nat \<Rightarrow> nat \<Rightarrow> KVEntry list \<Rightarrow> (nat \<times> nat) set \<Rightarrow> pages \<Rightarrow> nat set \<Rightarrow> pages \<Rightarrow> bool" where
  "buckets_done r l es A s D s' \<longleftrightarrow> (\<exists>A' N C. subtree r (l + 1) s' A' N C \<and> A \<subseteq> A' \<and> kept A s s' \<and> ROOT_PAGE \<notin> N \<and>
     N \<times> {0} \<inter> A = {} \<and> leaf_regions C \<inter> A = {} \<and>
     contents C = {e \<in> set es. get_bucket_hash (fnv_hash (kv_key e)) (int (l + 1)) \<in> D} \<and>
     (\<forall>j<512. j \<notin> D \<longrightarrow> C (r, j) = None \<and> node_entry s' r j = 0))"

lemma bucket_done:
  assumes J: "buckets_done r l es A s D s1" and w: "writable l es" and l: "l \<le> 6" and i: "i < 512" "i \<notin> D"
    and ne: "bucket_entries es (l + 1) i \<noteq> []"
    and IH: "\<And>A1. space_ok s1 A1 \<Longrightarrow> built fuel (l + 1) (bucket_entries es (l + 1) i) A1 s1"
    and room: "next_free_page s1 + subtree_cost (l + 1) (length (bucket_entries es (l + 1) i)) + 19 \<le> 2 ^ 52"
  obtains s2 where "create_subtree (Suc fuel) r i (l + 1) (bucket_entries es (l + 1) i) s1 = Some (Inr s2)"
    "buckets_done r l es A s (insert i D) s2"
    "next_free_page s2 \<le> next_free_page s1 + subtree_cost (l + 1) (length (bucket_entries es (l + 1) i)) + 19"
proof -
  define es' where "es' = bucket_entries es (l + 1) i"
  have w': "writable (l + 1) es'" unfolding es'_def by (rule writable_bucket [OF w l ne])
  obtain A1 N C where sub: "subtree r (l + 1) s1 A1 N C" and A: "A \<subseteq> A1" "kept A s s1" and N: "ROOT_PAGE \<notin> N" "N \<times> {0} \<inter> A = {}"
    and C: "leaf_regions C \<inter> A = {}" "contents C = {e \<in> set es. get_bucket_hash (fnv_hash (kv_key e)) (int (l + 1)) \<in> D}"
    and zero: "\<And>j. j < 512 \<Longrightarrow> j \<notin> D \<Longrightarrow> C (r, j) = None \<and> node_entry s1 r j = 0"
    using J unfolding buckets_done_def by blast
  have r: "r \<in> N" "r \<noteq> 1" using tree_invD(2) [OF sub] N(1) by (auto simp: ROOT_PAGE_def)
  have rA: "(r, 0) \<notin> A" using r(1) N(2) by blast
  have none: "C (r, i) = None" "node_entry s1 r i = 0" using zero [OF i] by simp_all
  have without: "C((r, i) := None) = C" by (rule fun_upd_idem) (rule none(1))
  have old: "old_regions C (r, i) = {}" by (simp add: old_regions_def none(1))
  obtain v s2 A2 where b: "build fuel (l + 1) es' s1 = Some (Inr (v, s2))" "branch (l + 1) es' A1 s2 A2 v" "kept A1 s1 s2"
    "next_free_page s2 \<le> next_free_page s1 + subtree_cost (l + 1) (length es')"
    using IH [OF tree_invD(1) [OF sub]] unfolding built_def es'_def by blast
  have way: "find_parent_from (Suc 0) s1 (kv_key e) r (l + 1) = Some (r, i, l + 1)" if "e \<in> set es'" for e
  proof -
    have "get_bucket (kv_key e) (int (l + 1) + 1) = i" using that unfolding es'_def bucket_shallow [OF l] by (simp add: bucket_entries_def)
    then show ?thesis using none(2) by (simp add: Let_def)
  qed
  obtain s3 A3 N3 C3 where lk: "link_subtree r i v s2 = Inr s3" "subtree r (l + 1) s3 A3 N3 C3" "entry_changed s1 s3 A1 A3 N N3 C C3 (r, i)"
    "contents C3 = contents C \<union> set es'" "next_free_page s3 \<le> next_free_page s2 + 19"
  proof (rule link_ok [OF sub r(1) i(1) _ b(2,3)])
    show "get_msb (node_entry s1 r i) = 0" using none(2) by simp
    show "next_free_page s2 + 19 \<le> 2 ^ 52" using b(4) room by (simp add: es'_def)
    show "es' \<noteq> []" "distinct (map kv_key es')" using writableD(1,2) [OF w'] by simp_all
    show "\<forall>e\<in>set es'. \<exists>f. find_parent_from f s1 (kv_key e) r (l + 1) = Some (r, i, l + 1)" using way by blast
  qed (use that without in simp)
  note ch = entry_changedD [OF lk(3), unfolded old without fst_conv]
  have run: "create_subtree (Suc fuel) r i (l + 1) es' s1 = Some (Inr s3)"
    unfolding create_subtree_build b(1) by (simp add: lk(1))
  have "buckets_done r l es A s (insert i D) s3"
    unfolding buckets_done_def
  proof (intro exI conjI)
    show "subtree r (l + 1) s3 A3 N3 C3" by (rule lk(2))
    show "A \<subseteq> A3" using A(1) ch(4) by blast
    show "kept A s s3"
    proof (rule keptI)
      show "s3 1 = s 1" using ch(2) r(2) keptD(1) [OF A(2)] by simp
      show "kv_entry_count s3 = kv_entry_count s" using ch(3) keptD(2) [OF A(2)] by simp
      show "s3 pg = s pg" if "(x, k) \<in> A" "pg \<in> region x k" for x k pg
      proof -
        have "(x, k) \<in> A1" "(x, k) \<noteq> (r, 0)" using that(1) A(1) rA by blast+
        then show ?thesis using ch(1) [of x k pg] that(2) keptD(3) [OF A(2) that] by simp
      qed
    qed
    show "ROOT_PAGE \<notin> N3" using ch(7) N(1) by blast
    show "N3 \<times> {0} \<inter> A = {}" using ch(6) N(2) A(1) by blast
    show "leaf_regions C3 \<inter> A = {}" using ch(9) C(1) A(1) by blast
    show "contents C3 = {e \<in> set es. get_bucket_hash (fnv_hash (kv_key e)) (int (l + 1)) \<in> insert i D}"
      unfolding lk(4) C(2) by (auto simp: es'_def bucket_entries_def)
    show "\<forall>j<512. j \<notin> insert i D \<longrightarrow> C3 (r, j) = None \<and> node_entry s3 r j = 0"
    proof (intro allI impI)
      fix j assume j: "j < (512::nat)" "j \<notin> insert i D"
      then have "(r, j) \<noteq> (r, i)" by blast
      then show "C3 (r, j) = None \<and> node_entry s3 r j = 0"
        using ch(8) [of "(r, j)"] ch(10) [OF r(1)] r(1) zero [OF j(1)] j(2) by simp
    qed
  qed
  then show thesis using that run lk(5) b(4) unfolding es'_def by simp
qed

lemma buckets_loop:
  assumes w: "writable l es" and l: "l \<le> 6"
    and IH: "\<And>i A1 s1. bucket_entries es (l + 1) i \<noteq> [] \<Longrightarrow> space_ok s1 A1 \<Longrightarrow>
      next_free_page s1 + subtree_cost (l + 1) (length (bucket_entries es (l + 1) i)) \<le> 2 ^ 52 \<Longrightarrow> built fuel (l + 1) (bucket_entries es (l + 1) i) A1 s1"
  shows "buckets_done r l es A s D s1 \<Longrightarrow> distinct is \<Longrightarrow> set is \<subseteq> {..<512} - D \<Longrightarrow>
    next_free_page s1 + sum_list (map (\<lambda>i. length (bucket_entries es (l + 1) i)) is) * (2 ^ 19 + 20 + 20 * (7 - l)) \<le> 2 ^ 52 \<Longrightarrow>
    \<exists>s2. for_each (\<lambda>i s. let es' = bucket_entries es (l + 1) i in
            if es' = [] then Some (Inr s) else create_subtree (Suc fuel) r i (l + 1) es' s) is s1 = Some (Inr s2) \<and>
      buckets_done r l es A s (D \<union> set is) s2 \<and>
      next_free_page s2 \<le> next_free_page s1 + sum_list (map (\<lambda>i. length (bucket_entries es (l + 1) i)) is) * (2 ^ 19 + 20 + 20 * (7 - l))"
proof (induction "is" arbitrary: D s1)
  case (Cons i "is")
  define n where "n = length (bucket_entries es (l + 1) i)"
  define K :: nat where "K = 2 ^ 19 + 20 + 20 * (7 - l)"
  define m where "m = sum_list (map (\<lambda>i. length (bucket_entries es (l + 1) i)) is)"
  have mK: "next_free_page s1 + (n + m) * K \<le> 2 ^ 52" using Cons.prems(4) by (simp add: n_def m_def K_def)
  show ?case
  proof (cases "bucket_entries es (l + 1) i = []")
    case True
    have "\<not> (\<exists>e\<in>set es. get_bucket_hash (fnv_hash (kv_key e)) (int (l + 1)) = i)" using True by (auto simp: bucket_entries_def filter_empty_conv)
    then have eq: "{e \<in> set es. get_bucket_hash (fnv_hash (kv_key e)) (int (l + 1)) \<in> insert i D} =
      {e \<in> set es. get_bucket_hash (fnv_hash (kv_key e)) (int (l + 1)) \<in> D}" by blast
    have n0: "n = 0" unfolding n_def True by simp
    have J: "buckets_done r l es A s (insert i D) s1" using Cons.prems(1) unfolding buckets_done_def eq by blast
    have "\<exists>s2. for_each (\<lambda>i s. let es' = bucket_entries es (l + 1) i in
            if es' = [] then Some (Inr s) else create_subtree (Suc fuel) r i (l + 1) es' s) is s1 = Some (Inr s2) \<and>
      buckets_done r l es A s (insert i D \<union> set is) s2 \<and> next_free_page s2 \<le> next_free_page s1 + m * K"
      unfolding m_def K_def by (rule Cons.IH [OF J]) (use Cons.prems(2,3) mK n0 in \<open>auto simp: m_def K_def\<close>)
    then show ?thesis using True n0 by (simp add: n_def m_def K_def)
  next
    case False
    have "0 < n" using False by (simp add: n_def)
    then have cost: "subtree_cost (l + 1) n + 19 \<le> n * K"
      by (cases n) (simp_all add: subtree_cost_def K_def algebra_simps)
    have mK': "next_free_page s1 + n * K + m * K \<le> 2 ^ 52" using mK by (simp add: add_mult_distrib)
    have room1: "next_free_page s1 + subtree_cost (l + 1) n + 19 \<le> 2 ^ 52" using mK' cost by linarith
    have i: "i < 512" "i \<notin> D" using Cons.prems(3) by auto
    obtain s2 where s2: "create_subtree (Suc fuel) r i (l + 1) (bucket_entries es (l + 1) i) s1 = Some (Inr s2)"
      "buckets_done r l es A s (insert i D) s2" "next_free_page s2 \<le> next_free_page s1 + subtree_cost (l + 1) n + 19"
    proof (rule bucket_done [OF Cons.prems(1) w l i False])
      show "built fuel (l + 1) (bucket_entries es (l + 1) i) A1 s1" if "space_ok s1 A1" for A1
        by (rule IH [OF False that]) (use room1 in \<open>simp add: n_def\<close>)
    qed (use room1 in \<open>simp_all add: n_def\<close>)
    have "\<exists>s3. for_each (\<lambda>i s. let es' = bucket_entries es (l + 1) i in
            if es' = [] then Some (Inr s) else create_subtree (Suc fuel) r i (l + 1) es' s) is s2 = Some (Inr s3) \<and>
      buckets_done r l es A s (insert i D \<union> set is) s3 \<and> next_free_page s3 \<le> next_free_page s2 + m * K"
      unfolding m_def K_def
    proof (rule Cons.IH [OF s2(2)])
      show "next_free_page s2 + sum_list (map (\<lambda>i. length (bucket_entries es (l + 1) i)) is) * (2 ^ 19 + 20 + 20 * (7 - l)) \<le> 2 ^ 52"
        unfolding m_def [symmetric] K_def [symmetric] using mK' s2(3) cost by linarith
    qed (use Cons.prems(2,3) in auto)
    then obtain s3 where s3: "for_each (\<lambda>i s. let es' = bucket_entries es (l + 1) i in
            if es' = [] then Some (Inr s) else create_subtree (Suc fuel) r i (l + 1) es' s) is s2 = Some (Inr s3)"
      "buckets_done r l es A s (insert i D \<union> set is) s3" "next_free_page s3 \<le> next_free_page s2 + m * K" by blast
    have "next_free_page s3 \<le> next_free_page s1 + (n + m) * K" using s3(3) s2(3) cost unfolding add_mult_distrib by linarith
    then show ?thesis using False s2(1) s3(1,2) by (simp add: n_def m_def K_def del: create_subtree.simps)
  qed
qed simp

lemma build_leaf:
  assumes w: "writable l es" and ok: "space_ok s A" and room: "next_free_page s + subtree_cost l (length es) \<le> 2 ^ 52"
    and leaf: "total_entries_size es \<le> leaf_capacity \<or> length es = 1"
  shows "built fuel l es A s"
proof -
  note d = writableD [OF w]
  have cost: "1 + 2 ^ 19 \<le> subtree_cost l (length es)" using d(1) by (cases es) (simp_all add: subtree_cost_def)
  show ?thesis
  proof (cases "total_entries_size es \<le> leaf_capacity")
    case True
    have few: "length es < 2 ^ 16" using entries_few [of es] d(3) True by (simp add: data_capacity)
    obtain x s1 where x: "create_leaf es s = Inr (x, s1)" "leaf_made s A [x] es s1" "next_free_page s1 \<le> next_free_page s + 1"
      by (rule create_leaf_made [OF ok, of es]) (use room cost d(1,3) True few in simp_all)
    then have "branch l es A s1 (A \<union> value_regions [x]) ([x] ! 0)" "kept A s s1" unfolding leaf_made_def branch_def by blast+
    moreover have "build fuel l es s = Some (Inr ([x] ! 0, s1))" using x(1) True by (simp add: build_def)
    moreover have "next_free_page s1 \<le> next_free_page s + subtree_cost l (length es)" using x(3) cost by simp
    ultimately show ?thesis unfolding built_def by blast
  next
    case False
    then obtain e where e: "es = [e]" using leaf by (cases es) auto
    obtain rs s1 where x: "create_big_leaf e s = Inr (rs ! 0, s1)" "leaf_made s A rs [e] s1" "next_free_page s1 \<le> next_free_page s + 1 + 2 ^ 19"
      by (rule create_big_leaf_made [OF ok, of e]) (use room cost d(3-5) False e in \<open>simp_all add: total_entries_size_def\<close>)
    then have "branch l es A s1 (A \<union> value_regions rs) (rs ! 0)" "kept A s s1" unfolding leaf_made_def branch_def e by blast+
    moreover have "build fuel l es s = Some (Inr (rs ! 0, s1))" using x(1) False e by (simp add: build_def)
    moreover have "next_free_page s1 \<le> next_free_page s + subtree_cost l (length es)" using x(3) cost by simp
    ultimately show ?thesis unfolding built_def by blast
  qed
qed

lemma sum_buckets:
  assumes "\<And>e. e \<in> set es \<Longrightarrow> f e < n"
  shows "sum_list (map (\<lambda>i. length (filter (\<lambda>e. f e = i) es)) [0..<n]) = length es"
proof -
  have "(\<Sum>i\<in>{0..<n}. length (filter (\<lambda>e. f e = i) es)) = length es"
    using assms
  proof (induction es)
    case (Cons a es)
    have "(\<Sum>i\<in>{0..<n}. length (filter (\<lambda>e. f e = i) (a # es))) =
      (\<Sum>i\<in>{0..<n}. (if i = f a then 1 else 0) + length (filter (\<lambda>e. f e = i) es))"
      by (rule sum.cong) auto
    then show ?case using Cons by (simp add: sum.distrib)
  qed simp
  then show ?thesis by (simp add: interv_sum_list_conv_sum_set_nat)
qed

lemma length_buckets: "sum_list (map (\<lambda>i. length (bucket_entries es l i)) [0..<512]) = length es"
  unfolding bucket_entries_def by (rule sum_buckets) (simp add: get_bucket_hash_digit)

lemma new_node:
  assumes ok: "space_ok s (insert (x, 0) A)" and z: "is_zero (s x)"
  shows "subtree x l s (insert (x, 0) A) {x} (\<lambda>_. None)"
proof -
  have e: "node_entry s x i = 0" if "i < 512" for i
    unfolding node_entry_def by (rule is_zero_get(1) [OF z]) (use that in simp)
  have "find_parent_from (Suc 0) s key x l = Some (x, get_bucket key (int l + 1), l)" for key
    using e [OF get_bucket_less] by (simp add: Let_def)
  then have "\<exists>q. leads_from x l s key q" for key
    unfolding leads_from_def by (metis fst_conv snd_conv)
  then show ?thesis
    using ok e unfolding subtree_def closed_nodes_def tree_shaped_def by (auto intro: exI [of _ "\<lambda>_. []"])
qed

lemma build_ok:
  "writable l es \<Longrightarrow> 8 \<le> fuel + l \<Longrightarrow> space_ok s A \<Longrightarrow> next_free_page s + subtree_cost l (length es) \<le> 2 ^ 52 \<Longrightarrow> built fuel l es A s"
proof (induction fuel arbitrary: l es s A rule: less_induct)
  case (less fuel)
  note w = writableD [OF less.prems(1)]
  consider "total_entries_size es \<le> leaf_capacity \<or> length es = 1" | "\<not> total_entries_size es \<le> leaf_capacity" "length es \<noteq> 1" by blast
  then show ?case
  proof cases
    case 1
    then show ?thesis by (rule build_leaf [OF less.prems(1,3,4)])
  next
    case 2
    have l: "l \<le> 6" by (rule writable_level [OF less.prems(1) 2(2)])
    obtain fuel' where fuel: "fuel = Suc fuel'" using l less.prems(2) by (cases fuel) simp_all
    define n where "n = length es"
    have n: "1 \<le> n" using w(1) by (cases es) (simp_all add: n_def)
    have cost: "1 + n * (2 ^ 19 + 20 + 20 * (7 - l)) \<le> subtree_cost l n"
    proof -
      define m where "m = 7 - l"
      have "8 - l = Suc m" using l by (simp add: m_def)
      then have "subtree_cost l n = n * (2 ^ 19 + 20 + 20 * m) + n" by (simp add: subtree_cost_def algebra_simps)
      then show ?thesis using n unfolding m_def by linarith
    qed
    obtain x s1 where x: "SpaceManager_allocate 0 s = Inr (x, s1)" "allocated 0 A s x s1"
      by (rule allocate_ok [OF less.prems(3), of 0]) (use less.prems(4) cost in \<open>simp_all add: n_def [symmetric]\<close>)
    have ok1: "space_ok s1 (insert (x, 0) A)" and new: "(x, 0) \<notin> A" and kp: "kept A s s1" and z: "is_zero (s1 x)"
      and nf: "next_free_page s1 \<le> next_free_page s + 1" using x(2) by (simp_all add: allocated_def)
    have J: "buckets_done x l es A s {} s1"
      unfolding buckets_done_def
    proof (intro exI conjI)
      show "subtree x (l + 1) s1 (insert (x, 0) A) {x} (\<lambda>_. None)" by (rule new_node [OF ok1 z])
      show "ROOT_PAGE \<notin> {x}" using space_okD(1) [OF ok1, of x 0 x] by (simp add: ROOT_PAGE_def)
      show "\<forall>j<512. j \<notin> {} \<longrightarrow> None = None \<and> node_entry s1 x j = 0"
        unfolding node_entry_def using is_zero_get(1) [OF z] by simp
    qed (use new kp in \<open>auto simp: leaf_regions_def contents_def\<close>)
    have "\<exists>s2. for_each (\<lambda>i s. let es' = bucket_entries es (l + 1) i in
            if es' = [] then Some (Inr s) else create_subtree (Suc fuel') x i (l + 1) es' s) [0..<512] s1 = Some (Inr s2) \<and>
      buckets_done x l es A s ({} \<union> set [0..<512]) s2 \<and>
      next_free_page s2 \<le> next_free_page s1 + sum_list (map (\<lambda>i. length (bucket_entries es (l + 1) i)) [0..<512]) * (2 ^ 19 + 20 + 20 * (7 - l))"
    proof (rule buckets_loop [OF less.prems(1) l _ J])
      fix i A1 s1 assume a: "bucket_entries es (l + 1) i \<noteq> []" "space_ok s1 A1"
        "next_free_page s1 + subtree_cost (l + 1) (length (bucket_entries es (l + 1) i)) \<le> 2 ^ 52"
      show "built fuel' (l + 1) (bucket_entries es (l + 1) i) A1 s1"
        by (rule less.IH [OF _ writable_bucket [OF less.prems(1) l a(1)] _ a(2,3)]) (use less.prems(2) fuel in simp_all)
    next
      show "next_free_page s1 + sum_list (map (\<lambda>i. length (bucket_entries es (l + 1) i)) [0..<512]) * (2 ^ 19 + 20 + 20 * (7 - l)) \<le> 2 ^ 52"
        unfolding length_buckets n_def [symmetric] using less.prems(4) cost nf by (simp add: n_def [symmetric])
    qed (auto simp: subset_iff)
    then obtain s2 where s2: "for_each (\<lambda>i s. let es' = bucket_entries es (l + 1) i in
            if es' = [] then Some (Inr s) else create_subtree fuel x i (l + 1) es' s) [0..<512] s1 = Some (Inr s2)"
      "buckets_done x l es A s {..<512} s2" "next_free_page s2 \<le> next_free_page s1 + n * (2 ^ 19 + 20 + 20 * (7 - l))"
      unfolding length_buckets fuel by (auto simp: n_def atLeast0LessThan)
    have run: "build fuel l es s = Some (Inr (set_msb x 1, s2))"
      unfolding build_def if_not_P [OF 2(1)] if_not_P [OF 2(2)] x(1) bindO_simps prod.case s2(1) ..
    obtain A2 N C where sub: "subtree x (l + 1) s2 A2 N C" "A \<subseteq> A2" "kept A s s2" "ROOT_PAGE \<notin> N" "N \<times> {0} \<inter> A = {}"
      "leaf_regions C \<inter> A = {}" "contents C = set es"
      using s2(2) unfolding buckets_done_def by (auto simp: get_bucket_hash_digit)
    have "branch l es A s2 A2 (set_msb x 1)"
      unfolding branch_def using tree_invD(1) [OF sub(1)] sub by blast
    moreover have "next_free_page s2 \<le> next_free_page s + subtree_cost l n" using s2(3) nf cost by linarith
    ultimately show ?thesis unfolding built_def n_def using run sub(3) by blast
  qed
qed

lemma create_subtree_ok:
  assumes inv: "subtree rt lv s A N C" and q: "p \<in> N" "i < 512" "get_msb (node_entry s p i) = 0"
    and es: "writable l es" "\<forall>e\<in>set es. \<exists>f. find_parent_from f s (kv_key e) rt lv = Some (p, i, l)"
    and fuel: "8 \<le> fuel + l" and room: "next_free_page s + subtree_cost l (length es) + 19 \<le> 2 ^ 52"
  obtains s' A' N' C' where "create_subtree (Suc fuel) p i l es s = Some (Inr s')" "subtree rt lv s' A' N' C'"
    "entry_changed s s' A A' N N' C C' (p, i)" "contents C' = contents (C((p, i) := None)) \<union> set es"
    "next_free_page s' \<le> next_free_page s + subtree_cost l (length es) + 19"
proof -
  note w = writableD [OF es(1)]
  have "built fuel l es A s" by (rule build_ok [OF es(1) fuel tree_invD(1) [OF inv]]) (use room in simp)
  then obtain v s1 A1 where b: "build fuel l es s = Some (Inr (v, s1))" "branch l es A s1 A1 v" "kept A s s1"
    "next_free_page s1 \<le> next_free_page s + subtree_cost l (length es)" unfolding built_def by blast
  have "next_free_page s1 + 19 \<le> 2 ^ 52" using b(4) room by simp
  then obtain s' A' N' C' where k: "link_subtree p i v s1 = Inr s'" "subtree rt lv s' A' N' C'" "entry_changed s s' A A' N N' C C' (p, i)"
    "contents C' = contents (C((p, i) := None)) \<union> set es" "next_free_page s' \<le> next_free_page s1 + 19"
    by (rule link_ok [OF inv q b(2,3) _ w(1,2) es(2)])
  have "create_subtree (Suc fuel) p i l es s = Some (Inr s')" unfolding create_subtree_build b(1) by (simp add: k(1))
  then show thesis using that k(2-5) b(4) by simp
qed

end
