(* ===== verification/Map_Split.thy ===== *)
theory Map_Split
  imports Prelude Hashing Pages Space_Manager Leaf Big_Value Disk_Map Map_Invariant Map_Write Map_Subtree Map_Build
begin

text \<open>
  Writing where a leaf is split or replaced by a subtree.
\<close>

section \<open>Splitting a leaf\<close>

lemma space_ok_subset:
  assumes ok: "space_ok s A" and sub: "B \<subseteq> A"
  shows "space_ok s B"
proof -
  obtain F c xs own where inv: "space_inv s F c xs own A" using ok by (auto simp: space_ok_def)
  have "\<forall>(x, k)\<in>B. k \<le> MAX_ORDER \<and> 41 \<le> x \<and> (\<forall>p\<in>region x k. own p = Alloc x k)"
    using inv sub unfolding space_inv_def by (elim conjE) (rule ballI, drule (1) subsetD, drule (1) bspec, assumption)
  then have "space_inv s F c xs own B" using inv unfolding space_inv_def by (elim conjE, intro conjI) assumption+
  then show ?thesis unfolding space_ok_def by blast
qed

text \<open>A new node in place of an entry.\<close>

lemma insert_node:
  assumes inv: "subtree rt lv s A N C" and q: "p \<in> N" "i < 512" "get_msb (node_entry s p i) = 0"
    and level: "find_parent_from f0 s k0 rt lv = Some (p, i, l)" and room: "next_free_page s + 1 \<le> 2 ^ 52"
  obtains x s1 where "SpaceManager_allocate 0 s = Inr (x, s1)" "put_node_entry p i (set_msb x 1) s1 = Inr (set_entry p i (set_msb x 1) s1)"
    "subtree rt lv (set_entry p i (set_msb x 1) s1) (insert (x, 0) A) (insert x N) (C((p, i) := None))"
    "x \<notin> N" "(x, 0) \<notin> A" "\<forall>y k pg. (y, k) \<in> A \<longrightarrow> (y, k) \<noteq> (p, 0) \<longrightarrow> pg \<in> region y k \<longrightarrow> set_entry p i (set_msb x 1) s1 pg = s pg"
    "\<forall>key f. find_parent_from f s key rt lv = Some (p, i, l) \<longrightarrow>
      find_parent_from (f + 1) (set_entry p i (set_msb x 1) s1) key rt lv = Some (x, get_bucket key (int l + 2), l + 1)"
    "kv_entry_count (set_entry p i (set_msb x 1) s1) = kv_entry_count s"
    "next_free_page (set_entry p i (set_msb x 1) s1) \<le> next_free_page s + 1"
proof -
  note ok = tree_invD(1) [OF inv]
  obtain x s1 where x: "SpaceManager_allocate 0 s = Inr (x, s1)" "allocated 0 A s x s1"
    by (rule allocate_ok [OF ok, of 0]) (use room in simp_all)
  have ok1: "space_ok s1 (insert (x, 0) A)" and new: "(x, 0) \<notin> A" and kp: "kept A s s1" and z: "is_zero (s1 x)"
    and nf: "next_free_page s1 \<le> next_free_page s + 1" using x(2) by (simp_all add: allocated_def)
  have x1: "x \<noteq> 1" using space_okD(1) [OF ok1, of x 0 x] by simp
  have xN: "x \<notin> N" using node_page(3) [OF inv, of x] x1 new by blast
  define s' where "s' = set_entry p i (set_msb x 1) s1"
  note sub = new_node [OF ok1 z, of "l + 1"]
  have none: "leaf_regions (\<lambda>_. None) = {}" "contents (\<lambda>_. None) = {}" by (simp_all add: leaf_regions_def contents_def)
  note of = old_regions_facts [OF inv, of "(p, i)"]
  have gr: "graftable rt lv s N C (p, i) s1 (insert (x, 0) A) {x} (\<lambda>_. None)"
    unfolding graftable_def none
  proof (intro conjI ballI)
    show "s1 y = s y" "y = ROOT_PAGE \<or> (y, 0) \<in> insert (x, 0) A" if "y \<in> N" for y
      using kept_page [OF kp node_page(3) [OF inv that]] node_page(3) [OF inv that] by (auto simp: ROOT_PAGE_def)
    show "leaf_regions (C((p, i) := None)) \<inter> {x} \<times> {0} = {}" using of(4) new by blast
    show "case y of (z, k) \<Rightarrow> \<forall>pg\<in>region z k. s1 pg = s pg" if "y \<in> leaf_regions (C((p, i) := None))" for y
      using subsetD [OF of(4) that] keptD(3) [OF kp] by (cases y) blast
  qed (use xN of(4) in auto)
  have lv: "\<forall>k f l'. find_parent_from f s k rt lv = Some (p, i, l') \<longrightarrow> l' = l"
    using same_way(1) [OF inv level] by blast
  have r2: "x \<noteq> ROOT_PAGE" using x1 by (simp add: ROOT_PAGE_def)
  note g = graft [where l = l, OF inv q lv sub gr r2 s'_def]
  have "subtree rt lv s' (insert (x, 0) A) (insert x N) (C((p, i) := None))" using g(2) by (simp add: map_add_def)
  moreover have "put_node_entry p i (set_msb x 1) s1 = Inr s'" unfolding s'_def by (rule put_node_entry_ok [OF node_page(1) [OF inv q(1)] q(2)])
  moreover have "s' pg = s pg" if "(y, k) \<in> A" "(y, k) \<noteq> (p, 0)" "pg \<in> region y k" for y k pg
  proof -
    have "pg \<noteq> p"
    proof
      assume e: "pg = p"
      have "p \<noteq> 1" using space_okD(1) [OF ok that(1,3)] e by simp
      then have "(p, 0) \<in> A" using node_page(3) [OF inv q(1)] by simp
      from space_okD(4) [OF ok that(1) this that(2)] show False using that(3) e by auto
    qed
    then show ?thesis using keptD(3) [OF kp that(1,3)] by (simp add: s'_def)
  qed
  moreover have "find_parent_from (f + 1) s' key rt lv = Some (x, get_bucket key (int l + 2), l + 1)"
    if "find_parent_from f s key rt lv = Some (p, i, l)" for key f
  proof (rule g(3) [OF that])
    have "node_entry s1 x (get_bucket key (int l + 2)) = 0"
      unfolding node_entry_def by (rule is_zero_get(1) [OF z]) (use get_bucket_less [of key "int l + 2"] in simp)
    moreover have "int (l + 1) + 1 = int l + 2" by simp
    ultimately show "find_parent_from 1 s1 key x (l + 1) = Some (x, get_bucket key (int l + 2), l + 1)"
      by (simp only: One_nat_def find_parent_from.simps Let_def simp_thms if_True)
  qed
  moreover have "kv_entry_count s' = kv_entry_count s" "next_free_page s' \<le> next_free_page s + 1"
    using keptD(2) [OF kp] nf node_page(2) [OF inv q(1)] by (simp_all add: s'_def kv_entry_count_def next_free_page_def)
  ultimately show thesis using that x(1) xN new unfolding s'_def by blast
qed

text \<open>A leaf of the map that no entry points to is put below an empty entry.\<close>

lemma attach_existing:
  assumes inv: "subtree rt lv s A N C" and q: "p \<in> N" "i < 512" "C (p, i) = None" "get_msb (node_entry s p i) = 0"
    and leaf: "leaf_ok s rs es" "value_regions rs \<subseteq> A" "value_regions rs \<inter> N \<times> {0} = {}" "value_regions rs \<inter> leaf_regions C = {}"
    and es: "distinct (map kv_key es)" "\<forall>e\<in>set es. leads_from rt lv s (kv_key e) (p, i)"
  shows "subtree rt lv (set_entry p i (rs ! 0) s) A N (C((p, i) \<mapsto> (rs, es)))"
    "kv_entry_count (set_entry p i (rs ! 0) s) = kv_entry_count s" "next_free_page (set_entry p i (rs ! 0) s) = next_free_page s"
    "same_nodes N s (set_entry p i (rs ! 0) s)"
proof -
  define B where "B = A - value_regions rs"
  have zero: "node_entry s p i = 0" using tree_invD(6) [OF inv q(1,2,4,3)] .
  have B: "B \<union> value_regions rs = A" using leaf(2) by (auto simp: B_def)
  have sub: "subtree rt lv s B N C"
  proof (rule subtree_frame [OF inv])
    show "space_ok s B" by (rule space_ok_subset [OF tree_invD(1) [OF inv]]) (simp add: B_def)
    show "leaf_regions C \<subseteq> B" using leaf_regions_facts(1) [OF inv] leaf(4) by (auto simp: B_def)
    show "x = ROOT_PAGE \<or> (x, 0) \<in> B" if "x \<in> N" for x using tree_invD(3) [OF inv that] leaf(3) that by (auto simp: B_def)
  qed simp_all
  have "leaf_made s B rs es s"
    using tree_invD(1) [OF inv] leaf(1) B by (auto simp: leaf_made_def B_def)
  note a = attach_leaf [OF sub q(1,2) zero q(3) this es]
  show "subtree rt lv (set_entry p i (rs ! 0) s) A N (C((p, i) \<mapsto> (rs, es)))" using a(1) unfolding B .
  show "kv_entry_count (set_entry p i (rs ! 0) s) = kv_entry_count s" "next_free_page (set_entry p i (rs ! 0) s) = next_free_page s"
    by (rule a(2), rule a(3))
  note st = leaf_ok_start [OF leaf(1) tree_invD(1) [OF inv] leaf(2)]
  show "same_nodes N s (set_entry p i (rs ! 0) s)"
  proof (rule same_nodesI [of N p i])
    show "node_entry (set_entry p i (rs ! 0) s) x j = node_entry s x j" if "(x, j) \<noteq> (p, i)" for x j
      using that by (auto simp: node_entry_set)
    show "get_msb (node_entry (set_entry p i (rs ! 0) s) p i) = 0" using st(3,5) by (simp add: node_entry_set page_ok_def)
  qed (rule q(4))
qed

lemma find_parent_bucket: "find_parent_from f s key p0 l0 = Some (p, i, l) \<Longrightarrow> i = get_bucket key (int l + 1)"
  by (induction f arbitrary: p0 l0) (auto simp: Let_def split: if_splits)

lemma split_ok:
  fixes e e0
  assumes e: "valid_key (kv_key e)" "length (kv_key e) \<le> MAX_KEY_LENGTH" "entry_size (kv_key e) (length (kv_value e)) \<le> 2 ^ 31 - 2 ^ 13"
    and hash: "fnv_hash (kv_key e0) \<noteq> fnv_hash (kv_key e)"
  shows "subtree rt lv s A N C \<Longrightarrow> p \<in> N \<Longrightarrow>
    (\<exists>f. find_parent_from f s (kv_key e) rt lv = Some (p, i, l)) \<Longrightarrow>
    (\<exists>f. find_parent_from f s (kv_key e0) rt lv = Some (p, j, l)) \<Longrightarrow>
    (\<forall>d. 0 < d \<longrightarrow> d \<le> l \<longrightarrow> get_bucket (kv_key e) (int d) = get_bucket (kv_key e0) (int d)) \<Longrightarrow>
    leaf_ok s [x] [e0] \<Longrightarrow> (x, 0) \<in> A \<Longrightarrow> x \<notin> N \<Longrightarrow> (x, 0) \<notin> leaf_regions (C((p, i) := None)) \<Longrightarrow>
    (i \<noteq> j \<longrightarrow> C (p, i) = None \<and> C (p, j) = None) \<Longrightarrow> 8 \<le> fuel + l \<Longrightarrow>
    next_free_page s + (8 - l) + subtree_cost 0 1 + 19 \<le> 2 ^ 52 \<Longrightarrow>
    \<exists>s' A' N' C'. split_leaf (Suc fuel) x (kv_key e0) (kv_key e) (kv_value e) p l s = Some (Inr s') \<and> subtree rt lv s' A' N' C' \<and>
      contents C' = contents (C((p, i) := None)) \<union> {e0, e} \<and> kv_entry_count s' = kv_entry_count s \<and>
      next_free_page s' \<le> next_free_page s + (8 - l) + subtree_cost 0 1 + 19"
proof (induction fuel arbitrary: s A N C p i j l)
  case (Suc fuel)
  note inv = Suc.prems(1) and leaf = Suc.prems(6)
  obtain f f0 where f: "find_parent_from f s (kv_key e) rt lv = Some (p, i, l)" and f0: "find_parent_from f0 s (kv_key e0) rt lv = Some (p, j, l)"
    using Suc.prems(3,4) by blast
  have i: "i = get_bucket (kv_key e) (int l + 1)" and j: "j = get_bucket (kv_key e0) (int l + 1)"
    by (rule find_parent_bucket [OF f], rule find_parent_bucket [OF f0])
  have ways: "leads_from rt lv s (kv_key e) (p, i)" "leads_from rt lv s (kv_key e0) (p, j)"
    using f f0 unfolding leads_from_def by (metis fst_conv snd_conv)+
  note qi = leads_to_in [OF inv ways(1)] and qj = leads_to_in [OF inv ways(2)]
  show ?case
  proof (cases "i = j")
    case True
    have agree: "get_bucket (kv_key e) (int d) = get_bucket (kv_key e0) (int d)" if "0 < d" "d \<le> l + 1" for d
    proof (cases "d \<le> l")
      case False
      then have "int d = int l + 1" using that(2) by simp
      then show ?thesis using i j True by simp
    qed (use that Suc.prems(5) in blast)
    have l: "l \<le> 6"
    proof (rule ccontr)
      assume "\<not> l \<le> 6"
      then have "get_bucket (kv_key e) (1 + int d) = get_bucket (kv_key e0) (1 + int d)" if "d < 8" for d
        using agree [of "Suc d"] that by simp
      then show False using same_digits_same_hash [of "kv_key e" "kv_key e0"] hash by simp
    qed
    have room1: "next_free_page s + 1 \<le> 2 ^ 52" using Suc.prems(12) by linarith
    obtain x1 s1 where n: "SpaceManager_allocate 0 s = Inr (x1, s1)" "put_node_entry p i (set_msb x1 1) s1 = Inr (set_entry p i (set_msb x1 1) s1)"
      "subtree rt lv (set_entry p i (set_msb x1 1) s1) (insert (x1, 0) A) (insert x1 N) (C((p, i) := None))"
      "x1 \<notin> N" "(x1, 0) \<notin> A"
      "\<forall>y k pg. (y, k) \<in> A \<longrightarrow> (y, k) \<noteq> (p, 0) \<longrightarrow> pg \<in> region y k \<longrightarrow> set_entry p i (set_msb x1 1) s1 pg = s pg"
      "\<forall>key f. find_parent_from f s key rt lv = Some (p, i, l) \<longrightarrow>
        find_parent_from (f + 1) (set_entry p i (set_msb x1 1) s1) key rt lv = Some (x1, get_bucket key (int l + 2), l + 1)"
      "kv_entry_count (set_entry p i (set_msb x1 1) s1) = kv_entry_count s"
      "next_free_page (set_entry p i (set_msb x1 1) s1) \<le> next_free_page s + 1"
      by (rule insert_node [OF inv qi f room1])
    define s2 where "s2 = set_entry p i (set_msb x1 1) s1"
    note n = n [folded s2_def]
    define C1 where "C1 = C((p, i) := None)"
    have none: "C1 (x1, m) = None" for m
    proof -
      have "C (x1, m) = None"
      proof (rule ccontr)
        assume "C (x1, m) \<noteq> None"
        then obtain rs es where "C (x1, m) = Some (rs, es)" by auto
        then have "fst (x1, m) \<in> N" by (rule leaf_atD(1) [OF tree_invD(7) [OF inv]])
        then show False using n(4) by simp
      qed
      then show ?thesis by (simp add: C1_def)
    qed
    then have idem: "C1((x1, m) := None) = C1" for m by (rule fun_upd_idem)
    have same: "s2 x = s x" by (rule n(6) [rule_format, OF Suc.prems(7)]) (use Suc.prems(2,8) in auto)
    have x2: "x \<notin> insert x1 N" using Suc.prems(7,8) n(5) by auto
    have nx: "set_msb x1 1 = set_msb x1 1" ..
    have step: "split_leaf (Suc (Suc fuel)) x (kv_key e0) (kv_key e) (kv_value e) p l s =
      split_leaf (Suc fuel) x (kv_key e0) (kv_key e) (kv_value e) x1 (l + 1) s2"
    proof -
      have c: "get_bucket (kv_key e0) (int l + 1) = get_bucket (kv_key e) (int l + 1)" using i j True by simp
      show ?thesis
        by (subst split_leaf.simps(2))
          (simp only: Let_def c if_True simp_thms n(1) bindO_simps prod.case i [symmetric] n(2))
    qed
    have "\<exists>s' A' N' C'. split_leaf (Suc fuel) x (kv_key e0) (kv_key e) (kv_value e) x1 (l + 1) s2 = Some (Inr s') \<and> subtree rt lv s' A' N' C' \<and>
      contents C' = contents (C1((x1, get_bucket (kv_key e) (int l + 2)) := None)) \<union> {e0, e} \<and> kv_entry_count s' = kv_entry_count s2 \<and>
      next_free_page s' \<le> next_free_page s2 + (8 - (l + 1)) + subtree_cost 0 1 + 19"
    proof (rule Suc.IH [OF n(3) [folded C1_def]])
      show "\<exists>f. find_parent_from f s2 (kv_key e) rt lv = Some (x1, get_bucket (kv_key e) (int l + 2), l + 1)" using n(7) f by blast
      show "\<exists>f. find_parent_from f s2 (kv_key e0) rt lv = Some (x1, get_bucket (kv_key e0) (int l + 2), l + 1)"
        using n(7) f0 [folded True] by blast
      show "\<forall>d. 0 < d \<longrightarrow> d \<le> l + 1 \<longrightarrow> get_bucket (kv_key e) (int d) = get_bucket (kv_key e0) (int d)" using agree by blast
      show "leaf_ok s2 [x] [e0]" by (rule leaf_ok_cong [OF _ leaf]) (use same in simp)
      show "(x, 0) \<in> insert (x1, 0) A" "x \<notin> insert x1 N" using Suc.prems(7) x2 by simp_all
      show "(x, 0) \<notin> leaf_regions (C1((x1, get_bucket (kv_key e) (int l + 2)) := None))" unfolding idem unfolding C1_def by (rule Suc.prems(9))
      show "8 \<le> fuel + (l + 1)" using Suc.prems(11) by simp
      show "next_free_page s2 + (8 - (l + 1)) + subtree_cost 0 1 + 19 \<le> 2 ^ 52" using Suc.prems(12) n(9) l by linarith
    qed (use none in simp_all)
    then obtain s' A' N' C' where s': "split_leaf (Suc fuel) x (kv_key e0) (kv_key e) (kv_value e) x1 (l + 1) s2 = Some (Inr s')"
      "subtree rt lv s' A' N' C'" "contents C' = contents C1 \<union> {e0, e}" "kv_entry_count s' = kv_entry_count s2"
      "next_free_page s' \<le> next_free_page s2 + (8 - (l + 1)) + subtree_cost 0 1 + 19" unfolding idem by blast
    have "next_free_page s' \<le> next_free_page s + (8 - l) + subtree_cost 0 1 + 19" using s'(5) n(9) l by linarith
    then show ?thesis using s'(1-3) s'(4) [unfolded n(8)] unfolding step C1_def by blast
  next
    case False
    have none: "C (p, i) = None" "C (p, j) = None" using Suc.prems(10) False by simp_all
    have idem: "C((p, i) := None) = C" "C((p, j) := None) = C" using none by (simp_all add: fun_upd_idem)
    have vr: "value_regions [x] = {(x, 0)}" by (rule value_regions_single)
    have lr: "value_regions [x] \<subseteq> A" "value_regions [x] \<inter> N \<times> {0} = {}" "value_regions [x] \<inter> leaf_regions C = {}"
      unfolding vr using Suc.prems(7-9) idem by auto
    note st = leaf_ok_start [OF leaf tree_invD(1) [OF inv] lr(1)]
    have keys: "distinct (map kv_key [e0])" "\<forall>e\<in>set [e0]. leads_from rt lv s (kv_key e) (p, j)" using ways(2) by simp_all
    define s2 where "s2 = set_entry p j x s"
    define C2 where "C2 = C((p, j) \<mapsto> ([x], [e0]))"
    note a = attach_existing [OF inv qj(1,2) none(2) qj(3) leaf lr keys, simplified nth_Cons_0, folded s2_def C2_def]
    have put: "put_node_entry p j (set_msb x 0) s = Inr s2"
      using put_node_entry_ok [OF node_page(1) [OF inv Suc.prems(2)] qj(2)] st(3) by (simp add: set_msb_page s2_def)
    have w: "writable l [e]" using e by (simp add: writable_def)
    have cost: "subtree_cost l 1 \<le> subtree_cost 0 1" by (simp add: subtree_cost_def)
    obtain s' A' N' C' where c: "create_subtree (Suc (Suc fuel)) p i l [e] s2 = Some (Inr s')" "subtree rt lv s' A' N' C'"
      "entry_changed s2 s' A A' N N' C2 C' (p, i)" "contents C' = contents (C2((p, i) := None)) \<union> set [e]"
      "next_free_page s' \<le> next_free_page s2 + subtree_cost l (length [e]) + 19"
    proof (rule create_subtree_ok [OF a(1) qi(1,2) _ w])
      show "get_msb (node_entry s2 p i) = 0" using qi(3) False by (simp add: s2_def node_entry_set)
      show "\<forall>e\<in>set [e]. \<exists>f. find_parent_from f s2 (kv_key e) rt lv = Some (p, i, l)"
        using f leads_to_frame(2) [OF inv a(4)] by auto
      show "8 \<le> Suc fuel + l" by (rule Suc.prems(11))
      show "next_free_page s2 + subtree_cost l (length [e]) + 19 \<le> 2 ^ 52" using Suc.prems(12) cost a(3) by simp
    qed
    have "split_leaf (Suc (Suc fuel)) x (kv_key e0) (kv_key e) (kv_value e) p l s = Some (Inr s')"
    proof -
      have ne: "j \<noteq> i" using False by simp
      have "\<lparr>kv_key = kv_key e, kv_value = kv_value e\<rparr> = e" by simp
      then show ?thesis
        by (subst split_leaf.simps(2)) (simp only: Let_def if_not_P [OF ne] i [symmetric] j [symmetric] put bindO_simps c(1))
    qed
    moreover have "contents C' = contents (C((p, i) := None)) \<union> {e0, e}"
    proof -
      have "C2((p, i) := None) = C2" using none(1) False by (simp add: C2_def fun_upd_idem)
      moreover have "contents C2 = contents (C((p, j) := None)) \<union> set [e0]" unfolding C2_def by (rule contents_upd)
      ultimately show ?thesis using c(4) idem by auto
    qed
    moreover have "kv_entry_count s' = kv_entry_count s" using entry_changedD(3) [OF c(3)] a(2) by simp
    moreover have "next_free_page s' \<le> next_free_page s + (8 - l) + subtree_cost 0 1 + 19" using c(5) a(3) cost by simp
    ultimately show ?thesis using c(2) by blast
  qed
next
  case 0
  have "get_bucket (kv_key e) (1 + int d) = get_bucket (kv_key e0) (1 + int d)" if "d < 8" for d
    using 0(5) [rule_format, of "Suc d"] 0(11) that by simp
  then show ?case using same_digits_same_hash [of "kv_key e" "kv_key e0"] hash by simp
qed

section \<open>Writing where the leaf has no room\<close>

text \<open>The leaf of the entry \<open>q\<close> gives way to entries \<open>es\<close> in whatever form.\<close>

lemma represents_entries:
  assumes inv: "tree_inv s A N C" and rep: "represents C M" and C': "contents C' = contents (C(q := None)) \<union> set es"
    and es: "distinct (map kv_key es)" "\<forall>e\<in>set es. leads_to s (kv_key e) q"
  shows "represents C' (\<lambda>k. if leads_to s k q then kv_map es k else M k)"
  unfolding represents_contents C'
proof (intro allI)
  fix k v
  let ?in = "\<lambda>E. \<exists>e\<in>E. kv_key e = k \<and> kv_value e = v"
  have at: "leads_to s k q'" if "C q' = Some (rs, es)" "e \<in> set es" "kv_key e = k" for q' rs es e
    using leaf_atD(8) [OF tree_invD(7) [OF inv that(1)] that(2)] that(3) by simp
  show "(if leads_to s k q then kv_map es k else M k) = Some v \<longleftrightarrow> ?in (contents (C(q := None)) \<union> set es)"
  proof (cases "leads_to s k q")
    case True
    have "\<not> ?in (contents (C(q := None)))"
      unfolding Bex_def contents_without using at leads_to_unique [OF True] by blast
    then have "?in (contents (C(q := None)) \<union> set es) \<longleftrightarrow> ?in (set es)" by blast
    then show ?thesis using True kv_map_Some [OF es(1)] by simp
  next
    case False
    have "\<not> ?in (set es)" using es(2) False by blast
    moreover have "?in (contents (C(q := None)))" if stored: "?in (contents C)"
    proof -
      obtain e q' rs es' where e: "C q' = Some (rs, es')" "e \<in> set es'" "kv_key e = k" "kv_value e = v"
        using stored unfolding contents_iff Bex_def by blast
      have "q' \<noteq> q" using at [OF e(1-3)] False by blast
      then have "e \<in> contents (C(q := None))" unfolding contents_without using e(1,2) by blast
      then show ?thesis using e(3,4) by blast
    qed
    moreover have "contents (C(q := None)) \<subseteq> contents C" unfolding subset_iff contents_without unfolding contents_iff by blast
    moreover have "M k = Some v \<longleftrightarrow> ?in (contents C)" using rep unfolding represents_contents by blast
    ultimately show ?thesis unfolding if_not_P [OF False] by blast
  qed
qed

lemma same_leaf_way:
  assumes inv: "tree_inv s A N C" and fp: "find_parent fuel s key = Some (p, i, l)" and k: "leads_to s k (p, i)"
  shows "\<exists>f. find_parent_from f s k ROOT_PAGE 0 = Some (p, i, l)"
proof -
  obtain f l' where f: "find_parent_from f s k ROOT_PAGE 0 = Some (p, i, l')" using k unfolding leads_from_def fst_conv snd_conv by blast
  have "l' = l" by (rule same_way(1) [OF inv fp [unfolded find_parent_def] f])
  then show ?thesis using f by blast
qed

lemma writable_at:
  assumes inv: "tree_inv s A N C" and fp: "find_parent fuel s key = Some (p, i, l)"
    and es: "es \<noteq> []" "distinct (map kv_key es)" "\<forall>e\<in>set es. leads_to s (kv_key e) (p, i)"
    and e: "\<forall>e\<in>set es. valid_key (kv_key e) \<and> length (kv_key e) \<le> MAX_KEY_LENGTH \<and> entry_size (kv_key e) (length (kv_value e)) \<le> 2 ^ 31 - 2 ^ 13"
    and hash: "inj_on fnv_hash (kv_key ` set es)"
  shows "writable l es"
  unfolding writable_def
proof (intro conjI ballI allI impI)
  have "inj_on kv_key (set es)" using es(2) by (simp add: distinct_map)
  from comp_inj_on [OF this hash] show "inj_on (\<lambda>e. fnv_hash (kv_key e)) (set es)" by (simp add: comp_def)
  fix a b d assume a: "a \<in> set es" "b \<in> set es" and d: "0 < d" "d \<le> l + 1"
  obtain f g where fg: "find_parent_from f s (kv_key a) ROOT_PAGE 0 = Some (p, i, l)" "find_parent_from g s (kv_key b) ROOT_PAGE 0 = Some (p, i, l)"
    using same_leaf_way [OF inv fp] es(3) a by blast
  show "get_bucket (kv_key a) (int d) = get_bucket (kv_key b) (int d)" by (rule same_way(2) [OF inv fg d])
qed (use es(1,2) e in auto)

text \<open>\<open>create_subtree\<close> in place of the leaf that has the entries \<open>es\<close>.\<close>

lemma rebuild_leaf:
  assumes inv: "tree_inv s A N C" and rep: "represents C M" and fp: "find_parent n s key = Some (p, i, l)"
    and es: "es \<noteq> []" "distinct (map kv_key es)" "\<forall>e\<in>set es. leads_to s (kv_key e) (p, i)"
    and e: "\<forall>e\<in>set es. valid_key (kv_key e) \<and> length (kv_key e) \<le> MAX_KEY_LENGTH \<and> entry_size (kv_key e) (length (kv_value e)) \<le> 2 ^ 31 - 2 ^ 13"
    and hash: "inj_on fnv_hash (kv_key ` set es)" and few: "length es \<le> 409" and fuel: "8 \<le> fuel" and room: "next_free_page s + 2 ^ 28 \<le> 2 ^ 52"
  obtains s' A' N' C' where "create_subtree (Suc fuel) p i l es s = Some (Inr s')" "tree_inv s' A' N' C'"
    "represents C' (\<lambda>k. if leads_to s k (p, i) then kv_map es k else M k)" "kv_entry_count s' = kv_entry_count s"
    "next_free_page s' \<le> next_free_page s + 2 ^ 28"
proof -
  have q: "leads_to s key (p, i)" using fp unfolding leads_from_def find_parent_def by auto
  note in_tree = leads_to_in [OF inv q]
  have w: "writable l es" by (rule writable_at [OF inv fp es e hash])
  have cost: "subtree_cost l (length es) + 19 \<le> 2 ^ 28"
  proof -
    have "subtree_cost l (length es) \<le> 409 * (2 ^ 19 + 1 + 20 * 8)"
      unfolding subtree_cost_def by (rule mult_le_mono) (use few in simp_all)
    then show ?thesis by simp
  qed
  have ways: "\<forall>e\<in>set es. \<exists>f. find_parent_from f s (kv_key e) ROOT_PAGE 0 = Some (p, i, l)" using same_leaf_way [OF inv fp] es(3) by blast
  have fuel1: "8 \<le> fuel + l" and room1: "next_free_page s + subtree_cost l (length es) + 19 \<le> 2 ^ 52" using fuel room cost by simp_all
  obtain s' A' N' C' where c: "create_subtree (Suc fuel) p i l es s = Some (Inr s')" "tree_inv s' A' N' C'"
    "entry_changed s s' A A' N N' C C' (p, i)" "contents C' = contents (C((p, i) := None)) \<union> set es"
    "next_free_page s' \<le> next_free_page s + subtree_cost l (length es) + 19"
    by (rule create_subtree_ok [OF inv in_tree w ways fuel1 room1])
  show thesis
    by (rule that [OF c(1,2) represents_entries [OF inv rep c(4) es(2,3)] entry_changedD(3) [OF c(3)]]) (use c(5) cost in simp)
qed

text \<open>What the entries of a small leaf satisfy.\<close>

lemma small_leaf_entries:
  assumes inv: "tree_inv s A N C" and rep: "represents C M" and c: "C (p, i) = Some ([x], es)" and h: "leaf_holds (s x) es"
    and keys: "\<forall>k\<in>dom M. length k \<le> MAX_KEY_LENGTH"
  shows "\<forall>e\<in>set es. valid_key (kv_key e) \<and> length (kv_key e) \<le> MAX_KEY_LENGTH \<and> entry_size (kv_key e) (length (kv_value e)) \<le> 2 ^ 31 - 2 ^ 13"
    "length es \<le> 408" "kv_key ` set es \<subseteq> dom M"
proof -
  show sub: "kv_key ` set es \<subseteq> dom M"
  proof
    fix k assume "k \<in> kv_key ` set es"
    then obtain e where "e \<in> set es" "kv_key e = k" by blast
    then have "M k = Some (kv_value e)" using rep c unfolding represents_def by blast
    then show "k \<in> dom M" by blast
  qed
  have vk: "\<forall>e\<in>set es. valid_key (kv_key e)" using h by (simp add: leaf_holds_def)
  have len: "length (encode_entries es) \<le> leaf_capacity" by (rule leaf_holds_bound [OF h])
  then have total: "total_entries_size es \<le> 4078" by (simp add: length_encode_entries data_capacity)
  show "length es \<le> 408" using entries_few [OF vk] total by simp
  show "\<forall>e\<in>set es. valid_key (kv_key e) \<and> length (kv_key e) \<le> MAX_KEY_LENGTH \<and> entry_size (kv_key e) (length (kv_value e)) \<le> 2 ^ 31 - 2 ^ 13"
  proof (intro ballI conjI)
    fix e assume e: "e \<in> set es"
    show "valid_key (kv_key e)" using vk e by blast
    show "length (kv_key e) \<le> MAX_KEY_LENGTH" using keys sub e by blast
    have "entry_size (kv_key e) (length (kv_value e)) \<le> total_entries_size es"
      using e by (auto simp: total_entries_size_def intro: member_le_sum_list)
    then show "entry_size (kv_key e) (length (kv_value e)) \<le> 2 ^ 31 - 2 ^ 13" using total by simp
  qed
qed

lemma replace_value_at: "key \<notin> kv_key ` set xs \<Longrightarrow> kv_key e = key \<Longrightarrow> replace_value key b (xs @ e # ys) = xs @ e\<lparr>kv_value := b\<rparr> # ys"
  by (induction xs) auto

text \<open>A key the leaf has, with a value for which there is no room.\<close>

lemma write_rebuild_over:
  assumes inv: "tree_inv s A N C" and rep: "represents C M" and k: "valid_key key" "length key \<le> MAX_KEY_LENGTH"
    and fp: "find_parent n s key = Some (p, i, l)" and c: "C (p, i) = Some ([x], es)" and h: "leaf_holds (s x) es" and old: "M key = Some v"
    and longer: "length v \<le> length b" and full: "leaf_capacity < leaf_usage (s x) + (length b - length v)"
    and keys: "\<forall>k\<in>dom M. length k \<le> MAX_KEY_LENGTH" "inj_on fnv_hash (dom M)"
    and size: "entry_size key (length b) \<le> 2 ^ 31 - 2 ^ 13" and fuel: "8 \<le> fuel" and room: "next_free_page s + 2 ^ 28 \<le> 2 ^ 52"
  obtains s' A' N' C' where "write_at_node (Suc fuel) p i l key (Some b) s = Some (Inr s')" "tree_inv s' A' N' C'"
    "represents C' (M(key \<mapsto> b))" "kv_entry_count s' = kv_entry_count s" "next_free_page s' \<le> next_free_page s + 2 ^ 28"
proof -
  have q: "leads_to s key (p, i)" using fp unfolding leads_from_def find_parent_def by auto
  note l = leaf_atD [OF tree_invD(7) [OF inv c]]
  note st = leaf_ok_start [OF l(6) tree_invD(1) [OF inv] l(4), simplified]
  have k0: "0 \<notin> set key" using k(1) by (simp add: valid_key_def)
  have Mq: "M k' = kv_map es k'" if "leads_to s k' (p, i)" for k' using represents_at [OF inv rep that] c by simp
  have "key \<in> kv_key ` set es" using old Mq [OF q] kv_map_None by (metis option.distinct(1))
  then obtain m where m: "offset_of key es = Some m" using offset_of_None by fastforce
  then obtain xs e ys where e: "es = xs @ e # ys" "kv_key e = key" "key \<notin> kv_key ` set xs" "m = length (encode_entries xs)"
    using offset_of_Some by metis
  have "\<exists>e'\<in>set es. kv_key e' = key \<and> kv_value e' = kv_value e" using e(1,2) by (intro bexI [of _ e]) simp_all
  then have "kv_map es key = Some (kv_value e)" using kv_map_Some [OF l(7)] by simp
  then have v: "kv_value e = v" using old Mq [OF q] by simp
  define es' where "es' = xs @ e\<lparr>kv_value := b\<rparr> # ys"
  note small = small_leaf_entries [OF inv rep c h keys(1)]
  have es': "es' \<noteq> []" "distinct (map kv_key es')" "\<forall>e\<in>set es'. leads_to s (kv_key e) (p, i)"
    using l(7,8) e by (auto simp: es'_def)
  have keys': "kv_key ` set es' = kv_key ` set es" by (simp add: es'_def e(1))
  have ok': "\<forall>e\<in>set es'. valid_key (kv_key e) \<and> length (kv_key e) \<le> MAX_KEY_LENGTH \<and> entry_size (kv_key e) (length (kv_value e)) \<le> 2 ^ 31 - 2 ^ 13"
    using small(1) k size e(1,2) by (auto simp: es'_def)
  have hash: "inj_on fnv_hash (kv_key ` set es')" unfolding keys' by (rule inj_on_subset [OF keys(2) small(3)])
  obtain s' A' N' C' where r: "create_subtree (Suc fuel) p i l es' s = Some (Inr s')" "tree_inv s' A' N' C'"
    "represents C' (\<lambda>k. if leads_to s k (p, i) then kv_map es' k else M k)" "kv_entry_count s' = kv_entry_count s"
    "next_free_page s' \<le> next_free_page s + 2 ^ 28"
    by (rule rebuild_leaf [OF inv rep fp es' ok' hash _ fuel room]) (use small(2) e(1) in \<open>simp add: es'_def\<close>)
  have Mk: "(\<lambda>k. if leads_to s k (p, i) then kv_map es' k else M k) = M(key \<mapsto> b)"
    by (rule map_at_key [OF inv q]) (use Mq kv_map_replace [OF e(3,2), of b ys] e(1) in \<open>simp add: es'_def\<close>)
  have "write_at_node (Suc fuel) p i l key (Some b) s = Some (Inr s')"
  proof -
    have x0: "x \<noteq> 0" using st(4) by simp
    have ne: "node_entry s p i = x" "x \<noteq> 0" "clear_msb x = x" using l(3) x0 st(6) by simp_all
    have fe: "find_entry_in_leaf (s x) key = Inr (int m)" using find_entry_holds [OF h k0] m by simp
    note val = small_leaf_value [OF h [unfolded e(1)], unfolded e(2) e(4) [symmetric] v]
    have nx: "\<not> leaf_next (s x) \<noteq> 0" using h by (simp add: leaf_holds_def)
    have b1: "\<not> PAGE_SIZE < DATA + (m + length key + 1) + 8" using val(2) by linarith
    have b2: "int leaf_capacity < (int (leaf_usage (s x)) + int (length b) - int (length v)) mod 2 ^ 64"
    proof -
      have "leaf_usage (s x) \<le> leaf_capacity" using h leaf_holds_bound [OF h] by (simp add: leaf_holds_def)
      then have "leaf_usage (s x) + (length b - length v) < 2 ^ 64" using size by (simp add: entry_size_def data_capacity)
      moreover have "int (leaf_usage (s x)) + int (length b) - int (length v) = int (leaf_usage (s x) + (length b - length v))" using longer by simp
      ultimately show ?thesis using full by simp
    qed
    have ge: "get_entries_in_leaf (s x) = Inr es" by (rule get_entries_holds [OF h])
    have rv: "replace_value key b es = es'" unfolding es'_def e(1) by (rule replace_value_at [OF e(3,2)])
    have w: "write_existing (Suc fuel) p i l x m key b s = Some (Inr s')"
      unfolding write_existing_def if_not_P [OF nx] bindO_simps Let_def val(1) if_not_P [OF b1] if_P [OF b2] ge rv r(1) ..
    show ?thesis using k ne fe w by (simp add: write_at_node_def valid_key_def Let_def del: create_subtree.simps)
  qed
  then show thesis using that r(2) r(3) [unfolded Mk] r(4,5) by blast
qed

text \<open>A new key for which the leaf has no room: the leaf is split, or rebuilt with the new entry.\<close>

lemma write_without_room:
  assumes inv: "tree_inv s A N C" and rep: "represents C M" and k: "valid_key key" "length key \<le> MAX_KEY_LENGTH"
    and fp: "find_parent n s key = Some (p, i, l)" and c: "C (p, i) = Some ([x], es)" and h: "leaf_holds (s x) es" and new: "M key = None"
    and full: "leaf_capacity < leaf_usage (s x) + entry_size key (length b)"
    and keys: "\<forall>k\<in>dom M. length k \<le> MAX_KEY_LENGTH" "inj_on fnv_hash (insert key (dom M))"
    and size: "entry_size key (length b) \<le> 2 ^ 31 - 2 ^ 13" and fuel: "8 \<le> fuel" and room: "next_free_page s + 2 ^ 28 \<le> 2 ^ 52"
  obtains s' A' N' C' where "write_at_node (Suc fuel) p i l key (Some b) s = Some (Inr s')" "tree_inv s' A' N' C'"
    "represents C' (M(key \<mapsto> b))" "kv_entry_count s' = (kv_entry_count s + 1) mod 2 ^ 64" "next_free_page s' \<le> next_free_page s + 2 ^ 28"
proof -
  define e where "e = \<lparr>kv_key = key, kv_value = b\<rparr>"
  have q: "leads_to s key (p, i)" using fp unfolding leads_from_def find_parent_def by auto
  note l = leaf_atD [OF tree_invD(7) [OF inv c]]
  note st = leaf_ok_start [OF l(6) tree_invD(1) [OF inv] l(4), simplified]
  have x0: "x \<noteq> 0" using st(4) by simp
  have k0: "0 \<notin> set key" using k(1) by (simp add: valid_key_def)
  have Mq: "M k' = kv_map es k'" if "leads_to s k' (p, i)" for k' using represents_at [OF inv rep that] c by simp
  have nk: "key \<notin> kv_key ` set es" using new Mq [OF q] kv_map_None by metis
  note small = small_leaf_entries [OF inv rep c h keys(1)]
  have usage: "leaf_usage (s x) \<le> leaf_capacity" using h leaf_holds_bound [OF h] by (simp add: leaf_holds_def)
  define s1 where "s1 = upd_u64 0 8 ((kv_entry_count s + 1) mod 2 ^ 64) s"
  have s1x: "s1 x = s x" using x0 by (simp add: s1_def)
  have inv1: "tree_inv s1 A N C" unfolding s1_def by (rule tree_inv_count [OF inv])
  have n1: "kv_entry_count s1 = (kv_entry_count s + 1) mod 2 ^ 64" "next_free_page s1 = next_free_page s"
    using space_ok_count(2,3) [OF tree_invD(1) [OF inv]] by (simp_all add: s1_def)
  have sm: "same_nodes N s s1"
  proof -
    have "s1 p' = s p'" if "p' \<in> N" for p' using node_page(2) [OF inv that] by (simp add: s1_def)
    then show ?thesis by (simp add: same_nodes_def node_entry_def)
  qed
  note fr = leads_to_frame [OF inv sm]
  have fp1: "find_parent n s1 key = Some (p, i, l)" using fp fr(2) by (simp add: find_parent_def)
  have room1: "next_free_page s1 + 2 ^ 28 \<le> 2 ^ 52" using room n1(2) by simp
  define es' where "es' = es @ [e]"
  have es': "es' \<noteq> []" "distinct (map kv_key es')" "\<forall>e\<in>set es'. leads_to s1 (kv_key e) (p, i)"
    using l(7,8) nk q fr(1) by (auto simp: es'_def e_def)
  have ok': "\<forall>e\<in>set es'. valid_key (kv_key e) \<and> length (kv_key e) \<le> MAX_KEY_LENGTH \<and> entry_size (kv_key e) (length (kv_value e)) \<le> 2 ^ 31 - 2 ^ 13"
    using small(1) k size by (auto simp: es'_def e_def)
  have hash: "inj_on fnv_hash (kv_key ` set es')" by (rule inj_on_subset [OF keys(2)]) (use small(3) in \<open>auto simp: es'_def e_def\<close>)
  have Mk: "(\<lambda>k. if leads_to s1 k (p, i) then kv_map es' k else M k) = M(key \<mapsto> b)"
    by (rule map_at_key [OF inv1]) (use Mq fr(1) q kv_map_append [OF nk, of b] in \<open>simp_all add: es'_def e_def\<close>)
  have ge: "get_entries_in_leaf (s x) = Inr es" by (rule get_entries_holds [OF h])
  have ec: "leaf_entry_count (s x) = length es" using h by (simp add: leaf_holds_def)
  have wn: "write_new (Suc fuel) p i l x key b s = (if length es = 1 then split_leaf (Suc fuel) x (kv_key (hd es)) key b p l s1
    else create_subtree (Suc fuel) p i l es' s1)"
  proof -
    have nf: "\<not> (leaf_usage (s x) + entry_size key (length b)) mod 2 ^ 64 \<le> leaf_capacity"
      using full usage size by (simp add: data_capacity)
    show ?thesis
      unfolding write_new_def count_entry_ok s1_def [symmetric] bindO_simps s1x if_not_P [OF nf] ge ec es'_def e_def
      using st(7) by (cases es) (simp_all del: create_subtree.simps split_leaf.simps)
  qed
  have wat: "write_at_node (Suc fuel) p i l key (Some b) s = write_new (Suc fuel) p i l x key b s"
  proof -
    have ne: "node_entry s p i = x" "x \<noteq> 0" "clear_msb x = x" using l(3) x0 st(6) by simp_all
    have fe: "find_entry_in_leaf (s x) key = Inr (- 1)" using find_entry_holds [OF h k0] nk offset_of_None by (metis option.case_eq_if)
    show ?thesis using k ne fe by (simp add: write_at_node_def valid_key_def Let_def)
  qed
  show thesis
  proof (cases "length es = 1")
    case False
    obtain s' A' N' C' where r: "create_subtree (Suc fuel) p i l es' s1 = Some (Inr s')" "tree_inv s' A' N' C'"
      "represents C' (\<lambda>k. if leads_to s1 k (p, i) then kv_map es' k else M k)" "kv_entry_count s' = kv_entry_count s1"
      "next_free_page s' \<le> next_free_page s1 + 2 ^ 28"
      by (rule rebuild_leaf [OF inv1 rep fp1 es' ok' hash _ fuel room1]) (use small(2) in \<open>simp add: es'_def\<close>)
    show thesis
      by (rule that [OF _ r(2) r(3) [unfolded Mk]])
        (use wat wn False r(1,4,5) n1 in \<open>simp_all del: create_subtree.simps split_leaf.simps\<close>)
  next
    case True
    then obtain e0 where e0: "es = [e0]" by (cases es) auto
    have h0: "fnv_hash (kv_key e0) \<noteq> fnv_hash (kv_key e)"
    proof
      assume "fnv_hash (kv_key e0) = fnv_hash (kv_key e)"
      moreover have "kv_key e0 \<in> insert key (dom M)" "kv_key e \<in> insert key (dom M)" using small(3) e0 by (auto simp: e_def)
      ultimately have "kv_key e0 = kv_key e" using inj_onD [OF keys(2)] by blast
      then show False using nk e0 by (simp add: e_def)
    qed
    have ways: "\<exists>f. find_parent_from f s1 (kv_key e) ROOT_PAGE 0 = Some (p, i, l)" "\<exists>f. find_parent_from f s1 (kv_key e0) ROOT_PAGE 0 = Some (p, i, l)"
      using same_leaf_way [OF inv1 fp1] es'(3) e0 by (simp_all add: es'_def)
    have agree: "\<forall>d. 0 < d \<longrightarrow> d \<le> l \<longrightarrow> get_bucket (kv_key e) (int d) = get_bucket (kv_key e0) (int d)"
    proof (intro allI impI)
      fix d assume d: "0 < d" "d \<le> l"
      obtain f f0 where f: "find_parent_from f s1 (kv_key e) ROOT_PAGE 0 = Some (p, i, l)" "find_parent_from f0 s1 (kv_key e0) ROOT_PAGE 0 = Some (p, i, l)"
        using ways by blast
      show "get_bucket (kv_key e) (int d) = get_bucket (kv_key e0) (int d)" by (rule same_way(2) [OF inv1 f d(1)]) (use d(2) in simp)
    qed
    have ok0: "valid_key (kv_key e)" "length (kv_key e) \<le> MAX_KEY_LENGTH" "entry_size (kv_key e) (length (kv_value e)) \<le> 2 ^ 31 - 2 ^ 13"
      using k size by (simp_all add: e_def)
    have leaf1: "leaf_ok s1 [x] [e0]"
      by (rule leaf_ok_cong [OF _ l(6) [unfolded e0]]) (use s1x in simp)
    have apart: "(x, 0) \<notin> leaf_regions (C((p, i) := None))"
    proof -
      have "old_regions C (p, i) = {(x, 0)}" by (simp add: old_regions_def c value_regions_single)
      then show ?thesis using old_regions_facts(3) [OF inv, of "(p, i)"] by blast
    qed
    have xA: "(x, 0) \<in> A" "x \<notin> N" using st(2) l(5) by (auto simp: value_regions_single)
    have cost: "subtree_cost 0 1 + 27 \<le> 2 ^ 28" by (simp add: subtree_cost_def)
    have "\<exists>s' A' N' C'. split_leaf (Suc fuel) x (kv_key e0) (kv_key e) (kv_value e) p l s1 = Some (Inr s') \<and> tree_inv s' A' N' C' \<and>
      contents C' = contents (C((p, i) := None)) \<union> {e0, e} \<and> kv_entry_count s' = kv_entry_count s1 \<and>
      next_free_page s' \<le> next_free_page s1 + (8 - l) + subtree_cost 0 1 + 19"
      by (rule split_ok [OF ok0 h0 inv1 l(1) [unfolded fst_conv] ways agree leaf1 xA apart])
        (use fuel room1 cost in \<open>simp_all del: split_leaf.simps\<close>)
    then obtain s' A' N' C' where r: "split_leaf (Suc fuel) x (kv_key e0) (kv_key e) (kv_value e) p l s1 = Some (Inr s')" "tree_inv s' A' N' C'"
      "contents C' = contents (C((p, i) := None)) \<union> {e0, e}" "kv_entry_count s' = kv_entry_count s1"
      "next_free_page s' \<le> next_free_page s1 + (8 - l) + subtree_cost 0 1 + 19" by blast
    have "contents C' = contents (C((p, i) := None)) \<union> set es'" using r(3) by (simp add: es'_def e0)
    note rep' = represents_entries [OF inv1 rep this es'(2,3), unfolded Mk]
    show thesis
      by (rule that [OF _ r(2) rep'])
        (use wat wn True e0 r(1,4,5) n1 cost in \<open>simp_all add: e_def del: create_subtree.simps split_leaf.simps\<close>)
  qed
qed

end
