(* ===== verification/Map_Properties.thy ===== *)
theory Map_Properties
  imports Prelude Hashing Pages Space_Manager Leaf Big_Value Disk_Map Map_Invariant Map_Write Map_Subtree Map_Build Map_Split
begin

text \<open>
  The hash tree as a map: what a new file, reads and writes do to the map \<open>M\<close> that the pages hold.
\<close>

section \<open>A new file\<close>

lemma get_u64_zero_page: "is_zero pg \<Longrightarrow> off + 8 \<le> PAGE_SIZE \<Longrightarrow> get_u64 pg off = 0"
  by (rule is_zero_get(1))

lemma zero_node: "is_zero (s p) \<Longrightarrow> i < 512 \<Longrightarrow> node_entry s p i = 0"
  unfolding node_entry_def by (rule get_u64_zero_page) simp_all

lemma empty_tree:
  assumes "space_ok s {}" "is_zero (s ROOT_PAGE)"
  shows "tree_inv s {} {ROOT_PAGE} (\<lambda>_. None)"
proof -
  have e: "node_entry s ROOT_PAGE i = 0" if "i < 512" for i by (rule zero_node [of s ROOT_PAGE, OF assms(2) that])
  have "find_parent (Suc 0) s key = Some (ROOT_PAGE, get_bucket key 1, 0)" for key
    using e [OF get_bucket_less] by (simp add: find_parent_def Let_def)
  then have "\<exists>q. leads_to s key q" for key
    unfolding leads_to_def by (intro exI [of _ "(ROOT_PAGE, get_bucket key 1)"]) auto
  then show ?thesis
    using assms(1) e by (auto simp: subtree_def closed_nodes_def tree_shaped_def intro: exI [of _ "\<lambda>_. []"])
qed

lemma new_map:
  assumes "\<forall>p. is_zero (s p)"
  obtains s' where "DiskMap_format s = Inr s'" "map_rep s' {} Map.empty" "next_free_page s' = 41" "is_zero (s' ROOT_PAGE)"
proof -
  obtain s' where f: "DiskMap_format s = Inr s'" "space_ok s' {}" "next_free_page s' = 41" "kv_entry_count s' = 0" "\<forall>p. p \<noteq> 0 \<longrightarrow> s' p = s p"
    by (rule format_ok [OF assms])
  have z: "is_zero (s' ROOT_PAGE)" using f(5) assms by (simp add: ROOT_PAGE_def)
  have "tree_inv s' {} {ROOT_PAGE} (\<lambda>_. None)" by (rule empty_tree [OF f(2) z])
  moreover have "represents (\<lambda>_. None) Map.empty" by (simp add: represents_def)
  ultimately have "map_rep s' {} Map.empty" using f(4) by (auto simp: map_rep_def)
  then show thesis using that f(1,3) z by blast
qed

section \<open>Properties\<close>

lemma value_length:
  assumes inv: "tree_inv s A N C" and rep: "represents C M" and v: "M key = Some v"
  shows "length v < 2 ^ 64"
proof -
  obtain q rs es e where c: "C q = Some (rs, es)" "e \<in> set es" "kv_value e = v"
    using rep v unfolding represents_def by blast
  show ?thesis
    using leaf_atD(6) [OF tree_invD(7) [OF inv c(1)]] unfolding leaf_ok_def
  proof (elim disjE exE conjE)
    fix x assume h: "leaf_holds (s x) es"
    obtain xs ys where "es = xs @ e # ys" using c(2) by (metis split_list)
    then have "length v \<le> PAGE_SIZE" using small_leaf_value(2) [of "s x" xs e ys] h c(3) by simp
    then show ?thesis by simp
  next
    fix e' assume "es = [e']" "big_leaf s rs e'"
    then show ?thesis using c(2,3) by (auto simp: big_leaf_def entry_starts_def)
  qed
qed

text \<open>C2: Reading from a well-formed map (with fewer than 65536 pages, see \<open>absent_key_in_metadata\<close>): \<open>read\<close>
  returns the value of the key or that there is none, \<open>read_value_length\<close> its length, and \<open>read_part\<close>
  the part of the value from an offset in it, cut at its end; all of them end.\<close>

theorem map_reads:
  assumes "map_rep s A M" "valid_key key" "next_free_page s < 2 ^ 16"
  shows "\<exists>f. \<forall>fuel\<ge>f. DiskMap_read fuel key s = Some (Inr (M key)) \<and>
    DiskMap_read_value_length fuel key s = Some (Inr (map_option length (M key))) \<and>
    (\<forall>off n. (\<forall>v. M key = Some v \<longrightarrow> off < length v) \<longrightarrow>
      DiskMap_read_part fuel key off n s = Some (Inr (map_option (\<lambda>v. take n (drop off v)) (M key))))"
proof -
  obtain N C where inv: "tree_inv s A N C" and rep: "represents C M" using assms(1) by (auto simp: map_rep_def)
  obtain q where q: "leads_to s key q" using tree_invD(5) [OF inv] by blast
  obtain p i where pi: "q = (p, i)" by (cases q)
  obtain f l where fp: "\<And>fuel. f \<le> fuel \<Longrightarrow> find_parent fuel s key = Some (p, i, l)"
    using find_parent_fuel q unfolding pi by blast
  have "length v \<le> NPOS" if "M key = Some v" for v using value_length [OF inv rep that] unfolding NPOS_def by linarith
  then have "map_option (\<lambda>v. take NPOS (drop 0 v)) (M key) = M key" by (cases "M key") simp_all
  then have "DiskMap_read fuel key s = Some (Inr (M key))" if "f \<le> fuel" for fuel
    using read_part_at(1) [OF inv rep assms(2,3) _ fp [OF that], of 0 NPOS] by (simp add: DiskMap_read_def)
  moreover have "DiskMap_read_value_length fuel key s = Some (Inr (map_option length (M key)))" if "f \<le> fuel" for fuel
    by (rule read_part_at(2) [OF inv rep assms(2,3) _ fp [OF that], of 0]) simp
  moreover have "DiskMap_read_part fuel key off n s = Some (Inr (map_option (\<lambda>v. take n (drop off v)) (M key)))"
    if "f \<le> fuel" "\<forall>v. M key = Some v \<longrightarrow> off < length v" for fuel off n
    by (rule read_part_at(1) [OF inv rep assms(2,3) _ fp [OF that(1)]]) (use that(2) in blast)
  ultimately show ?thesis by blast
qed

lemma map_write_step:
  assumes rep: "map_rep s A M" and k: "valid_key key" "length key \<le> MAX_KEY_LENGTH"
    and size: "entry_size key (length b) \<le> 2 ^ 31 - 2 ^ 13" and room: "next_free_page s + 2 ^ 28 \<le> 2 ^ 52"
    and hash: "inj_on fnv_hash (insert key (dom M))"
    and fp: "find_parent n s key = Some (p, i, l)" and leaf: "node_entry s p i = 0 \<or> leaf_next (s (node_entry s p i)) = 0"
    and longer: "\<forall>v. M key = Some v \<longrightarrow> length v \<le> length b" and fuel: "9 \<le> fuel"
  obtains s' A' where "write_at_node fuel p i l key (Some b) s = Some (Inr s')" "map_rep s' A' (M(key \<mapsto> b))"
    "next_free_page s' \<le> next_free_page s + 2 ^ 28"
    "node_entry s p i = 0 \<longrightarrow> next_free_page s' \<le> next_free_page s + page_cost (entry_size key (length b))"
proof -
  obtain N C where inv: "tree_inv s A N C" and repC: "represents C M" and fin: "finite (dom M)" and count: "kv_entry_count s = card (dom M) mod 2 ^ 64"
    and lens: "\<forall>k\<in>dom M. length k \<le> MAX_KEY_LENGTH"
    using rep by (auto simp: map_rep_def)
  obtain fuel' where fuel': "fuel = Suc fuel'" "8 \<le> fuel'" using fuel by (cases fuel) simp_all
  have q: "leads_to s key (p, i)" using fp unfolding leads_from_def find_parent_def by auto
  note Mq = represents_at [OF inv repC q]
  have new: "card (dom (M(key \<mapsto> b))) = card (dom M) + 1" if "M key = None" using that fin by (simp add: domIff)
  have over: "dom (M(key \<mapsto> b)) = dom M" if "M key \<noteq> None" using that by auto
  have finish: "map_rep s' A' (M(key \<mapsto> b))"
    if "tree_inv s' A' N' C'" "represents C' (M(key \<mapsto> b))"
      "kv_entry_count s' = (if M key = None then kv_entry_count s + 1 else kv_entry_count s) mod 2 ^ 64" for s' A' N' C'
    unfolding map_rep_def
  proof (intro conjI)
    show "kv_entry_count s' = card (dom (M(key \<mapsto> b))) mod 2 ^ 64"
      using that(3) count new over by (cases "M key = None") (simp_all add: mod_Suc_eq)
    show "\<forall>k\<in>dom (M(key \<mapsto> b)). length k \<le> MAX_KEY_LENGTH" using lens k(2) by auto
  qed (use that(1,2) fin in auto)
  have same_count: "kv_entry_count s = kv_entry_count s mod 2 ^ 64" using count by simp
  show thesis
  proof (cases "C (p, i)")
    case None
    have room1: "next_free_page s + 1 + 2 ^ 19 \<le> 2 ^ 52" using room by simp
    obtain s' A' C' where w: "write_at_node (Suc fuel') p i l key (Some b) s = Some (Inr s')" "tree_inv s' A' N C'"
      "represents C' (M(key \<mapsto> b))" "kv_entry_count s' = (kv_entry_count s + 1) mod 2 ^ 64"
      "next_free_page s' \<le> next_free_page s + page_cost (entry_size key (length b))"
      by (rule write_to_empty [OF inv repC k q None size room1])
    have "page_cost (entry_size key (length b)) \<le> 2 ^ 28" by (simp add: page_cost_def)
    moreover have "M key = None" using Mq None by simp
    ultimately show thesis using that w finish [OF w(2,3)] unfolding fuel' by simp
  next
    case (Some re)
    obtain rs es where c: "C (p, i) = Some (rs, es)" using Some by (cases re) simp
    note l = leaf_atD [OF tree_invD(7) [OF inv c]]
    note st = leaf_ok_start [OF l(6) tree_invD(1) [OF inv] l(4)]
    have ne: "node_entry s p i = rs ! 0" using l(3) by simp
    have nz: "rs ! 0 \<noteq> 0" using st(4) by linarith
    then have nx: "leaf_next (s (rs ! 0)) = 0" using leaf ne by simp
    obtain x where x: "rs = [x]" "leaf_holds (s x) es" by (rule small_leaf_page [OF inv c nx])
    have cx: "C (p, i) = Some ([x], es)" using c x(1) by simp
    show thesis
    proof (cases "M key")
      case None
      show thesis
      proof (cases "leaf_usage (s x) + entry_size key (length b) \<le> leaf_capacity")
        case True
        obtain s' C' where w: "write_at_node fuel p i l key (Some b) s = Some (Inr s')" "tree_inv s' A N C'"
          "represents C' (M(key \<mapsto> b))" "kv_entry_count s' = (kv_entry_count s + 1) mod 2 ^ 64" "next_free_page s' = next_free_page s"
          by (rule write_append [OF inv repC k q cx x(2) None True])
        then show thesis using that finish [OF w(2,3)] None ne nz by simp
      next
        case False
        then have full: "leaf_capacity < leaf_usage (s x) + entry_size key (length b)" by simp
        obtain s' A' N' C' where w: "write_at_node (Suc fuel') p i l key (Some b) s = Some (Inr s')" "tree_inv s' A' N' C'"
          "represents C' (M(key \<mapsto> b))" "kv_entry_count s' = (kv_entry_count s + 1) mod 2 ^ 64" "next_free_page s' \<le> next_free_page s + 2 ^ 28"
          by (rule write_without_room [OF inv repC k fp cx x(2) None full lens hash size fuel'(2) room])
        then show thesis using that finish [OF w(2,3)] None ne nz unfolding fuel' by simp
      qed
    next
      case (Some v)
      have len: "length v \<le> length b" using longer Some by blast
      show thesis
      proof (cases "leaf_usage (s x) + (length b - length v) \<le> leaf_capacity")
        case True
        obtain s' C' where w: "write_at_node fuel p i l key (Some b) s = Some (Inr s')" "tree_inv s' A N C'"
          "represents C' (M(key \<mapsto> b))" "kv_entry_count s' = kv_entry_count s" "next_free_page s' = next_free_page s"
          by (rule write_over [OF inv repC k q cx x(2) Some len True])
        then show thesis using that finish [OF w(2,3)] Some same_count ne nz by simp
      next
        case False
        then have full: "leaf_capacity < leaf_usage (s x) + (length b - length v)" by simp
        have hash1: "inj_on fnv_hash (dom M)" by (rule inj_on_subset [OF hash]) blast
        obtain s' A' N' C' where w: "write_at_node (Suc fuel') p i l key (Some b) s = Some (Inr s')" "tree_inv s' A' N' C'"
          "represents C' (M(key \<mapsto> b))" "kv_entry_count s' = kv_entry_count s" "next_free_page s' \<le> next_free_page s + 2 ^ 28"
          by (rule write_rebuild_over [OF inv repC k fp cx x(2) Some len full lens hash1 size fuel'(2) room])
        then show thesis using that finish [OF w(2,3)] Some same_count ne nz unfolding fuel' by simp
      qed
    qed
  qed
qed

text \<open>C3: Writing a value under a key succeeds, with enough fuel, and the map then has that value under the
  key, and the count of entries is right.  This covers new leaves of one page and of several regions,
  entries added to a leaf, values replaced in place, leaves that overflow and are rebuilt as a subtree,
  and leaves split by new nodes until the keys separate.  It does not cover a bucket with a value of
  several regions (\<open>big_neighbour_overreads\<close>), a value that is shorter than the old one
  (\<open>shorter_value_leaves_entry\<close>), and keys whose hashes collide (\<open>colliding_keys_never_split\<close>).\<close>

theorem map_writes:
  assumes "map_rep s A M" "valid_key key" "length key \<le> MAX_KEY_LENGTH"
    "entry_size key (length b) \<le> 2 ^ 31 - 2 ^ 13" "next_free_page s + 2 ^ 28 \<le> 2 ^ 52" "inj_on fnv_hash (insert key (dom M))"
    "find_parent f s key = Some (p, i, l)" "node_entry s p i = 0 \<or> leaf_next (s (node_entry s p i)) = 0"
    "\<forall>v. M key = Some v \<longrightarrow> length v \<le> length b" "max 9 f \<le> fuel"
  shows "\<exists>s' A'. DiskMap_write fuel key (Some b) \<lparr>dm_pages = s, op_count = n\<rparr> =
      Some (Inr \<lparr>dm_pages = s', op_count = (n + 1) mod 2 ^ 64\<rparr>) \<and> map_rep s' A' (M(key \<mapsto> b)) \<and>
    next_free_page s' \<le> next_free_page s + 2 ^ 28"
proof -
  have fuel: "9 \<le> fuel" and fp: "find_parent fuel s key = Some (p, i, l)"
    using assms(10) find_parent_mono [OF assms(7) [unfolded find_parent_def], of fuel] by (simp_all add: find_parent_def)
  obtain s' A' where "write_at_node fuel p i l key (Some b) s = Some (Inr s')" "map_rep s' A' (M(key \<mapsto> b))"
    "next_free_page s' \<le> next_free_page s + 2 ^ 28"
    by (rule map_write_step [OF assms(1-9) fuel])
  then show ?thesis using fp by (auto simp: DiskMap_write_def on_pages_def count_op_def)
qed

lemma new_map_parent:
  assumes "is_zero (s ROOT_PAGE)"
  shows "find_parent (Suc 0) s key = Some (ROOT_PAGE, get_bucket key 1, 0)" "node_entry s ROOT_PAGE (get_bucket key 1) = 0"
proof -
  show "node_entry s ROOT_PAGE (get_bucket key 1) = 0" by (rule zero_node [of s ROOT_PAGE, OF assms get_bucket_less])
  then show "find_parent (Suc 0) s key = Some (ROOT_PAGE, get_bucket key 1, 0)" by (simp add: find_parent_def Let_def)
qed

lemma written_map:
  assumes k: "valid_key key" "length key \<le> MAX_KEY_LENGTH" "entry_size key (length b) \<le> 2 ^ 31 - 2 ^ 13"
  obtains s s' A where "DiskMap_format (\<lambda>_. zero_page) = Inr s" "map_rep s' A [key \<mapsto> b]"
    "write_at_node 9 ROOT_PAGE (get_bucket key 1) 0 key (Some b) s = Some (Inr s')"
    "next_free_page s' \<le> 41 + page_cost (entry_size key (length b))"
proof -
  obtain s where s: "DiskMap_format (\<lambda>_. zero_page) = Inr s" "map_rep s {} Map.empty" "next_free_page s = 41" "is_zero (s ROOT_PAGE)"
    by (rule new_map [of "\<lambda>_. zero_page"]) simp_all
  note f = new_map_parent [of s, OF s(4)]
  obtain s' A where "write_at_node 9 ROOT_PAGE (get_bucket key 1) 0 key (Some b) s = Some (Inr s')" "map_rep s' A [key \<mapsto> b]"
    "node_entry s ROOT_PAGE (get_bucket key 1) = 0 \<longrightarrow> next_free_page s' \<le> next_free_page s + page_cost (entry_size key (length b))"
    by (rule map_write_step [OF s(2) k(1,2) _ _ _ f(1), of b 9]) (use f(2) s(3) k(3) in simp_all)
  then show thesis using that s(1,3) f(2) by simp
qed

theorem map_writes_witness:
  "\<exists>s s' A'. DiskMap_format (\<lambda>_. zero_page) = Inr s \<and>
    DiskMap_write 9 [97] (Some (replicate 10000 7)) \<lparr>dm_pages = s, op_count = 0\<rparr> = Some (Inr \<lparr>dm_pages = s', op_count = 1\<rparr>) \<and>
    map_rep s' A' [[97] \<mapsto> replicate 10000 7]"
proof -
  obtain s where s: "DiskMap_format (\<lambda>_. zero_page) = Inr s" "map_rep s {} Map.empty" "next_free_page s = 41" "is_zero (s ROOT_PAGE)"
    by (rule new_map [of "\<lambda>_. zero_page"]) simp_all
  note f = new_map_parent [of s, OF s(4)]
  show ?thesis
    using map_writes [OF s(2) _ _ _ _ _ f(1), of "[97]" "replicate 10000 7" 9 0] f(2) s(1,3)
    by (simp add: valid_key_def MAX_KEY_LENGTH_def entry_size_def) blast
qed

theorem map_reads_witness:
  "\<exists>s s' f. DiskMap_format (\<lambda>_. zero_page) = Inr s \<and>
    write_at_node 9 ROOT_PAGE (get_bucket [97] 1) 0 [97] (Some [1, 2, 3]) s = Some (Inr s') \<and>
    DiskMap_read f [97] s' = Some (Inr (Some [1, 2, 3])) \<and> DiskMap_read f [98] s' = Some (Inr None)"
proof -
  have k: "valid_key [97]" "length [97 :: byte] \<le> MAX_KEY_LENGTH" "entry_size [97] (length [1, 2, 3 :: byte]) \<le> 2 ^ 31 - 2 ^ 13"
    "valid_key [98]" by (simp_all add: valid_key_def MAX_KEY_LENGTH_def entry_size_def)
  obtain s s' A where s: "DiskMap_format (\<lambda>_. zero_page) = Inr s" "map_rep s' A [[97] \<mapsto> [1, 2, 3]]"
    "write_at_node 9 ROOT_PAGE (get_bucket [97] 1) 0 [97] (Some [1, 2, 3]) s = Some (Inr s')"
    "next_free_page s' \<le> 41 + page_cost (entry_size [97] (length [1, 2, 3 :: byte]))"
    by (rule written_map [OF k(1-3)])
  have n: "next_free_page s' < 2 ^ 16" using s(4) by (simp add: page_cost_def entry_size_def data_capacity)
  obtain f1 where f1: "\<forall>fuel\<ge>f1. DiskMap_read fuel [97] s' = Some (Inr (Some [1, 2, 3]))"
    using map_reads [OF s(2) k(1) n] by auto
  obtain f2 where f2: "\<forall>fuel\<ge>f2. DiskMap_read fuel [98] s' = Some (Inr None)"
    using map_reads [OF s(2) k(4) n] by auto
  show ?thesis using s(1,3) f1 f2 by (intro exI [of _ s] exI [of _ s'] exI [of _ "max f1 f2"]) simp
qed

end
