(* ===== verification/Map_Trace.thy ===== *)
theory Map_Trace
  imports Prelude Hashing Pages Space_Manager Leaf Big_Value Disk_Map
begin

text \<open>
  The operations on the tree change the pages by writes of page handles and by nothing else: whatever
  an operation does to the pages is a sequence of \<open>Write\<close> events of the page store.
\<close>

named_theorems trace_steps \<open>operations that change the pages by writes\<close>

lemma bindO_Inr [result_simps]:
  "bindO r f = Some (Inr y) \<longleftrightarrow> (\<exists>x. r = Some (Inr x) \<and> f x = Some (Inr y))"
  unfolding bindO_def by (auto split: option.splits sum.splits)

lemma then_traced: "traced s1 s2 \<Longrightarrow> traced s0 s1 \<Longrightarrow> traced s0 s2"
  by (rule traced_trans)

lemmas trace_base = put_traced put_meta_traced allocate_traced free_traced
lemmas [trace_steps] = trace_base [THEN then_traced]

lemmas no_change = rtranclp.rtrancl_refl [where r = page_change]

lemma put_leaf_traced [THEN then_traced, trace_steps]:
  "put_leaf_next f v s = Inr s' \<Longrightarrow> traced s s'" "put_leaf_usage f v s = Inr s' \<Longrightarrow> traced s s'"
  "put_leaf_entry_count f v s = Inr s' \<Longrightarrow> traced s s'" "put_leaf_data f i bs s = Inr s' \<Longrightarrow> traced s s'"
  "put_node_entry p i v s = Inr s' \<Longrightarrow> traced s s'" "count_entry s = Inr s' \<Longrightarrow> traced s s'"
  unfolding put_leaf_next_def put_leaf_usage_def put_leaf_entry_count_def put_leaf_data_def put_node_entry_def count_entry_def
  by (erule trace_base)+

section \<open>Leaves\<close>

lemma update_value_traced [THEN then_traced, trace_steps]: "update_value_trivially f off key b s = Inr s' \<Longrightarrow> traced s s'"
  unfolding update_value_trivially_def Let_def
  by (auto simp: bindR_Inr split: if_splits) ((erule trace_steps)+, rule no_change)+

lemma append_entry_traced [THEN then_traced, trace_steps]: "append_entry f key b s = Inr s' \<Longrightarrow> traced s s'"
  unfolding append_entry_def by (auto simp: bindR_Inr) ((erule trace_steps)+, rule no_change)+

lemma fill_leaf_traced [THEN then_traced, trace_steps]: "fill_leaf f es s = Inr s' \<Longrightarrow> traced s s'"
  unfolding fill_leaf_def by (auto simp: bindR_Inr) ((erule trace_steps)+, rule no_change)+

lemma remove_entry_traced [THEN then_traced, trace_steps]: "remove_entry f off key s = Inr s' \<Longrightarrow> traced s s'"
  unfolding remove_entry_def Let_def by (auto simp: bindR_Inr split: if_splits) ((erule trace_steps)+, rule no_change)+

section \<open>Big values\<close>

lemma rw_page_traced: "rw_page w page off n at b s = Inr (b', s') \<Longrightarrow> traced s s'"
  unfolding rw_page_def by (auto simp: bindR_Inr split: if_splits) ((erule trace_steps)+, rule no_change)+

lemma rw_loop_traced: "rw_loop w voff off end_off p b s = Inr (b', s') \<Longrightarrow> traced s s'"
proof (induction w voff off end_off p b s rule: rw_loop.induct)
  case (1 w voff off end_off p b s)
  define from_off where "from_off = start_offset voff (current_page_type p) + page_offset p"
  define page_skip where "page_skip = size_t (int PAGE_SIZE - int from_off)"
  define n where "n = min (end_off - value_offset p) page_skip"
  show ?case
  proof (cases "end_off \<le> value_offset p")
    case True
    then show ?thesis using 1(4) by (subst (asm) rw_loop.simps) simp
  next
    case False
    obtain b1 s1 i where page: "rw_page w (region_start_page p + region_offset p) from_off n (value_offset p - off) b s = Inr (b1, s1)"
      "shl_int 1 (depth p) = Inr i"
      using 1(4) False unfolding rw_loop.simps [of w voff off end_off p b s] Let_def n_def page_skip_def from_off_def
      by (auto simp del: PAGE_SIZE_def One_nat_def simp: bindR_Inr)
    have "traced s1 s'"
      using 1(4) False page 1(1) [OF False refl from_off_def page_skip_def n_def refl page(1) refl page(2) refl]
        1(2) [OF False refl from_off_def page_skip_def n_def refl page(1) refl page(2) refl _ refl]
        1(3) [OF False refl from_off_def page_skip_def n_def refl page(1) refl page(2) refl _ refl _ refl]
      unfolding rw_loop.simps [of w voff off end_off p b s] Let_def n_def page_skip_def from_off_def
      by (auto simp del: PAGE_SIZE_def One_nat_def simp: bindR_Inr split: if_splits)
    then show ?thesis using rw_page_traced [OF page(1)] by (rule then_traced)
  qed
qed

lemma extend_regions_traced: "extend_regions n k prev s = Inr s' \<Longrightarrow> traced s s'"
proof (induction n arbitrary: k prev s)
  case (Suc n)
  note steps = trace_steps Suc.IH [THEN then_traced]
  from Suc.prems show ?case by (auto simp: Let_def bindR_Inr split: if_splits) ((erule steps)+, rule no_change)+
qed simp

lemma BigValue_write_traced [THEN then_traced, trace_steps]: "BigValue_write p voff off b s = Inr s' \<Longrightarrow> traced s s'"
  unfolding BigValue_write_def create_continuation_regions_def rw_impl_def Let_def
  by (auto simp: bindR_Inr) (erule rw_loop_traced [THEN then_traced] extend_regions_traced [THEN then_traced] | rule no_change)+

section \<open>The tree\<close>

lemma free_leaf_traced [THEN then_traced, trace_steps]: "free_leaf x s = Inr s' \<Longrightarrow> traced s s'"
proof -
  have "free_leaf_from x k s = Inr s' \<Longrightarrow> traced s s'" for k
  proof (induction x k s rule: free_leaf_from.induct)
    case (1 x k s)
    obtain s1 where free: "SpaceManager_free x k s = Inr s1"
      "(if leaf_next (s x) = 0 then Inr s1 else free_leaf_from (leaf_next (s x)) (k + 1) s1) = Inr s'"
      using 1(2) by (subst (asm) free_leaf_from.simps) (auto simp: Let_def bindR_Inr)
    have "traced s1 s'" using free(2) 1(1) [OF refl free(1)] by (cases "leaf_next (s x) = 0") auto
    then show ?case using free_traced [OF free(1)] by (rule then_traced)
  qed
  then show "free_leaf x s = Inr s' \<Longrightarrow> traced s s'" unfolding free_leaf_def .
qed

lemma create_leaf_traced [THEN then_traced, trace_steps]:
  "create_leaf es s = Inr (x, s') \<Longrightarrow> traced s s'" "create_big_leaf e s = Inr (x, s') \<Longrightarrow> traced s s'"
  unfolding create_leaf_def create_big_leaf_def
  by (auto simp: bindR_Inr) ((erule trace_steps)+, rule no_change)+

lemma link_subtree_traced [THEN then_traced, trace_steps]: "link_subtree p i v s = Inr s' \<Longrightarrow> traced s s'"
  unfolding link_subtree_def Let_def by (auto simp: bindR_Inr split: if_splits) ((erule trace_steps)+, rule no_change)+

lemma for_each_traced:
  assumes "\<And>i s s'. f i s = Some (Inr s') \<Longrightarrow> traced s s'"
  shows "for_each f xs s = Some (Inr s') \<Longrightarrow> traced s s'"
proof (induction xs arbitrary: s)
  case (Cons x xs)
  then obtain s1 where "f x s = Some (Inr s1)" "for_each f xs s1 = Some (Inr s')" by (auto simp: bindO_Inr)
  then show ?case using assms [of x s s1] Cons.IH [of s1] by (blast intro: traced_trans)
qed simp

lemma create_subtree_traced [THEN then_traced, trace_steps]: "create_subtree n p i l es s = Some (Inr s') \<Longrightarrow> traced s s'"
proof (induction n arbitrary: p i l es s s')
  case (Suc n)
  define loop where "loop = (\<lambda>node i s. let b = bucket_entries es (l + 1) i in
    if b = [] then Some (Inr s) else create_subtree n node i (l + 1) b s)"
  have loop: "for_each (loop node) xs s = Some (Inr s') \<Longrightarrow> traced s s'" for node xs s s'
    by (rule for_each_traced [of "loop node"]) (auto simp: loop_def Let_def split: if_splits dest: Suc.IH)
  show ?case
    using Suc.prems unfolding create_subtree.simps
    by (auto simp: bindO_Inr simp del: One_nat_def split: if_splits)
      ((erule trace_steps loop [unfolded loop_def, THEN then_traced])+, rule no_change)+
qed simp

lemma write_existing_traced [THEN then_traced, trace_steps]:
  "write_existing n p i l x off key b s = Some (Inr s') \<Longrightarrow> traced s s'"
  unfolding write_existing_def Let_def
  by (auto simp: bindO_Inr bindR_Inr split: if_splits) ((erule trace_steps)+, rule no_change)+

lemma split_leaf_traced [THEN then_traced, trace_steps]: "split_leaf n x key0 key b p l s = Some (Inr s') \<Longrightarrow> traced s s'"
proof (induction n arbitrary: p l s)
  case (Suc n)
  from Suc.prems show ?case
    by (auto simp: Let_def bindO_Inr split: if_splits) ((erule trace_steps Suc.IH [THEN then_traced])+, rule no_change)+
qed simp

lemma write_new_traced [THEN then_traced, trace_steps]:
  assumes "write_new n p i l x key b s = Some (Inr s')"
  shows "traced s s'"
proof -
  obtain s1 where count: "count_entry s = Inr s1" using assms by (auto simp: write_new_def bindO_Inr)
  have "traced s1 s'"
  proof (cases "(leaf_usage (s1 x) + entry_size key (length b)) mod 2 ^ 64 \<le> leaf_capacity")
    case True
    then show ?thesis using assms count by (simp add: write_new_def append_entry_traced [OF _ no_change])
  next
    case False
    then obtain es where es: "get_entries_in_leaf (s1 x) = Inr es"
      "(if leaf_entry_count (s1 x) = 1 then case es of [] \<Rightarrow> Some (Inl MemoryError) | e # _ \<Rightarrow> split_leaf n x (kv_key e) key b p l s1
        else create_subtree n p i l (es @ [\<lparr>kv_key = key, kv_value = b\<rparr>]) s1) = Some (Inr s')"
      using assms count by (auto simp: write_new_def bindO_Inr simp del: split_paired_Ex)
    then show ?thesis
      by (cases es) (auto split: if_splits intro: split_leaf_traced [OF _ no_change] create_subtree_traced [OF _ no_change])
  qed
  then show ?thesis using put_leaf_traced(6) [OF count no_change] by (rule then_traced)
qed

lemma write_at_node_traced [THEN then_traced, trace_steps]: "write_at_node n p i l key b s = Some (Inr s') \<Longrightarrow> traced s s'"
  unfolding write_at_node_def Let_def
  by (auto simp: bindO_Inr split: if_splits option.splits) ((erule trace_steps)+, rule no_change)+

lemma part_traced [THEN then_traced, trace_steps]:
  "part_not_found n p i l key off b s = Some (Inr s') \<Longrightarrow> traced s s'"
  "part_found n p i l x k key off bs s = Some (Inr s') \<Longrightarrow> traced s s'"
  unfolding part_not_found_def part_found_def Let_def
  by (auto simp: bindO_Inr bindR_Inr split: if_splits) ((erule trace_steps)+, rule no_change)+

lemma remove_leaf_traced [THEN then_traced, trace_steps]: "remove_leaf g p i j x s = Inr s' \<Longrightarrow> traced s s'"
  unfolding remove_leaf_def Let_def
  by (auto simp: bindR_Inr split: if_splits prod.splits) ((erule trace_steps)+, rule no_change)+

lemma remove_impl_traced [THEN then_traced, trace_steps]: "remove_impl n key s = Some (Inr (b, s')) \<Longrightarrow> traced s s'"
  unfolding remove_impl_def Let_def
  by (auto simp: bindR_Inr split: if_splits option.splits prod.splits) ((erule trace_steps)+, rule no_change)+

lemma on_pages_traced:
  assumes "on_pages f d = Some (Inr d')" "\<And>s s'. f s = Some (Inr s') \<Longrightarrow> traced s s'"
  shows "traced (dm_pages d) (dm_pages d')" "op_count d' = op_count d"
  using assms unfolding on_pages_def by (auto simp: bindO_Inr)

end
