(* ===== verification/Map_Check.thy ===== *)
theory Map_Check
  imports Prelude Hashing Pages Space_Manager Leaf Big_Value Disk_Map Map_Invariant Map_Write Map_Properties
begin

text \<open>
  The functions that go through the whole tree: \<open>verify_integrity\<close>, which raises when a leaf is corrupt,
  and \<open>debug_dump\<close>, which prints it.  Both end on a well-formed map, as its nodes form a tree.
\<close>

section \<open>Printing\<close>

text \<open>The lines \<open>debug_dump\<close> prints, with their values; how these are formatted is left out.\<close>

datatype dump_line =
    Metadata nat nat
  | Internal_Page nat nat int
  | Leaf_Page nat nat int nat nat
  | Key_Line nat "byte list" nat
  | Leaf_Corrupted nat nat
  | Count_Mismatch nat nat

text \<open>The loop over the entries of a leaf: the lines, where it ends, and the number of entries.\<close>

function dump_entries :: "page \<Rightarrow> nat \<Rightarrow> nat \<Rightarrow> nat \<Rightarrow> (dump_line list \<times> nat \<times> nat) result" where
  "dump_entries pg indent ptr entry_count =
     (if PAGE_SIZE \<le> ptr \<or> pg ptr = 0 then Inr ([], ptr, entry_count)
      else bindR (strlen_at pg ptr) (\<lambda>n.
        if PAGE_SIZE < ptr + n + 1 + 8 then Inl MemoryError
        else let value_length = get_u64 pg (ptr + n + 1) in
        bindR (dump_entries pg indent (ptr + n + 1 + 8 + value_length) (entry_count + 1)) (\<lambda>(ls, ptr', entry_count).
          Inr (Key_Line (indent + 1) (bytes_at pg ptr n) value_length # ls, ptr', entry_count))))"
  by pat_completeness auto
termination by (relation "measure (\<lambda>(pg, indent, ptr, n). PAGE_SIZE - ptr)") auto

declare dump_entries.simps [simp del]

fun first_nonzero :: "page \<Rightarrow> nat list \<Rightarrow> nat option" where
  "first_nonzero pg [] = None"
| "first_nonzero pg (i # is) = (if pg i \<noteq> 0 then Some i else first_nonzero pg is)"

definition dump_leaf :: "pages \<Rightarrow> nat \<Rightarrow> nat \<Rightarrow> int \<Rightarrow> dump_line list result" where
  "dump_leaf s page indent parent_index =
     (let pg = s page in
      bindR (dump_entries pg indent DATA 0) (\<lambda>(ls, ptr, entry_count).
        Inr (Leaf_Page indent page parent_index (leaf_entry_count pg) (leaf_usage pg) # ls @
          (case first_nonzero pg [ptr..<PAGE_SIZE] of None \<Rightarrow> [] | Some i \<Rightarrow> [Leaf_Corrupted i (i - DATA)]) @
          (if leaf_entry_count pg \<noteq> entry_count then [Count_Mismatch (leaf_entry_count pg) entry_count] else []))))"

primrec debug_dump_recursive :: "nat \<Rightarrow> pages \<Rightarrow> nat \<Rightarrow> nat \<Rightarrow> int \<Rightarrow> dump_line list result option" where
  "debug_dump_recursive 0 s page indent parent_index = None"
| "debug_dump_recursive (Suc fuel) s page indent parent_index =
     (if get_msb page \<noteq> 0 then
        let actual_page = clear_msb page in
        for_each (\<lambda>i out.
            if node_entry s actual_page i \<noteq> 0
            then bindO (debug_dump_recursive fuel s (node_entry s actual_page i) (indent + 1) (int i)) (\<lambda>ls. Some (Inr (out @ ls)))
            else Some (Inr out))
          [0..<512] [Internal_Page indent actual_page parent_index]
      else Some (dump_leaf s page indent parent_index))"

definition debug_dump :: "nat \<Rightarrow> pages \<Rightarrow> dump_line list result option" where
  "debug_dump fuel s =
     bindO (debug_dump_recursive fuel s (set_msb ROOT_PAGE 1) 0 (- 1)) (\<lambda>ls.
       Some (Inr (Metadata (kv_entry_count s) (next_free_page s) # ls)))"

section \<open>Going through a tree\<close>

lemma finite_nodes:
  assumes "subtree rt lv s A N C"
  shows "finite N"
proof (rule finite_subset)
  show "N \<subseteq> insert 1 {..next_free_page s}"
  proof
    fix p assume "p \<in> N"
    then have "p = 1 \<or> (p, 0) \<in> A" by (rule node_page(3) [OF assms])
    then show "p \<in> insert 1 {..next_free_page s}" using space_okD(1) [OF tree_invD(1) [OF assms], of p 0 p] by auto
  qed
qed simp

text \<open>Induction from the leaves up.\<close>

lemma tree_induct:
  assumes inv: "subtree rt lv s A N C" and p: "p \<in> N"
    and step: "\<And>p. p \<in> N \<Longrightarrow> (\<And>i. i < 512 \<Longrightarrow> get_msb (node_entry s p i) \<noteq> 0 \<Longrightarrow> P (clear_msb (node_entry s p i))) \<Longrightarrow> P p"
  shows "P p"
proof -
  obtain digits :: "nat \<Rightarrow> nat list" where d: "\<forall>p\<in>N. \<forall>i<512. get_msb (node_entry s p i) \<noteq> 0 \<longrightarrow>
      digits (clear_msb (node_entry s p i)) = digits p @ [i]"
    using tree_invD(9) [OF inv] unfolding tree_shaped_def by blast
  define B where "B = Max ((\<lambda>p. length (digits p)) ` N)"
  have B: "length (digits p) \<le> B" if "p \<in> N" for p
    unfolding B_def using finite_nodes [OF inv] that by (intro Max_ge) simp_all
  show ?thesis
    using p
  proof (induction "B - length (digits p)" arbitrary: p rule: less_induct)
    case less
    show ?case
    proof (rule step [OF less.prems])
      fix i assume i: "i < 512" "get_msb (node_entry s p i) \<noteq> 0"
      have c: "clear_msb (node_entry s p i) \<in> N" using tree_invD(4) [OF inv] less.prems i by (simp add: closed_nodes_def)
      moreover have "length (digits (clear_msb (node_entry s p i))) = Suc (length (digits p))" using d less.prems i by simp
      ultimately show "P (clear_msb (node_entry s p i))" using less.hyps B by force
    qed
  qed
qed

text \<open>An entry of a node: nothing, a node or a leaf.\<close>

lemma node_entry_cases:
  assumes inv: "subtree rt lv s A N C" and p: "p \<in> N" "i < 512"
  obtains "node_entry s p i = 0" "C (p, i) = None"
  | "get_msb (node_entry s p i) \<noteq> 0" "clear_msb (node_entry s p i) \<in> N" "node_entry s p i = set_msb (clear_msb (node_entry s p i)) 1"
      "node_entry s p i \<noteq> 0"
  | rs es where "get_msb (node_entry s p i) = 0" "node_entry s p i = rs ! 0" "node_entry s p i \<noteq> 0" "C (p, i) = Some (rs, es)" "leaf_ok s rs es"
proof (cases "get_msb (node_entry s p i) = 0")
  case False
  have e: "node_entry s p i < 2 ^ 64" using get_u64_less [of "s p" "8 * i"] by (simp add: node_entry_def)
  moreover have "2 ^ 63 \<le> node_entry s p i" using False by (simp add: get_msb_def split: if_splits)
  ultimately obtain x where "node_entry s p i = x + 2 ^ 63" "x < 2 ^ 63"
    by (intro that [of "node_entry s p i - 2 ^ 63"]) simp_all
  then have "node_entry s p i = set_msb (clear_msb (node_entry s p i)) 1" by (simp add: set_msb_def clear_msb_def)
  moreover have "clear_msb (node_entry s p i) \<in> N" using tree_invD(4) [OF inv] p False by (simp add: closed_nodes_def)
  ultimately show thesis using that(2) False by (metis get_msb_0)
next
  case True
  show thesis
  proof (cases "C (p, i)")
    case None
    show thesis by (rule that(1) [OF tree_invD(6) [OF inv p True None] None])
  next
    case (Some re)
    obtain rs es where c: "C (p, i) = Some (rs, es)" using Some by (cases re) simp
    note lf = leaf_atD [OF tree_invD(7) [OF inv c]]
    note st = leaf_ok_start [OF lf(6) tree_invD(1) [OF inv] lf(4)]
    have "node_entry s p i = rs ! 0" using lf(3) by simp
    then show thesis using that(3) [OF True _ _ c lf(6)] st(4) by fastforce
  qed
qed

section \<open>Checking\<close>

lemma validate_big:
  assumes "big_leaf s rs e"
  shows "validate_leaf_integrity (s (rs ! 0)) = Inr ()"
proof -
  have b: "entry_starts (s (rs ! 0)) DATA (kv_key e) (length (kv_value e))" "leaf_entry_count (s (rs ! 0)) = 1"
    "leaf_capacity < entry_size (kv_key e) (length (kv_value e))" using assms by (simp_all add: big_leaf_def)
  note st = entry_startsD [OF b(1)]
  have past: "PAGE_SIZE \<le> DATA + length (kv_key e) + 1 + 8 + length (kv_value e)"
    using b(3) by (simp add: entry_size_def leaf_capacity_def)
  then have "validate_entries (s (rs ! 0)) (DATA + length (kv_key e) + 1 + 8 + length (kv_value e)) 1 =
      Inr (DATA + length (kv_key e) + 1 + 8 + length (kv_value e), 1)"
    by (subst validate_entries.simps) simp
  then have "validate_entries (s (rs ! 0)) DATA 0 = Inr (DATA + length (kv_key e) + 1 + 8 + length (kv_value e), 1)"
    using st(1-5) by (simp add: validate_entries.simps [of _ DATA])
  then show ?thesis using b(2) past by (simp add: validate_leaf_integrity_def)
qed

lemma validate_leaf_ok: "leaf_ok s rs es \<Longrightarrow> validate_leaf_integrity (s (rs ! 0)) = Inr ()"
  unfolding leaf_ok_def by (auto simp: validate_holds validate_big)

lemma for_each_unit: "\<forall>i\<in>set xs. f i () = Some (Inr ()) \<Longrightarrow> for_each f xs () = Some (Inr ())"
  by (induction xs) auto

lemma set_msb_node:
  assumes "subtree rt lv s A N C" "p \<in> N"
  shows "get_msb (set_msb p 1) \<noteq> 0" "clear_msb (set_msb p 1) = p"
  using node_page(1) [OF assms] by (simp_all add: page_ok_def get_msb_def set_msb_def clear_msb_def)

lemma uniform_fuel:
  fixes n :: nat and P :: "nat \<Rightarrow> nat \<Rightarrow> bool"
  assumes "\<And>i. i < n \<Longrightarrow> \<exists>f. \<forall>fuel\<ge>f. P i fuel"
  obtains f where "\<And>i fuel. i < n \<Longrightarrow> f \<le> fuel \<Longrightarrow> P i fuel"
proof -
  obtain g where g: "\<And>i fuel. i < n \<Longrightarrow> g i \<le> fuel \<Longrightarrow> P i fuel" using assms by metis
  have "g i \<le> Max (g ` {..<n})" if "i < n" for i using that by (intro Max_ge) simp_all
  then show thesis using that [of "Max (g ` {..<n})"] g order_trans by metis
qed

lemma verify_node:
  assumes inv: "subtree rt lv s A N C" and "p \<in> N"
  shows "\<exists>f. \<forall>fuel\<ge>f. verify_integrity_recursive fuel (set_msb p 1) s = Some (Inr ())"
  using inv assms(2)
proof (rule tree_induct)
  fix p assume p: "p \<in> N"
    and IH: "\<And>i. i < 512 \<Longrightarrow> get_msb (node_entry s p i) \<noteq> 0 \<Longrightarrow>
      \<exists>f. \<forall>fuel\<ge>f. verify_integrity_recursive fuel (set_msb (clear_msb (node_entry s p i)) 1) s = Some (Inr ())"
  define visit where "visit = (\<lambda>fuel i (u :: unit). if node_entry s p i \<noteq> 0
      then verify_integrity_recursive fuel (node_entry s p i) s else Some (Inr ()))"
  have "\<exists>f. \<forall>fuel\<ge>f. visit fuel i () = Some (Inr ())" if i: "i < 512" for i
  proof (rule node_entry_cases [OF inv p i])
    assume "get_msb (node_entry s p i) \<noteq> 0" "node_entry s p i = set_msb (clear_msb (node_entry s p i)) 1"
    then show ?thesis using IH [OF i] by (metis visit_def)
  next
    fix rs es assume l: "get_msb (node_entry s p i) = 0" "node_entry s p i = rs ! 0" "leaf_ok s rs es"
    have "visit fuel i () = Some (Inr ())" if "1 \<le> fuel" for fuel
      using l that validate_leaf_ok [OF l(3)] by (cases fuel) (simp_all add: visit_def)
    then show ?thesis by blast
  qed (simp add: visit_def)
  then obtain f where f: "\<And>i fuel. i < 512 \<Longrightarrow> f \<le> fuel \<Longrightarrow> visit fuel i () = Some (Inr ())"
    using uniform_fuel [of 512 "\<lambda>i fuel. visit fuel i () = Some (Inr ())"] by blast
  have "verify_integrity_recursive fuel (set_msb p 1) s = Some (Inr ())" if fuel: "Suc f \<le> fuel" for fuel
  proof -
    obtain g where g: "fuel = Suc g" "f \<le> g" using fuel by (cases fuel) simp_all
    have "for_each (visit g) [0..<512] () = Some (Inr ())" by (rule for_each_unit) (use f g(2) in simp)
    then show ?thesis
      unfolding g(1) verify_integrity_recursive.simps set_msb_node(2) [OF inv p] if_P [OF set_msb_node(1) [OF inv p]] visit_def .
  qed
  then show "\<exists>f. \<forall>fuel\<ge>f. verify_integrity_recursive fuel (set_msb p 1) s = Some (Inr ())" by blast
qed

text \<open>C9: On a well-formed map \<open>verify_integrity\<close> ends, with enough fuel, and reports no corruption.\<close>

theorem verify_integrity_accepts:
  assumes "map_rep s A M"
  shows "\<exists>f. \<forall>fuel\<ge>f. verify_integrity fuel s = Some (Inr ())"
proof -
  obtain N C where inv: "tree_inv s A N C" using assms by (auto simp: map_rep_def)
  show ?thesis using verify_node [OF inv tree_invD(2) [OF inv]] by (simp add: verify_integrity_def)
qed

theorem verify_integrity_accepts_witness:
  "\<exists>s s' f. DiskMap_format (\<lambda>_. zero_page) = Inr s \<and>
    write_at_node 9 ROOT_PAGE (get_bucket [97] 1) 0 [97] (Some (replicate 10000 7)) s = Some (Inr s') \<and>
    verify_integrity f s' = Some (Inr ())"
proof -
  have k: "valid_key [97]" "length [97 :: byte] \<le> MAX_KEY_LENGTH" "entry_size [97] (length (replicate 10000 (7 :: byte))) \<le> 2 ^ 31 - 2 ^ 13"
    by (simp_all add: valid_key_def MAX_KEY_LENGTH_def entry_size_def)
  obtain s s' A where s: "DiskMap_format (\<lambda>_. zero_page) = Inr s" "map_rep s' A [[97] \<mapsto> replicate 10000 7]"
    "write_at_node 9 ROOT_PAGE (get_bucket [97] 1) 0 [97] (Some (replicate 10000 7)) s = Some (Inr s')"
    by (rule written_map [OF k])
  then show ?thesis using verify_integrity_accepts [OF s(2)] by blast
qed

section \<open>Dumping\<close>

fun key_lines :: "dump_line list \<Rightarrow> (byte list \<times> nat) list" where
  "key_lines [] = []"
| "key_lines (Key_Line indent key n # ls) = (key, n) # key_lines ls"
| "key_lines (_ # ls) = key_lines ls"

fun complaint :: "dump_line \<Rightarrow> bool" where
  "complaint (Leaf_Corrupted i j) = True"
| "complaint (Count_Mismatch m n) = True"
| "complaint _ = False"

definition dumped :: "KVEntry list \<Rightarrow> (byte list \<times> nat) list" where
  "dumped es = map (\<lambda>e. (kv_key e, length (kv_value e))) es"

lemma key_lines_append [simp]: "key_lines (ls @ ls') = key_lines ls @ key_lines ls'"
  by (induction ls rule: key_lines.induct) simp_all

lemma set_key_lines_concat: "set (key_lines (concat lss)) = (\<Union>ls\<in>set lss. set (key_lines ls))"
  by (induction lss) simp_all

lemma dump_entries_holds:
  "holds_at pg ptr (encode_entries es @ zeros m) \<Longrightarrow> ptr + length (encode_entries es) + m = PAGE_SIZE \<Longrightarrow>
   \<forall>e\<in>set es. valid_key (kv_key e) \<Longrightarrow>
   \<exists>ls. dump_entries pg indent ptr n = Inr (ls, ptr + length (encode_entries es), n + length es) \<and>
     (\<forall>l\<in>set ls. \<not> complaint l) \<and> key_lines ls = dumped es"
proof (induction es arbitrary: ptr n)
  case Nil
  then show ?case using holds_zeros [of pg ptr m] by (simp add: dump_entries.simps [of pg indent ptr] dumped_def)
next
  case (Cons e es)
  have h: "holds_at pg ptr (encode_kv e @ (encode_entries es @ zeros m))" using Cons.prems(1) by simp
  have ve: "valid_key (kv_key e)" using Cons.prems(3) by simp
  note st = entry_startsD [OF entry_starts_encoded [OF h ve]]
  define p1 where "p1 = ptr + entry_size (kv_key e) (length (kv_value e))"
  have "\<exists>ls. dump_entries pg indent p1 (n + 1) = Inr (ls, p1 + length (encode_entries es), n + 1 + length es) \<and>
      (\<forall>l\<in>set ls. \<not> complaint l) \<and> key_lines ls = dumped es"
    by (rule Cons.IH) (use holds_at_entry [OF h] Cons.prems(2,3) in \<open>simp_all add: p1_def entry_size_def ac_simps\<close>)
  moreover have "p1 = ptr + length (kv_key e) + 1 + 8 + length (kv_value e)" "p1 + length (encode_entries es) = ptr + length (encode_entries (e # es))"
    by (simp_all add: p1_def entry_size_def)
  ultimately show ?case
    using st(1-5) holds_at_bytes [OF st(7)] by (auto simp: dump_entries.simps [of pg indent ptr] dumped_def Let_def)
qed

lemma first_nonzero_None: "first_nonzero pg xs = None \<longleftrightarrow> (\<forall>i\<in>set xs. pg i = 0)"
  by (induction xs) auto

lemma dump_leaf_holds:
  assumes "leaf_holds (s x) es"
  shows "\<exists>ls. dump_leaf s x indent i = Inr ls \<and> (\<forall>l\<in>set ls. \<not> complaint l) \<and> key_lines ls = dumped es"
proof -
  define u where "u = length (encode_entries es)"
  have u: "DATA + u + (leaf_capacity - u) = PAGE_SIZE" using leaf_holds_bound [OF assms] by (simp add: data_capacity u_def)
  have h: "holds_at (s x) DATA (encode_entries es @ zeros (leaf_capacity - u))"
    and k: "\<forall>e\<in>set es. valid_key (kv_key e)" and n: "leaf_entry_count (s x) = length es"
    using assms by (simp_all add: leaf_holds_def u_def)
  obtain ls where ls: "dump_entries (s x) indent DATA 0 = Inr (ls, DATA + u, 0 + length es)" "\<forall>l\<in>set ls. \<not> complaint l" "key_lines ls = dumped es"
    using dump_entries_holds [OF h _ k, of indent 0] u by (auto simp: u_def)
  have "holds_at (s x) (DATA + u) (zeros (leaf_capacity - u))" using h by (simp add: holds_at_append u_def)
  then have z: "\<forall>i<leaf_capacity - u. (s x) (DATA + u + i) = 0" by (simp add: holds_at_def)
  have "(s x) i = 0" if "DATA + u \<le> i" "i < PAGE_SIZE" for i
    using z [rule_format, of "i - (DATA + u)"] that u by simp
  then have "first_nonzero (s x) [DATA + u..<PAGE_SIZE] = None" by (simp add: first_nonzero_None)
  then show ?thesis using ls n by (simp add: dump_leaf_def)
qed

lemma dump_leaf_big:
  assumes "big_leaf s rs e"
  shows "\<exists>ls. dump_leaf s (rs ! 0) indent i = Inr ls \<and> (\<forall>l\<in>set ls. \<not> complaint l) \<and> key_lines ls = dumped [e]"
proof -
  have b: "entry_starts (s (rs ! 0)) DATA (kv_key e) (length (kv_value e))" "leaf_entry_count (s (rs ! 0)) = 1"
    "leaf_capacity < entry_size (kv_key e) (length (kv_value e))" using assms by (simp_all add: big_leaf_def)
  note st = entry_startsD [OF b(1)]
  define end_ptr where "end_ptr = DATA + length (kv_key e) + 1 + 8 + length (kv_value e)"
  have past: "PAGE_SIZE \<le> end_ptr" using b(3) by (simp add: end_ptr_def entry_size_def leaf_capacity_def)
  then have "dump_entries (s (rs ! 0)) indent end_ptr 1 = Inr ([], end_ptr, 1)" by (subst dump_entries.simps) simp
  then have "dump_entries (s (rs ! 0)) indent DATA 0 = Inr ([Key_Line (indent + 1) (kv_key e) (length (kv_value e))], end_ptr, 1)"
    using st(1-5) holds_at_bytes [OF st(7)] by (simp add: dump_entries.simps [of _ _ DATA] end_ptr_def Let_def)
  then show ?thesis using b(2) past by (simp add: dump_leaf_def dumped_def)
qed

lemma dump_leaf_ok:
  "leaf_ok s rs es \<Longrightarrow> \<exists>ls. dump_leaf s (rs ! 0) indent i = Inr ls \<and> (\<forall>l\<in>set ls. \<not> complaint l) \<and> key_lines ls = dumped es"
  unfolding leaf_ok_def using dump_leaf_holds dump_leaf_big by fastforce

text \<open>What the dump of a node shows: entries of leaves, and all that a search from the node leads to.\<close>

definition shows_node :: "pages \<Rightarrow> leaves \<Rightarrow> nat \<Rightarrow> dump_line list \<Rightarrow> bool" where
  "shows_node s C p ls \<longleftrightarrow> (\<forall>l\<in>set ls. \<not> complaint l) \<and>
     (\<forall>x\<in>set (key_lines ls). \<exists>q rs es. C q = Some (rs, es) \<and> x \<in> set (dumped es)) \<and>
     (\<forall>f key l q i l' rs es. find_parent_from f s key p l = Some (q, i, l') \<longrightarrow> C (q, i) = Some (rs, es) \<longrightarrow>
        set (dumped es) \<subseteq> set (key_lines ls))"

lemma for_each_append:
  assumes "\<And>i out. i \<in> set xs \<Longrightarrow> f i out = Some (Inr (out @ g i))"
  shows "for_each f xs out = Some (Inr (out @ concat (map g xs)))"
  using assms by (induction xs arbitrary: out) simp_all

lemma dump_node:
  assumes inv: "subtree rt lv s A N C" and "p \<in> N"
  shows "\<exists>f. \<forall>fuel\<ge>f. \<forall>indent j. \<exists>ls. debug_dump_recursive fuel s (set_msb p 1) indent j = Some (Inr ls) \<and> shows_node s C p ls"
  using inv assms(2)
proof (rule tree_induct)
  fix p assume p: "p \<in> N"
    and IH: "\<And>i. i < 512 \<Longrightarrow> get_msb (node_entry s p i) \<noteq> 0 \<Longrightarrow>
      \<exists>f. \<forall>fuel\<ge>f. \<forall>indent j. \<exists>ls. debug_dump_recursive fuel s (set_msb (clear_msb (node_entry s p i)) 1) indent j = Some (Inr ls) \<and>
        shows_node s C (clear_msb (node_entry s p i)) ls"
  define ok where "ok = (\<lambda>i ls. (\<forall>l\<in>set ls. \<not> complaint l) \<and>
    (\<forall>x\<in>set (key_lines ls). \<exists>q rs es. C q = Some (rs, es) \<and> x \<in> set (dumped es)) \<and>
    (if get_msb (node_entry s p i) \<noteq> 0 then shows_node s C (clear_msb (node_entry s p i)) ls
     else \<forall>rs es. C (p, i) = Some (rs, es) \<longrightarrow> key_lines ls = dumped es))"
  define visit where "visit = (\<lambda>fuel indent i. if node_entry s p i \<noteq> 0
    then debug_dump_recursive fuel s (node_entry s p i) (indent + 1) (int i) else Some (Inr []))"
  have "\<exists>f. \<forall>fuel\<ge>f. \<forall>indent. \<exists>ls. visit fuel indent i = Some (Inr ls) \<and> ok i ls" if i: "i < 512" for i
  proof (rule node_entry_cases [OF inv p i])
    assume "node_entry s p i = 0" "C (p, i) = None"
    then show ?thesis by (simp add: visit_def ok_def)
  next
    assume n: "get_msb (node_entry s p i) \<noteq> 0" "node_entry s p i = set_msb (clear_msb (node_entry s p i)) 1" "node_entry s p i \<noteq> 0"
    obtain f where f: "\<forall>fuel\<ge>f. \<forall>indent j. \<exists>ls. debug_dump_recursive fuel s (node_entry s p i) indent j = Some (Inr ls) \<and>
        shows_node s C (clear_msb (node_entry s p i)) ls"
      using IH [OF i n(1)] n(2) by metis
    have "ok i ls" if "shows_node s C (clear_msb (node_entry s p i)) ls" for ls
      using that n(1) unfolding ok_def by (simp add: shows_node_def)
    then show ?thesis using f n(3) unfolding visit_def by (simp only: if_P) metis
  next
    fix rs es assume l: "get_msb (node_entry s p i) = 0" "node_entry s p i = rs ! 0" "node_entry s p i \<noteq> 0" "C (p, i) = Some (rs, es)" "leaf_ok s rs es"
    have "\<exists>ls. visit fuel indent i = Some (Inr ls) \<and> ok i ls" if "1 \<le> fuel" for fuel indent
    proof -
      obtain ls where ls: "dump_leaf s (rs ! 0) (indent + 1) (int i) = Inr ls" "\<forall>l\<in>set ls. \<not> complaint l" "key_lines ls = dumped es"
        using dump_leaf_ok [OF l(5)] by blast
      then have "ok i ls" using l(1,4) unfolding ok_def by auto
      moreover have "visit fuel indent i = Some (Inr ls)" using ls(1) l that by (cases fuel) (simp_all add: visit_def)
      ultimately show ?thesis by blast
    qed
    then show ?thesis by blast
  qed
  then obtain f where f: "\<And>i fuel. i < 512 \<Longrightarrow> f \<le> fuel \<Longrightarrow> \<forall>indent. \<exists>ls. visit fuel indent i = Some (Inr ls) \<and> ok i ls"
    using uniform_fuel [of 512 "\<lambda>i fuel. \<forall>indent. \<exists>ls. visit fuel indent i = Some (Inr ls) \<and> ok i ls"] by blast
  have "\<exists>ls. debug_dump_recursive fuel s (set_msb p 1) indent j = Some (Inr ls) \<and> shows_node s C p ls" if fuel: "Suc f \<le> fuel" for fuel indent j
  proof -
    obtain g where g: "fuel = Suc g" "f \<le> g" using fuel by (cases fuel) simp_all
    obtain L where L: "\<And>i. i < 512 \<Longrightarrow> visit g indent i = Some (Inr (L i)) \<and> ok i (L i)"
      using choice [of "\<lambda>i ls. i < 512 \<longrightarrow> visit g indent i = Some (Inr ls) \<and> ok i ls"] f [OF _ g(2)] by blast
    define out where "out = Internal_Page indent p j # concat (map L [0..<512])"
    have "for_each (\<lambda>i out. if node_entry s p i \<noteq> 0
        then bindO (debug_dump_recursive g s (node_entry s p i) (indent + 1) (int i)) (\<lambda>ls. Some (Inr (out @ ls)))
        else Some (Inr out)) [0..<512] [Internal_Page indent p j] = Some (Inr ([Internal_Page indent p j] @ concat (map L [0..<512])))"
    proof (rule for_each_append)
      fix i out assume "i \<in> set [0..<512 :: nat]"
      then show "(if node_entry s p i \<noteq> 0
        then bindO (debug_dump_recursive g s (node_entry s p i) (indent + 1) (int i)) (\<lambda>ls. Some (Inr (out @ ls)))
        else Some (Inr out)) = Some (Inr (out @ L i))"
        using L [of i] by (cases "node_entry s p i = 0") (simp_all add: visit_def)
    qed
    then have "debug_dump_recursive fuel s (set_msb p 1) indent j = Some (Inr out)"
      unfolding g(1) debug_dump_recursive.simps Let_def set_msb_node(2) [OF inv p] if_P [OF set_msb_node(1) [OF inv p]] out_def by simp
    moreover have "shows_node s C p out"
      unfolding shows_node_def
    proof (intro conjI allI impI ballI)
      fix l assume "l \<in> set out"
      then show "\<not> complaint l" using L by (auto simp: out_def ok_def)
    next
      fix x assume "x \<in> set (key_lines out)"
      then obtain i where "i < 512" "x \<in> set (key_lines (L i))" by (auto simp: out_def set_key_lines_concat)
      then show "\<exists>q rs es. C q = Some (rs, es) \<and> x \<in> set (dumped es)" using L [of i] unfolding ok_def by blast
    next
      fix f' key l q i l' rs es assume search: "find_parent_from f' s key p l = Some (q, i, l')" and c: "C (q, i) = Some (rs, es)"
      obtain h where h: "f' = Suc h" using search by (cases f') simp_all
      define i0 where "i0 = get_bucket key (int l + 1)"
      have i0: "i0 < 512" by (simp add: i0_def get_bucket_less)
      have "set (dumped es) \<subseteq> set (key_lines (L i0))"
      proof (cases "get_msb (node_entry s p i0) = 0")
        case True
        then have "(q, i) = (p, i0)" using search by (auto simp: h Let_def i0_def)
        then have "key_lines (L i0) = dumped es" using L [OF i0] True c unfolding ok_def by auto
        then show ?thesis by simp
      next
        case False
        then have "find_parent_from h s key (clear_msb (node_entry s p i0)) (l + 1) = Some (q, i, l')"
          using search by (auto simp: h Let_def i0_def split: if_splits)
        then show ?thesis using L [OF i0] False c unfolding ok_def shows_node_def by (simp only: if_True not_False_eq_True)
      qed
      then show "set (dumped es) \<subseteq> set (key_lines out)" using i0 by (force simp: out_def set_key_lines_concat)
    qed
    ultimately show ?thesis by blast
  qed
  then show "\<exists>f. \<forall>fuel\<ge>f. \<forall>indent j. \<exists>ls. debug_dump_recursive fuel s (set_msb p 1) indent j = Some (Inr ls) \<and> shows_node s C p ls" by blast
qed

text \<open>C14: On a well-formed map \<open>debug_dump\<close> ends, with enough fuel, and prints just the keys of the map with the
  lengths of their values, and no complaint.\<close>

theorem debug_dump_lists:
  assumes "map_rep s A M"
  shows "\<exists>f. \<forall>fuel\<ge>f. \<exists>out. debug_dump fuel s = Some (Inr out) \<and> (\<forall>l\<in>set out. \<not> complaint l) \<and>
    set (key_lines out) = {(k, n). map_option length (M k) = Some n}"
proof -
  obtain N C where inv: "tree_inv s A N C" and rep: "represents C M" using assms by (auto simp: map_rep_def)
  obtain f where f: "\<forall>fuel\<ge>f. \<forall>indent j. \<exists>ls. debug_dump_recursive fuel s (set_msb ROOT_PAGE 1) indent j = Some (Inr ls) \<and> shows_node s C ROOT_PAGE ls"
    using dump_node [OF inv tree_invD(2) [OF inv]] by blast
  have lines: "set (key_lines ls) = {(k, n). map_option length (M k) = Some n}" if sh: "shows_node s C ROOT_PAGE ls" for ls
  proof (intro set_eqI iffI)
    fix x assume "x \<in> set (key_lines ls)"
    then obtain q rs es e where c: "C q = Some (rs, es)" "e \<in> set es" "x = (kv_key e, length (kv_value e))"
      using sh unfolding shows_node_def dumped_def by fastforce
    then have "M (kv_key e) = Some (kv_value e)" using rep unfolding represents_def by blast
    then show "x \<in> {(k, n). map_option length (M k) = Some n}" using c(3) by simp
  next
    fix x assume "x \<in> {(k, n). map_option length (M k) = Some n}"
    then obtain k v where kv: "x = (k, length v)" "M k = Some v" by auto
    then obtain q rs es e where c: "C q = Some (rs, es)" "e \<in> set es" "kv_key e = k" "kv_value e = v" using rep unfolding represents_def by blast
    have "leads_to s k q" using leaf_atD(8) [OF tree_invD(7) [OF inv c(1)] c(2)] c(3) by simp
    then obtain g l where g: "find_parent_from g s k ROOT_PAGE 0 = Some (fst q, snd q, l)" unfolding leads_from_def by blast
    have "C (fst q, snd q) = Some (rs, es)" using c(1) by simp
    with sh g have "set (dumped es) \<subseteq> set (key_lines ls)" unfolding shows_node_def by blast
    moreover have "x \<in> set (dumped es)" using c kv(1) by (force simp: dumped_def)
    ultimately show "x \<in> set (key_lines ls)" by blast
  qed
  show ?thesis
  proof (intro exI [of _ f] allI impI)
    fix fuel assume "f \<le> fuel"
    then obtain ls where ls: "debug_dump_recursive fuel s (set_msb ROOT_PAGE 1) 0 (- 1) = Some (Inr ls)" "shows_node s C ROOT_PAGE ls" using f by blast
    then show "\<exists>out. debug_dump fuel s = Some (Inr out) \<and> (\<forall>l\<in>set out. \<not> complaint l) \<and>
        set (key_lines out) = {(k, n). map_option length (M k) = Some n}"
      using lines [OF ls(2)] by (simp add: debug_dump_def shows_node_def)
  qed
qed

theorem debug_dump_lists_witness:
  "\<exists>s s' f out. DiskMap_format (\<lambda>_. zero_page) = Inr s \<and>
    write_at_node 9 ROOT_PAGE (get_bucket [98] 1) 0 [98] (Some (replicate 10000 7)) s = Some (Inr s') \<and>
    debug_dump f s' = Some (Inr out) \<and> set (key_lines out) = {([98], 10000)}"
proof -
  have k: "valid_key [98]" "length [98 :: byte] \<le> MAX_KEY_LENGTH" "entry_size [98] (length (replicate 10000 (7 :: byte))) \<le> 2 ^ 31 - 2 ^ 13"
    by (simp_all add: valid_key_def MAX_KEY_LENGTH_def entry_size_def)
  obtain s s' A where s: "DiskMap_format (\<lambda>_. zero_page) = Inr s" "map_rep s' A [[98] \<mapsto> replicate 10000 7]"
    "write_at_node 9 ROOT_PAGE (get_bucket [98] 1) 0 [98] (Some (replicate 10000 7)) s = Some (Inr s')"
    by (rule written_map [OF k])
  obtain f out where "debug_dump f s' = Some (Inr out)"
    "set (key_lines out) = {(k, n). map_option length ([[98] \<mapsto> replicate 10000 (7 :: byte)] k) = Some n}"
    using debug_dump_lists [OF s(2)] by blast
  moreover have "{(k, n). map_option length ([[98] \<mapsto> replicate 10000 (7 :: byte)] k) = Some n} = {([98], 10000)}"
    by (auto split: if_splits)
  ultimately show ?thesis using s(1,3) by metis
qed

end
