(* ===== verification/Map_Remove.thy ===== *)
theory Map_Remove
  imports Prelude Hashing Pages Space_Manager Leaf Big_Value Disk_Map Map_Invariant Map_Write Map_Subtree Map_Build Map_Split Map_Properties
begin

text \<open>
  \<open>remove\<close>: an entry taken out of a leaf, a leaf taken out of its node, and the node that goes when it has
  one child left, whose place that child takes.
\<close>

section \<open>The way to the leaf\<close>

text \<open>The node above, and the index of the entry in it; for the root there is none.\<close>

definition above :: "pages \<Rightarrow> nat set \<Rightarrow> nat \<Rightarrow> nat \<Rightarrow> int \<Rightarrow> bool" where
  "above s N p g gi \<longleftrightarrow> (\<exists>j<512. gi = int j \<and> g \<in> N \<and> get_msb (node_entry s g j) \<noteq> 0 \<and> clear_msb (node_entry s g j) = p)"

lemma remove_path_end:
  "find_parent_from f s key p0 l0 = Some (p, i, l) \<Longrightarrow> p0 \<in> N \<Longrightarrow> closed_nodes s N \<Longrightarrow>
   above s N p0 g0 gi0 \<or> (p0 = rt \<and> gi0 = - 1) \<Longrightarrow>
   \<exists>g gi. remove_path f s key g0 p0 gi0 (l0 + 1) = Some (if node_entry s p i = 0 then None else Some (g, p, i, gi)) \<and>
     (above s N p g gi \<or> (p = rt \<and> gi = - 1))"
proof (induction f arbitrary: p0 l0 g0 gi0)
  case (Suc f)
  define e0 where "e0 = get_bucket key (int l0 + 1)"
  have e0: "e0 < 512" "get_bucket key (1 + int l0) = e0" by (simp_all add: e0_def get_bucket_less add.commute)
  show ?case
  proof (cases "get_msb (node_entry s p0 e0) = 0")
    case True
    then have "p = p0" "i = e0" using Suc.prems(1) unfolding e0_def by (auto simp: Let_def)
    then show ?thesis using True Suc.prems(4) e0 by (auto simp: Let_def e0_def [symmetric])
  next
    case False
    then have nz: "node_entry s p0 e0 \<noteq> 0" using get_msb_0 by metis
    have f: "find_parent_from f s key (clear_msb (node_entry s p0 e0)) (l0 + 1) = Some (p, i, l)"
      using Suc.prems(1) False nz by (auto simp: Let_def e0_def [symmetric])
    have c: "clear_msb (node_entry s p0 e0) \<in> N" using False e0 Suc.prems(2,3) by (simp add: closed_nodes_def)
    have "above s N (clear_msb (node_entry s p0 e0)) p0 (int e0)" using e0 Suc.prems(2) False by (auto simp: above_def)
    from Suc.IH [OF f c Suc.prems(3) disjI1 [OF this]] False nz e0 show ?thesis
      by (auto simp: Let_def add.commute)
  qed
qed simp

lemma remove_path_parent:
  assumes inv: "tree_inv s A N C" and fp: "find_parent f s key = Some (p, i, l)" and ne: "node_entry s p i \<noteq> 0"
  obtains g gi where "remove_path f s key ROOT_PAGE ROOT_PAGE (- 1) 1 = Some (Some (g, p, i, gi))"
    "above s N p g gi \<or> (p = ROOT_PAGE \<and> gi = - 1)"
  using remove_path_end [of f s key ROOT_PAGE 0 p i l N ROOT_PAGE "- 1" ROOT_PAGE] fp ne tree_invD(2,4) [OF inv]
  by (auto simp: find_parent_def)

lemma remove_path_empty:
  assumes inv: "tree_inv s A N C" and fp: "find_parent f s key = Some (p, i, l)" and ne: "node_entry s p i = 0"
  shows "remove_path f s key ROOT_PAGE ROOT_PAGE (- 1) 1 = Some None"
  using remove_path_end [of f s key ROOT_PAGE 0 p i l N ROOT_PAGE "- 1" ROOT_PAGE] fp ne tree_invD(2,4) [OF inv]
  by (auto simp: find_parent_def)

section \<open>An entry of a leaf with several entries\<close>

lemma kv_map_without: "key \<notin> kv_key ` set (xs @ ys) \<Longrightarrow> kv_key e = key \<Longrightarrow> kv_map (xs @ ys) = (kv_map (xs @ e # ys))(key := None)"
  by (induction xs) (auto simp: kv_map_def map_of_eq_None_iff fun_upd_twist fun_eq_iff)

lemma map_at_removed:
  assumes "leads_from rt lv s key q" "\<And>k. leads_from rt lv s k q \<Longrightarrow> f k = (M(key := None)) k"
  shows "(\<lambda>k. if leads_from rt lv s k q then f k else M k) = M(key := None)"
  using assms by (intro ext) auto

lemma remove_from_leaf:
  assumes inv: "tree_inv s A N C" and rep: "represents C M" and q: "leads_to s key (p, i)" and c: "C (p, i) = Some ([x], es)"
    and h: "leaf_holds (s x) es" and e: "es = xs @ e # ys" "kv_key e = key" "xs @ ys \<noteq> []"
  obtains pg where "remove_entry x (length (encode_entries xs)) key s = Inr (s(x := pg))" "tree_inv (s(x := pg)) A N (C((p, i) \<mapsto> ([x], xs @ ys)))"
    "represents (C((p, i) \<mapsto> ([x], xs @ ys))) (M(key := None))" "kv_entry_count (s(x := pg)) = kv_entry_count s"
    "next_free_page (s(x := pg)) = next_free_page s"
proof -
  note l = leaf_atD [OF tree_invD(7) [OF inv c]]
  note st = leaf_ok_start [OF l(6) tree_invD(1) [OF inv] l(4), simplified]
  have few: "length es < 2 ^ 16" using l(6) by (auto simp: leaf_ok_def)
  obtain pg where pg: "remove_entry x (length (encode_entries xs)) (kv_key e) s = Inr (s(x := pg))" "leaf_holds pg (xs @ ys)"
    by (rule remove_entry_holds [of s x, OF h [unfolded e(1)] st(3) few [unfolded e(1)]])
  have keys: "distinct (map kv_key (xs @ ys))" "\<forall>e\<in>set (xs @ ys). leads_to s (kv_key e) (p, i)" "key \<notin> kv_key ` set (xs @ ys)"
    using l(7,8) e(1,2) by auto
  have fw: "length (xs @ ys) < 2 ^ 16" using few e(1) by simp
  note ch = change_leaf [OF inv c pg(2) e(3) fw keys(1,2)]
  have "represents (C((p, i) := Some ([x], xs @ ys))) (\<lambda>k. if leads_to s k (p, i) then (case Some ([x], xs @ ys) of None \<Rightarrow> None | Some (rs, es) \<Rightarrow> kv_map es k) else M k)"
    by (rule represents_update [OF inv rep]) (use l(1,2) keys in simp_all)
  also have "(\<lambda>k. if leads_to s k (p, i) then (case Some ([x], xs @ ys) of None \<Rightarrow> None | Some (rs, es) \<Rightarrow> kv_map es k) else M k) = M(key := None)"
    by (rule map_at_removed [OF q]) (use represents_at [OF inv rep] c kv_map_without [OF keys(3) e(2)] e(1) in simp)
  finally show thesis by (rule that [OF pg(1) [unfolded e(2)] ch(1) _ ch(3,2)])
qed

section \<open>A leaf with one entry\<close>

lemma remove_leaf_page:
  assumes inv: "tree_inv s A N C" and rep: "represents C M" and q: "leads_to s key (p, i)" and c: "C (p, i) = Some (rs, [e])"
    and k: "kv_key e = key" and room: "next_free_page s + 19 \<le> 2 ^ 52"
  obtains s1 where "free_leaf (rs ! 0) s = Inr s1" "tree_inv (set_entry p i 0 s1) (A - value_regions rs) N (C((p, i) := None))"
    "represents (C((p, i) := None)) (M(key := None))" "kv_entry_count (set_entry p i 0 s1) = kv_entry_count s"
    "next_free_page (set_entry p i 0 s1) \<le> next_free_page s + 19" "\<forall>p'\<in>N. \<forall>j<512. (p', j) \<noteq> (p, i) \<longrightarrow> node_entry (set_entry p i 0 s1) p' j = node_entry s p' j"
    "node_entry (set_entry p i 0 s1) p i = 0"
proof -
  note l = leaf_atD [OF tree_invD(7) [OF inv c], simplified]
  obtain s1 where s1: "free_leaf (rs ! 0) s = Inr s1" "space_ok s1 (A - value_regions rs)" "kept (A - value_regions rs) s s1"
    "next_free_page s1 \<le> next_free_page s + 19"
    by (rule free_leaf_ok [OF tree_invD(1) [OF inv] l(6,4) room])
  note in_tree = leads_to_in [OF inv q]
  define s2 where "s2 = set_entry p i 0 s1"
  have nodes: "p' = 1 \<or> (p', 0) \<in> A - value_regions rs" if "p' \<in> N" for p'
    using node_page(3) [OF inv that] l(5) that by blast
  have same: "s1 p' = s p'" if "p' \<in> N" for p' by (rule kept_page [OF s1(3) nodes [OF that]])
  have entry: "node_entry s2 p' j = (if (p', j) = (p, i) then 0 else node_entry s p' j)" if "p' \<in> N" for p' j
    using same [OF that] by (auto simp: s2_def node_entry_set) (simp_all add: node_entry_def)
  have rest: "value_regions rs' \<subseteq> A - value_regions rs" if "C q' = Some (rs', es')" "q' \<noteq> (p, i)" for q' rs' es'
    using leaf_atD(4) [OF tree_invD(7) [OF inv that(1)]] tree_invD(8) [OF inv that(1) c that(2)] by blast
  have "tree_inv s2 (A - value_regions rs) N (C((p, i) := None))"
  proof (rule tree_inv_update(1) [OF inv])
    show "fst (p, i) \<in> N" "snd (p, i) < 512" "get_msb (node_entry s (fst (p, i)) (snd (p, i))) = 0" using in_tree by simp_all
    show "space_ok s2 (A - value_regions rs)"
      unfolding s2_def set_entry_def
    proof (rule space_ok_write [OF s1(2)])
      show "p = 1 \<or> (\<exists>(x, k)\<in>A - value_regions rs. p \<in> region x k)"
        using nodes [OF in_tree(1)] by (elim disjE) (simp, intro disjI2 bexI [of _ "(p, 0)"], simp_all)
    qed
    show "(p', 0) \<in> A - value_regions rs" if "p' \<in> N" "p' \<noteq> ROOT_PAGE" for p' using nodes [OF that(1)] that(2) by (simp add: ROOT_PAGE_def)
    show "others_kept s s2 N C (p, i)"
      unfolding others_kept_def
    proof (intro conjI ballI allI impI)
      fix p' j assume "p' \<in> N" "(p', j) \<noteq> (p, i)"
      then show "node_entry s2 p' j = node_entry s p' j" using entry [of p' j] by (auto split: if_splits)
    next
      fix q' rs' es' y assume c': "C q' = Some (rs', es')" "q' \<noteq> (p, i)" "y \<in> value_regions rs'"
      have "s2 pg = s pg" if x: "(x, k) = y" "pg \<in> region x k" for x k pg
      proof -
        have xk: "(x, k) \<in> value_regions rs'" using c'(3) x(1) by simp
        have "pg \<noteq> p" by (rule leaf_not_node [OF inv c'(1) in_tree(1) xk x(2)])
        moreover have "s1 pg = s pg" by (rule keptD(3) [OF s1(3) subsetD [OF rest [OF c'(1,2)] xk] x(2)])
        ultimately show ?thesis by (simp add: s2_def)
      qed
      then show "case y of (x, k) \<Rightarrow> \<forall>p\<in>region x k. s2 p = s p" by (cases y) simp
    qed
    show "value_regions rs' \<subseteq> A - value_regions rs" if "C q' = Some (rs', es')" "q' \<noteq> (p, i)" for q' rs' es' by (rule rest [OF that])
  qed (use entry [OF in_tree(1)] in simp)
  moreover have "represents (C((p, i) := None)) (M(key := None))"
  proof -
    have "represents (C((p, i) := None)) (\<lambda>k. if leads_to s k (p, i) then None else M k)"
      using represents_update [OF inv rep, of "(p, i)" None] in_tree unfolding option.case by simp
    also have "(\<lambda>k. if leads_to s k (p, i) then None else M k) = M(key := None)"
      by (rule map_at_removed [OF q]) (use represents_at [OF inv rep] c k in \<open>auto simp: kv_map_def\<close>)
    finally show ?thesis .
  qed
  moreover have "p \<noteq> 0" by (rule node_page(2) [OF inv in_tree(1)])
  then have "kv_entry_count s2 = kv_entry_count s" "next_free_page s2 \<le> next_free_page s + 19"
    using keptD(2) [OF s1(3)] s1(4) by (simp_all add: s2_def kv_entry_count_def next_free_page_def)
  moreover have "\<forall>p'\<in>N. \<forall>j<512. (p', j) \<noteq> (p, i) \<longrightarrow> node_entry s2 p' j = node_entry s p' j"
    using entry by (intro ballI allI impI) (simp only: if_not_P if_False)
  ultimately show thesis using that s1(1) entry [OF in_tree(1)] unfolding s2_def by simp
qed

section \<open>The node with one child left\<close>

lemma entry_of_node:
  assumes "v < 2 ^ 64" "w < 2 ^ 64" "get_msb v \<noteq> 0" "get_msb w \<noteq> 0" "clear_msb v = clear_msb w"
  shows "v = w"
proof -
  have top: "u = clear_msb u + 2 ^ 63" if "u < 2 ^ 64" "get_msb u \<noteq> 0" for u
  proof -
    have u: "2 ^ 63 \<le> u" using that(2) by (simp add: get_msb_def split: if_splits)
    then have "u mod 2 ^ 63 = (u - 2 ^ 63) mod 2 ^ 63" by (rule le_mod_geq)
    also have "\<dots> = u - 2 ^ 63" by (rule mod_less) (use that(1) in simp)
    finally show ?thesis using u by (simp add: clear_msb_def)
  qed
  show ?thesis using top [OF assms(1,3)] top [OF assms(2,4)] assms(5) by simp
qed

lemma node_above:
  assumes inv: "tree_inv s A N C" and up: "g \<in> N" "gj < 512" "get_msb (node_entry s g gj) \<noteq> 0" "clear_msb (node_entry s g gj) = p"
  shows "p \<in> N" "g \<noteq> p" "p \<noteq> ROOT_PAGE" "C (g, gj) = None"
    "a \<in> N \<Longrightarrow> j < 512 \<Longrightarrow> get_msb (node_entry s a j) \<noteq> 0 \<Longrightarrow> clear_msb (node_entry s a j) = p \<Longrightarrow> a = g \<and> j = gj"
proof -
  show "p \<in> N" using tree_invD(4) [OF inv] up unfolding closed_nodes_def by blast
  obtain digits :: "nat \<Rightarrow> nat list" where d: "digits ROOT_PAGE = []"
    "\<forall>p\<in>N. \<forall>i<512. get_msb (node_entry s p i) \<noteq> 0 \<longrightarrow> digits (clear_msb (node_entry s p i)) = digits p @ [i]"
    using tree_invD(9) [OF inv] unfolding tree_shaped_def by blast
  have "digits p = digits g @ [gj]" using d(2) up by blast
  then show "g \<noteq> p" "p \<noteq> ROOT_PAGE" using d(1) by auto
  show "C (g, gj) = None"
  proof (rule ccontr)
    assume "C (g, gj) \<noteq> None"
    then obtain rs es where c: "C (g, gj) = Some (rs, es)" by auto
    note l = leaf_atD [OF tree_invD(7) [OF inv c]]
    show False using leaf_ok_start(5) [OF l(6) tree_invD(1) [OF inv] l(4)] l(3) up(3) by simp
  qed
  show "a = g \<and> j = gj" if "a \<in> N" "j < 512" "get_msb (node_entry s a j) \<noteq> 0" "clear_msb (node_entry s a j) = p"
  proof -
    have "node_entry s g gj = node_entry s a j"
      by (rule entry_of_node [OF _ _ up(3) that(3)]) (use that(4) up(4) get_u64_less in \<open>simp_all add: node_entry_def\<close>)
    moreover have "\<forall>p\<in>N. \<forall>p'\<in>N. \<forall>i<512. \<forall>j<512. get_msb (node_entry s p i) \<noteq> 0 \<longrightarrow> node_entry s p' j = node_entry s p i \<longrightarrow> p' = p \<and> j = i"
      using tree_invD(9) [OF inv] unfolding tree_shaped_def by (elim conjE)
    ultimately have "g = a \<and> gj = j" using that(1-3) up(1,2) by simp
    then show ?thesis by simp
  qed
qed

text \<open>The pages after the child has taken the place of the node.\<close>

definition collapsed :: "pages \<Rightarrow> nat set \<Rightarrow> nat \<Rightarrow> nat \<Rightarrow> nat \<Rightarrow> nat \<Rightarrow> pages \<Rightarrow> bool" where
  "collapsed s N p g gj v s' \<longleftrightarrow>
     (\<forall>a\<in>N - {p}. \<forall>j<512. node_entry s' a j = (if (a, j) = (g, gj) then v else node_entry s a j))"

lemma collapse_way:
  assumes inv: "tree_inv s A N C" and up: "g \<in> N" "gj < 512" "get_msb (node_entry s g gj) \<noteq> 0" "clear_msb (node_entry s g gj) = p"
    and leaves: "\<forall>j<512. get_msb (node_entry s p j) = 0" and v: "get_msb v = 0" and s': "collapsed s N p g gj v s'"
  shows "find_parent_from f s key a l = Some (q, i, m) \<Longrightarrow> a \<in> N - {p} \<Longrightarrow>
    \<exists>m'. find_parent_from f s' key a l = Some (if q = p then (g, gj, m') else (q, i, m'))"
proof (induction f arbitrary: a l)
  case (Suc f)
  note up' = node_above [OF inv up]
  define e0 where "e0 = get_bucket key (int l + 1)"
  have e0: "e0 < 512" by (simp add: e0_def get_bucket_less)
  have a: "a \<in> N" "a \<noteq> p" using Suc.prems(2) by simp_all
  have new: "node_entry s' a e0 = (if (a, e0) = (g, gj) then v else node_entry s a e0)"
    using s' Suc.prems(2) e0 unfolding collapsed_def by blast
  show ?case
  proof (cases "get_msb (node_entry s a e0) = 0")
    case True
    then have "(a, e0) \<noteq> (g, gj)" using up(3) by auto
    then have "node_entry s' a e0 = node_entry s a e0" using new by (auto split: if_splits)
    moreover have "q = a" "i = e0" using Suc.prems(1) True unfolding e0_def by (auto simp: Let_def)
    ultimately show ?thesis using True a by (simp add: Let_def e0_def [symmetric])
  next
    case False
    then have nz: "node_entry s a e0 \<noteq> 0" using get_msb_0 by metis
    have f: "find_parent_from f s key (clear_msb (node_entry s a e0)) (l + 1) = Some (q, i, m)"
      using Suc.prems(1) False nz by (auto simp: Let_def e0_def [symmetric])
    show ?thesis
    proof (cases "(a, e0) = (g, gj)")
      case True
      have "q = p"
        using f leaves get_bucket_less [of key] True up(4) by (cases f) (auto simp: Let_def)
      then show ?thesis using True new v by (auto simp: Let_def e0_def [symmetric])
    next
      case other: False
      have "clear_msb (node_entry s a e0) \<in> N - {p}"
        using up'(5) [OF a(1) e0 False] other tree_invD(4) [OF inv] a(1) e0 False by (auto simp: closed_nodes_def)
      from Suc.IH [OF f this] show ?thesis
        using other new False nz by (auto simp: Let_def e0_def [symmetric])
    qed
  qed
qed simp

lemma leaf_entry_nonzero:
  assumes "subtree rt lv s A N C" "C q = Some (rs, es)"
  shows "node_entry s (fst q) (snd q) \<noteq> 0" "get_msb (node_entry s (fst q) (snd q)) = 0" "rs ! 0 < 2 ^ 64"
proof -
  note l = leaf_atD [OF tree_invD(7) [OF assms]]
  note st = leaf_ok_start [OF l(6) tree_invD(1) [OF assms(1)] l(4)]
  show "node_entry s (fst q) (snd q) \<noteq> 0" "get_msb (node_entry s (fst q) (snd q)) = 0" using l(3) st(4,5) by simp_all
  show "rs ! 0 < 2 ^ 64" using st(3) by (simp add: page_ok_def)
qed

lemma collapse_leaves:
  assumes inv: "tree_inv s A N C" and up: "g \<in> N" "p \<in> N" and c: "C q = Some (rs, es)"
    and kp: "kept (A - {(p, 0)}) (set_entry g gj v s) s'"
  shows "value_regions rs \<subseteq> A - {(p, 0)}" "leaf_ok s' rs es"
proof -
  note l = leaf_atD [OF tree_invD(7) [OF inv c]]
  show sub: "value_regions rs \<subseteq> A - {(p, 0)}" using l(4,5) up(2) by blast
  show "leaf_ok s' rs es"
  proof (rule leaf_ok_cong [OF _ l(6)])
    fix d pg assume d: "d < length rs" "pg \<in> region (rs ! d) d"
    have x: "(rs ! d, d) \<in> value_regions rs" by (rule value_regionsI [OF d(1)])
    have "pg \<noteq> g" by (rule leaf_not_node [OF inv c up(1) x d(2)])
    then show "s' pg = s pg" using keptD(3) [OF kp subsetD [OF sub x] d(2)] by simp
  qed
qed

lemma kept_collapsed:
  assumes inv: "tree_inv s A N C" and v: "v < 2 ^ 64" and kp: "kept (A - {(p, 0)}) (set_entry g gj v s) s'"
  shows "collapsed s N p g gj v s'"
  unfolding collapsed_def
proof (intro ballI allI impI)
  fix a j assume a: "a \<in> N - {p}"
  then have "a = 1 \<or> (a, 0) \<in> A - {(p, 0)}" using node_page(3) [OF inv, of a] by blast
  from kept_page [OF kp this] have "node_entry s' a j = node_entry (set_entry g gj v s) a j" by (simp add: node_entry_def)
  then show "node_entry s' a j = (if (a, j) = (g, gj) then v else node_entry s a j)" using v by (simp add: node_entry_set)
qed

lemma collapse_tree:
  assumes inv: "tree_inv s A N C" and up: "g \<in> N" "gj < 512" "get_msb (node_entry s g gj) \<noteq> 0" "clear_msb (node_entry s g gj) = p"
    and one: "C (p, i2) = Some (rs, es)" "\<forall>j<512. j \<noteq> i2 \<longrightarrow> node_entry s p j = 0"
    and ok: "space_ok s' (A - {(p, 0)})" and kp: "kept (A - {(p, 0)}) (set_entry g gj (rs ! 0) s) s'"
  shows "tree_inv s' (A - {(p, 0)}) (N - {p}) (C((p, i2) := None, (g, gj) \<mapsto> (rs, es)))"
proof -
  define C' where "C' = C((p, i2) := None, (g, gj) \<mapsto> (rs, es))"
  define v where "v = rs ! 0"
  note up' = node_above [OF inv up]
  note lp = leaf_atD [OF tree_invD(7) [OF inv one(1)], simplified]
  note st = leaf_ok_start [OF lp(6) tree_invD(1) [OF inv] lp(4)]
  have v: "get_msb v = 0" "v < 2 ^ 64" using st(5) leaf_entry_nonzero(3) [OF inv one(1)] by (simp_all add: v_def)
  have leaves: "\<forall>j<512. get_msb (node_entry s p j) = 0"
    using one(2) leaf_entry_nonzero(2) [OF inv one(1)] by (metis fst_conv get_msb_0 snd_conv)
  have mem: "a = 1 \<or> (a, 0) \<in> A - {(p, 0)}" if "a \<in> N - {p}" for a using node_page(3) [OF inv, of a] that by blast
  have coll: "collapsed s N p g gj v s'" unfolding v_def by (rule kept_collapsed [OF inv v(2) [unfolded v_def] kp])
  have entry: "node_entry s' a j = (if (a, j) = (g, gj) then v else node_entry s a j)" if "a \<in> N - {p}" "j < 512" for a j
    using coll that unfolding collapsed_def by blast
  have root: "ROOT_PAGE \<in> N - {p}" using tree_invD(2) [OF inv] up'(3) by blast
  have leads: "leads_to s' key (if fst q = p then (g, gj) else q)" if way: "leads_to s key q" for key q
  proof -
    obtain f l where "find_parent_from f s key ROOT_PAGE 0 = Some (fst q, snd q, l)" using way by (auto simp: leads_from_def)
    from collapse_way [OF inv up leaves v(1) coll this root] show ?thesis unfolding leads_from_def by (cases "fst q = p") auto
  qed
  have other: "q = (p, i2)" if "C q = Some (rs', es')" "fst q = p" for q rs' es'
    using leaf_entry_nonzero(1) [OF inv that(1)] leaf_atD(2) [OF tree_invD(7) [OF inv that(1)]] one(2) that(2) by (cases q) auto
  have C': "(q = (g, gj) \<and> rs' = rs \<and> es' = es) \<or> (C q = Some (rs', es') \<and> q \<noteq> (p, i2) \<and> q \<noteq> (g, gj) \<and> fst q \<noteq> p)"
    if "C' q = Some (rs', es')" for q rs' es'
  proof (cases "q = (g, gj) \<or> q = (p, i2)")
    case True
    then show ?thesis using that up'(2) by (auto simp: C'_def)
  next
    case False
    then have "C q = Some (rs', es')" using that by (simp add: C'_def)
    then show ?thesis using False other by blast
  qed
  note cl = collapse_leaves [OF inv up(1) up'(1) _ kp]
  have at: "leaf_at ROOT_PAGE 0 s' (A - {(p, 0)}) (N - {p}) q rs' es'" if "C' q = Some (rs', es')" for q rs' es'
    using C' [OF that]
  proof (elim disjE conjE)
    assume q: "q = (g, gj)" "rs' = rs" "es' = es"
    have "leads_to s' (kv_key e) (g, gj)" if "e \<in> set es" for e using leads [OF lp(8) [OF that]] by simp
    then show ?thesis
      unfolding leaf_at_def q using up(1,2) up'(2) entry [of g gj] cl [OF one(1)] lp(5,7) by (auto simp: v_def)
  next
    assume q: "C q = Some (rs', es')" "q \<noteq> (p, i2)" "q \<noteq> (g, gj)" "fst q \<noteq> p"
    note l = leaf_atD [OF tree_invD(7) [OF inv q(1)]]
    have "leads_to s' (kv_key e) q" if "e \<in> set es'" for e using leads [OF l(8) [OF that]] q(4) by simp
    moreover have "node_entry s' (fst q) (snd q) = rs' ! 0"
      using entry [of "fst q" "snd q"] l(1-3) q(3,4) by (auto simp: prod_eq_iff)
    ultimately show ?thesis
      unfolding leaf_at_def using l(1,2,5,7) q(4) cl [OF q(1)] by blast
  qed
  have node: "a \<in> N" "a \<noteq> p" "(a, j) \<noteq> (g, gj)" "node_entry s' a j = node_entry s a j" "get_msb (node_entry s a j) \<noteq> 0"
    if "a \<in> N - {p}" "get_msb (node_entry s' a j) \<noteq> 0" "j < 512" for a j
  proof -
    show "a \<in> N" "a \<noteq> p" using that(1) by blast+
    show n: "(a, j) \<noteq> (g, gj)" using entry [OF that(1,3)] that(2) v(1) by metis
    show e: "node_entry s' a j = node_entry s a j" unfolding entry [OF that(1,3)] if_not_P [OF n] ..
    show "get_msb (node_entry s a j) \<noteq> 0" using that(2) e by simp
  qed
  have "tree_inv s' (A - {(p, 0)}) (N - {p}) C'"
    unfolding subtree_def
  proof (intro conjI allI ballI impI)
    show "space_ok s' (A - {(p, 0)})" by (rule ok)
    show "ROOT_PAGE \<in> N - {p}" by (rule root)
    show "a = ROOT_PAGE \<or> (a, 0) \<in> A - {(p, 0)}" if "a \<in> N - {p}" for a using mem [OF that] by (simp add: ROOT_PAGE_def)
    show "closed_nodes s' (N - {p})"
      unfolding closed_nodes_def
    proof (intro ballI allI impI)
      fix a j assume a: "a \<in> N - {p}" "j < (512::nat)" "get_msb (node_entry s' a j) \<noteq> 0"
      note n = node [OF a(1,3,2)]
      have "clear_msb (node_entry s a j) \<in> N" using tree_invD(4) [OF inv] n(1,5) a(2) unfolding closed_nodes_def by blast
      moreover have "clear_msb (node_entry s a j) \<noteq> p" using up'(5) [OF n(1) a(2) n(5)] n(3) by blast
      ultimately show "clear_msb (node_entry s' a j) \<in> N - {p}" unfolding n(4) by blast
    qed
    show "\<exists>q. leads_to s' key q" for key using tree_invD(5) [OF inv, of key] leads by blast
    show "leaf_at ROOT_PAGE 0 s' (A - {(p, 0)}) (N - {p}) q rs' es'" if "C' q = Some (rs', es')" for q rs' es' by (rule at [OF that])
  next
    fix a j assume a: "a \<in> N - {p}" "j < (512::nat)" "get_msb (node_entry s' a j) = 0" "C' (a, j) = None"
    have n: "(a, j) \<noteq> (g, gj)" using a(4) by (auto simp: C'_def)
    have e: "node_entry s' a j = node_entry s a j" unfolding entry [OF a(1,2)] if_not_P [OF n] ..
    have "C (a, j) = None" using a(1,4) n by (auto simp: C'_def split: if_splits)
    then show "node_entry s' a j = 0" using tree_invD(6) [OF inv _ a(2)] a(1,3) e by simp
  next
    fix q q' rs1 es1 rs2 es2 assume a: "C' q = Some (rs1, es1)" "C' q' = Some (rs2, es2)" "q \<noteq> q'"
    note d = tree_invD(8) [OF inv]
    show "value_regions rs1 \<inter> value_regions rs2 = {}"
      using C' [OF a(1)] C' [OF a(2)] d [OF one(1), of q' rs2 es2] d [OF _ one(1), of q rs1 es1] d [of q rs1 es1 q' rs2 es2] a(3) by blast
  next
    obtain digits :: "nat \<Rightarrow> nat list" where dg: "digits ROOT_PAGE = []"
      "\<forall>p\<in>N. \<forall>i<512. get_msb (node_entry s p i) \<noteq> 0 \<longrightarrow> digits (clear_msb (node_entry s p i)) = digits p @ [i]"
      using tree_invD(9) [OF inv] unfolding tree_shaped_def by blast
    have tw: "\<forall>p\<in>N. \<forall>p'\<in>N. \<forall>i<512. \<forall>j<512. get_msb (node_entry s p i) \<noteq> 0 \<longrightarrow> node_entry s p' j = node_entry s p i \<longrightarrow> p' = p \<and> j = i"
      using tree_invD(9) [OF inv] unfolding tree_shaped_def by (elim conjE)
    show "tree_shaped s' (N - {p}) ROOT_PAGE"
      unfolding tree_shaped_def
    proof (intro conjI ballI allI impI exI [of _ digits])
      show "digits ROOT_PAGE = []" by (rule dg(1))
      fix a i assume a: "a \<in> N - {p}" "i < (512::nat)" "get_msb (node_entry s' a i) \<noteq> 0"
      note n = node [OF a(1,3,2)]
      show "digits (clear_msb (node_entry s' a i)) = digits a @ [i]" unfolding n(4) using dg(2) n(1,5) a(2) by blast
    next
      fix a b i j assume a: "a \<in> N - {p}" "b \<in> N - {p}" "i < (512::nat)" "j < (512::nat)" "get_msb (node_entry s' a i) \<noteq> 0"
        "node_entry s' b j = node_entry s' a i"
      note n = node [OF a(1,5,3)] node [OF a(2), of j, unfolded a(6), OF a(5,4)]
      have "b = a \<and> j = i" using tw n(1,4,5,6,9) a(3,4,6) by simp
      then show "b = a" "j = i" by simp_all
    qed
  qed
  then show ?thesis by (simp only: C'_def)
qed

lemma collapse_represents:
  assumes "represents C M" "C (p, i2) = Some (rs, es)" "C (g, gj) = None"
  shows "represents (C((p, i2) := None, (g, gj) \<mapsto> (rs, es))) M"
proof -
  have ne: "(p, i2) \<noteq> (g, gj)" using assms(2,3) by auto
  have "contents (C((p, i2) := None, (g, gj) \<mapsto> (rs, es))) = contents (C((p, i2) := None)) \<union> set es"
    using assms(3) ne contents_upd [of "C((p, i2) := None)" "(g, gj)" rs es] by (simp add: fun_upd_idem)
  also have "\<dots> = contents C" using contents_upd [of C "(p, i2)" rs es] assms(2) by (simp add: fun_upd_idem)
  finally show ?thesis using assms(1) unfolding represents_contents by simp
qed

lemma collapse_run:
  assumes inv: "tree_inv s A N C" and up: "g \<in> N" "gj < 512" "get_msb (node_entry s g gj) \<noteq> 0" "clear_msb (node_entry s g gj) = p"
    and v: "v < 2 ^ 64" and room: "next_free_page s + 1 \<le> 2 ^ 52"
  obtains s' where "put_node_entry g gj v s = Inr (set_entry g gj v s)" "SpaceManager_free p 0 (set_entry g gj v s) = Inr s'"
    "space_ok s' (A - {(p, 0)})" "kept (A - {(p, 0)}) (set_entry g gj v s) s'" "collapsed s N p g gj v s'"
    "kv_entry_count s' = kv_entry_count s" "next_free_page s' \<le> next_free_page s + 1"
proof -
  define s1 where "s1 = set_entry g gj v s"
  note up' = node_above [OF inv up]
  note gp = node_page [OF inv up(1)]
  have ok: "space_ok s1 A"
    unfolding s1_def set_entry_def
    by (rule space_ok_write [OF tree_invD(1) [OF inv]]) (use gp(3) in \<open>elim disjE, simp, intro disjI2 bexI [of _ "(g, 0)"], simp_all\<close>)
  have same: "kv_entry_count s1 = kv_entry_count s" "next_free_page s1 = next_free_page s"
    using gp(2) by (simp_all add: s1_def kv_entry_count_def next_free_page_def)
  have "(p, 0) \<in> A" using tree_invD(3) [OF inv up'(1)] up'(3) by blast
  then obtain s' where s': "SpaceManager_free p 0 s1 = Inr s'" "freed 0 A s1 p s'"
    by (rule free_ok [OF ok]) (use room same in simp)
  then have f: "space_ok s' (A - {(p, 0)})" "kept (A - {(p, 0)}) s1 s'" "next_free_page s' \<le> next_free_page s + 1"
    using same by (simp_all add: freed_def)
  note coll = kept_collapsed [OF inv v f(2) [unfolded s1_def]]
  show thesis
    by (rule that [OF put_node_entry_ok [OF gp(1) up(2)] s'(1) [unfolded s1_def] f(1) f(2) [unfolded s1_def] coll _ f(3)])
      (use keptD(2) [OF f(2)] same in simp)
qed

lemma collapse_node:
  assumes inv: "tree_inv s A N C" and up: "g \<in> N" "gj < 512" "get_msb (node_entry s g gj) \<noteq> 0" "clear_msb (node_entry s g gj) = p"
    and one: "C (p, i2) = Some (rs, es)" "\<forall>j<512. j \<noteq> i2 \<longrightarrow> node_entry s p j = 0" and room: "next_free_page s + 1 \<le> 2 ^ 52"
  obtains s' where "put_node_entry g gj (rs ! 0) s = Inr (set_entry g gj (rs ! 0) s)" "SpaceManager_free p 0 (set_entry g gj (rs ! 0) s) = Inr s'"
    "tree_inv s' (A - {(p, 0)}) (N - {p}) (C((p, i2) := None, (g, gj) \<mapsto> (rs, es)))"
    "kv_entry_count s' = kv_entry_count s" "next_free_page s' \<le> next_free_page s + 1"
proof -
  obtain s' where s': "put_node_entry g gj (rs ! 0) s = Inr (set_entry g gj (rs ! 0) s)" "SpaceManager_free p 0 (set_entry g gj (rs ! 0) s) = Inr s'"
    "space_ok s' (A - {(p, 0)})" "kept (A - {(p, 0)}) (set_entry g gj (rs ! 0) s) s'" "collapsed s N p g gj (rs ! 0) s'"
    "kv_entry_count s' = kv_entry_count s" "next_free_page s' \<le> next_free_page s + 1"
    by (rule collapse_run [OF inv up leaf_entry_nonzero(3) [OF inv one(1)] room])
  show thesis by (rule that [OF s'(1,2) collapse_tree [OF inv up one s'(3,4)] s'(6,7)])
qed

section \<open>Counting the children\<close>

lemma count_siblings_none:
  "\<forall>j\<in>set js. node_entry s p j = 0 \<Longrightarrow> count_siblings s p js acc = acc"
  by (induction js) (cases acc, simp_all)+

lemma count_siblings_split:
  assumes "\<forall>j\<in>set js. node_entry s p j = 0"
  shows "count_siblings s p (js @ is) acc = count_siblings s p is acc"
  using assms by (induction js) (cases acc, simp_all)+

lemma count_siblings_one:
  assumes "i < 512" "node_entry s p i \<noteq> 0" "\<forall>j<512. j \<noteq> i \<longrightarrow> node_entry s p j = 0"
  shows "count_siblings s p [0..<512] (0, 0) = (1, node_entry s p i)"
proof -
  have "[0..<512] = [0..<i] @ [i..<512]" using upt_add_eq_append [of 0 i "512 - i"] assms(1) by simp
  also have "[i..<512] = i # [Suc i..<512]" using assms(1) by (rule upt_conv_Cons)
  finally have e: "[0..<512] = [0..<i] @ i # [Suc i..<512]" .
  have "count_siblings s p [0..<512] (0, 0) = count_siblings s p (i # [Suc i..<512]) (0, 0)"
    unfolding e by (rule count_siblings_split) (use assms(1,3) in simp)
  also have "\<dots> = count_siblings s p [Suc i..<512] (1, node_entry s p i)" using assms(2) by simp
  also have "\<dots> = (1, node_entry s p i)" by (rule count_siblings_none) (use assms(3) in simp)
  finally show ?thesis .
qed

lemma count_siblings_up:
  "n \<le> fst (count_siblings s p js (n, v))"
proof (induction js arbitrary: n v)
  case (Cons j js)
  then show ?case using Cons.IH [of "Suc n"] Suc_leD by auto
qed simp

lemma count_siblings_many:
  assumes "i < 512" "j < 512" "i < j" "node_entry s p i \<noteq> 0" "node_entry s p j \<noteq> 0"
  shows "fst (count_siblings s p [0..<512] (0, 0)) \<noteq> 1"
proof -
  have two: "2 \<le> fst (count_siblings s p js (1, v))" if "j \<in> set js" for js v
    using that
  proof (induction js arbitrary: v)
    case (Cons x js)
    then show ?case using assms(5) by auto
  qed simp
  have one: "2 \<le> fst (count_siblings s p (xs @ i # ys) (0, v))" if "j \<in> set ys" for xs ys v
  proof (induction xs arbitrary: v)
    case Nil
    then show ?case using assms(4) two [OF that] by simp
  next
    case (Cons x xs)
    then show ?case using two [of "xs @ i # ys"] that by simp
  qed
  have "[0..<512] = [0..<i] @ [i..<512]" using upt_add_eq_append [of 0 i "512 - i"] assms(1) by simp
  also have "[i..<512] = i # [Suc i..<512]" using assms(1) by (rule upt_conv_Cons)
  finally show ?thesis using one [of "[Suc i..<512]" "[0..<i]" 0] assms(2,3) by simp
qed

text \<open>The loop finds exactly one child if there is exactly one, and then which it is.\<close>

lemma count_siblings_lone:
  assumes "fst (count_siblings s p [0..<512] (0, 0)) = 1"
  obtains i where "i < 512" "node_entry s p i \<noteq> 0" "\<forall>j<512. j \<noteq> i \<longrightarrow> node_entry s p j = 0"
proof -
  have "\<exists>i<512. node_entry s p i \<noteq> 0"
  proof (rule ccontr)
    assume "\<not> (\<exists>i<512. node_entry s p i \<noteq> 0)"
    then have "count_siblings s p [0..<512] (0, 0) = (0, 0)" by (intro count_siblings_none) simp
    then show False using assms by simp
  qed
  then obtain i where i: "i < 512" "node_entry s p i \<noteq> 0" by blast
  have "node_entry s p j = 0" if "j < 512" "j \<noteq> i" for j
    using count_siblings_many [of i j s p] count_siblings_many [of j i s p] assms i that by (cases i j rule: linorder_cases) auto
  then show thesis using that i by blast
qed

section \<open>Removing\<close>

text \<open>Apart from the entry \<open>i\<close>, the node has just one child, which is an internal node.\<close>

definition lone_subtree :: "pages \<Rightarrow> nat \<Rightarrow> nat \<Rightarrow> bool" where
  "lone_subtree s p i \<longleftrightarrow> (\<exists>j<512. j \<noteq> i \<and> get_msb (node_entry s p j) \<noteq> 0 \<and> (\<forall>j'<512. j' \<noteq> i \<longrightarrow> j' \<noteq> j \<longrightarrow> node_entry s p j' = 0))"

definition removed :: "pages \<Rightarrow> (byte list \<rightharpoonup> byte list) \<Rightarrow> pages \<Rightarrow> bool" where
  "removed s M s' \<longleftrightarrow> (\<exists>A N C. tree_inv s' A N C \<and> represents C M) \<and> kv_entry_count s' = kv_entry_count s \<and>
     next_free_page s' \<le> next_free_page s + 20"

lemma remove_leaf_ok:
  assumes inv: "tree_inv s A N C" and rep: "represents C M" and q: "leads_to s key (p, i)" and c: "C (p, i) = Some (rs, [e])"
    and k: "kv_key e = key" and room: "next_free_page s + 20 \<le> 2 ^ 52"
    and up: "above s N p g gi \<or> (p = ROOT_PAGE \<and> gi = - 1)" and lone: "p = ROOT_PAGE \<or> \<not> lone_subtree s p i"
  obtains s' where "remove_leaf g p i gi (rs ! 0) s = Inr s'" "removed s (M(key := None)) s'"
proof -
  note result = that
  note in_tree = leads_to_in [OF inv q]
  obtain s1 where s1: "free_leaf (rs ! 0) s = Inr s1" "tree_inv (set_entry p i 0 s1) (A - value_regions rs) N (C((p, i) := None))"
    "represents (C((p, i) := None)) (M(key := None))" "kv_entry_count (set_entry p i 0 s1) = kv_entry_count s"
    "next_free_page (set_entry p i 0 s1) \<le> next_free_page s + 19"
    "\<forall>p'\<in>N. \<forall>j<512. (p', j) \<noteq> (p, i) \<longrightarrow> node_entry (set_entry p i 0 s1) p' j = node_entry s p' j"
    "node_entry (set_entry p i 0 s1) p i = 0"
    by (rule remove_leaf_page [OF inv rep q c k]) (use room in simp)
  define s2 where "s2 = set_entry p i 0 s1"
  have put: "put_node_entry p i 0 s1 = Inr s2"
    unfolding s2_def by (rule put_node_entry_ok [OF node_page(1) [OF inv in_tree(1)] in_tree(2)])
  note inv2 = s1(2) [folded s2_def]
  note frame = s1(6) [folded s2_def]
  have stay: thesis if "remove_leaf g p i gi (rs ! 0) s = Inr s2"
    by (rule result [OF that]) (use s1(3-5) inv2 in \<open>auto simp: removed_def s2_def [symmetric]\<close>)
  define cs where "cs = count_siblings s2 p [0..<512] (0, 0)"
  have run: "remove_leaf g p i gi (rs ! 0) s = (if gi = - 1 then Inr s2 else if fst cs = 1
      then bindR (put_node_entry g (nat gi) (snd cs) s2) (SpaceManager_free p 0) else Inr s2)"
    unfolding remove_leaf_def s1(1) put bindR_simps cs_def [symmetric] by (simp only: split_def Let_def)
  show thesis
  proof (cases "gi = - 1 \<or> fst cs \<noteq> 1")
    case True
    then have "remove_leaf g p i gi (rs ! 0) s = Inr s2" using run by auto
    then show thesis by (rule stay)
  next
    case False
    then obtain gj where g: "gi = int gj" "g \<in> N" "gj < 512" "get_msb (node_entry s g gj) \<noteq> 0" "clear_msb (node_entry s g gj) = p"
      using up by (auto simp: above_def)
    have gp: "(g, gj) \<noteq> (p, i)" using g(4) in_tree(3) by auto
    have e2: "node_entry s2 g gj = node_entry s g gj" by (rule frame [rule_format, OF g(2,3) gp])
    obtain i2 where i2: "i2 < 512" "node_entry s2 p i2 \<noteq> 0" "\<forall>j<512. j \<noteq> i2 \<longrightarrow> node_entry s2 p j = 0"
      by (rule count_siblings_lone [of s2 p]) (use False in \<open>simp only: cs_def de_Morgan_disj not_not\<close>)
    have i2i: "i2 \<noteq> i" using i2(2) s1(7) by (auto simp: s2_def)
    have same: "node_entry s2 p j = node_entry s p j" if "j < 512" "j \<noteq> i" for j
      by (rule frame [rule_format, OF in_tree(1) that(1)]) (use that(2) in simp)
    have "p \<noteq> ROOT_PAGE" by (rule node_above(3) [OF inv g(2-5)])
    then have no: "\<not> lone_subtree s p i" using lone by blast
    have "get_msb (node_entry s p i2) = 0"
    proof (rule ccontr)
      assume m: "get_msb (node_entry s p i2) \<noteq> 0"
      have "node_entry s p j = 0" if "j < 512" "j \<noteq> i" "j \<noteq> i2" for j using same [OF that(1,2)] i2(3) that(1,3) by simp
      then have "lone_subtree s p i" unfolding lone_subtree_def using i2(1) i2i m by blast
      then show False using no by blast
    qed
    then have m0: "get_msb (node_entry s2 p i2) = 0" using same [OF i2(1) i2i] by simp
    then have "(C((p, i) := None)) (p, i2) \<noteq> None" using tree_invD(6) [OF inv2 in_tree(1) i2(1)] i2(2) by blast
    then obtain rs2 es2 where c2: "(C((p, i) := None)) (p, i2) = Some (rs2, es2)" by auto
    have v: "node_entry s2 p i2 = rs2 ! 0" using leaf_atD(3) [OF tree_invD(7) [OF inv2 c2]] by simp
    have r2: "next_free_page s2 + 1 \<le> 2 ^ 52" using s1(5) room by (simp add: s2_def)
    obtain s' where s': "put_node_entry g gj (rs2 ! 0) s2 = Inr (set_entry g gj (rs2 ! 0) s2)"
      "SpaceManager_free p 0 (set_entry g gj (rs2 ! 0) s2) = Inr s'"
      "tree_inv s' (A - value_regions rs - {(p, 0)}) (N - {p}) (C((p, i) := None, (p, i2) := None, (g, gj) \<mapsto> (rs2, es2)))"
      "kv_entry_count s' = kv_entry_count s2" "next_free_page s' \<le> next_free_page s2 + 1"
      by (rule collapse_node [OF inv2 g(2,3) _ _ c2 i2(3) r2]) (use e2 g(4,5) in simp_all)
    have cg: "(C((p, i) := None)) (g, gj) = None"
      by (rule node_above(4) [OF inv2 g(2,3)]) (use e2 g(4) in simp_all)
    note rep2 = collapse_represents [OF s1(3) c2 cg]
    have "cs = (1, rs2 ! 0)" unfolding cs_def v [symmetric] by (rule count_siblings_one [OF i2])
    then have "remove_leaf g p i gi (rs ! 0) s = Inr s'" using run s'(1,2) g(1) by simp
    moreover have "removed s (M(key := None)) s'"
      unfolding removed_def
    proof (intro conjI)
      show "\<exists>A N C. tree_inv s' A N C \<and> represents C (M(key := None))" using s'(3) rep2 by blast
      show "kv_entry_count s' = kv_entry_count s" "next_free_page s' \<le> next_free_page s + 20" using s'(4,5) s1(4,5) by (simp_all add: s2_def)
    qed
    ultimately show thesis by (rule that)
  qed
qed

definition remove_at :: "nat \<Rightarrow> nat \<Rightarrow> nat \<Rightarrow> int \<Rightarrow> byte list \<Rightarrow> pages \<Rightarrow> (bool \<times> pages) result" where
  "remove_at g p i gi key s =
     bindR (find_entry_in_leaf (s (node_entry s p i)) key) (\<lambda>entry_offset.
       if entry_offset = - 1 then Inr (False, s)
       else bindR (if leaf_entry_count (s (node_entry s p i)) = 1 then remove_leaf g p i gi (node_entry s p i) s
                   else remove_entry (node_entry s p i) (nat entry_offset) key s) (\<lambda>s.
         Inr (True, upd_u64 0 8 ((kv_entry_count s + 2 ^ 64 - 1) mod 2 ^ 64) s)))"

lemma remove_impl_at:
  assumes "remove_path fuel s key ROOT_PAGE ROOT_PAGE (- 1) 1 = Some (Some (g, p, i, gi))"
  shows "remove_impl fuel key s = Some (remove_at g p i gi key s)"
proof -
  have "put_kv_entry_count v s = Inr (upd_u64 0 8 v s)" for v s by (simp add: put_meta_defs put_upd)
  then show ?thesis unfolding remove_impl_def remove_at_def assms by (simp add: Let_def cong: if_cong)
qed

lemma remove_found:
  assumes inv: "tree_inv s A N C" and rep: "represents C M" and k: "valid_key key" and q: "leads_to s key (p, i)"
    and room: "next_free_page s + 20 \<le> 2 ^ 52" and up: "above s N p g gi \<or> (p = ROOT_PAGE \<and> gi = - 1)"
    and lone: "p = ROOT_PAGE \<or> leaf_entry_count (s (node_entry s p i)) \<noteq> 1 \<or> \<not> lone_subtree s p i" and M: "M key = Some v"
  obtains s' where "remove_at g p i gi key s = Inr (True, upd_u64 0 8 ((kv_entry_count s' + 2 ^ 64 - 1) mod 2 ^ 64) s')"
    "removed s (M(key := None)) s'"
proof -
  note result = that
  note Mk = represents_at [OF inv rep q]
  have k0: "0 \<notin> set key" using k by (simp add: valid_key_def)
  obtain rs es where c: "C (p, i) = Some (rs, es)" using Mk M by (cases "C (p, i)") auto
  note l = leaf_atD [OF tree_invD(7) [OF inv c], simplified]
  have Me: "kv_map es key = Some v" using Mk c M by simp
  have leaf: thesis if e: "es = [e]" "kv_key e = key" and f: "find_entry_in_leaf (s (rs ! 0)) key = Inr off" "off \<noteq> - 1"
    "leaf_entry_count (s (rs ! 0)) = 1" for e off
  proof -
    have "p = ROOT_PAGE \<or> \<not> lone_subtree s p i" using lone f(3) l(3) by simp
    then obtain s' where "remove_leaf g p i gi (rs ! 0) s = Inr s'" "removed s (M(key := None)) s'"
      by (rule remove_leaf_ok [OF inv rep q c [unfolded e(1)] e(2) room up])
    then show thesis using result f l(3) by (simp add: remove_at_def)
  qed
  show thesis
    using l(6) unfolding leaf_ok_def
  proof (elim disjE exE conjE)
    fix x assume x: "rs = [x]" "leaf_holds (s x) es" "length es < 2 ^ 16"
    have "key \<in> kv_key ` set es" using Me kv_map_None by (metis option.distinct(1))
    then obtain m where m: "offset_of key es = Some m" using offset_of_None by fastforce
    then obtain xs e ys where e: "es = xs @ e # ys" "kv_key e = key" "m = length (encode_entries xs)" using offset_of_Some by metis
    have f: "find_entry_in_leaf (s x) key = Inr (int m)" "leaf_entry_count (s x) = length es"
      using find_entry_holds [OF x(2) k0] m x(2) by (simp_all add: leaf_holds_def)
    show thesis
    proof (cases "xs @ ys = []")
      case True
      then show thesis using leaf [of e "int m"] e(1,2) f x(1) by simp
    next
      case False
      then have many: "leaf_entry_count (s x) \<noteq> 1" using f(2) e(1) by (cases xs; cases ys) simp_all
      have cx: "C (p, i) = Some ([x], es)" using c x(1) by simp
      obtain pg where pg: "remove_entry x (length (encode_entries xs)) key s = Inr (s(x := pg))"
        "tree_inv (s(x := pg)) A N (C((p, i) \<mapsto> ([x], xs @ ys)))" "represents (C((p, i) \<mapsto> ([x], xs @ ys))) (M(key := None))"
        "kv_entry_count (s(x := pg)) = kv_entry_count s" "next_free_page (s(x := pg)) = next_free_page s"
        by (rule remove_from_leaf [OF inv rep q cx x(2) e(1,2) False])
      have "removed s (M(key := None)) (s(x := pg))" using pg(2-5) unfolding removed_def by (metis le_add1)
      then show thesis using that [of "s(x := pg)"] f(1) many pg(1) l(3) e(3) x(1) by (simp add: remove_at_def)
    qed
  next
    fix e assume e: "es = [e]" "big_leaf s rs e"
    have "kv_key e = key" using Me e(1) by (simp add: kv_map_def split: if_splits)
    moreover have "find_entry_in_leaf (s (rs ! 0)) key = Inr 0" using find_big_leaf [OF e(2) k0] calculation by simp
    moreover have "leaf_entry_count (s (rs ! 0)) = 1" using e(2) by (simp add: big_leaf_def)
    ultimately show thesis using leaf [of e 0] e(1) by simp
  qed
qed

lemma remove_absent:
  assumes inv: "tree_inv s A N C" and rep: "represents C M" and k: "valid_key key" and q: "leads_to s key (p, i)"
    and c: "C (p, i) \<noteq> None" and M: "M key = None"
  shows "remove_at g p i gi key s = Inr (False, s)"
proof -
  have k0: "0 \<notin> set key" using k by (simp add: valid_key_def)
  obtain rs es where c: "C (p, i) = Some (rs, es)" using c by auto
  note l = leaf_atD [OF tree_invD(7) [OF inv c], simplified]
  have n: "key \<notin> kv_key ` set es" using represents_at [OF inv rep q] c M kv_map_None by (metis option.case(2) prod.case)
  have "find_entry_in_leaf (s (rs ! 0)) key = Inr (- 1)"
    using l(6) unfolding leaf_ok_def
  proof (elim disjE exE conjE)
    fix x assume x: "rs = [x]" "leaf_holds (s x) es"
    then show ?thesis using find_entry_holds [OF x(2) k0] n offset_of_None [of key es] by simp
  next
    fix e assume e: "es = [e]" "big_leaf s rs e"
    then show ?thesis using find_big_leaf [OF e(2) k0] n by auto
  qed
  then show ?thesis using l(3) by (simp add: remove_at_def)
qed

lemma map_remove_step:
  assumes rep: "map_rep s A M" and k: "valid_key key" and room: "next_free_page s + 20 \<le> 2 ^ 52"
    and fp: "find_parent fuel s key = Some (p, i, l)"
    and lone: "M key = None \<or> p = ROOT_PAGE \<or> leaf_entry_count (s (node_entry s p i)) \<noteq> 1 \<or> \<not> lone_subtree s p i"
  obtains s' A' where "remove_impl fuel key s = Some (Inr (M key \<noteq> None, s'))" "map_rep s' A' (M(key := None))"
    "next_free_page s' \<le> next_free_page s + 20"
proof -
  obtain N C where inv: "tree_inv s A N C" and repC: "represents C M" and fin: "finite (dom M)" and count: "kv_entry_count s = card (dom M) mod 2 ^ 64"
    and lens: "\<forall>k\<in>dom M. length k \<le> MAX_KEY_LENGTH"
    using rep by (auto simp: map_rep_def)
  have q: "leads_to s key (p, i)" using fp unfolding leads_from_def find_parent_def by auto
  note in_tree = leads_to_in [OF inv q]
  show thesis
  proof (cases "M key")
    case None
    have same: "M(key := None) = M" using None by (simp add: fun_upd_idem)
    have "remove_impl fuel key s = Some (Inr (False, s))"
    proof (cases "C (p, i)")
      case n: None
      then have "node_entry s p i = 0" using tree_invD(6) [OF inv in_tree] by simp
      from remove_path_empty [OF inv fp this] show ?thesis by (simp add: remove_impl_def)
    next
      case (Some re)
      then have c: "C (p, i) \<noteq> None" by simp
      then obtain rs es where "C (p, i) = Some (rs, es)" by auto
      note ne = leaf_entry_nonzero(1) [OF inv this, unfolded fst_conv snd_conv]
      obtain g gi where "remove_path fuel s key ROOT_PAGE ROOT_PAGE (- 1) 1 = Some (Some (g, p, i, gi))"
        by (rule remove_path_parent [OF inv fp ne])
      from remove_impl_at [OF this] remove_absent [OF inv repC k q c None] show ?thesis by simp
    qed
    then show thesis using that [of s A] rep None same by simp
  next
    case (Some v)
    obtain rs es where "C (p, i) = Some (rs, es)" using represents_at [OF inv repC q] Some by (cases "C (p, i)") auto
    note ne = leaf_entry_nonzero(1) [OF inv this, unfolded fst_conv snd_conv]
    obtain g gi where way: "remove_path fuel s key ROOT_PAGE ROOT_PAGE (- 1) 1 = Some (Some (g, p, i, gi))"
      "above s N p g gi \<or> (p = ROOT_PAGE \<and> gi = - 1)"
      by (rule remove_path_parent [OF inv fp ne])
    have lone': "p = ROOT_PAGE \<or> leaf_entry_count (s (node_entry s p i)) \<noteq> 1 \<or> \<not> lone_subtree s p i" using lone Some by simp
    obtain s' where s': "remove_at g p i gi key s = Inr (True, upd_u64 0 8 ((kv_entry_count s' + 2 ^ 64 - 1) mod 2 ^ 64) s')"
      "removed s (M(key := None)) s'"
      by (rule remove_found [OF inv repC k q room way(2) lone' Some])
    obtain A' N' C' where t: "tree_inv s' A' N' C'" "represents C' (M(key := None))" "kv_entry_count s' = kv_entry_count s"
      "next_free_page s' \<le> next_free_page s + 20" using s'(2) unfolding removed_def by blast
    define s2 where "s2 = upd_u64 0 8 ((kv_entry_count s' + 2 ^ 64 - 1) mod 2 ^ 64) s'"
    note cnt = space_ok_count [OF tree_invD(1) [OF t(1)], of "(kv_entry_count s' + 2 ^ 64 - 1) mod 2 ^ 64", folded s2_def]
    have "key \<in> dom M" using Some by blast
    then obtain n where n: "card (dom M) = Suc n" "card (dom (M(key := None))) = n"
      using fin by (metis card_Suc_Diff1 dom_fun_upd)
    have "kv_entry_count s' = Suc n mod 2 ^ 64" unfolding t(3) count n(1) ..
    then have "kv_entry_count s2 = (Suc n mod 2 ^ 64 + 2 ^ 64 - 1) mod 2 ^ 64" using cnt(3) by (simp only: mod_mod_trivial)
    also have "Suc n mod 2 ^ 64 + 2 ^ 64 - 1 = Suc n mod 2 ^ 64 + (2 ^ 64 - 1)" by (rule diff_add_assoc) simp
    also have "(Suc n mod 2 ^ 64 + (2 ^ 64 - 1)) mod 2 ^ 64 = (Suc n + (2 ^ 64 - 1)) mod 2 ^ 64" by (rule mod_add_left_eq)
    also have "Suc n + (2 ^ 64 - 1) = n + 2 ^ 64" by simp
    finally have "kv_entry_count s2 = n mod 2 ^ 64" by simp
    moreover have "tree_inv s2 A' N' C'" unfolding s2_def by (rule tree_inv_count [OF t(1)])
    ultimately have "map_rep s2 A' (M(key := None))"
      unfolding map_rep_def using t(2) fin lens n(2) by auto
    then show thesis
      using that [of s2 A'] remove_impl_at [OF way(1)] s'(1) cnt(2) t(4) Some by (simp add: s2_def)
  qed
qed

text \<open>C4: Removing a key ends, with the fuel for the way to its leaf, answers whether the key was there, and the
  map is then without it: an entry taken out of its leaf, a leaf of one or several regions freed, and a node
  with one leaf left replaced by that leaf.  It does not cover the last leaf of a node whose only other child
  is an internal node (\<open>remove_loses_subtree\<close>).\<close>

theorem map_removes:
  assumes "map_rep s A M" "valid_key key" "next_free_page s + 20 \<le> 2 ^ 52" "find_parent f s key = Some (p, i, l)" "f \<le> fuel"
    "M key = None \<or> p = ROOT_PAGE \<or> leaf_entry_count (s (node_entry s p i)) \<noteq> 1 \<or> \<not> lone_subtree s p i"
  shows "\<exists>s' A'. DiskMap_remove fuel key \<lparr>dm_pages = s, op_count = n\<rparr> =
      Some (Inr (M key \<noteq> None, \<lparr>dm_pages = s', op_count = (n + 1) mod 2 ^ 64\<rparr>)) \<and> map_rep s' A' (M(key := None)) \<and>
    next_free_page s' \<le> next_free_page s + 20"
proof -
  have fp: "find_parent fuel s key = Some (p, i, l)"
    using find_parent_mono [OF assms(4) [unfolded find_parent_def] assms(5)] by (simp add: find_parent_def)
  obtain s' A' where "remove_impl fuel key s = Some (Inr (M key \<noteq> None, s'))" "map_rep s' A' (M(key := None))"
    "next_free_page s' \<le> next_free_page s + 20"
    by (rule map_remove_step [OF assms(1-3) fp assms(6)])
  then show ?thesis by (auto simp: DiskMap_remove_def count_op_def)
qed

theorem map_removes_witness:
  "\<exists>s s1 s2 A f. DiskMap_format (\<lambda>_. zero_page) = Inr s \<and>
    write_at_node 9 ROOT_PAGE (get_bucket [97] 1) 0 [97] (Some (replicate 10000 7)) s = Some (Inr s1) \<and>
    DiskMap_remove f [97] \<lparr>dm_pages = s1, op_count = 1\<rparr> = Some (Inr (True, \<lparr>dm_pages = s2, op_count = 2\<rparr>)) \<and> map_rep s2 A Map.empty"
proof -
  define k b :: "byte list" where "k = [97]" and "b = replicate 10000 7"
  have k: "valid_key k" "length k \<le> MAX_KEY_LENGTH" "length k = 1" "length b = 10000" by (simp_all add: k_def b_def valid_key_def MAX_KEY_LENGTH_def)
  obtain s where s: "DiskMap_format (\<lambda>_. zero_page) = Inr s" "map_rep s {} Map.empty" "next_free_page s = 41" "is_zero (s ROOT_PAGE)"
    by (rule new_map [of "\<lambda>_. zero_page"]) simp_all
  note f = new_map_parent [of s, OF s(4)]
  obtain N C where "tree_inv s {} N C" using s(2) by (auto simp: map_rep_def)
  then have inv: "tree_inv s {} {ROOT_PAGE} (\<lambda>_. None)" by (intro empty_tree s(4)) (rule tree_invD(1))
  have q: "leads_to s k (ROOT_PAGE, get_bucket k 1)" unfolding leads_to_def using f(1) by auto
  have repr: "represents (\<lambda>_. None) Map.empty" by (simp add: represents_def)
  obtain s1 A1 C1 where w: "write_at_node (Suc 8) ROOT_PAGE (get_bucket k 1) 0 k (Some b) s = Some (Inr s1)" "tree_inv s1 A1 {ROOT_PAGE} C1"
    "next_free_page s1 \<le> next_free_page s + page_cost (entry_size k (length b))"
    by (rule write_to_empty [OF inv repr k(1,2) q, of b 8 0]) (use s(3) k in \<open>simp_all add: entry_size_def\<close>)
  obtain s1' A' where w': "write_at_node 9 ROOT_PAGE (get_bucket k 1) 0 k (Some b) s = Some (Inr s1')" "map_rep s1' A' [k \<mapsto> b]"
    by (rule map_write_step [OF s(2) k(1,2) _ _ _ f(1), of b 9]) (use f(2) s(3) k in \<open>simp_all add: entry_size_def\<close>)
  have same: "s1' = s1" using w(1) w'(1) by simp
  obtain g p i l where fp: "find_parent g s1 k = Some (p, i, l)"
    using tree_invD(5) [OF w(2), of k] unfolding leads_from_def find_parent_def by (metis prod.collapse)
  then have "leads_to s1 k (p, i)" unfolding leads_from_def find_parent_def by auto
  then have p: "p = ROOT_PAGE" using leads_to_in(1) [OF w(2)] by simp
  have n: "next_free_page s1 + 20 \<le> 2 ^ 52" using w(3) s(3) by (simp add: page_cost_def split: if_splits)
  obtain s2 A2 where r: "DiskMap_remove g k \<lparr>dm_pages = s1, op_count = 1\<rparr> = Some (Inr ([k \<mapsto> b] k \<noteq> None, \<lparr>dm_pages = s2, op_count = (1 + 1) mod 2 ^ 64\<rparr>))"
    "map_rep s2 A2 ([k \<mapsto> b](k := None))"
    using map_removes [OF w'(2) [unfolded same] k(1) n fp order_refl, of 1] p by blast
  have "[k \<mapsto> b](k := None) = Map.empty" by auto
  then show ?thesis
    using s(1) w'(1) [unfolded same] r unfolding k_def b_def by (intro exI [of _ s] exI [of _ s1] exI [of _ s2] exI [of _ A2] exI [of _ g]) simp
qed

end
