(* ===== verification/Map_Part.thy ===== *)
theory Map_Part
  imports Prelude Hashing Pages Space_Manager Leaf Big_Value Disk_Map Map_Invariant Map_Write Map_Subtree Map_Build Map_Split Map_Properties
begin

text \<open>
  \<open>write_part\<close> and \<open>append\<close>: values changed in place, in leaves with one entry, whose regions grow with the
  value; values spliced together and written anew; absent keys.
\<close>

section \<open>Leaves with one entry\<close>

text \<open>Leaves of one page and of several regions in the same terms.\<close>

definition lone_leaf :: "pages \<Rightarrow> nat list \<Rightarrow> byte list \<Rightarrow> byte list \<Rightarrow> bool" where
  "lone_leaf s rs key v \<longleftrightarrow> regions s rs \<and> entry_starts (s (rs ! 0)) DATA key (length v) \<and>
     leaf_entry_count (s (rs ! 0)) = 1 \<and> leaf_usage (s (rs ! 0)) = entry_size key (length v) \<and>
     length v \<le> base (length key + 1 + 8) (length rs) \<and>
     (\<forall>j<length v. value_byte s (length key + 1 + 8) rs j = v ! j) \<and>
     (length rs = 1 \<longrightarrow> (\<forall>j<base (length key + 1 + 8) 1. length v \<le> j \<longrightarrow> value_byte s (length key + 1 + 8) rs j = 0)) \<and>
     (length rs \<noteq> 1 \<longrightarrow> leaf_capacity < entry_size key (length v))"

lemma lone_leafD:
  assumes "lone_leaf s rs key v"
  shows "regions s rs" "entry_starts (s (rs ! 0)) DATA key (length v)" "leaf_entry_count (s (rs ! 0)) = 1"
    "leaf_usage (s (rs ! 0)) = entry_size key (length v)" "length v \<le> base (length key + 1 + 8) (length rs)"
    "j < length v \<Longrightarrow> value_byte s (length key + 1 + 8) rs j = v ! j"
    "length rs = 1 \<Longrightarrow> j < base (length key + 1 + 8) 1 \<Longrightarrow> length v \<le> j \<Longrightarrow> value_byte s (length key + 1 + 8) rs j = 0"
    "length rs \<noteq> 1 \<Longrightarrow> leaf_capacity < entry_size key (length v)"
  using assms unfolding lone_leaf_def by blast+

lemma one_page_byte: "j < base voff 1 \<Longrightarrow> DATA + voff < PAGE_SIZE \<Longrightarrow> value_byte s voff [x] j = s x (DATA + voff + j)"
  using addr_at [of 0 "[x]" j voff] by (simp add: value_byte_def room_in_def header_def)

lemma lone_leaf_iff:
  assumes ok: "space_ok s A" "value_regions rs \<subseteq> A" and k: "length (kv_key e) \<le> MAX_KEY_LENGTH"
  shows "leaf_ok s rs [e] \<longleftrightarrow> lone_leaf s rs (kv_key e) (kv_value e)"
proof -
  define key v voff where "key = kv_key e" and "v = kv_value e" and "voff = length key + 1 + 8"
  have vo: "DATA + voff < PAGE_SIZE" unfolding voff_def key_def by (rule key_room [OF k])
  have cap: "base voff 1 + voff = leaf_capacity" using vo by (simp add: room_in_def header_def leaf_capacity_def)
  have small: "leaf_holds (s x) [e] \<longleftrightarrow> lone_leaf s [x] key v" if x: "rs = [x]" for x
  proof
    assume h: "leaf_holds (s x) [e]"
    have enc: "holds_at (s x) DATA (encode_entry key v @ zeros (leaf_capacity - entry_size key (length v)))"
      and hd: "leaf_usage (s x) = entry_size key (length v)" "leaf_entry_count (s x) = 1" "leaf_next (s x) = 0" "valid_key key"
      using h by (simp_all add: leaf_holds_def key_def v_def entry_size_def)
    have fits: "entry_size key (length v) \<le> leaf_capacity" using leaf_holds_bound [OF h] by (simp add: key_def v_def entry_size_def)
    have rg: "regions s [x]"
      using regions_of_space [OF ok] hd(3) x by (simp add: linked_def next_region_start_def)
    have parts: "holds_at (s x) (DATA + voff) v" "holds_at (s x) (DATA + voff + length v) (zeros (leaf_capacity - entry_size key (length v)))"
      using holds_at_entry [OF enc] by (simp_all add: voff_def ac_simps)
    have es: "entry_size key (length v) = voff + length v" by (simp add: entry_size_def voff_def)
    have vb: "s x (DATA + voff + j) = v ! j" if "j < length v" for j using parts(1) that by (simp add: holds_at_def add.assoc)
    have zb: "s x (DATA + voff + j) = 0" if j: "length v \<le> j" "j < base voff 1" for j
    proof -
      have "j - length v < leaf_capacity - entry_size key (length v)" using j cap es by linarith
      then have "s x (DATA + voff + length v + (j - length v)) = 0" using parts(2) unfolding holds_at_def by (simp add: zeros_def)
      then show ?thesis using j(1) by (simp add: add.assoc)
    qed
    show "lone_leaf s [x] key v"
      unfolding lone_leaf_def voff_def [symmetric]
      using rg entry_starts_encoded [OF enc hd(4)] hd(1,2) fits es cap vb zb one_page_byte [OF _ vo]
      by (simp del: base_simps)
  next
    assume h: "lone_leaf s [x] key v"
    note d = lone_leafD [OF h, folded voff_def, simplified]
    have es: "entry_size key (length v) = voff + length v" by (simp add: entry_size_def voff_def)
    have len: "length v \<le> base voff 1" using d(5) by simp
    have st: "holds_at (s x) DATA (key @ [0] @ le_bytes 8 (length v))" "valid_key key" using d(2) by (auto simp: entry_starts_def valid_key_def)
    have b: "s x (DATA + voff + j) = (if j < length v then v ! j else 0)" if "j < base voff 1" for j
      using d(6) [of j] d(7) [of j] one_page_byte [OF that vo, of s x] that by (cases "j < length v") simp_all
    have tail: "holds_at (s x) (DATA + voff) (v @ zeros (leaf_capacity - entry_size key (length v)))"
      unfolding holds_at_def
    proof (intro conjI allI impI)
      show "DATA + voff + length (v @ zeros (leaf_capacity - entry_size key (length v))) \<le> PAGE_SIZE"
        using len cap es vo by (simp add: data_capacity zeros_def del: base_simps)
      fix j assume "j < length (v @ zeros (leaf_capacity - entry_size key (length v)))"
      then have "j < base voff 1" using len cap es by (simp add: zeros_def del: base_simps)
      from b [OF this] show "s x (DATA + voff + j) = (v @ zeros (leaf_capacity - entry_size key (length v))) ! j"
        using \<open>j < length (v @ _)\<close> by (simp add: nth_append zeros_def)
    qed
    have "holds_at (s x) DATA ((key @ [0] @ le_bytes 8 (length v)) @ v @ zeros (leaf_capacity - entry_size key (length v)))"
      unfolding holds_at_append [of _ DATA "key @ [0] @ le_bytes 8 (length v)"] using st(1) tail by (simp add: voff_def ac_simps)
    moreover have "leaf_next (s x) = 0" using regionsD(5) [OF d(1), of 0] by (simp add: next_region_start_def)
    ultimately show "leaf_holds (s x) [e]"
      using d(3,4) st(2) es by (simp add: leaf_holds_def encode_entry_def key_def v_def voff_def entry_size_def ac_simps)
  qed
  show ?thesis
  proof (cases "length rs = 1")
    case True
    then obtain x where x: "rs = [x]" by (auto simp: length_Suc_conv)
    then show ?thesis using small [OF x] by (auto simp: leaf_ok_def big_leaf_def key_def v_def)
  next
    case False
    have "leaf_ok s rs [e] \<longleftrightarrow> big_leaf s rs e" using False by (auto simp: leaf_ok_def)
    also have "\<dots> \<longleftrightarrow> lone_leaf s rs key v"
    proof
      assume "big_leaf s rs e"
      then show "lone_leaf s rs key v" using False unfolding big_leaf_def lone_leaf_def key_def v_def by simp
    next
      assume h: "lone_leaf s rs key v"
      note d = lone_leafD [OF h]
      have "2 \<le> length rs" using regionsD(1) [OF d(1)] False by (cases rs; cases "tl rs") auto
      moreover have "valid_key key" using d(2) by (simp add: entry_starts_def valid_key_def)
      ultimately show "big_leaf s rs e" using d(1-6,8) False k unfolding big_leaf_def key_def v_def by simp
    qed
    finally show ?thesis by (simp only: key_def v_def)
  qed
qed

section \<open>The length in front of a value\<close>

text \<open>The pages with a new length of the value and a new usage of the leaf.\<close>

definition put_lengths :: "nat \<Rightarrow> nat \<Rightarrow> nat \<Rightarrow> nat \<Rightarrow> pages \<Rightarrow> pages" where
  "put_lengths x off n u s = s(x := blit (blit (s x) (DATA + off) (le_bytes 8 n)) 8 (le_bytes 8 u))"

lemma put_lengths_ok:
  assumes "page_ok x" "off + 8 \<le> leaf_capacity"
  shows "bindR (put_leaf_data x off (le_bytes 8 n) s) (\<lambda>s. put_leaf_usage x u s) = Inr (put_lengths x off n u s)"
  using assms by (simp add: put_leaf_ok put_lengths_def)

lemma put_lengths_bytes:
  "b \<noteq> x \<Longrightarrow> put_lengths x off n u s b = s b"
  "(b < 8 \<or> 16 \<le> b) \<Longrightarrow> (b < DATA + off \<or> DATA + off + 8 \<le> b) \<Longrightarrow> put_lengths x off n u s x b = s x b"
  by (auto simp: put_lengths_def blit_def)

lemma put_lengths_leaf:
  assumes rs: "regions s rs" and es: "entry_starts (s (rs ! 0)) DATA key m" and n: "n < 2 ^ 64" "u < 2 ^ 64"
    and v: "DATA + (length key + 1 + 8) < PAGE_SIZE"
  defines "s' \<equiv> put_lengths (rs ! 0) (length key + 1) n u s"
  shows "regions s' rs" "entry_starts (s' (rs ! 0)) DATA key n" "leaf_entry_count (s' (rs ! 0)) = leaf_entry_count (s (rs ! 0))"
    "leaf_usage (s' (rs ! 0)) = u"
    "j < base (length key + 1 + 8) (length rs) \<Longrightarrow> value_byte s' (length key + 1 + 8) rs j = value_byte s (length key + 1 + 8) rs j"
proof -
  have pg: "s' (rs ! 0) = blit (blit (s (rs ! 0)) (DATA + (length key + 1)) (le_bytes 8 n)) 8 (le_bytes 8 u)"
    by (simp add: s'_def put_lengths_def)
  have h: "holds_at (s (rs ! 0)) DATA ((key @ [0]) @ le_bytes 8 m @ [])" and k: "key \<noteq> []" "0 \<notin> set key"
    using es by (simp_all add: entry_starts_def)
  have "holds_at (blit (s (rs ! 0)) (DATA + length (key @ [0])) (le_bytes 8 n)) DATA ((key @ [0]) @ le_bytes 8 n @ [])"
    by (rule holds_at_overwrite [OF h]) simp
  then show "entry_starts (s' (rs ! 0)) DATA key n" using k n by (simp add: entry_starts_def pg)
  show "leaf_entry_count (s' (rs ! 0)) = leaf_entry_count (s (rs ! 0))" "leaf_usage (s' (rs ! 0)) = u" using n by (simp_all add: pg)
  have "8 \<le> DATA + (length key + 1)" by (simp add: DATA_def)
  then show "regions s' rs"
    using regions_blit [OF regions_blit [OF rs, of "DATA + (length key + 1)" "rs ! 0" "le_bytes 8 n"], of 8 "rs ! 0" "le_bytes 8 u"]
    by (simp add: s'_def put_lengths_def)
  assume j: "j < base (length key + 1 + 8) (length rs)"
  then obtain d i where "d < length rs" "i < room_in (length key + 1 + 8) d" "j = base (length key + 1 + 8) d + i" using region_of_byte by blast
  then obtain f b where a: "addr (length key + 1 + 8) rs j = Some (f, b)" using addr_at by blast
  have "s' f b = s f b"
  proof (cases "f = rs ! 0")
    case True
    have "DATA + (length key + 1 + 8) \<le> b" by (rule addr_first_page [OF rs a [unfolded True] v j])
    then show ?thesis using put_lengths_bytes(2) [of b "length key + 1" "rs ! 0" n u s] True by (simp add: s'_def DATA_def)
  qed (simp add: s'_def put_lengths_bytes(1))
  then show "value_byte s' (length key + 1 + 8) rs j = value_byte s (length key + 1 + 8) rs j" using a by (simp add: value_byte_def)
qed

lemma first_bytes_same:
  assumes "\<And>b. 8 \<le> b \<Longrightarrow> b < DATA + m \<Longrightarrow> pg' b = pg b"
  shows "leaf_usage pg' = leaf_usage pg" "leaf_entry_count pg' = leaf_entry_count pg"
    "length key + 1 + 8 \<le> m \<Longrightarrow> entry_starts pg' DATA key n \<longleftrightarrow> entry_starts pg DATA key n"
proof -
  have "pg' b = pg b" if "8 \<le> b" "b < 18" for b using assms [of b] that by (simp add: DATA_def)
  then show "leaf_usage pg' = leaf_usage pg" "leaf_entry_count pg' = leaf_entry_count pg"
    by (simp_all add: leaf_usage_def leaf_entry_count_def get_u64_def get_u16_def bytes_at_def cong: map_cong)
  assume "length key + 1 + 8 \<le> m"
  then have "holds_at pg' DATA (key @ [0] @ le_bytes 8 n) \<longleftrightarrow> holds_at pg DATA (key @ [0] @ le_bytes 8 n)"
    unfolding holds_at_def using assms by (auto simp: DATA_def)
  then show "entry_starts pg' DATA key n \<longleftrightarrow> entry_starts pg DATA key n" by (simp add: entry_starts_def)
qed

section \<open>Bytes spliced into a value\<close>

definition overlay :: "byte list \<Rightarrow> nat \<Rightarrow> byte list \<Rightarrow> byte list" where
  "overlay v off b = take off v @ b @ drop (off + length b) v"

lemma length_overlay: "off \<le> length v \<Longrightarrow> length (overlay v off b) = max (length v) (off + length b)"
  by (simp add: overlay_def)

lemma nth_overlay:
  "off \<le> length v \<Longrightarrow> j < max (length v) (off + length b) \<Longrightarrow>
   overlay v off b ! j = (if off \<le> j \<and> j < off + length b then b ! (j - off) else v ! j)"
  by (auto simp: overlay_def nth_append)

section \<open>Values changed in place\<close>

text \<open>What \<open>write_part\<close> does to a leaf with one entry.\<close>

definition grow_value :: "nat \<Rightarrow> byte list \<Rightarrow> nat \<Rightarrow> nat \<Rightarrow> byte list \<Rightarrow> pages \<Rightarrow> pages result" where
  "grow_value leaf key existing_length off bs s =
     (let new_length = max existing_length (off + length bs) in
      bindR (BigValue_write leaf (length key + 1 + 8) off bs s) (\<lambda>s.
        if new_length \<noteq> existing_length then
          bindR (put_leaf_data leaf (length key + 1) (le_bytes 8 new_length) s) (\<lambda>s.
            put_leaf_usage leaf (nat ((int (leaf_usage (s leaf)) + int new_length - int existing_length) mod 2 ^ 64)) s)
        else Inr s))"

lemma lone_leaf_grows:
  assumes lf: "lone_leaf s rs key v" and ok: "space_ok s A" and sub: "value_regions rs \<subseteq> A" and k: "length key \<le> MAX_KEY_LENGTH"
    and off: "off \<le> length v" and bs: "bs \<noteq> []" and size: "entry_size key (off + length bs) \<le> base 0 19"
    and room: "next_free_page s + 2 ^ 19 \<le> 2 ^ 52"
  obtains zs s' where "grow_value (rs ! 0) key (length v) off bs s = Inr s'" "lone_leaf s' (rs @ zs) key (overlay v off bs)"
    "space_ok s' (A \<union> value_regions (rs @ zs))" "value_regions (rs @ zs) \<inter> A = value_regions rs"
    "\<And>x k p. (x, k) \<in> A \<Longrightarrow> (x, k) \<notin> value_regions rs \<Longrightarrow> p \<in> region x k \<Longrightarrow> s' p = s p"
    "s' 1 = s 1" "kv_entry_count s' = kv_entry_count s" "next_free_page s' \<le> next_free_page s + 2 ^ 19"
proof -
  define voff n where "voff = length key + 1 + 8" and "n = max (length v) (off + length bs)"
  note d = lone_leafD [OF lf, folded voff_def]
  have vo: "DATA + voff < PAGE_SIZE" unfolding voff_def by (rule key_room [OF k])
  have "voff + off + length bs \<le> base 0 19" using size by (simp add: entry_size_def voff_def del: base_simps)
  then obtain zs s1 where w: "BigValue_write (rs ! 0) voff off bs s = Inr s1" "big_written voff rs A off bs s zs s1"
    "next_free_page s1 \<le> next_free_page s + 2 ^ 19" "voff + off + length bs \<le> base 0 (length rs) \<longrightarrow> zs = []"
    by (rule big_write_grow [OF d(1) ok sub vo _ bs room])
  note wd = big_writtenD [OF w(2)]
  have first: "(rs @ zs) ! 0 = rs ! 0" by (rule regions_nth_0 [OF d(1)])
  have l: "length rs \<noteq> 0" using regionsD(1) [OF d(1)] by simp
  have same: "s1 (rs ! 0) b = s (rs ! 0) b" if "8 \<le> b" "b < DATA + voff" for b using wd(9) that .
  note fb = first_bytes_same [of voff "s1 (rs ! 0)" "s (rs ! 0)", OF same]
  have es1: "entry_starts (s1 ((rs @ zs) ! 0)) DATA key (length v)" and c1: "leaf_entry_count (s1 (rs ! 0)) = 1"
    and u1: "leaf_usage (s1 (rs ! 0)) = entry_size key (length v)"
    using fb d(2-4) first by (simp_all add: voff_def)
  have small: "base voff (length rs) \<le> 2 ^ 31" "base 0 19 \<le> 2 ^ 31"
    using capacity_bound [of voff "length rs"] capacity_bound [of 0 19] power_increasing [of "length rs" 19 "2 :: nat"] regionsD(2) [OF d(1)]
    by (simp_all add: PAGE_SIZE_def del: base_simps)
  have len: "length (overlay v off bs) = n" by (simp add: n_def length_overlay off)
  have bound: "n < 2 ^ 64" "entry_size key n < 2 ^ 64"
    using small d(5) size k by (auto simp: n_def entry_size_def MAX_KEY_LENGTH_def max_def simp del: base_simps)
  define s' where "s' = (if n = length v then s1 else put_lengths (rs ! 0) (length key + 1) n (entry_size key n) s1)"
  have s': "regions s' (rs @ zs)" "entry_starts (s' (rs ! 0)) DATA key n" "leaf_entry_count (s' (rs ! 0)) = 1"
    "leaf_usage (s' (rs ! 0)) = entry_size key n"
    "\<And>j. j < base voff (length (rs @ zs)) \<Longrightarrow> value_byte s' voff (rs @ zs) j = value_byte s1 voff (rs @ zs) j"
    using put_lengths_leaf [OF wd(1) es1 bound vo [unfolded voff_def]] wd(1) es1 c1 u1 first
    by (auto simp: s'_def voff_def simp del: base_simps)
  have elsewhere: "s' p = s1 p" if "p \<noteq> rs ! 0" for p using that by (simp add: s'_def put_lengths_bytes)
  have mine: "(rs ! 0, 0) \<in> value_regions rs" using value_regionsI [of 0 rs] l by simp
  have pok: "page_ok (rs ! 0)" "rs ! 0 \<noteq> 0" "rs ! 0 \<noteq> 1" using space_okD(1) [OF ok, of "rs ! 0" 0] space_okD(2) [OF ok] sub mine by auto
  have run: "grow_value (rs ! 0) key (length v) off bs s = Inr s'"
  proof (cases "n = length v")
    case True
    then show ?thesis using w(1) unfolding grow_value_def Let_def n_def [symmetric] by (simp add: s'_def voff_def)
  next
    case False
    have usage: "nat ((int (leaf_usage (s1 (rs ! 0))) + int n - int (length v)) mod 2 ^ 64) = entry_size key n"
      using bound(2) by (simp add: u1 entry_size_def n_def)
    have "length key + 1 + 8 \<le> leaf_capacity" using k by (simp add: MAX_KEY_LENGTH_def data_capacity)
    note put = put_lengths_ok [OF pok(1) this, of n s1 "entry_size key n"]
    have "bindR (put_leaf_data (rs ! 0) (length key + 1) (le_bytes 8 n) s1) (\<lambda>s. put_leaf_usage (rs ! 0)
        (nat ((int (leaf_usage (s (rs ! 0))) + int n - int (length v)) mod 2 ^ 64)) s) = Inr s'"
      using put usage pok(1) k False by (simp add: put_leaf_ok s'_def MAX_KEY_LENGTH_def data_capacity DATA_def)
    then show ?thesis using w(1) False unfolding grow_value_def Let_def n_def [symmetric] voff_def [symmetric] by simp
  qed
  have val: "value_byte s1 voff (rs @ zs) j = overlay v off bs ! j" if j: "j < n" for j
  proof (cases "off \<le> j \<and> j < off + length bs")
    case True
    then show ?thesis using wd(3) wd(4) [of j] nth_overlay [OF off, of j bs] j by (simp add: n_def)
  next
    case False
    then have "j < length v" using j off by (auto simp: n_def)
    then show ?thesis using wd(5) [OF _ False] d(5,6) nth_overlay [OF off, of j bs] j by (simp add: n_def if_not_P [OF False] del: base_simps de_Morgan_conj)
  qed
  have cap: "n \<le> base voff (length (rs @ zs))"
    using d(5) wd(3) base_mono [of "length rs" "length (rs @ zs)" voff] by (simp add: n_def del: base_simps)
  have lone: "lone_leaf s' (rs @ zs) key (overlay v off bs)"
    unfolding lone_leaf_def voff_def [symmetric] len first
  proof (intro conjI)
    show "\<forall>j<n. value_byte s' voff (rs @ zs) j = overlay v off bs ! j" using s'(5) val cap by simp
    show "length (rs @ zs) = 1 \<longrightarrow> (\<forall>j<base voff 1. n \<le> j \<longrightarrow> value_byte s' voff (rs @ zs) j = 0)"
    proof (intro impI allI)
      fix j assume one: "length (rs @ zs) = 1" and j: "j < base voff 1" "n \<le> j"
      have "length rs = 1" "zs = []" using one l by (cases rs; simp)+
      then show "value_byte s' voff (rs @ zs) j = 0"
        using s'(5) [of j] wd(5) [of j] d(7) [of j] j by (simp add: n_def del: base_simps)
    qed
    show "length (rs @ zs) \<noteq> 1 \<longrightarrow> leaf_capacity < entry_size key n"
    proof
      assume more: "length (rs @ zs) \<noteq> 1"
      show "leaf_capacity < entry_size key n"
      proof (cases "length rs = 1")
        case True
        then have "base 0 1 < voff + off + length bs" using more w(4) by auto
        then show ?thesis by (simp add: n_def voff_def entry_size_def room_in_def header_def leaf_capacity_def)
      qed (use d(8) in \<open>simp add: n_def entry_size_def\<close>)
    qed
  qed (use s' cap in simp_all)
  have "space_ok s' (A \<union> value_regions (rs @ zs))"
  proof (rule space_ok_pages [OF wd(2)])
    fix p assume "s' p \<noteq> s1 p"
    then have "p = rs ! 0" using elsewhere by metis
    then show "p = 1 \<or> (\<exists>(x, k)\<in>A \<union> value_regions (rs @ zs). p \<in> region x k)" using mine sub by force
  qed
  moreover have "s' p = s p" if a: "(x, j) \<in> A" "(x, j) \<notin> value_regions rs" "p \<in> region x j" for x j p
  proof -
    have "p \<noteq> rs ! 0" using space_okD(4) [OF ok a(1), of "rs ! 0" 0] sub mine a by (metis disjoint_iff region_start subsetD)
    then show ?thesis using elsewhere wd(8) [OF a] by simp
  qed
  moreover have "s' 0 = s1 0" "s' 1 = s1 1" using elsewhere pok by metis+
  ultimately show thesis using that [OF run lone] wd(6,7,10) w(3) by (simp add: kv_entry_count_def next_free_page_def)
qed

lemma grow_in_tree:
  assumes inv: "tree_inv s A N C" and rep: "represents C M" and q: "leads_to s key (p, i)"
    and c: "C (p, i) = Some (rs, [e])" "kv_key e = key" and k: "length key \<le> MAX_KEY_LENGTH"
    and off: "off \<le> length (kv_value e)" and bs: "bs \<noteq> []" and size: "entry_size key (off + length bs) \<le> base 0 19"
    and room: "next_free_page s + 2 ^ 19 \<le> 2 ^ 52"
  obtains s' A' C' where "grow_value (rs ! 0) key (length (kv_value e)) off bs s = Inr s'" "tree_inv s' A' N C'"
    "represents C' (M(key \<mapsto> overlay (kv_value e) off bs))" "kv_entry_count s' = kv_entry_count s"
    "next_free_page s' \<le> next_free_page s + 2 ^ 19"
proof -
  note ok = tree_invD(1) [OF inv]
  note l = leaf_atD [OF tree_invD(7) [OF inv c(1)]]
  note in_tree = leads_to_in [OF inv q]
  define e' where "e' = e\<lparr>kv_value := overlay (kv_value e) off bs\<rparr>"
  have lone: "lone_leaf s rs key (kv_value e)" using lone_leaf_iff [OF ok l(4), of e] l(6) c(2) k by simp
  obtain zs s' where run: "grow_value (rs ! 0) key (length (kv_value e)) off bs s = Inr s'"
    and lf: "lone_leaf s' (rs @ zs) key (overlay (kv_value e) off bs)"
    and ok': "space_ok s' (A \<union> value_regions (rs @ zs))" and new: "value_regions (rs @ zs) \<inter> A = value_regions rs"
    and kept: "\<And>x k p. (x, k) \<in> A \<Longrightarrow> (x, k) \<notin> value_regions rs \<Longrightarrow> p \<in> region x k \<Longrightarrow> s' p = s p"
    and ends: "s' 1 = s 1" "kv_entry_count s' = kv_entry_count s" "next_free_page s' \<le> next_free_page s + 2 ^ 19"
    by (rule lone_leaf_grows [OF lone ok l(4) k off bs size room]) blast
  have lf': "leaf_ok s' (rs @ zs) [e']"
    using lone_leaf_iff [OF ok', of "rs @ zs" e'] lf k c(2) by (simp add: e'_def)
  have node: "s' p' = s p'" if "p' \<in> N" for p'
    using tree_invD(3) [OF inv that] kept [of p' 0 p'] l(5) that ends(1) by (auto simp: ROOT_PAGE_def)
  have first: "(rs @ zs) ! 0 = rs ! 0" using lone_leafD(1) [OF lone] regions_nth_0 by blast
  have "tree_inv s' (A \<union> value_regions (rs @ zs)) N (C((p, i) := Some (rs @ zs, [e'])))"
  proof (rule tree_inv_update(1) [OF inv _ _ _ ok'])
    show "(p', 0) \<in> A \<union> value_regions (rs @ zs)" if "p' \<in> N" "p' \<noteq> ROOT_PAGE" for p'
      using tree_invD(3) [OF inv that(1)] that(2) by simp
    show "others_kept s s' N C (p, i)"
      unfolding others_kept_def
    proof (intro conjI ballI allI impI)
      fix q' rs' es' r assume o: "C q' = Some (rs', es')" "q' \<noteq> (p, i)" "r \<in> value_regions rs'"
      then show "case r of (x, k) \<Rightarrow> \<forall>p\<in>region x k. s' p = s p"
        using kept tree_invD(8) [OF inv o(1) c(1) o(2)] leaf_atD(4) [OF tree_invD(7) [OF inv o(1)]] by (cases r) blast
    qed (simp add: node_entry_def node)
    show "value_regions rs' \<subseteq> A \<union> value_regions (rs @ zs)" if "C q' = Some (rs', es')" "q' \<noteq> (p, i)" for q' rs' es'
      using leaf_atD(4) [OF tree_invD(7) [OF inv that(1)]] by blast
    have "value_regions (rs @ zs) \<inter> N \<times> {0} = {}"
    proof (rule ccontr)
      assume "value_regions (rs @ zs) \<inter> N \<times> {0} \<noteq> {}"
      then obtain p' where p': "(p', 0) \<in> value_regions (rs @ zs)" "p' \<in> N" by blast
      moreover have "41 \<le> p'" using space_okD(2) [OF ok', of p' 0] p'(1) by simp
      ultimately have "(p', 0) \<in> A" using tree_invD(3) [OF inv p'(2)] by (auto simp: ROOT_PAGE_def)
      then show False using p' new l(5) by blast
    qed
    moreover have "value_regions (rs @ zs) \<inter> value_regions rs' = {}" if "C q' = Some (rs', es')" "q' \<noteq> (p, i)" for q' rs' es'
      using leaf_atD(4) [OF tree_invD(7) [OF inv that(1)]] tree_invD(8) [OF inv that(1) c(1) that(2)] new by blast
    ultimately show "case Some (rs @ zs, [e']) of None \<Rightarrow> node_entry s' (fst (p, i)) (snd (p, i)) = 0
      | Some (xs, es) \<Rightarrow> node_entry s' (fst (p, i)) (snd (p, i)) = xs ! 0 \<and> value_regions xs \<subseteq> A \<union> value_regions (rs @ zs) \<and> value_regions xs \<inter> N \<times> {0} = {} \<and>
          leaf_ok s' xs es \<and> distinct (map kv_key es) \<and> (\<forall>e\<in>set es. leads_to s (kv_key e) (p, i)) \<and>
          (\<forall>q' rs' es'. C q' = Some (rs', es') \<longrightarrow> q' \<noteq> (p, i) \<longrightarrow> value_regions xs \<inter> value_regions rs' = {})"
      using l(3) first node [OF in_tree(1)] lf' q c(2) by (simp add: node_entry_def e'_def) blast
  qed (use in_tree in simp_all)
  moreover have "represents (C((p, i) := Some (rs @ zs, [e']))) (M(key \<mapsto> overlay (kv_value e) off bs))"
  proof -
    have "represents (C((p, i) := Some (rs @ zs, [e']))) (\<lambda>k. if leads_to s k (p, i) then (case Some (rs @ zs, [e']) of None \<Rightarrow> None | Some (rs, es) \<Rightarrow> kv_map es k) else M k)"
      by (rule represents_update [OF inv rep]) (use in_tree q c(2) in \<open>simp_all add: e'_def\<close>)
    also have "(\<lambda>k. if leads_to s k (p, i) then (case Some (rs @ zs, [e']) of None \<Rightarrow> None | Some (rs, es) \<Rightarrow> kv_map es k) else M k) = M(key \<mapsto> overlay (kv_value e) off bs)"
      by (rule map_at_key [OF inv q]) (use represents_at [OF inv rep] c in \<open>auto simp: kv_map_def e'_def\<close>)
    finally show ?thesis .
  qed
  ultimately show thesis using that [OF run] ends by blast
qed

section \<open>What \<open>write_part\<close> does to a map\<close>

text \<open>The value afterwards.  Without the key, the bytes behind as many zeros as the offset says, but no
  more bytes than were given.\<close>

definition part_value :: "byte list option \<Rightarrow> nat \<Rightarrow> byte list \<Rightarrow> byte list" where
  "part_value old off b =
     (case old of None \<Rightarrow> take (length b) (zeros (if off = NPOS then 0 else off) @ b)
      | Some v \<Rightarrow> overlay v (if off = NPOS then length v else off) b)"

lemma leaf_find:
  assumes "leaf_ok s rs es" "0 \<notin> set key"
  shows "find_entry_in_leaf (s (rs ! 0)) key = Inr (case offset_of key es of None \<Rightarrow> - 1 | Some m \<Rightarrow> int m)"
  using assms(1) unfolding leaf_ok_def
proof (elim disjE exE conjE)
  fix x assume "rs = [x]" "leaf_holds (s x) es"
  then show ?thesis using find_entry_holds [of "s x" es key] assms(2) by simp
next
  fix e assume "es = [e]" "big_leaf s rs e"
  then show ?thesis using find_big_leaf [of s rs e key] assms(2) by simp
qed

lemma part_not_found_value:
  "part_not_found fuel p i l key off (Some b) s = write_at_node fuel p i l key (Some (part_value None off b)) s"
  by (auto simp: part_not_found_def part_value_def zeros_def Let_def)

lemma copied_parts:
  assumes "off \<le> length v" "n = max (length v) (off + length b)"
  shows "bindR (copy_into (zeros n) 0 v) (\<lambda>v. copy_into v off b) = Inr (overlay v off b)"
proof -
  have "drop (off + length b) (v @ drop (length v) (zeros n)) = drop (off + length b) v"
    using assms by (auto simp: zeros_def max_def)
  then show ?thesis using assms by (simp add: copy_into_def overlay_def zeros_def)
qed

lemma part_found_lone:
  assumes lf: "lone_leaf s rs key v" and k: "length key \<le> MAX_KEY_LENGTH"
    and off: "off' = (if off = NPOS then length v else off)" "off' + length b < 2 ^ 64"
  shows "part_found fuel p i l (rs ! 0) 0 key off b s = Some (grow_value (rs ! 0) key (length v) off' b s)"
proof -
  have in_page: "\<not> PAGE_SIZE < DATA + (length key + 1 + 8)" using key_room [OF k] by simp
  have len: "get_u64 (s (rs ! 0)) (DATA + (length key + 1)) = length v"
    using entry_startsD(5) [OF lone_leafD(2) [OF lf]] by (simp only: add.assoc)
  note lone = lone_leafD(3) [OF lf]
  show ?thesis
    unfolding part_found_def grow_value_def Let_def add_0 len off(1) [symmetric] mod_less [OF off(2)] if_not_P [OF in_page] if_P [OF lone] ..
qed

lemma part_found_many:
  assumes h: "leaf_holds (s x) (xs @ e # ys)" and e: "kv_key e = key" and many: "xs @ ys \<noteq> []"
    and off: "off' = (if off = NPOS then length (kv_value e) else off)" "off' \<le> length (kv_value e)" "off' + length b < 2 ^ 64"
    and b: "b \<noteq> []"
  shows "part_found fuel p i l x (length (encode_entries xs)) key off b s =
    write_at_node fuel p i l key (Some (overlay (kv_value e) off' b)) s"
proof -
  note val = small_leaf_value [OF h, unfolded e]
  have cnt: "\<not> leaf_entry_count (s x) = 1" using h many by (cases xs; cases ys) (simp_all add: leaf_holds_def)
  have in_page: "\<not> PAGE_SIZE < DATA + (length (encode_entries xs) + length key + 1 + 8)"
    "\<not> PAGE_SIZE < DATA + (length (encode_entries xs) + length key + 1 + 8) + length (kv_value e)" using val(2) by linarith+
  have old: "bytes_at (s x) (DATA + (length (encode_entries xs) + length key + 1 + 8)) (length (kv_value e)) = kv_value e"
    using holds_at_bytes [OF val(3)] by (simp add: ac_simps)
  have new: "vector_data (overlay (kv_value e) off' b) = Some (overlay (kv_value e) off' b)" using b by (simp add: vector_data_def overlay_def)
  show ?thesis
    unfolding part_found_def Let_def val(1) off(1) [symmetric] mod_less [OF off(3)] if_not_P [OF cnt] if_not_P [OF in_page(1)]
      if_not_P [OF in_page(2)] old copied_parts [OF off(2) refl] bindO_simps new ..
qed

section \<open>Properties\<close>

lemma part_on_pages:
  assumes fp: "find_parent fuel s key = Some (p, i, l)"
    and run: "(if node_entry s p i = 0 then part_not_found fuel p i l key off (Some b) s
      else bindO (Some (find_entry_in_leaf (s (clear_msb (node_entry s p i))) key)) (\<lambda>m.
        if m = - 1 then part_not_found fuel p i l key off (Some b) s
        else part_found fuel p i l (clear_msb (node_entry s p i)) (nat m) key off b s)) = Some (Inr s')"
  shows "DiskMap_write_part fuel key off (Some b) \<lparr>dm_pages = s, op_count = n\<rparr> =
    Some (Inr \<lparr>dm_pages = s', op_count = (n + 1) mod 2 ^ 64\<rparr>)"
  unfolding DiskMap_write_part_def on_pages_def count_op_def Let_def
  by (simp only: disk_map.simps fp option.case prod.case run bindO_simps)

lemma find_absent:
  assumes mr: "map_rep s A M" and k: "valid_key key" and fp: "find_parent fuel s key = Some (p, i, l)" and None: "M key = None"
    and ne: "node_entry s p i \<noteq> 0"
  shows "find_entry_in_leaf (s (node_entry s p i)) key = Inr (- 1)" "clear_msb (node_entry s p i) = node_entry s p i"
proof -
  obtain N C where inv: "tree_inv s A N C" and rep: "represents C M" using mr by (auto simp: map_rep_def)
  have q: "leads_to s key (p, i)" using fp unfolding leads_from_def find_parent_def by auto
  obtain rs es where c: "C (p, i) = Some (rs, es)" using ne tree_invD(6) [OF inv leads_to_in [OF inv q]] by (cases "C (p, i)") auto
  note l = leaf_atD [OF tree_invD(7) [OF inv c]]
  have k0: "0 \<notin> set key" using k by (simp add: valid_key_def)
  have "offset_of key es = None" using represents_at [OF inv rep q] c None kv_map_None [of es key] offset_of_None by simp
  then show "find_entry_in_leaf (s (node_entry s p i)) key = Inr (- 1)" using leaf_find [OF l(6) k0] l(3) by simp
  show "clear_msb (node_entry s p i) = node_entry s p i" using l(3) leaf_ok_start(6) [OF l(6) tree_invD(1) [OF inv] l(4)] by simp
qed

lemma write_part_absent:
  assumes mr: "map_rep s A M" and k: "valid_key key" "length key \<le> MAX_KEY_LENGTH"
    and sz: "entry_size key (length (part_value (M key) off b)) \<le> 2 ^ 31 - 2 ^ 13" and room: "next_free_page s + 2 ^ 28 \<le> 2 ^ 52"
    and hash: "inj_on fnv_hash (insert key (dom M))" and fp: "find_parent fuel s key = Some (p, i, l)" and fuel: "9 \<le> fuel"
    and leaf: "node_entry s p i = 0 \<or> leaf_next (s (node_entry s p i)) = 0" and None: "M key = None"
  shows "\<exists>s' A'. DiskMap_write_part fuel key off (Some b) \<lparr>dm_pages = s, op_count = n\<rparr> =
      Some (Inr \<lparr>dm_pages = s', op_count = (n + 1) mod 2 ^ 64\<rparr>) \<and>
    map_rep s' A' (M(key \<mapsto> part_value (M key) off b)) \<and> next_free_page s' \<le> next_free_page s + 2 ^ 28"
proof -
  define v' where "v' = part_value (M key) off b"
  obtain s' A' where w: "write_at_node fuel p i l key (Some v') s = Some (Inr s')" "map_rep s' A' (M(key \<mapsto> v'))"
    "next_free_page s' \<le> next_free_page s + 2 ^ 28"
    by (rule map_write_step [OF mr k sz [folded v'_def] room hash fp leaf _ fuel]) (use None in auto)
  have "find_entry_in_leaf (s (clear_msb (node_entry s p i))) key = Inr (- 1)" if "node_entry s p i \<noteq> 0"
    using find_absent [OF mr k(1) fp None that] by simp
  then have "DiskMap_write_part fuel key off (Some b) \<lparr>dm_pages = s, op_count = n\<rparr> =
    Some (Inr \<lparr>dm_pages = s', op_count = (n + 1) mod 2 ^ 64\<rparr>)"
    using w(1) None by (intro part_on_pages [OF fp]) (simp add: part_not_found_value v'_def)
  then show ?thesis using w(2,3) unfolding v'_def by blast
qed

lemma write_part_present:
  assumes mr: "map_rep s A M" and k: "valid_key key" "length key \<le> MAX_KEY_LENGTH"
    and sz: "entry_size key (length (part_value (M key) off b)) \<le> 2 ^ 31 - 2 ^ 13" and room: "next_free_page s + 2 ^ 28 \<le> 2 ^ 52"
    and hash: "inj_on fnv_hash (insert key (dom M))" and fp: "find_parent fuel s key = Some (p, i, l)" and fuel: "9 \<le> fuel"
    and b: "b \<noteq> []" and Some: "M key = Some v" and off: "off = NPOS \<or> off \<le> length v"
  shows "\<exists>s' A'. DiskMap_write_part fuel key off (Some b) \<lparr>dm_pages = s, op_count = n\<rparr> =
      Some (Inr \<lparr>dm_pages = s', op_count = (n + 1) mod 2 ^ 64\<rparr>) \<and>
    map_rep s' A' (M(key \<mapsto> part_value (M key) off b)) \<and> next_free_page s' \<le> next_free_page s + 2 ^ 28"
proof -
  define v' where "v' = part_value (M key) off b"
  obtain N C where inv: "tree_inv s A N C" and rep: "represents C M" and fin: "finite (dom M)"
    and count: "kv_entry_count s = card (dom M) mod 2 ^ 64" and lens: "\<forall>k\<in>dom M. length k \<le> MAX_KEY_LENGTH"
    using mr by (auto simp: map_rep_def)
  have q: "leads_to s key (p, i)" using fp unfolding leads_from_def find_parent_def by auto
  note Mk = represents_at [OF inv rep q]
  have k0: "0 \<notin> set key" using k(1) by (simp add: valid_key_def)
  define o' where "o' = (if off = NPOS then length v else off)"
  have o': "o' \<le> length v" using off by (auto simp: o'_def)
  have v': "v' = overlay v o' b" by (simp add: v'_def part_value_def Some o'_def)
  have len: "length v' = max (length v) (o' + length b)" unfolding v' by (rule length_overlay [OF o'])
  have size: "entry_size key (o' + length b) \<le> 2 ^ 31 - 2 ^ 13"
    using sz len unfolding v'_def [symmetric] by (simp add: entry_size_def)
  have fits: "o' + length b < 2 ^ 64" using size by (simp add: entry_size_def)
  obtain rs es where c: "C (p, i) = Some (rs, es)" using Mk Some by (cases "C (p, i)") auto
  note l = leaf_atD [OF tree_invD(7) [OF inv c], simplified]
  note st = leaf_ok_start [OF l(6) tree_invD(1) [OF inv] l(4)]
  have Me: "kv_map es key = Some v" using Mk c Some by simp
  then have "key \<in> kv_key ` set es" using kv_map_None by (metis option.distinct(1))
  then obtain m where m: "offset_of key es = Some m" using offset_of_None by fastforce
  then obtain xs e ys where e: "es = xs @ e # ys" "kv_key e = key" "m = length (encode_entries xs)" using offset_of_Some by metis
  have ev: "kv_value e = v" using Me kv_map_Some [OF l(7), of key "kv_value e"] e(1,2) by auto
  have find: "find_entry_in_leaf (s (rs ! 0)) key = Inr (int m)" using leaf_find [OF l(6) k0] m by simp
  have ne: "node_entry s p i = rs ! 0" "rs ! 0 \<noteq> 0" "clear_msb (rs ! 0) = rs ! 0" using l(3) st(4,6) by simp_all
  show ?thesis
  proof (cases "xs @ ys = []")
    case True
    then have one: "es = [e]" "m = 0" using e(1,3) by simp_all
    have c1: "C (p, i) = Some (rs, [e])" using c one by simp
    have lone: "lone_leaf s rs key v" using lone_leaf_iff [OF tree_invD(1) [OF inv] l(4), of e] l(6) one e(2) ev k(2) by simp
    have size19: "entry_size key (o' + length b) \<le> base 0 19" using size base_19 by linarith
    have room19: "next_free_page s + 2 ^ 19 \<le> 2 ^ 52" using room by simp
    obtain s' A' C' where g: "grow_value (rs ! 0) key (length v) o' b s = Inr s'" "tree_inv s' A' N C'"
      "represents C' (M(key \<mapsto> overlay v o' b))" "kv_entry_count s' = kv_entry_count s" "next_free_page s' \<le> next_free_page s + 2 ^ 19"
      by (rule grow_in_tree [OF inv rep q c1 e(2) k(2), of o' b]) (use o' b size19 room19 ev in auto)
    have "dom (M(key \<mapsto> overlay v o' b)) = dom M" using Some by auto
    then have mr: "map_rep s' A' (M(key \<mapsto> v'))"
      using g(2-4) fin count lens unfolding map_rep_def v' by metis
    have "DiskMap_write_part fuel key off (Some b) \<lparr>dm_pages = s, op_count = n\<rparr> =
      Some (Inr \<lparr>dm_pages = s', op_count = (n + 1) mod 2 ^ 64\<rparr>)"
      using ne find one part_found_lone [OF lone k(2) o'_def fits] g(1) by (intro part_on_pages [OF fp]) simp
    then show ?thesis using mr g(5) unfolding v'_def by (intro exI [of _ s'] exI [of _ A']) simp
  next
    case False
    then have "es \<noteq> [e']" for e' using e(1) by (cases xs) simp_all
    then obtain x where x: "rs = [x]" "leaf_holds (s x) es" using l(6) unfolding leaf_ok_def by blast
    have leaf: "leaf_next (s (node_entry s p i)) = 0" using ne x by (simp add: leaf_holds_def)
    obtain s' A' where w: "write_at_node fuel p i l key (Some v') s = Some (Inr s')" "map_rep s' A' (M(key \<mapsto> v'))"
      "next_free_page s' \<le> next_free_page s + 2 ^ 28"
      by (rule map_write_step [OF mr k sz [folded v'_def] room hash fp _ _ fuel]) (use leaf Some len in auto)
    have many: "part_found fuel p i l x m key off b s = Some (Inr s')"
      using part_found_many [of s x xs e ys key, OF x(2) [unfolded e(1)] e(2) False, unfolded ev, OF o'_def o' fits b] w(1) e(3) v' by simp
    have "DiskMap_write_part fuel key off (Some b) \<lparr>dm_pages = s, op_count = n\<rparr> =
      Some (Inr \<lparr>dm_pages = s', op_count = (n + 1) mod 2 ^ 64\<rparr>)"
      using ne find many x(1) by (intro part_on_pages [OF fp]) simp
    then show ?thesis using w(2,3) unfolding v'_def by blast
  qed
qed

lemma write_part_step:
  assumes "map_rep s A M" "valid_key key" "length key \<le> MAX_KEY_LENGTH" "b \<noteq> []"
    "\<forall>v. M key = Some v \<longrightarrow> off = NPOS \<or> off \<le> length v"
    "entry_size key (length (part_value (M key) off b)) \<le> 2 ^ 31 - 2 ^ 13"
    "next_free_page s + 2 ^ 28 \<le> 2 ^ 52" "inj_on fnv_hash (insert key (dom M))" "find_parent fuel s key = Some (p, i, l)"
    "M key = None \<longrightarrow> node_entry s p i = 0 \<or> leaf_next (s (node_entry s p i)) = 0" "9 \<le> fuel"
  shows "\<exists>s' A'. DiskMap_write_part fuel key off (Some b) \<lparr>dm_pages = s, op_count = n\<rparr> =
      Some (Inr \<lparr>dm_pages = s', op_count = (n + 1) mod 2 ^ 64\<rparr>) \<and>
    map_rep s' A' (M(key \<mapsto> part_value (M key) off b)) \<and> next_free_page s' \<le> next_free_page s + 2 ^ 28"
proof (cases "M key")
  case None
  show ?thesis by (rule write_part_absent [OF assms(1-3,6-9,11) _ None]) (use assms(10) None in simp)
next
  case (Some v)
  show ?thesis by (rule write_part_present [OF assms(1-3,6-9,11,4) Some]) (use assms(5) Some in blast)
qed

text \<open>C5: \<open>write_part\<close>, and with it \<open>append\<close>, makes the value of a key its old value with the bytes written
  over it from the offset on, or behind it; values of one page and of several regions grow in place.
  For an absent key the value has the zeros of the offset in front, but only as many bytes as were
  given, so that bytes at the end are lost.  It does not cover an offset behind the value, and absent
  keys in a bucket with a value of several regions (\<open>big_neighbour_overreads\<close>).\<close>

theorem map_writes_part:
  assumes "map_rep s A M" "valid_key key" "length key \<le> MAX_KEY_LENGTH" "b \<noteq> []"
    "\<forall>v. M key = Some v \<longrightarrow> off = NPOS \<or> off \<le> length v"
    "entry_size key (length (part_value (M key) off b)) \<le> 2 ^ 31 - 2 ^ 13"
    "next_free_page s + 2 ^ 28 \<le> 2 ^ 52" "inj_on fnv_hash (insert key (dom M))" "find_parent f s key = Some (p, i, l)"
    "M key = None \<longrightarrow> node_entry s p i = 0 \<or> leaf_next (s (node_entry s p i)) = 0" "max 9 f \<le> fuel"
  shows "\<exists>s' A'. DiskMap_write_part fuel key off (Some b) \<lparr>dm_pages = s, op_count = n\<rparr> =
      Some (Inr \<lparr>dm_pages = s', op_count = (n + 1) mod 2 ^ 64\<rparr>) \<and>
    map_rep s' A' (M(key \<mapsto> part_value (M key) off b)) \<and> next_free_page s' \<le> next_free_page s + 2 ^ 28"
proof -
  have fuel: "9 \<le> fuel" and fp: "find_parent fuel s key = Some (p, i, l)"
    using assms(11) find_parent_mono [OF assms(9) [unfolded find_parent_def], of fuel] by (simp_all add: find_parent_def)
  show ?thesis by (rule write_part_step [OF assms(1-8) fp assms(10) fuel])
qed

theorem map_writes_part_witness:
  "\<exists>s s' f s'' A. DiskMap_format (\<lambda>_. zero_page) = Inr s \<and>
    write_at_node 9 ROOT_PAGE (get_bucket [97] 1) 0 [97] (Some [1, 2, 3]) s = Some (Inr s') \<and>
    DiskMap_append f [97] (Some [4, 5]) \<lparr>dm_pages = s', op_count = 0\<rparr> = Some (Inr \<lparr>dm_pages = s'', op_count = 1\<rparr>) \<and>
    map_rep s'' A [[97] \<mapsto> [1, 2, 3, 4, 5]]"
proof -
  have k: "valid_key [97]" "length ([97] :: byte list) \<le> MAX_KEY_LENGTH" "entry_size [97] (length [1, 2, 3 :: byte]) \<le> 2 ^ 31 - 2 ^ 13"
    by (simp_all add: valid_key_def MAX_KEY_LENGTH_def entry_size_def)
  obtain s s' A' where s: "DiskMap_format (\<lambda>_. zero_page) = Inr s" "map_rep s' A' [[97] \<mapsto> [1, 2, 3]]"
    "write_at_node 9 ROOT_PAGE (get_bucket [97] 1) 0 [97] (Some [1, 2, 3]) s = Some (Inr s')"
    "next_free_page s' \<le> 41 + page_cost (entry_size [97] (length [1, 2, 3 :: byte]))"
    by (rule written_map [OF k])
  have n: "next_free_page s' + 2 ^ 28 \<le> 2 ^ 52" using s(4) by (simp add: page_cost_def entry_size_def data_capacity)
  obtain N C where "tree_inv s' A' N C" using s(2) by (auto simp: map_rep_def)
  then obtain q where "leads_to s' [97] q" using tree_invD(5) by blast
  then obtain g p i l where g: "find_parent g s' [97] = Some (p, i, l)" unfolding leads_to_def by blast
  have v: "part_value ([[97] \<mapsto> [1, 2, 3]] [97]) NPOS [4, 5] = [1, 2, 3, 4, 5]" by (simp add: part_value_def overlay_def)
  show ?thesis
    using map_writes_part [OF s(2) k(1,2) _ _ _ n _ g, of "[4, 5]" NPOS "max 9 g" 0] s(1,3)
    unfolding v by (simp add: DiskMap_append_def entry_size_def) blast
qed

end
