(* ===== verification/Map_Sample.thy ===== *)
theory Map_Sample
  imports Prelude Hashing Pages Space_Manager Leaf Big_Value Disk_Map Map_Invariant Map_Write Map_Properties Map_Check
    "HOL-Library.Multiset" "HOL-Library.Sublist"
begin

text \<open>
  \<open>sample\<close>: for any values of \<open>rand()\<close> it ends, and returns entries of the map, none of them twice.
\<close>

section \<open>Going through pages in any order\<close>

text \<open>The steps that a page takes, with all that are below it, and the entries found there.\<close>

inductive listed :: "pages \<Rightarrow> nat \<Rightarrow> nat \<Rightarrow> KVEntry multiset \<Rightarrow> bool" for s where
  listed_leaf: "get_msb ptr = 0 \<Longrightarrow> leaf_next (s (clear_msb ptr)) = 0 \<Longrightarrow> get_entries_in_leaf (s (clear_msb ptr)) = Inr es \<Longrightarrow>
    listed s ptr 1 (mset es)"
| listed_big: "get_msb ptr = 0 \<Longrightarrow> leaf_next (s (clear_msb ptr)) \<noteq> 0 \<Longrightarrow> listed s ptr 1 {#}"
| listed_node: "get_msb ptr \<noteq> 0 \<Longrightarrow> map fst xs = filter (\<lambda>c. c \<noteq> 0) (map (node_entry s (clear_msb ptr)) [0..<512]) \<Longrightarrow>
    \<forall>x\<in>set xs. listed s (fst x) (fst (snd x)) (snd (snd x)) \<Longrightarrow>
    listed s ptr (Suc (sum_list (map (\<lambda>x. fst (snd x)) xs))) (sum_list (map (\<lambda>x. snd (snd x)) xs))"

text \<open>The last element takes the place of the one that is removed.\<close>

definition swap_out :: "'a list \<Rightarrow> nat \<Rightarrow> 'a list" where
  "swap_out xs i = butlast (xs[i := last xs])"

lemma mset_swap_out: "i < length xs \<Longrightarrow> mset xs = add_mset (xs ! i) (mset (swap_out xs i))"
proof (cases xs rule: rev_cases)
  case (snoc ys y)
  assume i: "i < length xs"
  show ?thesis
  proof (cases "i = length ys")
    case False
    then have "i < length ys" using i snoc by simp
    then have "mset (ys[i := y]) + {#ys ! i#} = mset ys + {#y#}" by (simp add: mset_update)
    then show ?thesis using False snoc \<open>i < length ys\<close> by (simp add: swap_out_def list_update_append nth_append)
  qed (simp add: snoc swap_out_def)
qed simp

lemma sum_swap_out:
  assumes "i < length xs"
  shows "sum_list (map f xs) = (f (xs ! i) :: 'b :: comm_monoid_add) + sum_list (map f (swap_out xs i))"
proof -
  have "sum_list (map f xs) = sum_mset (image_mset f (mset xs))" by (simp add: sum_mset_sum_list [symmetric])
  then show ?thesis unfolding mset_swap_out [OF assms] by (simp add: sum_mset_sum_list [symmetric])
qed

lemma set_swap_out: "i < length xs \<Longrightarrow> set xs = insert (xs ! i) (set (swap_out xs i))"
  using mset_swap_out [of i xs] by (metis set_mset_add_mset_insert set_mset_mset)

lemma map_swap_out: "map f (swap_out xs i) = butlast ((map f xs)[i := last (map f xs)])" if "xs \<noteq> []"
  using that by (simp add: swap_out_def map_butlast map_update last_map)

lemma mset_take_le: "mset (take n xs) \<subseteq># mset xs"
  using append_take_drop_id [of n xs] by (metis mset_append mset_subset_eq_add_left)

text \<open>The loop ends when the steps are used up or the result is long enough.\<close>

lemma sample_loop_ok:
  "\<forall>x\<in>set xs. listed s (fst x) (fst (snd x)) (snd (snd x)) \<Longrightarrow> sum_list (map (\<lambda>x. fst (snd x)) xs) < fuel \<Longrightarrow> length out \<le> wanted \<Longrightarrow>
   \<exists>r. sample_loop fuel rand s wanted (map fst xs) out = Some (Inr (out @ r)) \<and> mset r \<subseteq># sum_list (map (\<lambda>x. snd (snd x)) xs) \<and>
     length (out @ r) \<le> wanted \<and> (length (out @ r) < wanted \<longrightarrow> mset r = sum_list (map (\<lambda>x. snd (snd x)) xs))"
proof (induction fuel arbitrary: xs out)
  case (Suc fuel)
  show ?case
  proof (cases "xs = [] \<or> wanted \<le> length out")
    case True
    then show ?thesis using Suc.prems(3) by auto
  next
    case False
    then have ne: "xs \<noteq> []" and more: "\<not> wanted \<le> length out" by simp_all
    define i where "i = rand fuel mod length xs"
    have i: "i < length xs" using ne by (simp add: i_def)
    define ys where "ys = swap_out xs i"
    obtain ptr w E where x: "xs ! i = (ptr, w, E)" by (cases "xs ! i") 
    have l: "listed s ptr w E" and ly: "\<forall>x\<in>set ys. listed s (fst x) (fst (snd x)) (snd (snd x))"
      using Suc.prems(1) set_swap_out [OF i] x unfolding ys_def by auto
    have sums: "sum_list (map (\<lambda>x. fst (snd x)) xs) = w + sum_list (map (\<lambda>x. fst (snd x)) ys)"
      "sum_list (map (\<lambda>x. snd (snd x)) xs) = E + sum_list (map (\<lambda>x. snd (snd x)) ys)"
      using sum_swap_out [OF i, of "\<lambda>x. fst (snd x)"] sum_swap_out [OF i, of "\<lambda>x. snd (snd x)"] x by (simp_all add: ys_def)
    have step: "sample_loop (Suc fuel) rand s wanted (map fst xs) out =
      (if get_msb ptr \<noteq> 0 then sample_loop fuel rand s wanted
          (map fst ys @ filter (\<lambda>child. child \<noteq> 0) (map (node_entry s (clear_msb ptr)) [0..<512])) out
      else if leaf_next (s (clear_msb ptr)) = 0 then
          bindO (Some (get_entries_in_leaf (s (clear_msb ptr)))) (\<lambda>entries.
            sample_loop fuel rand s wanted (map fst ys) (out @ take (wanted - length out) entries))
        else sample_loop fuel rand s wanted (map fst ys) out)"
      using ne more i x by (simp add: map_swap_out [OF ne, of fst] ys_def i_def Let_def)
    show ?thesis
      using l
    proof cases
      case (listed_leaf es)
      let ?n = "wanted - length out"
      have "\<exists>r. sample_loop fuel rand s wanted (map fst ys) (out @ take ?n es) = Some (Inr ((out @ take ?n es) @ r)) \<and>
        mset r \<subseteq># sum_list (map (\<lambda>x. snd (snd x)) ys) \<and> length ((out @ take ?n es) @ r) \<le> wanted \<and>
        (length ((out @ take ?n es) @ r) < wanted \<longrightarrow> mset r = sum_list (map (\<lambda>x. snd (snd x)) ys))"
        by (rule Suc.IH [OF ly]) (use Suc.prems(2,3) sums listed_leaf(1) in auto)
      then obtain r where r: "sample_loop fuel rand s wanted (map fst ys) (out @ take ?n es) = Some (Inr ((out @ take ?n es) @ r))"
        "mset r \<subseteq># sum_list (map (\<lambda>x. snd (snd x)) ys)" "length ((out @ take ?n es) @ r) \<le> wanted"
        "length ((out @ take ?n es) @ r) < wanted \<longrightarrow> mset r = sum_list (map (\<lambda>x. snd (snd x)) ys)" by blast
      show ?thesis
      proof (intro exI [of _ "take ?n es @ r"] conjI impI)
        show "mset (take ?n es @ r) \<subseteq># sum_list (map (\<lambda>x. snd (snd x)) xs)"
          using mset_take_le [of ?n es] r(2) by (simp add: sums listed_leaf(2) subset_mset.add_mono)
        assume short: "length (out @ take ?n es @ r) < wanted"
        then have "take ?n es = es" by simp
        then show "mset (take ?n es @ r) = sum_list (map (\<lambda>x. snd (snd x)) xs)" using r(4) short by (simp add: sums listed_leaf(2))
      qed (use r step listed_leaf in simp_all)
    next
      case listed_big
      then show ?thesis using Suc.IH [OF ly, of out] Suc.prems(2,3) sums step by simp
    next
      case (listed_node cs)
      have "\<forall>x\<in>set (ys @ cs). listed s (fst x) (fst (snd x)) (snd (snd x))" using ly listed_node(5) by auto
      moreover have "map fst ys @ filter (\<lambda>child. child \<noteq> 0) (map (node_entry s (clear_msb ptr)) [0..<512]) = map fst (ys @ cs)"
        using listed_node(4) by simp
      ultimately show ?thesis
        using Suc.IH [of "ys @ cs" out] Suc.prems(2,3) sums step listed_node(1-3) by (simp add: add.commute)
    qed
  qed
qed simp

section \<open>The entries below a node\<close>

text \<open>They are in leaves whose place is below the node, no key has two of them, and what a search from the
  node can find in a leaf of one page is among them.\<close>

definition gathers :: "pages \<Rightarrow> leaves \<Rightarrow> (nat \<Rightarrow> nat list) \<Rightarrow> nat list \<Rightarrow> KVEntry multiset \<Rightarrow> bool" where
  "gathers s C digits path E \<longleftrightarrow>
     (\<forall>e\<in>#E. \<exists>q rs es. C q = Some (rs, es) \<and> e \<in> set es \<and> prefix path (digits (fst q) @ [snd q])) \<and>
     (\<forall>k. size (filter_mset (\<lambda>e. kv_key e = k) E) \<le> 1)"

definition finds_small :: "pages \<Rightarrow> leaves \<Rightarrow> nat \<Rightarrow> KVEntry multiset \<Rightarrow> bool" where
  "finds_small s C p E \<longleftrightarrow>
     (\<forall>f key l q i l' x es. find_parent_from f s key p l = Some (q, i, l') \<longrightarrow> C (q, i) = Some ([x], es) \<longrightarrow>
        leaf_holds (s x) es \<longrightarrow> set es \<subseteq> set_mset E)"

lemma gathersD:
  assumes "gathers s C digits path E"
  shows "e \<in># E \<Longrightarrow> \<exists>q rs es. C q = Some (rs, es) \<and> e \<in> set es \<and> prefix path (digits (fst q) @ [snd q])"
    "size (filter_mset (\<lambda>e. kv_key e = k) E) \<le> 1"
  using assms unfolding gathers_def by blast+

lemma distinct_keys_once: "distinct (map kv_key es) \<Longrightarrow> size (filter_mset (\<lambda>e. kv_key e = k) (mset es)) \<le> 1"
proof (induction es)
  case (Cons e es)
  then show ?case
  proof (cases "kv_key e = k")
    case True
    then have "filter_mset (\<lambda>e. kv_key e = k) (mset es) = {#}" using Cons.prems True by (auto simp: image_iff)
    then show ?thesis using True by (simp del: filter_mset_eq_mempty_iff)
  qed simp
qed simp

lemma once_distinct_keys: "(\<And>k. size (filter_mset (\<lambda>e. kv_key e = k) (mset es)) \<le> 1) \<Longrightarrow> distinct (map kv_key es)"
proof (induction es)
  case (Cons e es)
  have "size (filter_mset (\<lambda>e. kv_key e = k) (mset es)) \<le> 1" for k
    using Cons.prems [of k] by (cases "kv_key e = k") (simp_all del: filter_mset_eq_mempty_iff)
  moreover have "filter_mset (\<lambda>e'. kv_key e' = kv_key e) (mset es) = {#}" using Cons.prems [of "kv_key e"] by simp
  then have "kv_key e \<notin> kv_key ` set es" by (auto simp: filter_mset_eq_mempty_iff)
  ultimately show ?case using Cons.IH by simp
qed simp

lemma filter_sum_mset: "filter_mset P (sum_list (map f xs)) = sum_list (map (\<lambda>x. filter_mset P (f x)) xs)"
  by (induction xs) simp_all

lemma size_sum_mset: "size (sum_list (map f xs) :: 'a multiset) = sum_list (map (\<lambda>x. size (f x)) xs)"
  by (induction xs) simp_all

lemma in_sum_mset: "e \<in># sum_list (map f xs) \<longleftrightarrow> (\<exists>x\<in>set xs. e \<in># f x)"
  by (induction xs) auto

lemma sum_one:
  fixes f :: "'a \<Rightarrow> nat"
  assumes "distinct xs" "\<And>x. f x \<le> 1" "\<And>x y. x \<in> set xs \<Longrightarrow> y \<in> set xs \<Longrightarrow> f x \<noteq> 0 \<Longrightarrow> f y \<noteq> 0 \<Longrightarrow> x = y"
  shows "sum_list (map f xs) \<le> 1"
  using assms(1,3)
proof (induction xs)
  case (Cons x xs)
  show ?case
  proof (cases "f x = 0")
    case True
    then show ?thesis using Cons by simp
  next
    case False
    then have "\<forall>y\<in>set xs. f y = 0" using Cons.prems by fastforce
    then have "sum_list (map f xs) = 0" by (simp add: sum_list_eq_0_iff)
    then show ?thesis using assms(2) [of x] by (simp del: sum_list_eq_0_iff)
  qed
qed simp

text \<open>Parts with different paths make a whole.\<close>

lemma gathers_sum:
  assumes inv: "subtree rt lv s A N C" and parts: "\<And>i. i \<in> set xs \<Longrightarrow> gathers s C digits (path @ [i]) (E i)" and xs: "distinct xs"
  shows "gathers s C digits path (sum_list (map E xs))"
  unfolding gathers_def
proof (intro conjI ballI allI)
  fix e assume "e \<in># sum_list (map E xs)"
  then obtain i where "i \<in> set xs" "e \<in># E i" by (auto simp: in_sum_mset)
  then show "\<exists>q rs es. C q = Some (rs, es) \<and> e \<in> set es \<and> prefix path (digits (fst q) @ [snd q])"
    using gathersD(1) [OF parts] by (meson append_prefixD)
next
  fix k
  define once where "once = (\<lambda>i. if i \<in> set xs then size (filter_mset (\<lambda>e. kv_key e = k) (E i)) else 0)"
  have "sum_list (map once xs) \<le> 1"
  proof (rule sum_one [OF xs])
    show "once i \<le> 1" for i using gathersD(2) [OF parts, of i k] by (simp add: once_def)
    have one: "\<exists>q rs es e. C q = Some (rs, es) \<and> e \<in> set es \<and> kv_key e = k \<and> prefix (path @ [i]) (digits (fst q) @ [snd q])"
      if i: "i \<in> set xs" "once i \<noteq> 0" for i
    proof -
      obtain e where "e \<in># E i" "kv_key e = k" using i by (auto simp: once_def filter_mset_eq_mempty_iff)
      then show ?thesis using gathersD(1) [OF parts [OF i(1)]] by blast
    qed
    fix i j assume ij: "i \<in> set xs" "j \<in> set xs" "once i \<noteq> 0" "once j \<noteq> 0"
    obtain q rs es e where q: "C q = Some (rs, es)" "e \<in> set es" "kv_key e = k" "prefix (path @ [i]) (digits (fst q) @ [snd q])"
      using one [OF ij(1,3)] by blast
    obtain q' rs' es' e' where q': "C q' = Some (rs', es')" "e' \<in> set es'" "kv_key e' = k" "prefix (path @ [j]) (digits (fst q') @ [snd q'])"
      using one [OF ij(2,4)] by blast
    have "q = q'"
      using leads_to_unique [OF leaf_atD(8) [OF tree_invD(7) [OF inv q(1)] q(2)], of q'] leaf_atD(8) [OF tree_invD(7) [OF inv q'(1)] q'(2)]
        q(3) q'(3) by simp
    then show "i = j" using q(4) q'(4) by (auto simp: prefix_def)
  qed
  moreover have eq: "map (\<lambda>i. size (filter_mset (\<lambda>e. kv_key e = k) (E i))) xs = map once xs" by (simp add: once_def)
  ultimately show "size (filter_mset (\<lambda>e. kv_key e = k) (sum_list (map E xs))) \<le> 1"
    unfolding filter_sum_mset size_sum_mset eq by simp
qed

section \<open>The loop on a map\<close>

lemma listed_leaf_ok:
  assumes inv: "subtree rt lv s A N C" and c: "C q = Some (rs, es)"
  obtains E where "listed s (rs ! 0) 1 E" "set_mset E \<subseteq> set es" "\<forall>k. size (filter_mset (\<lambda>e. kv_key e = k) E) \<le> 1"
    "\<forall>x. rs = [x] \<longrightarrow> leaf_holds (s x) es \<longrightarrow> E = mset es"
proof -
  note l = leaf_atD [OF tree_invD(7) [OF inv c]]
  note st = leaf_ok_start [OF l(6) tree_invD(1) [OF inv] l(4)]
  show thesis
    using l(6) unfolding leaf_ok_def
  proof (elim disjE exE conjE)
    fix x assume x: "rs = [x]" "leaf_holds (s x) es"
    have "listed s (rs ! 0) 1 (mset es)"
      by (rule listed_leaf) (use x st(5,6) get_entries_holds [OF x(2)] in \<open>simp_all add: leaf_holds_def\<close>)
    then show thesis using that [of "mset es"] distinct_keys_once [OF l(7)] by simp
  next
    fix e assume e: "big_leaf s rs e"
    then have r: "2 \<le> length rs" "regions s rs" by (simp_all add: big_leaf_def)
    then have "0 < length rs" "1 < length rs" by linarith+
    then have "leaf_next (s (rs ! 0)) \<noteq> 0" using regionsD(5) [OF r(2), of 0] regionsD(3) [OF r(2), of 1] by (simp add: next_region_start_def)
    then have "listed s (rs ! 0) 1 {#}" using st(5,6) by (intro listed_big) simp_all
    moreover have "rs \<noteq> [x]" for x using r(1) by auto
    ultimately show thesis using that [of "{#}"] by simp
  qed
qed

lemma list_node:
  assumes inv: "subtree rt lv s A N C" and p: "p \<in> N"
    and d: "\<forall>p\<in>N. \<forall>i<512. get_msb (node_entry s p i) \<noteq> 0 \<longrightarrow> digits (clear_msb (node_entry s p i)) = digits p @ [i]"
  shows "\<exists>w E. listed s (set_msb p 1) w E \<and> gathers s C digits (digits p) E \<and> finds_small s C p E"
  using inv p
proof (rule tree_induct)
  fix p assume p: "p \<in> N"
    and IH: "\<And>i. i < 512 \<Longrightarrow> get_msb (node_entry s p i) \<noteq> 0 \<Longrightarrow> \<exists>w E. listed s (set_msb (clear_msb (node_entry s p i)) 1) w E \<and>
      gathers s C digits (digits (clear_msb (node_entry s p i))) E \<and> finds_small s C (clear_msb (node_entry s p i)) E"
  define good where "good = (\<lambda>i w E. listed s (node_entry s p i) w E \<and> gathers s C digits (digits p @ [i]) E \<and>
    (if get_msb (node_entry s p i) \<noteq> 0 then finds_small s C (clear_msb (node_entry s p i)) E
     else \<forall>x es. C (p, i) = Some ([x], es) \<longrightarrow> leaf_holds (s x) es \<longrightarrow> set es \<subseteq> set_mset E))"
  have "\<exists>w E. good i w E" if i: "i < 512" "node_entry s p i \<noteq> 0" for i
  proof (rule node_entry_cases [OF inv p i(1)])
    assume "node_entry s p i = 0"
    then show ?thesis using i(2) by simp
  next
    assume n: "get_msb (node_entry s p i) \<noteq> 0" "node_entry s p i = set_msb (clear_msb (node_entry s p i)) 1"
    have "digits (clear_msb (node_entry s p i)) = digits p @ [i]" using d p i(1) n(1) by blast
    then show ?thesis using IH [OF i(1) n(1)] n unfolding good_def by (simp only: if_True not_False_eq_True)
  next
    fix rs es assume l: "get_msb (node_entry s p i) = 0" "node_entry s p i = rs ! 0" "C (p, i) = Some (rs, es)" "leaf_ok s rs es"
    obtain E where E: "listed s (rs ! 0) 1 E" "set_mset E \<subseteq> set es" "\<forall>k. size (filter_mset (\<lambda>e. kv_key e = k) E) \<le> 1"
      "\<forall>x. rs = [x] \<longrightarrow> leaf_holds (s x) es \<longrightarrow> E = mset es"
      by (rule listed_leaf_ok [OF inv l(3)])
    have "gathers s C digits (digits p @ [i]) E"
      unfolding gathers_def using E(2,3) l(3) by fastforce
    then have "good i 1 E" using E(1,4) l(1-3) by (auto simp: good_def)
    then show ?thesis by blast
  qed
  then have "\<forall>i. \<exists>x. i < 512 \<longrightarrow> node_entry s p i \<noteq> 0 \<longrightarrow> good i (fst x) (snd x)" by simp
  then obtain h where h: "\<forall>i. i < 512 \<longrightarrow> node_entry s p i \<noteq> 0 \<longrightarrow> good i (fst (h i)) (snd (h i))" by (rule choice [THEN exE])
  define w E where "w = (\<lambda>i. fst (h i))" and "E = (\<lambda>i. snd (h i))"
  have g: "good i (w i) (E i)" if "i < 512" "node_entry s p i \<noteq> 0" for i using h that by (simp add: w_def E_def)
  define js where "js = filter (\<lambda>i. node_entry s p i \<noteq> 0) [0..<512]"
  have js': "distinct js" "\<And>i. i \<in> set js \<longleftrightarrow> i < 512 \<and> node_entry s p i \<noteq> 0" by (auto simp: js_def)
  define xs where "xs = map (\<lambda>i. (node_entry s p i, w i, E i)) js"
  have "map fst xs = filter (\<lambda>c. c \<noteq> 0) (map (node_entry s (clear_msb (set_msb p 1))) [0..<512])"
    unfolding set_msb_node(2) [OF inv p] by (simp add: xs_def js_def filter_map comp_def)
  moreover have "\<forall>x\<in>set xs. listed s (fst x) (fst (snd x)) (snd (snd x))" using g js'(2) by (auto simp: xs_def good_def)
  ultimately have "listed s (set_msb p 1) (Suc (sum_list (map (\<lambda>x. fst (snd x)) xs))) (sum_list (map (\<lambda>x. snd (snd x)) xs))"
    by (rule listed_node [OF set_msb_node(1) [OF inv p]])
  moreover have "sum_list (map (\<lambda>x. snd (snd x)) xs) = sum_list (map E js)" by (simp add: xs_def comp_def)
  moreover have "gathers s C digits (digits p) (sum_list (map E js))"
    by (rule gathers_sum [OF inv _ js'(1)]) (use g js'(2) in \<open>simp add: good_def\<close>)
  moreover have "finds_small s C p (sum_list (map E js))"
    unfolding finds_small_def
  proof (intro allI impI)
    fix f key l q i l' x es
    assume search: "find_parent_from f s key p l = Some (q, i, l')" and c: "C (q, i) = Some ([x], es)" and h: "leaf_holds (s x) es"
    obtain f' where f': "f = Suc f'" using search by (cases f) simp_all
    define j where "j = get_bucket key (int l + 1)"
    have j: "j < 512" by (simp add: j_def get_bucket_less)
    have "node_entry s p j \<noteq> 0 \<and> set es \<subseteq> set_mset (E j)"
    proof (cases "get_msb (node_entry s p j) = 0")
      case True
      then have qi: "(q, i) = (p, j)" using search by (auto simp: f' Let_def j_def)
      note lf = leaf_atD [OF tree_invD(7) [OF inv c]]
      have "node_entry s p j \<noteq> 0" using lf(3) leaf_ok_start(4) [OF lf(6) tree_invD(1) [OF inv] lf(4)] qi by simp
      then show ?thesis using g [OF j] True c h qi unfolding good_def by simp
    next
      case False
      then have "find_parent_from f' s key (clear_msb (node_entry s p j)) (l + 1) = Some (q, i, l')"
        using search by (auto simp: f' Let_def j_def split: if_splits)
      moreover have ne: "node_entry s p j \<noteq> 0" using False by (metis get_msb_0)
      ultimately show ?thesis using g [OF j ne] False c h unfolding good_def finds_small_def by (simp only: if_True not_False_eq_True)
    qed
    then show "set es \<subseteq> set_mset (sum_list (map E js))" using js'(2) [of j] j by (auto simp: in_sum_mset)
  qed
  ultimately show "\<exists>w E. listed s (set_msb p 1) w E \<and> gathers s C digits (digits p) E \<and> finds_small s C p E" by metis
qed

section \<open>Properties\<close>

text \<open>C6: \<open>sample\<close> ends on a well-formed map, with enough fuel, whatever \<open>rand()\<close> returns.  It returns at most as
  many entries as wanted, all of them entries of the map, and no key twice.  When it returns fewer, there
  are no others but those with values of several regions, which it leaves out.\<close>

theorem sample_ok:
  assumes "map_rep s A M"
  shows "\<exists>f. \<forall>fuel\<ge>f. \<forall>rand wanted. \<exists>es. DiskMap_sample fuel rand wanted s = Some (Inr es) \<and> length es \<le> wanted \<and>
    distinct (map kv_key es) \<and> (\<forall>e\<in>set es. M (kv_key e) = Some (kv_value e)) \<and>
    (length es < wanted \<longrightarrow> (\<forall>k v. M k = Some v \<longrightarrow> entry_size k (length v) \<le> leaf_capacity \<longrightarrow> k \<in> kv_key ` set es))"
proof -
  obtain N C where inv: "tree_inv s A N C" and rep: "represents C M" using assms by (auto simp: map_rep_def)
  obtain digits :: "nat \<Rightarrow> nat list" where d: "\<forall>p\<in>N. \<forall>i<512. get_msb (node_entry s p i) \<noteq> 0 \<longrightarrow>
      digits (clear_msb (node_entry s p i)) = digits p @ [i]"
    using tree_invD(9) [OF inv] unfolding tree_shaped_def by blast
  obtain w E where l: "listed s (set_msb ROOT_PAGE 1) w E" "gathers s C digits (digits ROOT_PAGE) E" "finds_small s C ROOT_PAGE E"
    using list_node [OF inv tree_invD(2) [OF inv] d] by blast
  have mine: "M (kv_key e) = Some (kv_value e)" if "e \<in># E" for e
    using gathersD(1) [OF l(2) that] rep unfolding represents_def by blast
  have all: "\<exists>e. e \<in># E \<and> kv_key e = k" if kv: "M k = Some v" "entry_size k (length v) \<le> leaf_capacity" for k v
  proof -
    obtain q rs es e where c: "C q = Some (rs, es)" "e \<in> set es" "kv_key e = k" "kv_value e = v" using rep kv(1) unfolding represents_def by blast
    note lf = leaf_atD [OF tree_invD(7) [OF inv c(1)]]
    obtain x where x: "rs = [x]" "leaf_holds (s x) es" using lf(6) c kv(2) by (auto simp: leaf_ok_def big_leaf_def)
    have "leads_to s k q" using lf(8) [OF c(2)] c(3) by simp
    then obtain f l' where "find_parent_from f s k ROOT_PAGE 0 = Some (fst q, snd q, l')" unfolding leads_from_def by blast
    moreover have "C (fst q, snd q) = Some ([x], es)" using c(1) x(1) by simp
    ultimately show ?thesis using l(3) x(2) c(2,3) unfolding finds_small_def by blast
  qed
  show ?thesis
  proof (intro exI [of _ "Suc w"] allI impI)
    fix fuel wanted :: nat and rand assume fuel: "Suc w \<le> fuel"
    have "\<exists>r. sample_loop fuel rand s wanted (map fst [(set_msb ROOT_PAGE 1, w, E)]) [] = Some (Inr ([] @ r)) \<and>
      mset r \<subseteq># sum_list (map (\<lambda>x. snd (snd x)) [(set_msb ROOT_PAGE 1, w, E)]) \<and> length ([] @ r) \<le> wanted \<and>
      (length ([] @ r) < wanted \<longrightarrow> mset r = sum_list (map (\<lambda>x. snd (snd x)) [(set_msb ROOT_PAGE 1, w, E)]))"
      by (rule sample_loop_ok) (use l(1) fuel in simp_all)
    then obtain r where r: "DiskMap_sample fuel rand wanted s = Some (Inr r)" "mset r \<subseteq># E" "length r \<le> wanted"
      "length r < wanted \<longrightarrow> mset r = E" by (auto simp: DiskMap_sample_def)
    have "size (filter_mset (\<lambda>e. kv_key e = k) (mset r)) \<le> 1" for k
      using size_mset_mono [OF multiset_filter_mono [OF r(2), of "\<lambda>e. kv_key e = k"]] gathersD(2) [OF l(2), of k] by simp
    then have "distinct (map kv_key r)" by (rule once_distinct_keys)
    moreover have "e \<in># E" if "e \<in> set r" for e using mset_subset_eqD [OF r(2), of e] that by simp
    moreover have "k \<in> kv_key ` set r" if "length r < wanted" "M k = Some v" "entry_size k (length v) \<le> leaf_capacity" for k v
      using all [OF that(2,3)] r(4) that(1) by auto
    ultimately show "\<exists>es. DiskMap_sample fuel rand wanted s = Some (Inr es) \<and> length es \<le> wanted \<and>
      distinct (map kv_key es) \<and> (\<forall>e\<in>set es. M (kv_key e) = Some (kv_value e)) \<and>
      (length es < wanted \<longrightarrow> (\<forall>k v. M k = Some v \<longrightarrow> entry_size k (length v) \<le> leaf_capacity \<longrightarrow> k \<in> kv_key ` set es))"
      using r(1,3) mine by (intro exI [of _ r]) blast
  qed
qed

theorem sample_ok_witness:
  "\<exists>s s' f. DiskMap_format (\<lambda>_. zero_page) = Inr s \<and>
    write_at_node 9 ROOT_PAGE (get_bucket [99] 1) 0 [99] (Some [1, 2]) s = Some (Inr s') \<and>
    DiskMap_sample f (\<lambda>n. 7 * n) 3 s' = Some (Inr [\<lparr>kv_key = [99], kv_value = [1, 2]\<rparr>])"
proof -
  have k: "valid_key [99]" "length ([99] :: byte list) \<le> MAX_KEY_LENGTH" "entry_size [99] (length [1, 2 :: byte]) \<le> 2 ^ 31 - 2 ^ 13"
    by (simp_all add: valid_key_def MAX_KEY_LENGTH_def entry_size_def)
  obtain s s' A where s: "DiskMap_format (\<lambda>_. zero_page) = Inr s" "map_rep s' A [[99] \<mapsto> [1, 2]]"
    "write_at_node 9 ROOT_PAGE (get_bucket [99] 1) 0 [99] (Some [1, 2]) s = Some (Inr s')"
    by (rule written_map [OF k])
  obtain f es where es: "DiskMap_sample f (\<lambda>n. 7 * n) 3 s' = Some (Inr es)" "distinct (map kv_key es)"
    "\<forall>e\<in>set es. [[99] \<mapsto> [1, 2]] (kv_key e) = Some (kv_value e)"
    "length es < 3 \<longrightarrow> (\<forall>k v. [[99] \<mapsto> [1, 2 :: byte]] k = Some v \<longrightarrow> entry_size k (length v) \<le> leaf_capacity \<longrightarrow> k \<in> kv_key ` set es)"
    using sample_ok [OF s(2)] by blast
  have e: "e = \<lparr>kv_key = [99], kv_value = [1, 2]\<rparr>" if "e \<in> set es" for e using es(3) that by (cases e) (auto split: if_splits)
  have "kv_key ` set es \<subseteq> {[99]}" using e by force
  then have "length es \<le> 1" using distinct_card [OF es(2)] card_mono [of "{[99]}" "kv_key ` set es"] by simp
  moreover have "[99] \<in> kv_key ` set es"
    by (rule es(4) [rule_format, of "[99]" "[1, 2]"]) (use calculation in \<open>simp_all add: entry_size_def data_capacity\<close>)
  ultimately have "es = [\<lparr>kv_key = [99], kv_value = [1, 2]\<rparr>]" using e by (cases es) auto
  then show ?thesis using s(1,3) es(1) by blast
qed

end
