(* ===== verification/Map_Transactions.thy ===== *)
theory Map_Transactions
  imports Prelude Wal_Record Wal Transactions Recovery Database Pages Space_Manager Disk_Map Map_Trace Map_Invariant Map_Properties Map_Check Map_Remove Map_Part
begin

text \<open>
  The object \<open>DiskMap\<close> with its lock, its transactions and what they do to the map; and everything
  together, map, transactions, page store and files, as a transition system that refines a map with a
  current and a committed version.
\<close>

section \<open>The object and its lock\<close>

record shared_mutex =
  shared_owners :: nat
  exclusive_owned :: bool

text \<open>Waiting for the lock is \<open>None\<close>.\<close>

definition lock_shared :: "shared_mutex \<Rightarrow> shared_mutex option" where
  "lock_shared m = (if exclusive_owned m then None else Some (m\<lparr>shared_owners := shared_owners m + 1\<rparr>))"

definition lock_exclusive :: "shared_mutex \<Rightarrow> shared_mutex option" where
  "lock_exclusive m =
     (if exclusive_owned m \<or> shared_owners m \<noteq> 0 then None else Some (m\<lparr>exclusive_owned := True\<rparr>))"

definition unlock_shared :: "shared_mutex \<Rightarrow> shared_mutex" where
  "unlock_shared m = m\<lparr>shared_owners := shared_owners m - 1\<rparr>"

definition unlock_exclusive :: "shared_mutex \<Rightarrow> shared_mutex" where
  "unlock_exclusive m = m\<lparr>exclusive_owned := False\<rparr>"

record map_object =
  dm_store :: "BufferPool \<times> WAL"
  dm_operations :: nat
  global_lock :: shared_mutex

text \<open>Both classes of transactions: a read-only one has no state below (\<open>None\<close>).\<close>

record map_transaction =
  mt_tx :: "RWTransaction option"
  shared_guard :: bool
  unique_guard :: bool

definition begin_ro_transaction :: "map_object \<Rightarrow> (map_transaction \<times> map_object) option" where
  "begin_ro_transaction d = map_option (\<lambda>m.
     (\<lparr>mt_tx = None, shared_guard = True, unique_guard = False\<rparr>, d\<lparr>global_lock := m\<rparr>))
     (lock_shared (global_lock d))"

definition map_begin_rw :: "map_object \<Rightarrow> (map_transaction \<times> map_object) option" where
  "map_begin_rw d = (case lock_exclusive (global_lock d) of
     None \<Rightarrow> None
   | Some m \<Rightarrow> (case begin_rw_transaction (snd (dm_store d)) of
       None \<Rightarrow> None
     | Some (t, w) \<Rightarrow> Some (\<lparr>mt_tx = Some t, shared_guard = False, unique_guard = True\<rparr>,
         d\<lparr>dm_store := (fst (dm_store d), w), global_lock := m\<rparr>)))"

text \<open>\<open>commit\<close> and \<open>abort\<close>: the one of the log, then \<open>guard.unlock()\<close>, which raises when the guard does not
  hold the lock.\<close>

definition map_finish :: "(RWTransaction \<Rightarrow> BufferPool \<times> WAL \<Rightarrow> (RWTransaction \<times> BufferPool \<times> WAL) result) \<Rightarrow>
    map_transaction \<Rightarrow> map_object \<Rightarrow> (map_transaction \<times> map_object) result" where
  "map_finish f t d = (case mt_tx t of
     None \<Rightarrow> Inl MemoryError
   | Some x \<Rightarrow> bindR (f x (dm_store d)) (\<lambda>(x, s).
       if \<not> unique_guard t then Inl SystemError
       else Inr (t\<lparr>mt_tx := Some x, unique_guard := False\<rparr>,
         d\<lparr>dm_store := s, global_lock := unlock_exclusive (global_lock d)\<rparr>)))"

definition map_commit :: "map_transaction \<Rightarrow> map_object \<Rightarrow> (map_transaction \<times> map_object) result" where
  "map_commit = map_finish RWTransaction_commit"

definition map_abort :: "map_transaction \<Rightarrow> map_object \<Rightarrow> (map_transaction \<times> map_object) result" where
  "map_abort = map_finish RWTransaction_abort"

text \<open>The destructor: the members in the reverse order of their declarations, those of the derived class
  first, so both guards and then the transaction of the log.\<close>

definition release_guards :: "map_transaction \<Rightarrow> map_object \<Rightarrow> map_object" where
  "release_guards t d =
     (let m = global_lock d;
          m = (if unique_guard t then unlock_exclusive m else m);
          m = (if shared_guard t then unlock_shared m else m) in
      d\<lparr>global_lock := m\<rparr>)"

definition destroy_tx :: "map_transaction \<Rightarrow> map_object \<Rightarrow> map_object result" where
  "destroy_tx t d = (case mt_tx t of
     None \<Rightarrow> Inr d
   | Some x \<Rightarrow> bindR (RWTransaction_destroy x (dm_store d)) (\<lambda>s. Inr (d\<lparr>dm_store := s\<rparr>)))"

definition map_destroy :: "map_transaction \<Rightarrow> map_object \<Rightarrow> map_object result" where
  "map_destroy t d = destroy_tx t (release_guards t d)"

text \<open>The operations on the map: those of the tree, on the pages that the pool shows.  The changing ones
  get their pages through a transaction that has not finished.\<close>

definition map_pages :: "map_object \<Rightarrow> pages" where
  "map_pages d = view (fst (dm_store d))"

definition in_transaction :: "map_transaction \<Rightarrow> (disk_map \<Rightarrow> 'a result option) \<Rightarrow> map_object \<Rightarrow> 'a result option" where
  "in_transaction t f d = (case mt_tx t of
     None \<Rightarrow> Some (Inl MemoryError)
   | Some x \<Rightarrow>
       if rw_state x \<noteq> UNCOMMITTED
       then Some (Inl (DiskMapException ''get_page: transaction is already finished''))
       else f \<lparr>dm_pages = map_pages d, op_count = dm_operations d\<rparr>)"

definition tx_write :: "nat \<Rightarrow> map_transaction \<Rightarrow> byte list \<Rightarrow> buffer \<Rightarrow> map_object \<Rightarrow> disk_map result option" where
  "tx_write fuel t key buffer = in_transaction t (DiskMap_write fuel key buffer)"

definition tx_write_part :: "nat \<Rightarrow> map_transaction \<Rightarrow> byte list \<Rightarrow> nat \<Rightarrow> buffer \<Rightarrow> map_object \<Rightarrow> disk_map result option" where
  "tx_write_part fuel t key offset buffer = in_transaction t (DiskMap_write_part fuel key offset buffer)"

definition tx_append :: "nat \<Rightarrow> map_transaction \<Rightarrow> byte list \<Rightarrow> buffer \<Rightarrow> map_object \<Rightarrow> disk_map result option" where
  "tx_append fuel t key buffer = in_transaction t (DiskMap_append fuel key buffer)"

definition tx_remove :: "nat \<Rightarrow> map_transaction \<Rightarrow> byte list \<Rightarrow> map_object \<Rightarrow> (bool \<times> disk_map) result option" where
  "tx_remove fuel t key = in_transaction t (DiskMap_remove fuel key)"

definition tx_read :: "nat \<Rightarrow> byte list \<Rightarrow> map_object \<Rightarrow> byte list option result option" where
  "tx_read fuel key d = DiskMap_read fuel key (map_pages d)"

definition tx_read_part :: "nat \<Rightarrow> byte list \<Rightarrow> nat \<Rightarrow> nat \<Rightarrow> map_object \<Rightarrow> byte list option result option" where
  "tx_read_part fuel key offset n d = DiskMap_read_part fuel key offset n (map_pages d)"

definition tx_read_value_length :: "nat \<Rightarrow> byte list \<Rightarrow> map_object \<Rightarrow> nat option result option" where
  "tx_read_value_length fuel key d = DiskMap_read_value_length fuel key (map_pages d)"

definition tx_sample :: "nat \<Rightarrow> (nat \<Rightarrow> nat) \<Rightarrow> nat \<Rightarrow> map_object \<Rightarrow> KVEntry list result option" where
  "tx_sample fuel rand n d = DiskMap_sample fuel rand n (map_pages d)"

definition tx_debug_dump :: "nat \<Rightarrow> map_object \<Rightarrow> dump_line list result option" where
  "tx_debug_dump fuel d = debug_dump fuel (map_pages d)"

section \<open>Everything together\<close>

text \<open>The transactions there are: the one that writes, those whose destructor has released the lock and not yet
  undone the changes, those that have committed or aborted and still exist, and the read-only ones.\<close>

record map_system =
  sys_object :: map_object
  sys_writer :: "map_transaction option"
  sys_undoing :: "map_transaction list"
  sys_finished :: "map_transaction list"
  sys_readers :: nat

text \<open>The page store knows one transaction whose changes are not committed.\<close>

definition sys_live :: "map_system \<Rightarrow> RWTransaction option" where
  "sys_live s = (case sys_writer s of Some t \<Rightarrow> mt_tx t
     | None \<Rightarrow> (case sys_undoing s of [] \<Rightarrow> None | t # _ \<Rightarrow> mt_tx t))"

definition sys_db :: "map_system \<Rightarrow> db" where
  "sys_db s = \<lparr>db_pool = fst (dm_store (sys_object s)), db_wal = snd (dm_store (sys_object s)), db_live = sys_live s\<rparr>"

definition set_db :: "db \<Rightarrow> map_object \<Rightarrow> map_object" where
  "set_db b d = d\<lparr>dm_store := (db_pool b, db_wal b)\<rparr>"

datatype map_event =
    Begin_RO
  | End_RO
  | RO_Read "byte list" "byte list option"
  | Begin_RW
  | RW_Read "byte list" "byte list option"
  | RW_Write "byte list" "byte list"
  | RW_Write_Part "byte list" nat "byte list"
  | RW_Remove "byte list" bool
  | RW_Commit
  | RW_Abort
  | RW_Release
  | RW_Undo
  | Finished_Read "byte list" "byte list option"
  | Finished_End
  | Store
  | Reopen nat

text \<open>What the page store does while the map writes: it writes, pins and unpins pages; a checkpoint may be
  asked for.  On its own it does not write, but finishes checkpoints.\<close>

fun during_write :: "event \<Rightarrow> bool" where
  "during_write (Write page off data len) = True"
| "during_write (Read page advise pg) = True"
| "during_write (Unpin i) = True"
| "during_write Checkpoint_Start = True"
| "during_write _ = False"

fun on_its_own :: "event \<Rightarrow> bool" where
  "on_its_own (Read page advise pg) = True"
| "on_its_own (Unpin i) = True"
| "on_its_own Checkpoint_Start = True"
| "on_its_own Checkpoint_Finish = True"
| "on_its_own _ = False"

text \<open>Where writes, removals and reads are as they should be (\<open>map_writes\<close>, \<open>map_writes_part\<close>, \<open>map_removes\<close>,
  \<open>map_reads\<close>), as far as the pages say.\<close>

definition write_in_domain :: "nat \<Rightarrow> byte list \<Rightarrow> byte list \<Rightarrow> pages \<Rightarrow> bool" where
  "write_in_domain fuel key b s \<longleftrightarrow> valid_key key \<and> length key \<le> MAX_KEY_LENGTH \<and>
     entry_size key (length b) \<le> 2 ^ 31 - 2 ^ 13 \<and> next_free_page s + 2 ^ 28 \<le> 2 ^ 52 \<and> 9 \<le> fuel \<and>
     (case find_parent fuel s key of None \<Rightarrow> False
      | Some (p, i, _) \<Rightarrow> node_entry s p i = 0 \<or> leaf_next (s (node_entry s p i)) = 0)"

definition part_in_domain :: "nat \<Rightarrow> byte list \<Rightarrow> byte list \<Rightarrow> pages \<Rightarrow> bool" where
  "part_in_domain fuel key b s \<longleftrightarrow> valid_key key \<and> length key \<le> MAX_KEY_LENGTH \<and> b \<noteq> [] \<and>
     next_free_page s + 2 ^ 28 \<le> 2 ^ 52 \<and> 9 \<le> fuel \<and>
     (case find_parent fuel s key of None \<Rightarrow> False
      | Some (p, i, _) \<Rightarrow> node_entry s p i = 0 \<or> leaf_next (s (node_entry s p i)) = 0 \<or>
          find_entry_in_leaf (s (node_entry s p i)) key \<noteq> Inr (- 1))"

definition remove_in_domain :: "nat \<Rightarrow> byte list \<Rightarrow> pages \<Rightarrow> bool" where
  "remove_in_domain fuel key s \<longleftrightarrow> valid_key key \<and> next_free_page s + 20 \<le> 2 ^ 52 \<and>
     (case find_parent fuel s key of None \<Rightarrow> False
      | Some (p, i, _) \<Rightarrow> p = ROOT_PAGE \<or> leaf_entry_count (s (node_entry s p i)) \<noteq> 1 \<or> \<not> lone_subtree s p i)"

definition read_in_domain :: "byte list \<Rightarrow> pages \<Rightarrow> bool" where
  "read_in_domain key s \<longleftrightarrow> valid_key key \<and> next_free_page s < 2 ^ 16"

inductive map_step :: "(nat list \<Rightarrow> nat list) \<Rightarrow> map_system \<Rightarrow> map_event \<Rightarrow> map_system \<Rightarrow> bool" for traverse where
  begin_ro: "begin_ro_transaction (sys_object s) = Some (t, d) \<Longrightarrow>
    map_step traverse s Begin_RO (s\<lparr>sys_object := d, sys_readers := sys_readers s + 1\<rparr>)"
| end_ro: "0 < sys_readers s \<Longrightarrow>
    map_destroy \<lparr>mt_tx = None, shared_guard = True, unique_guard = False\<rparr> (sys_object s) = Inr d \<Longrightarrow>
    map_step traverse s End_RO (s\<lparr>sys_object := d, sys_readers := sys_readers s - 1\<rparr>)"
| ro_read: "0 < sys_readers s \<Longrightarrow> read_in_domain key (map_pages (sys_object s)) \<Longrightarrow>
    tx_read fuel key (sys_object s) = Some (Inr v) \<Longrightarrow> map_step traverse s (RO_Read key v) s"
| begin_rw: "map_begin_rw (sys_object s) = Some (t, d) \<Longrightarrow> lsn_room (snd (dm_store (sys_object s))) \<Longrightarrow>
    map_step traverse s Begin_RW (s\<lparr>sys_object := d, sys_writer := Some t\<rparr>)"
| rw_read: "sys_writer s = Some t \<Longrightarrow> read_in_domain key (map_pages (sys_object s)) \<Longrightarrow>
    tx_read fuel key (sys_object s) = Some (Inr v) \<Longrightarrow> map_step traverse s (RW_Read key v) s"
| rw_write: "sys_writer s = Some t \<Longrightarrow> write_in_domain fuel key b (map_pages (sys_object s)) \<Longrightarrow>
    tx_write fuel t key (Some b) (sys_object s) = Some (Inr m) \<Longrightarrow>
    db_run traverse (sys_db s) es db' \<Longrightarrow> \<forall>e\<in>set es. during_write e \<Longrightarrow> view (db_pool db') = dm_pages m \<Longrightarrow>
    map_step traverse s (RW_Write key b) (s\<lparr>sys_object := set_db db' (sys_object s\<lparr>dm_operations := op_count m\<rparr>)\<rparr>)"
| rw_write_part: "sys_writer s = Some t \<Longrightarrow> part_in_domain fuel key b (map_pages (sys_object s)) \<Longrightarrow>
    (if off = NPOS then tx_append fuel t key (Some b) (sys_object s) else tx_write_part fuel t key off (Some b) (sys_object s)) = Some (Inr m) \<Longrightarrow>
    db_run traverse (sys_db s) es db' \<Longrightarrow> \<forall>e\<in>set es. during_write e \<Longrightarrow> view (db_pool db') = dm_pages m \<Longrightarrow>
    map_step traverse s (RW_Write_Part key off b) (s\<lparr>sys_object := set_db db' (sys_object s\<lparr>dm_operations := op_count m\<rparr>)\<rparr>)"
| rw_remove: "sys_writer s = Some t \<Longrightarrow> remove_in_domain fuel key (map_pages (sys_object s)) \<Longrightarrow>
    tx_remove fuel t key (sys_object s) = Some (Inr (found, m)) \<Longrightarrow>
    db_run traverse (sys_db s) es db' \<Longrightarrow> \<forall>e\<in>set es. during_write e \<Longrightarrow> view (db_pool db') = dm_pages m \<Longrightarrow>
    map_step traverse s (RW_Remove key found) (s\<lparr>sys_object := set_db db' (sys_object s\<lparr>dm_operations := op_count m\<rparr>)\<rparr>)"
| rw_commit: "sys_writer s = Some t \<Longrightarrow> lsn_room (snd (dm_store (sys_object s))) \<Longrightarrow>
    map_commit t (sys_object s) = Inr (t', d) \<Longrightarrow>
    map_step traverse s RW_Commit (s\<lparr>sys_object := d, sys_writer := None, sys_finished := t' # sys_finished s\<rparr>)"
| rw_abort: "sys_writer s = Some t \<Longrightarrow> lsn_room (snd (dm_store (sys_object s))) \<Longrightarrow>
    map_abort t (sys_object s) = Inr (t', d) \<Longrightarrow>
    map_step traverse s RW_Abort (s\<lparr>sys_object := d, sys_writer := None, sys_finished := t' # sys_finished s\<rparr>)"
| rw_release: "sys_writer s = Some t \<Longrightarrow>
    map_step traverse s RW_Release
      (s\<lparr>sys_object := release_guards t (sys_object s), sys_writer := None, sys_undoing := sys_undoing s @ [t]\<rparr>)"
| rw_undo: "t \<in> set (sys_undoing s) \<Longrightarrow> lsn_room (snd (dm_store (sys_object s))) \<Longrightarrow>
    destroy_tx t (sys_object s) = Inr d \<Longrightarrow>
    map_step traverse s RW_Undo (s\<lparr>sys_object := d, sys_undoing := remove1 t (sys_undoing s)\<rparr>)"
| finished_read: "t \<in> set (sys_finished s) \<Longrightarrow> read_in_domain key (map_pages (sys_object s)) \<Longrightarrow>
    tx_read fuel key (sys_object s) = Some (Inr v) \<Longrightarrow> map_step traverse s (Finished_Read key v) s"
| finished_end: "t \<in> set (sys_finished s) \<Longrightarrow> map_destroy t (sys_object s) = Inr d \<Longrightarrow>
    map_step traverse s Finished_End (s\<lparr>sys_object := d, sys_finished := remove1 t (sys_finished s)\<rparr>)"
| store: "db_step traverse (sys_db s) e db' \<Longrightarrow> on_its_own e \<Longrightarrow>
    map_step traverse s Store (s\<lparr>sys_object := set_db db' (sys_object s)\<rparr>)"
| reopen: "db_step traverse (sys_db s) (Crash n) db' \<Longrightarrow> magic_ok (view (db_pool db')) \<Longrightarrow>
    map_step traverse s (Reopen n) \<lparr>sys_object = \<lparr>dm_store = (db_pool db', db_wal db'), dm_operations = 0,
      global_lock = \<lparr>shared_owners = 0, exclusive_owned = False\<rparr>\<rparr>, sys_writer = None, sys_undoing = [], sys_finished = [], sys_readers = 0\<rparr>"

inductive map_run :: "(nat list \<Rightarrow> nat list) \<Rightarrow> map_system \<Rightarrow> map_event list \<Rightarrow> map_system \<Rightarrow> bool" for traverse where
  run_start: "map_run traverse s [] s"
| run_step: "map_run traverse s es s' \<Longrightarrow> map_step traverse s' e s'' \<Longrightarrow> map_run traverse s (es @ [e]) s''"

definition opened :: "db \<Rightarrow> map_system" where
  "opened b = \<lparr>sys_object = \<lparr>dm_store = (db_pool b, db_wal b), dm_operations = 0,
     global_lock = \<lparr>shared_owners = 0, exclusive_owned = False\<rparr>\<rparr>, sys_writer = None, sys_undoing = [], sys_finished = [], sys_readers = 0\<rparr>"

section \<open>Specification\<close>

type_synonym contents = "byte list \<rightharpoonup> byte list"

record map_spec =
  live_map :: contents
  saved_map :: contents
  undoing :: nat

text \<open>Between the two parts of a destructor (\<open>undoing\<close>) a read-only transaction sees the changes that are still to be
  undone, at any other time the committed version.  A transaction that has finished holds no lock: reads
  through it see whatever the pages hold.\<close>

fun map_spec_step :: "map_event \<Rightarrow> map_spec \<Rightarrow> map_spec option" where
  "map_spec_step (RO_Read key v) m = (if v = (if undoing m = 0 then saved_map m else live_map m) key then Some m else None)"
| "map_spec_step (RW_Read key v) m = (if v = live_map m key then Some m else None)"
| "map_spec_step (RW_Write key b) m = Some (m\<lparr>live_map := (live_map m)(key \<mapsto> b)\<rparr>)"
| "map_spec_step (RW_Write_Part key off b) m = Some (m\<lparr>live_map := (live_map m)(key \<mapsto> part_value (live_map m key) off b)\<rparr>)"
| "map_spec_step (RW_Remove key found) m =
     (if found = (live_map m key \<noteq> None) then Some (m\<lparr>live_map := (live_map m)(key := None)\<rparr>) else None)"
| "map_spec_step RW_Commit m = Some (m\<lparr>saved_map := live_map m\<rparr>)"
| "map_spec_step RW_Abort m = Some (m\<lparr>live_map := saved_map m\<rparr>)"
| "map_spec_step RW_Release m = Some (m\<lparr>undoing := undoing m + 1\<rparr>)"
| "map_spec_step RW_Undo m = Some (m\<lparr>live_map := saved_map m, undoing := undoing m - 1\<rparr>)"
| "map_spec_step (Finished_Read key v) m = (if v = live_map m key then Some m else None)"
| "map_spec_step (Reopen n) m = Some (m\<lparr>live_map := saved_map m, undoing := 0\<rparr>)"
| "map_spec_step _ m = Some m"

fun map_spec_run :: "map_event list \<Rightarrow> map_spec \<Rightarrow> map_spec option" where
  "map_spec_run [] m = Some m"
| "map_spec_run (e # es) m = Option.bind (map_spec_step e m) (map_spec_run es)"

text \<open>Writes that the map can take: no key with the same hash, no longer value that is replaced, no offset
  behind the value, and no value that is too long.  And no read-write transaction begins while another one
  has released its lock and not undone its changes: the lock allows it, and the undoing then runs beside
  the changes of the new one.\<close>

fun legal_step :: "map_event \<Rightarrow> map_spec \<Rightarrow> bool" where
  "legal_step (RW_Write key b) m \<longleftrightarrow> inj_on fnv_hash (insert key (dom (live_map m))) \<and>
     (\<forall>v. live_map m key = Some v \<longrightarrow> length v \<le> length b)"
| "legal_step (RW_Write_Part key off b) m \<longleftrightarrow> inj_on fnv_hash (insert key (dom (live_map m))) \<and>
     (\<forall>v. live_map m key = Some v \<longrightarrow> off = NPOS \<or> off \<le> length v) \<and>
     entry_size key (length (part_value (live_map m key) off b)) \<le> 2 ^ 31 - 2 ^ 13"
| "legal_step Begin_RW m \<longleftrightarrow> undoing m = 0"
| "legal_step _ m \<longleftrightarrow> True"

fun legal :: "map_event list \<Rightarrow> map_spec \<Rightarrow> bool" where
  "legal [] m \<longleftrightarrow> True"
| "legal (e # es) m \<longleftrightarrow> legal_step e m \<and> (\<forall>m'. map_spec_step e m = Some m' \<longrightarrow> legal es m')"

section \<open>Refinement\<close>

text \<open>The invariant: the store holds the two versions; the lock is held for the transactions there are.\<close>

definition locks_ok :: "map_system \<Rightarrow> bool" where
  "locks_ok s \<longleftrightarrow> shared_owners (global_lock (sys_object s)) = sys_readers s \<and>
     exclusive_owned (global_lock (sys_object s)) = (sys_writer s \<noteq> None) \<and>
     (\<forall>t. sys_writer s = Some t \<longrightarrow> mt_tx t \<noteq> None \<and> unique_guard t \<and> \<not> shared_guard t \<and> sys_readers s = 0 \<and> sys_undoing s = []) \<and>
     length (sys_undoing s) \<le> 1 \<and> (\<forall>t\<in>set (sys_undoing s). mt_tx t \<noteq> None) \<and>
     (\<forall>t\<in>set (sys_finished s). \<not> unique_guard t \<and> \<not> shared_guard t \<and> (\<exists>x. mt_tx t = Some x \<and> rw_state x \<noteq> UNCOMMITTED))"

lemma locks_okD:
  assumes "locks_ok s"
  shows "shared_owners (global_lock (sys_object s)) = sys_readers s" "exclusive_owned (global_lock (sys_object s)) = (sys_writer s \<noteq> None)"
    "sys_writer s = Some t \<Longrightarrow> mt_tx t \<noteq> None \<and> unique_guard t \<and> \<not> shared_guard t \<and> sys_readers s = 0 \<and> sys_undoing s = []"
    "t \<in> set (sys_undoing s) \<Longrightarrow> sys_undoing s = [t] \<and> mt_tx t \<noteq> None \<and> sys_writer s = None"
    "t \<in> set (sys_finished s) \<Longrightarrow> \<not> unique_guard t \<and> \<not> shared_guard t \<and> (\<exists>x. mt_tx t = Some x \<and> rw_state x \<noteq> UNCOMMITTED)"
proof -
  show "t \<in> set (sys_undoing s) \<Longrightarrow> sys_undoing s = [t] \<and> mt_tx t \<noteq> None \<and> sys_writer s = None"
    using assms by (cases "sys_undoing s"; cases "sys_writer s") (auto simp: locks_ok_def)
qed (use assms in \<open>auto simp: locks_ok_def\<close>)

definition system_ok :: "map_system \<Rightarrow> map_spec \<Rightarrow> bool" where
  "system_ok s m \<longleftrightarrow> (\<exists>a A A'. simulates (sys_db s) a \<and> map_rep (current a) A (live_map m) \<and> map_rep (committed a) A' (saved_map m) \<and>
     (sys_writer s = None \<and> sys_undoing s = [] \<longrightarrow> current a = committed a \<and> live_map m = saved_map m)) \<and>
     undoing m = length (sys_undoing s) \<and> locks_ok s"

lemma system_okD:
  assumes "system_ok s m"
  obtains a A A' where "simulates (sys_db s) a" "map_pages (sys_object s) = current a" "map_rep (current a) A (live_map m)"
    "map_rep (committed a) A' (saved_map m)" "sys_writer s = None \<and> sys_undoing s = [] \<longrightarrow> current a = committed a \<and> live_map m = saved_map m"
    "undoing m = length (sys_undoing s)" "locks_ok s"
proof -
  obtain a A A' where a: "simulates (sys_db s) a" "map_rep (current a) A (live_map m)"
    "map_rep (committed a) A' (saved_map m)" "sys_writer s = None \<and> sys_undoing s = [] \<longrightarrow> current a = committed a \<and> live_map m = saved_map m"
    "undoing m = length (sys_undoing s)" "locks_ok s"
    using assms unfolding system_ok_def by (elim conjE exE) metis
  have "map_pages (sys_object s) = current a" using a(1) by (simp add: simulates_def sys_db_def map_pages_def)
  from that [OF a(1) this a(2-6)] show thesis .
qed

lemma system_okI:
  assumes "simulates (sys_db s) a" "map_rep (current a) A (live_map m)" "map_rep (committed a) A' (saved_map m)"
    "sys_writer s = None \<and> sys_undoing s = [] \<longrightarrow> current a = committed a \<and> live_map m = saved_map m"
    "undoing m = length (sys_undoing s)" "locks_ok s"
  shows "system_ok s m"
  unfolding system_ok_def using assms by (intro conjI exI [of _ a] exI [of _ A] exI [of _ A'])

lemma sys_db_simps [simp]:
  "db_pool (sys_db s) = fst (dm_store (sys_object s))" "db_wal (sys_db s) = snd (dm_store (sys_object s))"
  "db_live (sys_db s) = sys_live s"
  by (simp_all add: sys_db_def)

lemma sys_live_object [simp]: "sys_live (s\<lparr>sys_object := d\<rparr>) = sys_live s"
  by (auto simp: sys_live_def split: option.splits list.splits)

lemma sys_live_simps [simp]:
  "sys_writer s = Some t \<Longrightarrow> sys_live s = mt_tx t" "sys_writer s = None \<Longrightarrow> sys_undoing s = [] \<Longrightarrow> sys_live s = None"
  "sys_writer s = None \<Longrightarrow> sys_undoing s = t # ts \<Longrightarrow> sys_live s = mt_tx t"
  by (simp_all add: sys_live_def)

lemma during_write_kept:
  "spec_step e a = Some a' \<Longrightarrow> during_write e \<Longrightarrow> committed a' = committed a"
  "db_step traverse b e b' \<Longrightarrow> during_write e \<Longrightarrow> db_live b' = db_live b"
  subgoal by (cases e) (auto split: if_splits)
  subgoal by (cases rule: db_step.cases) auto
  done

lemma writes_kept:
  assumes "db_run traverse b es b'" "\<forall>e\<in>set es. during_write e" "simulates b a" "traverses traverse"
  obtains a' where "simulates b' a'" "committed a' = committed a" "db_live b' = db_live b"
  using assms
proof (induction arbitrary: thesis rule: db_run.induct)
  case (run_Nil s)
  then show ?case by blast
next
  case (run_snoc s es s' e s'')
  have es: "\<forall>e\<in>set es. during_write e" "during_write e" using run_snoc.prems(2) by simp_all
  obtain a1 where a1: "simulates s' a1" "committed a1 = committed a" "db_live s' = db_live s"
    using run_snoc.IH [OF _ es(1) run_snoc.prems(3,4)] by blast
  obtain a2 where a2: "spec_step e a1 = Some a2" "simulates s'' a2"
    using step_simulates [OF run_snoc(2) a1(1) run_snoc.prems(4)] by blast
  show ?case
    by (rule run_snoc.prems(1) [OF a2(2)])
      (use during_write_kept(1) [OF a2(1) es(2)] during_write_kept(2) [OF run_snoc(2) es(2)] a1 in simp_all)
qed

lemma on_its_own_kept:
  "spec_step e a = Some a' \<Longrightarrow> on_its_own e \<Longrightarrow> a' = a"
  "db_step traverse b e b' \<Longrightarrow> on_its_own e \<Longrightarrow> db_live b' = db_live b"
  subgoal by (cases e) (auto split: if_splits)
  subgoal by (cases rule: db_step.cases) auto
  done

lemma read_at_parent:
  assumes "map_rep s A M" "read_in_domain key s" "find_parent fuel s key = Some r"
  shows "DiskMap_read fuel key s = Some (Inr (M key))"
proof -
  obtain N C where inv: "tree_inv s A N C" and rep: "represents C M" using assms(1) by (auto simp: map_rep_def)
  obtain p i l where fp: "find_parent fuel s key = Some (p, i, l)" using assms(3) by (cases r) auto
  have k: "valid_key key" "next_free_page s < 2 ^ 16" using assms(2) by (simp_all add: read_in_domain_def)
  have "length v \<le> NPOS" if "M key = Some v" for v using value_length [OF inv rep that] unfolding NPOS_def by linarith
  then have "map_option (\<lambda>v. take NPOS (drop 0 v)) (M key) = M key" by (cases "M key") simp_all
  then show ?thesis using read_part_at(1) [OF inv rep k _ fp, of 0 NPOS] by (simp add: DiskMap_read_def)
qed

lemma read_current:
  assumes "map_rep s A M" "read_in_domain key s" "DiskMap_read fuel key s = Some (Inr v)"
  shows "v = M key"
proof -
  obtain r where "find_parent fuel s key = Some r"
    using assms(3) by (cases "find_parent fuel s key") (auto simp: DiskMap_read_def DiskMap_read_part_def)
  then show ?thesis using read_at_parent [OF assms(1,2)] assms(3) by simp
qed

lemma read_returns:
  assumes "map_rep s A M" "read_in_domain key s"
  obtains fuel where "DiskMap_read fuel key s = Some (Inr (M key))"
proof -
  obtain N C where "tree_inv s A N C" using assms(1) by (auto simp: map_rep_def)
  then obtain q where "leads_to s key q" using tree_invD(5) by blast
  then obtain fuel l where "find_parent fuel s key = Some (fst q, snd q, l)" unfolding leads_to_def by blast
  from read_at_parent [OF assms this] show thesis by (rule that)
qed

lemma write_current:
  assumes rep: "map_rep s A M" and dom: "write_in_domain fuel key b s" and hash: "inj_on fnv_hash (insert key (dom M))"
    and longer: "\<forall>v. M key = Some v \<longrightarrow> length v \<le> length b"
    and w: "DiskMap_write fuel key (Some b) \<lparr>dm_pages = s, op_count = n\<rparr> = Some (Inr m)"
  obtains A' where "map_rep (dm_pages m) A' (M(key \<mapsto> b))"
proof -
  obtain p i l where fp: "find_parent fuel s key = Some (p, i, l)" "node_entry s p i = 0 \<or> leaf_next (s (node_entry s p i)) = 0"
    using dom unfolding write_in_domain_def by (auto split: option.splits)
  have k: "valid_key key" "length key \<le> MAX_KEY_LENGTH" "entry_size key (length b) \<le> 2 ^ 31 - 2 ^ 13"
    "next_free_page s + 2 ^ 28 \<le> 2 ^ 52" "9 \<le> fuel" using dom by (simp_all add: write_in_domain_def)
  obtain s' A' where s': "write_at_node fuel p i l key (Some b) s = Some (Inr s')" "map_rep s' A' (M(key \<mapsto> b))"
    by (rule map_write_step [OF rep k(1-4) hash fp longer k(5)])
  then have "dm_pages m = s'" using w fp(1) by (auto simp: DiskMap_write_def on_pages_def count_op_def)
  then show thesis using that s'(2) by simp
qed

lemma part_current:
  assumes rep: "map_rep s A M" and dom: "part_in_domain fuel key b s" and hash: "inj_on fnv_hash (insert key (dom M))"
    and off: "\<forall>v. M key = Some v \<longrightarrow> off = NPOS \<or> off \<le> length v"
    and size: "entry_size key (length (part_value (M key) off b)) \<le> 2 ^ 31 - 2 ^ 13"
    and w: "DiskMap_write_part fuel key off (Some b) \<lparr>dm_pages = s, op_count = n\<rparr> = Some (Inr m)"
  obtains A' where "map_rep (dm_pages m) A' (M(key \<mapsto> part_value (M key) off b))"
proof -
  obtain p i l where fp: "find_parent fuel s key = Some (p, i, l)" "node_entry s p i = 0 \<or>
    leaf_next (s (node_entry s p i)) = 0 \<or> find_entry_in_leaf (s (node_entry s p i)) key \<noteq> Inr (- 1)"
    using dom unfolding part_in_domain_def by (auto split: option.splits)
  have k: "valid_key key" "length key \<le> MAX_KEY_LENGTH" "b \<noteq> []" "next_free_page s + 2 ^ 28 \<le> 2 ^ 52" "9 \<le> fuel"
    using dom by (simp_all add: part_in_domain_def)
  have "M key = None \<longrightarrow> node_entry s p i = 0 \<or> leaf_next (s (node_entry s p i)) = 0"
    using find_absent(1) [OF rep k(1) fp(1)] fp(2) by auto
  from write_part_step [OF rep k(1-3) off size k(4) hash fp(1) this k(5), of n]
  show thesis using that w by auto
qed

lemma remove_current:
  assumes rep: "map_rep s A M" and dom: "remove_in_domain fuel key s"
    and r: "DiskMap_remove fuel key \<lparr>dm_pages = s, op_count = n\<rparr> = Some (Inr (found, m))"
  obtains A' where "map_rep (dm_pages m) A' (M(key := None))" "found = (M key \<noteq> None)"
proof -
  obtain p i l where fp: "find_parent fuel s key = Some (p, i, l)"
    "M key = None \<or> p = ROOT_PAGE \<or> leaf_entry_count (s (node_entry s p i)) \<noteq> 1 \<or> \<not> lone_subtree s p i"
    using dom unfolding remove_in_domain_def by (auto split: option.splits)
  have k: "valid_key key" "next_free_page s + 20 \<le> 2 ^ 52" using dom by (simp_all add: remove_in_domain_def)
  obtain s' A' where s': "remove_impl fuel key s = Some (Inr (M key \<noteq> None, s'))" "map_rep s' A' (M(key := None))"
    by (rule map_remove_step [OF rep k fp])
  then have "dm_pages m = s'" "found = (M key \<noteq> None)" using r by (auto simp: DiskMap_remove_def count_op_def)
  then show thesis using that s'(2) by simp
qed

lemma finished_state:
  "RWTransaction_commit x s = Inr (x', s') \<Longrightarrow> rw_state x' \<noteq> UNCOMMITTED"
  "RWTransaction_abort x s = Inr (x', s') \<Longrightarrow> rw_state x' \<noteq> UNCOMMITTED"
  by (cases s; auto simp: RWTransaction_commit_def RWTransaction_abort_def bindR_Inr split: if_splits)+

lemma map_step_ok:
  assumes step: "map_step traverse s e s'" and ok: "system_ok s m" and legal: "legal_step e m" and tr: "traverses traverse"
  obtains m' where "map_spec_step e m = Some m'" "system_ok s' m'"
proof -
  obtain a A A' where a: "simulates (sys_db s) a" "map_pages (sys_object s) = current a" "map_rep (current a) A (live_map m)"
    "map_rep (committed a) A' (saved_map m)"
    "sys_writer s = None \<and> sys_undoing s = [] \<longrightarrow> current a = committed a \<and> live_map m = saved_map m" "undoing m = length (sys_undoing s)"
    and locks: "locks_ok s"
    by (rule system_okD [OF ok])
  note db_step = step_simulates [OF _ a(1) tr]
  have spec: thesis if "map_spec_step e m = Some m'" "simulates (sys_db s') a'" "map_rep (current a') B (live_map m')"
    "map_rep (committed a') B' (saved_map m')" "sys_writer s' = None \<and> sys_undoing s' = [] \<longrightarrow> current a' = committed a' \<and> live_map m' = saved_map m'"
    "undoing m' = length (sys_undoing s')" "locks_ok s'" for m' a' B B'
    using that(1) by (rule \<open>\<And>m'. map_spec_step e m = Some m' \<Longrightarrow> system_ok s' m' \<Longrightarrow> thesis\<close>)
      (rule system_okI [OF that(2-7)])
  have live: "\<exists>x. mt_tx t = Some x \<and> rw_state x = UNCOMMITTED" if "sys_writer s = Some t" for t
    using that locks_okD(3) [OF locks that] a(1) by (auto simp: simulates_def)
  have unchanged: thesis if "sys_writer s' = sys_writer s" "sys_undoing s' = sys_undoing s" "dm_store (sys_object s') = dm_store (sys_object s)"
    "map_spec_step e m = Some m" "locks_ok s'"
  proof -
    have "sys_db s' = sys_db s" using that(1-3) by (auto simp: sys_db_def sys_live_def split: option.splits list.splits)
    then show thesis using that a by (intro spec [of m a A A']) auto
  qed
  have changed: thesis if "sys_writer s = Some t" "db_run traverse (sys_db s) es db'" "\<forall>e\<in>set es. during_write e" "view (db_pool db') = pgs"
    "s' = s\<lparr>sys_object := set_db db' (sys_object s\<lparr>dm_operations := n\<rparr>)\<rparr>" "map_rep pgs B L" "map_spec_step e m = Some (m\<lparr>live_map := L\<rparr>)"
    for t es db' pgs n B L
  proof -
    note run = that
    obtain a' where a': "simulates db' a'" "committed a' = committed a" "db_live db' = db_live (sys_db s)"
      by (rule writes_kept [OF run(2,3) a(1) tr])
    have "sys_db s' = db'" using a'(3) run(1,5) by (simp add: sys_db_def set_db_def sys_live_def)
    then have sim: "simulates (sys_db s') a'" using a'(1) by simp
    have "current a' = pgs" using a'(1) run(4) by (simp add: simulates_def)
    then show thesis
      using sim a'(2) a(4,6) locks run(1,5-7) by (intro spec [of "m\<lparr>live_map := L\<rparr>" a' B A']) (auto simp: locks_ok_def set_db_def)
  qed
  show thesis
    using step
  proof cases
    case (begin_ro t d)
    show thesis
      by (rule unchanged) (use begin_ro locks in \<open>auto simp: begin_ro_transaction_def lock_shared_def locks_ok_def split: if_splits\<close>)
  next
    case (end_ro d)
    show thesis
      by (rule unchanged)
        (use end_ro locks in \<open>auto simp: map_destroy_def destroy_tx_def release_guards_def unlock_shared_def locks_ok_def Let_def\<close>)
  next
    case (ro_read key fuel v)
    have "sys_writer s = None" using ro_read(3) locks by (cases "sys_writer s") (auto simp: locks_ok_def)
    moreover have "v = live_map m key"
      using read_current [OF a(3)] ro_read(4,5) a(2) by (simp add: tx_read_def)
    ultimately show thesis using a(5,6) locks ro_read(1,2) by (intro unchanged) auto
  next
    case (begin_rw t d)
    have free: "sys_writer s = None" "shared_owners (global_lock (sys_object s)) = 0"
      using begin_rw(3) locks by (auto simp: map_begin_rw_def lock_exclusive_def locks_ok_def split: option.splits if_splits)
    have none: "sys_undoing s = []" using legal begin_rw(1) a(6) by simp
    then obtain x w where t: "begin_rw_transaction (snd (dm_store (sys_object s))) = Some (x, w)"
      "t = \<lparr>mt_tx = Some x, shared_guard = False, unique_guard = True\<rparr>"
      "dm_store d = (fst (dm_store (sys_object s)), w)" "shared_owners (global_lock d) = 0" "exclusive_owned (global_lock d)"
      using begin_rw(3) by (auto simp: map_begin_rw_def lock_exclusive_def split: option.splits if_splits)
    have "db_step traverse (sys_db s) Begin ((sys_db s)\<lparr>db_wal := w, db_live := Some x\<rparr>)"
      by (rule db_step.step_begin) (use free none t begin_rw(4) in simp_all)
    moreover have "(sys_db s)\<lparr>db_wal := w, db_live := Some x\<rparr> = sys_db s'"
      using t begin_rw(2) by (simp add: sys_db_def)
    ultimately have "simulates (sys_db s') a" using db_step by fastforce
    then show thesis
      using a locks free none t begin_rw(1,2) by (intro spec [of m a A A']) (auto simp: locks_ok_def)
  next
    case (rw_read t key fuel v)
    have "v = live_map m key" using read_current [OF a(3)] rw_read(4,5) a(2) by (simp add: tx_read_def)
    then show thesis using locks rw_read(1,2) by (intro unchanged) auto
  next
    case (rw_write t fuel key b m1 es db')
    have "DiskMap_write fuel key (Some b) \<lparr>dm_pages = current a, op_count = dm_operations (sys_object s)\<rparr> = Some (Inr m1)"
      using rw_write(5) live [OF rw_write(3)] a(2) by (auto simp: tx_write_def in_transaction_def)
    from write_current [OF a(3) rw_write(4) [unfolded a(2)] _ _ this] obtain B where "map_rep (dm_pages m1) B ((live_map m)(key \<mapsto> b))"
      using legal rw_write(1) by auto
    then show thesis by (rule changed [OF rw_write(3,6-8,2)]) (simp add: rw_write(1))
  next
    case (rw_write_part t fuel key b off m1 es db')
    have "DiskMap_write_part fuel key off (Some b) \<lparr>dm_pages = current a, op_count = dm_operations (sys_object s)\<rparr> = Some (Inr m1)"
      using rw_write_part(5) live [OF rw_write_part(3)] a(2)
      by (auto simp: tx_write_part_def tx_append_def DiskMap_append_def in_transaction_def split: if_splits)
    from part_current [OF a(3) rw_write_part(4) [unfolded a(2)] _ _ _ this] obtain B where
      "map_rep (dm_pages m1) B ((live_map m)(key \<mapsto> part_value (live_map m key) off b))"
      using legal rw_write_part(1) by auto
    then show thesis by (rule changed [OF rw_write_part(3,6-8,2)]) (simp add: rw_write_part(1))
  next
    case (rw_remove t fuel key found m1 es db')
    have "DiskMap_remove fuel key \<lparr>dm_pages = current a, op_count = dm_operations (sys_object s)\<rparr> = Some (Inr (found, m1))"
      using rw_remove(5) live [OF rw_remove(3)] a(2) by (auto simp: tx_remove_def in_transaction_def)
    from remove_current [OF a(3) rw_remove(4) [unfolded a(2)] this] obtain B where
      "map_rep (dm_pages m1) B ((live_map m)(key := None))" "found = (live_map m key \<noteq> None)" .
    then show thesis by (intro changed [OF rw_remove(3,6-8,2)]) (simp_all add: rw_remove(1))
  next
    case (rw_commit t t' d)
    obtain x where x: "mt_tx t = Some x" "unique_guard t" "\<not> shared_guard t" "sys_readers s = 0" "sys_undoing s = []"
      "shared_owners (global_lock (sys_object s)) = 0"
      using locks rw_commit(3) by (auto simp: locks_ok_def)
    obtain x' p w where c: "RWTransaction_commit x (dm_store (sys_object s)) = Inr (x', p, w)"
      "d = (sys_object s)\<lparr>dm_store := (p, w), global_lock := unlock_exclusive (global_lock (sys_object s))\<rparr>"
      "t' = t\<lparr>mt_tx := Some x', unique_guard := False\<rparr>"
      using rw_commit(5) x by (auto simp: map_commit_def map_finish_def bindR_Inr)
    have fin: "rw_state x' \<noteq> UNCOMMITTED" by (rule finished_state(1) [OF c(1)])
    have "db_step traverse (sys_db s) Commit ((sys_db s)\<lparr>db_pool := p, db_wal := w, db_live := None\<rparr>)"
      by (rule db_step.step_commit [of _ x]) (use x rw_commit(3,4) c(1) in simp_all)
    moreover have "(sys_db s)\<lparr>db_pool := p, db_wal := w, db_live := None\<rparr> = sys_db s'"
      using c(2) x(5) rw_commit(2) by (simp add: sys_db_def)
    ultimately have "simulates (sys_db s') (a\<lparr>committed := current a\<rparr>)" using db_step by fastforce
    then show thesis
      using a(3,6) x c(2,3) fin locks rw_commit(1,2)
      by (intro spec [of "m\<lparr>saved_map := live_map m\<rparr>" "a\<lparr>committed := current a\<rparr>" A A]) (auto simp: locks_ok_def unlock_exclusive_def)
  next
    case (rw_abort t t' d)
    obtain x where x: "mt_tx t = Some x" "unique_guard t" "\<not> shared_guard t" "sys_readers s = 0" "sys_undoing s = []"
      "shared_owners (global_lock (sys_object s)) = 0"
      using locks rw_abort(3) by (auto simp: locks_ok_def)
    obtain x' p w where c: "RWTransaction_abort x (dm_store (sys_object s)) = Inr (x', p, w)"
      "d = (sys_object s)\<lparr>dm_store := (p, w), global_lock := unlock_exclusive (global_lock (sys_object s))\<rparr>"
      "t' = t\<lparr>mt_tx := Some x', unique_guard := False\<rparr>"
      using rw_abort(5) x by (auto simp: map_abort_def map_finish_def bindR_Inr)
    have fin: "rw_state x' \<noteq> UNCOMMITTED" by (rule finished_state(2) [OF c(1)])
    have "db_step traverse (sys_db s) Abort ((sys_db s)\<lparr>db_pool := p, db_wal := w, db_live := None\<rparr>)"
      by (rule db_step.step_abort [of _ x]) (use x rw_abort(3,4) c(1) in simp_all)
    moreover have "(sys_db s)\<lparr>db_pool := p, db_wal := w, db_live := None\<rparr> = sys_db s'"
      using c(2) x(5) rw_abort(2) by (simp add: sys_db_def)
    ultimately have "simulates (sys_db s') (a\<lparr>current := committed a\<rparr>)" using db_step by fastforce
    then show thesis
      using a(4,6) x c(2,3) fin locks rw_abort(1,2)
      by (intro spec [of "m\<lparr>live_map := saved_map m\<rparr>" "a\<lparr>current := committed a\<rparr>" A' A']) (auto simp: locks_ok_def unlock_exclusive_def)
  next
    case (rw_release t)
    note g = locks_okD(3) [OF locks rw_release(3)]
    have "sys_db s' = sys_db s"
      using g rw_release(2,3) by (simp add: sys_db_def sys_live_def release_guards_def Let_def)
    then have "simulates (sys_db s') a" using a(1) by simp
    moreover have "locks_ok s'"
      using g locks rw_release(2,3) by (auto simp: locks_ok_def release_guards_def Let_def unlock_exclusive_def)
    moreover have "sys_undoing s' = [t]" using g rw_release(2) by simp
    ultimately show thesis
      using a(3,4,6) g rw_release(1) by (intro spec [of "m\<lparr>undoing := undoing m + 1\<rparr>" a A A']) simp_all
  next
    case (rw_undo t d)
    obtain x where x: "mt_tx t = Some x" "sys_undoing s = [t]" "sys_writer s = None" using locks_okD(4) [OF locks rw_undo(3)] by auto
    obtain p w where c: "RWTransaction_destroy x (dm_store (sys_object s)) = Inr (p, w)" "d = (sys_object s)\<lparr>dm_store := (p, w)\<rparr>"
      using rw_undo(5) x by (auto simp: destroy_tx_def bindR_Inr)
    have "db_step traverse (sys_db s) Destroy ((sys_db s)\<lparr>db_pool := p, db_wal := w, db_live := None\<rparr>)"
      by (rule db_step.step_destroy [of _ x]) (use x rw_undo(4) c(1) in simp_all)
    moreover have "(sys_db s)\<lparr>db_pool := p, db_wal := w, db_live := None\<rparr> = sys_db s'"
      using c(2) x rw_undo(2) by (simp add: sys_db_def)
    ultimately have "simulates (sys_db s') (a\<lparr>current := committed a\<rparr>)" using db_step by fastforce
    then show thesis
      using a(4,6) x c(2) locks rw_undo(1,2)
      by (intro spec [of "m\<lparr>live_map := saved_map m, undoing := undoing m - 1\<rparr>" "a\<lparr>current := committed a\<rparr>" A' A'])
        (auto simp: locks_ok_def)
  next
    case (finished_read t key fuel v)
    have "v = live_map m key" using read_current [OF a(3)] finished_read(4,5) a(2) by (simp add: tx_read_def)
    then show thesis using locks finished_read(1,2) by (intro unchanged) auto
  next
    case (finished_end t d)
    obtain x where x: "mt_tx t = Some x" "rw_state x \<noteq> UNCOMMITTED" "\<not> unique_guard t" "\<not> shared_guard t"
      using locks_okD(5) [OF locks finished_end(3)] by auto
    have "d = sys_object s" using finished_end(4) x by (simp add: map_destroy_def destroy_tx_def release_guards_def RWTransaction_destroy_def)
    then show thesis using locks finished_end(1,2) by (intro unchanged) (auto simp: locks_ok_def dest: notin_set_remove1)
  next
    case (store e1 db')
    obtain a' where "spec_step e1 a = Some a'" "simulates db' a'" using db_step [OF store(3)] by blast
    then have a': "simulates db' a" using on_its_own_kept(1) [OF _ store(4)] by blast
    have "sys_db s' = db'" using on_its_own_kept(2) [OF store(3,4)] store(2) by (simp add: sys_db_def set_db_def)
    then show thesis
      using a' a locks store(1,2) by (intro spec [of m a A A']) (auto simp: locks_ok_def set_db_def)
  next
    case (reopen n db')
    have sim: "simulates db' (a\<lparr>current := committed a\<rparr>)" using db_step [OF reopen(3)] by auto
    have "db_live db' = None" using reopen(3) by (cases rule: db_step.cases) auto
    then have "sys_db s' = db'" using reopen(2) by (simp add: sys_db_def)
    then show thesis
      using sim a(4) reopen(1,2)
      by (intro spec [of "m\<lparr>live_map := saved_map m, undoing := 0\<rparr>" "a\<lparr>current := committed a\<rparr>" A' A']) (auto simp: locks_ok_def)
  qed
qed

lemma map_spec_run_snoc: "map_spec_run (es @ [e]) m = Option.bind (map_spec_run es m) (map_spec_step e)"
proof (induction es arbitrary: m)
  case Nil
  then show ?case by (cases "map_spec_step e m") simp_all
next
  case (Cons x es)
  then show ?case by (cases "map_spec_step x m") simp_all
qed

lemma legal_snoc: "legal (es @ [e]) m \<longleftrightarrow> legal es m \<and> (\<forall>m'. map_spec_run es m = Some m' \<longrightarrow> legal_step e m')"
proof (induction es arbitrary: m)
  case (Cons x es)
  show ?case
  proof (cases "map_spec_step x m")
    case None
    then show ?thesis by simp
  next
    case (Some m1)
    then show ?thesis using Cons [of m1] by simp
  qed
qed simp

lemma map_run_ok:
  "map_run traverse s es s' \<Longrightarrow> system_ok s m \<Longrightarrow> legal es m \<Longrightarrow> traverses traverse \<Longrightarrow>
   \<exists>m'. map_spec_run es m = Some m' \<and> system_ok s' m'"
proof (induction rule: map_run.induct)
  case (run_start s)
  then show ?case by simp
next
  case (run_step s es s' e s'')
  then obtain m1 where m1: "map_spec_run es m = Some m1" "system_ok s' m1" by (auto simp: legal_snoc)
  moreover have "legal_step e m1" using run_step.prems(2) m1(1) by (simp add: legal_snoc)
  ultimately obtain m2 where "map_spec_step e m1 = Some m2" "system_ok s'' m2"
    using map_step_ok [OF run_step(2) m1(2) _ run_step.prems(3)] by metis
  then show ?case using m1(1) by (simp add: map_spec_run_snoc)
qed

text \<open>A database whose file holds a map.\<close>

lemma opened_ok:
  assumes "simulates b a" "db_live b = None" "current a = committed a" "map_rep (current a) A M"
  shows "system_ok (opened b) \<lparr>live_map = M, saved_map = M, undoing = 0\<rparr>"
proof (rule system_okI [of _ a])
  have "sys_db (opened b) = b" using assms(2) by (simp add: sys_db_def opened_def)
  then show "simulates (sys_db (opened b)) a" using assms(1) by simp
  show "locks_ok (opened b)" by (simp add: locks_ok_def opened_def)
qed (use assms(3,4) in \<open>simp_all add: opened_def\<close>)

section \<open>Runs exist\<close>

lemma db_run_trans: "db_run traverse b1 es' b2 \<Longrightarrow> db_run traverse b es b1 \<Longrightarrow> db_run traverse b (es @ es') b2"
proof (induction rule: db_run.induct)
  case (run_snoc s es1 s1 e s2)
  have "db_run traverse b ((es @ es1) @ [e]) s2" by (rule db_run.run_snoc [OF run_snoc.IH [OF run_snoc.prems] run_snoc(2)])
  then show ?case by simp
qed simp

text \<open>A sequence of \<open>k\<close> changes of pages can be run, if the log has room for \<open>k\<close> records.\<close>

definition runnable :: "db \<Rightarrow> nat \<Rightarrow> bool" where
  "runnable b k \<longleftrightarrow> next_lsn (db_wal b) + 2 * length (records (db_wal b)) + 3 + 3 * k < 2 ^ 32 \<and>
     fsync_results (db_wal b) = [] \<and> \<not> checkpoint_pending (db_wal b) \<and> 0 \<in> set (refcounts (db_pool b))"

lemma runnableD:
  assumes "runnable b k"
  shows "lsn_room (db_wal b)" "fsync_results (db_wal b) = []" "0 \<in> set (refcounts (db_pool b))" "\<not> checkpoint_pending (db_wal b)"
    "j \<le> k \<Longrightarrow> runnable b j"
  using assms by (auto simp: runnable_def lsn_room_def)

lemma changes_run:
  assumes "(page_change ^^ k) s s'" "simulates b a" "db_live b = Some t" "current a = s" "runnable b (k + n)" "traverses traverse"
  obtains es b' where "db_run traverse b es b'" "\<forall>e\<in>set es. during_write e" "view (db_pool b') = s'" "db_live b' = Some t"
    "simulates b' (a\<lparr>current := s'\<rparr>)" "runnable b' n"
  using assms
proof (induction k arbitrary: s b a thesis)
  case 0
  show ?case
    by (rule "0.prems"(1) [of "[]" b]) (use 0 in \<open>auto intro: db_run.run_Nil simp: simulates_def\<close>)
next
  case (Suc k)
  obtain s1 where s1: "page_change s s1" "(page_change ^^ k) s1 s'"
    using Suc.prems(2) by (rule relpowp_Suc_E2)
  from s1(1) obtain f off len bs where c: "f * PAGE_SIZE + off < 2 ^ 64" "off < PAGE_SIZE" "off + len \<le> PAGE_SIZE" "length bs \<le> len"
    "s1 = s(f := blit (s f) off (pad len bs))"
    by (rule page_change.cases) blast
  note r = runnableD [OF Suc.prems(6)]
  obtain p' w' where w: "db_step traverse b (Write f off bs len) (b\<lparr>db_pool := p', db_wal := w'\<rparr>)"
    "next_lsn w' = next_lsn (db_wal b) + 1" "length (records w') = Suc (length (records (db_wal b)))"
    "fsync_results w' = []" "refcounts p' = refcounts (db_pool b)" "checkpoint_pending w' = checkpoint_pending (db_wal b)"
    by (rule write_step [OF Suc.prems(3,4) r(1-3) c(1-4)])
  define b1 where "b1 = b\<lparr>db_pool := p', db_wal := w'\<rparr>"
  have b1: "simulates b1 (a\<lparr>current := s1\<rparr>)" "db_live b1 = Some t" "runnable b1 (k + n)"
    using step_simulates [OF w(1) Suc.prems(3,7)] Suc.prems(4,5,6) c(5) w(2-6) by (auto simp: b1_def runnable_def)
  obtain es b' where es: "db_run traverse b1 es b'" "\<forall>e\<in>set es. during_write e" "view (db_pool b') = s'" "db_live b' = Some t"
    "simulates b' (a\<lparr>current := s1\<rparr>\<lparr>current := s'\<rparr>)" "runnable b' n"
    by (rule Suc.IH [OF _ s1(2) b1(1,2) _ b1(3) Suc.prems(7)]) simp_all
  have "db_run traverse b ([] @ [Write f off bs len]) b1" unfolding b1_def by (rule db_run.run_snoc [OF db_run.run_Nil w(1)])
  from db_run_trans [OF es(1) this] show ?case
    by (rule Suc.prems(1)) (use es in simp_all)
qed

text \<open>How many changes an operation makes.\<close>

definition within :: "nat \<Rightarrow> pages \<Rightarrow> pages \<Rightarrow> bool" where
  "within n s s' \<longleftrightarrow> (\<exists>k\<le>n. (page_change ^^ k) s s')"

lemma within_0: "within 0 s s"
  by (simp add: within_def)

lemma within_trans:
  assumes "within m s s1" "within n s1 s2"
  shows "within (m + n) s s2"
proof -
  obtain j k where "j \<le> m" "(page_change ^^ j) s s1" "k \<le> n" "(page_change ^^ k) s1 s2" using assms by (auto simp: within_def)
  then show ?thesis unfolding within_def by (intro exI [of _ "j + k"]) (auto simp: relpowp_add)
qed

lemma within_mono: "within m s s' \<Longrightarrow> m \<le> n \<Longrightarrow> within n s s'"
  using order_trans unfolding within_def by blast

lemma pages_write_within:
  assumes "pages_write page off bs len s = Inr s'"
  shows "within 1 s s'"
proof -
  define loc where "loc = (page * PAGE_SIZE + off) mod 2 ^ 64"
  have "loc < 2 ^ 64" by (simp add: loc_def)
  moreover have "length bs \<le> len \<and> loc mod PAGE_SIZE + len \<le> PAGE_SIZE \<and>
      s' = s(loc div PAGE_SIZE := blit (s (loc div PAGE_SIZE)) (loc mod PAGE_SIZE) (pad len bs))"
    using assms unfolding pages_write_def Let_def loc_def [symmetric] by (auto split: if_splits)
  ultimately have "page_change s s'"
    using page_change.intros [of "loc div PAGE_SIZE" "loc mod PAGE_SIZE" len bs s] by simp
  then have "(page_change ^^ 1) s s'" by (simp only: relpowp_1)
  then show ?thesis unfolding within_def by blast
qed

lemma put_within:
  "put_bytes page off bs s = Inr s' \<Longrightarrow> within 1 s s'" "put_u64 page off v s = Inr s' \<Longrightarrow> within 1 s s'"
  "put_u16 page off v s = Inr s' \<Longrightarrow> within 1 s s'" "put_i32 page off i s = Inr s' \<Longrightarrow> within 1 s s'"
  "clear_page page s = Inr s' \<Longrightarrow> within 1 s s'"
  unfolding put_bytes_def put_u64_def put_u16_def put_i32_def clear_page_def
  by (rule pages_write_within, assumption)+

lemma put_fields_within:
  "put_kv_entry_count v s = Inr s' \<Longrightarrow> within 1 s s'" "put_next_free_page v s = Inr s' \<Longrightarrow> within 1 s s'"
  "put_last_fpl_page k v s = Inr s' \<Longrightarrow> within 1 s s'" "put_last_fpl_page_entries k i s = Inr s' \<Longrightarrow> within 1 s s'"
  "put_leaf_usage f v s = Inr s' \<Longrightarrow> within 1 s s'" "put_leaf_entry_count f v s = Inr s' \<Longrightarrow> within 1 s s'"
  "put_leaf_data f off bs s = Inr s' \<Longrightarrow> within 1 s s'" "put_node_entry p off v s = Inr s' \<Longrightarrow> within 1 s s'"
  unfolding put_meta_defs put_leaf_usage_def put_leaf_entry_count_def put_leaf_data_def put_node_entry_def
  by (erule put_within)+

lemma bindR_within:
  assumes "bindR r g = Inr y" "\<And>x. r = Inr x \<Longrightarrow> within m s (h x)" "\<And>x. r = Inr x \<Longrightarrow> g x = Inr y \<Longrightarrow> within n (h x) s'"
  shows "within (m + n) s s'"
  using assms by (cases r) (auto intro: within_trans)

lemma format_orders_within: "format_orders ks s = Inr s' \<Longrightarrow> within (2 * length ks) s s'"
proof (induction ks arbitrary: s)
  case (Cons k ks)
  then obtain s1 s2 where "put_last_fpl_page k (k + 2) s = Inr s1" "put_last_fpl_page_entries k 0 s1 = Inr s2" "format_orders ks s2 = Inr s'"
    by (auto simp: bindR_Inr)
  with within_trans [OF within_trans [OF put_fields_within(3) put_fields_within(4)] Cons.IH] have "within (1 + 1 + 2 * length ks) s s'" by blast
  then show ?case by simp
qed (simp add: within_0)

lemma format_within: "DiskMap_format s = Inr s' \<Longrightarrow> within 81 s s'"
proof -
  assume "DiskMap_format s = Inr s'"
  then obtain s1 s2 s3 where "put_kv_entry_count 0 s = Inr s1" "put_next_free_page (MAX_ORDER + 3) s1 = Inr s2"
    "format_orders [0..<MAX_ORDER + 1] s2 = Inr s3" "put_bytes 0 0 MAGIC s3 = Inr s'"
    by (auto simp: DiskMap_format_def bindR_Inr)
  with within_trans [OF within_trans [OF within_trans [OF put_fields_within(1) put_fields_within(2)] format_orders_within] put_within(1)]
  have "within (1 + 1 + 2 * length [0..<MAX_ORDER + 1] + 1) s s'" by blast
  then show ?thesis by (simp add: MAX_ORDER_def)
qed

lemma allocate_page_within: "SpaceManager_allocate 0 s = Inr (x, s') \<Longrightarrow> within 3 s s'"
proof (cases "last_fpl_page_entries s 0 = 0")
  case True
  assume "SpaceManager_allocate 0 s = Inr (x, s')"
  then obtain v where "put_next_free_page v s = Inr s'" using True by (auto simp: SpaceManager_allocate_def bindR_Inr Let_def split: if_splits)
  then show ?thesis using put_fields_within(2) within_mono [of 1 s s' 3] by fastforce
next
  case False
  assume "SpaceManager_allocate 0 s = Inr (x, s')"
  then obtain y fpl s1 where run: "clear_region y 1 s = Inr s1" "pop_fpl 0 fpl s1 = Inr s'"
    using False by (auto simp: SpaceManager_allocate_def bindR_Inr Let_def shift_one_def split: if_splits)
  have "within 1 s s1" using run(1) put_within(5) by (auto simp: bindR_Inr numeral_2_eq_2)
  moreover have "within 2 s1 s'"
  proof -
    have "put_last_fpl_page k v s1 = Inr s2 \<Longrightarrow> put_last_fpl_page_entries 0 n s2 = Inr s' \<Longrightarrow> within 2 s1 s'" for k v s2 n
      using within_trans [OF put_fields_within(3) put_fields_within(4), of k v s1 s2 0 n s'] by (simp add: numeral_2_eq_2)
    moreover have "put_last_fpl_page_entries 0 n s1 = Inr s' \<Longrightarrow> within 2 s1 s'" for n
      using within_mono [OF put_fields_within(4), of 0 n s1 s' 2] by simp
    ultimately show ?thesis
      using run(2) by (auto simp: pop_fpl_def Let_def bindR_Inr split: if_splits)
  qed
  ultimately show ?thesis using within_trans [of 1 s s1 2 s'] by (simp add: numeral_3_eq_3)
qed

text \<open>A first small value.\<close>

lemma small_write_within:
  assumes inv: "tree_inv s A N C" and k: "valid_key key" "length key \<le> MAX_KEY_LENGTH"
    and q: "leads_to s key (p, i)" "C (p, i) = None"
    and small: "entry_size key (length b) \<le> leaf_capacity" and room: "next_free_page s + 1 \<le> 2 ^ 52"
    and w: "write_at_node (Suc fuel) p i l key (Some b) s = Some (Inr s')"
  shows "within 8 s s'"
proof -
  define e where "e = \<lparr>kv_key = key, kv_value = b\<rparr>"
  note in_tree = leads_to_in [OF inv q(1)]
  have ne: "node_entry s p i = 0" using tree_invD(6) [OF inv in_tree] q(2) by simp
  have te: "total_entries_size [e] \<le> leaf_capacity" using small by (simp add: total_entries_size_def e_def)
  obtain x s1 where made: "create_leaf [e] s = Inr (x, s1)" "leaf_made s A [x] [e] s1"
    by (rule create_leaf_made [OF tree_invD(1) [OF inv], of "[e]"]) (use room k(1) te in \<open>simp_all add: e_def\<close>)
  have keys: "distinct (map kv_key [e])" "\<forall>e'\<in>set [e]. leads_to s (kv_key e') (p, i)" using q(1) by (simp_all add: e_def)
  note att = attach_leaf [OF inv in_tree(1,2) ne q(2) made(2) keys]
  obtain s2 where s2: "link_subtree p i x s1 = Inr s2" "count_entry s2 = Inr s'"
    using w ne k te made(1) by (auto simp: write_at_node_def valid_key_def bindO_Inr e_def [symmetric])
  have link: "put_node_entry p i x s1 = Inr s2" using s2(1) att(4) by (simp add: link_subtree_def)
  obtain y s3 where s3: "SpaceManager_allocate 0 s = Inr (y, s3)" "fill_leaf y [e] s3 = Inr s1"
    using made(1) by (auto simp: create_leaf_def bindR_Inr)
  obtain s4 s5 where s4: "put_leaf_usage y (total_entries_size [e]) s3 = Inr s4"
    "put_leaf_entry_count y (length [e]) s4 = Inr s5" "put_leaf_data y 0 (encode_entries [e]) s5 = Inr s1"
    using s3(2) by (auto simp: fill_leaf_def bindR_Inr)
  have "within (3 + 1 + 1 + 1 + 1 + 1) s s'"
    by (rule within_trans [OF within_trans [OF within_trans [OF within_trans [OF within_trans
          [OF allocate_page_within [OF s3(1)] put_fields_within(5) [OF s4(1)]] put_fields_within(6) [OF s4(2)]]
          put_fields_within(7) [OF s4(3)]] put_fields_within(8) [OF link]] put_fields_within(1) [OF s2(2) [unfolded count_entry_def]]])
  then show ?thesis by simp
qed

section \<open>Creating a map\<close>

text \<open>The constructor on a new file: a transaction that writes the metadata and commits.\<close>

inductive map_create :: "(nat list \<Rightarrow> nat list) \<Rightarrow> data_file \<Rightarrow> nat \<Rightarrow> db \<Rightarrow> bool" for traverse f n where
  "DiskMap_format (file_page f) = Inr s \<Longrightarrow>
   db_step traverse (fresh_db f n []) Begin b1 \<Longrightarrow> db_run traverse b1 es b2 \<Longrightarrow> \<forall>e\<in>set es. during_write e \<Longrightarrow>
   view (db_pool b2) = s \<Longrightarrow> db_step traverse b2 Commit b \<Longrightarrow> map_create traverse f n b"

lemma begin_step_at:
  assumes "simulates b a" "db_live b = None" "runnable b (Suc n)" "traverses traverse"
  obtains t w where "begin_rw_transaction (db_wal b) = Some (t, w)" "db_step traverse b Begin (b\<lparr>db_wal := w, db_live := Some t\<rparr>)"
    "simulates (b\<lparr>db_wal := w, db_live := Some t\<rparr>) a" "runnable (b\<lparr>db_wal := w, db_live := Some t\<rparr>) n"
proof -
  note r = runnableD [OF assms(3)]
  obtain t w where w: "db_step traverse b Begin (b\<lparr>db_wal := w, db_live := Some t\<rparr>)"
    "next_lsn w = next_lsn (db_wal b) + 1" "length (records w) = Suc (length (records (db_wal b)))"
    "fsync_results w = fsync_results (db_wal b)" "\<not> checkpoint_pending w" "begin_rw_transaction (db_wal b) = Some (t, w)"
    by (rule begin_step [OF assms(2) r(1,4), of traverse])
  have "runnable (b\<lparr>db_wal := w, db_live := Some t\<rparr>) n" using assms(3) w by (simp add: runnable_def)
  moreover have "simulates (b\<lparr>db_wal := w, db_live := Some t\<rparr>) a" using step_simulates [OF w(1) assms(1,4)] by simp
  ultimately show thesis using that w(1,6) by blast
qed

lemma commit_step_at:
  assumes "simulates b a" "db_live b = Some t" "runnable b (Suc n)" "traverses traverse"
  obtains w where "RWTransaction_commit t (db_pool b, db_wal b) = Inr (t\<lparr>rw_state := COMMITTED\<rparr>, db_pool b, w)"
    "db_step traverse b Commit (b\<lparr>db_wal := w, db_live := None\<rparr>)"
    "simulates (b\<lparr>db_wal := w, db_live := None\<rparr>) (a\<lparr>committed := current a\<rparr>)" "runnable (b\<lparr>db_wal := w, db_live := None\<rparr>) n"
proof -
  note r = runnableD [OF assms(3)]
  obtain w where w: "db_step traverse b Commit (b\<lparr>db_wal := w, db_live := None\<rparr>)"
    "next_lsn w = next_lsn (db_wal b) + 1" "length (records w) = Suc (length (records (db_wal b)))"
    "fsync_results w = []" "checkpoint_pending w = checkpoint_pending (db_wal b)"
    "RWTransaction_commit t (db_pool b, db_wal b) = Inr (t\<lparr>rw_state := COMMITTED\<rparr>, db_pool b, w)"
    by (rule commit_step [OF assms(1,2) r(1,2), of traverse])
  have "runnable (b\<lparr>db_wal := w, db_live := None\<rparr>) n" using assms(3) w by (simp add: runnable_def)
  moreover have "simulates (b\<lparr>db_wal := w, db_live := None\<rparr>) (a\<lparr>committed := current a\<rparr>)" using step_simulates [OF w(1) assms(1,4)] by simp
  ultimately show thesis using that w(1,6) by blast
qed

lemma within_run:
  assumes "within k s s'" "simulates b a" "db_live b = Some t" "current a = s" "runnable b (k + n)" "traverses traverse"
  obtains es b' where "db_run traverse b es b'" "\<forall>e\<in>set es. during_write e" "view (db_pool b') = s'" "db_live b' = Some t"
    "simulates b' (a\<lparr>current := s'\<rparr>)" "runnable b' n"
proof -
  obtain j where j: "j \<le> k" "(page_change ^^ j) s s'" using assms(1) by (auto simp: within_def)
  have "runnable b (j + n)" by (rule runnableD(5) [OF assms(5)]) (use j(1) in simp)
  from changes_run [OF j(2) assms(2-4) this assms(6)] that show thesis by blast
qed

lemma map_created:
  assumes f: "file_inv f" "\<forall>p. is_zero (file_page f p)" and n: "0 < n" and tr: "traverses traverse"
  obtains b a where "map_create traverse f n b" "simulates b a" "db_live b = None" "current a = committed a"
    "view (db_pool b) = current a" "map_rep (current a) {} Map.empty" "is_zero (current a ROOT_PAGE)" "next_free_page (current a) = 41"
    "magic_ok (current a)" "runnable b 1000"
proof -
  obtain s where s: "DiskMap_format (file_page f) = Inr s" "map_rep s {} Map.empty" "next_free_page s = 41" "is_zero (s ROOT_PAGE)"
    by (rule new_map [OF f(2)])
  have magic: "magic_ok s" by (rule format_ok [OF f(2)]) (use s(1) in simp)
  define b0 where "b0 = fresh_db f n []"
  define a0 where "a0 = \<lparr>current = file_page f, committed = file_page f\<rparr>"
  have b0: "simulates b0 a0" "db_live b0 = None" "runnable b0 (Suc (81 + Suc 1000))"
    using fresh_simulates [OF f(1), of n "[]"] n by (simp_all add: b0_def a0_def fresh_db_simps runnable_def)
  obtain t w where b: "db_step traverse b0 Begin (b0\<lparr>db_wal := w, db_live := Some t\<rparr>)"
    "simulates (b0\<lparr>db_wal := w, db_live := Some t\<rparr>) a0" "runnable (b0\<lparr>db_wal := w, db_live := Some t\<rparr>) (81 + Suc 1000)"
    by (rule begin_step_at [OF b0 tr])
  define b1 where "b1 = b0\<lparr>db_wal := w, db_live := Some t\<rparr>"
  have b1: "db_live b1 = Some t" "current a0 = file_page f" by (simp_all add: b1_def a0_def)
  obtain es b2 where es: "db_run traverse b1 es b2" "\<forall>e\<in>set es. during_write e" "view (db_pool b2) = s" "db_live b2 = Some t"
    "simulates b2 (a0\<lparr>current := s\<rparr>)" "runnable b2 (Suc 1000)"
    by (rule within_run [OF format_within [OF s(1)] b(2) [folded b1_def] b1 b(3) [folded b1_def] tr])
  obtain w' where w': "db_step traverse b2 Commit (b2\<lparr>db_wal := w', db_live := None\<rparr>)"
    "simulates (b2\<lparr>db_wal := w', db_live := None\<rparr>) (a0\<lparr>current := s, committed := s\<rparr>)" "runnable (b2\<lparr>db_wal := w', db_live := None\<rparr>) 1000"
    by (rule commit_step_at [OF es(5,4,6) tr]) simp
  have "map_create traverse f n (b2\<lparr>db_wal := w', db_live := None\<rparr>)"
    by (rule map_create.intros [OF s(1) b(1) [folded b1_def, unfolded b0_def] es(1-3) w'(1)])
  then show thesis
    by (rule that [OF _ w'(2)]) (use s magic es(3) w'(3) in simp_all)
qed

lemma map_create_run:
  assumes "map_create traverse f n b"
  obtains es where "db_run traverse (fresh_db f n []) es b" "db_live b = None" "DiskMap_format (file_page f) = Inr (view (db_pool b))"
  using assms
proof cases
  case (1 s b1 es b2)
  have "db_run traverse (fresh_db f n []) ([] @ [Begin]) b1" by (rule db_run.run_snoc [OF db_run.run_Nil 1(2)])
  from db_run.run_snoc [OF db_run_trans [OF 1(3) this] 1(6)]
  have "db_run traverse (fresh_db f n []) (([] @ [Begin]) @ es @ [Commit]) b" by simp
  moreover have "db_live b = None" "db_pool b = db_pool b2"
    using 1(6) by (cases rule: db_step.cases; auto simp: RWTransaction_commit_def bindR_Inr split: if_splits)+
  ultimately show thesis using that 1(1,5) by simp
qed

section \<open>An example\<close>

lemma map_runI: "map_run traverse s es s1 \<Longrightarrow> map_step traverse s1 e s2 \<Longrightarrow> es' = es @ [e] \<Longrightarrow> map_run traverse s es' s2"
  using map_run.run_step by metis

definition key97 :: "byte list" where
  "key97 = [97]"

lemma example_write:
  obtains b s t where "map_create remdups empty_file 4 b" "map_rep (view (db_pool b)) {} Map.empty"
    "map_run remdups (opened b) [Begin_RW, RW_Write key97 [1, 2, 3]] s" "sys_writer s = Some t"
    "system_ok s \<lparr>live_map = [key97 \<mapsto> [1, 2, 3]], saved_map = Map.empty, undoing = 0\<rparr>" "runnable (sys_db s) 100"
    "next_free_page (map_pages (sys_object s)) < 2 ^ 16"
proof -
  have k: "valid_key key97" "length key97 = 1" by (simp_all add: valid_key_def key97_def)
  obtain b a where b: "map_create remdups empty_file 4 b" "simulates b a" "db_live b = None" "current a = committed a"
    "view (db_pool b) = current a" "map_rep (current a) {} Map.empty" "is_zero (current a ROOT_PAGE)" "next_free_page (current a) = 41"
    "runnable b 1000"
    by (rule map_created [OF empty_file_inv _ _ traverses_remdups, of 4]) (simp_all add: empty_file_def)
  have b': "simulates b a" "db_live b = None" "runnable b (Suc (8 + 991))" using b by simp_all
  obtain x w where x: "begin_rw_transaction (db_wal b) = Some (x, w)" "db_step remdups b Begin (b\<lparr>db_wal := w, db_live := Some x\<rparr>)"
    "simulates (b\<lparr>db_wal := w, db_live := Some x\<rparr>) a" "runnable (b\<lparr>db_wal := w, db_live := Some x\<rparr>) (8 + 991)"
    by (rule begin_step_at [OF b' traverses_remdups])
  define t where "t = \<lparr>mt_tx = Some x, shared_guard = False, unique_guard = True\<rparr>"
  define d1 where "d1 = \<lparr>dm_store = (db_pool b, w), dm_operations = 0, global_lock = \<lparr>shared_owners = 0, exclusive_owned = True\<rparr>\<rparr>"
  define s1 where "s1 = \<lparr>sys_object = d1, sys_writer = Some t, sys_undoing = [], sys_finished = [], sys_readers = 0\<rparr>"
  have "map_begin_rw (sys_object (opened b)) = Some (t, d1)"
    using x(1) by (simp add: opened_def map_begin_rw_def lock_exclusive_def t_def d1_def)
  from map_step.begin_rw [OF this, of remdups] have 1: "map_step remdups (opened b) Begin_RW s1"
    using runnableD(1) [OF b(9)] by (simp add: opened_def s1_def)
  have db1: "sys_db s1 = b\<lparr>db_wal := w, db_live := Some x\<rparr>" by (simp add: sys_db_def s1_def d1_def t_def)
  have v1: "map_pages d1 = current a" using b(5) by (simp add: map_pages_def d1_def)
  note fp = new_map_parent [of "current a", OF b(7)]
  obtain p' A' where w': "write_at_node 9 ROOT_PAGE (get_bucket key97 1) 0 key97 (Some [1, 2, 3]) (current a) = Some (Inr p')"
    "map_rep p' A' [key97 \<mapsto> [1, 2, 3]]" "node_entry (current a) ROOT_PAGE (get_bucket key97 1) = 0 \<longrightarrow>
      next_free_page p' \<le> next_free_page (current a) + page_cost (entry_size key97 (length [1, 2, 3 :: byte]))"
    by (rule map_write_step [OF b(6) k(1) _ _ _ _ fp(1), of "[1, 2, 3]" 9])
      (use fp(2) b(8) k(2) in \<open>simp_all add: MAX_KEY_LENGTH_def entry_size_def\<close>)
  obtain N C where inv: "tree_inv (current a) {} N C" and rep: "represents C Map.empty" using b(6) by (auto simp: map_rep_def)
  have q: "leads_to (current a) key97 (ROOT_PAGE, get_bucket key97 1)" unfolding leads_to_def using fp(1) by auto
  have none: "C (ROOT_PAGE, get_bucket key97 1) = None"
  proof (rule ccontr)
    assume "C (ROOT_PAGE, get_bucket key97 1) \<noteq> None"
    then obtain rs es where c: "C (ROOT_PAGE, get_bucket key97 1) = Some (rs, es)" by auto
    note lf = leaf_atD [OF tree_invD(7) [OF inv c]]
    note st = leaf_ok_start [OF lf(6) tree_invD(1) [OF inv] lf(4)]
    show False using lf(3) st(4) fp(2) by simp
  qed
  have few: "within 8 (current a) p'"
    by (rule small_write_within [OF inv k(1) _ q none _ _ w'(1) [unfolded eval_nat_numeral]])
      (use k(2) b(8) in \<open>simp_all add: MAX_KEY_LENGTH_def entry_size_def data_capacity\<close>)
  obtain es b2 where es: "db_run remdups (sys_db s1) es b2" "\<forall>e\<in>set es. during_write e" "view (db_pool b2) = p'" "db_live b2 = Some x"
    "simulates b2 (a\<lparr>current := p'\<rparr>)" "runnable b2 991"
    by (rule within_run [OF few x(3) _ refl x(4) traverses_remdups, of x]) (simp_all add: db1)
  have st: "rw_state x = UNCOMMITTED" using x(3) by (simp add: simulates_def)
  have fuel: "find_parent 9 (current a) key97 = Some (ROOT_PAGE, get_bucket key97 1, 0)"
    using find_parent_mono [OF fp(1) [unfolded find_parent_def], of 9 key97] by (simp add: find_parent_def)
  have wr: "tx_write 9 t key97 (Some [1, 2, 3]) d1 = Some (Inr \<lparr>dm_pages = p', op_count = 1\<rparr>)"
    using st w'(1) v1 fuel by (simp add: tx_write_def in_transaction_def t_def DiskMap_write_def on_pages_def count_op_def d1_def)
  have dom: "write_in_domain 9 key97 [1, 2, 3] (map_pages d1)"
    using k fp b(8) fuel by (simp add: write_in_domain_def v1 MAX_KEY_LENGTH_def entry_size_def)
  define s2 where "s2 = s1\<lparr>sys_object := set_db b2 (d1\<lparr>dm_operations := 1\<rparr>)\<rparr>"
  have 2: "map_step remdups s1 (RW_Write key97 [1, 2, 3]) s2"
    using map_step.rw_write [of s1 t 9 key97 "[1, 2, 3]" "\<lparr>dm_pages = p', op_count = 1\<rparr>" remdups es b2] dom wr es(1-3)
    by (simp add: s1_def s2_def)
  have run: "map_run remdups (opened b) [Begin_RW, RW_Write key97 [1, 2, 3]] s2"
    by (rule map_runI [OF map_runI [OF map_run.run_start 1 refl] 2]) simp
  have "system_ok (opened b) \<lparr>live_map = Map.empty, saved_map = Map.empty, undoing = 0\<rparr>"
    by (rule opened_ok [OF b(2,3,4,6)])
  from map_run_ok [OF run this _ traverses_remdups]
  have ok: "system_ok s2 \<lparr>live_map = [key97 \<mapsto> [1, 2, 3]], saved_map = Map.empty, undoing = 0\<rparr>" by simp
  have db2: "sys_db s2 = b2" using es(4) by (simp add: sys_db_def s2_def s1_def set_db_def t_def)
  have "next_free_page p' < 2 ^ 16" using w'(3) fp(2) b(8) k(2) by (simp add: page_cost_def entry_size_def data_capacity)
  moreover have "map_pages (sys_object s2) = p'" using es(3) by (simp add: map_pages_def s2_def set_db_def)
  ultimately show thesis
    by (intro that [OF b(1) _ run _ ok]) (use b(5,6) db2 runnableD(5) [OF es(6)] in \<open>simp_all add: s2_def s1_def\<close>)
qed

section \<open>Properties\<close>

lemma store_run_ok:
  assumes "traverses traverse" "file_inv f" "db_run traverse (fresh_db f n syncs) es0 b" "db_live b = None"
    "map_rep (view (db_pool b)) A M" "map_run traverse (opened b) es s" "legal es \<lparr>live_map = M, saved_map = M, undoing = 0\<rparr>"
  obtains m where "map_spec_run es \<lparr>live_map = M, saved_map = M, undoing = 0\<rparr> = Some m" "system_ok s m"
proof -
  obtain a where a: "simulates b a" using reachable_simulates [OF assms(1-3)] by metis
  obtain base R where "sys_inv (db_pool b) (db_wal b) None base R (committed a)" "view (db_pool b) = current a"
    using simulatesD [OF a] assms(4) by (metis option.simps(8))
  then have c: "current a = committed a" "map_rep (current a) A M" using view_committed assms(5) by metis+
  from map_run_ok [OF assms(6) opened_ok [OF a assms(4) c] assms(7,1)] show thesis using that by blast
qed

text \<open>C10: The constructor on an empty file leads to a well-formed empty map with the magic string.\<close>

theorem new_map_created:
  assumes "traverses traverse" "file_inv f" "\<forall>p. is_zero (file_page f p)" "0 < n"
  shows "(\<exists>b. map_create traverse f n b) \<and>
    (\<forall>b. map_create traverse f n b \<longrightarrow> map_rep (view (db_pool b)) {} Map.empty \<and> magic_ok (view (db_pool b)))"
proof (intro conjI allI impI)
  show "\<exists>b. map_create traverse f n b" using map_created [OF assms(2-4,1)] by metis
  fix b assume "map_create traverse f n b"
  then have b: "DiskMap_format (file_page f) = Inr (view (db_pool b))" by (rule map_create_run)
  show "map_rep (view (db_pool b)) {} Map.empty" using new_map [OF assms(3)] b by (metis Inr_inject)
  show "magic_ok (view (db_pool b))" by (rule format_ok [OF assms(3)]) (use b in simp)
qed

theorem new_map_created_witness:
  "\<exists>b. map_create remdups empty_file 1 b \<and> map_rep (view (db_pool b)) {} Map.empty"
  using new_map_created [OF traverses_remdups empty_file_inv, of 1] by (auto simp: empty_file_def)

text \<open>C1: The map with its transactions, on top of the page store, refines a map with a committed version.  The
  steps are the operations of the transactions, each as a whole, commit, abort, the two parts of the
  destructor of an unfinished transaction (it releases the lock, later it undoes the changes), page
  operations, checkpoints and crashes, in any order the locks allow.  A read-write transaction sees its own
  writes.  A read-only transaction sees the committed version, except while a destructor is between its
  two parts: then it sees the changes that are still to be undone.  A read through a transaction that has
  committed or aborted holds no lock and sees what the pages hold, the uncommitted changes of another
  transaction among it; it does not commit or abort again.  Aborts, the second part of the destructor and crashes lead back to the committed
  version.  Left out: a read-write transaction that begins while a destructor is between its two parts
  (\<open>legal\<close>), though the lock allows it.\<close>

theorem map_store_refines:
  assumes "traverses traverse" "file_inv f" "db_run traverse (fresh_db f n syncs) es0 b" "db_live b = None"
    "map_rep (view (db_pool b)) A M" "map_run traverse (opened b) es s" "legal es \<lparr>live_map = M, saved_map = M, undoing = 0\<rparr>"
  shows "\<exists>m A. map_spec_run es \<lparr>live_map = M, saved_map = M, undoing = 0\<rparr> = Some m \<and> map_rep (map_pages (sys_object s)) A (live_map m) \<and>
    undoing m = length (sys_undoing s) \<and> (sys_writer s = None \<and> sys_undoing s = [] \<longrightarrow> live_map m = saved_map m)"
proof -
  obtain m where m: "map_spec_run es \<lparr>live_map = M, saved_map = M, undoing = 0\<rparr> = Some m" "system_ok s m" by (rule store_run_ok [OF assms])
  then show ?thesis using system_okD [OF m(2)] by metis
qed

lemma commit_example:
  assumes s: "sys_writer s = Some t" "system_ok s m" "runnable (sys_db s) 100"
  obtains s' where "map_step remdups s RW_Commit s'" "sys_writer s' = None" "map_pages (sys_object s') = map_pages (sys_object s)"
    "sys_undoing s' = sys_undoing s" "sys_finished s' \<noteq> []"
proof -
  obtain a A A' where a: "simulates (sys_db s) a" "locks_ok s" by (rule system_okD [OF s(2)])
  obtain x where x: "mt_tx t = Some x" "unique_guard t" using a(2) s(1) by (auto simp: locks_ok_def)
  have r: "runnable (sys_db s) (Suc 99)" using s(3) by simp
  have live: "db_live (sys_db s) = Some x" using s(1) x by simp
  obtain w where "RWTransaction_commit x (db_pool (sys_db s), db_wal (sys_db s)) = Inr (x\<lparr>rw_state := COMMITTED\<rparr>, db_pool (sys_db s), w)"
    by (rule commit_step_at [OF a(1) live r traverses_remdups])
  then have "map_commit t (sys_object s) = Inr (t\<lparr>mt_tx := Some (x\<lparr>rw_state := COMMITTED\<rparr>), unique_guard := False\<rparr>,
      (sys_object s)\<lparr>dm_store := (fst (dm_store (sys_object s)), w), global_lock := unlock_exclusive (global_lock (sys_object s))\<rparr>)"
    using x by (simp add: map_commit_def map_finish_def)
  from map_step.rw_commit [OF s(1) _ this, of remdups] show thesis
    using that runnableD(1) [OF s(3)] by (simp add: map_pages_def)
qed

theorem map_store_refines_witness:
  "\<exists>b s. map_create remdups empty_file 4 b \<and>
    map_run remdups (opened b) [Begin_RW, RW_Write key97 [1, 2, 3], RW_Commit, Finished_Read key97 (Some [1, 2, 3]),
      Begin_RO, RO_Read key97 (Some [1, 2, 3])] s \<and>
    (\<exists>A. map_rep (map_pages (sys_object s)) A [key97 \<mapsto> [1, 2, 3]])"
proof -
  obtain b s t where b: "map_create remdups empty_file 4 b" "map_rep (view (db_pool b)) {} Map.empty"
    "map_run remdups (opened b) [Begin_RW, RW_Write key97 [1, 2, 3]] s" "sys_writer s = Some t"
    "system_ok s \<lparr>live_map = [key97 \<mapsto> [1, 2, 3]], saved_map = Map.empty, undoing = 0\<rparr>" "runnable (sys_db s) 100"
    "next_free_page (map_pages (sys_object s)) < 2 ^ 16"
    by (rule example_write)
  obtain es0 where es0: "db_run remdups (fresh_db empty_file 4 []) es0 b" "db_live b = None"
    by (rule map_create_run [OF b(1)])
  obtain s1 where s1: "map_step remdups s RW_Commit s1" "sys_writer s1 = None" "map_pages (sys_object s1) = map_pages (sys_object s)"
    "sys_finished s1 \<noteq> []"
    by (rule commit_example [OF b(4-6)])
  have ok1: "system_ok s1 \<lparr>live_map = [key97 \<mapsto> [1, 2, 3]], saved_map = [key97 \<mapsto> [1, 2, 3]], undoing = 0\<rparr>"
    using map_step_ok [OF s1(1) b(5) _ traverses_remdups] by auto
  have "\<not> exclusive_owned (global_lock (sys_object s1))" using ok1 s1(2) by (auto simp: system_ok_def locks_ok_def)
  then obtain r d where d: "begin_ro_transaction (sys_object s1) = Some (r, d)" "map_pages d = map_pages (sys_object s1)"
    by (auto simp: begin_ro_transaction_def lock_shared_def map_pages_def)
  define s2 where "s2 = s1\<lparr>sys_object := d, sys_readers := sys_readers s1 + 1\<rparr>"
  have 2: "map_step remdups s1 Begin_RO s2" unfolding s2_def by (rule map_step.begin_ro [OF d(1)])
  obtain A where A: "map_rep (map_pages d) A [key97 \<mapsto> [1, 2, 3]]" by (rule system_okD [OF ok1]) (use d(2) in simp)
  have dom: "read_in_domain key97 (map_pages d)" using b(7) s1(3) d(2) by (simp add: read_in_domain_def valid_key_def key97_def)
  obtain fuel where fuel: "DiskMap_read fuel key97 (map_pages d) = Some (Inr (Some [1, 2, 3]))"
    by (rule read_returns [OF A dom]) simp
  have 3: "map_step remdups s2 (RO_Read key97 (Some [1, 2, 3])) s2"
    by (rule map_step.ro_read [of s2 key97 fuel]) (use dom fuel in \<open>simp_all add: s2_def tx_read_def\<close>)
  have 4: "map_step remdups s1 (Finished_Read key97 (Some [1, 2, 3])) s1"
    by (rule map_step.finished_read [of "hd (sys_finished s1)" s1 key97 fuel])
      (use dom fuel d(2) s1(4) in \<open>simp_all add: tx_read_def\<close>)
  have run: "map_run remdups (opened b)
    [Begin_RW, RW_Write key97 [1, 2, 3], RW_Commit, Finished_Read key97 (Some [1, 2, 3]), Begin_RO, RO_Read key97 (Some [1, 2, 3])] s2"
    by (rule map_runI [OF map_runI [OF map_runI [OF map_runI [OF b(3) s1(1) refl] 4 refl] 2 refl] 3]) simp
  from map_store_refines [OF traverses_remdups empty_file_inv es0 b(2) run] show ?thesis
    using b(1) run by auto
qed

text \<open>C11: The destructor of a read-write transaction that has not finished releases the lock before it
  undoes the changes: a read-only transaction that begins in between reads what was never committed.\<close>

theorem destroy_exposes_changes:
  assumes "traverses traverse" "file_inv f" "db_run traverse (fresh_db f n syncs) es0 b" "db_live b = None"
    "map_rep (view (db_pool b)) A M" "map_run traverse (opened b) es s" "legal es \<lparr>live_map = M, saved_map = M, undoing = 0\<rparr>"
    "sys_writer s = Some t" "read_in_domain key (map_pages (sys_object s))"
  shows "\<exists>m r d fuel. map_spec_run es \<lparr>live_map = M, saved_map = M, undoing = 0\<rparr> = Some m \<and>
    map_destroy t (sys_object s) = destroy_tx t (release_guards t (sys_object s)) \<and>
    begin_ro_transaction (release_guards t (sys_object s)) = Some (r, d) \<and>
    tx_read fuel key d = Some (Inr (live_map m key))"
proof -
  obtain m where m: "map_spec_run es \<lparr>live_map = M, saved_map = M, undoing = 0\<rparr> = Some m" "system_ok s m" by (rule store_run_ok [OF assms(1-7)])
  obtain a :: spec and A where a: "map_pages (sys_object s) = current a" "map_rep (current a) A (live_map m)" "locks_ok s" by (rule system_okD [OF m(2)])
  have g: "unique_guard t" "\<not> shared_guard t" using a(3) assms(8) by (auto simp: locks_ok_def)
  obtain r d where d: "begin_ro_transaction (release_guards t (sys_object s)) = Some (r, d)" "map_pages d = map_pages (sys_object s)"
    using g by (auto simp: begin_ro_transaction_def lock_shared_def release_guards_def unlock_exclusive_def map_pages_def)
  obtain fuel where "DiskMap_read fuel key (map_pages d) = Some (Inr (live_map m key))"
    using read_returns [OF a(2)] assms(9) a(1) d(2) by metis
  then show ?thesis using m(1) d(1) by (auto simp: map_destroy_def tx_read_def)
qed

theorem destroy_exposes_changes_witness:
  "\<exists>b s t r d fuel. map_create remdups empty_file 4 b \<and> map_run remdups (opened b) [Begin_RW, RW_Write key97 [1, 2, 3]] s \<and>
    sys_writer s = Some t \<and> begin_ro_transaction (release_guards t (sys_object s)) = Some (r, d) \<and>
    tx_read fuel key97 d = Some (Inr (Some [1, 2, 3]))"
proof -
  obtain b s t where b: "map_create remdups empty_file 4 b" "map_rep (view (db_pool b)) {} Map.empty"
    "map_run remdups (opened b) [Begin_RW, RW_Write key97 [1, 2, 3]] s" "sys_writer s = Some t"
    "next_free_page (map_pages (sys_object s)) < 2 ^ 16"
    by (rule example_write)
  obtain es0 where es0: "db_run remdups (fresh_db empty_file 4 []) es0 b" "db_live b = None"
    by (rule map_create_run [OF b(1)])
  have "read_in_domain key97 (map_pages (sys_object s))" using b(5) by (simp add: read_in_domain_def valid_key_def key97_def)
  from destroy_exposes_changes [OF traverses_remdups empty_file_inv es0 b(2,3) _ b(4) this]
  obtain r d fuel where "begin_ro_transaction (release_guards t (sys_object s)) = Some (r, d)" "tx_read fuel key97 d = Some (Inr (Some [1, 2, 3]))"
    by auto
  then show ?thesis using b(1,3,4) by metis
qed

end
