(* ===== verification/Tools.thy ===== *)
theory Tools
  imports Prelude Pages Disk_Map Map_Invariant Map_Properties Map_Check Map_Transactions
begin

text \<open>
  The programs \<open>dump\<close> and \<open>remove\<close>, which open a map and use it; opening a file is left out.
\<close>

section \<open>dump\<close>

text \<open>What it prints, and its exit status.\<close>

datatype dump_output = Usage | Dump "dump_line list" | Key_Not_Found "byte list" | Value "byte list"

definition dump_main :: "nat \<Rightarrow> byte list list \<Rightarrow> map_object \<Rightarrow> (dump_output \<times> int) result option" where
  "dump_main fuel argv db =
     (if length argv < 2 then Some (Inr (Usage, 1))
      else case begin_ro_transaction db of
        None \<Rightarrow> None
      | Some (txn, db) \<Rightarrow>
          if length argv = 2 then bindO (tx_debug_dump fuel db) (\<lambda>ls. Some (Inr (Dump ls, 0)))
          else bindO (tx_read fuel (argv ! 2) db) (\<lambda>value. case value of
              None \<Rightarrow> Some (Inr (Key_Not_Found (argv ! 2), 1))
            | Some v \<Rightarrow> Some (Inr (Value v, 0))))"

text \<open>With a key it prints the value in the map, or says that there is none, and its exit status tells which.\<close>

theorem dump_prints_value:
  assumes "map_rep (map_pages db) A M" "read_in_domain (argv ! 2) (map_pages db)" "\<not> exclusive_owned (global_lock db)" "3 \<le> length argv"
  shows "\<exists>fuel. dump_main fuel argv db = Some (Inr (case M (argv ! 2) of None \<Rightarrow> (Key_Not_Found (argv ! 2), 1) | Some v \<Rightarrow> (Value v, 0)))"
proof -
  obtain fuel where f: "DiskMap_read fuel (argv ! 2) (map_pages db) = Some (Inr (M (argv ! 2)))" by (rule read_returns [OF assms(1,2)])
  obtain t d where d: "begin_ro_transaction db = Some (t, d)" "map_pages d = map_pages db"
    using assms(3) by (auto simp: begin_ro_transaction_def lock_shared_def map_pages_def)
  have "dump_main fuel argv db = Some (Inr (case M (argv ! 2) of None \<Rightarrow> (Key_Not_Found (argv ! 2), 1) | Some v \<Rightarrow> (Value v, 0)))"
    using assms(4) f d by (simp add: dump_main_def tx_read_def split: option.splits)
  then show ?thesis ..
qed

section \<open>remove\<close>

text \<open>It ignores whether there was such a key.  What the page store does meanwhile goes on beside it.\<close>

inductive remove_main :: "(nat list \<Rightarrow> nat list) \<Rightarrow> byte list list \<Rightarrow> map_system \<Rightarrow> int \<Rightarrow> map_system \<Rightarrow> bool" for traverse where
  remove_usage: "length argv < 3 \<Longrightarrow> remove_main traverse argv s 1 s"
| remove_key: "3 \<le> length argv \<Longrightarrow> map_run traverse s es s' \<Longrightarrow>
    filter (\<lambda>e. e \<noteq> Store) es = [Begin_RW, RW_Remove (argv ! 2) found, RW_Commit, Finished_End] \<Longrightarrow> remove_main traverse argv s 0 s'"

inductive_cases remove_main_cases: "remove_main traverse argv s status s'"

lemma map_spec_run_Store: "map_spec_run es m = map_spec_run (filter (\<lambda>e. e \<noteq> Store) es) m"
proof (induction es arbitrary: m)
  case (Cons e es)
  show ?case by (cases "e = Store") (simp_all add: Cons.IH [abs_def] Cons.IH)
qed simp

lemma legal_Store: "legal es m \<longleftrightarrow> legal (filter (\<lambda>e. e \<noteq> Store) es) m"
proof (induction es arbitrary: m)
  case (Cons e es)
  show ?case by (cases "e = Store") (simp_all add: Cons.IH [abs_def] Cons.IH)
qed simp

text \<open>After \<open>remove\<close> the key is gone from the committed map, and nothing else has changed.\<close>

theorem remove_main_removes:
  assumes "traverses traverse" "file_inv f" "db_run traverse (fresh_db f n syncs) es0 b" "db_live b = None"
    "map_rep (view (db_pool b)) A M" "remove_main traverse argv (opened b) status s"
  shows "system_ok s (if status = 0 then \<lparr>live_map = M(argv ! 2 := None), saved_map = M(argv ! 2 := None), undoing = 0\<rparr>
    else \<lparr>live_map = M, saved_map = M, undoing = 0\<rparr>)"
  using assms(6)
proof (rule remove_main_cases)
  assume u: "status = 1" "s = opened b"
  have "map_run traverse (opened b) [] s" unfolding u(2) by (rule map_run.run_start)
  from store_run_ok [OF assms(1-5) this] show ?thesis using u(1) by auto
next
  fix es found
  assume r: "status = 0" "map_run traverse (opened b) es s" "filter (\<lambda>e. e \<noteq> Store) es = [Begin_RW, RW_Remove (argv ! 2) found, RW_Commit, Finished_End]"
  have "legal es \<lparr>live_map = M, saved_map = M, undoing = 0\<rparr>" unfolding legal_Store [of es] r(3) by simp
  from store_run_ok [OF assms(1-5) r(2) this] obtain m where
    "map_spec_run es \<lparr>live_map = M, saved_map = M, undoing = 0\<rparr> = Some m" "system_ok s m" .
  then show ?thesis using map_spec_run_Store [of es] unfolding r(3) by (auto simp: r(1) split: if_splits)
qed

end
