(* ===== verification/Map_Limits.thy ===== *)
theory Map_Limits
  imports Prelude Hashing Pages Space_Manager Leaf Big_Value Disk_Map Map_Invariant Map_Write Map_Subtree Map_Build Map_Split Map_Properties Map_Check Map_Remove
begin

text \<open>
  Where the operations on the tree do not do what they should: keys whose hashes collide, buckets with a
  value of several regions, the search for an absent key, the removal of the last leaf beside a subtree.
\<close>

section \<open>Keys whose hashes collide\<close>

lemma find_parent_same_hash:
  assumes "fnv_hash k = fnv_hash k'"
  shows "find_parent_from f s k p l = find_parent_from f s k' p l"
proof (induction f arbitrary: p l)
  case (Suc f)
  have "get_bucket k (int l + 1) = get_bucket k' (int l + 1)" by (rule same_hash_same_bucket [OF assms]) simp
  then show ?case using Suc by (simp add: Let_def)
qed simp

text \<open>The loop of \<open>write_at_node\<close> puts one new node below the other until the page numbers run out.\<close>

lemma split_leaf_stuck:
  assumes hash: "fnv_hash k0 = fnv_hash key"
  shows "space_ok s A \<Longrightarrow> p = 1 \<or> (p, 0) \<in> A \<Longrightarrow> next_free_page s + fuel \<le> 2 ^ 52 \<Longrightarrow> split_leaf fuel x k0 key b p l s = None"
proof (induction fuel arbitrary: s A p l)
  case (Suc fuel)
  obtain y s1 where y: "SpaceManager_allocate 0 s = Inr (y, s1)" "allocated 0 A s y s1"
    by (rule allocate_ok [OF Suc.prems(1), of 0]) (use Suc.prems(3) in simp_all)
  have ok1: "space_ok s1 (insert (y, 0) A)" and nf: "next_free_page s1 \<le> next_free_page s + 1" using y(2) by (simp_all add: allocated_def)
  define i where "i = get_bucket key (int l + 1)"
  have i: "i < 512" "get_bucket k0 (int l + 1) = i" using same_hash_same_bucket [OF hash, of "int l + 1"] by (simp_all add: i_def get_bucket_less)
  define s2 where "s2 = set_entry p i (set_msb y 1) s1"
  have p: "page_ok p" "p \<noteq> 0" using Suc.prems(2) space_okD(1) [OF Suc.prems(1), of p 0 p] by (auto simp: page_ok_def)
  have put: "put_node_entry p i (set_msb y 1) s1 = Inr s2" unfolding s2_def by (rule put_node_entry_ok [OF p(1) i(1)])
  have "space_ok s2 (insert (y, 0) A)"
    unfolding s2_def set_entry_def
    by (rule space_ok_write [OF ok1]) (use Suc.prems(2) in \<open>elim disjE, simp, intro disjI2 bexI [of _ "(p, 0)"], simp_all\<close>)
  moreover have "next_free_page s2 = next_free_page s1" using p(2) by (simp add: s2_def next_free_page_def)
  ultimately have "split_leaf fuel x k0 key b y (l + 1) s2 = None" by (intro Suc.IH) (use Suc.prems(3) nf in auto)
  then show ?case
    by (subst split_leaf.simps(2)) (simp only: Let_def i(2) i_def [symmetric] simp_thms if_True y(1) bindO_simps prod.case put)
qed simp

lemma single_entry_leaf:
  assumes rep: "map_rep s A [k \<mapsto> v]" and fp: "find_parent f s k = Some (p, i, l)" and small: "entry_size k (length v) \<le> leaf_capacity"
  shows "node_entry s p i \<noteq> 0" "leaf_next (s (node_entry s p i)) = 0" "leaf_entry_count (s (node_entry s p i)) = 1"
    "leaf_usage (s (node_entry s p i)) = entry_size k (length v)"
proof -
  obtain N C where inv: "tree_inv s A N C" and repC: "represents C [k \<mapsto> v]" using rep by (auto simp: map_rep_def)
  have q: "leads_to s k (p, i)" using fp unfolding leads_from_def find_parent_def by auto
  note Mk = represents_at [OF inv repC q]
  obtain rs es where c: "C (p, i) = Some (rs, es)" using Mk by (cases "C (p, i)") auto
  note lf = leaf_atD [OF tree_invD(7) [OF inv c]]
  note st = leaf_ok_start [OF lf(6) tree_invD(1) [OF inv] lf(4)]
  have only: "kv_key e = k \<and> kv_value e = v" if "e \<in> set es" for e
  proof -
    have "[k \<mapsto> v] (kv_key e) = Some (kv_value e)" using repC c that unfolding represents_def by blast
    then show ?thesis by (simp split: if_splits)
  qed
  have "length es \<le> 1"
  proof (rule ccontr)
    assume "\<not> length es \<le> 1"
    then obtain a b es' where "es = a # b # es'" by (cases es; cases "tl es") auto
    then show False using only [of a] only [of b] lf(7) by simp
  qed
  then obtain e where e: "es = [e]" using st(7) by (cases es) auto
  have ne: "node_entry s p i = rs ! 0" using lf(3) by simp
  have nz: "rs ! 0 \<noteq> 0" using st(4) by linarith
  have "\<not> big_leaf s rs e" using small only [of e] e by (simp add: big_leaf_def)
  then obtain x where x: "rs = [x]" "leaf_holds (s x) [e]" using lf(6) e by (auto simp: leaf_ok_def)
  have "length (encode_entries [e]) = entry_size k (length v)"
    using only [of e] e by (simp add: length_encode_entry)
  then show "node_entry s p i \<noteq> 0" "leaf_next (s (node_entry s p i)) = 0" "leaf_entry_count (s (node_entry s p i)) = 1"
    "leaf_usage (s (node_entry s p i)) = entry_size k (length v)"
    using ne nz x by (simp_all add: leaf_holds_def)
qed

text \<open>C8: A key whose hash equals that of the only key in a leaf without room for it: the write does not
  return, whatever the fuel, before it has used up the page numbers.\<close>

theorem colliding_keys_never_split:
  assumes "map_rep s A M" "M key0 = Some v" "fnv_hash key0 = fnv_hash key" "key0 \<noteq> key" "valid_key key" "length key \<le> MAX_KEY_LENGTH"
    "find_parent f s key = Some (p, i, l)" "leaf_next (s (node_entry s p i)) = 0" "leaf_entry_count (s (node_entry s p i)) = 1"
    "leaf_capacity < leaf_usage (s (node_entry s p i)) + entry_size key (length b)" "length b < 2 ^ 63"
    "next_free_page s + fuel \<le> 2 ^ 52"
  shows "DiskMap_write fuel key (Some b) \<lparr>dm_pages = s, op_count = n\<rparr> = None"
proof (cases "find_parent fuel s key")
  case None
  then show ?thesis by (simp add: DiskMap_write_def on_pages_def count_op_def)
next
  case (Some r)
  obtain N C where inv: "tree_inv s A N C" and rep: "represents C M" using assms(1) by (auto simp: map_rep_def)
  have fp: "find_parent fuel s key = Some (p, i, l)"
    using Some find_parent_unique [OF Some [unfolded find_parent_def] assms(7) [unfolded find_parent_def]] by simp
  have q: "leads_to s key (p, i)" using fp unfolding leads_from_def find_parent_def by auto
  have q0: "leads_to s key0 (p, i)" using q find_parent_same_hash [OF assms(3)] by (simp add: leads_from_def)
  note in_tree = leads_to_in [OF inv q]
  note M0 = represents_at [OF inv rep q0]
  obtain rs es where c: "C (p, i) = Some (rs, es)" using M0 assms(2) by (cases "C (p, i)") auto
  note lf = leaf_atD [OF tree_invD(7) [OF inv c]]
  have ne: "node_entry s p i = rs ! 0" using lf(3) by simp
  obtain x where x: "rs = [x]" "leaf_holds (s x) es" "es \<noteq> []" "page_ok x" "x \<noteq> 0" "get_msb x = 0" "clear_msb x = x"
    by (rule small_leaf_page [OF inv c]) (use assms(8) ne in simp_all)
  have one: "length es = 1" using assms(9) x(1,2) ne by (simp add: leaf_holds_def)
  obtain e0 where e0: "es = [e0]" using one by (cases es) auto
  have k0: "kv_key e0 = key0" using M0 assms(2) c e0 by (auto simp: kv_map_def split: if_splits)
  have kn: "0 \<notin> set key" using assms(5) by (simp add: valid_key_def)
  have fe: "find_entry_in_leaf (s x) key = Inr (- 1)" using find_entry_holds [OF x(2) kn] e0 k0 assms(4) by simp
  define s1 where "s1 = upd_u64 0 8 ((kv_entry_count s + 1) mod 2 ^ 64) s"
  have s1x: "s1 x = s x" using x(5) by (simp add: s1_def)
  have ok1: "space_ok s1 A" "next_free_page s1 = next_free_page s"
    using space_ok_count [OF tree_invD(1) [OF inv]] by (simp_all add: s1_def)
  have full: "\<not> (leaf_usage (s x) + entry_size key (length b)) mod 2 ^ 64 \<le> leaf_capacity"
  proof -
    have "leaf_usage (s x) \<le> leaf_capacity" using leaf_holds_bound [OF x(2)] x(2) by (simp add: leaf_holds_def)
    then have "leaf_usage (s x) + entry_size key (length b) < 2 ^ 64" using assms(6,11) by (simp add: entry_size_def data_capacity MAX_KEY_LENGTH_def)
    then show ?thesis using assms(10) ne x(1) by simp
  qed
  have "split_leaf fuel x key0 key b p l s1 = None"
    by (rule split_leaf_stuck [OF assms(3) ok1(1) node_page(3) [OF inv in_tree(1)]]) (use assms(12) ok1(2) in simp)
  then have "write_new fuel p i l x key b s = None"
    unfolding write_new_def count_entry_ok s1_def [symmetric] bindO_simps s1x if_not_P [OF full]
    using get_entries_holds [OF x(2)] one x(2) e0 k0 by (simp add: leaf_holds_def)
  moreover have "write_at_node fuel p i l key (Some b) s = write_new fuel p i l x key b s"
    using assms(5,6) ne x(1,5,7) fe by (simp add: write_at_node_def valid_key_def Let_def)
  ultimately show ?thesis using fp by (simp add: DiskMap_write_def on_pages_def count_op_def)
qed

lemma fnv_collision: "fnv_hash [74, 70, 90, 87, 46, 41, 95, 95, 88, 100] = fnv_hash [98, 117, 117, 60, 60, 125, 87, 62, 33, 105]"
  by (simp add: fnv_hash_def fnv_step_def fnv_offset_def fnv_prime_def)

theorem colliding_keys_never_split_witness:
  "\<exists>s s' f. DiskMap_format (\<lambda>_. zero_page) = Inr s \<and>
    write_at_node 9 ROOT_PAGE (get_bucket [74, 70, 90, 87, 46, 41, 95, 95, 88, 100] 1) 0 [74, 70, 90, 87, 46, 41, 95, 95, 88, 100]
      (Some (replicate 4000 7)) s = Some (Inr s') \<and>
    (\<forall>fuel\<le>2 ^ 51. DiskMap_write fuel [98, 117, 117, 60, 60, 125, 87, 62, 33, 105] (Some (replicate 100 7)) \<lparr>dm_pages = s', op_count = 1\<rparr> = None)"
proof -
  define k0 k1 :: "byte list" where "k0 = [74, 70, 90, 87, 46, 41, 95, 95, 88, 100]" and "k1 = [98, 117, 117, 60, 60, 125, 87, 62, 33, 105]"
  have k: "valid_key k0" "valid_key k1" "length k0 = 10" "length k1 = 10" "k0 \<noteq> k1" by (simp_all add: k0_def k1_def valid_key_def)
  have hash: "fnv_hash k0 = fnv_hash k1" unfolding k0_def k1_def by (rule fnv_collision)
  obtain s where s: "DiskMap_format (\<lambda>_. zero_page) = Inr s" "map_rep s {} Map.empty" "next_free_page s = 41" "is_zero (s ROOT_PAGE)"
    by (rule new_map [of "\<lambda>_. zero_page"]) simp_all
  note f = new_map_parent [of s, OF s(4)]
  obtain s' A' where w: "write_at_node 9 ROOT_PAGE (get_bucket k0 1) 0 k0 (Some (replicate 4000 7)) s = Some (Inr s')"
    "map_rep s' A' [k0 \<mapsto> replicate 4000 7]" "next_free_page s' \<le> next_free_page s + 2 ^ 28"
    by (rule map_write_step [OF s(2) k(1) _ _ _ _ f(1), of "replicate 4000 7" 9]) (use f(2) s(3) k in \<open>simp_all add: MAX_KEY_LENGTH_def entry_size_def\<close>)
  obtain N C where inv: "tree_inv s' A' N C" using w(2) by (auto simp: map_rep_def)
  obtain g p i l where fp: "find_parent g s' k0 = Some (p, i, l)"
    using tree_invD(5) [OF inv, of k0] unfolding leads_from_def find_parent_def by (metis prod.collapse)
  have fp1: "find_parent g s' k1 = Some (p, i, l)" using fp find_parent_same_hash [OF hash] by (simp add: find_parent_def)
  note leaf = single_entry_leaf [OF w(2) fp]
  have "DiskMap_write fuel k1 (Some (replicate 100 7)) \<lparr>dm_pages = s', op_count = 1\<rparr> = None" if "fuel \<le> 2 ^ 51" for fuel
    by (rule colliding_keys_never_split [OF w(2) _ hash k(5,2) _ fp1, of "replicate 4000 7"])
      (use leaf k w(3) s(3) that in \<open>simp_all add: entry_size_def data_capacity MAX_KEY_LENGTH_def\<close>)
  then show ?thesis using s(1) w(1) unfolding k0_def k1_def by blast
qed

section \<open>Buckets with a value of several regions\<close>

lemma big_leaf_facts:
  assumes "big_leaf s rs e" "space_ok s A" "value_regions rs \<subseteq> A"
  shows "get_entries_in_leaf (s (rs ! 0)) = Inl MemoryError" "leaf_next (s (rs ! 0)) \<noteq> 0"
    "leaf_usage (s (rs ! 0)) = entry_size (kv_key e) (length (kv_value e))" "length (kv_value e) < 2 ^ 63"
    "leaf_capacity < entry_size (kv_key e) (length (kv_value e))" "leaf_entry_count (s (rs ! 0)) = 1"
    "length (kv_key e) \<le> MAX_KEY_LENGTH" "get_u64 (s (rs ! 0)) (DATA + length (kv_key e) + 1) = length (kv_value e)"
proof -
  have b: "entry_starts (s (rs ! 0)) DATA (kv_key e) (length (kv_value e))" "2 \<le> length rs" "regions s rs"
    "length (kv_value e) \<le> base (length (kv_key e) + 1 + 8) (length rs)"
    using assms(1) by (simp_all add: big_leaf_def)
  show size: "leaf_capacity < entry_size (kv_key e) (length (kv_value e))" "leaf_usage (s (rs ! 0)) = entry_size (kv_key e) (length (kv_value e))"
    "leaf_entry_count (s (rs ! 0)) = 1" "length (kv_key e) \<le> MAX_KEY_LENGTH"
    using assms(1) by (simp_all add: big_leaf_def)
  note st = entry_startsD [OF b(1)]
  show "get_u64 (s (rs ! 0)) (DATA + length (kv_key e) + 1) = length (kv_value e)" by (rule st(5))
  have "PAGE_SIZE < DATA + length (kv_key e) + 1 + 8 + length (kv_value e)" using size(1) by (simp add: entry_size_def leaf_capacity_def)
  then show "get_entries_in_leaf (s (rs ! 0)) = Inl MemoryError"
    using st(1-5) by (simp add: get_entries_in_leaf_def entries_from.simps [of _ DATA] Let_def)
  have "Suc 0 < length rs" "0 < length rs" using b(2) by linarith+
  then show "leaf_next (s (rs ! 0)) \<noteq> 0"
    using regionsD(5) [OF b(3), of 0] regionsD(3) [OF b(3), of 1] by (simp add: next_region_start_def)
  have "length rs \<le> 19" by (rule regionsD(2) [OF b(3)])
  then have "length (kv_value e) \<le> base (length (kv_key e) + 1 + 8) 19" using b(4) base_mono order_trans by blast
  also have "\<dots> \<le> base 0 19" using base_Suc_offset [of "length (kv_key e) + 1 + 8" 18] key_room [OF size(4)] by simp
  also have "base 0 19 < 2 ^ 63" using base_closed [of 18] by (simp del: base_simps)
  finally show "length (kv_value e) < 2 ^ 63" .
qed

text \<open>While no page of a free list is full, \<open>free_leaf\<close> does not touch the page itself.\<close>

lemma free_leaf_keeps:
  assumes "space_ok s A" "d < length rs" "regions_from d rs \<subseteq> A" "length rs \<le> 19"
    "\<forall>j\<ge>d. j < length rs \<longrightarrow> leaf_next (s (rs ! j)) = (if Suc j < length rs then rs ! Suc j else 0)"
    "\<forall>j<length rs. rs ! j \<noteq> 0" "\<forall>k\<ge>d. k < 19 \<longrightarrow> last_fpl_page_entries s k < 510"
    "x \<noteq> 0" "\<forall>k\<le>MAX_ORDER. x \<noteq> last_fpl_page s k"
  shows "\<exists>s'. free_leaf_from (rs ! d) d s = Inr s' \<and> s' x = s x"
  using assms(1-3,5,7,9)
proof (induction "length rs - d" arbitrary: d s A)
  case (Suc n)
  have dA: "(rs ! d, d) \<in> A" using Suc.prems(2,3) by (auto simp: regions_from_def)
  have d: "d < 19" "d \<le> MAX_ORDER" using Suc.prems(2) assms(4) by (simp_all add: MAX_ORDER_def)
  obtain F c xs own where inv: "space_inv s F c xs own A" using Suc.prems(1) by (auto simp: space_ok_def)
  have "last_fpl_page_entries s d < 510" using Suc.prems(5) d(1) by simp
  then obtain s1 where f: "SpaceManager_free (rs ! d) d s = Inr s1" "freed d A s (rs ! d) s1"
    "\<forall>p. p \<noteq> 0 \<longrightarrow> p \<noteq> last_fpl_page s d \<longrightarrow> s1 p = s p"
    "\<forall>j\<le>MAX_ORDER. last_fpl_page s1 j = last_fpl_page s j \<and> (j \<noteq> d \<longrightarrow> last_fpl_page_entries s1 j = last_fpl_page_entries s j)"
    by (rule free_with_room [OF inv dA])
  have s1: "space_ok s1 (A - {(rs ! d, d)})" using f(2) by (simp add: freed_def)
  have x: "s1 x = s x" using f(3) assms(8) Suc.prems(6) d(2) by blast
  have heads: "s1 (rs ! j) = s (rs ! j)" if "d \<le> j" "j < length rs" for j
  proof -
    have "(rs ! j, j) \<in> A" using regions_fromI [OF that] Suc.prems(3) by blast
    then have "rs ! j \<noteq> last_fpl_page s d" by (rule fpl_not_in_use [OF Suc.prems(1) _ _ d(2)]) simp
    then show ?thesis using f(3) assms(6) that(2) by blast
  qed
  show ?case
  proof (cases "Suc d < length rs")
    case False
    then have "leaf_next (s (rs ! d)) = 0" using Suc.prems(2,4) by simp
    then show ?thesis using f(1) x by (subst free_leaf_from.simps) simp
  next
    case True
    have nx: "leaf_next (s (rs ! d)) = rs ! Suc d" "rs ! Suc d \<noteq> 0" using Suc.prems(2,4) True assms(6) by simp_all
    have sub: "regions_from (Suc d) rs \<subseteq> A - {(rs ! d, d)}" using Suc.prems(3) by (auto simp: regions_from_def)
    have links: "\<forall>j\<ge>Suc d. j < length rs \<longrightarrow> leaf_next (s1 (rs ! j)) = (if Suc j < length rs then rs ! Suc j else 0)"
      using Suc.prems(4) heads by simp
    have short: "\<forall>k\<ge>Suc d. k < 19 \<longrightarrow> last_fpl_page_entries s1 k < 510" using Suc.prems(5) f(4) by (simp add: MAX_ORDER_def)
    have out: "\<forall>k\<le>MAX_ORDER. x \<noteq> last_fpl_page s1 k" using f(4) Suc.prems(6) by simp
    obtain s' where s': "free_leaf_from (rs ! Suc d) (Suc d) s1 = Inr s'" "s' x = s1 x"
      using Suc.hyps(1) [OF _ s1 True sub links short out] Suc.hyps(2) by force
    have "free_leaf_from (rs ! d) d s = Inr s'" using f(1) nx s'(1) by (subst free_leaf_from.simps) (simp add: Let_def)
    then show ?thesis using s'(2) x by simp
  qed
qed simp

text \<open>C12: Writing to a bucket whose leaf has a value of several regions reads beyond the end of the page of
  the leaf: adding a key to it always, and writing its own key too (here while no page of a free list is
  full), after the old value has been freed and unlinked.\<close>

theorem big_neighbour_overreads:
  assumes "map_rep s A M" "valid_key key" "length key \<le> MAX_KEY_LENGTH" "length b < 2 ^ 62"
    "find_parent f s key = Some (p, i, l)" "node_entry s p i \<noteq> 0" "leaf_next (s (node_entry s p i)) \<noteq> 0"
    "M key = None \<or> (next_free_page s + 19 \<le> 2 ^ 52 \<and> (\<forall>k<19. last_fpl_page_entries s k < 510))" "f \<le> fuel"
  shows "DiskMap_write fuel key (Some b) \<lparr>dm_pages = s, op_count = n\<rparr> = Some (Inl MemoryError)"
proof -
  obtain N C where inv: "tree_inv s A N C" and rep: "represents C M" using assms(1) by (auto simp: map_rep_def)
  have fp: "find_parent fuel s key = Some (p, i, l)"
    using find_parent_mono [OF assms(5) [unfolded find_parent_def] assms(9)] by (simp add: find_parent_def)
  have q: "leads_to s key (p, i)" using fp unfolding leads_from_def find_parent_def by auto
  note in_tree = leads_to_in [OF inv q]
  note Mk = represents_at [OF inv rep q]
  have "C (p, i) \<noteq> None" using tree_invD(6) [OF inv in_tree] assms(6) by blast
  then obtain rs es where c: "C (p, i) = Some (rs, es)" by auto
  note lf = leaf_atD [OF tree_invD(7) [OF inv c]]
  note st = leaf_ok_start [OF lf(6) tree_invD(1) [OF inv] lf(4)]
  define x where "x = rs ! 0"
  have ne: "node_entry s p i = x" "clear_msb x = x" "x \<noteq> 0" using lf(3) st(4,6) by (simp_all add: x_def)
  have "\<not> leaf_holds (s (rs ! 0)) es" using assms(7) ne(1) by (simp add: leaf_holds_def x_def)
  then obtain e where e: "es = [e]" "big_leaf s rs e" using lf(6) by (auto simp: leaf_ok_def)
  note bf = big_leaf_facts [OF e(2) tree_invD(1) [OF inv] lf(4), folded x_def]
  have k0: "0 \<notin> set key" using assms(2) by (simp add: valid_key_def)
  have fe: "find_entry_in_leaf (s x) key = Inr (if kv_key e = key then 0 else - 1)" unfolding x_def by (rule find_big_leaf [OF e(2) k0])
  show ?thesis
  proof (cases "kv_key e = key")
    case False
    define s1 where "s1 = upd_u64 0 8 ((kv_entry_count s + 1) mod 2 ^ 64) s"
    have s1x: "s1 x = s x" using ne(3) by (simp add: s1_def)
    have "entry_size (kv_key e) (length (kv_value e)) + entry_size key (length b) < 2 ^ 64"
      using bf(4,7) assms(3,4) by (simp add: entry_size_def MAX_KEY_LENGTH_def)
    then have full: "\<not> (leaf_usage (s x) + entry_size key (length b)) mod 2 ^ 64 \<le> leaf_capacity" using bf(3,5) by simp
    have "write_new fuel p i l x key b s = Some (Inl MemoryError)"
      unfolding write_new_def count_entry_ok s1_def [symmetric] bindO_simps s1x if_not_P [OF full] bf(1) by simp
    then show ?thesis
      using fp fe False ne assms(2,3) by (simp add: DiskMap_write_def on_pages_def count_op_def write_at_node_def valid_key_def Let_def)
  next
    case True
    then have "M key \<noteq> None" using Mk c e(1) by (simp add: kv_map_def)
    then have r: "next_free_page s + 19 \<le> 2 ^ 52 \<and> (\<forall>k<19. last_fpl_page_entries s k < 510)" using assms(8) by (elim disjE) (erule notE)
    note room = conjunct1 [OF r] conjunct2 [OF r]
    have "regions s rs" using e(2) by (simp add: big_leaf_def)
    note rg = regionsD [OF this]
    have "\<exists>s'. free_leaf_from (rs ! 0) 0 s = Inr s' \<and> s' x = s x"
    proof (rule free_leaf_keeps [OF tree_invD(1) [OF inv] st(1) _ rg(2)])
      show "regions_from 0 rs \<subseteq> A" using lf(4) by (simp add: regions_from_0)
      show "\<forall>k\<le>MAX_ORDER. x \<noteq> last_fpl_page s k"
        using fpl_not_in_use [OF tree_invD(1) [OF inv] st(2), of x] by (simp add: x_def)
    qed (use rg(3,5) room(2) ne(3) in \<open>simp_all add: next_region_start_def\<close>)
    then obtain s1 where s1: "free_leaf x s = Inr s1" "s1 x = s x" by (auto simp: free_leaf_def x_def)
    have "(x, 0) \<in> value_regions rs" using value_regionsI [OF st(1)] by (simp add: x_def)
    then have "x \<noteq> p" using lf(5) in_tree(1) by auto
    then have s2: "set_entry p i 0 s1 x = s x" using s1(2) by (simp add: set_entry_def)
    have put: "put_node_entry p i 0 s1 = Inr (set_entry p i 0 s1)"
      by (rule put_node_entry_ok [OF node_page(1) [OF inv in_tree(1)] in_tree(2)])
    define u where "u = entry_size key (length (kv_value e))"
    define w where "w = length key + 1"
    have w: "0 + length key + 1 = w" "\<not> PAGE_SIZE < DATA + w + 8" "get_u64 (s x) (DATA + w) = length (kv_value e)" "leaf_usage (s x) = u"
      "int u + int (length b) - int (length (kv_value e)) = int (w + 8 + length b)"
      using bf(3,8) True key_room [OF assms(3)] by (simp_all add: w_def u_def entry_size_def)
    have m: "int (w + 8 + length b) mod 2 ^ 64 = int (w + 8 + length b)"
      using assms(3,4) by (simp add: w_def MAX_KEY_LENGTH_def)
    have "write_existing fuel p i l x 0 key b s = Some (Inl MemoryError)"
    proof (cases "leaf_capacity < w + 8 + length b")
      case large: True
      then have "int leaf_capacity < int (w + 8 + length b)" by simp
      then show ?thesis
        unfolding write_existing_def if_P [OF bf(2)] s1(1) bindR_simps put bindO_simps Let_def w(1) s2 w(3,4,5) m bf(1)
        using w(2) by simp
    next
      case False
      then have small: "\<not> int leaf_capacity < int (w + 8 + length b)" by simp
      have past: "PAGE_SIZE < DATA + u" using bf(5) True by (simp add: u_def leaf_capacity_def)
      have less: "length b \<noteq> length (kv_value e)" "\<not> length (kv_value e) < length b"
        using False bf(5) True by (simp_all add: u_def entry_size_def w_def)
      have "update_value_trivially x 0 key b (set_entry p i 0 s1) = Inl MemoryError"
        unfolding update_value_trivially_def Let_def s2 w(1,3,4,5) m if_not_P [OF small] if_not_P [OF less(1)] if_not_P [OF less(2)]
        using past by simp
      then show ?thesis
        unfolding write_existing_def if_P [OF bf(2)] s1(1) bindR_simps put bindO_simps Let_def w(1) s2 w(3,4,5) m if_not_P [OF small]
        using w(2) by simp
    qed
    then show ?thesis
      using fp fe True ne assms(2,3) by (simp add: DiskMap_write_def on_pages_def count_op_def write_at_node_def valid_key_def Let_def)
  qed
qed

lemma single_big_leaf:
  assumes rep: "map_rep s A [k \<mapsto> v]" and fp: "find_parent f s k = Some (p, i, l)" and big: "leaf_capacity < entry_size k (length v)"
  shows "node_entry s p i \<noteq> 0" "leaf_next (s (node_entry s p i)) \<noteq> 0"
proof -
  obtain N C where inv: "tree_inv s A N C" and repC: "represents C [k \<mapsto> v]" using rep by (auto simp: map_rep_def)
  have q: "leads_to s k (p, i)" using fp unfolding leads_from_def find_parent_def by auto
  note Mk = represents_at [OF inv repC q]
  obtain rs es where c: "C (p, i) = Some (rs, es)" using Mk by (cases "C (p, i)") auto
  note lf = leaf_atD [OF tree_invD(7) [OF inv c]]
  note st = leaf_ok_start [OF lf(6) tree_invD(1) [OF inv] lf(4)]
  have ne: "node_entry s p i = rs ! 0" using lf(3) by simp
  show "node_entry s p i \<noteq> 0" using ne st(4) by simp
  have "kv_map es k = Some v" using Mk c by simp
  then have "(k, v) \<in> set (map (\<lambda>e. (kv_key e, kv_value e)) es)" unfolding kv_map_def by (rule map_of_SomeD)
  then obtain e where e: "e \<in> set es" "kv_key e = k" "kv_value e = v" by auto
  have "\<not> leaf_holds (s x) es" for x
  proof
    assume h: "leaf_holds (s x) es"
    obtain xs ys where "es = xs @ e # ys" using e(1) by (metis split_list)
    then have "entry_size k (length v) \<le> length (encode_entries es)" using e(2,3) by simp
    then show False using leaf_holds_bound [OF h] big by simp
  qed
  then obtain e' where "es = [e']" "big_leaf s rs e'" using lf(6) by (auto simp: leaf_ok_def)
  then show "leaf_next (s (node_entry s p i)) \<noteq> 0"
    using big_leaf_facts(2) [OF _ tree_invD(1) [OF inv] lf(4)] ne by simp
qed

theorem big_neighbour_overreads_witness:
  "\<exists>s s' f. DiskMap_format (\<lambda>_. zero_page) = Inr s \<and>
    write_at_node 9 ROOT_PAGE (get_bucket [74, 70, 90, 87, 46, 41, 95, 95, 88, 100] 1) 0 [74, 70, 90, 87, 46, 41, 95, 95, 88, 100]
      (Some (replicate 10000 7)) s = Some (Inr s') \<and>
    DiskMap_write f [98, 117, 117, 60, 60, 125, 87, 62, 33, 105] (Some [1]) \<lparr>dm_pages = s', op_count = 1\<rparr> = Some (Inl MemoryError)"
proof -
  define k0 k1 :: "byte list" where "k0 = [74, 70, 90, 87, 46, 41, 95, 95, 88, 100]" and "k1 = [98, 117, 117, 60, 60, 125, 87, 62, 33, 105]"
  have k: "valid_key k0" "valid_key k1" "length k0 = 10" "length k1 = 10" "k0 \<noteq> k1" by (simp_all add: k0_def k1_def valid_key_def)
  have hash: "fnv_hash k0 = fnv_hash k1" unfolding k0_def k1_def by (rule fnv_collision)
  obtain s s' A where s: "DiskMap_format (\<lambda>_. zero_page) = Inr s" "map_rep s' A [k0 \<mapsto> replicate 10000 7]"
    "write_at_node 9 ROOT_PAGE (get_bucket k0 1) 0 k0 (Some (replicate 10000 7)) s = Some (Inr s')"
    by (rule written_map [OF k(1), of "replicate 10000 7"]) (use k in \<open>simp_all add: MAX_KEY_LENGTH_def entry_size_def\<close>)
  obtain N C where inv: "tree_inv s' A N C" using s(2) by (auto simp: map_rep_def)
  obtain g p i l where fp: "find_parent g s' k0 = Some (p, i, l)"
    using tree_invD(5) [OF inv, of k0] unfolding leads_from_def find_parent_def by (metis prod.collapse)
  have fp1: "find_parent g s' k1 = Some (p, i, l)" using fp find_parent_same_hash [OF hash] by (simp add: find_parent_def)
  note leaf = single_big_leaf [OF s(2) fp]
  have "DiskMap_write g k1 (Some [1]) \<lparr>dm_pages = s', op_count = 1\<rparr> = Some (Inl MemoryError)"
    by (rule big_neighbour_overreads [OF s(2) k(2) _ _ fp1])
      (use leaf k in \<open>simp_all add: entry_size_def data_capacity MAX_KEY_LENGTH_def\<close>)
  then show ?thesis using s(1,3) unfolding k0_def k1_def by blast
qed

section \<open>Absent keys\<close>

lemma map_rep_allocate:
  assumes rep: "map_rep s A M" and al: "allocated k A s y s1"
  shows "map_rep s1 (insert (y, k) A) M"
proof -
  obtain N C where inv: "tree_inv s A N C" and C: "represents C M" using rep by (auto simp: map_rep_def)
  have ok: "space_ok s1 (insert (y, k) A)" and kept: "kept A s s1" using al by (simp_all add: allocated_def)
  have nodes: "s1 p = s p" if "p \<in> N" for p
    using node_page(3) [OF inv that] keptD(1) [OF kept] keptD(3) [OF kept, of p 0 p] by auto
  have sub: "leaf_regions C \<subseteq> A" using leaf_atD(4) [OF tree_invD(7) [OF inv]] unfolding leaf_regions_def by blast
  have "tree_inv s1 (insert (y, k) A) N C"
  proof (rule subtree_frame [OF inv ok nodes])
    show "s1 p = s p" if "(x, j) \<in> leaf_regions C" "p \<in> region x j" for x j p
      by (rule keptD(3) [OF kept _ that(2)]) (use that(1) sub in blast)
    show "leaf_regions C \<subseteq> insert (y, k) A" using sub by blast
    show "p = ROOT_PAGE \<or> (p, 0) \<in> insert (y, k) A" if "p \<in> N" for p using tree_invD(3) [OF inv that] by blast
  qed
  then show ?thesis using rep C keptD(2) [OF kept] unfolding map_rep_def by auto
qed

lemma metadata_byte: "s 0 (16 + i) = of_nat (next_free_page s div 256 ^ i mod 256)" if "i < 8"
proof -
  have "bytes_at (s 0) 16 8 = le_bytes 8 (next_free_page s)" by (simp add: next_free_page_def get_u64_def)
  then have "bytes_at (s 0) 16 8 ! i = le_bytes 8 (next_free_page s) ! i" by simp
  then show ?thesis using that by (simp add: nth_le_bytes)
qed

lemma fpl_byte: "s 0 (24 + i) = of_nat (last_fpl_page s 0 div 256 ^ i mod 256)" if "i < 8"
proof -
  have "bytes_at (s 0) 24 8 = le_bytes 8 (last_fpl_page s 0)" by (simp add: last_fpl_page_def get_u64_def)
  then have "bytes_at (s 0) 24 8 ! i = le_bytes 8 (last_fpl_page s 0) ! i" by simp
  then show ?thesis using that by (simp add: nth_le_bytes)
qed

text \<open>C13: Searching a key whose entry in its node is empty looks into the metadata page: in a file of 256
  to 512 MB whose first free list is on page 2, as in every file at first, the absent key of the one byte
  1 has a value of 8 GB there.\<close>

theorem absent_key_in_metadata:
  assumes "map_rep s A M" "find_parent f s [1] = Some (p, i, l)" "node_entry s p i = 0"
    "next_free_page s div 2 ^ 16 = 1" "last_fpl_page s 0 = 2"
  shows "M [1] = None \<and> DiskMap_read_value_length f [1] s = Some (Inr (Some (2 ^ 33)))"
proof
  obtain N C where inv: "tree_inv s A N C" and rep: "represents C M" using assms(1) by (auto simp: map_rep_def)
  have q: "leads_to s [1] (p, i)" using assms(2) unfolding leads_from_def find_parent_def by auto
  note Mk = represents_at [OF inv rep q]
  have "C (p, i) = None"
  proof (rule ccontr)
    assume "C (p, i) \<noteq> None"
    then obtain rs es where c: "C (p, i) = Some (rs, es)" by auto
    note lf = leaf_atD [OF tree_invD(7) [OF inv c]]
    show False using leaf_ok_start(4) [OF lf(6) tree_invD(1) [OF inv] lf(4)] lf(3) assms(3) by simp
  qed
  then show "M [1] = None" using Mk by simp
  have n: "next_free_page s div 256 ^ 2 = 1" using assms(4) by simp
  have d: "next_free_page s div 256 ^ (2 + j) = 1 div 256 ^ j" for j
    using n by (simp add: power_add div_mult2_eq)
  have b: "s 0 18 = 1" using metadata_byte [of 2 s] d [of 0] by simp
  have z: "s 0 (18 + j) = 0" if "0 < j" "j < 6" for j
  proof -
    have "1 div 256 ^ j = (0 :: nat)" by (rule div_less) (use that(1) one_less_power [of "256 :: nat" j] in simp)
    then show ?thesis using metadata_byte [of "2 + j" s] d [of j] that by (simp add: add.assoc [symmetric])
  qed
  have fpl: "s 0 24 = 2" "s 0 (24 + j) = 0" if "0 < j" "j < 4" for j
  proof -
    have "(2 :: nat) < 256 ^ 1" by simp
    also have "\<dots> \<le> 256 ^ j" by (rule power_increasing) (use that(1) in simp_all)
    finally have "2 div 256 ^ j = (0 :: nat)" by (rule div_less)
    then show "s 0 24 = 2" "s 0 (24 + j) = 0" using fpl_byte [of 0 s] fpl_byte [of j s] that assms(5) by simp_all
  qed
  have bytes: "bytes_at (s 0) 20 8 = [0, 0, 0, 0, 2, 0, 0, 0]"
    using z [of 2] z [of 3] z [of 4] z [of 5] fpl [of 1] fpl(2) [of 2] fpl(2) [of 3]
    by (simp add: bytes_at_def upt_rec numeral_eq_Suc)
  have len: "get_u64 (s 0) 20 = 2 ^ 33" unfolding get_u64_def bytes by simp
  have z19: "s 0 19 = 0" using z [of 1] by simp
  have "key_matches (s 0) 18 [1] = Inr True" using b z19 by (simp add: key_matches_def)
  then have "find_entry_in_leaf (s 0) [1] = Inr 0"
    using b by (simp add: find_entry_in_leaf_def find_from.simps [of _ _ 18] DATA_def)
  then show "DiskMap_read_value_length f [1] s = Some (Inr (Some (2 ^ 33)))"
    using assms(2,3) len by (simp add: DiskMap_read_value_length_def DATA_def)
qed

lemma allocate_from_end:
  assumes "last_fpl_page_entries s 15 = 0"
  shows "SpaceManager_allocate 15 s = Inr (next_free_page s, upd_u64 0 16 (nat ((int (next_free_page s) + 2 ^ 15) mod 2 ^ 64)) s)"
  using assms by (simp add: SpaceManager_allocate_def MAX_ORDER_def shift_one_def put_meta_defs put_upd Let_def)

theorem absent_key_in_metadata_witness:
  "\<exists>s x1 s1 x2 s2 f. DiskMap_format (\<lambda>_. zero_page) = Inr s \<and> SpaceManager_allocate 15 s = Inr (x1, s1) \<and>
    SpaceManager_allocate 15 s1 = Inr (x2, s2) \<and> DiskMap_read_value_length f [1] s2 = Some (Inr (Some (2 ^ 33)))"
proof -
  obtain s where s: "DiskMap_format (\<lambda>_. zero_page) = Inr s" "map_rep s {} Map.empty" "next_free_page s = 41" "is_zero (s ROOT_PAGE)"
    by (rule new_map [of "\<lambda>_. zero_page"]) simp_all
  have fl: "\<forall>k\<le>MAX_ORDER. last_fpl_page_entries s k = 0 \<and> last_fpl_page s k = k + 2"
    by (rule format_ok [of "\<lambda>_. zero_page"]) (use s(1) in simp_all)
  have e0: "last_fpl_page_entries s 15 = 0" "last_fpl_page s 0 = 2" using fl by (simp_all add: MAX_ORDER_def)
  define s1 where "s1 = upd_u64 0 16 32809 s"
  define s2 where "s2 = upd_u64 0 16 65577 s1"
  have a1: "SpaceManager_allocate 15 s = Inr (41, s1)" using allocate_from_end [OF e0(1)] s(3) by (simp add: s1_def)
  have m1: "next_free_page s1 = 32809" "last_fpl_page_entries s1 15 = 0" "last_fpl_page s1 0 = 2"
    using e0 by (simp_all add: s1_def)
  have a2: "SpaceManager_allocate 15 s1 = Inr (32809, s2)" using allocate_from_end [OF m1(2)] m1(1) by (simp add: s2_def)
  have m2: "next_free_page s2 = 65577" "last_fpl_page s2 0 = 2" using m1 by (simp_all add: s2_def)
  have "space_ok s {}" using s(2) by (auto simp: map_rep_def dest: tree_invD(1))
  then have al1: "allocated 15 {} s 41 s1" by (rule allocate_ok [of s "{}" 15]) (use s(3) a1 in simp_all)
  note r1 = map_rep_allocate [OF s(2) al1]
  have "space_ok s1 {(41, 15)}" using r1 by (auto simp: map_rep_def dest: tree_invD(1))
  then have al2: "allocated 15 {(41, 15)} s1 32809 s2" by (rule allocate_ok [of s1 _ 15]) (use m1(1) a2 in simp_all)
  note r2 = map_rep_allocate [OF r1 al2]
  have "s2 ROOT_PAGE = s ROOT_PAGE" by (simp add: s2_def s1_def upd_u64_def ROOT_PAGE_def)
  then have "is_zero (s2 ROOT_PAGE)" using s(4) by simp
  note f = new_map_parent [of s2, OF this]
  have "DiskMap_read_value_length (Suc 0) [1] s2 = Some (Inr (Some (2 ^ 33)))"
    using absent_key_in_metadata [OF r2 f] m2 by simp
  then show ?thesis using s(1) a1 a2 by blast
qed

section \<open>A removed leaf whose only sibling is an internal node\<close>

text \<open>A key with the same digits as one below the node \<open>p\<close>, but the digit \<open>j\<close> there, gets to that child with
  a level that is one too low.\<close>

lemma collapse_shifts:
  assumes inv: "tree_inv s A N C" and up: "g \<in> N" "gj < 512" "get_msb (node_entry s g gj) \<noteq> 0" "clear_msb (node_entry s g gj) = p"
    and j: "j < 512" "get_msb (node_entry s p j) \<noteq> 0" "node_entry s (clear_msb (node_entry s p j)) j = 0"
    and s': "collapsed s N p g gj (node_entry s p j) s'"
  shows "find_parent_from f s key a m = Some (p, i, l) \<Longrightarrow> a \<in> N - {p} \<Longrightarrow>
    (\<And>d. m < d \<Longrightarrow> d \<le> l \<Longrightarrow> get_bucket k (int d) = get_bucket key (int d)) \<Longrightarrow> get_bucket k (int l + 1) = j \<Longrightarrow>
    find_parent_from f s' k a m = Some (clear_msb (node_entry s p j), j, l)"
proof (induction f arbitrary: a m)
  case (Suc f)
  define Q where "Q = clear_msb (node_entry s p j)"
  note up' = node_above [OF inv up]
  note below = node_above [OF inv up'(1) j(1,2) refl, folded Q_def]
  define e0 where "e0 = get_bucket key (int m + 1)"
  have e0: "e0 < 512" by (simp add: e0_def get_bucket_less)
  have a: "a \<in> N" "a \<noteq> p" using Suc.prems(2) by simp_all
  have new: "node_entry s' b x = (if (b, x) = (g, gj) then node_entry s p j else node_entry s b x)" if "b \<in> N - {p}" "x < 512" for b x
    using s' that unfolding collapsed_def by blast
  have m0: "get_msb (node_entry s a e0) \<noteq> 0"
  proof
    assume "get_msb (node_entry s a e0) = 0"
    then show False using Suc.prems(1) a(2) unfolding e0_def by (auto simp: Let_def)
  qed
  then have nz: "node_entry s a e0 \<noteq> 0" using get_msb_0 by metis
  have f: "find_parent_from f s key (clear_msb (node_entry s a e0)) (m + 1) = Some (p, i, l)"
    using Suc.prems(1) m0 nz by (auto simp: Let_def e0_def [symmetric])
  have c: "clear_msb (node_entry s a e0) \<in> N" using tree_invD(4) [OF inv] a(1) e0 m0 by (simp add: closed_nodes_def)
  have ml: "m + 1 \<le> l" using find_parent_in [OF f c tree_invD(4) [OF inv]] by simp
  then have "get_bucket k (int (m + 1)) = get_bucket key (int (m + 1))" by (intro Suc.prems(3)) simp_all
  then have ek: "get_bucket k (int m + 1) = e0" unfolding e0_def by (simp add: add.commute)
  show ?case
  proof (cases "(a, e0) = (g, gj)")
    case True
    have p: "clear_msb (node_entry s a e0) = p" using True up(4) by simp
    obtain digits where d: "\<forall>p\<in>N. \<forall>i<512. get_msb (node_entry s p i) \<noteq> 0 \<longrightarrow> digits (clear_msb (node_entry s p i)) = digits p @ [i]"
      using tree_invD(9) [OF inv] by (auto simp: tree_shaped_def)
    have "length [m + 1..<l] = 0"
      using find_parent_digits [OF d tree_invD(4) [OF inv] f c] unfolding p by auto
    then have l: "l = m + 1" using ml by simp
    have nzj: "node_entry s p j \<noteq> 0" using j(2) get_msb_0 by metis
    have v: "node_entry s' a e0 = node_entry s p j" using new [of a e0] Suc.prems(2) e0 True by simp
    have "(Q, j) \<noteq> (g, gj)" using j(3) up(3) unfolding Q_def by auto
    then have zero: "node_entry s' Q j = 0"
      using new [of Q j] below(1,2) j(1,3) unfolding Q_def by auto
    obtain f' where f': "f = Suc f'" using f by (cases f) auto
    have kj: "get_bucket k (int m + 2) = j" using Suc.prems(4) l by (simp add: algebra_simps)
    show ?thesis
      unfolding f' find_parent_from.simps(2) [of "Suc f'"] Let_def ek v if_not_P [OF nzj]
      using nzj j(2) zero kj by (simp add: Q_def [symmetric] Let_def l algebra_simps)
  next
    case False
    have "clear_msb (node_entry s a e0) \<noteq> p" using up'(5) [OF a(1) e0 m0] False by auto
    then have ih: "find_parent_from f s' k (clear_msb (node_entry s a e0)) (m + 1) = Some (Q, j, l)"
      unfolding Q_def using f c Suc.prems(3,4) by (intro Suc.IH) simp_all
    have "node_entry s' a e0 = node_entry s a e0" unfolding new [OF Suc.prems(2) e0] if_not_P [OF False] ..
    then show ?thesis using ih m0 nz ek by (simp add: Let_def Q_def)
  qed
qed simp

lemma single_leaf:
  assumes inv: "tree_inv s A N C" and rep: "represents C M" and k: "valid_key key" and q: "leads_to s key (p, i)"
    and M: "M key \<noteq> None" and one: "leaf_entry_count (s (node_entry s p i)) = 1"
  obtains rs e where "C (p, i) = Some (rs, [e])" "kv_key e = key" "find_entry_in_leaf (s (rs ! 0)) key = Inr 0"
proof -
  have k0: "0 \<notin> set key" using k by (simp add: valid_key_def)
  obtain rs es where c: "C (p, i) = Some (rs, es)" using represents_at [OF inv rep q] M by (cases "C (p, i)") auto
  note l = leaf_atD [OF tree_invD(7) [OF inv c], simplified]
  have m: "kv_map es key \<noteq> None" using represents_at [OF inv rep q] c M by simp
  show thesis
    using l(6) unfolding leaf_ok_def
  proof (elim disjE exE conjE)
    fix x assume x: "rs = [x]" "leaf_holds (s x) es"
    then have "length es = 1" using one l(3) by (simp add: leaf_holds_def)
    then obtain e where e: "es = [e]" by (auto simp: length_Suc_conv)
    then have "kv_key e = key" using m by (simp add: kv_map_def split: if_splits)
    then show thesis using that c e x find_entry_holds [OF x(2) k0] by simp
  next
    fix e assume e: "es = [e]" "big_leaf s rs e"
    then have "kv_key e = key" using m by (simp add: kv_map_def split: if_splits)
    then show thesis using that c e find_big_leaf [OF e(2) k0] by simp
  qed
qed

lemma remove_lone:
  assumes inv: "tree_inv s A N C" and rep: "represents C M" and q: "leads_to s key (p, i)" and c: "C (p, i) = Some (rs, [e])"
    and k: "kv_key e = key" and room: "next_free_page s + 20 \<le> 2 ^ 52" and up: "above s N p g gi"
    and j: "j < 512" "j \<noteq> i" "get_msb (node_entry s p j) \<noteq> 0" "\<forall>j'<512. j' \<noteq> i \<longrightarrow> j' \<noteq> j \<longrightarrow> node_entry s p j' = 0"
  obtains s' gj where "remove_leaf g p i gi (rs ! 0) s = Inr s'" "g \<in> N" "gj < 512" "get_msb (node_entry s g gj) \<noteq> 0" "clear_msb (node_entry s g gj) = p"
    "collapsed s N p g gj (node_entry s p j) s'" "next_free_page s' \<le> next_free_page s + 20"
proof -
  note in_tree = leads_to_in [OF inv q]
  obtain s1 where s1: "free_leaf (rs ! 0) s = Inr s1" "tree_inv (set_entry p i 0 s1) (A - value_regions rs) N (C((p, i) := None))"
    "next_free_page (set_entry p i 0 s1) \<le> next_free_page s + 19"
    "\<forall>p'\<in>N. \<forall>j<512. (p', j) \<noteq> (p, i) \<longrightarrow> node_entry (set_entry p i 0 s1) p' j = node_entry s p' j"
    "node_entry (set_entry p i 0 s1) p i = 0"
    by (rule remove_leaf_page [OF inv rep q c k]) (use room in simp)
  define s2 where "s2 = set_entry p i 0 s1"
  note inv2 = s1(2) [folded s2_def] and frame = s1(4) [folded s2_def]
  have put: "put_node_entry p i 0 s1 = Inr s2"
    unfolding s2_def by (rule put_node_entry_ok [OF node_page(1) [OF inv in_tree(1)] in_tree(2)])
  obtain gj where g: "gi = int gj" "g \<in> N" "gj < 512" "get_msb (node_entry s g gj) \<noteq> 0" "clear_msb (node_entry s g gj) = p"
    using up by (auto simp: above_def)
  have gp: "(g, gj) \<noteq> (p, i)" using g(4) in_tree(3) by auto
  have e2: "node_entry s2 g gj = node_entry s g gj" by (rule frame [rule_format, OF g(2,3) gp])
  have same: "node_entry s2 p x = node_entry s p x" if "x < 512" "x \<noteq> i" for x
    by (rule frame [rule_format, OF in_tree(1) that(1)]) (use that(2) in simp)
  have nz: "node_entry s2 p j \<noteq> 0" using same [OF j(1,2)] j(3) get_msb_0 by metis
  have rest: "\<forall>x<512. x \<noteq> j \<longrightarrow> node_entry s2 p x = 0"
  proof (intro allI impI)
    fix x assume x: "x < (512::nat)" "x \<noteq> j"
    show "node_entry s2 p x = 0"
    proof (cases "x = i")
      case True
      then show ?thesis using s1(5) by (simp add: s2_def)
    next
      case False
      then show ?thesis using same [OF x(1) False] j(4) x by simp
    qed
  qed
  have v: "node_entry s p j < 2 ^ 64" unfolding node_entry_def by (rule get_u64_less)
  have r2: "next_free_page s2 + 1 \<le> 2 ^ 52" using s1(3) room by (simp add: s2_def)
  have g2: "get_msb (node_entry s2 g gj) \<noteq> 0" "clear_msb (node_entry s2 g gj) = p" using e2 g(4,5) by simp_all
  obtain s' where s': "put_node_entry g gj (node_entry s p j) s2 = Inr (set_entry g gj (node_entry s p j) s2)"
    "SpaceManager_free p 0 (set_entry g gj (node_entry s p j) s2) = Inr s'"
    "collapsed s2 N p g gj (node_entry s p j) s'" "next_free_page s' \<le> next_free_page s2 + 1"
    by (rule collapse_run [OF inv2 g(2,3) g2 v r2])
  have cs: "count_siblings s2 p [0..<512] (0, 0) = (1, node_entry s p j)"
    unfolding same [OF j(1,2), symmetric] by (rule count_siblings_one [OF j(1) nz rest])
  have run: "remove_leaf g p i gi (rs ! 0) s = Inr s'"
    unfolding remove_leaf_def s1(1) put bindR_simps cs Let_def prod.case g(1) using s'(1,2) by simp
  have coll: "collapsed s N p g gj (node_entry s p j) s'"
    unfolding collapsed_def
  proof (intro ballI allI impI)
    fix a x assume a: "a \<in> N - {p}" "x < (512::nat)"
    have "node_entry s2 a x = node_entry s a x" by (rule frame [rule_format]) (use a in auto)
    then show "node_entry s' a x = (if (a, x) = (g, gj) then node_entry s p j else node_entry s a x)"
      using s'(3) a unfolding collapsed_def by (metis (no_types, lifting))
  qed
  show thesis by (rule that [OF run g(2-5) coll]) (use s'(4) s1(3) in \<open>simp add: s2_def\<close>)
qed

text \<open>C7: Removing the last entry of a leaf whose node has one other child, an internal node, puts that child in
  the place of the node, one level up.  All keys that were below it are then searched under its entry for
  the digit that led to it before; if that entry is empty, they are all lost.\<close>

theorem remove_loses_subtree:
  assumes "map_rep s A M" "valid_key key" "find_parent f s key = Some (p, i, l)" "M key \<noteq> None" "p \<noteq> ROOT_PAGE"
    "leaf_entry_count (s (node_entry s p i)) = 1" "j < 512" "j \<noteq> i" "get_msb (node_entry s p j) \<noteq> 0"
    "\<forall>j'<512. j' \<noteq> i \<longrightarrow> j' \<noteq> j \<longrightarrow> node_entry s p j' = 0" "node_entry s (clear_msb (node_entry s p j)) j = 0"
    "next_free_page s + 20 < 2 ^ 16" "f \<le> fuel"
  shows "\<exists>s'. DiskMap_remove fuel key \<lparr>dm_pages = s, op_count = n\<rparr> = Some (Inr (True, \<lparr>dm_pages = s', op_count = (n + 1) mod 2 ^ 64\<rparr>)) \<and>
    (\<forall>k. get_bucket k (int l + 1) = j \<longrightarrow> (\<forall>d. 0 < d \<longrightarrow> d \<le> l \<longrightarrow> get_bucket k (int d) = get_bucket key (int d)) \<longrightarrow>
      DiskMap_read fuel k s' = Some (Inr None))"
proof -
  obtain N C where inv: "tree_inv s A N C" and rep: "represents C M" using assms(1) by (auto simp: map_rep_def)
  have fp: "find_parent fuel s key = Some (p, i, l)"
    using find_parent_mono [OF assms(3) [unfolded find_parent_def] assms(13)] by (simp add: find_parent_def)
  have q: "leads_to s key (p, i)" using fp unfolding leads_from_def find_parent_def by auto
  obtain rs e where c: "C (p, i) = Some (rs, [e])" "kv_key e = key" "find_entry_in_leaf (s (rs ! 0)) key = Inr 0"
    by (rule single_leaf [OF inv rep assms(2) q assms(4,6)])
  have ne: "node_entry s p i = rs ! 0" using leaf_atD(3) [OF tree_invD(7) [OF inv c(1)]] by simp
  obtain g gi where way: "remove_path fuel s key ROOT_PAGE ROOT_PAGE (- 1) 1 = Some (Some (g, p, i, gi))" "above s N p g gi"
    using remove_path_parent [OF inv fp leaf_entry_nonzero(1) [OF inv c(1), unfolded fst_conv snd_conv]] assms(5) by metis
  have room: "next_free_page s + 20 \<le> 2 ^ 52" using assms(12) by simp
  obtain s1 gj where s1: "remove_leaf g p i gi (rs ! 0) s = Inr s1" "g \<in> N" "gj < 512" "get_msb (node_entry s g gj) \<noteq> 0"
    "clear_msb (node_entry s g gj) = p" "collapsed s N p g gj (node_entry s p j) s1" "next_free_page s1 \<le> next_free_page s + 20"
    by (rule remove_lone [OF inv rep q c(1,2) room way(2) assms(7-10)])
  define s' where "s' = upd_u64 0 8 ((kv_entry_count s1 + 2 ^ 64 - 1) mod 2 ^ 64) s1"
  have "remove_at g p i gi key s = Inr (True, s')"
    using ne c(3) assms(6) s1(1) by (simp add: remove_at_def s'_def)
  then have run: "DiskMap_remove fuel key \<lparr>dm_pages = s, op_count = n\<rparr> = Some (Inr (True, \<lparr>dm_pages = s', op_count = (n + 1) mod 2 ^ 64\<rparr>))"
    using remove_impl_at [OF way(1)] by (simp add: DiskMap_remove_def count_op_def)
  have nodes: "node_entry s' a x = node_entry s1 a x" if "a \<noteq> 0" for a x using that by (simp add: s'_def node_entry_def)
  have coll: "collapsed s N p g gj (node_entry s p j) s'"
    using s1(6) nodes node_page(2) [OF inv] unfolding collapsed_def by simp
  have nf: "next_free_page s' < 2 ^ 16" using s1(7) assms(12) by (simp add: s'_def next_free_page_def upd_u64_def field_simps_pages)
  note Q = node_above [OF inv leads_to_in(1) [OF inv q] assms(7,9) refl]
  have root: "ROOT_PAGE \<in> N - {p}" using tree_invD(2) [OF inv] assms(5) by blast
  have "DiskMap_read fuel k s' = Some (Inr None)"
    if k: "get_bucket k (int l + 1) = j" "\<forall>d. 0 < d \<longrightarrow> d \<le> l \<longrightarrow> get_bucket k (int d) = get_bucket key (int d)" for k
  proof -
    have "find_parent fuel s' k = Some (clear_msb (node_entry s p j), j, l)"
      unfolding find_parent_def
      by (rule collapse_shifts [OF inv s1(2-5) assms(7,9,11) coll fp [unfolded find_parent_def] root _ k(1)]) (use k(2) in simp)
    moreover have "(clear_msb (node_entry s p j), j) \<noteq> (g, gj)" using assms(11) s1(4) by auto
    then have "node_entry s' (clear_msb (node_entry s p j)) j = 0"
      using coll Q(1,2) assms(7,11) unfolding collapsed_def by auto
    ultimately show ?thesis using metadata_not_found [OF nf] by (simp add: DiskMap_read_def DiskMap_read_part_def)
  qed
  then show ?thesis using run by blast
qed

lemma attach_frame:
  assumes inv: "subtree rt lv s A N C" and made: "leaf_made s A rs es s1" and a: "a \<in> N"
  shows "node_entry (set_entry p i (rs ! 0) s1) a j = (if (a, j) = (p, i) then rs ! 0 else node_entry s a j)" "0 < rs ! 0" "get_msb (rs ! 0) = 0"
proof -
  have m: "space_ok s1 (A \<union> value_regions rs)" "kept A s s1" "leaf_ok s1 rs es" using made by (simp_all add: leaf_made_def)
  note st = leaf_ok_start [OF m(3,1) Un_upper2]
  have "s1 a = s a" by (rule kept_page [OF m(2) node_page(3) [OF inv a]])
  then show "node_entry (set_entry p i (rs ! 0) s1) a j = (if (a, j) = (p, i) then rs ! 0 else node_entry s a j)"
    using st(3) by (simp add: node_entry_set page_ok_def) (simp add: node_entry_def)
  show "0 < rs ! 0" "get_msb (rs ! 0) = 0" using st(4,5) by simp_all
qed

text \<open>An example: the root has the child \<open>x\<close>, which has a leaf and the child \<open>y\<close>, which has a leaf.\<close>

definition key_a :: "byte list" where
  "key_a = [97]"

definition key_ad :: "byte list" where
  "key_ad = [97, 100]"

lemma example_buckets:
  "get_bucket key_a 1 = 446" "get_bucket key_a 2 = 219" "get_bucket key_ad 1 = 446" "get_bucket key_ad 2 = 411" "get_bucket key_ad 3 = 314"
  by (simp_all add: get_bucket_shallow get_bucket_hash_digit key_a_def key_ad_def fnv_hash_def fnv_step_def fnv_offset_def fnv_prime_def)

definition two_levels :: "pages \<Rightarrow> nat \<Rightarrow> nat \<Rightarrow> nat \<Rightarrow> nat \<Rightarrow> bool" where
  "two_levels s x y u v \<longleftrightarrow> node_entry s ROOT_PAGE 446 = set_msb x 1 \<and> node_entry s x 411 = set_msb y 1 \<and> node_entry s x 219 = u \<and>
     node_entry s y 314 = v \<and> node_entry s y 411 = 0 \<and> (\<forall>j<512. j \<noteq> 219 \<longrightarrow> j \<noteq> 411 \<longrightarrow> node_entry s x j = 0) \<and>
     x < 2 ^ 52 \<and> y < 2 ^ 52 \<and> get_msb u = 0 \<and> get_msb v = 0 \<and> x \<noteq> y \<and> x \<noteq> ROOT_PAGE \<and> y \<noteq> ROOT_PAGE"

lemma two_levels_ways:
  assumes "two_levels s x y u v"
  shows "find_parent 3 s key_a = Some (x, 219, 1)" "find_parent 3 s key_ad = Some (y, 314, 2)"
proof -
  have m: "get_msb (set_msb x 1) \<noteq> 0" "clear_msb (set_msb x 1) = x" "set_msb x 1 \<noteq> 0" "get_msb (set_msb y 1) \<noteq> 0" "clear_msb (set_msb y 1) = y" "set_msb y 1 \<noteq> 0"
    using assms msb_entry [of x] msb_entry [of y] by (auto simp: two_levels_def set_msb_def)
  show "find_parent 3 s key_a = Some (x, 219, 1)" "find_parent 3 s key_ad = Some (y, 314, 2)"
    using assms m by (simp_all add: find_parent_def numeral_3_eq_3 Let_def example_buckets two_levels_def)
qed

lemma two_levels_made:
  obtains s A N x y where "tree_inv s A N (\<lambda>_. None)" "two_levels s x y 0 0" "x \<in> N" "y \<in> N" "kv_entry_count s = 0" "next_free_page s \<le> 43"
proof -
  obtain s0 where s0: "DiskMap_format (\<lambda>_. zero_page) = Inr s0" "map_rep s0 {} Map.empty" "next_free_page s0 = 41" "is_zero (s0 ROOT_PAGE)"
    by (rule new_map [of "\<lambda>_. zero_page"]) simp_all
  note f0 = new_map_parent [of s0, OF s0(4)]
  obtain N C where "tree_inv s0 {} N C" and c0: "kv_entry_count s0 = 0" using s0(2) by (auto simp: map_rep_def)
  then have inv0: "tree_inv s0 {} {ROOT_PAGE} (\<lambda>_. None)" by (intro empty_tree s0(4)) (rule tree_invD(1))
  obtain x s1 where x: "SpaceManager_allocate 0 s0 = Inr (x, s1)"
    "tree_inv (set_entry ROOT_PAGE 446 (set_msb x 1) s1) (insert (x, 0) {}) (insert x {ROOT_PAGE}) ((\<lambda>_. None)((ROOT_PAGE, 446) := None))"
    "x \<notin> {ROOT_PAGE}" "kv_entry_count (set_entry ROOT_PAGE 446 (set_msb x 1) s1) = kv_entry_count s0"
    "next_free_page (set_entry ROOT_PAGE 446 (set_msb x 1) s1) \<le> next_free_page s0 + 1"
    "\<forall>key f. find_parent_from f s0 key ROOT_PAGE 0 = Some (ROOT_PAGE, 446, 0) \<longrightarrow>
      find_parent_from (f + 1) (set_entry ROOT_PAGE 446 (set_msb x 1) s1) key ROOT_PAGE 0 = Some (x, get_bucket key (int 0 + 2), 0 + 1)"
    by (rule insert_node [OF inv0, of ROOT_PAGE 446 "Suc 0" key_a 0]) (use f0 [of key_a] s0(3) example_buckets in \<open>simp_all add: find_parent_def\<close>)
  define t1 where "t1 = set_entry ROOT_PAGE 446 (set_msb x 1) s1"
  have inv1: "tree_inv t1 {(x, 0)} {x, ROOT_PAGE} (\<lambda>_. None)" using x(2) by (simp add: t1_def)
  have n1: "next_free_page t1 \<le> 42" "kv_entry_count t1 = 0" using x(4,5) s0(3) c0 by (simp_all add: t1_def)
  have ok0: "space_ok s0 {}" by (rule tree_invD(1) [OF inv0])
  have al1: "allocated 0 {} s0 x s1"
    by (rule allocate_ok [OF ok0, of 0]) (use x(1) s0(3) in simp_all)
  have x1: "x \<noteq> ROOT_PAGE" "page_ok x" using x(3) node_page(1) [OF inv1, of x] by simp_all
  have e1: "node_entry t1 ROOT_PAGE 446 = set_msb x 1" "\<And>j. j < 512 \<Longrightarrow> node_entry t1 x j = 0"
    using al1 x1 zero_node [of s1 x] by (simp_all add: t1_def node_entry_set allocated_def set_msb_def page_ok_def)
  have way: "find_parent_from (Suc 0 + 1) t1 key_ad ROOT_PAGE 0 = Some (x, 411, 1)"
    using x(6) [rule_format, OF f0(1) [of key_ad, unfolded find_parent_def example_buckets]]
    unfolding t1_def by (simp add: example_buckets del: find_parent_from.simps)
  obtain y s2 where y: "SpaceManager_allocate 0 t1 = Inr (y, s2)"
    "tree_inv (set_entry x 411 (set_msb y 1) s2) (insert (y, 0) {(x, 0)}) (insert y {x, ROOT_PAGE}) ((\<lambda>_. None)((x, 411) := None))"
    "y \<notin> {x, ROOT_PAGE}" "kv_entry_count (set_entry x 411 (set_msb y 1) s2) = kv_entry_count t1"
    "next_free_page (set_entry x 411 (set_msb y 1) s2) \<le> next_free_page t1 + 1"
    by (rule insert_node [OF inv1, of x 411 "Suc 0 + 1" key_ad 1]) (use e1(2) [of 411] way n1(1) in \<open>simp_all del: find_parent_from.simps\<close>)
  define t2 where "t2 = set_entry x 411 (set_msb y 1) s2"
  have inv2: "tree_inv t2 {(y, 0), (x, 0)} {y, x, ROOT_PAGE} (\<lambda>_. None)" using y(2) by (simp add: t2_def)
  have al2: "allocated 0 {(x, 0)} t1 y s2"
    by (rule allocate_ok [OF tree_invD(1) [OF inv1], of 0]) (use y(1) n1(1) in simp_all)
  have y1: "y \<noteq> x" "y \<noteq> ROOT_PAGE" "page_ok y" using y(3) node_page(1) [OF inv2, of y] by simp_all
  have kp: "s2 ROOT_PAGE = t1 ROOT_PAGE" "s2 x = t1 x" "is_zero (s2 y)"
    using al2 keptD(1,3) [of "{(x, 0)}" t1 s2] by (simp_all add: allocated_def ROOT_PAGE_def)
  have e2: "node_entry t2 ROOT_PAGE 446 = set_msb x 1" "node_entry t2 x 411 = set_msb y 1" "\<And>j. j < 512 \<Longrightarrow> j \<noteq> 411 \<Longrightarrow> node_entry t2 x j = 0"
    "\<And>j. j < 512 \<Longrightarrow> node_entry t2 y j = 0"
    using e1 kp x1 y1 zero_node [of s2 y] by (simp_all add: t2_def node_entry_set set_msb_def page_ok_def) (simp_all add: node_entry_def)
  have "two_levels t2 x y 0 0" using e2 x1 y1 by (simp add: two_levels_def page_ok_def)
  then show thesis
    by (rule that [OF inv2]) (use y(4,5) n1 in \<open>simp_all add: t2_def\<close>)
qed

lemma two_levels_attach:
  assumes inv: "tree_inv s A N C" and sh: "two_levels s x y u v" and N: "x \<in> N" "y \<in> N" and made: "leaf_made s A rs es s1"
  shows "u = 0 \<Longrightarrow> two_levels (set_entry x 219 (rs ! 0) s1) x y (rs ! 0) v" "v = 0 \<Longrightarrow> two_levels (set_entry y 314 (rs ! 0) s1) x y u (rs ! 0)"
  using sh attach_frame [OF inv made tree_invD(2) [OF inv]] attach_frame(1) [OF inv made N(1)] attach_frame(1) [OF inv made N(2)]
  by (simp_all add: two_levels_def)

lemma two_levels_example:
  obtains s A where "map_rep s A [key_a \<mapsto> [1], key_ad \<mapsto> [2]]" "next_free_page s \<le> 45"
    "\<exists>x y u v. two_levels s x y u v \<and> leaf_entry_count (s u) = 1"
proof -
  obtain s A N x y where s: "tree_inv s A N (\<lambda>_. None)" "two_levels s x y 0 0" "x \<in> N" "y \<in> N" "kv_entry_count s = 0" "next_free_page s \<le> 43"
    by (rule two_levels_made)
  define a d where "a = \<lparr>kv_key = key_a, kv_value = [1]\<rparr>" and "d = \<lparr>kv_key = key_ad, kv_value = [2]\<rparr>"
  have fits: "total_entries_size [a] \<le> leaf_capacity" "total_entries_size [d] \<le> leaf_capacity"
    "valid_key key_a" "valid_key key_ad" "key_a \<noteq> key_ad" "length key_a \<le> MAX_KEY_LENGTH" "length key_ad \<le> MAX_KEY_LENGTH"
    by (simp_all add: total_entries_size_def entry_size_def data_capacity a_def d_def key_a_def key_ad_def valid_key_def MAX_KEY_LENGTH_def)
  have z: "node_entry s x 219 = 0" "node_entry s y 314 = 0" using s(2) by (simp_all add: two_levels_def)
  obtain u s1 where u: "create_leaf [d] s = Inr (u, s1)" "leaf_made s A [u] [d] s1" "next_free_page s1 \<le> next_free_page s + 1"
    by (rule create_leaf_made [OF tree_invD(1) [OF s(1)], of "[d]"]) (use s(6) fits in \<open>simp_all add: d_def\<close>)
  have way: "leads_to s key_ad (y, 314)" unfolding leads_to_def using two_levels_ways(2) [OF s(2)] by auto
  define t1 where "t1 = set_entry y 314 u s1"
  have at1: "tree_inv t1 (A \<union> value_regions [u]) N ((\<lambda>_. None)((y, 314) \<mapsto> ([u], [d])))" "kv_entry_count t1 = 0" "next_free_page t1 \<le> 44"
    using attach_leaf [OF s(1,4) _ z(2) refl u(2)] way u(3) s(5,6) by (simp_all add: t1_def d_def)
  have sh1: "two_levels t1 x y 0 u" using two_levels_attach(2) [OF s(1-4) u(2)] by (simp add: t1_def)
  have z1: "node_entry t1 x 219 = 0" "x \<noteq> y" using sh1 by (simp_all add: two_levels_def)
  obtain v s2 where v: "create_leaf [a] t1 = Inr (v, s2)" "leaf_made t1 (A \<union> value_regions [u]) [v] [a] s2" "next_free_page s2 \<le> next_free_page t1 + 1"
    by (rule create_leaf_made [OF tree_invD(1) [OF at1(1)], of "[a]"]) (use at1(3) fits in \<open>simp_all add: a_def\<close>)
  have way1: "leads_to t1 key_a (x, 219)" unfolding leads_to_def using two_levels_ways(1) [OF sh1] by auto
  define t2 where "t2 = set_entry x 219 v s2"
  have none: "((\<lambda>_. None)((y, 314) \<mapsto> ([u], [d]))) (x, 219) = None" using z1(2) by simp
  define C :: leaves where "C = ((\<lambda>_. None)((y, 314) \<mapsto> ([u], [d])))((x, 219) \<mapsto> ([v], [a]))"
  have at2: "tree_inv t2 (A \<union> value_regions [u] \<union> value_regions [v]) N C" "kv_entry_count t2 = 0" "next_free_page t2 \<le> 45"
  proof -
    have keys: "distinct (map kv_key [a])" "\<forall>e\<in>set [a]. leads_to t1 (kv_key e) (x, 219)" using way1 by (simp_all add: a_def)
    note al = attach_leaf [OF at1(1) s(3) _ z1(1) none v(2) keys, unfolded nth_Cons_0, folded t2_def C_def]
    show "tree_inv t2 (A \<union> value_regions [u] \<union> value_regions [v]) N C" by (rule al(1)) simp
    show "kv_entry_count t2 = 0" "next_free_page t2 \<le> 45" using al(2,3) at1(2,3) v(3) by simp_all
  qed
  have sh2: "two_levels t2 x y v u" using two_levels_attach(1) [OF at1(1) sh1 s(3,4) v(2)] by (simp add: t2_def)
  define t3 where "t3 = upd_u64 0 8 2 t2"
  have c3: "kv_entry_count t3 = 2" "next_free_page t3 \<le> 45" using space_ok_count(2,3) [OF tree_invD(1) [OF at2(1)], of 2] at2(3) by (simp_all add: t3_def)
  have inv3: "tree_inv t3 (A \<union> value_regions [u] \<union> value_regions [v]) N C" unfolding t3_def by (rule tree_inv_count [OF at2(1)])
  have "represents C [key_a \<mapsto> [1], key_ad \<mapsto> [2]]"
    using z1(2) fits(5) by (auto simp: represents_def C_def a_def d_def)
  moreover have "card (dom [key_a \<mapsto> [1 :: byte], key_ad \<mapsto> [2]]) = 2" using fits(5) by simp
  ultimately have "map_rep t3 (A \<union> value_regions [u] \<union> value_regions [v]) [key_a \<mapsto> [1], key_ad \<mapsto> [2]]"
    unfolding map_rep_def using inv3 c3(1) fits(6,7) by auto
  moreover have "C (x, 219) = Some ([v], [a])" by (simp add: C_def)
  then have "leaf_ok t3 [v] [a]" using leaf_atD(6) [OF tree_invD(7) [OF inv3]] by blast
  then have "leaf_entry_count (t3 v) = 1" by (auto simp: leaf_ok_def leaf_holds_def big_leaf_def)
  moreover have "node_entry t3 p j = node_entry t2 p j" if "p \<in> {x, y, ROOT_PAGE}" for p j
    using node_page(2) [OF at2(1), of p] s(3,4) tree_invD(2) [OF s(1)] that by (auto simp: t3_def node_entry_def)
  then have "two_levels t3 x y v u" using sh2 unfolding two_levels_def by simp
  ultimately show thesis using that c3(2) by blast
qed

theorem remove_loses_subtree_witness:
  "\<exists>s A s'. map_rep s A [key_a \<mapsto> [1], key_ad \<mapsto> [2]] \<and>
    DiskMap_remove 3 key_a \<lparr>dm_pages = s, op_count = 2\<rparr> = Some (Inr (True, \<lparr>dm_pages = s', op_count = 3\<rparr>)) \<and>
    DiskMap_read 3 key_ad s' = Some (Inr None)"
proof -
  obtain s A where s: "map_rep s A [key_a \<mapsto> [1], key_ad \<mapsto> [2]]" "next_free_page s \<le> 45"
    "\<exists>x y u v. two_levels s x y u v \<and> leaf_entry_count (s u) = 1" by (rule two_levels_example)
  then obtain x y u v where sh: "two_levels s x y u v" "leaf_entry_count (s u) = 1" by blast
  have e: "node_entry s x 411 = set_msb y 1" "node_entry s x 219 = u" "node_entry s y 411 = 0" "\<forall>j<512. j \<noteq> 219 \<longrightarrow> j \<noteq> 411 \<longrightarrow> node_entry s x j = 0"
    "x \<noteq> ROOT_PAGE" "y < 2 ^ 63" using sh(1) by (simp_all add: two_levels_def)
  note m = msb_entry [OF e(6)]
  have k: "valid_key key_a" "[key_a \<mapsto> [1 :: byte], key_ad \<mapsto> [2]] key_a \<noteq> None" by (simp_all add: valid_key_def key_a_def)
  from remove_loses_subtree [OF s(1) k(1) two_levels_ways(1) [OF sh(1)] k(2) e(5) _ _ _ _ e(4) _ _ order_refl, of 2]
  obtain s' where s': "DiskMap_remove 3 key_a \<lparr>dm_pages = s, op_count = 2\<rparr> = Some (Inr (True, \<lparr>dm_pages = s', op_count = 3\<rparr>))"
    "\<forall>k. get_bucket k (int 1 + 1) = 411 \<longrightarrow> (\<forall>d. 0 < d \<longrightarrow> d \<le> 1 \<longrightarrow> get_bucket k (int d) = get_bucket key_a (int d)) \<longrightarrow>
      DiskMap_read 3 k s' = Some (Inr None)"
    using e(1-3) m sh(2) s(2) by auto
  have "get_bucket key_ad (int d) = get_bucket key_a (int d)" if "0 < d" "d \<le> 1" for d
    using that example_buckets by (cases "d = 1") simp_all
  moreover have "get_bucket key_ad (int 1 + 1) = 411" using example_buckets by simp
  ultimately have "DiskMap_read 3 key_ad s' = Some (Inr None)" using s'(2) by blast
  then show ?thesis using s(1) s'(1) by blast
qed

end
