(* ===== verification/Spec2Isabelle.thy ===== *)
theory Spec2Isabelle
  imports Prelude Hashing Replacer Buffer_Pool Wal_Record Redo Wal Durability Transactions Recovery Database Wal_Properties Pages Space_Manager Leaf Big_Value Disk_Map Map_Invariant Map_Write Map_Subtree Map_Build Map_Split Map_Properties Map_Trace Map_Check Map_Remove Map_Part Map_Sample Map_Transactions Tools Map_Limits
begin

text \<open>
  A verification of diskmap, a library that keeps a map from byte strings to byte strings in a file,
  with transactions and a write-ahead log.

  \<^bold>\<open>The program.\<close>  Four layers, each using the one below.
  The buffer pool (\<open>buffer_pool.h/.cpp\<close>, with the eviction policy of \<open>replacer.h/.cpp\<close>) keeps pages of
  4096 bytes in memory and pins them through handles.
  The write-ahead log (\<open>wal.h/.cpp\<close>, with \<open>checksum.h\<close>) logs every change of a page before applying it,
  makes commits durable, undoes aborted transactions, writes checkpoints and recovers after a crash.
  The space manager (\<open>space_manager.h/.cpp\<close>) hands out regions of \<open>2 ^ order\<close> pages.
  The map itself (\<open>diskmap.h/.cpp\<close>, with \<open>big_value.h/.cpp\<close>, \<open>page_types.h\<close> and \<open>fnv_hash.h\<close>) is a tree of
  internal nodes that select one of 512 entries by a digit of the hash of the key; its leaves hold the
  entries of one page, or one entry whose value goes on in further regions, each twice as long as the
  one before.

  \<^bold>\<open>The theories.\<close>
  \<open>Prelude\<close>: results with errors (\<open>exc\<close>, \<open>bindR\<close>), bytes, little-endian numbers, pages.
  \<open>Hashing\<close>: \<open>fnv_hash.h\<close>, \<open>checksum.h\<close>, \<open>get_bucket\<close>.
  \<open>Replacer\<close>: the linked lists in an explicit heap, and their refinement of lists of values.
  \<open>Buffer_Pool\<close>: the pool as a record; \<open>retain\<close> is split into the part under the mutex and the I/O after it.
  \<open>Wal_Record\<close>: the byte layout of log records.  \<open>Wal\<close>: the operations of the log on the pair of pool and log.
  \<open>Redo\<close>, \<open>Durability\<close>, \<open>Transactions\<close>, \<open>Recovery\<close>: what replaying a log does, which bytes a crash leaves,
  and the invariant that every operation of the log keeps.
  \<open>Database\<close>: pool, log, transactions, readers, checkpoints and crashes as a transition system, which
  refines a specification with two versions of the pages.  \<open>Wal_Properties\<close>: single properties of the log.
  \<open>Pages\<close>: what a transaction sees, a function from page numbers to pages, and its writes, which are the
  write events of \<open>Database\<close>.
  \<open>Space_Manager\<close>: \<open>allocate\<close>, \<open>free\<close>, and the invariant \<open>space_ok s A\<close> with \<open>A\<close> the regions in use.
  \<open>Leaf\<close>: the entries of one page.  \<open>Big_Value\<close>: values in several regions.
  \<open>Disk_Map\<close>: the operations on the tree.  \<open>Map_Invariant\<close>: \<open>map_rep s A M\<close>, the pages \<open>s\<close> hold the map \<open>M\<close> in
  the regions \<open>A\<close>.  \<open>Map_Write\<close>, \<open>Map_Subtree\<close>, \<open>Map_Build\<close>, \<open>Map_Split\<close>: writes to one leaf, subtrees put in
  the place of leaves, \<open>create_subtree\<close>, split and rebuilt leaves.  \<open>Map_Remove\<close>: removal, with the nodes it
  takes out of the tree.  \<open>Map_Part\<close>: \<open>write_part\<close> and \<open>append\<close>, with values that grow in place.
  \<open>Map_Properties\<close>: reads and writes, the tree as a map.  \<open>Map_Check\<close>: \<open>verify_integrity\<close> and \<open>debug_dump\<close>.
  \<open>Map_Sample\<close>: \<open>sample\<close>.  \<open>Map_Trace\<close>: every change an operation makes to the tree is a sequence of page
  writes, so that the page store can carry it out.
  \<open>Map_Transactions\<close>: the object \<open>DiskMap\<close> with its lock and its transactions, and everything together as a
  transition system on top of \<open>Database\<close>, which refines a map with a live and a committed version.  The
  destructor of an unfinished transaction is two steps there, as it releases the lock before it undoes
  the changes; transactions that have committed or aborted can still read, without a lock.
  \<open>Tools\<close>: the programs \<open>dump\<close> and \<open>remove\<close>.
  \<open>Map_Limits\<close>: where the operations go wrong, among them keys with the same hash, neighbours of values of
  several regions, searches that end in the metadata page, and removals beside a subtree.

  \<^bold>\<open>How the properties fit together.\<close>  The replacer refines lists, and the pool uses that to keep pinned
  pages.  The invariant of the log says what replaying its stable part gives; from it follow the
  refinement of the page store and recovery.  The invariant of the space manager keeps regions apart,
  which the values of several regions and the tree rest on.  The tree refines a map, for each of \<open>write\<close>,
  \<open>write_part\<close>, \<open>append\<close>, \<open>remove\<close> and the reads.  \<open>map_store_refines\<close> joins the two refinements.

  \<^bold>\<open>Fuel.\<close>  The loops of the log, the pool and the leaves end and are total functions.  The walks through the
  tree have fuel and give \<open>None\<close> without it; the properties state how much is enough (any amount with
  which \<open>find_parent\<close> ends for reads and removals, 9 more levels for a write, as the hash has 8 levels of
  digits per alternative), or that all amounts from some one on are (\<open>verify_integrity\<close>, \<open>debug_dump\<close>, \<open>sample\<close>).

  \<^bold>\<open>Bounds.\<close>  Page numbers below \<open>2 ^ 52\<close> (\<open>page_ok\<close>), so that the location of each byte has 64 bits; values
  up to \<open>2 ^ 31 - 2 ^ 13\<close> bytes, beyond which \<open>int\<close> expressions of \<open>big_value.cpp\<close> overflow; keys without NUL
  characters (\<open>valid_key\<close>); log sequence numbers that do not wrap around (\<open>lsn_room\<close>); for reads, fewer than
  65536 pages, as a search for an absent key looks into the metadata page (\<open>absent_key_in_metadata\<close>).
  \<open>write\<close> does not shorten values and \<open>write_part\<close> does not leave a gap behind one.  Opening a file again
  assumes its magic string.

  \<^bold>\<open>Not modelled.\<close>  The tests.  Opening and closing of files and the flags of \<open>open()\<close>.
  Threads: an operation under a mutex is one step, and in \<open>Map_Transactions\<close> so is an operation of a
  transaction, though readers run in parallel (what can go wrong in the pool then is shown in
  \<open>Buffer_Pool\<close>); a read-write transaction that begins between the two parts of a destructor.  Pages that the tree operations keep pinned across
  calls: the tree layer sees pages, not slots, so that it never finds the pool full.  Failing host
  allocations and short reads and writes of files, except for the torn write in \<open>Wal_Properties\<close>.  Pointers
  into a page wrap around at \<open>2 ^ 64\<close> for corrupt lengths; here they are numbers that do not.  The values of \<open>rand()\<close> and the order in which a set is
  traversed are parameters.
\<close>

end
